(* ===== verification/Prelude.thy ===== *)
theory Prelude
  imports Main "HOL-Library.Sublist"
begin

text \<open>
  The vocabulary the components share.  A Go \<open>string\<close> is a sequence of bytes, and so is
  Isabelle's \<open>string\<close> (a list of 8-bit \<open>char\<close>s), so every path, name and hash text of
  the program is a \<open>string\<close>.  This theory models the functions of Go's package
  \<open>strings\<close> the program uses on them (\<open>HasPrefix\<close>, \<open>HasSuffix\<close>,
  \<open>Contains\<close>, \<open>Split\<close>), a Go map used as a set, and the list lemmas the components
  share.  The collections \<open>go_string\<close> and \<open>list_cut\<close> hold the rewriting rules
  of the two groups.
\<close>

named_theorems go_string \<open>facts about the functions of Go's package strings\<close>
named_theorems list_cut \<open>facts about cutting a list at a bound\<close>

subsection \<open>Package strings\<close>

type_synonym gostring = string
type_synonym path = string

text \<open>\<open>strings.HasPrefix\<close> and \<open>strings.HasSuffix\<close>, as the package writes them.\<close>

definition HasPrefix :: "gostring \<Rightarrow> gostring \<Rightarrow> bool" where
  "HasPrefix s p \<longleftrightarrow> length p \<le> length s \<and> take (length p) s = p"

definition HasSuffix :: "gostring \<Rightarrow> gostring \<Rightarrow> bool" where
  "HasSuffix s p \<longleftrightarrow> length p \<le> length s \<and> drop (length s - length p) s = p"

text \<open>\<open>strings.Contains\<close>: some position of the text starts with the pattern.\<close>

fun Contains :: "gostring \<Rightarrow> gostring \<Rightarrow> bool" where
  "Contains [] p \<longleftrightarrow> p = []"
| "Contains (c # s) p \<longleftrightarrow> HasPrefix (c # s) p \<or> Contains s p"

text \<open>\<open>strings.Split(s, sep)\<close> for a separator of one byte.\<close>

fun split_byte :: "char \<Rightarrow> gostring \<Rightarrow> gostring list" where
  "split_byte sep [] = [[]]"
| "split_byte sep (c # s) =
     (if c = sep then [] # split_byte sep s
      else (case split_byte sep s of [] \<Rightarrow> [[c]] | w # ws \<Rightarrow> (c # w) # ws))"

text \<open>\<open>strings.Join(ws, "/")\<close>.\<close>

fun join_byte :: "char \<Rightarrow> gostring list \<Rightarrow> gostring" where
  "join_byte sep [] = []"
| "join_byte sep [w] = w"
| "join_byte sep (w # v # ws) = w @ sep # join_byte sep (v # ws)"

lemma HasPrefix_iff [go_string]: "HasPrefix s p \<longleftrightarrow> (\<exists>t. s = p @ t)"
proof
  assume "HasPrefix s p"
  then have "s = p @ drop (length p) s"
    by (metis HasPrefix_def append_take_drop_id)
  then show "\<exists>t. s = p @ t" ..
qed (auto simp: HasPrefix_def)

lemma HasPrefix_append [simp]: "HasPrefix (p @ s) p"
  by (auto simp: HasPrefix_iff)

lemma HasPrefix_Cons [simp]: "HasPrefix (c # s) (d # p) \<longleftrightarrow> c = d \<and> HasPrefix s p"
  by (auto simp: HasPrefix_iff)

lemma HasPrefix_Nil [simp]: "HasPrefix s []" "HasPrefix [] p \<longleftrightarrow> p = []"
  by (auto simp: HasPrefix_iff)

lemma HasPrefix_trans: "HasPrefix s p \<Longrightarrow> HasPrefix p q \<Longrightarrow> HasPrefix s q"
  by (auto simp: HasPrefix_iff)

lemma HasSuffix_iff [go_string]: "HasSuffix s p \<longleftrightarrow> (\<exists>t. s = t @ p)"
proof
  assume "HasSuffix s p"
  then have "s = take (length s - length p) s @ p"
    by (metis HasSuffix_def append_take_drop_id)
  then show "\<exists>t. s = t @ p" ..
qed (auto simp: HasSuffix_def)

lemma Contains_iff [go_string]: "Contains s p \<longleftrightarrow> (\<exists>a b. s = a @ p @ b)"
proof (induction s)
  case (Cons c s)
  note IH = Cons.IH
  show ?case
  proof
    assume "Contains (c # s) p"
    then consider "HasPrefix (c # s) p" | "Contains s p" by auto
    then show "\<exists>a b. c # s = a @ p @ b"
    proof cases
      case 1
      then show ?thesis by (metis HasPrefix_iff append_Nil)
    next
      case 2
      then show ?thesis using Cons.IH by (metis append_Cons)
    qed
  next
    assume "\<exists>a b. c # s = a @ p @ b"
    then obtain a b where ab: "c # s = a @ p @ b" by blast
    show "Contains (c # s) p"
    proof (cases a)
      case Nil
      with ab have "HasPrefix (c # s) p" by (auto simp: HasPrefix_iff)
      then show ?thesis by simp
    next
      case (Cons a' as)
      with ab have "s = as @ p @ b" by simp
      then have "Contains s p" using IH by blast
      then show ?thesis by simp
    qed
  qed
qed auto

lemma split_byte_nonempty [simp]: "split_byte sep s \<noteq> []"
  by (induction s) (auto split: list.splits)

lemma join_split_byte [simp]: "join_byte sep (split_byte sep s) = s"
proof (induction s)
  case (Cons c s)
  show ?case
  proof (cases "split_byte sep s")
    case Nil
    then show ?thesis by simp
  next
    case (Cons w ws)
    then show ?thesis using Cons.IH by (cases ws) auto
  qed
qed simp

lemma split_byte_free: "w \<in> set (split_byte sep s) \<Longrightarrow> sep \<notin> set w"
  by (induction s arbitrary: w) (auto split: if_splits list.splits)

lemma split_byte_id: "sep \<notin> set w \<Longrightarrow> split_byte sep w = [w]"
  by (induction w) auto

lemma split_byte_append: "sep \<notin> set w \<Longrightarrow> split_byte sep (w @ sep # s) = w # split_byte sep s"
  by (induction w) auto

lemma split_join_byte:
  "ws \<noteq> [] \<Longrightarrow> \<forall>w \<in> set ws. sep \<notin> set w \<Longrightarrow> split_byte sep (join_byte sep ws) = ws"
  by (induction ws rule: join_byte.induct) (auto simp: split_byte_id split_byte_append)

lemma split_join_append:
  "ws \<noteq> [] \<Longrightarrow> \<forall>w \<in> set ws. sep \<notin> set w
    \<Longrightarrow> split_byte sep (join_byte sep ws @ sep # t) = ws @ split_byte sep t"
  by (induction ws rule: join_byte.induct) (auto simp: split_byte_append)

lemma join_byte_Cons: "ws \<noteq> [] \<Longrightarrow> join_byte sep (w # ws) = w @ sep # join_byte sep ws"
  by (cases ws) auto

lemma join_byte_append:
  "us \<noteq> [] \<Longrightarrow> vs \<noteq> [] \<Longrightarrow> join_byte sep (us @ vs) = join_byte sep us @ sep # join_byte sep vs"
proof (induction us)
  case (Cons u us)
  then show ?case by (cases us) (auto simp: join_byte_Cons)
qed simp

subsection \<open>A Go map used as a set\<close>

text \<open>\<open>map[string]bool\<close> holds only true entries in this program: it is the list of its keys.\<close>

definition uniq :: "'a list \<Rightarrow> 'a list" where
  "uniq xs = rev (fold (\<lambda>x acc. if x \<in> set acc then acc else x # acc) xs [])"

lemma fold_uniq_set:
  "set (fold (\<lambda>x acc. if x \<in> set acc then acc else x # acc) xs acc) = set acc \<union> set xs"
  by (induction xs arbitrary: acc) auto

lemma fold_uniq_distinct:
  "distinct acc \<Longrightarrow> distinct (fold (\<lambda>x acc. if x \<in> set acc then acc else x # acc) xs acc)"
  by (induction xs arbitrary: acc) auto

lemma set_uniq [simp]: "set (uniq xs) = set xs"
  by (simp add: uniq_def fold_uniq_set)

lemma distinct_uniq [simp]: "distinct (uniq xs)"
  by (simp add: uniq_def fold_uniq_distinct)

subsection \<open>Cutting lists\<close>

lemma sum_list_take_le [list_cut]: "sum_list (take n xs) \<le> sum_list (xs :: nat list)"
  by (metis append_take_drop_id le_add1 sum_list_append)

lemma set_take_drop [list_cut]: "set xs = set (take n xs) \<union> set (drop n xs)"
  by (metis append_take_drop_id set_append)

lemma sum_list_split [list_cut]:
  "sum_list (take n xs) + sum_list (drop n xs) = sum_list (xs :: nat list)"
  by (metis append_take_drop_id sum_list_append)

lemma sorted_wrt_take_drop:
  "sorted_wrt R xs \<Longrightarrow> x \<in> set (take n xs) \<Longrightarrow> y \<in> set (drop n xs) \<Longrightarrow> R x y"
  by (metis append_take_drop_id sorted_wrt_append)

end
