(* ===== verification/Utf8.thy ===== *)
theory Utf8
  imports Prelude
begin

text \<open>
  Go's package \<open>unicode/utf8\<close> as the program uses it: \<open>DecodeRuneInString\<close>,
  \<open>AppendRune\<close>, \<open>ValidString\<close>, and the rune loop they support.  Bytes are
  naturals below 256 here (\<open>of_char\<close> of a string's characters); a rune is the natural
  number of its code point.  The two central facts are that decoding what was encoded gives
  the rune and its width back, whatever follows it, and that a decoded rune that is not the
  one-byte error is exactly the encoding of itself.
\<close>

definition RuneError :: nat where
  "RuneError = 0xFFFD"

definition valid_rune :: "nat \<Rightarrow> bool" where
  "valid_rune r \<longleftrightarrow> r < 0xD800 \<or> 0xDFFF < r \<and> r \<le> 0x10FFFF"

text \<open>The accepted range of the second byte after each first byte (the package's
  \<open>acceptRanges\<close>).\<close>

definition second_lo :: "nat \<Rightarrow> nat" where
  "second_lo b0 = (if b0 = 0xE0 then 0xA0 else if b0 = 0xF0 then 0x90 else 0x80)"

definition second_hi :: "nat \<Rightarrow> nat" where
  "second_hi b0 = (if b0 = 0xED then 0x9F else if b0 = 0xF4 then 0x8F else 0xBF)"

definition is_cont :: "nat \<Rightarrow> bool" where
  "is_cont b \<longleftrightarrow> 0x80 \<le> b \<and> b \<le> 0xBF"

fun decode_bytes :: "nat list \<Rightarrow> nat \<times> nat" where
  "decode_bytes [] = (RuneError, 0)"
| "decode_bytes (b0 # bs) =
     (if b0 < 0x80 then (b0, 1)
      else if b0 < 0xC2 \<or> 0xF4 < b0 then (RuneError, 1)
      else (case bs of
          [] \<Rightarrow> (RuneError, 1)
        | b1 # bs1 \<Rightarrow>
          if \<not> (second_lo b0 \<le> b1 \<and> b1 \<le> second_hi b0) then (RuneError, 1)
          else if b0 < 0xE0 then ((b0 - 0xC0) * 64 + (b1 - 0x80), 2)
          else (case bs1 of
              [] \<Rightarrow> (RuneError, 1)
            | b2 # bs2 \<Rightarrow>
              if \<not> is_cont b2 then (RuneError, 1)
              else if b0 < 0xF0 then ((b0 - 0xE0) * 4096 + (b1 - 0x80) * 64 + (b2 - 0x80), 3)
              else (case bs2 of
                  [] \<Rightarrow> (RuneError, 1)
                | b3 # _ \<Rightarrow>
                  if \<not> is_cont b3 then (RuneError, 1)
                  else ((b0 - 0xF0) * 262144 + (b1 - 0x80) * 4096 + (b2 - 0x80) * 64
                          + (b3 - 0x80), 4)))))"

definition encode_valid :: "nat \<Rightarrow> nat list" where
  "encode_valid r =
     (if r < 0x80 then [r]
      else if r < 0x800 then [0xC0 + r div 64, 0x80 + r mod 64]
      else if r < 0x10000 then [0xE0 + r div 4096, 0x80 + r div 64 mod 64, 0x80 + r mod 64]
      else [0xF0 + r div 262144, 0x80 + r div 4096 mod 64, 0x80 + r div 64 mod 64,
            0x80 + r mod 64])"

definition encode_rune :: "nat \<Rightarrow> nat list" where
  "encode_rune r = (if valid_rune r then encode_valid r else encode_valid RuneError)"

text \<open>The base-64 digits of a rune, as fresh variables related linearly to it.\<close>

lemma digits2: "\<exists>q m. r div 64 = q \<and> r mod 64 = m \<and> r = q * 64 + m \<and> m < (64::nat)"
  by (simp add: div_mult_mod_eq)

lemma digits3:
  "\<exists>q m n. r div 4096 = q \<and> r div 64 mod 64 = m \<and> r mod 64 = n
     \<and> r = q * 4096 + m * 64 + n \<and> m < (64::nat) \<and> n < 64"
proof -
  have "r div 4096 = r div 64 div 64" by (simp add: div_mult2_eq [symmetric])
  moreover have "r = r div 64 * 64 + r mod 64" by simp
  moreover have "r div 64 = r div 64 div 64 * 64 + r div 64 mod 64" by simp
  ultimately have "r = r div 4096 * 4096 + r div 64 mod 64 * 64 + r mod 64" by linarith
  then show ?thesis by auto
qed

lemma digits4:
  "\<exists>q l m n. r div 262144 = q \<and> r div 4096 mod 64 = l \<and> r div 64 mod 64 = m \<and> r mod 64 = n
     \<and> r = q * 262144 + l * 4096 + m * 64 + n \<and> l < (64::nat) \<and> m < 64 \<and> n < 64"
proof -
  have "r div 262144 = r div 4096 div 64" by (simp add: div_mult2_eq [symmetric])
  moreover have "r div 4096 = r div 4096 div 64 * 64 + r div 4096 mod 64" by simp
  moreover obtain q m n where "r div 4096 = q" "r div 64 mod 64 = m" "r mod 64 = n"
    "r = q * 4096 + m * 64 + n" "m < 64" "n < 64"
    using digits3 [of r] by blast
  ultimately have
    "r = r div 262144 * 262144 + r div 4096 mod 64 * 4096 + r div 64 mod 64 * 64 + r mod 64"
    by linarith
  then show ?thesis by auto
qed

lemma decode_encode:
  assumes "valid_rune r"
  shows "decode_bytes (encode_rune r @ t) = (r, length (encode_rune r))"
proof -
  consider "r < 0x80" | "0x80 \<le> r" "r < 0x800" | "0x800 \<le> r" "r < 0x10000"
    | "0x10000 \<le> r" "r \<le> 0x10FFFF"
    using assms by (force simp: valid_rune_def)
  then show ?thesis
  proof cases
    case 1
    then show ?thesis using assms by (simp add: encode_rune_def encode_valid_def)
  next
    case 2
    obtain q m where d: "r div 64 = q" "r mod 64 = m" "r = q * 64 + m" "m < 64"
      using digits2 [of r] by blast
    then have "2 \<le> q" "q < 32" using 2 by linarith+
    then show ?thesis using assms 2 d(4)
      unfolding encode_rune_def encode_valid_def d(1,2)
      by (simp add: d(3) second_lo_def second_hi_def)
  next
    case 3
    obtain q m n where d: "r div 4096 = q" "r div 64 mod 64 = m" "r mod 64 = n"
      "r = q * 4096 + m * 64 + n" "m < 64" "n < 64"
      using digits3 [of r] by blast
    have q: "q < 16" "q = 0 \<Longrightarrow> 32 \<le> m" "q = 13 \<Longrightarrow> m < 32"
      using 3 d(4-6) assms by (auto simp: valid_rune_def)
    show ?thesis using assms 3 q d(5,6)
      unfolding encode_rune_def encode_valid_def d(1,2,3)
      by (auto simp: d(4) second_lo_def second_hi_def is_cont_def)
  next
    case 4
    obtain q l m n where d: "r div 262144 = q" "r div 4096 mod 64 = l" "r div 64 mod 64 = m"
      "r mod 64 = n" "r = q * 262144 + l * 4096 + m * 64 + n" "l < 64" "m < 64" "n < 64"
      using digits4 [of r] by blast
    have q: "q < 5" "q = 0 \<Longrightarrow> 16 \<le> l" "q = 4 \<Longrightarrow> l < 16"
      using 4 d(5-8) by auto
    show ?thesis using assms 4 q d(6-8)
      unfolding encode_rune_def encode_valid_def d(1,2,3,4)
      by (auto simp: d(5) second_lo_def second_hi_def is_cont_def)
  qed
qed

lemma digit_uniq: "a * 64 + b = c * 64 + d \<Longrightarrow> b < 64 \<Longrightarrow> d < 64 \<Longrightarrow> a = c \<and> b = (d::nat)"
proof -
  assume *: "a * 64 + b = c * 64 + d" and b: "b < 64" "d < 64"
  have "(a * 64 + b) div 64 = a" "(c * 64 + d) div 64 = c" using b by auto
  with * show ?thesis by simp
qed

lemma digit_uniq3:
  "a * 4096 + b * 64 + e = c * 4096 + d * 64 + f \<Longrightarrow> b < 64 \<Longrightarrow> d < 64 \<Longrightarrow> e < 64 \<Longrightarrow> f < 64
    \<Longrightarrow> a = c \<and> b = d \<and> e = (f::nat)"
proof -
  assume *: "a * 4096 + b * 64 + e = c * 4096 + d * 64 + f"
    and b: "b < 64" "d < 64" "e < 64" "f < 64"
  have "(a * 64 + b) * 64 + e = (c * 64 + d) * 64 + f" using * by (simp add: distrib_right)
  from digit_uniq [OF this b(3,4)] show ?thesis using digit_uniq [of a b c d] b by blast
qed

lemma digit_uniq4:
  "a * 262144 + b * 4096 + e * 64 + g = c * 262144 + d * 4096 + f * 64 + h
    \<Longrightarrow> b < 64 \<Longrightarrow> d < 64 \<Longrightarrow> e < 64 \<Longrightarrow> f < 64 \<Longrightarrow> g < 64 \<Longrightarrow> h < 64
    \<Longrightarrow> a = c \<and> b = d \<and> e = f \<and> g = (h::nat)"
proof -
  assume *: "a * 262144 + b * 4096 + e * 64 + g = c * 262144 + d * 4096 + f * 64 + h"
    and b: "b < 64" "d < 64" "e < 64" "f < 64" "g < 64" "h < 64"
  have "(a * 4096 + b * 64 + e) * 64 + g = (c * 4096 + d * 64 + f) * 64 + h"
    using * by (simp add: distrib_right)
  from digit_uniq [OF this b(5,6)] show ?thesis using digit_uniq3 [of a b e c d f] b by blast
qed

lemma encode2:
  assumes "2 \<le> x" "x < 32" "y < 64"
  shows "encode_rune (x * 64 + y) = [0xC0 + x, 0x80 + y] \<and> valid_rune (x * 64 + y)"
proof -
  have "(x * 64 + y) div 64 = x" "(x * 64 + y) mod 64 = y" using assms by auto
  moreover have "128 \<le> x * 64 + y" "x * 64 + y < 0x800" using assms by linarith+
  ultimately show ?thesis by (simp add: encode_rune_def encode_valid_def valid_rune_def)
qed

lemma encode3:
  assumes "x < 16" "y < 64" "z < 64" "x = 0 \<Longrightarrow> 32 \<le> y" "x = 13 \<Longrightarrow> y < 32"
  shows "encode_rune (x * 4096 + y * 64 + z) = [0xE0 + x, 0x80 + y, 0x80 + z]
    \<and> valid_rune (x * 4096 + y * 64 + z)"
proof -
  let ?r = "x * 4096 + y * 64 + z"
  obtain q m n where d: "?r div 4096 = q" "?r div 64 mod 64 = m" "?r mod 64 = n"
    "?r = q * 4096 + m * 64 + n" "m < 64" "n < 64"
    using digits3 [of ?r] by blast
  then have "q = x \<and> m = y \<and> n = z" using assms(2,3) digit_uniq3 [of q m n x y z] by simp
  moreover have "0x800 \<le> ?r" "?r < 0x10000" using assms by (cases "x = 0"; linarith)+
  moreover have "valid_rune ?r"
    using assms unfolding valid_rune_def by (cases "x = 13"; cases "x < 13") linarith+
  ultimately show ?thesis using d(1-3) by (simp add: encode_rune_def encode_valid_def)
qed

lemma encode4:
  assumes "x < 5" "w < 64" "y < 64" "z < 64" "x = 0 \<Longrightarrow> 16 \<le> w" "x = 4 \<Longrightarrow> w < 16"
  shows "encode_rune (x * 262144 + w * 4096 + y * 64 + z)
      = [0xF0 + x, 0x80 + w, 0x80 + y, 0x80 + z]
    \<and> valid_rune (x * 262144 + w * 4096 + y * 64 + z)"
proof -
  let ?r = "x * 262144 + w * 4096 + y * 64 + z"
  obtain q l m n where d: "?r div 262144 = q" "?r div 4096 mod 64 = l" "?r div 64 mod 64 = m"
    "?r mod 64 = n" "?r = q * 262144 + l * 4096 + m * 64 + n" "l < 64" "m < 64" "n < 64"
    using digits4 [of ?r] by blast
  then have "q = x \<and> l = w \<and> m = y \<and> n = z"
    using assms(2-4) digit_uniq4 [of q l m n x w y z] by simp
  moreover have "0x10000 \<le> ?r" using assms by (cases "x = 0"; linarith)
  moreover have "?r \<le> 0x10FFFF" using assms by (cases "x = 4"; linarith)
  ultimately show ?thesis using d(1-4) by (simp add: encode_rune_def encode_valid_def valid_rune_def)
qed

lemma ranges_eq:
  "second_lo b0 \<le> b1 \<and> b1 \<le> second_hi b0 \<longleftrightarrow>
     0x80 \<le> b1 \<and> b1 \<le> 0xBF \<and> (b0 = 0xE0 \<longrightarrow> 0xA0 \<le> b1) \<and> (b0 = 0xF0 \<longrightarrow> 0x90 \<le> b1)
     \<and> (b0 = 0xED \<longrightarrow> b1 \<le> 0x9F) \<and> (b0 = 0xF4 \<longrightarrow> b1 \<le> 0x8F)"
  by (auto simp: second_lo_def second_hi_def)

lemma nat_offset: "(k::nat) \<le> b \<Longrightarrow> \<exists>x. b = k + x"
  by (rule le_Suc_ex)

text \<open>The four shapes of a decoding step.\<close>

lemma decode_cases:
  assumes "bs \<noteq> []"
  obtains (invalid) "decode_bytes bs = (RuneError, 1)"
  | (valid) r rest where "bs = encode_rune r @ rest" "valid_rune r"
      "decode_bytes bs = (r, length (encode_rune r))"
proof (cases "decode_bytes bs = (RuneError, 1)")
  case True
  then show ?thesis by (rule invalid)
next
  case ne: False
  obtain b0 bs0 where bs: "bs = b0 # bs0" using assms by (cases bs) auto
  have ok: thesis if "bs = encode_rune r @ rest" "valid_rune r" for r rest
    using that valid decode_encode by blast
  show ?thesis
  proof (cases "b0 < 0x80")
    case True
    then show ?thesis using ok [of b0 bs0] bs
      by (simp add: encode_rune_def encode_valid_def valid_rune_def)
  next
    case ge: False
    have r0: "0xC2 \<le> b0" "b0 \<le> 0xF4" using ne ge bs by (auto split: if_splits)
    obtain b1 bs1 where b1: "bs0 = b1 # bs1" using ne ge bs r0 by (cases bs0) auto
    have r1: "second_lo b0 \<le> b1 \<and> b1 \<le> second_hi b0"
      using ne ge bs r0 b1 by (auto split: if_splits)
    obtain y where y: "b1 = 0x80 + y" "y < 64"
      using r1 nat_offset [of 128 b1] unfolding ranges_eq by auto
    show ?thesis
    proof (cases "b0 < 0xE0")
      case True
      obtain x where x: "b0 = 0xC0 + x" using r0 nat_offset [of "0xC0" b0] by auto
      show ?thesis using ok [of "x * 64 + y" bs1] encode2 [of x y] bs b1 x y r0 True by simp
    next
      case ge2: False
      obtain b2 bs2 where b2: "bs1 = b2 # bs2" "is_cont b2"
        using ne ge ge2 bs r0 b1 r1 by (cases bs1) (auto split: if_splits)
      obtain z where z: "b2 = 0x80 + z" "z < 64"
        using b2 nat_offset [of 128 b2] unfolding is_cont_def by auto
      show ?thesis
      proof (cases "b0 < 0xF0")
        case True
        obtain x where x: "b0 = 0xE0 + x" using ge2 nat_offset [of "0xE0" b0] by auto
        have "x < 16" "x = 0 \<Longrightarrow> 32 \<le> y" "x = 13 \<Longrightarrow> y < 32"
          using True x y r1 unfolding ranges_eq by auto
        then show ?thesis
          using ok [of "x * 4096 + y * 64 + z" bs2] encode3 [of x y z] bs b1 b2 x y z by simp
      next
        case ge3: False
        obtain b3 bs3 where b3: "bs2 = b3 # bs3" "is_cont b3"
          using ne ge ge2 ge3 bs r0 b1 r1 b2 by (cases bs2) (auto split: if_splits)
        obtain w where w: "b3 = 0x80 + w" "w < 64"
          using b3 nat_offset [of 128 b3] unfolding is_cont_def by auto
        obtain x where x: "b0 = 0xF0 + x" using ge3 nat_offset [of "0xF0" b0] by auto
        have "x < 5" "x = 0 \<Longrightarrow> 16 \<le> y" "x = 4 \<Longrightarrow> y < 16"
          using r0 x y r1 unfolding ranges_eq by auto
        then show ?thesis
          using ok [of "x * 262144 + y * 4096 + z * 64 + w" bs3] encode4 [of x y z w]
            bs b1 b2 b3 x y z w by simp
      qed
    qed
  qed
qed

subsection \<open>Strings as sequences of runes\<close>

definition bytes_of :: "gostring \<Rightarrow> nat list" where
  "bytes_of s = map of_char s"

definition of_bytes :: "nat list \<Rightarrow> gostring" where
  "of_bytes bs = map char_of bs"

definition DecodeRune :: "gostring \<Rightarrow> nat \<times> nat" where
  "DecodeRune s = decode_bytes (bytes_of s)"

definition AppendRune :: "nat \<Rightarrow> gostring" where
  "AppendRune r = of_bytes (encode_rune r)"

lemma encode_valid_less: "r \<le> 0x10FFFF \<Longrightarrow> b \<in> set (encode_valid r) \<Longrightarrow> b < 256"
proof -
  assume r: "r \<le> 0x10FFFF" and b: "b \<in> set (encode_valid r)"
  have "m mod 64 < 64" for m :: nat by simp
  moreover have "r < 0x800 \<Longrightarrow> r div 64 < 32" "r < 0x10000 \<Longrightarrow> r div 4096 < 16"
    "r div 262144 < 5" using r by auto
  ultimately show "b < 256"
    using b unfolding encode_valid_def
    by (auto split: if_splits)
qed

lemma bytes_of_inj: "bytes_of s = bytes_of t \<Longrightarrow> s = t"
  unfolding bytes_of_def by (rule map_injective) (auto simp: inj_on_def)

lemma bytes_of_append: "bytes_of (s @ t) = bytes_of s @ bytes_of t"
  by (simp add: bytes_of_def)

lemma bytes_of_Nil_iff [simp]: "bytes_of s = [] \<longleftrightarrow> s = []"
  by (simp add: bytes_of_def)

lemma length_bytes_of [simp]: "length (bytes_of s) = length s"
  by (simp add: bytes_of_def)

lemma valid_rune_error [simp]: "valid_rune RuneError"
  by (simp add: valid_rune_def RuneError_def)

lemma encode_rune_less: "b \<in> set (encode_rune r) \<Longrightarrow> b < 256"
  using encode_valid_less [of r b] encode_valid_less [of RuneError b]
  by (auto simp: encode_rune_def valid_rune_def RuneError_def split: if_splits)

lemma bytes_of_AppendRune: "bytes_of (AppendRune r) = encode_rune r"
  unfolding bytes_of_def AppendRune_def of_bytes_def map_map
  by (rule map_idI) (use encode_rune_less in force)

lemma encode_rune_nonempty [simp]: "encode_rune r \<noteq> []"
  by (simp add: encode_rune_def encode_valid_def)

lemma AppendRune_nonempty [simp]: "AppendRune r \<noteq> []"
  by (simp add: AppendRune_def of_bytes_def)

lemma DecodeRune_AppendRune:
  "valid_rune r \<Longrightarrow> DecodeRune (AppendRune r @ t) = (r, length (AppendRune r))"
  using decode_encode [of r "bytes_of t"] length_bytes_of [of "AppendRune r"]
  by (simp add: DecodeRune_def bytes_of_append bytes_of_AppendRune)

lemma DecodeRune_cases:
  assumes "s \<noteq> []"
  obtains (invalid) "DecodeRune s = (RuneError, 1)"
  | (valid) r t where "s = AppendRune r @ t" "valid_rune r"
      "DecodeRune s = (r, length (AppendRune r))"
proof -
  have ne: "bytes_of s \<noteq> []" using assms by simp
  show thesis
  proof (cases rule: decode_cases [OF ne])
    case 1
    then show thesis by (intro invalid) (simp add: DecodeRune_def)
  next
    case (2 r rest)
    let ?n = "length (encode_rune r)"
    have "bytes_of (take ?n s) = encode_rune r"
      using 2(1) by (simp add: bytes_of_def take_map [symmetric])
    then have "take ?n s = AppendRune r"
      by (intro bytes_of_inj) (simp add: bytes_of_AppendRune)
    then have s: "s = AppendRune r @ drop ?n s" by (metis append_take_drop_id)
    show thesis
      by (rule valid [OF s 2(2)]) (subst s, rule DecodeRune_AppendRune [OF 2(2)])
  qed
qed

lemma DecodeRune_width: "s \<noteq> [] \<Longrightarrow> 0 < snd (DecodeRune s) \<and> snd (DecodeRune s) \<le> length s"
  by (cases s rule: DecodeRune_cases) (auto simp: Suc_le_eq)

text \<open>The loop \<open>for i < len(s) { r, n := DecodeRuneInString(s[i:]); ...; i += n }\<close> as the
  list of its runes, each with the bytes it was read from.\<close>

function rune_chunks :: "gostring \<Rightarrow> (nat \<times> gostring) list" where
  "rune_chunks s =
     (if s = [] then []
      else (fst (DecodeRune s), take (snd (DecodeRune s)) s)
             # rune_chunks (drop (snd (DecodeRune s)) s))"
  by pat_completeness auto
termination
  by (relation "measure length") (use DecodeRune_width in auto)

declare rune_chunks.simps [simp del]

lemma rune_chunks_Nil [simp]: "rune_chunks [] = []"
  by (simp add: rune_chunks.simps)

lemma rune_chunks_code [code]:
  "rune_chunks [] = []"
  "rune_chunks (c # s) =
     (fst (DecodeRune (c # s)), take (snd (DecodeRune (c # s))) (c # s))
       # rune_chunks (drop (snd (DecodeRune (c # s))) (c # s))"
  by (simp, subst rune_chunks.simps, simp)

lemma rune_chunks_invalid:
  "DecodeRune (c # s) = (RuneError, 1) \<Longrightarrow> rune_chunks (c # s) = (RuneError, [c]) # rune_chunks s"
  by (subst rune_chunks.simps) simp

lemma rune_chunks_valid:
  "valid_rune r \<Longrightarrow> rune_chunks (AppendRune r @ s) = (r, AppendRune r) # rune_chunks s"
  by (subst rune_chunks.simps) (simp add: DecodeRune_AppendRune)

text \<open>Induction along that loop: a byte that starts no valid sequence, or a whole rune.\<close>

lemma rune_induct [case_names Nil invalid valid]:
  assumes "P []"
    and "\<And>c s. DecodeRune (c # s) = (RuneError, 1) \<Longrightarrow> P s \<Longrightarrow> P (c # s)"
    and "\<And>r s. valid_rune r \<Longrightarrow> P s \<Longrightarrow> P (AppendRune r @ s)"
  shows "P s"
proof (induction s rule: length_induct)
  case (1 s)
  show ?case
  proof (cases s)
    case Nil
    with assms(1) show ?thesis by simp
  next
    case (Cons c t)
    then have "s \<noteq> []" by simp
    then show ?thesis
    proof (cases rule: DecodeRune_cases)
      case invalid
      then show ?thesis using assms(2) [of c t] 1 Cons by simp
    next
      case (valid r u)
      then show ?thesis using assms(3) [of r u] 1 by (simp add: valid)
    qed
  qed
qed

lemma concat_rune_chunks: "concat (map snd (rune_chunks s)) = s"
  by (induction s rule: rune_induct) (auto simp: rune_chunks_invalid rune_chunks_valid)

lemma rune_chunks_runes_valid: "(r, w) \<in> set (rune_chunks s) \<Longrightarrow> valid_rune r"
  by (induction s rule: rune_induct) (auto simp: rune_chunks_invalid rune_chunks_valid)

text \<open>A chunk of one byte that decodes to the error is a byte of no valid sequence.\<close>

definition bad_chunk :: "nat \<times> gostring \<Rightarrow> bool" where
  "bad_chunk rw \<longleftrightarrow> fst rw = RuneError \<and> length (snd rw) = 1"

definition ValidString :: "gostring \<Rightarrow> bool" where
  "ValidString s \<longleftrightarrow> list_all (\<lambda>rw. \<not> bad_chunk rw) (rune_chunks s)"

lemma length_AppendRune: "length (AppendRune r) = length (encode_rune r)"
  by (simp add: AppendRune_def of_bytes_def)

lemma bad_chunk_simps [simp]:
  "\<not> bad_chunk (r, AppendRune r)" "bad_chunk (RuneError, [c])"
  by (auto simp: bad_chunk_def length_AppendRune encode_rune_def encode_valid_def RuneError_def
      valid_rune_def)

lemma ValidString_simps [simp]:
  "ValidString []"
  "DecodeRune (c # s) = (RuneError, 1) \<Longrightarrow> \<not> ValidString (c # s)"
  "valid_rune r \<Longrightarrow> ValidString (AppendRune r @ s) = ValidString s"
  by (simp_all add: ValidString_def rune_chunks_invalid rune_chunks_valid)

lemma AppendRune_ascii: "r < 128 \<Longrightarrow> AppendRune r = [char_of r]"
  by (simp add: AppendRune_def encode_rune_def encode_valid_def of_bytes_def valid_rune_def)

text \<open>\<open>strings.ToLower\<close>: each rune through \<open>unicode.ToLower\<close>, an invalid byte
  written as the error rune.  The mapping of the ASCII letters is written out; the table beyond
  ASCII is the argument \<open>lower\<close>.\<close>

definition lower_rune :: "(nat \<Rightarrow> nat) \<Rightarrow> nat \<Rightarrow> nat" where
  "lower_rune lower r =
     (if r < 128 then (if 65 \<le> r \<and> r \<le> 90 then r + 32 else r) else lower r)"

definition ToLower :: "(nat \<Rightarrow> nat) \<Rightarrow> gostring \<Rightarrow> gostring" where
  "ToLower lower s = concat (map (\<lambda>rw. AppendRune (lower_rune lower (fst rw))) (rune_chunks s))"

text \<open>Strings of ASCII bytes, for which the table is never consulted.\<close>

definition ascii :: "gostring \<Rightarrow> bool" where
  "ascii s \<longleftrightarrow> (\<forall>c \<in> set s. (of_char c :: nat) < 128)"

definition lower_char :: "char \<Rightarrow> char" where
  "lower_char c = (if 65 \<le> (of_char c :: nat) \<and> (of_char c :: nat) \<le> 90
     then char_of ((of_char c :: nat) + 32) else c)"

lemma AppendRune_char: "(of_char c :: nat) < 128 \<Longrightarrow> AppendRune (of_char c) = [c]"
  by (simp add: AppendRune_ascii)

lemma ValidString_ascii: "ascii s \<Longrightarrow> ValidString s"
proof (induction s)
  case (Cons c s)
  then show ?case
    using ValidString_simps(3) [of "of_char c" s] AppendRune_char [of c]
    by (simp add: ascii_def valid_rune_def)
qed simp

text \<open>Evaluation looks at the runes only when there is a byte above ASCII.\<close>

lemma ValidString_code [code]:
  "ValidString s = (if ascii s then True else list_all (\<lambda>rw. \<not> bad_chunk rw) (rune_chunks s))"
  using ValidString_ascii [of s] by (simp add: ValidString_def)

lemma ToLower_ascii: "ascii s \<Longrightarrow> ToLower lower s = map lower_char s"
proof (induction s)
  case (Cons c s)
  then have c: "(of_char c :: nat) < 128" and s: "ascii s" by (auto simp: ascii_def)
  have "AppendRune (of_char c) = [c]" using AppendRune_ascii [OF c] by simp
  then have "rune_chunks (c # s) = (of_char c, [c]) # rune_chunks s"
    using rune_chunks_valid [of "of_char c" s] c by (simp add: valid_rune_def)
  then show ?case using Cons.IH [OF s] c
    by (auto simp: ToLower_def lower_rune_def lower_char_def AppendRune_ascii)
qed (simp add: ToLower_def)

lemma ToLower_code [code]:
  "ToLower lower s =
     (if ascii s then map lower_char s
      else concat (map (\<lambda>rw. AppendRune (lower_rune lower (fst rw))) (rune_chunks s)))"
  using ToLower_ascii [of s lower] by (simp add: ToLower_def)

end
