(* ===== verification/GoPath.thy ===== *)
theory GoPath
  imports Prelude
begin

text \<open>
  Go's package \<open>path/filepath\<close> on Unix, as far as the program uses it: \<open>IsAbs\<close>,
  \<open>Clean\<close>, \<open>Join\<close>, \<open>Dir\<close> and \<open>Base\<close>.  They are lexical functions on
  strings.  The lemmas show that a cleaned absolute path is a slash followed by proper
  components, none of them empty, \<open>.\<close> or \<open>..\<close>, and that cleaning is idempotent.
\<close>

abbreviation slash :: char where
  "slash \<equiv> CHR ''/''"

definition IsAbs :: "path \<Rightarrow> bool" where
  "IsAbs p \<longleftrightarrow> HasPrefix p ''/''"

text \<open>One component of the lexical processing of \<open>filepath.Clean\<close>; the stack is kept
  with the last component first.\<close>

definition clean_step :: "bool \<Rightarrow> gostring \<Rightarrow> gostring list \<Rightarrow> gostring list" where
  "clean_step rooted w st =
     (if w = [] \<or> w = ''.'' then st
      else if w = ''..'' then
        (case st of
           [] \<Rightarrow> (if rooted then [] else [w])
         | t # ts \<Rightarrow> (if t = ''..'' then w # st else ts))
      else w # st)"

definition clean_comps :: "path \<Rightarrow> gostring list" where
  "clean_comps p = rev (fold (clean_step (IsAbs p)) (split_byte slash p) [])"

definition Clean :: "path \<Rightarrow> path" where
  "Clean p =
     (let ws = clean_comps p in
      if IsAbs p then slash # join_byte slash ws
      else if ws = [] then ''.'' else join_byte slash ws)"

text \<open>\<open>filepath.Join\<close> of two elements.\<close>

definition Join :: "path \<Rightarrow> path \<Rightarrow> path" where
  "Join a b = (if a = [] then (if b = [] then [] else Clean b) else Clean (a @ slash # b))"

definition Dir :: "path \<Rightarrow> path" where
  "Dir p = Clean (rev (dropWhile (\<lambda>c. c \<noteq> slash) (rev p)))"

definition Base :: "path \<Rightarrow> path" where
  "Base p =
     (if p = [] then ''.''
      else (let q = rev (dropWhile (\<lambda>c. c = slash) (rev p)) in
            if q = [] then ''/'' else rev (takeWhile (\<lambda>c. c \<noteq> slash) (rev q))))"

text \<open>A component of a cleaned absolute path.\<close>

definition proper :: "gostring \<Rightarrow> bool" where
  "proper w \<longleftrightarrow> w \<noteq> [] \<and> w \<noteq> ''.'' \<and> w \<noteq> ''..'' \<and> slash \<notin> set w"

definition abs_path :: "gostring list \<Rightarrow> path" where
  "abs_path ws = slash # join_byte slash ws"

lemma IsAbs_Cons [simp]: "IsAbs (c # p) \<longleftrightarrow> c = slash" "\<not> IsAbs []"
  by (auto simp: IsAbs_def)

lemma clean_step_proper:
  "list_all proper st \<Longrightarrow> slash \<notin> set w \<Longrightarrow> list_all proper (clean_step True w st)"
  by (auto simp: clean_step_def proper_def split: list.splits)

lemma fold_clean_proper:
  "list_all proper st \<Longrightarrow> \<forall>w \<in> set ws. slash \<notin> set w
    \<Longrightarrow> list_all proper (fold (clean_step True) ws st)"
  by (induction ws arbitrary: st) (auto simp: clean_step_proper)

lemma clean_comps_proper: "IsAbs p \<Longrightarrow> list_all proper (clean_comps p)"
  unfolding clean_comps_def
  by (auto intro!: fold_clean_proper dest: split_byte_free)

lemma Clean_abs: "IsAbs p \<Longrightarrow> Clean p = abs_path (clean_comps p)"
  by (simp add: Clean_def abs_path_def)

lemma IsAbs_abs_path [simp]: "IsAbs (abs_path ws)"
  by (simp add: abs_path_def)

lemma fold_clean_id:
  "list_all proper ws \<Longrightarrow> fold (clean_step b) ws st = rev ws @ st"
  by (induction ws arbitrary: st) (auto simp: clean_step_def proper_def)

lemma split_abs_path:
  "list_all proper ws \<Longrightarrow> split_byte slash (abs_path ws) = (if ws = [] then [[], []] else [] # ws)"
  by (cases ws) (auto simp: abs_path_def list_all_iff proper_def split_join_byte)

lemma clean_comps_abs_path:
  assumes "list_all proper ws"
  shows "clean_comps (abs_path ws) = ws"
proof -
  have "clean_step True [] st = st" for st by (simp add: clean_step_def)
  then show ?thesis
    using assms by (auto simp: clean_comps_def split_abs_path fold_clean_id)
qed

lemma Clean_abs_path: "list_all proper ws \<Longrightarrow> Clean (abs_path ws) = abs_path ws"
  by (simp add: Clean_abs clean_comps_abs_path)

lemma Clean_idem: "IsAbs p \<Longrightarrow> Clean (Clean p) = Clean p"
  by (metis Clean_abs Clean_abs_path clean_comps_proper)

text \<open>The components of an absolute cleaned path: no empty one, so no \<open>..\<close> among them.\<close>

lemma split_Clean_no_dotdot: "IsAbs p \<Longrightarrow> ''..'' \<notin> set (split_byte slash (Clean p))"
  using clean_comps_proper [of p]
  by (auto simp: Clean_abs split_abs_path list_all_iff proper_def)

lemma abs_path_inject:
  "list_all proper us \<Longrightarrow> list_all proper vs \<Longrightarrow> abs_path us = abs_path vs \<longleftrightarrow> us = vs"
  by (metis clean_comps_abs_path)

text \<open>The test \<open>p == v || HasPrefix(p, v + "/")\<close> on cleaned absolute paths other than the
  file system's root is the prefix order on their components.\<close>

lemma abs_path_append:
  "us \<noteq> [] \<Longrightarrow> vs \<noteq> [] \<Longrightarrow> abs_path (us @ vs) = abs_path us @ slash # join_byte slash vs"
  by (simp add: abs_path_def join_byte_append)

lemma under_abs_path:
  assumes us: "list_all proper us" "us \<noteq> []" and vs: "list_all proper vs"
  shows "abs_path vs = abs_path us \<or> HasPrefix (abs_path vs) (abs_path us @ ''/'')
    \<longleftrightarrow> prefix us vs"
proof
  assume "prefix us vs"
  then obtain t where "vs = us @ t" by (auto simp: prefix_def)
  then show "abs_path vs = abs_path us \<or> HasPrefix (abs_path vs) (abs_path us @ ''/'')"
    using us(2) by (cases "t = []") (auto simp: abs_path_append HasPrefix_iff)
next
  assume "abs_path vs = abs_path us \<or> HasPrefix (abs_path vs) (abs_path us @ ''/'')"
  then show "prefix us vs"
  proof
    assume "abs_path vs = abs_path us"
    then show ?thesis using us vs abs_path_inject by auto
  next
    assume "HasPrefix (abs_path vs) (abs_path us @ ''/'')"
    then obtain t where t: "abs_path vs = abs_path us @ slash # t" by (auto simp: HasPrefix_iff)
    have "split_byte slash (join_byte slash us @ slash # t) = us @ split_byte slash t"
      using us by (intro split_join_append) (auto simp: list_all_iff proper_def)
    moreover have "join_byte slash vs = join_byte slash us @ slash # t"
      using t by (simp add: abs_path_def)
    moreover have "vs \<noteq> []" using t us(2) by (auto simp: abs_path_def)
    ultimately have "vs = us @ split_byte slash t"
      using vs split_join_byte [of vs slash] by (auto simp: list_all_iff proper_def)
    then show ?thesis by simp
  qed
qed

subsection \<open>Taking paths apart\<close>

lemma join_byte_snoc: "ws \<noteq> [] \<Longrightarrow> join_byte sep (ws @ [w]) = join_byte sep ws @ sep # w"
  by (simp add: join_byte_append)

lemma abs_path_snoc: "ws \<noteq> [] \<Longrightarrow> abs_path (ws @ [w]) = abs_path ws @ slash # w"
  by (simp add: abs_path_def join_byte_snoc)

lemma dropWhile_no_slash: "slash \<notin> set w \<Longrightarrow> dropWhile (\<lambda>c. c \<noteq> slash) (rev w @ slash # s) = slash # s"
  by (subst dropWhile_append2) auto

lemma takeWhile_no_slash: "slash \<notin> set w \<Longrightarrow> takeWhile (\<lambda>c. c \<noteq> slash) (rev w @ slash # s) = rev w"
  by (subst takeWhile_append2) auto

lemma Clean_trailing:
  assumes "list_all proper ws"
  shows "Clean (abs_path ws @ [slash]) = abs_path ws"
proof (cases "ws = []")
  case False
  have "split_byte slash (join_byte slash ws @ slash # []) = ws @ split_byte slash []"
    using assms False by (intro split_join_append) (auto simp: list_all_iff proper_def)
  then have "clean_comps (abs_path ws @ [slash]) = ws"
    using fold_clean_id [of ws True "[]"] assms
    by (simp add: clean_comps_def abs_path_def clean_step_def)
  then show ?thesis by (simp add: Clean_abs abs_path_def)
qed (simp add: abs_path_def Clean_def clean_comps_def clean_step_def)

lemma Dir_abs_path:
  assumes "list_all proper ws" "proper w"
  shows "Dir (abs_path (ws @ [w])) = abs_path ws"
proof (cases "ws = []")
  case True
  then show ?thesis
    using assms dropWhile_no_slash [of w "[]"] Clean_trailing [of "[]"]
    by (simp add: Dir_def abs_path_def proper_def Clean_def clean_comps_def clean_step_def)
next
  case False
  then show ?thesis
    using assms dropWhile_no_slash [of w "rev (abs_path ws)"] Clean_trailing [of ws]
    by (simp add: Dir_def abs_path_snoc proper_def)
qed

lemma Base_abs_path:
  assumes "list_all proper ws" "proper w"
  shows "Base (abs_path (ws @ [w])) = w"
proof -
  have w: "w \<noteq> []" "slash \<notin> set w" using assms by (auto simp: proper_def)
  then have d: "dropWhile (\<lambda>c. c = slash) (rev w @ s) = rev w @ s" for s
    by (cases w rule: rev_cases) auto
  obtain s where "abs_path (ws @ [w]) = s @ slash # w"
    using abs_path_snoc [of ws w] by (cases "ws = []") (auto simp: abs_path_def)
  then show ?thesis
    using w d takeWhile_no_slash [of w "rev s"] by (simp add: Base_def)
qed

end
