(* ===== verification/Paths.thy ===== *)
theory Paths
  imports GoPath
begin

text \<open>
  \<open>server/paths.go\<close>: the containment checks every scan root and move path passes, and
  the per-request resolver that compares paths in one symlink-resolved namespace.  The file
  system enters as two arguments: \<open>vols\<close>, the volume roots \<open>listVolumes\<close> finds,
  and \<open>ev\<close>, the function \<open>filepath.EvalSymlinks\<close> of the moment (\<open>None\<close> for
  its error).  Go errors are the texts the code makes.
\<close>

type_synonym evalsym = "path \<Rightarrow> path option"

definition isUnder :: "path \<Rightarrow> path list \<Rightarrow> bool" where
  "isUnder p roots \<longleftrightarrow> list_ex (\<lambda>r. p = r \<or> HasPrefix p (r @ ''/'')) roots"

definition allowedPath :: "path list \<Rightarrow> path \<Rightarrow> bool" where
  "allowedPath vols p =
     (if p = [] \<or> \<not> IsAbs p then False
      else let p = Clean p in
        if list_ex (\<lambda>seg. seg = ''..'') (split_byte slash p) then False
        else list_ex (\<lambda>v. p = v \<or> HasPrefix p (v @ ''/'')) vols)"

definition volumeRootsResolved :: "path list \<Rightarrow> evalsym \<Rightarrow> path list" where
  "volumeRootsResolved vols ev =
     concat (map (\<lambda>v. v # (case ev v of Some rv \<Rightarrow> if rv \<noteq> v then [rv] else [] | None \<Rightarrow> [])) vols)"

definition resolveAllowedRoot :: "path list \<Rightarrow> evalsym \<Rightarrow> path \<Rightarrow> string + path" where
  "resolveAllowedRoot vols ev p =
     (if \<not> allowedPath vols p then Inl (''path outside allowed volumes: '' @ p)
      else case ev p of
          None \<Rightarrow> Inl (''not a folder: '' @ p)
        | Some rp \<Rightarrow>
            if \<not> isUnder rp (volumeRootsResolved vols ev)
            then Inl (''path outside allowed volumes: '' @ p)
            else Inr rp)"

text \<open>The resolver's state is its cache; every method returns the cache it leaves.\<close>

record dirResolver =
  cache :: "path \<rightharpoonup> path"

definition newDirResolver :: dirResolver where
  "newDirResolver = \<lparr>cache = Map.empty\<rparr>"

definition resolveDir :: "evalsym \<Rightarrow> dirResolver \<Rightarrow> path \<Rightarrow> path option \<times> dirResolver" where
  "resolveDir ev r d =
     (let d = Clean d in
      case cache r d of
        Some v \<Rightarrow> (Some v, r)
      | None \<Rightarrow>
          (case ev d of
             None \<Rightarrow> (None, r)
           | Some v \<Rightarrow> (Some v, r\<lparr>cache := (cache r)(d \<mapsto> v)\<rparr>)))"

definition resolver_dir :: "evalsym \<Rightarrow> dirResolver \<Rightarrow> path \<Rightarrow> path \<times> dirResolver" where
  "resolver_dir ev r d =
     (case resolveDir ev r d of
        (Some v, r') \<Rightarrow> (v, r')
      | (None, r') \<Rightarrow> (Clean d, r'))"

definition resolver_path :: "evalsym \<Rightarrow> dirResolver \<Rightarrow> path \<Rightarrow> path \<times> dirResolver" where
  "resolver_path ev r p =
     (let p = Clean p; (d, r') = resolver_dir ev r (Dir p) in (Join d (Base p), r'))"

definition strictPath :: "evalsym \<Rightarrow> dirResolver \<Rightarrow> path \<Rightarrow> path option \<times> dirResolver" where
  "strictPath ev r p =
     (let p = Clean p in
      case resolveDir ev r (Dir p) of
        (None, r') \<Rightarrow> (None, r')
      | (Some d, r') \<Rightarrow> (Some (Join d (Base p)), r'))"

definition skipName :: "gostring \<Rightarrow> bool" where
  "skipName name \<longleftrightarrow> HasPrefix name ''@'' \<or> HasPrefix name ''.''
     \<or> name = ''#recycle'' \<or> name = ''#snapshot'' \<or> name = ''lost+found''"

fun uniquePaths_loop :: "path list \<Rightarrow> path list \<Rightarrow> path list" where
  "uniquePaths_loop seen [] = []"
| "uniquePaths_loop seen (p # ps) =
     (let p = Clean p in
      if p \<noteq> [] \<and> p \<notin> set seen then p # uniquePaths_loop (p # seen) ps
      else uniquePaths_loop seen ps)"

definition uniquePaths :: "path list \<Rightarrow> path list" where
  "uniquePaths inp = uniquePaths_loop [] inp"

subsection \<open>Containment\<close>

lemma isUnder_iff: "isUnder p roots \<longleftrightarrow> (\<exists>r \<in> set roots. p = r \<or> HasPrefix p (r @ ''/''))"
  by (auto simp: isUnder_def list_ex_iff)

lemma isUnder_refl: "r \<in> set roots \<Longrightarrow> isUnder r roots"
  by (auto simp: isUnder_iff)

lemma isUnder_mono: "isUnder p rs \<Longrightarrow> set rs \<subseteq> set rs' \<Longrightarrow> isUnder p rs'"
  by (auto simp: isUnder_iff)

lemma isUnder_split: "isUnder p rs \<longleftrightarrow> (\<exists>r \<in> set rs. p = r \<or> (\<exists>t. p = r @ slash # t))"
  by (simp add: isUnder_iff HasPrefix_iff)

lemma isUnder_below: "isUnder p rs \<Longrightarrow> isUnder (p @ ''/'' @ t) rs"
  unfolding isUnder_split by (auto 4 4)

lemma isUnder_trans: "isUnder p [q] \<Longrightarrow> isUnder q rs \<Longrightarrow> isUnder p rs"
  using isUnder_below [of q rs] by (auto simp: isUnder_split [of p "[q]"])

text \<open>The component test never fires: cleaning an absolute path has already removed every
  \<open>..\<close>.  It is kept in the model because the code has it.\<close>

lemma allowedPath_iff:
  "allowedPath vols p \<longleftrightarrow> IsAbs p \<and> isUnder (Clean p) vols"
  using split_Clean_no_dotdot [of p]
  by (auto simp: allowedPath_def isUnder_def Let_def list_ex_iff)

lemma isUnder_components:
  assumes "list_all proper vs" "\<forall>u \<in> set us. u \<noteq> [] \<and> list_all proper u"
  shows "isUnder (abs_path vs) (map abs_path us) \<longleftrightarrow> (\<exists>u \<in> set us. prefix u vs)"
  using assms under_abs_path by (auto simp: isUnder_iff)

subsection \<open>The resolver's cache\<close>

text \<open>The cache only ever holds answers the file system gave.\<close>

definition cache_ok :: "evalsym \<Rightarrow> dirResolver \<Rightarrow> bool" where
  "cache_ok ev r \<longleftrightarrow> (\<forall>d v. cache r d = Some v \<longrightarrow> ev d = Some v)"

lemma cache_ok_new [simp]: "cache_ok ev newDirResolver"
  by (simp add: cache_ok_def newDirResolver_def)

lemma resolveDir_spec:
  "cache_ok ev r \<Longrightarrow> fst (resolveDir ev r d) = ev (Clean d) \<and> cache_ok ev (snd (resolveDir ev r d))"
  by (auto simp: resolveDir_def cache_ok_def Let_def split: option.splits if_splits)

lemma resolver_dir_spec:
  assumes "cache_ok ev r"
  shows "fst (resolver_dir ev r d) = (case ev (Clean d) of Some v \<Rightarrow> v | None \<Rightarrow> Clean d)
    \<and> cache_ok ev (snd (resolver_dir ev r d))"
  using resolveDir_spec [OF assms, of d]
  by (cases "resolveDir ev r d") (auto simp: resolver_dir_def split: option.splits)

text \<open>What a path resolves to when nothing is cached.\<close>

definition canon_path :: "evalsym \<Rightarrow> path \<Rightarrow> path" where
  "canon_path ev p =
     Join (case ev (Clean (Dir (Clean p))) of Some v \<Rightarrow> v | None \<Rightarrow> Clean (Dir (Clean p)))
       (Base (Clean p))"

lemma resolver_path_spec:
  assumes "cache_ok ev r"
  shows "fst (resolver_path ev r p) = canon_path ev p \<and> cache_ok ev (snd (resolver_path ev r p))"
  using resolver_dir_spec [OF assms, of "Dir (Clean p)"]
  by (cases "resolver_dir ev r (Dir (Clean p))")
    (auto simp: resolver_path_def canon_path_def Let_def)

lemma strictPath_spec:
  assumes "cache_ok ev r"
  shows "fst (strictPath ev r p)
      = (if ev (Clean (Dir (Clean p))) = None then None else Some (canon_path ev p))
    \<and> cache_ok ev (snd (strictPath ev r p))"
  using resolveDir_spec [OF assms, of "Dir (Clean p)"]
  by (cases "resolveDir ev r (Dir (Clean p))")
    (auto simp: strictPath_def canon_path_def Let_def split: option.splits)

subsection \<open>De-duplication\<close>

lemma Clean_nonempty [simp]: "Clean p \<noteq> []"
proof (cases "IsAbs p")
  case False
  have "list_all (\<lambda>w. w \<noteq> []) (fold (clean_step False) ws st)"
    if "list_all (\<lambda>w. w \<noteq> []) st" for ws st
    using that by (induction ws arbitrary: st) (auto simp: clean_step_def split: list.splits)
  then have *: "list_all (\<lambda>w. w \<noteq> []) (clean_comps p)"
    using False by (simp add: clean_comps_def)
  show ?thesis
  proof (cases "clean_comps p")
    case (Cons w ws)
    with * show ?thesis using False by (cases ws) (auto simp: Clean_def Let_def)
  qed (use False in \<open>simp add: Clean_def\<close>)
qed (simp add: Clean_def Let_def)

lemma uniquePaths_loop_set:
  "set (uniquePaths_loop seen ps) = set (map Clean ps) - set seen"
  by (induction ps arbitrary: seen) (auto simp: Let_def)

lemma uniquePaths_loop_distinct: "distinct (uniquePaths_loop seen ps)"
  by (induction ps arbitrary: seen) (auto simp: Let_def uniquePaths_loop_set)

lemma uniquePaths_spec: "set (uniquePaths ps) = Clean ` set ps \<and> distinct (uniquePaths ps)"
  by (simp add: uniquePaths_def uniquePaths_loop_set uniquePaths_loop_distinct)

subsection \<open>The properties of the path checks\<close>

text \<open>C5. A path passes \<open>allowedPath\<close> exactly when it is absolute and, once every dot, dot-dot and
  doubled slash is resolved, its components begin with all the components of one of the volumes:
  neither a traversal out of a volume nor a sibling whose name merely starts like a volume's passes.\<close>

theorem allowedPath_no_traversal:
  assumes "\<forall>u \<in> set us. u \<noteq> [] \<and> list_all proper u"
  shows "allowedPath (map abs_path us) p \<longleftrightarrow> IsAbs p \<and> (\<exists>u \<in> set us. prefix u (clean_comps p))"
  using isUnder_components [OF clean_comps_proper assms] Clean_abs [of p]
  by (auto simp: allowedPath_iff)

theorem allowedPath_no_traversal_witness:
  "allowedPath [''/v1''] ''/v1/a//b/../c'' \<and> \<not> allowedPath [''/v1''] ''/v1/../etc''
    \<and> \<not> allowedPath [''/v1''] ''/v10/a''"
proof -
  have *: "clean_comps ''/v1/a//b/../c'' = [''v1'', ''a'', ''c'']" "clean_comps ''/v1/../etc'' = [''etc'']"
    "clean_comps ''/v10/a'' = [''v10'', ''a'']" "abs_path [''v1''] = ''/v1''" "proper ''v1''"
    by code_simp+
  then show ?thesis
    using allowedPath_no_traversal [of "[[''v1'']]"] by (simp add: IsAbs_def)
qed

text \<open>What one resolver answers to a sequence of paths, its cache threaded through the calls.\<close>

fun resolve_all :: "evalsym \<Rightarrow> dirResolver \<Rightarrow> path list \<Rightarrow> path list \<times> dirResolver" where
  "resolve_all ev r [] = ([], r)"
| "resolve_all ev r (p # ps) =
     (let (c, r1) = resolver_path ev r p; (cs, r2) = resolve_all ev r1 ps in (c # cs, r2))"

lemma resolve_all_spec:
  "cache_ok ev r \<Longrightarrow> fst (resolve_all ev r ps) = map (canon_path ev) ps
    \<and> cache_ok ev (snd (resolve_all ev r ps))"
proof (induction ps arbitrary: r)
  case (Cons p ps)
  show ?case
    using resolver_path_spec [OF Cons.prems, of p]
      Cons.IH [of "snd (resolver_path ev r p)"]
    by (auto simp: Let_def split_def)
qed simp

text \<open>Caching is invisible: whatever paths one resolver is asked about and in whatever order, each
  answer is the one an empty cache would have given, so two spellings of one file in one request
  compare equal whenever their folders resolve alike.\<close>

theorem resolver_cache_transparent:
  "fst (resolve_all ev newDirResolver ps) = map (canon_path ev) ps
    \<and> cache_ok ev (snd (resolve_all ev newDirResolver ps))"
  using resolve_all_spec by simp

end
