(* ===== verification/TempFiles.thy ===== *)
theory TempFiles
  imports Utf8
begin

text \<open>
  \<open>server/tempfiles.go\<close>: what counts as a temporary or junk file.  The three tables are
  the source's, and \<open>isTempName\<close> looks a lower-cased name up in them.  The argument
  \<open>lower\<close> is the case table of \<open>strings.ToLower\<close> beyond ASCII.
\<close>

definition tempExact :: "gostring list" where
  "tempExact = [''thumbs.db'', ''.ds_store'', ''desktop.ini'', ''ehthumbs.db'', ''.apdisk'',
     ''npm-debug.log'']"

definition tempSuffix :: "gostring list" where
  "tempSuffix = [''.tmp'', ''.temp'', ''.crdownload'', ''.part'', ''.partial'']"

definition tempPrefix :: "gostring list" where
  "tempPrefix = [''~$'', ''.~lock.'', ''._'']"

definition isTempName :: "(nat \<Rightarrow> nat) \<Rightarrow> gostring \<Rightarrow> bool" where
  "isTempName lower name =
     (let l = ToLower lower name in
      if l \<in> set tempExact then True
      else if list_ex (\<lambda>suf. HasSuffix l suf) tempSuffix then True
      else if list_ex (\<lambda>pre. HasPrefix l pre) tempPrefix then True
      else False)"

lemma isTempName_cases:
  "isTempName lower name \<longleftrightarrow>
     ToLower lower name \<in> set tempExact
     \<or> (\<exists>suf \<in> set tempSuffix. HasSuffix (ToLower lower name) suf)
     \<or> (\<exists>pre \<in> set tempPrefix. HasPrefix (ToLower lower name) pre)"
  by (auto simp: isTempName_def Let_def list_ex_iff)

text \<open>Two ASCII names that differ in case only are classified alike.\<close>

lemma isTempName_case_insensitive:
  "ascii a \<Longrightarrow> ascii b \<Longrightarrow> map lower_char a = map lower_char b
    \<Longrightarrow> isTempName lower a = isTempName lower b"
  by (simp add: isTempName_def ToLower_ascii)

text \<open>Every junk suffix ends in a letter, so a name that ends in \<open>~\<close>, or in one of the
  backup extensions, is junk only by an exact name or a prefix.\<close>

lemma last_HasSuffix: "HasSuffix s p \<Longrightarrow> p \<noteq> [] \<Longrightarrow> last s = last p"
  by (auto simp: HasSuffix_iff)

definition backup_ext :: "gostring list" where
  "backup_ext = [''.bak'', ''.old'', ''~'', ''.swp'']"

lemma backup_not_suffix:
  assumes "HasSuffix l e" "e \<in> set backup_ext" "suf \<in> set tempSuffix"
  shows "\<not> HasSuffix l suf"
proof
  assume "HasSuffix l suf"
  then have "last e = last suf" and "HasSuffix l suf"
    using assms last_HasSuffix [of l e] last_HasSuffix [of l suf]
    by (auto simp: backup_ext_def tempSuffix_def)
  moreover obtain t where "l = t @ e" using assms(1) by (auto simp: HasSuffix_iff)
  moreover have "suf \<in> {''.tmp'', ''.temp'', ''.crdownload'', ''.part'', ''.partial''}"
    using assms(3) by (simp add: tempSuffix_def)
  ultimately show False
    using assms(2) by (auto simp: backup_ext_def HasSuffix_iff append_eq_append_conv2
        append_eq_Cons_conv Cons_eq_append_conv)
qed

lemma backup_not_exact: "HasSuffix l e \<Longrightarrow> e \<in> set backup_ext \<Longrightarrow> l \<notin> set tempExact"
  by (auto simp: backup_ext_def tempExact_def HasSuffix_def)

text \<open>A backup copy is never junk: a name that ends in \<open>.bak\<close>, \<open>.old\<close>,
  \<open>~\<close> or \<open>.swp\<close> in any case is classified as temporary only when it carries one of the three
  lock-file prefixes, so the tool lists no file that may be the one copy of something.\<close>

theorem backup_is_not_junk:
  assumes "e \<in> set backup_ext" "HasSuffix (ToLower lower name) e" "isTempName lower name"
  shows "\<exists>pre \<in> set tempPrefix. HasPrefix (ToLower lower name) pre"
  using assms backup_not_suffix [OF assms(2,1)] backup_not_exact [OF assms(2,1)]
  by (auto simp: isTempName_cases)

theorem backup_is_not_junk_witness:
  "isTempName (\<lambda>r. r) ''._A.BAK'' \<and> \<not> isTempName (\<lambda>r. r) ''thesis.BAK''
    \<and> (\<exists>pre \<in> set tempPrefix. HasPrefix ''._a.bak'' pre)"
proof -
  have l: "ToLower (\<lambda>r. r) ''._A.BAK'' = ''._a.bak''" "ToLower (\<lambda>r. r) ''thesis.BAK'' = ''thesis.bak''"
    by (simp_all add: ToLower_ascii ascii_def lower_char_def char_of_def bit_0)
  have t: "isTempName (\<lambda>r. r) ''._A.BAK''" "\<not> isTempName (\<lambda>r. r) ''thesis.BAK''"
    unfolding isTempName_def Let_def l by (simp_all add: tempExact_def tempSuffix_def tempPrefix_def HasSuffix_def)
  show ?thesis
    using backup_is_not_junk [of "''.bak''" "\<lambda>r. r" "''._A.BAK''"] t l
    by (simp add: backup_ext_def HasSuffix_def)
qed

end
