(* ===== verification/ByteSafe.thy ===== *)
theory ByteSafe
  imports Utf8
begin

text \<open>
  \<open>server/bytesafe.go\<close>: file names are bytes, JSON is Unicode.  \<open>escapeBytes\<close> writes
  every byte that is not part of valid UTF-8 as a private-use rune and \<open>unescapeBytes\<close>
  reads it back; both are modelled with the fast path the code takes first.
  \<open>rewriteStrings\<close> applies one of them to every string of a value, here a datatype of the
  shapes \<open>reflect\<close> distinguishes.  \<open>jsonQuote\<close> writes a string literal byte for byte.
\<close>

definition escBase :: nat where
  "escBase = 0x10FE00"

definition isEscapeRune :: "nat \<Rightarrow> bool" where
  "isEscapeRune r \<longleftrightarrow> escBase + 0x80 \<le> r \<and> r \<le> escBase + 0xFF"

definition escapeRunePrefixes :: "gostring list" where
  "escapeRunePrefixes = [of_bytes [0xF4, 0x8F, 0xBA], of_bytes [0xF4, 0x8F, 0xBB]]"

definition holdsEscapeRune :: "gostring \<Rightarrow> bool" where
  "holdsEscapeRune s \<longleftrightarrow> list_ex (\<lambda>p. Contains s p) escapeRunePrefixes"

definition escapeMarker :: gostring where
  "escapeMarker = of_bytes [0xF4, 0x8F]"

text \<open>One turn of each loop: the rune just decoded with its bytes, and what is appended.\<close>

definition escape_chunk :: "nat \<times> gostring \<Rightarrow> gostring" where
  "escape_chunk rw =
     (if bad_chunk rw \<or> isEscapeRune (fst rw)
      then concat (map (\<lambda>c. AppendRune (escBase + of_char c)) (snd rw))
      else snd rw)"

definition unescape_chunk :: "nat \<times> gostring \<Rightarrow> gostring" where
  "unescape_chunk rw =
     (if isEscapeRune (fst rw) then [char_of (fst rw - escBase)] else snd rw)"

definition escapeBytes :: "gostring \<Rightarrow> gostring" where
  "escapeBytes s =
     (if ValidString s \<and> \<not> holdsEscapeRune s then s
      else concat (map escape_chunk (rune_chunks s)))"

definition unescapeBytes :: "gostring \<Rightarrow> gostring" where
  "unescapeBytes s =
     (if \<not> Contains s escapeMarker then s
      else concat (map unescape_chunk (rune_chunks s)))"

subsection \<open>The fast paths do what the loops do\<close>

lemma AppendRune_escape_prefix:
  assumes "isEscapeRune r"
  shows "\<exists>p \<in> set escapeRunePrefixes. HasPrefix (AppendRune r) p"
    and "HasPrefix (AppendRune r) escapeMarker"
proof -
  obtain q l m n where d: "r div 262144 = q" "r div 4096 mod 64 = l" "r div 64 mod 64 = m"
    "r mod 64 = n" "r = q * 262144 + l * 4096 + m * 64 + n" "l < 64" "m < 64" "n < 64"
    using digits4 [of r] by blast
  have r: "0x10FE80 \<le> r" "r \<le> 0x10FEFF" using assms by (auto simp: isEscapeRune_def escBase_def)
  have q: "q = 4"
  proof (rule antisym)
    show "q \<le> 4" using d(5) r by linarith
    show "4 \<le> q" using d(5-8) r by linarith
  qed
  have l: "l = 15"
  proof (rule antisym)
    show "l \<le> 15" using d(5) r q by linarith
    show "15 \<le> l" using d(5-8) r q by linarith
  qed
  have "58 \<le> m" "m \<le> 59" using d(5-8) r q l by linarith+
  then have m: "m = 58 \<or> m = 59" by linarith
  have e: "AppendRune r = of_bytes [0xF4, 0x8F, 0x80 + m, 0x80 + n]"
    using r d(1-4) q l
    by (simp add: AppendRune_def encode_rune_def encode_valid_def valid_rune_def)
  show "\<exists>p \<in> set escapeRunePrefixes. HasPrefix (AppendRune r) p"
    using m unfolding e by (auto simp: escapeRunePrefixes_def of_bytes_def)
  show "HasPrefix (AppendRune r) escapeMarker"
    unfolding e by (simp add: escapeMarker_def of_bytes_def)
qed

lemma Contains_append: "Contains s p \<Longrightarrow> Contains (t @ s) p"
  by (metis Contains_iff append.assoc)

lemma Contains_prefix: "HasPrefix s p \<Longrightarrow> Contains (s @ t) p"
  by (metis Contains_iff HasPrefix_iff append.assoc append_Nil)

lemma Contains_Cons: "Contains s p \<Longrightarrow> Contains (c # s) p"
  by simp

lemma escape_loop_fast:
  "ValidString s \<Longrightarrow> \<not> holdsEscapeRune s \<Longrightarrow> concat (map escape_chunk (rune_chunks s)) = s"
proof (induction s rule: rune_induct)
  case (valid r s)
  have "\<not> isEscapeRune r"
    using valid.prems(2) AppendRune_escape_prefix(1) [of r] Contains_prefix [of "AppendRune r"]
    by (auto simp: holdsEscapeRune_def list_ex_iff)
  moreover have "\<not> holdsEscapeRune s"
    using valid.prems(2) Contains_append by (auto simp: holdsEscapeRune_def list_ex_iff)
  ultimately show ?case
    using valid by (simp add: rune_chunks_valid escape_chunk_def)
qed auto

lemma unescape_loop_fast:
  "\<not> Contains s escapeMarker \<Longrightarrow> concat (map unescape_chunk (rune_chunks s)) = s"
proof (induction s rule: rune_induct)
  case (invalid c s)
  then show ?case
    by (simp add: rune_chunks_invalid unescape_chunk_def isEscapeRune_def escBase_def RuneError_def)
next
  case (valid r s)
  have "\<not> isEscapeRune r"
    using valid.prems AppendRune_escape_prefix(2) [of r] Contains_prefix [of "AppendRune r"] by auto
  then show ?case
    using valid Contains_append by (auto simp: rune_chunks_valid unescape_chunk_def)
qed simp

lemma escapeBytes_loop: "escapeBytes s = concat (map escape_chunk (rune_chunks s))"
  using escape_loop_fast by (simp add: escapeBytes_def)

lemma unescapeBytes_loop: "unescapeBytes s = concat (map unescape_chunk (rune_chunks s))"
  using unescape_loop_fast by (simp add: unescapeBytes_def)

subsection \<open>Round trip\<close>

lemma of_char_bound: "of_char c \<le> (255::nat)"
  using nat_of_char_less_256 [of c] by linarith

lemma isEscapeRune_byte: "isEscapeRune (escBase + of_char c) \<longleftrightarrow> 0x80 \<le> (of_char c :: nat)"
  using of_char_bound [of c] by (auto simp: isEscapeRune_def)

lemma valid_escape_rune: "valid_rune (escBase + of_char c)"
  using of_char_bound [of c] by (simp add: valid_rune_def escBase_def)

text \<open>A byte of an invalid sequence, and every byte of a rune beyond ASCII, is at least 0x80.\<close>

lemma invalid_high: "DecodeRune (c # s) = (RuneError, 1) \<Longrightarrow> 0x80 \<le> (of_char c :: nat)"
  by (auto simp: DecodeRune_def bytes_of_def RuneError_def split: if_splits)

lemma AppendRune_high:
  assumes "0x80 \<le> r" "c \<in> set (AppendRune r)"
  shows "0x80 \<le> (of_char c :: nat)"
proof -
  have "of_char c \<in> set (bytes_of (AppendRune r))" using assms(2) by (simp add: bytes_of_def)
  then have "(of_char c :: nat) \<in> set (encode_rune r)" by (simp add: bytes_of_AppendRune)
  then show ?thesis
    using assms(1) by (auto simp: encode_rune_def encode_valid_def RuneError_def split: if_splits)
qed

text \<open>A run of high bytes, escaped, unescapes to itself in front of anything.\<close>

lemma unescape_escaped_run:
  "\<forall>c \<in> set w. 0x80 \<le> (of_char c :: nat) \<Longrightarrow>
     unescapeBytes (concat (map (\<lambda>c. AppendRune (escBase + of_char c)) w) @ s) = w @ unescapeBytes s"
proof (induction w)
  case (Cons c w)
  have "unescape_chunk (escBase + of_char c, u) = [c]" for u
    using Cons.prems by (simp add: unescape_chunk_def isEscapeRune_byte)
  then show ?case
    using Cons valid_escape_rune [of c] by (simp add: unescapeBytes_loop rune_chunks_valid)
qed simp

lemma escapeBytes_simps:
  "escapeBytes [] = []"
  "DecodeRune (c # s) = (RuneError, 1) \<Longrightarrow>
     escapeBytes (c # s) = AppendRune (escBase + of_char c) @ escapeBytes s"
  "valid_rune r \<Longrightarrow> escapeBytes (AppendRune r @ s) =
     (if isEscapeRune r then concat (map (\<lambda>c. AppendRune (escBase + of_char c)) (AppendRune r))
      else AppendRune r) @ escapeBytes s"
  by (simp_all add: escapeBytes_loop rune_chunks_invalid rune_chunks_valid escape_chunk_def)

lemma unescape_escape: "unescapeBytes (escapeBytes s) = s"
proof (induction s rule: rune_induct)
  case Nil
  then show ?case by (simp add: escapeBytes_loop unescapeBytes_loop)
next
  case (invalid c s)
  then show ?case
    using unescape_escaped_run [of "[c]" "escapeBytes s"] invalid_high
    by (simp add: escapeBytes_simps)
next
  case (valid r s)
  show ?case
  proof (cases "isEscapeRune r")
    case True
    then have "\<forall>c \<in> set (AppendRune r). 0x80 \<le> (of_char c :: nat)"
      using AppendRune_high [of r] by (auto simp: isEscapeRune_def escBase_def)
    then show ?thesis
      using valid True unescape_escaped_run by (simp add: escapeBytes_simps)
  next
    case False
    then have "unescapeBytes (AppendRune r @ t) = AppendRune r @ unescapeBytes t" for t
      using valid.hyps by (simp add: unescapeBytes_loop rune_chunks_valid unescape_chunk_def)
    then show ?thesis using valid False by (simp add: escapeBytes_simps)
  qed
qed

lemma ValidString_escaped_run:
  "ValidString (concat (map (\<lambda>c. AppendRune (escBase + of_char c)) w) @ s) = ValidString s"
  by (induction w) (simp_all add: valid_escape_rune)

lemma ValidString_escapeBytes: "ValidString (escapeBytes s)"
  by (induction s rule: rune_induct)
    (auto simp: escapeBytes_simps ValidString_escaped_run valid_escape_rune)

subsection \<open>Rewriting every string of a value\<close>

text \<open>The shapes \<open>rewriteStrings\<close> tells apart: a nil pointer, interface, slice or map is
  \<open>None\<close>; a struct field carries whether it is exported; everything else (numbers,
  booleans) is \<open>VOther\<close>.  A map is the list of its entries in iteration order.\<close>

datatype gval =
    VString gostring
  | VPointer "gval option"
  | VInterface "gval option"
  | VSlice "gval list option"
  | VArray "gval list"
  | VMap "(gval \<times> gval) list option"
  | VStruct "(bool \<times> gval) list"
  | VOther int

text \<open>\<open>SetMapIndex\<close>: an assignment replaces the entry of an equal key or adds one; the zero
  value removes the key.\<close>

definition map_set :: "('k \<times> 'v) list \<Rightarrow> 'k \<Rightarrow> 'v \<Rightarrow> ('k \<times> 'v) list" where
  "map_set m k v =
     (if k \<in> fst ` set m then map (\<lambda>(k', v'). if k' = k then (k, v) else (k', v')) m
      else m @ [(k, v)])"

definition map_drop :: "('k \<times> 'v) list \<Rightarrow> 'k \<Rightarrow> ('k \<times> 'v) list" where
  "map_drop m k = filter (\<lambda>(k', _). k' \<noteq> k) m"

text \<open>The map loop, given each entry with its rewritten key and value; \<open>None\<close> is "no copy
  made yet".\<close>

fun rewrite_entries ::
  "(gval \<times> gval) list \<Rightarrow> ((gval \<times> gval) \<times> (gval \<times> bool) \<times> (gval \<times> bool)) list
    \<Rightarrow> (gval \<times> gval) list option \<Rightarrow> (gval \<times> gval) list option" where
  "rewrite_entries m [] out = out"
| "rewrite_entries m (((k0, v0), (k, kok), (v, vok)) # es) out =
     (if \<not> kok \<and> \<not> vok then rewrite_entries m es out
      else
        let o1 = (case out of None \<Rightarrow> m | Some o1 \<Rightarrow> o1);
            o2 = (if kok then map_drop o1 k0 else o1);
            o3 = map_set o2 (if kok then k else k0) (if vok then v else v0)
        in rewrite_entries m es (Some o3))"

fun rewriteStrings :: "(gostring \<Rightarrow> gostring) \<Rightarrow> gval \<Rightarrow> gval \<times> bool" where
  "rewriteStrings fn (VString s) =
     (let t = fn s in if t \<noteq> s then (VString t, True) else (VString s, False))"
| "rewriteStrings fn (VPointer None) = (VPointer None, False)"
| "rewriteStrings fn (VPointer (Some v)) =
     (let (ev, ok) = rewriteStrings fn v in
      if ok then (VPointer (Some ev), True) else (VPointer (Some v), False))"
| "rewriteStrings fn (VInterface None) = (VInterface None, False)"
| "rewriteStrings fn (VInterface (Some v)) =
     (let (ev, ok) = rewriteStrings fn v in
      if ok then (VInterface (Some ev), True) else (VInterface (Some v), False))"
| "rewriteStrings fn (VSlice None) = (VSlice None, False)"
| "rewriteStrings fn (VSlice (Some vs)) =
     (let es = map (rewriteStrings fn) vs in
      if list_ex snd es
      then (VSlice (Some (map2 (\<lambda>v e. if snd e then fst e else v) vs es)), True)
      else (VSlice (Some vs), False))"
| "rewriteStrings fn (VArray vs) =
     (let es = map (rewriteStrings fn) vs in
      if list_ex snd es
      then (VArray (map2 (\<lambda>v e. if snd e then fst e else v) vs es), True)
      else (VArray vs, False))"
| "rewriteStrings fn (VMap None) = (VMap None, False)"
| "rewriteStrings fn (VMap (Some kvs)) =
     (case rewrite_entries kvs
        (map (\<lambda>(k, v). ((k, v), rewriteStrings fn k, rewriteStrings fn v)) kvs) None of
        None \<Rightarrow> (VMap (Some kvs), False)
      | Some m \<Rightarrow> (VMap (Some m), True))"
| "rewriteStrings fn (VStruct fs) =
     (let es = map (\<lambda>(x, v). if x then rewriteStrings fn v else (v, False)) fs in
      if list_ex snd es
      then (VStruct (map2 (\<lambda>(x, v) e. (x, if snd e then fst e else v)) fs es), True)
      else (VStruct fs, False))"
| "rewriteStrings fn (VOther n) = (VOther n, False)"

text \<open>What the conversion is meant to be: the function applied to every string reachable
  through exported fields.  Map keys are left to the code above: a rewritten key can collide
  with another, so this specification covers values without maps.\<close>

fun map_strings :: "(gostring \<Rightarrow> gostring) \<Rightarrow> gval \<Rightarrow> gval" where
  "map_strings fn (VString s) = VString (fn s)"
| "map_strings fn (VPointer v) = VPointer (map_option (map_strings fn) v)"
| "map_strings fn (VInterface v) = VInterface (map_option (map_strings fn) v)"
| "map_strings fn (VSlice vs) = VSlice (map_option (map (map_strings fn)) vs)"
| "map_strings fn (VArray vs) = VArray (map (map_strings fn) vs)"
| "map_strings fn (VMap m) = VMap m"
| "map_strings fn (VStruct fs) = VStruct (map (\<lambda>(x, v). (x, if x then map_strings fn v else v)) fs)"
| "map_strings fn (VOther n) = VOther n"

fun map_free :: "gval \<Rightarrow> bool" where
  "map_free (VPointer v) = (case v of None \<Rightarrow> True | Some v \<Rightarrow> map_free v)"
| "map_free (VInterface v) = (case v of None \<Rightarrow> True | Some v \<Rightarrow> map_free v)"
| "map_free (VSlice vs) = (case vs of None \<Rightarrow> True | Some vs \<Rightarrow> list_all map_free vs)"
| "map_free (VArray vs) = list_all map_free vs"
| "map_free (VMap m) = False"
| "map_free (VStruct fs) = list_all (\<lambda>(x, v). map_free v) fs"
| "map_free (VString s) = True"
| "map_free (VOther n) = True"

lemma rewriteStrings_unchanged: "\<not> snd (rewriteStrings fn v) \<Longrightarrow> fst (rewriteStrings fn v) = v"
  by (cases "(fn, v)" rule: rewriteStrings.cases)
    (auto simp: Let_def split: if_splits option.splits prod.splits)

lemma map2_changed:
  "\<forall>v \<in> set vs. f v = (g v, g v \<noteq> v) \<Longrightarrow>
     map2 (\<lambda>v e. if snd e then fst e else v) vs (map f vs) = map g vs"
  by (induction vs) auto

lemma list_ex_changed:
  "\<forall>v \<in> set vs. f v = (g v, g v \<noteq> v) \<Longrightarrow> list_ex snd (map f vs) \<longleftrightarrow> map g vs \<noteq> vs"
  by (induction vs) auto

text \<open>The copy-on-write walk computes the plain map, and its flag says whether anything
  changed.\<close>

lemma rewriteStrings_spec:
  "map_free v \<Longrightarrow> rewriteStrings fn v = (map_strings fn v, map_strings fn v \<noteq> v)"
proof (induction fn v rule: rewriteStrings.induct)
  case (7 fn vs)
  then show ?case
    using map2_changed [of vs "rewriteStrings fn" "map_strings fn"]
      list_ex_changed [of vs "rewriteStrings fn" "map_strings fn"]
    by (auto simp: list_all_iff Let_def)
next
  case (8 fn vs)
  then show ?case
    using map2_changed [of vs "rewriteStrings fn" "map_strings fn"]
      list_ex_changed [of vs "rewriteStrings fn" "map_strings fn"]
    by (auto simp: list_all_iff Let_def)
next
  case (11 fn fs)
  let ?f = "\<lambda>(x, v). if x then rewriteStrings fn v else (v, False)"
  let ?g = "\<lambda>(x, v). (x, if x then map_strings fn v else v)"
  have *: "\<forall>(x, v) \<in> set fs. ?f (x, v) = (snd (?g (x, v)), ?g (x, v) \<noteq> (x, v))"
    using 11 by (fastforce simp: list_all_iff)
  have "map2 (\<lambda>(x, v) e. (x, if snd e then fst e else v)) fs (map ?f fs) = map ?g fs"
    using * by (induction fs) auto
  moreover have "list_ex snd (map ?f fs) \<longleftrightarrow> map ?g fs \<noteq> fs"
    using * by (induction fs) auto
  ultimately show ?case by (auto simp: Let_def)
qed (auto simp: Let_def)

lemma map_strings_inverse:
  "map_free v \<Longrightarrow> (\<And>s. g (f s) = s) \<Longrightarrow> map_strings g (map_strings f v) = v"
proof (induction f v rule: map_strings.induct)
  case (2 fn v)
  then show ?case by (cases v) auto
next
  case (3 fn v)
  then show ?case by (cases v) auto
next
  case (4 fn vs)
  then show ?case by (cases vs) (auto simp: list_all_iff intro!: map_idI)
next
  case (7 fn fs)
  have "map_strings g (map_strings fn v) = v" if "(True, v) \<in> set fs" for v
    using 7(1) [OF that, of True v] 7(2,3) that by (auto simp: list_all_iff)
  then show ?case by (auto intro!: map_idI)
qed (auto simp: list_all_iff intro!: map_idI)

lemma map_free_map_strings [simp]: "map_free (map_strings f v) = map_free v"
proof (induction f v rule: map_strings.induct)
  case (2 fn v)
  then show ?case by (cases v) auto
next
  case (3 fn v)
  then show ?case by (cases v) auto
next
  case (4 fn vs)
  then show ?case by (cases vs) (auto simp: list_all_iff)
next
  case (7 fn fs)
  have "map_free (if fst p then map_strings fn (snd p) else snd p) = map_free (snd p)"
    if "p \<in> set fs" for p
    using 7 [of p "fst p" "snd p"] that by (cases p) auto
  then show ?case by (simp add: list_all_iff split_def)
qed (auto simp: list_all_iff)

subsection \<open>JSON string literals, byte for byte\<close>

definition hex_digit :: "nat \<Rightarrow> char" where
  "hex_digit n = ''0123456789abcdef'' ! n"

definition quote_char :: "char \<Rightarrow> gostring" where
  "quote_char c =
     (if c = CHR 0x22 \<or> c = CHR 0x5C then [CHR 0x5C, c]
      else if c = CHR 0x0A then [CHR 0x5C, CHR ''n'']
      else if c = CHR 0x0D then [CHR 0x5C, CHR ''r'']
      else if c = CHR 0x09 then [CHR 0x5C, CHR ''t'']
      else if of_char c < (0x20::nat)
      then [CHR 0x5C, CHR ''u'', CHR ''0'', CHR ''0'',
            hex_digit (of_char c div 16), hex_digit (of_char c mod 16)]
      else [c])"

definition jsonQuote :: "gostring \<Rightarrow> gostring" where
  "jsonQuote s = CHR 0x22 # concat (map quote_char s) @ [CHR 0x22]"

fun jsonArr_items :: "gostring list \<Rightarrow> gostring" where
  "jsonArr_items [] = []"
| "jsonArr_items [s] = jsonQuote s"
| "jsonArr_items (s # t # ss) = jsonQuote s @ CHR '','' # jsonArr_items (t # ss)"

definition jsonArr :: "gostring list \<Rightarrow> gostring" where
  "jsonArr items = CHR ''['' # jsonArr_items items @ [CHR '']'']"

text \<open>A reader of the literal, following the JSON grammar: what stands after the opening quote,
  up to the first unescaped quote, and the rest of the text.  Only the escapes the grammar
  allows are read; a raw control character ends the attempt.\<close>

definition hex_value :: "char \<Rightarrow> nat option" where
  "hex_value c =
     (let n = of_char c in
      if 48 \<le> n \<and> n \<le> 57 then Some (n - 48) else if 97 \<le> n \<and> n \<le> 102 then Some (n - 87) else None)"

fun read_literal :: "gostring \<Rightarrow> (gostring \<times> gostring) option" where
  "read_literal [] = None"
| "read_literal (c # s) =
     (if c = CHR 0x22 then Some ([], s)
      else if of_char c < (0x20::nat) then None
      else if c \<noteq> CHR 0x5C then map_option (apfst (Cons c)) (read_literal s)
      else (case s of
          [] \<Rightarrow> None
        | e # s1 \<Rightarrow>
          if e = CHR 0x22 \<or> e = CHR 0x5C then map_option (apfst (Cons e)) (read_literal s1)
          else if e = CHR ''n'' then map_option (apfst (Cons (CHR 0x0A))) (read_literal s1)
          else if e = CHR ''r'' then map_option (apfst (Cons (CHR 0x0D))) (read_literal s1)
          else if e = CHR ''t'' then map_option (apfst (Cons (CHR 0x09))) (read_literal s1)
          else if e = CHR ''u'' then
            (case s1 of
               z1 # z2 # h1 # h2 # s2 \<Rightarrow>
                 (case (hex_value h1, hex_value h2) of
                    (Some a, Some b) \<Rightarrow>
                      if z1 = CHR ''0'' \<and> z2 = CHR ''0''
                      then map_option (apfst (Cons (char_of (a * 16 + b)))) (read_literal s2)
                      else None
                  | _ \<Rightarrow> None)
             | _ \<Rightarrow> None)
          else None))"

lemma less_16_cases: "n < 16 \<Longrightarrow> n \<in> {0,1,2,3,4,5,6,7,8,9,10,11,12,13,14,15::nat}"
  by simp arith

lemma hex_value_digit: "n < 16 \<Longrightarrow> hex_value (hex_digit n) = Some n"
  by (drule less_16_cases) (auto simp: hex_digit_def hex_value_def)

lemma read_quote_char: "read_literal (quote_char c @ s) = map_option (apfst (Cons c)) (read_literal s)"
proof -
  consider "c = CHR 0x22" | "c = CHR 0x5C" | "c = CHR 0x0A" | "c = CHR 0x0D" | "c = CHR 0x09"
    | "c \<notin> {CHR 0x22, CHR 0x5C, CHR 0x0A, CHR 0x0D, CHR 0x09}" "of_char c < (0x20::nat)"
    | "c \<notin> {CHR 0x22, CHR 0x5C, CHR 0x0A, CHR 0x0D, CHR 0x09}" "\<not> of_char c < (0x20::nat)"
    by blast
  then show ?thesis
  proof cases
    case 6
    then have "of_char c div 16 < (16::nat)" "of_char c mod 16 < (16::nat)" by auto
    then show ?thesis using 6 by (simp add: quote_char_def hex_value_digit)
  qed (auto simp: quote_char_def)
qed

lemma read_jsonQuote_aux:
  "read_literal (concat (map quote_char s) @ CHR 0x22 # t) = Some (s, t)"
proof (induction s)
  case (Cons c s)
  then show ?case
    using read_quote_char [of c "concat (map quote_char s) @ CHR 0x22 # t"] by simp
qed simp

text \<open>A reader of the array: literals separated by commas, up to the closing bracket.\<close>

fun read_items :: "nat \<Rightarrow> gostring \<Rightarrow> (gostring list \<times> gostring) option" where
  "read_items 0 s = None"
| "read_items (Suc n) s =
     (case s of
        c # s1 \<Rightarrow>
          if c \<noteq> CHR 0x22 then None
          else (case read_literal s1 of
              Some (w, d # s2) \<Rightarrow>
                if d = CHR '']'' then Some ([w], s2)
                else if d = CHR '','' then map_option (apfst (Cons w)) (read_items n s2)
                else None
            | _ \<Rightarrow> None)
      | [] \<Rightarrow> None)"

lemma read_jsonArr_items:
  "items \<noteq> [] \<Longrightarrow> length items \<le> n \<Longrightarrow>
     read_items n (jsonArr_items items @ CHR '']'' # t) = Some (items, t)"
proof (induction items arbitrary: n rule: jsonArr_items.induct)
  case (2 s)
  then show ?case by (cases n) (auto simp: jsonQuote_def read_jsonQuote_aux)
next
  case (3 s u ss)
  then show ?case by (cases n) (auto simp: jsonQuote_def read_jsonQuote_aux)
qed simp

subsection \<open>The properties of byte-safe strings\<close>

text \<open>C6. Escaping a file name for JSON loses nothing: the escaped text is valid UTF-8 whatever bytes the
  name holds, and unescaping it returns the very bytes.\<close>

theorem escapeBytes_roundtrip:
  "ValidString (escapeBytes s) \<and> unescapeBytes (escapeBytes s) = s"
  by (simp add: ValidString_escapeBytes unescape_escape)

text \<open>A whole answer survives the trip: for a value without maps, rewriting every string with
  \<open>escapeBytes\<close> and rewriting the result with \<open>unescapeBytes\<close> gives the value back, and the copy-on-write
  flag says exactly whether something was rewritten.\<close>

theorem rewriteStrings_roundtrip:
  assumes "map_free v"
  shows "fst (rewriteStrings unescapeBytes (fst (rewriteStrings escapeBytes v))) = v
    \<and> (snd (rewriteStrings escapeBytes v) \<longleftrightarrow> fst (rewriteStrings escapeBytes v) \<noteq> v)"
  using assms rewriteStrings_spec [OF assms] rewriteStrings_spec
  by (simp add: map_strings_inverse unescape_escape)

theorem rewriteStrings_roundtrip_witness:
  "fst (rewriteStrings unescapeBytes (fst (rewriteStrings escapeBytes
       (VStruct [(True, VSlice (Some [VString [CHR 0xFF], VOther 3])), (False, VString [CHR 0xFE])]))))
     = VStruct [(True, VSlice (Some [VString [CHR 0xFF], VOther 3])), (False, VString [CHR 0xFE])]"
  using rewriteStrings_roundtrip
    [of "VStruct [(True, VSlice (Some [VString [CHR 0xFF], VOther 3])), (False, VString [CHR 0xFE])]"]
  by simp

text \<open>The hand-built JSON array of a File Station request is read back by a JSON reader as the very
  list of paths, whatever quotes, backslashes and control characters they hold.\<close>

theorem jsonArr_readable:
  assumes "items \<noteq> []"
  shows "\<exists>s. jsonArr items = CHR ''['' # s \<and> read_items (length items) s = Some (items, [])"
  using read_jsonArr_items [OF assms order.refl, of "[]"] by (simp add: jsonArr_def)

theorem jsonArr_readable_witness:
  "\<exists>s. jsonArr [[CHR 0x22, CHR 0x5C, CHR 0x07], ''b''] = CHR ''['' # s
    \<and> read_items (length [[CHR 0x22, CHR 0x5C, CHR 0x07], ''b'']) s
      = Some ([[CHR 0x22, CHR 0x5C, CHR 0x07], ''b''], [])"
  by (rule jsonArr_readable) (rule list.distinct)

end
