(* ===== verification/Model.thy ===== *)
theory Model
  imports Paths
begin

text \<open>
  \<open>server/model.go\<close>: the result model.  Each struct is a record with the source's fields in
  its order; \<open>zero_FileEnt\<close> and its kin are Go's zero values, from which composite literals
  set the fields they name.  Go's \<open>int64\<close> sizes and epoch seconds are integers here: the
  code compares them and adds the sizes of files on one volume.
\<close>

record RootMap =
  Raw :: path
  Canon :: path

record TruncInfo =
  TGroups :: int
  TFiles :: int
  Cap :: int

record FileEnt =
  ID :: string
  Name :: gostring
  FDir :: path
  Size :: int
  Mod :: string
  ModUnix :: int
  Created :: string
  Captured :: string
  Hash :: string
  Pfx :: string
  Ext :: string
  IsDir :: bool
  Verdict :: string
  Evidence :: string
  NoMove :: bool
  Links :: int
  Ino :: string
  Alloc :: "int option"
  Junk :: int
  JunkEx :: "gostring list"
  Out :: bool
  Prot :: bool

record Group =
  GID :: string
  GExt :: string
  GSize :: int
  GHash :: string
  GFiles :: "FileEnt list"
  GMod :: string
  Variants :: int
  SameName :: bool
  GCount :: int
  Copies :: int
  GProt :: int
  Reclaim :: int

record MatchOpts =
  MName :: bool
  MModified :: bool
  MCreated :: bool

record toolResult =
  Tool :: string
  Roots :: "RootMap list"
  Groups :: "Group list"
  Files :: "FileEnt list"
  Errors :: "string list"
  Match :: "MatchOpts option"
  Truncated :: "TruncInfo option"
  Scanned :: string

definition zero_TruncInfo :: TruncInfo where
  "zero_TruncInfo = \<lparr>TGroups = 0, TFiles = 0, Cap = 0\<rparr>"

definition zero_FileEnt :: FileEnt where
  "zero_FileEnt = \<lparr>ID = [], Name = [], FDir = [], Size = 0, Mod = [], ModUnix = 0, Created = [],
     Captured = [], Hash = [], Pfx = [], Ext = [], IsDir = False, Verdict = [], Evidence = [],
     NoMove = False, Links = 0, Ino = [], Alloc = None, Junk = 0, JunkEx = [], Out = False,
     Prot = False\<rparr>"

definition zero_Group :: Group where
  "zero_Group = \<lparr>GID = [], GExt = [], GSize = 0, GHash = [], GFiles = [], GMod = [], Variants = 0,
     SameName = False, GCount = 0, Copies = 0, GProt = 0, Reclaim = 0\<rparr>"

definition zero_toolResult :: toolResult where
  "zero_toolResult = \<lparr>Tool = [], Roots = [], Groups = [], Files = [], Errors = [], Match = None,
     Truncated = None, Scanned = []\<rparr>"

text \<open>The full path of a row, \<open>filepath.Join(f.Dir, f.Name)\<close>.\<close>

definition row_path :: "FileEnt \<Rightarrow> path" where
  "row_path f = Join (FDir f) (Name f)"

end
