(* ===== verification/KeepOne.thy ===== *)
theory KeepOne
  imports Model
begin

text \<open>
  \<open>server/move.go\<close>: which copy of each duplicate group a request may not take
  (\<open>keepOneDropsWhy\<close>), and the memoised reading of the copies that stay
  (\<open>checkStaying\<close>).  A Go \<open>map[string]bool\<close> is the set of its true keys.  The
  resolver's \<open>path\<close> method is the function \<open>canon\<close>.  \<open>intact\<close> is a closure with
  a memo, so it is modelled as a function on the state of that memo; the locale
  \<open>intact_reader\<close> states what keep-one relies on of it, and the memo model is its
  interpretation.
\<close>

type_synonym 'm reader = "'m \<Rightarrow> path \<Rightarrow> string \<Rightarrow> bool \<times> 'm"

text \<open>The closure \<open>holds\<close>: the state is the reader's with the group's \<open>stale\<close> flag.\<close>

definition holds :: "'m reader option \<Rightarrow> string \<Rightarrow> path \<Rightarrow> 'm \<times> bool \<Rightarrow> bool \<times> ('m \<times> bool)" where
  "holds intact hash p st =
     (case intact of
        None \<Rightarrow> (True, st)
      | Some ask \<Rightarrow>
          (case ask (fst st) p hash of
             (b, m) \<Rightarrow> if b then (True, (m, snd st)) else (False, (m, True))))"

text \<open>The second loop: is there a staying original that holds the content?\<close>

fun orig_loop ::
  "(path \<Rightarrow> bool) \<Rightarrow> (path \<Rightarrow> 's \<Rightarrow> bool \<times> 's) \<Rightarrow> path list \<Rightarrow> bool \<Rightarrow> 's \<Rightarrow> bool \<times> 's" where
  "orig_loop q hold [] a st = (a, st)"
| "orig_loop q hold (p # ps) a st =
     (if a then (a, st)
      else if q p then (case hold p st of (b, st') \<Rightarrow> orig_loop q hold ps b st')
      else orig_loop q hold ps a st)"

record tally =
  survivors :: nat
  outSurvivors :: nat
  tier0 :: "path list"
  tier1 :: "path list"
  tier2 :: "path list"
  tier3 :: "path list"

definition tally0 :: tally where
  "tally0 = \<lparr>survivors = 0, outSurvivors = 0, tier0 = [], tier1 = [], tier2 = [], tier3 = []\<rparr>"

text \<open>The third loop: count the survivors, sort the requested copies into tiers.\<close>

fun tally_loop ::
  "(path \<Rightarrow> bool) \<Rightarrow> (path \<Rightarrow> bool) \<Rightarrow> (path \<Rightarrow> bool) \<Rightarrow> (path \<Rightarrow> bool)
    \<Rightarrow> (path \<Rightarrow> 's \<Rightarrow> bool \<times> 's) \<Rightarrow> path list \<Rightarrow> tally \<Rightarrow> 's \<Rightarrow> tally \<times> 's" where
  "tally_loop staying ex original counts hold [] t st = (t, st)"
| "tally_loop staying ex original counts hold (p # ps) t st =
     (if staying p then
        if ex p then
          if \<not> counts p then
            tally_loop staying ex original counts hold ps
              (t\<lparr>outSurvivors := outSurvivors t + 1\<rparr>) st
          else if survivors t = 0 then
            (case hold p st of (b, st') \<Rightarrow>
               tally_loop staying ex original counts hold ps
                 (if b then t\<lparr>survivors := survivors t + 1\<rparr> else t) st')
          else tally_loop staying ex original counts hold ps t st
        else tally_loop staying ex original counts hold ps t st
      else if \<not> counts p then tally_loop staying ex original counts hold ps t st
      else
        tally_loop staying ex original counts hold ps
          (t\<lparr>tier0 := (if ex p \<and> original p then tier0 t @ [p] else tier0 t),
             tier1 := (if ex p then tier1 t @ [p] else tier1 t),
             tier2 := (if original p then tier2 t @ [p] else tier2 t),
             tier3 := tier3 t @ [p]\<rparr>) st)"

definition cands_of :: "tally \<Rightarrow> path list" where
  "cands_of t = rev (tier0 t) @ rev (tier1 t) @ rev (tier2 t) @ rev (tier3 t)"

text \<open>The last loop: the first candidate that exists and holds the content, else the default.\<close>

fun pick_intact :: "'m reader \<Rightarrow> string \<Rightarrow> (path \<Rightarrow> bool) \<Rightarrow> path list \<Rightarrow> path \<Rightarrow> 'm \<Rightarrow> path \<times> 'm" where
  "pick_intact ask hash ex [] keep m = (keep, m)"
| "pick_intact ask hash ex (p # ps) keep m =
     (if ex p then (case ask m p hash of (b, m') \<Rightarrow>
        if b then (p, m') else pick_intact ask hash ex ps keep m')
      else pick_intact ask hash ex ps keep m)"

definition group_hash :: "Group \<Rightarrow> string" where
  "group_hash g = (if GHash g = [] \<and> GFiles g \<noteq> [] then Hash (hd (GFiles g)) else GHash g)"

definition group_paths :: "(path \<Rightarrow> path) \<Rightarrow> Group \<Rightarrow> path list" where
  "group_paths canon g = map (\<lambda>f. canon (row_path f)) (GFiles g)"

record 'm held =
  drops :: "path set"
  outHeld :: "path set"
  staleHeld :: "path set"
  memo :: 'm

text \<open>What the closures of one group are over: the request, the disk, the record of moves.\<close>

definition is_original :: "(path \<Rightarrow> bool) option \<Rightarrow> path \<Rightarrow> bool" where
  "is_original isOut p = (case isOut of None \<Rightarrow> True | Some out \<Rightarrow> \<not> out p)"

definition is_staying :: "path set \<Rightarrow> path list \<Rightarrow> path \<Rightarrow> bool" where
  "is_staying requested refDirs p \<longleftrightarrow> p \<notin> requested \<or> isUnder p refDirs"

definition keep_group ::
  "path set \<Rightarrow> path list \<Rightarrow> (path \<Rightarrow> path) \<Rightarrow> path set \<Rightarrow> (path \<Rightarrow> bool) option \<Rightarrow> 'm reader option
    \<Rightarrow> Group \<Rightarrow> 'm held \<Rightarrow> 'm held" where
  "keep_group requested refDirs canon existing isOut intact g r =
     (let hash = group_hash g;
          paths = group_paths canon g;
          original = is_original isOut;
          staying = is_staying requested refDirs;
          ex = (\<lambda>p. p \<in> existing);
          hold = holds intact hash;
          any0 = list_ex (\<lambda>p. \<not> staying p \<and> ex p \<and> original p) paths;
          (anyOriginal, st1) =
            orig_loop (\<lambda>p. staying p \<and> ex p \<and> original p) hold paths any0 (memo r, False);
          counts = (\<lambda>p. \<not> anyOriginal \<or> original p);
          (t, st2) = tally_loop staying ex original counts hold paths tally0 st1;
          cands = cands_of t
      in if survivors t > 0 then r\<lparr>memo := fst st2\<rparr>
         else if cands = [] then r\<lparr>memo := fst st2\<rparr>
         else
           let (keep, m3) =
                 (case intact of
                    None \<Rightarrow> (hd cands, fst st2)
                  | Some ask \<Rightarrow> pick_intact ask hash ex cands (hd cands) (fst st2))
           in \<lparr>drops = insert keep (drops r),
               outHeld = (if \<not> snd st2 \<and> outSurvivors t > 0 then insert keep (outHeld r)
                          else outHeld r),
               staleHeld = (if snd st2 then insert keep (staleHeld r) else staleHeld r),
               memo = m3\<rparr>)"

definition held0 :: "'m \<Rightarrow> 'm held" where
  "held0 m = \<lparr>drops = {}, outHeld = {}, staleHeld = {}, memo = m\<rparr>"

definition keepOneDropsWhy ::
  "Group list \<Rightarrow> path set \<Rightarrow> path list \<Rightarrow> (path \<Rightarrow> path) \<Rightarrow> path set \<Rightarrow> (path \<Rightarrow> bool) option
    \<Rightarrow> 'm reader option \<Rightarrow> 'm \<Rightarrow> 'm held" where
  "keepOneDropsWhy groups requested refDirs canon existing isOut intact m =
     fold (keep_group requested refDirs canon existing isOut intact) groups (held0 m)"

definition keepOneDrops ::
  "Group list \<Rightarrow> path set \<Rightarrow> path list \<Rightarrow> (path \<Rightarrow> path) \<Rightarrow> path set \<Rightarrow> (path \<Rightarrow> bool) option
    \<Rightarrow> path set" where
  "keepOneDrops groups requested refDirs canon existing isOut =
     drops (keepOneDropsWhy groups requested refDirs canon existing isOut (None :: unit reader option) ())"

text \<open>\<open>checkStaying\<close>'s reader: an empty hash is never compared, a path is read once.  The
  argument \<open>rd\<close> is \<open>verifyRead\<close>, \<open>None\<close> for a failed read.\<close>

definition memo_intact :: "(path \<Rightarrow> string option) \<Rightarrow> (path \<rightharpoonup> bool) reader" where
  "memo_intact rd m p hash =
     (if hash = [] then (True, m)
      else case m p of
          Some ok \<Rightarrow> (ok, m)
        | None \<Rightarrow> (let ok = (rd p = Some hash) in (ok, m(p \<mapsto> ok))))"

subsection \<open>What keep-one promises\<close>

text \<open>An original of the group is on disk: one the request would move, or a staying one that
  holds the group's content.\<close>

definition has_original ::
  "path set \<Rightarrow> path list \<Rightarrow> path set \<Rightarrow> (path \<Rightarrow> bool) option \<Rightarrow> (path \<Rightarrow> bool) \<Rightarrow> path list \<Rightarrow> bool" where
  "has_original requested refDirs existing isOut good paths \<longleftrightarrow>
     (\<exists>p \<in> set paths. p \<in> existing \<and> is_original isOut p
        \<and> (\<not> is_staying requested refDirs p \<or> good p))"

text \<open>A path may be the copy that stays: originals only, while there is an original.\<close>

definition may_count ::
  "path set \<Rightarrow> path list \<Rightarrow> path set \<Rightarrow> (path \<Rightarrow> bool) option \<Rightarrow> (path \<Rightarrow> bool) \<Rightarrow> path list
    \<Rightarrow> path \<Rightarrow> bool" where
  "may_count requested refDirs existing isOut good paths p \<longleftrightarrow>
     (has_original requested refDirs existing isOut good paths \<longrightarrow> is_original isOut p)"

definition surviving ::
  "path set \<Rightarrow> path list \<Rightarrow> path set \<Rightarrow> (path \<Rightarrow> bool) option \<Rightarrow> (path \<Rightarrow> bool) \<Rightarrow> path list
    \<Rightarrow> path \<Rightarrow> bool" where
  "surviving requested refDirs existing isOut good paths p \<longleftrightarrow>
     p \<in> set paths \<and> is_staying requested refDirs p \<and> p \<in> existing \<and> good p
     \<and> may_count requested refDirs existing isOut good paths p"

text \<open>A held-back path of the set \<open>D\<close>, the best there is: whenever a copy the request would
  move exists and holds the content, the held one does.\<close>

definition held_best ::
  "path set \<Rightarrow> path list \<Rightarrow> path set \<Rightarrow> (path \<Rightarrow> bool) option \<Rightarrow> (path \<Rightarrow> bool) \<Rightarrow> path list
    \<Rightarrow> path set \<Rightarrow> path \<Rightarrow> bool" where
  "held_best requested refDirs existing isOut good paths D k \<longleftrightarrow>
     k \<in> set paths \<and> k \<in> D \<and> \<not> is_staying requested refDirs k
     \<and> may_count requested refDirs existing isOut good paths k
     \<and> ((\<exists>q \<in> set paths. \<not> is_staying requested refDirs q \<and> q \<in> existing \<and> good q
            \<and> may_count requested refDirs existing isOut good paths q)
          \<longrightarrow> k \<in> existing \<and> good k)"

definition group_kept ::
  "path set \<Rightarrow> path list \<Rightarrow> path set \<Rightarrow> (path \<Rightarrow> bool) option \<Rightarrow> (path \<Rightarrow> bool) \<Rightarrow> path list
    \<Rightarrow> path set \<Rightarrow> bool" where
  "group_kept requested refDirs existing isOut good paths D \<longleftrightarrow>
     (\<forall>p \<in> set paths. is_staying requested refDirs p)
     \<or> (\<exists>p. surviving requested refDirs existing isOut good paths p)
     \<or> (\<exists>k. held_best requested refDirs existing isOut good paths D k)"

lemma group_kept_mono:
  "group_kept rq rf ex io good paths D \<Longrightarrow> D \<subseteq> D' \<Longrightarrow> group_kept rq rf ex io good paths D'"
  unfolding group_kept_def held_best_def by blast

lemma find_first: "List.find P xs = Some x \<Longrightarrow> x \<in> set xs \<and> P x"
  by (auto simp: find_Some_iff)

lemma find_none: "List.find P xs = None \<longleftrightarrow> (\<forall>x \<in> set xs. \<not> P x)"
  by (auto simp: find_None_iff)

subsection \<open>What keep-one relies on of the reader\<close>

locale intact_reader =
  fixes ask :: "'m reader"
    and content :: "path \<Rightarrow> string \<Rightarrow> bool"
    and inv :: "'m \<Rightarrow> bool"
    and asked :: "path \<Rightarrow> string \<Rightarrow> bool"
  assumes ask_inv: "inv m \<Longrightarrow> asked p h \<Longrightarrow> ask m p h = (b, m') \<Longrightarrow> inv m'"
    and ask_content: "inv m \<Longrightarrow> asked p h \<Longrightarrow> ask m p h = (b, m') \<Longrightarrow> b = content p h"
begin

lemma holds_ask:
  assumes "inv (fst st)" "asked p h"
  shows "\<exists>m'. holds (Some ask) h p st = (content p h, (m', snd st \<or> \<not> content p h)) \<and> inv m'"
proof -
  obtain b m' where *: "ask (fst st) p h = (b, m')" by (cases "ask (fst st) p h")
  then show ?thesis
    using ask_inv [OF assms *] ask_content [OF assms *] by (auto simp: holds_def)
qed

lemma orig_loop_ask:
  assumes "\<forall>p \<in> set ps. asked p h" "inv (fst st)"
  shows "\<exists>m' s'. orig_loop q (holds (Some ask) h) ps a st
      = (a \<or> (\<exists>p \<in> set ps. q p \<and> content p h), (m', s')) \<and> inv m'
      \<and> (s' \<longrightarrow> snd st \<or> (\<exists>p \<in> set ps. q p \<and> \<not> content p h))"
  using assms
proof (induction ps arbitrary: a st)
  case Nil
  then show ?case by (cases st) auto
next
  case (Cons p ps)
  show ?case
  proof (cases "a \<or> \<not> q p")
    case True
    then show ?thesis using Cons.prems Cons.IH [of st a] by (cases st) auto
  next
    case False
    obtain m1 where m1: "holds (Some ask) h p st = (content p h, (m1, snd st \<or> \<not> content p h))"
      "inv m1"
      using holds_ask [of st p h] Cons.prems by auto
    show ?thesis
      using Cons.IH [of "(m1, snd st \<or> \<not> content p h)" "content p h"] Cons.prems m1 False by auto
  qed
qed

lemma pick_intact_ask:
  assumes "\<forall>p \<in> set ps. asked p h" "inv m"
  shows "\<exists>m'. inv m' \<and> pick_intact ask h ex ps keep m =
     ((case List.find (\<lambda>p. ex p \<and> content p h) ps of Some p \<Rightarrow> p | None \<Rightarrow> keep), m')"
  using assms
proof (induction ps arbitrary: m)
  case (Cons p ps)
  obtain b m' where *: "ask m p h = (b, m')" by (cases "ask m p h")
  then have b: "b = content p h" "inv m'"
    using ask_inv ask_content Cons.prems by (meson list.set_intros(1))+
  show ?case using Cons * b by auto
qed auto

lemma tally_loop_ask:
  assumes "\<forall>p \<in> set ps. asked p h" "inv (fst st)"
  shows "\<exists>t' m' s'. tally_loop staying ex original counts (holds (Some ask) h) ps t st = (t', (m', s'))
      \<and> inv m'
      \<and> (0 < survivors t' \<longleftrightarrow>
           0 < survivors t \<or> (\<exists>p \<in> set ps. staying p \<and> ex p \<and> counts p \<and> content p h))
      \<and> (s' \<longrightarrow> snd st \<or> (\<exists>p \<in> set ps. staying p \<and> ex p \<and> \<not> content p h))
      \<and> outSurvivors t' = outSurvivors t + length (filter (\<lambda>p. staying p \<and> ex p \<and> \<not> counts p) ps)
      \<and> tier0 t' = tier0 t @ filter (\<lambda>p. \<not> staying p \<and> counts p \<and> ex p \<and> original p) ps
      \<and> tier1 t' = tier1 t @ filter (\<lambda>p. \<not> staying p \<and> counts p \<and> ex p) ps
      \<and> tier2 t' = tier2 t @ filter (\<lambda>p. \<not> staying p \<and> counts p \<and> original p) ps
      \<and> tier3 t' = tier3 t @ filter (\<lambda>p. \<not> staying p \<and> counts p) ps"
  using assms
proof (induction ps arbitrary: t st)
  case Nil
  then show ?case by (cases st) auto
next
  case (Cons p ps)
  have asked: "\<forall>p \<in> set ps. asked p h" using Cons.prems by simp
  show ?case
  proof (cases "staying p \<and> ex p \<and> counts p \<and> survivors t = 0")
    case True
    obtain m1 where m1: "holds (Some ask) h p st = (content p h, (m1, snd st \<or> \<not> content p h))"
      "inv m1"
      using holds_ask [of st p h] Cons.prems by auto
    show ?thesis
      using Cons.IH [OF asked, of "(m1, snd st \<or> \<not> content p h)"
          "if content p h then t\<lparr>survivors := survivors t + 1\<rparr> else t"] m1 True
      by (cases "content p h") auto
  next
    case False
    consider "staying p" "\<not> ex p" | "staying p" "ex p" "\<not> counts p"
      | "staying p" "ex p" "counts p" "0 < survivors t" | "\<not> staying p" "\<not> counts p"
      | "\<not> staying p" "counts p" using False by auto
    then show ?thesis
    proof cases
      case 1
      then show ?thesis using Cons.IH [OF asked Cons.prems(2), of t] by auto
    next
      case 2
      then show ?thesis
        using Cons.IH [OF asked Cons.prems(2), of "t\<lparr>outSurvivors := outSurvivors t + 1\<rparr>"] by auto
    next
      case 3
      then show ?thesis using Cons.IH [OF asked Cons.prems(2), of t] by auto
    next
      case 4
      then show ?thesis using Cons.IH [OF asked Cons.prems(2), of t] by auto
    next
      case 5
      let ?t = "t\<lparr>tier0 := (if ex p \<and> original p then tier0 t @ [p] else tier0 t),
             tier1 := (if ex p then tier1 t @ [p] else tier1 t),
             tier2 := (if original p then tier2 t @ [p] else tier2 t),
             tier3 := tier3 t @ [p]\<rparr>"
      show ?thesis using Cons.IH [OF asked Cons.prems(2), of ?t] 5 by (auto split: if_splits)
    qed
  qed
qed

text \<open>One group: either nothing changes, because a copy survives or nothing of the group would
  move, or exactly one more path is held back, and it is a best one.\<close>

lemma keep_group_ask:
  fixes requested :: "path set" and refDirs :: "path list" and existing :: "path set"
    and isOut :: "(path \<Rightarrow> bool) option"
  assumes inv: "inv (memo r)" and asked: "\<forall>p \<in> set (group_paths canon g). asked p (group_hash g)"
  defines "paths \<equiv> group_paths canon g"
    and "good \<equiv> \<lambda>p. content p (group_hash g)"
    and "r' \<equiv> keep_group requested refDirs canon existing isOut (Some ask) g r"
  shows "inv (memo r') \<and>
    (((\<exists>p. surviving requested refDirs existing isOut good paths p)
        \<or> (\<forall>p \<in> set paths. is_staying requested refDirs p))
       \<and> drops r' = drops r \<and> outHeld r' = outHeld r \<and> staleHeld r' = staleHeld r
     \<or> (\<nexists>p. surviving requested refDirs existing isOut good paths p)
       \<and> (\<exists>k. held_best requested refDirs existing isOut good paths {k} k
            \<and> drops r' = insert k (drops r)
            \<and> outHeld r' \<subseteq> insert k (outHeld r) \<and> staleHeld r' \<subseteq> insert k (staleHeld r)
            \<and> (staleHeld r' \<noteq> staleHeld r \<longrightarrow>
                 (\<exists>p \<in> set paths. is_staying requested refDirs p \<and> p \<in> existing \<and> \<not> good p))))"
proof -
  let ?h = "group_hash g"
  let ?stay = "is_staying requested refDirs"
  let ?orig = "is_original isOut"
  let ?any0 = "list_ex (\<lambda>p. \<not> ?stay p \<and> p \<in> existing \<and> ?orig p) paths"
  let ?ho = "has_original requested refDirs existing isOut good paths"
  let ?mc = "may_count requested refDirs existing isOut good paths"
  let ?counts = "\<lambda>p. \<not> ?ho \<or> ?orig p"
  have asked': "\<forall>p \<in> set paths. asked p ?h" using asked by (simp add: paths_def)
  let ?q = "\<lambda>p. ?stay p \<and> p \<in> existing \<and> ?orig p"
  have ho: "(?any0 \<or> (\<exists>p \<in> set paths. ?q p \<and> content p ?h)) = ?ho"
    unfolding has_original_def list_ex_iff good_def by blast
  obtain m1 s1 where o1:
    "orig_loop ?q (holds (Some ask) ?h) paths ?any0 (memo r, False) = (?ho, (m1, s1))" "inv m1"
    and s1: "s1 \<longrightarrow> (\<exists>p \<in> set paths. ?q p \<and> \<not> content p ?h)"
    using orig_loop_ask [OF asked', of "(memo r, False)" ?q ?any0] inv unfolding ho by auto
  obtain t m2 s2 where t:
    "tally_loop ?stay (\<lambda>p. p \<in> existing) ?orig ?counts (holds (Some ask) ?h) paths tally0 (m1, s1)
       = (t, (m2, s2))" "inv m2"
    and surv: "0 < survivors t \<longleftrightarrow> (\<exists>p. surviving requested refDirs existing isOut good paths p)"
    and s2: "s2 \<longrightarrow> s1 \<or> (\<exists>p \<in> set paths. ?stay p \<and> p \<in> existing \<and> \<not> good p)"
    and tiers: "tier0 t = filter (\<lambda>p. \<not> ?stay p \<and> ?counts p \<and> p \<in> existing \<and> ?orig p) paths"
      "tier1 t = filter (\<lambda>p. \<not> ?stay p \<and> ?counts p \<and> p \<in> existing) paths"
      "tier2 t = filter (\<lambda>p. \<not> ?stay p \<and> ?counts p \<and> ?orig p) paths"
      "tier3 t = filter (\<lambda>p. \<not> ?stay p \<and> ?counts p) paths"
  proof -
    have sv: "(\<exists>p \<in> set paths. ?stay p \<and> p \<in> existing \<and> ?counts p \<and> content p ?h)
      \<longleftrightarrow> (\<exists>p. surviving requested refDirs existing isOut good paths p)"
      unfolding surviving_def may_count_def good_def by blast
    have i: "inv (fst (m1, s1))" using o1(2) by simp
    from tally_loop_ask [OF asked' i, of ?stay "\<lambda>p. p \<in> existing" ?orig ?counts tally0]
    show thesis
      unfolding sv by (elim exE conjE) (rule that; simp add: tally0_def good_def)
  qed
  have set_cands: "set (cands_of t) = {p \<in> set paths. \<not> ?stay p \<and> ?mc p}"
    unfolding cands_of_def tiers may_count_def by auto
  have r'_eq: "r' = (if survivors t > 0 then r\<lparr>memo := m2\<rparr>
      else if cands_of t = [] then r\<lparr>memo := m2\<rparr>
      else (case pick_intact ask ?h (\<lambda>p. p \<in> existing) (cands_of t) (hd (cands_of t)) m2 of
          (keep, m3) \<Rightarrow>
            \<lparr>drops = insert keep (drops r),
             outHeld = (if \<not> s2 \<and> outSurvivors t > 0 then insert keep (outHeld r) else outHeld r),
             staleHeld = (if s2 then insert keep (staleHeld r) else staleHeld r),
             memo = m3\<rparr>))"
    unfolding r'_def keep_group_def Let_def paths_def [symmetric]
    using o1(1) t(1) by (simp add: paths_def split_def)
  show ?thesis
  proof (cases "survivors t > 0")
    case True
    then show ?thesis using surv t(2) by (simp add: r'_eq)
  next
    case no_surv: False
    show ?thesis
    proof (cases "cands_of t = []")
      case True
      then have none: "\<not> ?mc p" if "p \<in> set paths" "\<not> ?stay p" for p
        using that set_cands by auto
      have "?stay p" if p: "p \<in> set paths" for p
      proof (rule ccontr)
        assume "\<not> ?stay p"
        then have "\<not> ?mc p" using none p by blast
        then obtain q where q: "q \<in> set paths" "q \<in> existing" "?orig q" "\<not> ?stay q \<or> good q"
          by (auto simp: may_count_def has_original_def)
        then have "?mc q" by (simp add: may_count_def)
        then have "surviving requested refDirs existing isOut good paths q"
          using q none by (auto simp: surviving_def)
        then show False using no_surv unfolding surv by blast
      qed
      then show ?thesis using True no_surv t(2) by (simp add: r'_eq)
    next
      case False
      define k where "k = (case List.find (\<lambda>p. p \<in> existing \<and> content p ?h) (cands_of t) of
          Some p \<Rightarrow> p | None \<Rightarrow> hd (cands_of t))"
      obtain m3 where m3: "inv m3"
        "pick_intact ask ?h (\<lambda>p. p \<in> existing) (cands_of t) (hd (cands_of t)) m2 = (k, m3)"
      proof -
        have "\<forall>p \<in> set (cands_of t). asked p ?h" using asked' set_cands by auto
        from pick_intact_ask [OF this t(2), of "\<lambda>p. p \<in> existing" "hd (cands_of t)"]
        show thesis using that unfolding k_def by blast
      qed
      have k_in: "k \<in> set (cands_of t)"
        using False find_first unfolding k_def by (fastforce split: option.split)
      have k_best: "k \<in> existing \<and> good k"
        if "\<exists>q \<in> set (cands_of t). q \<in> existing \<and> good q"
        using that find_first [of _ "cands_of t" k] find_none [of _ "cands_of t"]
        unfolding k_def good_def by (fastforce split: option.split dest: find_first)
      have hb: "held_best requested refDirs existing isOut good paths {k} k"
        unfolding held_best_def using k_in k_best set_cands by auto
      have ns: "\<nexists>p. surviving requested refDirs existing isOut good paths p"
        using no_surv unfolding surv by simp
      have st: "s2 \<longrightarrow> (\<exists>p \<in> set paths. ?stay p \<and> p \<in> existing \<and> \<not> good p)"
        using s1 s2 unfolding good_def by blast
      have eqs: "memo r' = m3" "drops r' = insert k (drops r)" "outHeld r' \<subseteq> insert k (outHeld r)"
        "staleHeld r' = (if s2 then insert k (staleHeld r) else staleHeld r)"
        using no_surv False m3(2) by (auto simp: r'_eq)
      show ?thesis
        using ns hb st eqs m3(1) by (intro conjI disjI2 exI [of _ k]) (auto split: if_splits)
    qed
  qed
qed

text \<open>All groups: the drops only grow, so what each group was promised stands at the end.\<close>

lemma keep_group_drops_mono:
  assumes "inv (memo r)" "\<forall>p \<in> set (group_paths canon g). asked p (group_hash g)"
  shows "drops r \<subseteq> drops (keep_group requested refDirs canon existing isOut (Some ask) g r)"
  using keep_group_ask [OF assms, of requested refDirs existing isOut] by auto

lemma keep_group_kept:
  assumes "inv (memo r)" "\<forall>p \<in> set (group_paths canon g). asked p (group_hash g)"
  shows "group_kept requested refDirs existing isOut (\<lambda>p. content p (group_hash g))
    (group_paths canon g) (drops (keep_group requested refDirs canon existing isOut (Some ask) g r))"
  using keep_group_ask [OF assms, of requested refDirs existing isOut]
  unfolding group_kept_def held_best_def by blast

lemma fold_keep_group:
  fixes requested :: "path set" and refDirs :: "path list" and existing :: "path set"
    and isOut :: "(path \<Rightarrow> bool) option"
  assumes "inv (memo r)"
    and "\<forall>g \<in> set gs. \<forall>p \<in> set (group_paths canon g). asked p (group_hash g)"
  defines "r' \<equiv> fold (keep_group requested refDirs canon existing isOut (Some ask)) gs r"
  shows "drops r \<subseteq> drops r' \<and> inv (memo r') \<and>
    (\<forall>g \<in> set gs. group_kept requested refDirs existing isOut (\<lambda>p. content p (group_hash g))
       (group_paths canon g) (drops r'))"
  using assms(1,2) unfolding r'_def
proof (induction gs arbitrary: r)
  case (Cons g gs)
  let ?r1 = "keep_group requested refDirs canon existing isOut (Some ask) g r"
  have a: "\<forall>p \<in> set (group_paths canon g). asked p (group_hash g)" using Cons.prems by simp
  have i: "inv (memo ?r1)" using keep_group_ask [OF Cons.prems(1) a] by blast
  have IH: "drops ?r1 \<subseteq> drops (fold (keep_group requested refDirs canon existing isOut (Some ask)) gs ?r1)"
    using Cons.IH [OF i] Cons.prems by simp
  show ?case
    using Cons.IH [OF i] Cons.prems group_kept_mono [OF keep_group_kept [OF Cons.prems(1) a] IH]
      keep_group_drops_mono [OF Cons.prems(1) a, of requested refDirs existing isOut] by auto
qed simp

lemma keepOneDropsWhy_kept:
  assumes "inv m" "\<forall>g \<in> set groups. \<forall>p \<in> set (group_paths canon g). asked p (group_hash g)"
    and "g \<in> set groups"
  shows "group_kept requested refDirs existing isOut (\<lambda>p. content p (group_hash g))
    (group_paths canon g)
    (drops (keepOneDropsWhy groups requested refDirs canon existing isOut (Some ask) m))"
  using fold_keep_group [of "held0 m" groups] assms
  unfolding keepOneDropsWhy_def held0_def by simp

text \<open>A drop is never unprovoked: it is a path of some group of which no copy survived.\<close>

lemma fold_keep_group_only:
  assumes "inv (memo r)"
    and "\<forall>g \<in> set gs. \<forall>p \<in> set (group_paths canon g). asked p (group_hash g)"
    and "p \<in> drops (fold (keep_group requested refDirs canon existing isOut (Some ask)) gs r)"
  shows "p \<in> drops r \<or> (\<exists>g \<in> set gs. p \<in> set (group_paths canon g)
    \<and> \<not> is_staying requested refDirs p
    \<and> (\<nexists>q. surviving requested refDirs existing isOut (\<lambda>p. content p (group_hash g))
          (group_paths canon g) q))"
  using assms
proof (induction gs arbitrary: r)
  case (Cons g gs)
  let ?r1 = "keep_group requested refDirs canon existing isOut (Some ask) g r"
  have a: "\<forall>p \<in> set (group_paths canon g). asked p (group_hash g)" using Cons.prems by simp
  have i: "inv (memo ?r1)" using keep_group_ask [OF Cons.prems(1) a] by blast
  have "p \<in> drops ?r1 \<or> (\<exists>g' \<in> set gs. p \<in> set (group_paths canon g')
    \<and> \<not> is_staying requested refDirs p
    \<and> (\<nexists>q. surviving requested refDirs existing isOut (\<lambda>p. content p (group_hash g'))
          (group_paths canon g') q))"
    using Cons.IH [OF i] Cons.prems by simp
  moreover have "p \<in> drops r \<or> p \<in> set (group_paths canon g)
    \<and> \<not> is_staying requested refDirs p
    \<and> (\<nexists>q. surviving requested refDirs existing isOut (\<lambda>p. content p (group_hash g))
          (group_paths canon g) q)" if "p \<in> drops ?r1"
    using that keep_group_ask [OF Cons.prems(1) a, of requested refDirs existing isOut]
    unfolding held_best_def by auto
  ultimately show ?case by auto
qed simp

end

subsection \<open>No reader, and the memoised one\<close>

text \<open>Without verification every copy holds the content: the reader that always says so.\<close>

definition trusting :: "'m reader" where
  "trusting m p h = (True, m)"

interpretation trust: intact_reader trusting "\<lambda>_ _. True" "\<lambda>_. True" "\<lambda>_ _. True"
  by unfold_locales (auto simp: trusting_def)

lemma holds_None: "holds None = holds (Some trusting)"
  by (auto simp: holds_def trusting_def fun_eq_iff)

lemma pick_trusting:
  "pick_intact trusting h ex ps keep m
     = ((case List.find ex ps of Some p \<Rightarrow> p | None \<Rightarrow> keep), m)"
  by (induction ps) (auto simp: trusting_def)

lemma hd_tiers:
  assumes "\<forall>p \<in> set t0. ex p" "\<forall>p \<in> set t1. ex p" "\<forall>p \<in> set t2 \<union> set t3. ex p \<longrightarrow> p \<in> set t1"
  shows "(case List.find ex (rev t0 @ rev t1 @ t2 @ t3) of Some p \<Rightarrow> p | None \<Rightarrow> hd (rev t0 @ rev t1 @ t2 @ t3))
    = hd (rev t0 @ rev t1 @ t2 @ t3)"
proof (cases "rev t0 @ rev t1")
  case Nil
  then have "\<forall>p \<in> set (t2 @ t3). \<not> ex p" using assms(3) by auto
  then have "List.find ex (t2 @ t3) = None" unfolding find_none by blast
  then show ?thesis using Nil by simp
next
  case (Cons p ps)
  then have "p \<in> set (rev t0 @ rev t1)" by simp
  then have "ex p" using assms(1,2) by auto
  then show ?thesis using Cons by (simp add: append_assoc [symmetric] del: append_assoc)
qed

lemma keep_group_None:
  fixes r :: "'m held"
  shows "keep_group requested refDirs canon existing isOut None g r
     = keep_group requested refDirs canon existing isOut (Some trusting) g r"
proof -
  let ?h = "group_hash g"
  let ?paths = "group_paths canon g"
  let ?stay = "is_staying requested refDirs"
  let ?orig = "is_original isOut"
  let ?T = "\<lambda>counts (st :: 'm \<times> bool). cands_of (fst
    (tally_loop ?stay (\<lambda>p. p \<in> existing) ?orig counts (holds (Some trusting) ?h) ?paths tally0 st))"
  have "(case List.find (\<lambda>p. p \<in> existing) (?T counts st) of
      Some p \<Rightarrow> p | None \<Rightarrow> hd (?T counts st)) = hd (?T counts st)" for counts st
  proof -
    obtain t m' s' where t: "tally_loop ?stay (\<lambda>p. p \<in> existing) ?orig counts
        (holds (Some trusting) ?h) ?paths tally0 st = (t, (m', s'))"
      by (metis surj_pair)
    show ?thesis
      using trust.tally_loop_ask [where ps = ?paths and st = st and staying = ?stay
          and ex = "\<lambda>p. p \<in> existing" and original = ?orig and counts = counts and h = ?h
          and t = tally0] t
      unfolding cands_of_def by (simp only: t fst_conv) (intro hd_tiers; auto simp: tally0_def)
  qed
  then show ?thesis
    unfolding keep_group_def Let_def holds_None
    by (simp add: pick_trusting split_def)
qed

lemma keepOneDropsWhy_None:
  fixes m :: 'm
  shows "keepOneDropsWhy groups requested refDirs canon existing isOut None m
     = keepOneDropsWhy groups requested refDirs canon existing isOut (Some trusting) m"
proof -
  have "keep_group requested refDirs canon existing isOut None
    = (keep_group requested refDirs canon existing isOut (Some trusting)
        :: Group \<Rightarrow> 'm held \<Rightarrow> 'm held)"
    by (intro ext keep_group_None)
  then show ?thesis by (simp only: keepOneDropsWhy_def)
qed

text \<open>The memo answers for the content as long as each path is asked about with one hash.\<close>

definition memo_inv :: "(path \<Rightarrow> string option) \<Rightarrow> (path \<Rightarrow> string) \<Rightarrow> (path \<rightharpoonup> bool) \<Rightarrow> bool" where
  "memo_inv rd H m \<longleftrightarrow> (\<forall>p ok. m p = Some ok \<longrightarrow> ok = (rd p = Some (H p)))"

definition reads_as :: "(path \<Rightarrow> string option) \<Rightarrow> path \<Rightarrow> string \<Rightarrow> bool" where
  "reads_as rd p h \<longleftrightarrow> h = [] \<or> rd p = Some h"

interpretation memoised: intact_reader "memo_intact rd" "reads_as rd" "memo_inv rd H"
  "\<lambda>p h. h = [] \<or> h = H p" for rd H
  by unfold_locales (auto simp: memo_intact_def reads_as_def memo_inv_def Let_def
      split: option.splits if_splits)

subsection \<open>A file is held back only when it has to be\<close>

text \<open>Keep-one refuses nothing it need not refuse: a path is held back only when it belongs to a
  group whose every file is wanted by this batch, of which no copy stays behind that exists, holds the
  content as far as a reader was asked, and may count as the group's survivor.\<close>

theorem held_back_only_when_needed:
  assumes "p \<in> keepOneDrops groups requested refDirs canon existing isOut"
  shows "\<exists>g \<in> set groups. p \<in> set (group_paths canon g) \<and> p \<in> requested \<and> \<not> isUnder p refDirs
    \<and> (\<nexists>q. surviving requested refDirs existing isOut (\<lambda>_. True) (group_paths canon g) q)"
  using assms
    trust.fold_keep_group_only [where r = "held0 ()" and gs = groups and canon = canon and p = p
      and requested = requested and refDirs = refDirs and existing = existing and isOut = isOut]
  by (auto simp: keepOneDrops_def keepOneDropsWhy_None keepOneDropsWhy_def [of _ _ _ _ _ _ "Some trusting"]
      held0_def is_staying_def)

theorem held_back_only_when_needed_witness:
  "\<exists>g \<in> set [zero_Group\<lparr>GFiles := [zero_FileEnt\<lparr>FDir := ''/v'', Name := ''a''\<rparr>]\<rparr>].
     ''/v/a'' \<in> set (group_paths (\<lambda>p. p) g) \<and> ''/v/a'' \<in> {''/v/a''} \<and> \<not> isUnder ''/v/a'' []
    \<and> (\<nexists>q. surviving {''/v/a''} [] {} None (\<lambda>_. True) (group_paths (\<lambda>p. p) g) q)"
  by (rule held_back_only_when_needed) code_simp

end
