(* ===== verification/SelfMount.thy ===== *)
theory SelfMount
  imports Paths Utf8
begin

text \<open>
  \<open>server/selfmount.go\<close>: shared folders of this NAS mounted back into itself.  The mount
  table's lines, this machine's addresses and the name lookup are arguments
  (\<open>/proc/mounts\<close>, \<open>localAddrs\<close>, \<open>lookupHost\<close>), and so is the address type
  with its parser and tests (package \<open>net\<close>).
\<close>

record selfMount =
  point :: path
  source :: gostring

definition mount_under :: "selfMount list \<Rightarrow> path \<Rightarrow> selfMount option" where
  "mount_under m p = List.find (\<lambda>s. p = point s \<or> HasPrefix p (point s @ ''/'')) m"

definition why :: "selfMount \<Rightarrow> string" where
  "why s = ''it is inside '' @ point s @ '', a remote folder mounted from this same NAS ('' @ source s
     @ ''), so every file in it is a second path to a file that is already here'' @ of_bytes [32, 0xE2, 0x80, 0x94, 32]
     @ ''use the folder itself, not the mount''"

definition netFSTypes :: "gostring list" where
  "netFSTypes = [''cifs'', ''smb3'', ''smbfs'', ''nfs'', ''nfs4'']"

text \<open>\<open>strings.CutPrefix\<close>, \<open>strings.Cut\<close> at one byte, \<open>strings.Index\<close> and
  \<open>strings.LastIndex\<close>.\<close>

definition CutPrefix :: "gostring \<Rightarrow> gostring \<Rightarrow> gostring option" where
  "CutPrefix s p = (if HasPrefix s p then Some (drop (length p) s) else None)"

fun Index_from :: "nat \<Rightarrow> gostring \<Rightarrow> gostring \<Rightarrow> nat option" where
  "Index_from i [] p = (if p = [] then Some i else None)"
| "Index_from i (c # s) p = (if HasPrefix (c # s) p then Some i else Index_from (Suc i) s p)"

fun LastIndex_from :: "nat \<Rightarrow> gostring \<Rightarrow> gostring \<Rightarrow> nat option" where
  "LastIndex_from i [] p = (if p = [] then Some i else None)"
| "LastIndex_from i (c # s) p =
     (case LastIndex_from (Suc i) s p of
        Some j \<Rightarrow> Some j
      | None \<Rightarrow> (if HasPrefix (c # s) p then Some i else None))"

definition trim_brackets :: "gostring \<Rightarrow> gostring" where
  "trim_brackets s =
     (let b = (\<lambda>c. c = CHR ''['' \<or> c = CHR '']'') in
      rev (dropWhile b (rev (dropWhile b s))))"

definition mountHost :: "gostring \<Rightarrow> gostring" where
  "mountHost src =
     (case CutPrefix src ''//'' of
        Some rest \<Rightarrow> trim_brackets (takeWhile (\<lambda>c. c \<noteq> slash) rest)
      | None \<Rightarrow>
          (case (if HasPrefix src ''['' then Index_from 0 src '']:'' else None) of
             Some i \<Rightarrow>
               if i > 0 then take (i - 1) (drop 1 src)
               else (case LastIndex_from 0 src '':/'' of
                       Some j \<Rightarrow> if j > 0 then take j src else [] | None \<Rightarrow> [])
           | None \<Rightarrow>
               (case LastIndex_from 0 src '':/'' of
                  Some j \<Rightarrow> if j > 0 then take j src else [] | None \<Rightarrow> [])))"

text \<open>\<open>strconv.ParseUint(s, 8, 8)\<close> of exactly three characters: three octal digits with a
  value below 256.\<close>

definition oct_digit :: "char \<Rightarrow> nat option" where
  "oct_digit c = (let n = of_char c in if 48 \<le> n \<and> n \<le> 55 then Some (n - 48) else None)"

definition parse_octal3 :: "char \<Rightarrow> char \<Rightarrow> char \<Rightarrow> nat option" where
  "parse_octal3 a b c =
     (case (oct_digit a, oct_digit b, oct_digit c) of
        (Some x, Some y, Some z) \<Rightarrow>
          (let n = x * 64 + y * 8 + z in if n < 256 then Some n else None)
      | _ \<Rightarrow> None)"

fun unescape_loop :: "gostring \<Rightarrow> gostring" where
  "unescape_loop (x # a # b # c # s) =
     (if x = CHR 0x5C then
        (case parse_octal3 a b c of
           Some n \<Rightarrow> char_of n # unescape_loop s
         | None \<Rightarrow> x # unescape_loop (a # b # c # s))
      else x # unescape_loop (a # b # c # s))"
| "unescape_loop s = s"

definition unescapeMount :: "gostring \<Rightarrow> gostring" where
  "unescapeMount s = (if \<not> Contains s [CHR 0x5C] then s else unescape_loop s)"

text \<open>\<open>unicode.IsSpace\<close> and \<open>strings.Fields\<close>.\<close>

definition IsSpace :: "nat \<Rightarrow> bool" where
  "IsSpace r \<longleftrightarrow> r \<in> {9, 10, 11, 12, 13, 32, 0x85, 0xA0, 0x1680, 0x2028, 0x2029, 0x202F, 0x205F, 0x3000}
     \<or> 0x2000 \<le> r \<and> r \<le> 0x200A"

fun fields_loop :: "(nat \<times> gostring) list \<Rightarrow> gostring \<Rightarrow> gostring list" where
  "fields_loop [] w = (if w = [] then [] else [w])"
| "fields_loop (rb # rs) w =
     (if IsSpace (fst rb) then (if w = [] then fields_loop rs [] else w # fields_loop rs [])
      else fields_loop rs (w @ snd rb))"

definition Fields :: "gostring \<Rightarrow> gostring list" where
  "Fields s = fields_loop (rune_chunks s) []"

text \<open>Package \<open>net\<close> and the machine, as the code asks them.\<close>

record 'ip net =
  ParseIP :: "gostring \<Rightarrow> 'ip option"
  IsLoopback :: "'ip \<Rightarrow> bool"
  IsUnspecified :: "'ip \<Rightarrow> bool"
  IPEqual :: "'ip \<Rightarrow> 'ip \<Rightarrow> bool"
  localAddrs :: "'ip list"
  lookupHost :: "gostring \<Rightarrow> 'ip list"

definition isOwn :: "'ip net \<Rightarrow> 'ip \<Rightarrow> bool" where
  "isOwn net ip \<longleftrightarrow> IsLoopback net ip \<or> IsUnspecified net ip
     \<or> list_ex (\<lambda>o'. IPEqual net o' ip) (localAddrs net)"

definition mount_ips :: "'ip net \<Rightarrow> gostring \<Rightarrow> gostring \<Rightarrow> 'ip list" where
  "mount_ips net opts src =
     (let ips = List.map_filter (\<lambda>opt. case CutPrefix opt ''addr='' of
                  Some v \<Rightarrow> ParseIP net v | None \<Rightarrow> None) (split_byte (CHR '','') opts)
      in if ips = [] then
           (let host = mountHost src in
            if host \<noteq> [] then
              (case ParseIP net host of Some ip \<Rightarrow> [ip] | None \<Rightarrow> lookupHost net host)
            else [])
         else ips)"

definition self_mount_line :: "'ip net \<Rightarrow> evalsym \<Rightarrow> gostring \<Rightarrow> selfMount list" where
  "self_mount_line net ev line =
     (let fields = Fields line in
      if length fields < 4 \<or> fields ! 2 \<notin> set netFSTypes then []
      else
        let src = unescapeMount (fields ! 0);
            pt = unescapeMount (fields ! 1);
            ips = mount_ips net (fields ! 3) src;
            self = (ips = [] \<or> list_ex (isOwn net) ips)
        in if self then
             let pt = Clean pt in
             \<lparr>point = pt, source = src\<rparr>
               # (case ev (Dir pt) of
                    Some rp \<Rightarrow>
                      (let alt = Join rp (Base pt) in
                       if alt \<noteq> pt then [\<lparr>point = alt, source = src\<rparr>] else [])
                  | None \<Rightarrow> [])
           else [])"

definition findSelfMounts :: "'ip net \<Rightarrow> evalsym \<Rightarrow> gostring list option \<Rightarrow> selfMount list" where
  "findSelfMounts net ev mounts =
     (case mounts of None \<Rightarrow> [] | Some lines \<Rightarrow> concat (map (self_mount_line net ev) lines))"

subsection \<open>Lookup and escapes\<close>

lemma mount_under_Some:
  "mount_under m p = Some s \<Longrightarrow> s \<in> set m \<and> isUnder p [point s]"
  by (auto simp: mount_under_def find_Some_iff isUnder_iff)

lemma mount_under_None: "mount_under m p = None \<longleftrightarrow> \<not> isUnder p (map point m)"
  by (auto simp: mount_under_def find_None_iff isUnder_iff)

text \<open>How the kernel writes a path into the table (\<open>seq_path\<close> with the escape set space,
  tab, newline and backslash): three octal digits after a backslash.\<close>

definition mangle_char :: "char \<Rightarrow> gostring" where
  "mangle_char c =
     (if c \<in> {CHR 0x20, CHR 0x09, CHR 0x0A, CHR 0x5C} then
        [CHR 0x5C, char_of (48 + of_char c div 64 mod 8 :: nat),
         char_of (48 + of_char c div 8 mod 8 :: nat), char_of (48 + of_char c mod 8 :: nat)]
      else [c])"

definition mangle :: "gostring \<Rightarrow> gostring" where
  "mangle s = concat (map mangle_char s)"

lemma unescape_loop_plain: "x \<noteq> CHR 0x5C \<Longrightarrow> unescape_loop (x # s) = x # unescape_loop s"
  by (cases "x # s" rule: unescape_loop.cases) auto

lemma char_of_escaped:
  "char_of (32::nat) = CHR 0x20" "char_of (9::nat) = CHR 0x09" "char_of (10::nat) = CHR 0x0A"
  "char_of (92::nat) = CHR 0x5C"
  by (simp_all add: char_of_def bit_0)

lemma unescape_mangle_loop: "unescape_loop (mangle s) = s"
proof (induction s)
  case (Cons c s)
  show ?case
  proof (cases "c \<in> {CHR 0x20, CHR 0x09, CHR 0x0A, CHR 0x5C}")
    case True
    then show ?thesis using Cons
      by (elim insertE) (auto simp: mangle_def mangle_char_def parse_octal3_def oct_digit_def char_of_escaped)
  next
    case False
    then show ?thesis using Cons
      by (auto simp: mangle_def mangle_char_def unescape_loop_plain)
  qed
qed (simp add: mangle_def)

lemma unescape_loop_id: "CHR 0x5C \<notin> set s \<Longrightarrow> unescape_loop s = s"
  by (induction s) (auto simp: unescape_loop_plain)

lemma Contains_single: "Contains s [c] \<longleftrightarrow> c \<in> set s"
  by (induction s) (auto simp: HasPrefix_def)

lemma unescapeMount_mangle: "unescapeMount (mangle s) = s"
  using unescape_mangle_loop [of s] unescape_loop_id [of "mangle s"]
  by (auto simp: unescapeMount_def Contains_single)

subsection \<open>What the table's reader finds\<close>

lemma rune_chunks_ascii:
  "ascii s \<Longrightarrow> rune_chunks (s @ t) = map (\<lambda>c. (of_char c, [c])) s @ rune_chunks t"
proof (induction s)
  case (Cons c s)
  then have c: "(of_char c :: nat) < 128" by (simp add: ascii_def)
  then have "valid_rune (of_char c)" by (simp add: valid_rune_def)
  then show ?case using Cons rune_chunks_valid [of "of_char c" "s @ t"]
    by (simp add: AppendRune_char [OF c] ascii_def)
qed simp

lemma Fields_words:
  assumes "ws \<noteq> []" "\<forall>w \<in> set ws. w \<noteq> [] \<and> ascii w \<and> (\<forall>c \<in> set w. \<not> IsSpace (of_char c))"
  shows "Fields (join_byte (CHR '' '') ws) = ws"
proof -
  have word: "fields_loop (map (\<lambda>c. (of_char c, [c])) w @ es) acc = fields_loop es (acc @ w)"
    if "\<forall>c \<in> set w. \<not> IsSpace (of_char c)" for w es acc
    using that by (induction w arbitrary: acc) auto
  have sp: "IsSpace (of_char (CHR '' ''))" by (simp add: IsSpace_def)
  have "fields_loop (map (\<lambda>c. (of_char c, [c])) (join_byte (CHR '' '') ws)) [] = ws"
    using assms
  proof (induction "CHR '' ''" ws rule: join_byte.induct)
    case (2 w)
    then show ?case using word [of w "[]" "[]"] by simp
  next
    case (3 w u us)
    then show ?case using word [of w _ "[]"] sp by simp
  qed simp
  moreover have "ascii (join_byte (CHR '' '') ws)"
    using assms by (induction "CHR '' ''" ws rule: join_byte.induct) (auto simp: ascii_def)
  ultimately show ?thesis
    using rune_chunks_ascii [of "join_byte (CHR '' '') ws" "[]"] by (simp add: Fields_def)
qed


definition ex_net :: "nat net" where
  "ex_net = \<lparr>ParseIP = (\<lambda>s. if s = ''10.0.0.1'' then Some 1 else None), IsLoopback = (\<lambda>_. False),
     IsUnspecified = (\<lambda>_. False), IPEqual = (=), localAddrs = [1], lookupHost = (\<lambda>_. [])\<rparr>"


text \<open>The reader splits a table line at every Unicode space, but the kernel escapes the ASCII ones
  only: a self-mount whose mount point holds a no-break space is read as a line of other fields and
  is not recognised, and a path below it is not refused.\<close>

theorem self_mount_missed_nbsp:
  "findSelfMounts ex_net (\<lambda>_. None)
     (Some [''nas:/v /mnt/a'' @ AppendRune 0xA0 @ ''b nfs addr=10.0.0.1 0 0'']) = []"
proof -
  have "rune_chunks (''nas:/v /mnt/a'' @ AppendRune 0xA0 @ ''b nfs addr=10.0.0.1 0 0'')
    = map (\<lambda>c. (of_char c, [c])) ''nas:/v /mnt/a'' @ (0xA0, AppendRune 0xA0)
      # map (\<lambda>c. (of_char c, [c])) ''b nfs addr=10.0.0.1 0 0''"
    using rune_chunks_ascii [of "''nas:/v /mnt/a''" "AppendRune 0xA0 @ ''b nfs addr=10.0.0.1 0 0''"]
      rune_chunks_valid [of "0xA0" "''b nfs addr=10.0.0.1 0 0''"]
      rune_chunks_ascii [of "''b nfs addr=10.0.0.1 0 0''" "[]"]
    by (simp add: ascii_def valid_rune_def)
  then have "Fields (''nas:/v /mnt/a'' @ AppendRune 0xA0 @ ''b nfs addr=10.0.0.1 0 0'')
    = [''nas:/v'', ''/mnt/a'', ''b'', ''nfs'', ''addr=10.0.0.1'', ''0'', ''0'']"
    unfolding Fields_def by (simp add: IsSpace_def)
  then show ?thesis by (simp add: findSelfMounts_def self_mount_line_def netFSTypes_def)
qed

end
