(* ===== verification/MoveVet.thy ===== *)
theory MoveVet
  imports KeepOne SelfMount TempFiles
begin

text \<open>
  \<open>server/move.go\<close>: what one move request is checked against (\<open>newMoveVet\<close>,
  \<open>refuse\<close>), the identity a file must still have (\<open>identMatches\<close>,
  \<open>groupExistence\<close>), the space a batch needs (\<open>crossVolumeNeed\<close>) and the pruning
  of moved rows (\<open>pruneMoved\<close>); with the share table and the name rules of
  \<open>server/fsapi.go\<close> these use.  File Station's answers are arguments: \<open>info\<close> is
  \<open>getInfo\<close> (\<open>None\<close> for its error), \<open>tab\<close> the share table, \<open>fmt\<close> the
  rendering of an epoch second in local time (\<open>fmtTime(time.Unix(s, 0))\<close>).
\<close>

subsection \<open>File Station's view of an entry\<close>

record fsEntry =
  FIsDir :: bool
  Code :: int
  FSize :: int
  Mtime :: int

definition fs_exists :: "fsEntry \<Rightarrow> bool" where
  "fs_exists e \<longleftrightarrow> Code e = 0"

record shareEntry =
  share_name :: gostring
  real :: path
  resolved :: path

text \<open>\<open>shareSpacePath\<close>, given the session's share table (\<open>None\<close> when it could not be
  fetched).\<close>

fun share_of :: "shareEntry list \<Rightarrow> path \<Rightarrow> path option" where
  "share_of [] p = None"
| "share_of (e # tab) p =
     (let try = (\<lambda>root. if root = [] then None
                  else if p = root then Some (slash # share_name e)
                  else if HasPrefix p (root @ ''/'')
                       then Some (slash # share_name e @ drop (length root) p)
                  else None)
      in case try (real e) of
           Some sp \<Rightarrow> Some sp
         | None \<Rightarrow> (case try (resolved e) of Some sp \<Rightarrow> Some sp | None \<Rightarrow> share_of tab p))"

definition shareSpacePath :: "shareEntry list option \<Rightarrow> path \<Rightarrow> path option" where
  "shareSpacePath tab p = (case tab of None \<Rightarrow> None | Some t \<Rightarrow> share_of t (Clean p))"

definition fsCannotAddress :: "gostring \<Rightarrow> bool" where
  "fsCannotAddress name \<longleftrightarrow> name = ''.DS_Store'' \<or> HasPrefix name ''._''"

definition fsCannotAddressPath :: "path \<Rightarrow> bool" where
  "fsCannotAddressPath p \<longleftrightarrow> fsCannotAddress (Base p) \<or> \<not> ValidString p"

subsection \<open>Identities\<close>

record entIdent =
  i_size :: int
  i_mod :: string
  i_modUnix :: int
  i_isDir :: bool
  i_pfx :: string
  i_hash :: string

definition identOf :: "FileEnt \<Rightarrow> entIdent" where
  "identOf f = \<lparr>i_size = Size f, i_mod = Mod f, i_modUnix = ModUnix f, i_isDir = IsDir f,
     i_pfx = Pfx f, i_hash = Hash f\<rparr>"

definition isDirIdent :: "entIdent list \<Rightarrow> bool" where
  "isDirIdent ids = list_ex i_isDir ids"

text \<open>The three tests of \<open>identMatches\<close>'s loop that skip a recorded identity.\<close>

definition ident_agrees :: "(int \<Rightarrow> string) \<Rightarrow> fsEntry \<Rightarrow> entIdent \<Rightarrow> bool" where
  "ident_agrees fmt e w \<longleftrightarrow>
     FIsDir e = i_isDir w
     \<and> (if i_modUnix w \<noteq> 0 then Mtime e = i_modUnix w else fmt (Mtime e) = i_mod w)
     \<and> (FIsDir e \<or> FSize e = i_size w)"

fun ident_loop :: "(int \<Rightarrow> string) \<Rightarrow> fsEntry \<Rightarrow> entIdent list \<Rightarrow> entIdent option \<Rightarrow> entIdent option" where
  "ident_loop fmt e [] best = best"
| "ident_loop fmt e (w # ws) best =
     (if \<not> ident_agrees fmt e w then ident_loop fmt e ws best
      else if i_hash w \<noteq> [] then Some w
      else ident_loop fmt e ws
        (case best of
           None \<Rightarrow> Some w
         | Some b \<Rightarrow> if i_pfx b = [] \<and> i_pfx w \<noteq> [] then Some w else Some b))"

definition identMatches :: "(int \<Rightarrow> string) \<Rightarrow> fsEntry \<Rightarrow> entIdent list \<Rightarrow> entIdent option" where
  "identMatches fmt e wants = ident_loop fmt e wants None"

lemma ident_loop_mem:
  "ident_loop fmt e ws best = Some w \<Longrightarrow> best = Some w \<or> w \<in> set ws \<and> ident_agrees fmt e w"
  by (induction ws arbitrary: best) (auto split: if_splits option.splits)

lemma ident_loop_some: "\<exists>w. ident_loop fmt e ws (Some b) = Some w"
  by (induction ws arbitrary: b) auto

lemma identMatches_None:
  "identMatches fmt e ws = None \<longleftrightarrow> (\<forall>w \<in> set ws. \<not> ident_agrees fmt e w)"
  unfolding identMatches_def
  by (induction ws) (auto simp: ident_loop_some)

lemma ident_loop_hash:
  "\<exists>w \<in> set ws. ident_agrees fmt e w \<and> i_hash w \<noteq> [] \<Longrightarrow>
     \<exists>w. ident_loop fmt e ws best = Some w \<and> i_hash w \<noteq> []"
  by (induction ws arbitrary: best) auto

lemma ident_loop_pfx:
  "(\<exists>b. best = Some b \<and> (i_pfx b \<noteq> [] \<or> i_hash b \<noteq> []))
     \<or> (\<exists>w \<in> set ws. ident_agrees fmt e w \<and> (i_pfx w \<noteq> [] \<or> i_hash w \<noteq> [])) \<Longrightarrow>
     \<exists>w. ident_loop fmt e ws best = Some w \<and> (i_pfx w \<noteq> [] \<or> i_hash w \<noteq> [])"
  by (induction ws arbitrary: best) (auto split: option.splits)

subsection \<open>Which members of the touched groups still exist\<close>

definition touched :: "(path \<Rightarrow> path) \<Rightarrow> path set \<Rightarrow> Group \<Rightarrow> bool" where
  "touched canon requested g = list_ex (\<lambda>f. canon (row_path f) \<in> requested) (GFiles g)"

text \<open>Every member of a touched group that File Station can address: its share path, its
  canonical path and its row's identity, in the loop's order.\<close>

definition existence_rows ::
  "(path \<Rightarrow> path option) \<Rightarrow> (path \<Rightarrow> path) \<Rightarrow> path set \<Rightarrow> Group list \<Rightarrow> (path \<times> path \<times> entIdent) list" where
  "existence_rows share canon requested groups =
     concat (map (\<lambda>g. if touched canon requested g
       then List.map_filter (\<lambda>f. map_option (\<lambda>sp. (sp, canon (row_path f), identOf f))
              (share (canon (row_path f)))) (GFiles g)
       else []) groups)"

definition groupExistence ::
  "(int \<Rightarrow> string) \<Rightarrow> (path \<Rightarrow> path option) \<Rightarrow> (path list \<Rightarrow> (path \<rightharpoonup> fsEntry) option)
    \<Rightarrow> Group list \<Rightarrow> path set \<Rightarrow> (path \<Rightarrow> path) \<Rightarrow> path set" where
  "groupExistence fmt share info groups requested canon =
     (let rows = existence_rows share canon requested groups;
          shares = uniq (map fst rows)
      in if shares = [] then {}
         else case info shares of
             None \<Rightarrow> {}
           | Some m \<Rightarrow>
               (\<lambda>(sp, cp, _). cp) ` set (filter (\<lambda>(sp, cp, _).
                  (case m sp of
                     None \<Rightarrow> False
                   | Some e \<Rightarrow> fs_exists e
                       \<and> identMatches fmt e
                           (map (\<lambda>(_, _, w). w) (filter (\<lambda>(sp', _, _). sp' = sp) rows)) \<noteq> None))
                  rows))"

subsection \<open>The vetting sets of a request\<close>

record MoveReq =
  RFiles :: "path list"
  RDest :: path
  Preserve :: bool
  RTool :: string
  Verify :: bool
  RID :: string

record server =
  results :: "string \<rightharpoonup> toolResult"
  refDirs :: "path list"
  keepers :: "path set"

record moveVet =
  v_tool :: string
  v_canonRefs :: "path list"
  v_allowed :: "path set"
  v_idents :: "path \<Rightarrow> entIdent list"
  v_keepers :: "path set"
  v_drops :: "path set"
  v_outHeld :: "path set"
  v_staleHeld :: "path set"
  v_selfm :: "selfMount list"
  v_groups :: "Group list"
  v_requested :: "path set"
  v_exists :: "path set"
  v_isOut :: "path \<Rightarrow> bool"
  v_vols :: "path list"

text \<open>Every row of the requested tool's result, flat rows first.\<close>

definition tool_rows :: "toolResult option \<Rightarrow> FileEnt list" where
  "tool_rows res = (case res of None \<Rightarrow> [] | Some r \<Rightarrow> Files r @ concat (map GFiles (Groups r)))"

definition idents_of :: "(path \<Rightarrow> path) \<Rightarrow> FileEnt list \<Rightarrow> path \<Rightarrow> entIdent list" where
  "idents_of canon rows cp = map identOf (filter (\<lambda>f. canon (row_path f) = cp) rows)"

text \<open>The environment of a request: the resolver's two methods, the share table, File Station's
  answers, the self-mounts, the record of moved copies and the volume roots.\<close>

record menv =
  e_canon :: "path \<Rightarrow> path"
  e_strict :: "path \<Rightarrow> path option"
  e_dir :: "path \<Rightarrow> path"
  e_share :: "path \<Rightarrow> path option"
  e_info :: "path list \<Rightarrow> (path \<rightharpoonup> fsEntry) option"
  e_fmt :: "int \<Rightarrow> string"
  e_selfm :: "selfMount list"
  e_isOut :: "path \<Rightarrow> bool"
  e_vols :: "path list"

definition requested_paths :: "menv \<Rightarrow> (path \<Rightarrow> entIdent list) \<Rightarrow> Group list \<Rightarrow> path list \<Rightarrow> path set" where
  "requested_paths env idents groups files =
     (let named = List.map_filter (e_strict env) files;
          reqDirs = filter (\<lambda>cp. isDirIdent (idents cp)) named
      in set named \<union>
         (if reqDirs = [] then {}
          else {p \<in> set (concat (map (group_paths (e_canon env)) groups)). isUnder p reqDirs}))"

definition newMoveVet :: "menv \<Rightarrow> server \<Rightarrow> MoveReq \<Rightarrow> moveVet" where
  "newMoveVet env s req =
     (let ents = tool_rows (results s (RTool req));
          groups = (case results s ''duplicates'' of None \<Rightarrow> [] | Some r \<Rightarrow> Groups r);
          canon = e_canon env;
          canonRefs = map (e_dir env) (refDirs s);
          idents = idents_of canon ents;
          requested = requested_paths env idents groups (RFiles req);
          existing = {p \<in> groupExistence (e_fmt env) (e_share env) (e_info env) groups requested canon.
                        mount_under (e_selfm env) p = None};
          h = keepOneDropsWhy groups requested canonRefs canon existing (Some (e_isOut env))
                (None :: unit reader option) ()
      in \<lparr>v_tool = RTool req, v_canonRefs = canonRefs,
          v_allowed = (\<lambda>f. canon (row_path f)) ` set ents, v_idents = idents,
          v_keepers = keepers s, v_drops = drops h, v_outHeld = outHeld h, v_staleHeld = {},
          v_selfm = e_selfm env, v_groups = groups, v_requested = requested, v_exists = existing,
          v_isOut = e_isOut env, v_vols = e_vols env\<rparr>)"

definition checkStaying :: "(path \<Rightarrow> path) \<Rightarrow> (path \<Rightarrow> string option) \<Rightarrow> moveVet \<Rightarrow> moveVet" where
  "checkStaying canon rd v =
     (let h = keepOneDropsWhy (v_groups v) (v_requested v) (v_canonRefs v) canon (v_exists v)
                (Some (v_isOut v)) (Some (memo_intact rd)) Map.empty
      in v\<lparr>v_drops := drops h, v_outHeld := outHeld h, v_staleHeld := staleHeld h\<rparr>)"

definition holdsUnder :: "path \<Rightarrow> path set \<Rightarrow> bool" where
  "holdsUnder dir held \<longleftrightarrow> (\<exists>p \<in> held. HasPrefix p (dir @ ''/''))"

text \<open>The refusals, in the order of the switch; the texts are the source's up to its dashes.\<close>

datatype refusal =
    InSelfMount string
  | OutsideVolumes
  | HeldStale
  | HeldOut
  | HeldOne
  | HeldInside
  | ReferenceFile
  | NotUnicode
  | CannotAddress
  | NotInResults
  | NoLongerTemp

definition refuse :: "(nat \<Rightarrow> nat) \<Rightarrow> moveVet \<Rightarrow> path \<Rightarrow> refusal option" where
  "refuse lower v cp =
     (case mount_under (v_selfm v) cp of
        Some sm \<Rightarrow> Some (InSelfMount (why sm))
      | None \<Rightarrow>
          if \<not> isUnder cp (v_vols v) then Some OutsideVolumes
          else if cp \<in> v_staleHeld v then Some HeldStale
          else if cp \<in> v_outHeld v then Some HeldOut
          else if cp \<in> v_drops v \<or> cp \<in> v_keepers v then Some HeldOne
          else if isDirIdent (v_idents v cp)
               \<and> (holdsUnder cp (v_drops v) \<or> holdsUnder cp (v_keepers v)) then Some HeldInside
          else if isUnder cp (v_canonRefs v) then Some ReferenceFile
          else if \<not> ValidString cp then Some NotUnicode
          else if fsCannotAddress (Base cp) then Some CannotAddress
          else if cp \<notin> v_allowed v then Some NotInResults
          else if v_tool v = ''temp_files'' \<and> \<not> isTempName lower (Base cp) then Some NoLongerTemp
          else None)"

subsection \<open>Space on another volume\<close>

definition volumeOf :: "path \<Rightarrow> path list \<Rightarrow> path" where
  "volumeOf p vols =
     (case List.find (\<lambda>r. p = r \<or> HasPrefix p (r @ ''/'')) vols of Some r \<Rightarrow> r | None \<Rightarrow> [])"

definition crossVolumeNeed :: "(path \<Rightarrow> path) \<Rightarrow> moveVet \<Rightarrow> path list \<Rightarrow> path \<Rightarrow> int" where
  "crossVolumeNeed canon v files destCanon =
     (let destVol = volumeOf destCanon (v_vols v) in
      sum_list (map (\<lambda>src.
        let cp = canon (Clean src) in
        if destVol = [] \<or> volumeOf cp (v_vols v) = destVol then 0
        else (case v_idents v cp of [] \<Rightarrow> 0 | w # _ \<Rightarrow> i_size w)) files))"

subsection \<open>Pruning moved rows\<close>

definition groupedTools :: "string list" where
  "groupedTools = [''duplicates'', ''corrupted_files'']"

record prune_args =
  p_gone :: "path set"
  p_names :: "gostring set"
  p_dirs :: "path list"
  p_canon :: "path \<Rightarrow> path"

definition prune_args_of :: "path list \<Rightarrow> path list \<Rightarrow> (path \<Rightarrow> path) \<Rightarrow> prune_args" where
  "prune_args_of canonPaths dirPaths canon =
     \<lparr>p_gone = set canonPaths, p_names = Base ` set canonPaths, p_dirs = dirPaths, p_canon = canon\<rparr>"

definition row_pruned :: "prune_args \<Rightarrow> FileEnt \<Rightarrow> bool" where
  "row_pruned a f \<longleftrightarrow>
     (let raw = row_path f; cp = p_canon a raw in
      (Name f \<in> p_names a \<or> p_dirs a \<noteq> [])
      \<and> (cp \<in> p_gone a \<or> raw \<in> p_gone a
         \<or> p_dirs a \<noteq> [] \<and> (isUnder cp (p_dirs a) \<or> isUnder raw (p_dirs a))))"

text \<open>The group loop: kept groups in order, and the survivors of dissolved duplicate groups.\<close>

fun prune_groups :: "prune_args \<Rightarrow> bool \<Rightarrow> Group list \<Rightarrow> Group list \<times> path set" where
  "prune_groups a dup [] = ([], {})"
| "prune_groups a dup (g # gs) =
     (let files = filter (\<lambda>f. \<not> row_pruned a f) (GFiles g);
          (out, ks) = prune_groups a dup gs
      in if length files \<ge> 2 then (g\<lparr>GFiles := files\<rparr> # out, ks)
         else if length files = 1 \<and> dup
         then (out, insert (p_canon a (row_path (hd files))) ks)
         else (out, ks))"

definition prune_result :: "prune_args \<Rightarrow> string \<Rightarrow> toolResult \<Rightarrow> toolResult" where
  "prune_result a tool res =
     (if tool \<in> set groupedTools
      then res\<lparr>Groups := fst (prune_groups a (tool = ''duplicates'') (Groups res))\<rparr>
      else res\<lparr>Files := filter (\<lambda>f. \<not> row_pruned a f) (Files res)\<rparr>)"

definition pruneMoved :: "path list \<Rightarrow> path list \<Rightarrow> (path \<Rightarrow> path) \<Rightarrow> server \<Rightarrow> server" where
  "pruneMoved canonPaths dirPaths canon s =
     (let a = prune_args_of canonPaths dirPaths canon in
      s\<lparr>results := (\<lambda>tool. map_option (prune_result a tool) (results s tool)),
        keepers := keepers s \<union>
          (case results s ''duplicates'' of None \<Rightarrow> {}
           | Some res \<Rightarrow> snd (prune_groups a True (Groups res)))\<rparr>)"

lemma prune_groups_rows:
  "g' \<in> set (fst (prune_groups a dup gs)) \<Longrightarrow> f \<in> set (GFiles g') \<Longrightarrow> \<not> row_pruned a f"
  by (induction gs) (auto simp: Let_def split_def split: if_splits)

lemma prune_groups_size: "g' \<in> set (fst (prune_groups a dup gs)) \<Longrightarrow> 2 \<le> length (GFiles g')"
  by (induction gs) (auto simp: Let_def split_def split: if_splits)

lemma prune_groups_complete:
  "g \<in> set gs \<Longrightarrow> f \<in> set (GFiles g) \<Longrightarrow> \<not> row_pruned a f \<Longrightarrow>
     (\<exists>g' \<in> set (fst (prune_groups a dup gs)). f \<in> set (GFiles g'))
     \<or> filter (\<lambda>f. \<not> row_pruned a f) (GFiles g) = [f]
       \<and> (dup \<longrightarrow> p_canon a (row_path f) \<in> snd (prune_groups a dup gs))"
proof (induction gs)
  case (Cons h gs)
  let ?fs = "filter (\<lambda>f. \<not> row_pruned a f) (GFiles g)"
  show ?case
  proof (cases "g = h")
    case True
    have "f \<in> set ?fs" using Cons.prems by simp
    then show ?thesis
      using True by (cases ?fs; cases "tl ?fs") (auto simp: Let_def split_def)
  next
    case False
    then show ?thesis using Cons by (auto simp: Let_def split_def)
  qed
qed simp

end
