(* ===== verification/BatchSafety.thy ===== *)
theory BatchSafety
  imports MoveVet
begin

text \<open>
  What the vetting of \<open>server/move.go\<close> guarantees for any set of vetted moves: no duplicate group
  loses its last copy, its last original, or (with verification) its last intact copy; only rows
  the requested tool listed may move; a member exists only on File Station's word; and pruning
  neither keeps a moved row nor loses a surviving one.  The theorems rest on the interpretations
  of \<open>intact_reader\<close> in \<open>KeepOne\<close>.
\<close>

subsection \<open>A batch cannot take a group's last copy\<close>

text \<open>What leaves its place when the canonical paths \<open>M\<close> move: they, and everything below
  the ones a scan recorded as directories.\<close>

definition taken :: "moveVet \<Rightarrow> path set \<Rightarrow> path \<Rightarrow> bool" where
  "taken v M p \<longleftrightarrow> p \<in> M \<or> (\<exists>d \<in> M. isDirIdent (v_idents v d) \<and> HasPrefix p (d @ ''/''))"

text \<open>The paths a batch can move: requested, and refused by nothing.  The folders among them hold
  no reference folder: they are empty-folder rows, confirmed to hold no folder but
  \<open>@eaDir\<close>.\<close>

definition vetted_batch :: "(nat \<Rightarrow> nat) \<Rightarrow> menv \<Rightarrow> MoveReq \<Rightarrow> moveVet \<Rightarrow> path set \<Rightarrow> bool" where
  "vetted_batch lower env req v M \<longleftrightarrow>
     (\<forall>cp \<in> M. cp \<in> set (List.map_filter (e_strict env) (RFiles req)) \<and> refuse lower v cp = None
        \<and> (isDirIdent (v_idents v cp)
             \<longrightarrow> (\<forall>r \<in> set (v_canonRefs v). \<not> HasPrefix r (cp @ ''/''))))"

lemma refuse_None:
  assumes "refuse lower v cp = None"
  shows "cp \<notin> v_drops v" "cp \<notin> v_keepers v" "\<not> isUnder cp (v_canonRefs v)" "cp \<in> v_allowed v"
    "isUnder cp (v_vols v)" "mount_under (v_selfm v) cp = None" "cp \<notin> v_staleHeld v"
    "isDirIdent (v_idents v cp) \<Longrightarrow> \<not> holdsUnder cp (v_drops v) \<and> \<not> holdsUnder cp (v_keepers v)"
  using assms by (auto simp: refuse_def split: option.splits if_splits)

text \<open>Two prefixes of one path, each ended by a slash, are comparable.\<close>

lemma prefixes_comparable:
  assumes "HasPrefix p (d @ ''/'')" "p = r \<or> HasPrefix p (r @ ''/'')"
  shows "d = r \<or> HasPrefix d (r @ ''/'') \<or> HasPrefix r (d @ ''/'')"
proof (cases "p = r")
  case True
  then show ?thesis using assms by simp
next
  case False
  obtain u where "p = d @ slash # u" using assms(1) by (auto simp: HasPrefix_iff)
  moreover obtain w where "p = r @ slash # w" using assms(2) False by (auto simp: HasPrefix_iff)
  ultimately have "d @ slash # u = r @ slash # w" by simp
  then obtain us where "d = r @ us \<and> us @ slash # u = slash # w
      \<or> d @ us = r \<and> slash # u = us @ slash # w"
    by (auto simp: append_eq_append_conv2)
  then show ?thesis by (cases us) (auto simp: HasPrefix_iff)
qed

lemma requested_named:
  "cp \<in> set (List.map_filter (e_strict env) files) \<Longrightarrow> cp \<in> requested_paths env idents groups files"
  by (simp add: requested_paths_def Let_def)

lemma requested_below:
  assumes "d \<in> set (List.map_filter (e_strict env) files)" "isDirIdent (idents d)"
    and "HasPrefix p (d @ ''/'')" "g \<in> set groups" "p \<in> set (group_paths (e_canon env) g)"
  shows "p \<in> requested_paths env idents groups files"
  using assms by (auto simp: requested_paths_def Let_def isUnder_iff filter_empty_conv)

text \<open>Nothing that stays is taken, and nothing that is held back.\<close>

lemma staying_not_taken:
  assumes batch: "vetted_batch lower env req v M"
    and rq: "v_requested v = requested_paths env (v_idents v) (v_groups v) (RFiles req)"
    and g: "g \<in> set (v_groups v)" "p \<in> set (group_paths (e_canon env) g)"
    and stay: "is_staying (v_requested v) (v_canonRefs v) p"
  shows "\<not> taken v M p"
proof
  assume "taken v M p"
  then consider "p \<in> M" | d where "d \<in> M" "isDirIdent (v_idents v d)" "HasPrefix p (d @ ''/'')"
    by (auto simp: taken_def)
  then show False
  proof cases
    case 1
    then have "p \<in> v_requested v" "\<not> isUnder p (v_canonRefs v)"
      using batch requested_named refuse_None(3) unfolding rq vetted_batch_def by blast+
    then show False using stay by (simp add: is_staying_def)
  next
    case 2
    have d: "d \<in> set (List.map_filter (e_strict env) (RFiles req))" "refuse lower v d = None"
      "\<forall>r \<in> set (v_canonRefs v). \<not> HasPrefix r (d @ ''/'')"
      using batch 2 by (auto simp: vetted_batch_def)
    have "p \<in> v_requested v" unfolding rq
      using requested_below [of d env "RFiles req" "v_idents v" p g "v_groups v"] d(1) 2(2,3) g
      by blast
    then obtain r where r: "r \<in> set (v_canonRefs v)" "p = r \<or> HasPrefix p (r @ ''/'')"
      using stay by (auto simp: is_staying_def isUnder_iff)
    from prefixes_comparable [OF 2(3) r(2)] have "isUnder d (v_canonRefs v)"
      using r d(3) by (auto simp: isUnder_iff)
    then show False using refuse_None(3) [OF d(2)] by blast
  qed
qed

lemma held_not_taken:
  assumes "vetted_batch lower env req v M" "k \<in> v_drops v \<union> v_keepers v"
  shows "\<not> taken v M k"
  using assms refuse_None(1,2,8) unfolding taken_def vetted_batch_def holdsUnder_def by blast

text \<open>What keep-one promised of a group, carried over to what the batch leaves in place.\<close>

lemma group_kept_in_place:
  assumes batch: "vetted_batch lower env req v M"
    and rq: "v_requested v = requested_paths env (v_idents v) (v_groups v) (RFiles req)"
    and g: "g \<in> set (v_groups v)"
    and kept: "group_kept (v_requested v) (v_canonRefs v) (v_exists v) isOut good
        (group_paths (e_canon env) g) (v_drops v)"
    and q: "q \<in> set (group_paths (e_canon env) g)" "q \<in> v_exists v" "good q"
      "may_count (v_requested v) (v_canonRefs v) (v_exists v) isOut good
         (group_paths (e_canon env) g) q"
  shows "\<exists>p \<in> set (group_paths (e_canon env) g). p \<in> v_exists v \<and> good p \<and> \<not> taken v M p
    \<and> may_count (v_requested v) (v_canonRefs v) (v_exists v) isOut good
         (group_paths (e_canon env) g) p"
proof (cases "is_staying (v_requested v) (v_canonRefs v) q")
  case True
  then show ?thesis using q staying_not_taken [OF batch rq g] by blast
next
  case False
  then consider p where "surviving (v_requested v) (v_canonRefs v) (v_exists v) isOut good
        (group_paths (e_canon env) g) p"
    | k where "held_best (v_requested v) (v_canonRefs v) (v_exists v) isOut good
        (group_paths (e_canon env) g) (v_drops v) k"
    using kept q(1) unfolding group_kept_def by blast
  then show ?thesis
  proof cases
    case 1
    then show ?thesis using staying_not_taken [OF batch rq g] unfolding surviving_def by blast
  next
    case 2
    then have "k \<in> v_exists v \<and> good k" using q False unfolding held_best_def by blast
    then show ?thesis using 2 held_not_taken [OF batch, of k] unfolding held_best_def by blast
  qed
qed

lemma newMoveVet_simps:
  "v_requested (newMoveVet env s req)
     = requested_paths env (v_idents (newMoveVet env s req)) (v_groups (newMoveVet env s req)) (RFiles req)"
  "v_drops (newMoveVet env s req) =
     drops (keepOneDropsWhy (v_groups (newMoveVet env s req)) (v_requested (newMoveVet env s req))
       (v_canonRefs (newMoveVet env s req)) (e_canon env) (v_exists (newMoveVet env s req))
       (Some (e_isOut env)) (None :: unit reader option) ())"
  "results s ''duplicates'' = Some res \<Longrightarrow> v_groups (newMoveVet env s req) = Groups res"
  "v_isOut (newMoveVet env s req) = e_isOut env"
  by (simp_all add: newMoveVet_def Let_def)

lemma checkStaying_simps [simp]:
  "v_requested (checkStaying canon rd v) = v_requested v"
  "v_idents (checkStaying canon rd v) = v_idents v"
  "v_groups (checkStaying canon rd v) = v_groups v"
  "v_canonRefs (checkStaying canon rd v) = v_canonRefs v"
  "v_exists (checkStaying canon rd v) = v_exists v"
  by (simp_all add: checkStaying_def Let_def)

lemma newMoveVet_kept:
  assumes "g \<in> set (v_groups (newMoveVet env s req))"
  shows "group_kept (v_requested (newMoveVet env s req)) (v_canonRefs (newMoveVet env s req))
    (v_exists (newMoveVet env s req)) (Some (e_isOut env)) (\<lambda>_. True)
    (group_paths (e_canon env) g) (v_drops (newMoveVet env s req))"
  unfolding newMoveVet_simps(2) keepOneDropsWhy_None
  using trust.keepOneDropsWhy_kept [OF _ _ assms] by simp

text \<open>C3. Whatever a batch moves after being vetted, every duplicate group of which a member still
  existed as recorded keeps a member in place: one that exists and that the batch neither moves nor
  carries along inside a folder it moves.\<close>

theorem batch_leaves_a_copy:
  assumes "results s ''duplicates'' = Some res" "g \<in> set (Groups res)"
    and "vetted_batch lower env req (newMoveVet env s req) M"
    and "q \<in> set (group_paths (e_canon env) g)" "q \<in> v_exists (newMoveVet env s req)"
  shows "\<exists>p \<in> set (group_paths (e_canon env) g).
    p \<in> v_exists (newMoveVet env s req) \<and> \<not> taken (newMoveVet env s req) M p"
proof -
  let ?v = "newMoveVet env s req"
  let ?mc = "may_count (v_requested ?v) (v_canonRefs ?v) (v_exists ?v) (Some (e_isOut env))
    (\<lambda>_. True) (group_paths (e_canon env) g)"
  have g: "g \<in> set (v_groups ?v)" using assms(1,2) newMoveVet_simps(3) by simp
  obtain w where "w \<in> set (group_paths (e_canon env) g)" "w \<in> v_exists ?v" "?mc w"
  proof (cases "?mc q")
    case True
    then show thesis using that assms(4,5) by blast
  next
    case False
    then show thesis using that unfolding may_count_def has_original_def by blast
  qed
  then show ?thesis
    using group_kept_in_place [OF assms(3) newMoveVet_simps(1) g newMoveVet_kept [OF g]] by blast
qed

text \<open>While a group has an original on disk, the copy a batch leaves in place is an original
  too: a copy this program moved itself never stands in for it.\<close>

theorem batch_leaves_an_original:
  assumes "results s ''duplicates'' = Some res" "g \<in> set (Groups res)"
    and "vetted_batch lower env req (newMoveVet env s req) M"
    and "q \<in> set (group_paths (e_canon env) g)" "q \<in> v_exists (newMoveVet env s req)"
    and "\<not> e_isOut env q"
  shows "\<exists>p \<in> set (group_paths (e_canon env) g).
    p \<in> v_exists (newMoveVet env s req) \<and> \<not> taken (newMoveVet env s req) M p \<and> \<not> e_isOut env p"
proof -
  let ?v = "newMoveVet env s req"
  have g: "g \<in> set (v_groups ?v)" using assms(1,2) newMoveVet_simps(3) by simp
  have ho: "has_original (v_requested ?v) (v_canonRefs ?v) (v_exists ?v) (Some (e_isOut env))
    (\<lambda>_. True) (group_paths (e_canon env) g)"
    using assms(4-6) by (auto simp: has_original_def is_original_def)
  then have "may_count (v_requested ?v) (v_canonRefs ?v) (v_exists ?v) (Some (e_isOut env))
    (\<lambda>_. True) (group_paths (e_canon env) g) q"
    using assms(6) by (simp add: may_count_def is_original_def)
  from group_kept_in_place [OF assms(3) newMoveVet_simps(1) g newMoveVet_kept [OF g] assms(4,5) _ this]
  show ?thesis using ho by (auto simp: may_count_def is_original_def)
qed


subsection \<open>A concrete request\<close>

text \<open>Two identical files in one group, both requested.\<close>

definition ex_row :: "gostring \<Rightarrow> FileEnt" where
  "ex_row n = zero_FileEnt\<lparr>Name := n, FDir := ''/v'', Size := 7, ModUnix := 5, Hash := ''h''\<rparr>"

definition ex_group :: Group where
  "ex_group = zero_Group\<lparr>GHash := ''h'', GFiles := [ex_row ''a'', ex_row ''b'']\<rparr>"

definition ex_result :: toolResult where
  "ex_result = zero_toolResult\<lparr>Tool := ''duplicates'', Groups := [ex_group]\<rparr>"

definition ex_server :: server where
  "ex_server = \<lparr>results = [''duplicates'' \<mapsto> ex_result], refDirs = [], keepers = {}\<rparr>"

definition ex_entry :: fsEntry where
  "ex_entry = \<lparr>FIsDir = False, Code = 0, FSize = 7, Mtime = 5\<rparr>"

definition ex_env :: menv where
  "ex_env = \<lparr>e_canon = (\<lambda>p. p), e_strict = Some, e_dir = (\<lambda>p. p), e_share = Some,
     e_info = (\<lambda>_. Some (\<lambda>_. Some ex_entry)), e_fmt = (\<lambda>_. []), e_selfm = [],
     e_isOut = (\<lambda>_. False), e_vols = [''/v'']\<rparr>"

definition ex_req :: MoveReq where
  "ex_req = \<lparr>RFiles = [''/v/a'', ''/v/b''], RDest = ''/w'', Preserve = False, RTool = ''duplicates'',
     Verify = True, RID = []\<rparr>"

definition ex_view :: "moveVet \<Rightarrow> (selfMount list \<times> path list \<times> path set \<times> path set \<times> path set \<times> path set)
    \<times> entIdent list \<times> path list \<times> bool \<times> string" where
  "ex_view v = ((v_selfm v, v_vols v, v_staleHeld v, v_outHeld v, v_drops v, v_keepers v),
     v_idents v ''/v/a'', v_canonRefs v, ''/v/a'' \<in> v_allowed v, v_tool v)"

definition ex_seen :: "(selfMount list \<times> path list \<times> path set \<times> path set \<times> path set \<times> path set)
    \<times> entIdent list \<times> path list \<times> bool \<times> string" where
  "ex_seen = (([], [''/v''], {}, {}, {''/v/b''}, {}), [identOf (ex_row ''a'')], [], True, ''duplicates'')"

lemma ex_view_vet: "ex_view (newMoveVet ex_env ex_server ex_req) = ex_seen"
  by code_simp

lemma ex_view_checked:
  "ex_view (checkStaying (e_canon ex_env) (\<lambda>_. Some ''h'') (newMoveVet ex_env ex_server ex_req)) = ex_seen"
  by code_simp

lemma ex_exists: "v_exists (newMoveVet ex_env ex_server ex_req) = {''/v/a'', ''/v/b''}"
  by code_simp

lemma ex_paths: "group_paths (e_canon ex_env) ex_group = [''/v/a'', ''/v/b'']"
  by code_simp

lemma ex_batch: "ex_view v = ex_seen \<Longrightarrow> vetted_batch lower ex_env ex_req v {''/v/a''}"
  by (simp add: ex_view_def ex_seen_def vetted_batch_def refuse_def mount_under_def isUnder_def
      isDirIdent_def identOf_def ex_row_def zero_FileEnt_def ValidString_ascii ascii_def
      fsCannotAddress_def Base_def ex_env_def ex_req_def map_filter_simps)

theorem batch_leaves_a_copy_witness:
  "\<exists>p \<in> set (group_paths (e_canon ex_env) ex_group).
     p \<in> v_exists (newMoveVet ex_env ex_server ex_req)
     \<and> \<not> taken (newMoveVet ex_env ex_server ex_req) {''/v/a''} p"
  by (rule batch_leaves_a_copy [where res = ex_result and q = "''/v/b''" and lower = "\<lambda>r. r"])
    (auto simp: ex_batch [OF ex_view_vet] ex_exists ex_paths, auto simp: ex_server_def ex_result_def)

theorem batch_leaves_an_original_witness:
  "\<exists>p \<in> set (group_paths (e_canon ex_env) ex_group).
     p \<in> v_exists (newMoveVet ex_env ex_server ex_req)
     \<and> \<not> taken (newMoveVet ex_env ex_server ex_req) {''/v/a''} p \<and> \<not> e_isOut ex_env p"
  by (rule batch_leaves_an_original [where res = ex_result and q = "''/v/b''" and lower = "\<lambda>r. r"])
    (auto simp: ex_batch [OF ex_view_vet] ex_exists ex_paths,
     auto simp: ex_server_def ex_result_def ex_env_def)


subsection \<open>Existence is what File Station confirmed\<close>

text \<open>A member counts as still existing only when File Station answered, reported an entry at its
  share path, and that entry agrees with an identity a duplicates row of the same share path recorded;
  with no answer nothing counts.\<close>

theorem groupExistence_sound:
  assumes "p \<in> groupExistence fmt share info groups requested canon"
  shows "\<exists>m sp e g f f'. info (uniq (map fst (existence_rows share canon requested groups))) = Some m
    \<and> g \<in> set groups \<and> touched canon requested g \<and> f \<in> set (GFiles g)
    \<and> p = canon (row_path f) \<and> share p = Some sp \<and> m sp = Some e \<and> fs_exists e
    \<and> f' \<in> set (concat (map GFiles groups)) \<and> share (canon (row_path f')) = Some sp
    \<and> ident_agrees fmt e (identOf f')"
proof -
  let ?rows = "existence_rows share canon requested groups"
  have rowD: "\<exists>g f. g \<in> set groups \<and> touched canon requested g \<and> f \<in> set (GFiles g)
      \<and> cp = canon (row_path f) \<and> share cp = Some sp \<and> w = identOf f"
    if "(sp, cp, w) \<in> set ?rows" for sp cp w
    using that by (fastforce simp: existence_rows_def List.map_filter_def split: if_splits)
  obtain m sp w0 e where m: "info (uniq (map fst ?rows)) = Some m" "(sp, p, w0) \<in> set ?rows"
    "m sp = Some e" "fs_exists e"
    "identMatches fmt e (map (\<lambda>(_, _, w). w) (filter (\<lambda>(sp', _, _). sp' = sp) ?rows)) \<noteq> None"
    using assms
    by (auto simp: groupExistence_def Let_def split: if_splits option.splits)
  then obtain cp' w where w: "(sp, cp', w) \<in> set ?rows" "ident_agrees fmt e w"
    unfolding identMatches_None by auto
  show ?thesis using rowD [OF m(2)] rowD [OF w(1)] m w(2) by fastforce
qed

theorem groupExistence_sound_witness:
  "\<exists>m sp e g f f'. (\<lambda>_. Some (\<lambda>_. Some ex_entry))
        (uniq (map fst (existence_rows Some (\<lambda>p. p) {''/v/a''} [ex_group]))) = Some m
    \<and> g \<in> set [ex_group] \<and> touched (\<lambda>p. p) {''/v/a''} g \<and> f \<in> set (GFiles g)
    \<and> ''/v/b'' = row_path f \<and> Some ''/v/b'' = Some sp \<and> m sp = Some e \<and> fs_exists e
    \<and> f' \<in> set (concat (map GFiles [ex_group])) \<and> Some (row_path f') = Some sp
    \<and> ident_agrees (\<lambda>_. []) e (identOf f')"
proof -
  have "''/v/b'' \<in> groupExistence (\<lambda>_. []) Some (\<lambda>_. Some (\<lambda>_. Some ex_entry)) [ex_group]
      {''/v/a''} (\<lambda>p. p)"
    by code_simp
  from groupExistence_sound [OF this] show ?thesis by simp
qed

text \<open>C4. The files a move may take are rows of the requested tool's own result, lie inside the volumes,
  outside every reference folder and every self-mount, are not held back, and are names File Station can
  address.\<close>

theorem only_listed_files_move:
  assumes "refuse lower (newMoveVet env s req) cp = None"
  shows "(\<exists>f \<in> set (tool_rows (results s (RTool req))). e_canon env (row_path f) = cp)
    \<and> isUnder cp (e_vols env) \<and> \<not> isUnder cp (map (e_dir env) (refDirs s))
    \<and> mount_under (e_selfm env) cp = None \<and> cp \<notin> keepers s \<and> \<not> fsCannotAddressPath cp
    \<and> (RTool req = ''temp_files'' \<longrightarrow> isTempName lower (Base cp))"
  using assms
  by (auto simp: refuse_def newMoveVet_def Let_def fsCannotAddressPath_def
      split: option.splits if_splits)

theorem only_listed_files_move_witness:
  "\<exists>f \<in> set (tool_rows (results ex_server (RTool ex_req))). e_canon ex_env (row_path f) = ''/v/a''"
proof -
  have "refuse (\<lambda>r. r) (newMoveVet ex_env ex_server ex_req) ''/v/a'' = None"
    using ex_batch [OF ex_view_vet] by (simp add: vetted_batch_def)
  from only_listed_files_move [OF this] show ?thesis by blast
qed

text \<open>Pruning forgets no survivor: a duplicates row that did not move is either still listed in a
  group, or its group dissolved with this row as the last one and its canonical path is now a keeper,
  which no later request may move.\<close>

theorem prune_keeps_survivors:
  assumes "results s ''duplicates'' = Some res" "g \<in> set (Groups res)" "f \<in> set (GFiles g)"
    and "\<not> row_pruned (prune_args_of cps dirs canon) f"
  shows "(\<exists>res' g'. results (pruneMoved cps dirs canon s) ''duplicates'' = Some res'
      \<and> g' \<in> set (Groups res') \<and> f \<in> set (GFiles g'))
    \<or> canon (row_path f) \<in> keepers (pruneMoved cps dirs canon s)"
  using prune_groups_complete [OF assms(2-4), of True] assms(1)
  by (auto simp: pruneMoved_def Let_def prune_result_def groupedTools_def prune_args_of_def)

theorem prune_keeps_survivors_witness:
  "(\<exists>res' g'. results (pruneMoved [''/v/a''] [] (\<lambda>p. p) ex_server) ''duplicates'' = Some res'
      \<and> g' \<in> set (Groups res') \<and> ex_row ''b'' \<in> set (GFiles g'))
    \<or> row_path (ex_row ''b'') \<in> keepers (pruneMoved [''/v/a''] [] (\<lambda>p. p) ex_server)"
  by (rule prune_keeps_survivors [where res = ex_result and g = ex_group])
    (simp_all add: ex_server_def ex_result_def ex_group_def, code_simp)

text \<open>Pruning removes every row of a moved path, whatever tool listed it, and leaves no group of
  fewer than two rows.\<close>

definition listed_rows :: "server \<Rightarrow> string \<Rightarrow> FileEnt list" where
  "listed_rows s tool =
     (case results s tool of
        None \<Rightarrow> []
      | Some r \<Rightarrow> if tool \<in> set groupedTools then concat (map GFiles (Groups r)) else Files r)"

theorem prune_removes_moved:
  assumes "f \<in> set (listed_rows (pruneMoved cps dirs canon s) tool)" "Name f = Base (canon (row_path f))"
  shows "canon (row_path f) \<notin> set cps
    \<and> (dirs \<noteq> [] \<longrightarrow> \<not> isUnder (canon (row_path f)) dirs \<and> \<not> isUnder (row_path f) dirs)"
proof -
  have "\<not> row_pruned (prune_args_of cps dirs canon) f"
    using assms(1) prune_groups_rows
    by (fastforce simp: listed_rows_def pruneMoved_def Let_def prune_result_def
        split: option.splits if_splits)
  then show ?thesis
    using assms(2) by (auto simp: row_pruned_def prune_args_of_def Let_def)
qed

theorem prune_removes_moved_witness: "''/v/b'' \<notin> set [''/v/c'']"
proof -
  have "ex_row ''b'' \<in> set (listed_rows (pruneMoved [''/v/c''] [] (\<lambda>p. p) ex_server) ''duplicates'')"
    and "Name (ex_row ''b'') = Base (row_path (ex_row ''b''))"
    and "row_path (ex_row ''b'') = ''/v/b''" by code_simp+
  then show ?thesis using prune_removes_moved [of "ex_row ''b''" "[''/v/c'']" "[]" "\<lambda>p. p"] by metis
qed

end
