(* ===== verification/Decimal.thy ===== *)
theory Decimal
  imports Prelude
begin

text \<open>
  Decimal numbers as \<open>fmt\<close> and \<open>strconv\<close> print them: \<open>dec\<close> for a
  natural number, \<open>itoa\<close> for an integer; and \<open>strings.TrimPrefix\<close>,
  \<open>strings.TrimSuffix\<close> and \<open>filepath.Ext\<close>, which the names built from them use.
  The printed numbers are read back by \<open>dec_value\<close>, so distinct numbers print apart.
\<close>

definition digit_char :: "nat \<Rightarrow> char" where
  "digit_char d = char_of (48 + d)"

definition is_digit :: "char \<Rightarrow> bool" where
  "is_digit c \<longleftrightarrow> 48 \<le> (of_char c :: nat) \<and> (of_char c :: nat) \<le> 57"

fun dec :: "nat \<Rightarrow> gostring" where
  "dec n = (if n < 10 then [digit_char n] else dec (n div 10) @ [digit_char (n mod 10)])"

declare dec.simps [simp del]

definition itoa :: "int \<Rightarrow> gostring" where
  "itoa i = (if i < 0 then CHR ''-'' # dec (nat (- i)) else dec (nat i))"

definition TrimPrefix :: "gostring \<Rightarrow> gostring \<Rightarrow> gostring" where
  "TrimPrefix s p = (if HasPrefix s p then drop (length p) s else s)"

definition TrimSuffix :: "gostring \<Rightarrow> gostring \<Rightarrow> gostring" where
  "TrimSuffix s p = (if HasSuffix s p then take (length s - length p) s else s)"

text \<open>\<open>filepath.Ext\<close>: from the last dot of the last path element on.\<close>

fun ext_rev :: "gostring \<Rightarrow> gostring \<Rightarrow> gostring" where
  "ext_rev [] acc = []"
| "ext_rev (c # cs) acc =
     (if c = CHR 0x2F then [] else if c = CHR ''.'' then c # acc else ext_rev cs (c # acc))"

definition Ext :: "gostring \<Rightarrow> gostring" where
  "Ext p = ext_rev (rev p) []"

subsection \<open>Reading numbers back\<close>

definition dec_value :: "gostring \<Rightarrow> nat" where
  "dec_value s = foldl (\<lambda>a c. a * 10 + (of_char c - 48)) 0 s"

lemma of_digit_char: "d < 10 \<Longrightarrow> of_char (digit_char d) = (48 + d :: nat)"
  by (simp add: digit_char_def)

lemma is_digit_char: "d < 10 \<Longrightarrow> is_digit (digit_char d)"
  by (simp add: is_digit_def of_digit_char)

lemma dec_digits: "list_all is_digit (dec n)"
proof (induction n rule: dec.induct)
  case (1 n)
  then show ?case
    using is_digit_char by (subst dec.simps) auto
qed

lemma dec_nonempty [simp]: "dec n \<noteq> []"
  by (subst dec.simps) simp

lemma dec_value_dec [simp]: "dec_value (dec n) = n"
proof (induction n rule: dec.induct)
  case (1 n)
  then show ?case
    by (subst dec.simps) (auto simp: dec_value_def of_digit_char)
qed

lemma dec_inject [simp]: "dec m = dec n \<longleftrightarrow> m = n"
  by (metis dec_value_dec)

lemma digit_not_special:
  "is_digit c \<Longrightarrow> c \<noteq> CHR ''-'' \<and> c \<noteq> CHR ''|'' \<and> c \<noteq> CHR 0x2F \<and> c \<noteq> CHR ''.'' \<and> c \<noteq> CHR '')''
    \<and> c \<noteq> CHR ''_''"
  by (auto simp: is_digit_def)

lemma dec_free:
  "CHR ''-'' \<notin> set (dec n) \<and> CHR ''|'' \<notin> set (dec n) \<and> CHR 0x2F \<notin> set (dec n)
    \<and> CHR ''.'' \<notin> set (dec n) \<and> CHR '')'' \<notin> set (dec n) \<and> CHR ''_'' \<notin> set (dec n)"
  using dec_digits [of n] digit_not_special by (auto simp: list_all_iff)

lemma itoa_inject [simp]: "itoa i = itoa j \<longleftrightarrow> i = j"
proof -
  have "CHR ''-'' # s \<noteq> dec n" for s n
    using dec_free [of n] list.set_intros(1) [of "CHR ''-''" s] by fastforce
  then have *: "CHR ''-'' # s \<noteq> dec n" "dec n \<noteq> CHR ''-'' # s" for s n
    by metis+
  show ?thesis
    by (cases "i < 0"; cases "j < 0") (auto simp: itoa_def *)
qed

lemma itoa_free: "CHR ''|'' \<notin> set (itoa i) \<and> CHR 0x2F \<notin> set (itoa i)"
  using dec_free by (auto simp: itoa_def)

end
