(* ===== verification/MoveOut.thy ===== *)
theory MoveOut
  imports Model Decimal
begin

text \<open>
  \<open>server/moveout.go\<close>: telling a copy the program moved from an original.  The record is a
  set of strings of three kinds (a canonical path, a \<open>data:\<close> key, a \<open>from:\<close> key); the
  disk enters as \<open>d_lstat\<close> (\<open>os.Lstat\<close>, \<open>None\<close> for its error) and
  \<open>d_walk\<close>, the entries \<open>filepath.WalkDir\<close> visits without an error, each with its type
  and what \<open>Info\<close> answers.  The lemmas show that the kinds never mix, that a data key is
  unambiguous, that \<open>covers\<close> is containment, and what a recorded landing protects.
\<close>

subsection \<open>File information\<close>

datatype ftype = Regular | Directory | Symlink | OtherType

record fileLink =
  dev :: nat
  ino :: nat
  n_links :: nat

record finfo =
  fi_type :: ftype
  fi_size :: int
  fi_mtime :: int
  fi_link :: fileLink

record disk =
  d_lstat :: "path \<Rightarrow> finfo option"
  d_walk :: "path \<Rightarrow> (path \<times> ftype \<times> finfo option) list"

definition linkOf :: "finfo \<Rightarrow> fileLink" where
  "linkOf fi = fi_link fi"

subsection \<open>The layout of a batch folder\<close>

definition moveFolderNames :: "string \<Rightarrow> gostring option" where
  "moveFolderNames = map_of
     [(''duplicates'', ''Duplicates''), (''empty_folders'', ''Empty Folders''),
      (''empty_files'', ''Empty Files''), (''temp_files'', ''Temporary Files'')]"

definition folder_names :: "gostring list" where
  "folder_names = [''Duplicates'', ''Empty Files'', ''Empty Folders'', ''Temporary Files'']"

text \<open>The two regular expressions, anchored at both ends.\<close>

definition outFolderRe :: "gostring \<Rightarrow> bool" where
  "outFolderRe s \<longleftrightarrow> list_ex (\<lambda>n. s = n
     \<or> (HasPrefix s (n @ '' ('') \<and> (let r = drop (length n + 2) s in
           2 \<le> length r \<and> last r = CHR '')'' \<and> list_all is_digit (butlast r)))) folder_names"

definition volumeCompRe :: "gostring \<Rightarrow> bool" where
  "volumeCompRe s \<longleftrightarrow> list_ex (\<lambda>v. HasPrefix s v
     \<and> drop (length v) s \<noteq> [] \<and> list_all is_digit (drop (length v) s))
       [''volume'', ''volumeUSB'', ''volumeSATA'']"

fun layout_loop :: "gostring list \<Rightarrow> bool" where
  "layout_loop (a # b # c # ws) \<longleftrightarrow> outFolderRe a \<and> volumeCompRe b \<or> layout_loop (b # c # ws)"
| "layout_loop ws \<longleftrightarrow> False"

definition inBatchLayout :: "path \<Rightarrow> bool" where
  "inBatchLayout p \<longleftrightarrow> layout_loop (split_byte slash p)"

subsection \<open>The record\<close>

type_synonym moveOutSet = "string set"

definition dataKey :: string where
  "dataKey = ''data:''"

definition fromKey :: string where
  "fromKey = ''from:''"

definition shareRoot :: "path \<Rightarrow> path" where
  "shareRoot p =
     (case split_byte slash p of
        a # b # c # d # _ \<Rightarrow>
          if a \<noteq> [] \<or> b = [] \<or> c = [] then [] else slash # b @ slash # c
      | _ \<Rightarrow> [])"

definition dataKeyOf :: "path \<Rightarrow> finfo \<Rightarrow> string" where
  "dataKeyOf p fi =
     (let root = shareRoot p in
      if root = [] \<or> fi_type fi \<noteq> Regular then []
      else let l = linkOf fi in
        if ino l = 0 then []
        else dataKey @ root @ ''|'' @ dec (ino l) @ ''|'' @ itoa (fi_size fi) @ ''|'' @ itoa (fi_mtime fi))"

definition maxManifest :: nat where
  "maxManifest = 10000"

definition landedData :: "disk \<Rightarrow> path \<Rightarrow> string list" where
  "landedData d at =
     (case d_lstat d at of
        None \<Rightarrow> []
      | Some fi \<Rightarrow>
          if fi_type fi \<noteq> Directory then (let k = dataKeyOf at fi in if k \<noteq> [] then [k] else [])
          else take maxManifest (List.map_filter (\<lambda>(p, t, info).
            if t = Regular then
              (case info of
                 None \<Rightarrow> None
               | Some fi \<Rightarrow> (let k = dataKeyOf p fi in if k \<noteq> [] then Some k else None))
            else None) (d_walk d at)))"

text \<open>The loop over a path's ancestors, with as many rounds as the path has bytes.\<close>

fun covers_loop :: "nat \<Rightarrow> moveOutSet \<Rightarrow> path \<Rightarrow> bool" where
  "covers_loop 0 m q = False"
| "covers_loop (Suc n) m q =
     (if q = ''/'' \<or> q = ''.'' then False else if q \<in> m then True else covers_loop n m (Dir q))"

definition covers :: "moveOutSet \<Rightarrow> path \<Rightarrow> bool" where
  "covers m p = (if m = {} then False else covers_loop (length p + 1) m p)"

definition holdsMovedData :: "disk \<Rightarrow> moveOutSet \<Rightarrow> path \<Rightarrow> bool" where
  "holdsMovedData d m p =
     (if m = {} \<or> fromKey @ p \<in> m then False
      else case d_lstat d p of
          None \<Rightarrow> False
        | Some fi \<Rightarrow>
            if n_links (linkOf fi) > 1 then False
            else (let k = dataKeyOf p fi in k \<noteq> [] \<and> k \<in> m))"

definition isOut :: "disk \<Rightarrow> moveOutSet \<Rightarrow> path \<Rightarrow> bool" where
  "isOut d m p \<longleftrightarrow> inBatchLayout p \<or> covers m p \<or> holdsMovedData d m p"

definition moveOut_with :: "moveOutSet \<Rightarrow> string list \<Rightarrow> moveOutSet" where
  "moveOut_with m add = m \<union> set add"

fun rowIsOut_roots :: "disk \<Rightarrow> moveOutSet \<Rightarrow> path \<Rightarrow> RootMap list \<Rightarrow> bool" where
  "rowIsOut_roots d m p [] = False"
| "rowIsOut_roots d m p (rt # rts) =
     (if p = Raw rt \<or> HasPrefix p (Raw rt @ ''/'')
      then isOut d m (Canon rt @ drop (length (Raw rt)) p)
      else rowIsOut_roots d m p rts)"

definition rowIsOut :: "disk \<Rightarrow> moveOutSet \<Rightarrow> RootMap list \<Rightarrow> path \<Rightarrow> gostring \<Rightarrow> bool" where
  "rowIsOut d m roots dir name =
     (let p = Join dir name in if isOut d m p then True else rowIsOut_roots d m p roots)"

definition markGroupOut :: "disk \<Rightarrow> Group list \<Rightarrow> moveOutSet \<Rightarrow> RootMap list \<Rightarrow> Group list" where
  "markGroupOut d groups m roots =
     map (\<lambda>g. g\<lparr>GFiles := map (\<lambda>f. if rowIsOut d m roots (FDir f) (Name f) then f\<lparr>Out := True\<rparr> else f)
                    (GFiles g)\<rparr>) groups"

subsection \<open>Ancestors\<close>

lemma abs_path_stop:
  "list_all proper ws \<Longrightarrow> (abs_path ws = ''/'' \<or> abs_path ws = ''.'') \<longleftrightarrow> ws = []"
  by (cases ws; cases "tl ws") (auto simp: abs_path_def proper_def)

lemma covers_loop_abs:
  assumes "list_all proper ws" "length ws < n"
  shows "covers_loop n m (abs_path ws) \<longleftrightarrow> (\<exists>k. 0 < k \<and> k \<le> length ws \<and> abs_path (take k ws) \<in> m)"
  using assms
proof (induction ws arbitrary: n rule: rev_induct)
  case Nil
  then show ?case by (cases n) (auto simp: abs_path_def)
next
  case (snoc w ws)
  obtain n' where n: "n = Suc n'" using snoc.prems by (cases n) auto
  have w: "list_all proper ws" "proper w" using snoc.prems by auto
  have "(abs_path (ws @ [w]) = ''/'' \<or> abs_path (ws @ [w]) = ''.'') = False"
    using abs_path_stop [of "ws @ [w]"] snoc.prems by auto
  then have "covers_loop n m (abs_path (ws @ [w]))
      \<longleftrightarrow> abs_path (ws @ [w]) \<in> m \<or> covers_loop n' m (abs_path ws)"
    using Dir_abs_path [OF w] by (auto simp: n)
  also have "covers_loop n' m (abs_path ws) \<longleftrightarrow> (\<exists>k. 0 < k \<and> k \<le> length ws \<and> abs_path (take k ws) \<in> m)"
    using snoc.IH [of n'] snoc.prems n by simp
  also have "(abs_path (ws @ [w]) \<in> m \<or> \<dots>)
      \<longleftrightarrow> (\<exists>k. 0 < k \<and> k \<le> length (ws @ [w]) \<and> abs_path (take k (ws @ [w])) \<in> m)"
    by (auto simp: le_Suc_eq intro: exI [of _ "Suc (length ws)"])
  finally show ?case .
qed

lemma length_abs_path: "list_all proper ws \<Longrightarrow> length ws \<le> length (abs_path ws)"
proof (induction ws rule: rev_induct)
  case (snoc w ws)
  then show ?case
  proof (cases "ws = []")
    case False
    then show ?thesis using snoc by (simp add: abs_path_snoc)
  qed (simp add: abs_path_def)
qed (simp add: abs_path_def)

lemma covers_ancestors:
  assumes "list_all proper ws"
  shows "covers m (abs_path ws) \<longleftrightarrow> (\<exists>k. 0 < k \<and> k \<le> length ws \<and> abs_path (take k ws) \<in> m)"
  using covers_loop_abs [OF assms, of "length (abs_path ws) + 1" m] length_abs_path [OF assms]
  by (auto simp: covers_def)

lemma covers_prefix:
  assumes "list_all proper ws"
  shows "covers m (abs_path ws) \<longleftrightarrow> (\<exists>us. us \<noteq> [] \<and> prefix us ws \<and> abs_path us \<in> m)"
proof
  assume "covers m (abs_path ws)"
  then obtain k where k: "0 < k" "k \<le> length ws" "abs_path (take k ws) \<in> m"
    using covers_ancestors [OF assms] by auto
  moreover have "take k ws \<noteq> []" using k by auto
  ultimately show "\<exists>us. us \<noteq> [] \<and> prefix us ws \<and> abs_path us \<in> m"
    using take_is_prefix [of k ws] by blast
next
  assume "\<exists>us. us \<noteq> [] \<and> prefix us ws \<and> abs_path us \<in> m"
  then obtain us where us: "us \<noteq> []" "prefix us ws" "abs_path us \<in> m" by blast
  then have "us = take (length us) ws" "length us \<le> length ws"
    by (auto simp: prefix_def)
  then show "covers m (abs_path ws)"
    using us covers_ancestors [OF assms, of m] by (metis length_greater_0_conv)
qed

subsection \<open>Keys\<close>

lemma last_field:
  "c \<notin> set u \<Longrightarrow> c \<notin> set v \<Longrightarrow> x @ c # u = y @ c # v \<Longrightarrow> x = y \<and> u = v"
  by (auto simp: append_eq_append_conv2 append_eq_Cons_conv Cons_eq_append_conv)

lemma dataKeyOf_inject:
  assumes "dataKeyOf p fi = dataKeyOf q fj" "dataKeyOf p fi \<noteq> []"
  shows "shareRoot p = shareRoot q \<and> ino (fi_link fi) = ino (fi_link fj)
    \<and> fi_size fi = fi_size fj \<and> fi_mtime fi = fi_mtime fj"
proof -
  let ?k = "\<lambda>r l s t. ((r @ CHR ''|'' # dec l) @ CHR ''|'' # itoa s) @ CHR ''|'' # itoa t"
  have "?k (shareRoot p) (ino (fi_link fi)) (fi_size fi) (fi_mtime fi)
      = ?k (shareRoot q) (ino (fi_link fj)) (fi_size fj) (fi_mtime fj)"
    using assms by (auto simp: dataKeyOf_def Let_def linkOf_def split: if_splits)
  from last_field [OF _ _ this] have "fi_mtime fi = fi_mtime fj"
    "(shareRoot p @ CHR ''|'' # dec (ino (fi_link fi))) @ CHR ''|'' # itoa (fi_size fi)
      = (shareRoot q @ CHR ''|'' # dec (ino (fi_link fj))) @ CHR ''|'' # itoa (fi_size fj)"
    by (simp_all add: itoa_free)
  moreover from last_field [OF _ _ this(2)] have "fi_size fi = fi_size fj"
    "shareRoot p @ CHR ''|'' # dec (ino (fi_link fi)) = shareRoot q @ CHR ''|'' # dec (ino (fi_link fj))"
    by (simp_all add: itoa_free)
  moreover from last_field [OF _ _ this(2)] have
    "shareRoot p = shareRoot q \<and> ino (fi_link fi) = ino (fi_link fj)"
    by (simp add: dec_free)
  ultimately show ?thesis by blast
qed

text \<open>The three kinds of entry: a path begins with a slash, the keys with their tags.\<close>

lemma key_kinds:
  "dataKeyOf p fi \<noteq> [] \<Longrightarrow> \<not> IsAbs (dataKeyOf p fi) \<and> dataKeyOf p fi \<noteq> fromKey @ q"
  "\<not> IsAbs (fromKey @ q)"
  by (auto simp: dataKeyOf_def dataKey_def fromKey_def Let_def IsAbs_def split: if_splits)

subsection \<open>What the record protects\<close>

text \<open>C16. A moved file stays recognised as a moved copy wherever it is renamed or moved inside its
  shared folder: as long as the file found at a later path is the same data (shared folder, inode,
  size, modified time), is its only name and was not put back where it came from, \<open>isOut\<close> holds in
  every record that has grown from the one its move wrote.\<close>

theorem moved_copy_stays_out:
  assumes "d_lstat d at = Some fi" "fi_type fi = Regular" "dataKeyOf at fi \<noteq> []"
    and "moveOut_with m (landedData d at) \<subseteq> m'"
    and "d_lstat d' p = Some fj" "fi_type fj = Regular" "shareRoot p = shareRoot at"
    and "ino (fi_link fj) = ino (fi_link fi)" "fi_size fj = fi_size fi" "fi_mtime fj = fi_mtime fi"
    and "n_links (fi_link fj) \<le> 1" "fromKey @ p \<notin> m'"
  shows "isOut d' m' p"
proof -
  have "dataKeyOf p fj = dataKeyOf at fi"
    unfolding dataKeyOf_def linkOf_def Let_def assms(7-10) using assms(2,6) by simp
  moreover have "dataKeyOf at fi \<in> m'"
    using assms(1-4) by (auto simp: landedData_def moveOut_with_def)
  ultimately have "holdsMovedData d' m' p"
    using assms(3,5,11,12) by (auto simp: holdsMovedData_def linkOf_def)
  then show ?thesis by (simp add: isOut_def)
qed

text \<open>An original is never taken for a moved copy: a file outside every batch folder, at no recorded
  path and below none, is no moved copy when it stands where something was moved away from, or
  when it has several names, or when its data differ in inode, size, modified time or shared folder from all that was
  recorded.\<close>

theorem original_is_not_out:
  assumes "list_all proper ws" "\<not> inBatchLayout (abs_path ws)"
    and "\<forall>us. us \<noteq> [] \<and> list_all proper us \<and> prefix us ws \<longrightarrow> abs_path us \<notin> m"
    and "fromKey @ abs_path ws \<in> m
      \<or> (\<forall>fi. d_lstat d (abs_path ws) = Some fi \<longrightarrow> n_links (fi_link fi) > 1
           \<or> (\<forall>q fj. dataKeyOf q fj \<in> m \<longrightarrow> \<not> (shareRoot q = shareRoot (abs_path ws)
                 \<and> ino (fi_link fj) = ino (fi_link fi) \<and> fi_size fj = fi_size fi \<and> fi_mtime fj = fi_mtime fi)))"
  shows "\<not> isOut d m (abs_path ws)"
proof -
  have "\<not> covers m (abs_path ws)"
    using assms(3) by (simp add: covers_prefix [OF assms(1)]) (metis assms(1) list_all_append prefix_def)
  moreover have "\<not> holdsMovedData d m (abs_path ws)"
  proof (cases "d_lstat d (abs_path ws)")
    case (Some fi)
    from assms(4) consider "fromKey @ abs_path ws \<in> m" | "n_links (fi_link fi) > 1"
      | "\<forall>q fj. dataKeyOf q fj \<in> m \<longrightarrow> \<not> (shareRoot q = shareRoot (abs_path ws)
          \<and> ino (fi_link fj) = ino (fi_link fi) \<and> fi_size fj = fi_size fi \<and> fi_mtime fj = fi_mtime fi)"
      using Some by auto
    then show ?thesis
    proof cases
      case 3
      then have "dataKeyOf (abs_path ws) fi \<notin> m" by blast
      then show ?thesis using Some by (simp add: holdsMovedData_def Let_def)
    qed (simp_all add: Some holdsMovedData_def linkOf_def)
  qed (simp add: holdsMovedData_def)
  ultimately show ?thesis using assms(2) by (simp add: isOut_def)
qed

text \<open>The record of moved paths is containment: a canonical path is covered exactly when it is a
  recorded path or lies below one, component by component, however deep.\<close>

theorem covers_containment:
  assumes "list_all proper ws"
  shows "covers m (abs_path ws) \<longleftrightarrow> (\<exists>us. us \<noteq> [] \<and> prefix us ws \<and> abs_path us \<in> m)"
  by (rule covers_prefix [OF assms])

definition ex_finfo :: finfo where
  "ex_finfo = \<lparr>fi_type = Regular, fi_size = 7, fi_mtime = 100, fi_link = \<lparr>dev = 1, ino = 42, n_links = 1\<rparr>\<rparr>"

definition ex_disk :: disk where
  "ex_disk = \<lparr>d_lstat = (\<lambda>p. if p \<in> {''/volume1/s/x'', ''/volume1/s/d/y''} then Some ex_finfo else None),
     d_walk = (\<lambda>_. [])\<rparr>"

theorem moved_copy_stays_out_witness:
  "isOut ex_disk (insert ''/volume1/s/q'' (moveOut_with {} (landedData ex_disk ''/volume1/s/x''))) ''/volume1/s/d/y''"
proof -
  have k: "dataKeyOf ''/volume1/s/x'' ex_finfo \<noteq> []"
    "shareRoot ''/volume1/s/d/y'' = shareRoot ''/volume1/s/x''"
    "fromKey @ ''/volume1/s/d/y'' \<notin> insert ''/volume1/s/q'' (moveOut_with {} (landedData ex_disk ''/volume1/s/x''))"
    by code_simp+
  show ?thesis
    by (rule moved_copy_stays_out [where fj = ex_finfo, OF _ _ k(1) subset_insertI _ _ k(2) _ _ _ _ k(3)])
      (simp_all add: ex_disk_def ex_finfo_def)
qed

theorem original_is_not_out_witness:
  "\<not> isOut ex_disk {''from:/volume1/s/x'', ''data:/volume1/s|42|7|100''} (abs_path [''volume1'', ''s'', ''x''])"
proof (rule original_is_not_out)
  show "list_all proper [''volume1'', ''s'', ''x'']" by code_simp
  show "\<not> inBatchLayout (abs_path [''volume1'', ''s'', ''x''])" by code_simp
  show "\<forall>us. us \<noteq> [] \<and> list_all proper us \<and> prefix us [''volume1'', ''s'', ''x'']
      \<longrightarrow> abs_path us \<notin> {''from:/volume1/s/x'', ''data:/volume1/s|42|7|100''}"
    by (auto simp: abs_path_def)
  show "fromKey @ abs_path [''volume1'', ''s'', ''x''] \<in> {''from:/volume1/s/x'', ''data:/volume1/s|42|7|100''}
      \<or> (\<forall>fi. d_lstat ex_disk (abs_path [''volume1'', ''s'', ''x'']) = Some fi \<longrightarrow> n_links (fi_link fi) > 1
           \<or> (\<forall>q fj. dataKeyOf q fj \<in> {''from:/volume1/s/x'', ''data:/volume1/s|42|7|100''}
                \<longrightarrow> \<not> (shareRoot q = shareRoot (abs_path [''volume1'', ''s'', ''x''])
                 \<and> ino (fi_link fj) = ino (fi_link fi) \<and> fi_size fj = fi_size fi \<and> fi_mtime fj = fi_mtime fi)))"
    by (simp add: fromKey_def abs_path_def)
qed

theorem covers_containment_witness:
  "covers {''/v/a''} (abs_path [''v'', ''a'', ''b''])"
  using covers_containment [of "[''v'', ''a'', ''b'']" "{''/v/a''}"]
  by (simp add: proper_def) (rule exI [of _ "[''v'', ''a'']"], simp add: abs_path_def)

end
