(* ===== verification/Journal.thy ===== *)
theory Journal
  imports MoveOut
begin

text \<open>
  \<open>server/journal.go\<close>: the move journal, its file, the entry in flight and what a restart
  makes of the lines.  The file is the list of its complete lines (\<open>None\<close>: a line that does
  not decode), whether a cut-off line without its newline follows, and how many lines have been
  flushed; the disk decides how each write ends (\<open>wout\<close>).  JSON encoding is not modelled: a
  line written whole is read back as itself.
\<close>

subsection \<open>Lines\<close>

record journalBegin =
  B_ID :: string
  B_Tool :: string
  B_Dest :: string
  B_Files :: "path list"

record journalLine =
  J_Begin :: "journalBegin option"
  J_Start :: path
  J_Ahead :: path
  J_From :: "path list"
  J_Staging :: path
  J_Placed :: path
  J_Where :: path
  J_Done :: path
  J_Moved :: bool
  J_Err :: string
  J_MoveOut :: "string list"
  J_Gone :: "path list"
  J_Dirs :: "path list"
  J_Folder :: string
  J_End :: bool

definition zero_line :: journalLine where
  "zero_line = \<lparr>J_Begin = None, J_Start = [], J_Ahead = [], J_From = [], J_Staging = [], J_Placed = [],
     J_Where = [], J_Done = [], J_Moved = False, J_Err = [], J_MoveOut = [], J_Gone = [], J_Dirs = [],
     J_Folder = [], J_End = False\<rparr>"

subsection \<open>The file\<close>

record jfile =
  j_lines :: "journalLine option list"
  j_cut :: bool
  j_synced :: nat

text \<open>How a write ends: written, failed (with or without some bytes of the line reaching the
  file), or written while the flush failed.\<close>

datatype wout = WDone | WFail bool | WNoSync

definition jwrite :: "wout \<Rightarrow> journalLine \<Rightarrow> bool \<Rightarrow> jfile \<Rightarrow> bool \<times> jfile" where
  "jwrite o' l durable f =
     (case o' of
        WFail part \<Rightarrow> (False, f\<lparr>j_cut := j_cut f \<or> part\<rparr>)
      | WDone \<Rightarrow>
          (let ls = j_lines f @ [if j_cut f then None else Some l] in
           (True, f\<lparr>j_lines := ls, j_cut := False, j_synced := (if durable then length ls else j_synced f)\<rparr>))
      | WNoSync \<Rightarrow>
          (\<not> durable, f\<lparr>j_lines := j_lines f @ [if j_cut f then None else Some l], j_cut := False\<rparr>))"

text \<open>\<open>finish\<close>: a saved batch's journal is removed, another's is marked ended.\<close>

definition jfinish :: "wout \<Rightarrow> bool \<Rightarrow> jfile \<Rightarrow> jfile option" where
  "jfinish o' saved f = (if saved then None else Some (snd (jwrite o' (zero_line\<lparr>J_End := True\<rparr>) True f)))"

text \<open>What a restart can find after a crash: every flushed line, then possibly fewer of the others,
  the next of them perhaps cut off.\<close>

definition after_crash :: "jfile \<Rightarrow> jfile \<Rightarrow> bool" where
  "after_crash f f' \<longleftrightarrow> (\<exists>n. j_synced f \<le> n \<and> j_lines f' = take n (j_lines f))"

definition readJournal :: "jfile option \<Rightarrow> journalLine list \<times> bool \<times> bool" where
  "readJournal jf =
     (case jf of
        None \<Rightarrow> ([], False, False)
      | Some f \<Rightarrow> (List.map_filter (\<lambda>l. l) (j_lines f), True, list_ex (\<lambda>l. l = None) (j_lines f)))"

subsection \<open>The entry in flight\<close>

record inflight =
  in_src :: path
  in_aheads :: "path list"
  in_from :: "path list"
  in_placed :: "path list"
  in_staging :: path
  in_where :: path
  in_phase :: string

definition new_inflight :: "path \<Rightarrow> inflight" where
  "new_inflight src = \<lparr>in_src = src, in_aheads = [], in_from = [], in_placed = [], in_staging = [],
     in_where = [], in_phase = []\<rparr>"

definition settle :: "disk \<Rightarrow> inflight \<Rightarrow> string list" where
  "settle d i =
     concat (map (\<lambda>p. p # landedData d p) (in_aheads i @ in_placed i))
     @ List.map_filter (\<lambda>p. if p \<noteq> [] then Some (fromKey @ p) else None) (in_from i)"

text \<open>The sentence a report carries, with what it names.\<close>

datatype stop_report =
    StoppedFinishing path bool
  | StoppedMoving path
  | StoppedStaging path
  | StoppedBefore

definition inflight_report :: "inflight \<Rightarrow> stop_report" where
  "inflight_report i =
     (if in_phase i = ''placed'' then StoppedFinishing (in_where i) (in_staging i \<noteq> [])
      else if in_phase i = ''ahead'' then StoppedMoving (in_where i)
      else if in_phase i = ''staging'' then StoppedStaging (in_where i)
      else StoppedBefore)"

subsection \<open>Replay\<close>

record replay =
  r_out :: "string list"
  r_gone :: "path list"
  r_dirs :: "path list"
  r_begin :: "journalBegin option"
  r_ended :: bool
  r_cur :: "inflight option"
  r_done :: "path \<rightharpoonup> journalLine"
  r_folder :: string

definition replay0 :: replay where
  "replay0 = \<lparr>r_out = [], r_gone = [], r_dirs = [], r_begin = None, r_ended = False, r_cur = None,
     r_done = Map.empty, r_folder = []\<rparr>"

definition settle_cur :: "disk \<Rightarrow> replay \<Rightarrow> string list" where
  "settle_cur d r = (case r_cur r of None \<Rightarrow> [] | Some i \<Rightarrow> settle d i)"

definition replay_line :: "disk \<Rightarrow> journalLine \<Rightarrow> replay \<Rightarrow> replay" where
  "replay_line d l r =
     (if J_Begin l \<noteq> None then
        r\<lparr>r_out := r_out r @ settle_cur d r, r_begin := J_Begin l, r_ended := False, r_cur := None,
          r_done := Map.empty, r_folder := []\<rparr>
      else if J_Start l \<noteq> [] then
        r\<lparr>r_out := r_out r @ settle_cur d r, r_cur := Some (new_inflight (J_Start l))\<rparr>
      else if J_Ahead l \<noteq> [] \<and> r_cur r \<noteq> None then
        (let i = the (r_cur r) in
         r\<lparr>r_cur := Some (i\<lparr>in_aheads := in_aheads i @ [J_Ahead l], in_from := J_From l,
             in_phase := ''ahead'', in_where := J_Where l\<rparr>)\<rparr>)
      else if J_Staging l \<noteq> [] \<and> r_cur r \<noteq> None then
        (let i = the (r_cur r) in
         r\<lparr>r_cur := Some (i\<lparr>in_staging := J_Staging l, in_phase := ''staging'', in_where := J_Where l\<rparr>)\<rparr>)
      else if J_Placed l \<noteq> [] \<and> r_cur r \<noteq> None then
        (let i = the (r_cur r) in
         r\<lparr>r_cur := Some (i\<lparr>in_placed := in_placed i @ [J_Placed l], in_phase := ''placed'',
             in_where := J_Where l\<rparr>)\<rparr>)
      else if J_Done l \<noteq> [] then
        r\<lparr>r_out := r_out r @ J_MoveOut l, r_gone := r_gone r @ J_Gone l, r_dirs := r_dirs r @ J_Dirs l,
          r_folder := (if J_Folder l \<noteq> [] then J_Folder l else r_folder r),
          r_done := (r_done r)(J_Done l \<mapsto> l), r_cur := None\<rparr>
      else if J_End l then r\<lparr>r_ended := True\<rparr>
      else r)"

definition replay_lines :: "disk \<Rightarrow> journalLine list \<Rightarrow> replay" where
  "replay_lines d ls = fold (replay_line d) ls replay0"

text \<open>Everything the replay adds to the record of moved copies.\<close>

definition replay_out :: "disk \<Rightarrow> journalLine list \<Rightarrow> string list" where
  "replay_out d ls = (let r = replay_lines d ls in r_out r @ settle_cur d r)"

subsection \<open>The report of a batch cut short\<close>

datatype move_err = DoneErr string | InFlight stop_report | NotAttempted

record moveReport =
  R_ID :: string
  R_Tool :: string
  R_Dest :: string
  R_Total :: nat
  R_Moved :: "path list"
  R_Errors :: "(path \<times> move_err) list"
  R_Folder :: string
  R_Interrupted :: bool
  R_Seen :: bool

fun report_loop ::
  "(path \<rightharpoonup> journalLine) \<Rightarrow> inflight option \<Rightarrow> path list \<Rightarrow> path list \<times> (path \<times> move_err) list" where
  "report_loop dn cur [] = ([], [])"
| "report_loop dn cur (f # fs) =
     (let src = Clean f; (m, e) = report_loop dn cur fs in
      case dn src of
        Some l \<Rightarrow> if J_Moved l then (src # m, e) else (m, (src, DoneErr (J_Err l)) # e)
      | None \<Rightarrow>
          (case cur of
             Some i \<Rightarrow>
               if in_src i = src then (m, (src, InFlight (inflight_report i)) # e)
               else (m, (src, NotAttempted) # e)
           | None \<Rightarrow> (m, (src, NotAttempted) # e)))"

definition interruptedReport ::
  "string \<Rightarrow> journalBegin \<Rightarrow> (path \<rightharpoonup> journalLine) \<Rightarrow> inflight option \<Rightarrow> string \<Rightarrow> moveReport" where
  "interruptedReport now b dn cur folder =
     (let (m, e) = report_loop dn cur (B_Files b) in
      \<lparr>R_ID = (if B_ID b = [] then ''interrupted-'' @ now else B_ID b), R_Tool = B_Tool b,
       R_Dest = B_Dest b, R_Total = length (B_Files b), R_Moved = m, R_Errors = e, R_Folder = folder,
       R_Interrupted = True, R_Seen = False\<rparr>)"

subsection \<open>Lemmas on the replay\<close>

lemma replay_line_out: "set (r_out r) \<subseteq> set (r_out (replay_line d l r))"
  by (auto simp: replay_line_def Let_def)

lemma replay_fold_out: "set (r_out r) \<subseteq> set (r_out (fold (replay_line d) ls r))"
  by (induction ls arbitrary: r) (auto dest: subsetD [OF replay_line_out])

lemma settle_set:
  "set (settle d i) = (\<Union>p \<in> set (in_aheads i) \<union> set (in_placed i). insert p (set (landedData d p)))
     \<union> (\<lambda>p. fromKey @ p) ` {p \<in> set (in_from i). p \<noteq> []}"
  by (auto simp: settle_def List.map_filter_def)

lemma replay_fold_gone: "set (r_gone r) \<subseteq> set (r_gone (fold (replay_line d) ls r))"
proof (induction ls arbitrary: r)
  case (Cons l ls)
  have "set (r_gone r) \<subseteq> set (r_gone (replay_line d l r))"
    by (auto simp: replay_line_def Let_def)
  then show ?case using Cons [of "replay_line d l r"] by auto
qed simp

text \<open>Once announced, a landing is recorded or still carried by the entry in flight; so is the
  place the entry comes from, as long as every announcement of the entry names it.\<close>

definition carries :: "disk \<Rightarrow> path \<Rightarrow> replay \<Rightarrow> bool" where
  "carries d a r \<longleftrightarrow> set (a # landedData d a) \<subseteq> set (r_out r)
     \<or> (\<exists>i. r_cur r = Some i \<and> a \<in> set (in_aheads i) \<union> set (in_placed i))"

definition came_from :: "path \<Rightarrow> replay \<Rightarrow> bool" where
  "came_from p r \<longleftrightarrow> fromKey @ p \<in> set (r_out r) \<or> (\<exists>i. r_cur r = Some i \<and> p \<in> set (in_from i))"

lemma settle_carried: "a \<in> set (in_aheads i) \<union> set (in_placed i) \<Longrightarrow> set (a # landedData d a) \<subseteq> set (settle d i)"
  by (auto simp: settle_set)

lemma settle_from: "p \<noteq> [] \<Longrightarrow> p \<in> set (in_from i) \<Longrightarrow> fromKey @ p \<in> set (settle d i)"
  by (auto simp: settle_set)

lemma carries_line: "J_Done l = [] \<Longrightarrow> carries d a r \<Longrightarrow> carries d a (replay_line d l r)"
  unfolding carries_def replay_line_def Let_def
  by (cases "r_cur r") (auto simp: settle_cur_def settle_set)

lemma came_from_line:
  "J_Done l = [] \<Longrightarrow> J_Ahead l \<noteq> [] \<longrightarrow> p \<in> set (J_From l) \<Longrightarrow> p \<noteq> [] \<Longrightarrow> came_from p r
    \<Longrightarrow> came_from p (replay_line d l r)"
  unfolding came_from_def replay_line_def Let_def
  by (cases "r_cur r") (auto simp: settle_cur_def settle_set)

lemma carries_fold:
  "\<forall>l \<in> set ls. J_Done l = [] \<Longrightarrow> carries d a r \<Longrightarrow> carries d a (fold (replay_line d) ls r)"
  by (induction ls arbitrary: r) (auto intro: carries_line)

lemma came_from_fold:
  "\<forall>l \<in> set ls. J_Done l = [] \<and> (J_Ahead l \<noteq> [] \<longrightarrow> p \<in> set (J_From l)) \<Longrightarrow> p \<noteq> []
    \<Longrightarrow> came_from p r \<Longrightarrow> came_from p (fold (replay_line d) ls r)"
  by (induction ls arbitrary: r) (auto intro: came_from_line)

text \<open>A line that announces a landing, as \<open>ahead\<close> writes it.\<close>

definition ahead_line :: "journalLine \<Rightarrow> bool" where
  "ahead_line l \<longleftrightarrow> J_Begin l = None \<and> J_Start l = [] \<and> J_Ahead l \<noteq> []"

lemma replay_announced:
  assumes "ahead_line l" "r_cur (replay_lines d xs) \<noteq> None"
    and "\<forall>l' \<in> set ys. J_Done l' = [] \<and> (J_Ahead l' \<noteq> [] \<longrightarrow> p \<in> set (J_From l'))"
    and "p \<in> set (J_From l)" "p \<noteq> []"
  shows "set (J_Ahead l # landedData d (J_Ahead l)) \<subseteq> set (replay_out d (xs @ l # ys))
    \<and> fromKey @ p \<in> set (replay_out d (xs @ l # ys))"
proof -
  let ?r = "replay_line d l (replay_lines d xs)"
  have "carries d (J_Ahead l) ?r" "came_from p ?r"
    using assms(1,2,4) by (auto simp: ahead_line_def replay_line_def carries_def came_from_def Let_def)
  then have "carries d (J_Ahead l) (fold (replay_line d) ys ?r)" "came_from p (fold (replay_line d) ys ?r)"
    using assms(3,5) by (auto intro: carries_fold came_from_fold)
  moreover have "fold (replay_line d) ys ?r = replay_lines d (xs @ l # ys)"
    by (simp add: replay_lines_def)
  ultimately have c: "carries d (J_Ahead l) (replay_lines d (xs @ l # ys))"
    and f: "came_from p (replay_lines d (xs @ l # ys))" by simp_all
  have "set (J_Ahead l # landedData d (J_Ahead l)) \<subseteq> set (replay_out d (xs @ l # ys))"
    using c settle_carried unfolding carries_def replay_out_def settle_cur_def Let_def by fastforce
  moreover have "fromKey @ p \<in> set (replay_out d (xs @ l # ys))"
    using f settle_from [OF assms(5)] unfolding came_from_def replay_out_def settle_cur_def Let_def
    by fastforce
  ultimately show ?thesis by blast
qed

lemma crash_split:
  assumes "j_lines f = xs @ Some l # ys" "length xs < j_synced f" "after_crash f f'"
  obtains zs where "fst (readJournal (Some f')) = List.map_filter (\<lambda>l. l) xs @ l # List.map_filter (\<lambda>l. l) (take zs ys)"
proof -
  obtain n where n: "j_synced f \<le> n" "j_lines f' = take n (j_lines f)"
    using assms(3) by (auto simp: after_crash_def)
  then have "j_lines f' = xs @ Some l # take (n - length xs - 1) ys"
    using assms(1,2) by (cases "n - length xs") auto
  then show thesis by (intro that [of "n - length xs - 1"]) (simp add: readJournal_def List.map_filter_def)
qed

subsection \<open>The properties of the journal\<close>

text \<open>C10. A crash forgets no move: when the announcement of a landing has been flushed and no line says
  how the entry ended, then whatever else of the file a crash leaves, the replay records the place as
  one holding a copy the program put there (\<open>isOut\<close>, so keep-one protects the originals), and
  records where it came from.\<close>

theorem crash_protects_landing:
  assumes "j_lines f = xs @ Some l # ys" "length xs < j_synced f" "after_crash f f'"
    and "ahead_line l" "r_cur (replay_lines d (List.map_filter (\<lambda>l. l) xs)) \<noteq> None"
    and "\<forall>l'. Some l' \<in> set ys \<longrightarrow> J_Done l' = [] \<and> (J_Ahead l' \<noteq> [] \<longrightarrow> p \<in> set (J_From l'))"
    and "p \<in> set (J_From l)" "p \<noteq> []"
    and "J_Ahead l = abs_path ws" "ws \<noteq> []" "list_all proper ws"
  shows "isOut d (moveOut_with m (replay_out d (fst (readJournal (Some f'))))) (J_Ahead l)
    \<and> fromKey @ p \<in> set (replay_out d (fst (readJournal (Some f'))))"
proof -
  obtain n where n: "fst (readJournal (Some f'))
      = List.map_filter (\<lambda>l. l) xs @ l # List.map_filter (\<lambda>l. l) (take n ys)"
    using crash_split [OF assms(1-3)] .
  have "\<forall>l' \<in> set (List.map_filter (\<lambda>l. l) (take n ys)). J_Done l' = [] \<and> (J_Ahead l' \<noteq> [] \<longrightarrow> p \<in> set (J_From l'))"
    using assms(6) by (auto simp: List.map_filter_def dest: in_set_takeD)
  from replay_announced [OF assms(4,5) this assms(7,8)]
  have "J_Ahead l \<in> set (replay_out d (fst (readJournal (Some f'))))"
    "fromKey @ p \<in> set (replay_out d (fst (readJournal (Some f'))))"
    unfolding n by auto
  then show ?thesis
    using covers_prefix [OF assms(11)] assms(9,10) by (auto simp: isOut_def moveOut_with_def)
qed

text \<open>What a batch finished is never lost: for every entry whose ending a surviving line records, the
  replay keeps all that the entry added to the record of moved copies and every path that left its
  place, whatever lines stand around it.\<close>

theorem replay_keeps_finished:
  assumes "l \<in> set ls" "J_Begin l = None" "J_Start l = []" "J_Ahead l = []" "J_Staging l = []" "J_Placed l = []"
    and "J_Done l \<noteq> []"
  shows "set (J_MoveOut l) \<subseteq> set (replay_out d ls) \<and> set (J_Gone l) \<subseteq> set (r_gone (replay_lines d ls))"
proof -
  obtain xs ys where ls: "ls = xs @ l # ys" using assms(1) by (auto simp: in_set_conv_decomp)
  let ?r = "replay_line d l (replay_lines d xs)"
  have "set (J_MoveOut l) \<subseteq> set (r_out ?r)" "set (J_Gone l) \<subseteq> set (r_gone ?r)"
    using assms(2-) by (auto simp: replay_line_def)
  moreover have "replay_lines d ls = fold (replay_line d) ys ?r" by (simp add: replay_lines_def ls)
  ultimately show ?thesis
    using replay_fold_out [of ?r d ys] replay_fold_gone [of ?r d ys]
    by (auto simp: replay_out_def Let_def)
qed

lemma report_loop_spec:
  "report_loop dn cur fs = (m, e) \<Longrightarrow>
     length m + length e = length fs
     \<and> m = filter (\<lambda>p. \<exists>l. dn p = Some l \<and> J_Moved l) (map Clean fs)
     \<and> map fst e = filter (\<lambda>p. \<not> (\<exists>l. dn p = Some l \<and> J_Moved l)) (map Clean fs)"
  by (induction fs arbitrary: m e) (auto simp: Let_def split: prod.splits option.splits if_splits)

text \<open>The report of a batch cut short accounts for every requested file exactly once and in request
  order: as moved when its ending was recorded as a move, and otherwise with an error.\<close>

theorem interrupted_report_complete:
  "length (R_Moved (interruptedReport now b dn cur fol)) + length (R_Errors (interruptedReport now b dn cur fol))
     = R_Total (interruptedReport now b dn cur fol)
   \<and> R_Moved (interruptedReport now b dn cur fol)
     = filter (\<lambda>p. \<exists>l. dn p = Some l \<and> J_Moved l) (map Clean (B_Files b))
   \<and> map fst (R_Errors (interruptedReport now b dn cur fol))
     = filter (\<lambda>p. \<not> (\<exists>l. dn p = Some l \<and> J_Moved l)) (map Clean (B_Files b))"
  using report_loop_spec [of dn cur "B_Files b"]
  by (cases "report_loop dn cur (B_Files b)") (simp add: interruptedReport_def)

definition ex_begin_line :: journalLine where
  "ex_begin_line = zero_line\<lparr>J_Begin := Some \<lparr>B_ID = ''1'', B_Tool = ''duplicates'', B_Dest = ''/v/out'', B_Files = [''/v/a'']\<rparr>\<rparr>"

definition ex_start_line :: journalLine where
  "ex_start_line = zero_line\<lparr>J_Start := ''/v/a''\<rparr>"

definition ex_ahead_line :: journalLine where
  "ex_ahead_line = zero_line\<lparr>J_Ahead := ''/v/out/a'', J_From := [''/v/a'', ''/v/a''], J_Where := ''/out/a''\<rparr>"

definition ex_file :: jfile where
  "ex_file = \<lparr>j_lines = [Some ex_begin_line, Some ex_start_line, Some ex_ahead_line, Some (zero_line\<lparr>J_Placed := ''/v/out/a''\<rparr>)],
     j_cut = False, j_synced = 3\<rparr>"

theorem crash_protects_landing_witness:
  "isOut ex_disk (moveOut_with {} (replay_out ex_disk [ex_begin_line, ex_start_line, ex_ahead_line])) ''/v/out/a''"
proof -
  let ?f' = "\<lparr>j_lines = [Some ex_begin_line, Some ex_start_line, Some ex_ahead_line], j_cut = True, j_synced = 3\<rparr>"
  have "after_crash ex_file ?f'"
    by (auto simp: after_crash_def ex_file_def intro: exI [of _ 3])
  from crash_protects_landing [where f = ex_file and xs = "[Some ex_begin_line, Some ex_start_line]"
      and l = ex_ahead_line and ys = "[Some (zero_line\<lparr>J_Placed := ''/v/out/a''\<rparr>)]" and f' = ?f' and d = ex_disk
      and p = "''/v/a''" and ws = "[''v'', ''out'', ''a'']" and m = "{}", OF _ _ this]
  show ?thesis
    by (simp add: ex_file_def ahead_line_def ex_ahead_line_def ex_begin_line_def ex_start_line_def zero_line_def
        List.map_filter_def replay_lines_def replay_line_def replay0_def readJournal_def abs_path_def proper_def)
qed

theorem replay_keeps_finished_witness:
  "set (J_MoveOut (zero_line\<lparr>J_Done := ''/v/a'', J_MoveOut := [''/v/out/a''], J_Gone := [''/v/a'']\<rparr>))
     \<subseteq> set (replay_out ex_disk [ex_begin_line, zero_line\<lparr>J_Done := ''/v/a'', J_MoveOut := [''/v/out/a''], J_Gone := [''/v/a'']\<rparr>, ex_start_line])"
  using replay_keeps_finished
    [of "zero_line\<lparr>J_Done := ''/v/a'', J_MoveOut := [''/v/out/a''], J_Gone := [''/v/a'']\<rparr>"
      "[ex_begin_line, zero_line\<lparr>J_Done := ''/v/a'', J_MoveOut := [''/v/out/a''], J_Gone := [''/v/a'']\<rparr>, ex_start_line]" ex_disk]
  by (simp add: zero_line_def)

end
