(* ===== verification/FsCalls.thy ===== *)
theory FsCalls
  imports MoveVet Journal
begin

text \<open>
  \<open>server/fsapi.go\<close>, the calls: errors, one request and its answer (\<open>do\<close>),
  the questions File Station is asked (\<open>getInfo\<close>, \<open>statShare\<close>,
  \<open>folderIsEmpty\<close>, \<open>folderHoldsOnlyJunk\<close>), and the names and folders made from the
  answers (\<open>firstFreeName\<close>, \<open>allocBatchFolder\<close>).  File Station, the local disk, the
  clock and the random source are the fields of a record \<open>'w dsm\<close> over an arbitrary outside
  world \<open>'w\<close>, which every call may change.  The state threaded through the code is that world
  and the journal's file.
\<close>

subsection \<open>Errors\<close>

text \<open>\<open>fsError\<close>, \<open>notStartedError\<close>, \<open>parkedError\<close>, \<open>unsettledError\<close> and
  \<open>movedButError\<close> are the error types the code tells apart with \<open>errors.As\<close> (none of
  them wraps another); every other error is \<open>Plain\<close> with its reason.\<close>

datatype goerr =
    FsError gostring int "int list"
  | NotStarted goerr
  | ParkedErr path gostring goerr
  | Unsettled path
  | MovedBut moved_why
  | Plain plain_why
and plain_why =
    Unreachable | BadReply | NoShare path | NoFreeName gostring | NoFolder gostring
  | PartMoved goerr gostring | NoRandom | JournalWrite
  | OutsideAllowed | NoSuchEntry | ChangedSinceScan | ContentsChanged | DestInside | AlreadyThere
  | CannotReadSource | NoManifest manifest_why | VolumeRoot | CannotResolve | Refused refusal
  | NotConfirmedEmpty goerr | NoLongerEmpty | DirUnread
  | CopyFailed goerr | CopyUnreadable | CopyDiffers | NotPlaced goerr | PlacingLost path
  | CopyNotRemoved goerr path | CopyKept goerr path | KeptBoth kept_why
and moved_why =
    LostAnswer | ParkedUnread goerr | ParkedDiffers goerr | ParkedIntact goerr | ParkedAt goerr
  | MovedUnread | MovedDiffers | NotPutBack kept_why path
and kept_why = NoRetireName | RenameFailed goerr | ChangedMeanwhile | DeleteFailed goerr
and manifest_why = ManifestTooLarge | ManifestRead | ManifestFolder

definition hasCode :: "goerr \<Rightarrow> int list \<Rightarrow> bool" where
  "hasCode e codes = (case e of FsError _ c ns \<Rightarrow> list_ex (\<lambda>x. x = c \<or> x \<in> set ns) codes | _ \<Rightarrow> False)"

definition isCollision :: "goerr \<Rightarrow> bool" where
  "isCollision e = hasCode e [1003, 1004]"

definition worthStaging :: "goerr \<Rightarrow> bool" where
  "worthStaging e =
     (if isCollision e then True
      else case e of FsError _ c _ \<Rightarrow> c = 1000 \<or> c = 1001 | _ \<Rightarrow> False)"

definition moveOutcomeUnknown :: "goerr \<Rightarrow> bool" where
  "moveOutcomeUnknown e = (case e of FsError _ _ _ \<Rightarrow> False | NotStarted _ \<Rightarrow> False | _ \<Rightarrow> True)"

subsection \<open>The outside\<close>

text \<open>One request's answer, as \<open>do\<close> tells them apart: no connection, a body that does not
  decode, an envelope with \<open>success: false\<close>, and the data.\<close>

datatype 'd reply = NoReply | Garbled | Denied int "int list" | Answer 'd

record listing =
  l_files :: "(gostring \<times> bool) list"
  l_total :: int

record bgTask =
  bt_api :: gostring
  bt_id :: gostring
  bt_finished :: bool
  bt_crtime :: int
  bt_src :: "path list"
  bt_dest :: "path list"
  bt_remove :: "bool option"

record 'w dsm =
  c_getinfo :: "path list \<Rightarrow> bool \<Rightarrow> 'w \<Rightarrow> (path \<times> fsEntry) list reply \<times> 'w"
  c_list :: "path \<Rightarrow> nat \<Rightarrow> nat \<Rightarrow> 'w \<Rightarrow> listing reply \<times> 'w"
  c_cmstart :: "path \<Rightarrow> path \<Rightarrow> bool \<Rightarrow> 'w \<Rightarrow> gostring reply \<times> 'w"
  c_cmstatus :: "gostring \<Rightarrow> 'w \<Rightarrow> bool reply \<times> 'w"
  c_tasks :: "'w \<Rightarrow> bgTask list reply \<times> 'w"
  c_rename :: "path \<Rightarrow> gostring \<Rightarrow> 'w \<Rightarrow> unit reply \<times> 'w"
  c_create :: "path \<Rightarrow> gostring \<Rightarrow> bool \<Rightarrow> 'w \<Rightarrow> unit reply \<times> 'w"
  c_delete :: "path \<Rightarrow> 'w \<Rightarrow> unit reply \<times> 'w"
  c_delstart :: "path \<Rightarrow> 'w \<Rightarrow> gostring reply \<times> 'w"
  c_delstatus :: "gostring \<Rightarrow> 'w \<Rightarrow> bool reply \<times> 'w"
  o_now :: "'w \<Rightarrow> int"
  o_sleep :: "int \<Rightarrow> 'w \<Rightarrow> 'w"
  o_random :: "'w \<Rightarrow> gostring option \<times> 'w"
  o_jwrite :: "'w \<Rightarrow> wout \<times> 'w"
  o_hash :: "path \<Rightarrow> 'w \<Rightarrow> string option"
  o_fmt :: "int \<Rightarrow> string"
  o_lower :: "nat \<Rightarrow> nat"

text \<open>Times are milliseconds.\<close>

record fileTrack =
  t_journal :: bool
  t_src :: path
  t_cp :: path
  t_destShare :: path
  t_destCanon :: path

record 'w fsSession =
  dsm :: "'w dsm"
  shareTab :: "shareEntry list option"
  track :: "fileTrack option"

record 'w st =
  ext :: 'w
  jf :: jfile

definition do_reply :: "gostring \<Rightarrow> 'd reply \<Rightarrow> goerr + 'd" where
  "do_reply api r =
     (case r of
        NoReply \<Rightarrow> Inl (Plain Unreachable)
      | Garbled \<Rightarrow> Inl (Plain BadReply)
      | Denied c ns \<Rightarrow> Inl (FsError api c ns)
      | Answer d \<Rightarrow> Inr d)"

definition call :: "gostring \<Rightarrow> ('w \<Rightarrow> 'd reply \<times> 'w) \<Rightarrow> 'w st \<Rightarrow> (goerr + 'd) \<times> 'w st" where
  "call api f s = (let (r, w) = f (ext s) in (do_reply api r, s\<lparr>ext := w\<rparr>))"

text \<open>A call whose answer carries nothing: its error, if any.\<close>

definition err_of :: "goerr + 'd \<Rightarrow> goerr option" where
  "err_of r = (case r of Inl e \<Rightarrow> Some e | Inr _ \<Rightarrow> None)"

definition sleep :: "'w fsSession \<Rightarrow> int \<Rightarrow> 'w st \<Rightarrow> 'w st" where
  "sleep se d s = s\<lparr>ext := o_sleep (dsm se) d (ext s)\<rparr>"

definition now :: "'w fsSession \<Rightarrow> 'w st \<Rightarrow> int" where
  "now se s = o_now (dsm se) (ext s)"

definition random_hex :: "'w fsSession \<Rightarrow> 'w st \<Rightarrow> gostring option \<times> 'w st" where
  "random_hex se s = (let (r, w) = o_random (dsm se) (ext s) in (r, s\<lparr>ext := w\<rparr>))"

subsection \<open>Simple operations\<close>

definition rename :: "'w fsSession \<Rightarrow> path \<Rightarrow> gostring \<Rightarrow> 'w st \<Rightarrow> goerr option \<times> 'w st" where
  "rename se p n s = apfst err_of (call ''SYNO.FileStation.Rename'' (c_rename (dsm se) p n) s)"

definition createFolder :: "'w fsSession \<Rightarrow> path \<Rightarrow> gostring \<Rightarrow> bool \<Rightarrow> 'w st \<Rightarrow> goerr option \<times> 'w st" where
  "createFolder se p n force s =
     apfst err_of (call ''SYNO.FileStation.CreateFolder'' (c_create (dsm se) p n force) s)"

definition removeEmptyFolder :: "'w fsSession \<Rightarrow> path \<Rightarrow> 'w st \<Rightarrow> goerr option \<times> 'w st" where
  "removeEmptyFolder se p s = apfst err_of (call ''SYNO.FileStation.Delete'' (c_delete (dsm se) p) s)"

subsection \<open>Questions\<close>

text \<open>One batch's answers, each under the path it was asked about.\<close>

definition place_answers :: "path list \<Rightarrow> (path \<times> fsEntry) list \<Rightarrow> (path \<times> fsEntry) list" where
  "place_answers batch files =
     map (\<lambda>(k, p, e). (if p \<notin> set batch \<and> length files = length batch then batch ! k else p, e))
       (enumerate 0 files)"

fun getInfo_loop ::
  "'w fsSession \<Rightarrow> path list \<Rightarrow> bool \<Rightarrow> (path \<rightharpoonup> fsEntry) \<Rightarrow> 'w st \<Rightarrow> (goerr + (path \<rightharpoonup> fsEntry)) \<times> 'w st" where
  "getInfo_loop se [] additional out s = (Inr out, s)"
| "getInfo_loop se (p # ps) additional out s =
     (let batch = take 100 (p # ps) in
      case call ''SYNO.FileStation.List'' (c_getinfo (dsm se) batch additional) s of
        (Inl e, s1) \<Rightarrow> (Inl e, s1)
      | (Inr files, s1) \<Rightarrow>
          getInfo_loop se (drop 100 (p # ps)) additional
            (fold (\<lambda>(q, e) m. m(q \<mapsto> e)) (place_answers batch files) out) s1)"

definition getInfo ::
  "'w fsSession \<Rightarrow> path list \<Rightarrow> bool \<Rightarrow> 'w st \<Rightarrow> (goerr + (path \<rightharpoonup> fsEntry)) \<times> 'w st" where
  "getInfo se shares additional s = getInfo_loop se shares additional Map.empty s"

text \<open>\<open>statShare\<close>: whether the path exists, and is a folder.\<close>

definition stat_answer :: "path \<Rightarrow> goerr + (path \<rightharpoonup> fsEntry) \<Rightarrow> goerr + bool \<times> bool" where
  "stat_answer p r =
     (case r of
        Inl e \<Rightarrow> if hasCode e [408] then Inr (False, False) else Inl e
      | Inr m \<Rightarrow>
          (case m p of
             None \<Rightarrow> Inr (False, False)
           | Some e \<Rightarrow> if \<not> fs_exists e then Inr (False, False) else Inr (True, FIsDir e)))"

definition statShare :: "'w fsSession \<Rightarrow> path \<Rightarrow> 'w st \<Rightarrow> (goerr + bool \<times> bool) \<times> 'w st" where
  "statShare se p s = apfst (stat_answer p) (getInfo se [p] False s)"

definition folderIsEmpty :: "'w fsSession \<Rightarrow> path \<Rightarrow> 'w st \<Rightarrow> (goerr + bool) \<times> 'w st" where
  "folderIsEmpty se p s =
     (case call ''SYNO.FileStation.List'' (c_list (dsm se) p 0 1) s of
        (Inl e, s1) \<Rightarrow> (Inl e, s1)
      | (Inr l, s1) \<Rightarrow> (Inr (l_total l = 0), s1))"

definition junk_entry :: "(nat \<Rightarrow> nat) \<Rightarrow> gostring \<times> bool \<Rightarrow> bool" where
  "junk_entry lower f = (if snd f then fst f = ''@eaDir'' else isTempName lower (fst f))"

text \<open>Pages of 500 entries, twenty at most.\<close>

fun junk_pages :: "'w fsSession \<Rightarrow> path \<Rightarrow> nat \<Rightarrow> nat \<Rightarrow> 'w st \<Rightarrow> (goerr + bool) \<times> 'w st" where
  "junk_pages se p 0 off s = (Inr False, s)"
| "junk_pages se p (Suc n) off s =
     (case call ''SYNO.FileStation.List'' (c_list (dsm se) p off 500) s of
        (Inl e, s1) \<Rightarrow> (Inl e, s1)
      | (Inr l, s1) \<Rightarrow>
          if \<not> list_all (junk_entry (o_lower (dsm se))) (l_files l) then (Inr False, s1)
          else if l_files l = [] \<or> int off + int (length (l_files l)) \<ge> l_total l then (Inr True, s1)
          else junk_pages se p n (off + 500) s1)"

definition folderHoldsOnlyJunk :: "'w fsSession \<Rightarrow> path \<Rightarrow> 'w st \<Rightarrow> (goerr + bool) \<times> 'w st" where
  "folderHoldsOnlyJunk se p s = junk_pages se p 20 0 s"

subsection \<open>Free names\<close>

text \<open>The stem and the extension a number goes between; a name that is all extension is all
  stem.\<close>

definition name_parts :: "gostring \<Rightarrow> gostring \<times> gostring" where
  "name_parts base =
     (let ext = Ext base; stem = TrimSuffix base ext in if stem = [] then (base, []) else (stem, ext))"

definition candidate :: "gostring \<Rightarrow> nat \<Rightarrow> gostring" where
  "candidate base i =
     (if i = 0 then base
      else (let (stem, ext) = name_parts base in stem @ '' ('' @ dec i @ '')'' @ ext))"

fun free_loop :: "'w fsSession \<Rightarrow> path \<Rightarrow> gostring \<Rightarrow> nat \<Rightarrow> nat \<Rightarrow> 'w st \<Rightarrow> (goerr + gostring) \<times> 'w st" where
  "free_loop se folder base 0 i s = (Inl (Plain (NoFreeName base)), s)"
| "free_loop se folder base (Suc n) i s =
     (case statShare se (folder @ ''/'' @ candidate base i) s of
        (Inl e, s1) \<Rightarrow> (Inl e, s1)
      | (Inr (there, _), s1) \<Rightarrow>
          if \<not> there then (Inr (candidate base i), s1) else free_loop se folder base n (i + 1) s1)"

definition firstFreeName :: "'w fsSession \<Rightarrow> path \<Rightarrow> gostring \<Rightarrow> 'w st \<Rightarrow> (goerr + gostring) \<times> 'w st" where
  "firstFreeName se folder base s = free_loop se folder base 10000 0 s"

definition nameClaimTries :: nat where
  "nameClaimTries = 25"

fun alloc_loop :: "'w fsSession \<Rightarrow> path \<Rightarrow> gostring \<Rightarrow> nat \<Rightarrow> 'w st \<Rightarrow> (goerr + gostring) \<times> 'w st" where
  "alloc_loop se dest base 0 s = (Inl (Plain (NoFolder base)), s)"
| "alloc_loop se dest base (Suc n) s =
     (case firstFreeName se dest base s of
        (Inl e, s1) \<Rightarrow> (Inl e, s1)
      | (Inr name, s1) \<Rightarrow>
          (case createFolder se dest name False s1 of
             (None, s2) \<Rightarrow> (Inr name, s2)
           | (Some cerr, s2) \<Rightarrow>
               (case statShare se (dest @ ''/'' @ name) s2 of
                  (Inr (True, _), s3) \<Rightarrow> alloc_loop se dest base n s3
                | (_, s3) \<Rightarrow> (Inl cerr, s3))))"

definition allocBatchFolder :: "'w fsSession \<Rightarrow> path \<Rightarrow> gostring \<Rightarrow> 'w st \<Rightarrow> (goerr + gostring) \<times> 'w st" where
  "allocBatchFolder se dest base s = alloc_loop se dest base nameClaimTries s"

text \<open>\<open>batchFolder.share\<close>: the folder is allocated at most once; a failure is remembered.\<close>

record batchFolder =
  b_destShare :: path
  b_base :: gostring
  b_result :: "(goerr + gostring) option"

definition batch_share :: "'w fsSession \<Rightarrow> batchFolder \<Rightarrow> 'w st \<Rightarrow> (goerr + path) \<times> batchFolder \<times> 'w st" where
  "batch_share se b s =
     (let (r, s1) = (case b_result b of
                       Some r \<Rightarrow> (r, s)
                     | None \<Rightarrow> allocBatchFolder se (b_destShare b) (b_base b) s)
      in (case r of Inl e \<Rightarrow> Inl e | Inr name \<Rightarrow> Inr (b_destShare b @ ''/'' @ name),
          b\<lparr>b_result := Some r\<rparr>, s1))"

subsection \<open>The journal's methods\<close>

definition track_path :: "fileTrack \<Rightarrow> path \<Rightarrow> path" where
  "track_path t share = Join (t_destCanon t) (TrimPrefix share (t_destShare t))"

definition track_write :: "'w fsSession \<Rightarrow> fileTrack \<Rightarrow> journalLine \<Rightarrow> 'w st \<Rightarrow> bool \<times> 'w st" where
  "track_write se t l s =
     (if \<not> t_journal t then (True, s)
      else (let (o', w) = o_jwrite (dsm se) (ext s); (ok, f) = jwrite o' l True (jf s)
            in (ok, s\<lparr>ext := w, jf := f\<rparr>)))"

definition track_ahead :: "'w fsSession \<Rightarrow> path \<Rightarrow> 'w st \<Rightarrow> goerr option \<times> 'w st" where
  "track_ahead se share s =
     (case track se of
        None \<Rightarrow> (None, s)
      | Some t \<Rightarrow>
          (let (ok, s1) = track_write se t
                 (zero_line\<lparr>J_Ahead := track_path t share, J_From := [t_cp t, t_src t], J_Where := share\<rparr>) s
           in (if ok then None else Some (Plain JournalWrite), s1)))"

definition track_staging :: "'w fsSession \<Rightarrow> path \<Rightarrow> 'w st \<Rightarrow> goerr option \<times> 'w st" where
  "track_staging se share s =
     (case track se of
        None \<Rightarrow> (None, s)
      | Some t \<Rightarrow>
          (let (ok, s1) = track_write se t
                 (zero_line\<lparr>J_Staging := track_path t share, J_Where := share\<rparr>) s
           in (if ok then None else Some (Plain JournalWrite), s1)))"

definition track_placed :: "'w fsSession \<Rightarrow> path \<Rightarrow> 'w st \<Rightarrow> 'w st" where
  "track_placed se share s =
     (case track se of
        None \<Rightarrow> s
      | Some t \<Rightarrow>
          snd (track_write se t (zero_line\<lparr>J_Placed := track_path t share, J_Where := share\<rparr>) s))"

end
