(* ===== verification/MoveFlow.thy ===== *)
theory MoveFlow
  imports FsCalls "HOL-Library.Monad_Syntax"
begin

text \<open>
  \<open>server/fsapi.go\<close>, the move workflow: a CopyMove task from its start to its end
  (\<open>copyMoveTask\<close>, with the adoption of a task whose start got no answer), the removal of a
  tree, and \<open>moveViaFS\<close> with its staging hop (\<open>claimFromStaging\<close>), which move one
  entry without ever overwriting.  The polling loops have no deadline: they run on fuel, and
  \<open>None\<close> means that the call has not returned within it.
\<close>

subsection \<open>Tasks\<close>

definition statusGiveUp :: int where
  "statusGiveUp = 120000"

definition next_delay :: "int \<Rightarrow> int" where
  "next_delay d = (if d < 2000 then d * 2 else d)"

text \<open>The status loop both tasks share; \<open>silent\<close> is since when no answer came.\<close>

fun poll_task ::
  "'w fsSession \<Rightarrow> gostring \<Rightarrow> ('w \<Rightarrow> bool reply \<times> 'w) \<Rightarrow> nat \<Rightarrow> int \<Rightarrow> int option \<Rightarrow> 'w st
    \<Rightarrow> (goerr option \<times> 'w st) option" where
  "poll_task se api status 0 delay silent s = None"
| "poll_task se api status (Suc n) delay silent s =
     (case call api status s of
        (Inl e, s1) \<Rightarrow>
          if moveOutcomeUnknown e then
            (let since = (case silent of None \<Rightarrow> now se s1 | Some t \<Rightarrow> t) in
             if now se s1 - since < statusGiveUp
             then poll_task se api status n (next_delay delay) (Some since) (sleep se delay s1)
             else Some (Some e, s1))
          else Some (Some e, s1)
      | (Inr True, s1) \<Rightarrow> Some (None, s1)
      | (Inr False, s1) \<Rightarrow> poll_task se api status n (next_delay delay) None (sleep se delay s1))"

definition taskParamsMatch :: "bgTask \<Rightarrow> path \<Rightarrow> path \<Rightarrow> bool \<Rightarrow> bool" where
  "taskParamsMatch t src dest removeSrc =
     (if bt_src t \<noteq> [src] then False
      else if bt_dest t \<noteq> [dest] then False
      else case bt_remove t of None \<Rightarrow> False | Some flag \<Rightarrow> flag = removeSrc)"

definition task_skipped :: "int \<Rightarrow> path \<Rightarrow> path \<Rightarrow> bool \<Rightarrow> bgTask \<Rightarrow> bool" where
  "task_skipped floor' src dest removeSrc t \<longleftrightarrow>
     bt_api t \<noteq> ''SYNO.FileStation.CopyMove'' \<or> bt_id t = []
     \<or> bt_crtime t \<noteq> 0 \<and> bt_crtime t < floor'
     \<or> bt_crtime t = 0 \<and> bt_finished t
     \<or> \<not> taskParamsMatch t src dest removeSrc"

fun best_task :: "int \<Rightarrow> path \<Rightarrow> path \<Rightarrow> bool \<Rightarrow> bgTask list \<Rightarrow> gostring \<times> int \<times> bool \<Rightarrow> gostring" where
  "best_task floor' src dest removeSrc [] (best, bestCr, bestOpen) = best"
| "best_task floor' src dest removeSrc (t # ts) (best, bestCr, bestOpen) =
     (if task_skipped floor' src dest removeSrc t
      then best_task floor' src dest removeSrc ts (best, bestCr, bestOpen)
      else let op = (\<not> bt_finished t) in
        if best = [] \<or> op \<and> \<not> bestOpen \<or> op = bestOpen \<and> bt_crtime t > bestCr
        then best_task floor' src dest removeSrc ts (bt_id t, bt_crtime t, op)
        else best_task floor' src dest removeSrc ts (best, bestCr, bestOpen))"

text \<open>\<open>findCopyMoveTask\<close>: the task's id (empty for none), and whether the list was read.\<close>

definition findCopyMoveTask ::
  "'w fsSession \<Rightarrow> path \<Rightarrow> path \<Rightarrow> bool \<Rightarrow> int \<Rightarrow> 'w st \<Rightarrow> (gostring \<times> bool) \<times> 'w st" where
  "findCopyMoveTask se src dest removeSrc since s =
     (case call ''SYNO.FileStation.BackgroundTask'' (c_tasks (dsm se)) s of
        (Inl _, s1) \<Rightarrow> (([], False), s1)
      | (Inr ts, s1) \<Rightarrow>
          ((best_task ((since - 2000) div 1000) src dest removeSrc ts ([], 0, False), True), s1))"

definition copyMoveTask ::
  "nat \<Rightarrow> 'w fsSession \<Rightarrow> path \<Rightarrow> path \<Rightarrow> bool \<Rightarrow> 'w st \<Rightarrow> (goerr option \<times> 'w st) option" where
  "copyMoveTask n se src dest removeSrc s =
     (let api = ''SYNO.FileStation.CopyMove'';
          startedAt = now se s;
          poll = (\<lambda>tid s1. poll_task se api (c_cmstatus (dsm se) tid) n 200 None s1)
      in case call api (c_cmstart (dsm se) src dest removeSrc) s of
           (Inr tid, s1) \<Rightarrow> poll tid s1
         | (Inl e, s1) \<Rightarrow>
             if \<not> moveOutcomeUnknown e then Some (Some e, s1)
             else (case findCopyMoveTask se src dest removeSrc startedAt s1 of
                 ((tid, listed), s2) \<Rightarrow>
                   if tid \<noteq> [] then poll tid s2
                   else if listed then Some (Some (NotStarted e), s2)
                   else Some (Some e, s2)))"

definition copyMoveOnce ::
  "nat \<Rightarrow> 'w fsSession \<Rightarrow> path \<Rightarrow> path \<Rightarrow> 'w st \<Rightarrow> (goerr option \<times> 'w st) option" where
  "copyMoveOnce n se src dest s = copyMoveTask n se src dest True s"

definition copyOnce ::
  "nat \<Rightarrow> 'w fsSession \<Rightarrow> path \<Rightarrow> path \<Rightarrow> 'w st \<Rightarrow> (goerr option \<times> 'w st) option" where
  "copyOnce n se src dest s = copyMoveTask n se src dest False s"

definition removeTree :: "nat \<Rightarrow> 'w fsSession \<Rightarrow> path \<Rightarrow> 'w st \<Rightarrow> (goerr option \<times> 'w st) option" where
  "removeTree n se p s =
     (let api = ''SYNO.FileStation.Delete'' in
      case call api (c_delstart (dsm se) p) s of
        (Inl e, s1) \<Rightarrow> Some (Some e, s1)
      | (Inr tid, s1) \<Rightarrow> poll_task se api (c_delstatus (dsm se) tid) n 200 None s1)"

subsection \<open>Lost answers\<close>

text \<open>The watch on the source: \<open>deadline\<close> ends it.\<close>

fun watch_source :: "nat \<Rightarrow> 'w fsSession \<Rightarrow> path \<Rightarrow> int \<Rightarrow> int \<Rightarrow> 'w st \<Rightarrow> (bool \<times> 'w st) option" where
  "watch_source 0 se src deadline delay s = None"
| "watch_source (Suc n) se src deadline delay s =
     (case statShare se src s of
        (Inr (False, _), s1) \<Rightarrow> Some (True, s1)
      | (_, s1) \<Rightarrow>
          if now se s1 > deadline then Some (False, s1)
          else watch_source n se src deadline (next_delay delay) (sleep se delay s1))"

definition sourceLeaves :: "nat \<Rightarrow> 'w fsSession \<Rightarrow> path \<Rightarrow> 'w st \<Rightarrow> (bool \<times> 'w st) option" where
  "sourceLeaves n se src s = watch_source n se src (now se s + statusGiveUp) 200 s"

definition arrived_match :: "'w fsSession \<Rightarrow> path \<Rightarrow> entIdent \<Rightarrow> goerr + (path \<rightharpoonup> fsEntry) \<Rightarrow> bool" where
  "arrived_match se share want r =
     (case r of
        Inl _ \<Rightarrow> False
      | Inr m \<Rightarrow> (case m share of
            None \<Rightarrow> False
          | Some e \<Rightarrow> fs_exists e \<and> identMatches (o_fmt (dsm se)) e [want] \<noteq> None))"

definition arrived ::
  "'w fsSession \<Rightarrow> path \<Rightarrow> gostring \<Rightarrow> entIdent \<Rightarrow> 'w st \<Rightarrow> (gostring \<times> goerr option) \<times> 'w st" where
  "arrived se share name want s =
     (let (r, s1) = getInfo se [share] True s in
      if arrived_match se share want r then ((name, None), s1)
      else (([], Some (MovedBut LostAnswer)), s1))"

subsection \<open>The final hop\<close>

text \<open>The hop itself, once the name is claimed: an outcome, or (\<open>None\<close>) another round.\<close>

definition claim_hop ::
  "nat \<Rightarrow> 'w fsSession \<Rightarrow> path \<Rightarrow> gostring \<Rightarrow> path \<Rightarrow> entIdent \<Rightarrow> gostring \<Rightarrow> 'w st
    \<Rightarrow> ((gostring \<times> goerr option) option \<times> 'w st) option" where
  "claim_hop n se tmp base out want cur s = do {
     (moved, s1) \<leftarrow> copyMoveOnce n se (tmp @ ''/'' @ cur) out s;
     (case moved of
        None \<Rightarrow> Some (Some (cur, None), snd (removeEmptyFolder se tmp s1))
      | Some e \<Rightarrow>
          (let (inTmp, s2) =
                 (if moveOutcomeUnknown e
                  then (case statShare se (tmp @ ''/'' @ cur) s1 of
                          (Inr (False, _), s2) \<Rightarrow> (False, s2)
                        | (_, s2) \<Rightarrow> (True, s2))
                  else (True, s1))
           in if \<not> inTmp then
                (let (r, s3) = arrived se (out @ ''/'' @ cur) cur want s2 in
                 if snd r = None then Some (Some r, snd (removeEmptyFolder se tmp s3))
                 else Some (Some r, s3))
              else if \<not> worthStaging e then Some (Some ([], Some (ParkedErr tmp cur e)), s2)
              else (case firstFreeName se out base s2 of
                  (Inl _, s3) \<Rightarrow> Some (Some ([], Some (ParkedErr tmp cur e)), s3)
                | (Inr n2, s3) \<Rightarrow>
                    if n2 = cur then Some (Some ([], Some (ParkedErr tmp cur e)), s3)
                    else Some (None, s3))))
   }"

fun claim_loop ::
  "nat \<Rightarrow> nat \<Rightarrow> 'w fsSession \<Rightarrow> path \<Rightarrow> gostring \<Rightarrow> path \<Rightarrow> entIdent \<Rightarrow> gostring \<Rightarrow> 'w st
    \<Rightarrow> ((gostring \<times> goerr option) \<times> 'w st) option" where
  "claim_loop n 0 se tmp base out want cur s =
     Some (([], Some (ParkedErr tmp cur (Plain (NoFreeName base)))), s)"
| "claim_loop n (Suc tries) se tmp base out want cur s =
     (case firstFreeName se out base s of
        (Inl e, s1) \<Rightarrow> Some (([], Some (ParkedErr tmp cur e)), s1)
      | (Inr free, s1) \<Rightarrow>
          (case (if free \<noteq> cur then rename se (tmp @ ''/'' @ cur) free s1 else (None, s1)) of
             (Some e, s2) \<Rightarrow> Some (([], Some (ParkedErr tmp cur e)), s2)
           | (None, s2) \<Rightarrow>
               (case track_ahead se (out @ ''/'' @ free) s2 of
                  (Some e, s3) \<Rightarrow> Some (([], Some (ParkedErr tmp free e)), s3)
                | (None, s3) \<Rightarrow> do {
                    (r, s4) \<leftarrow> claim_hop n se tmp base out want free s3;
                    (case r of
                       Some r \<Rightarrow> Some (r, s4)
                     | None \<Rightarrow> claim_loop n tries se tmp base out want free s4)
                  })))"

definition claimFromStaging ::
  "nat \<Rightarrow> 'w fsSession \<Rightarrow> path \<Rightarrow> gostring \<Rightarrow> path \<Rightarrow> entIdent \<Rightarrow> 'w st
    \<Rightarrow> ((gostring \<times> goerr option) \<times> 'w st) option" where
  "claimFromStaging n se tmp base out want s = claim_loop n nameClaimTries se tmp base out want base s"

subsection \<open>The move\<close>

definition stagingPrefix :: gostring where
  "stagingPrefix = ''.dupfinder-tmp-''"

text \<open>From the staging folder on.\<close>

definition stageAndClaim ::
  "nat \<Rightarrow> 'w fsSession \<Rightarrow> path \<Rightarrow> gostring \<Rightarrow> path \<Rightarrow> entIdent \<Rightarrow> 'w st
    \<Rightarrow> ((gostring \<times> goerr option) \<times> 'w st) option" where
  "stageAndClaim n se src base out want s =
     (case random_hex se s of
        (None, s1) \<Rightarrow> Some (([], Some (Plain NoRandom)), s1)
      | (Some hex, s1) \<Rightarrow>
          (let tmp = stagingPrefix @ hex; tmpShare = out @ ''/'' @ tmp in
           case createFolder se out tmp False s1 of
             (Some e, s2) \<Rightarrow> Some (([], Some e), s2)
           | (None, s2) \<Rightarrow>
               (case track_staging se tmpShare s2 of
                  (Some e, s3) \<Rightarrow> Some (([], Some e), snd (removeEmptyFolder se tmpShare s3))
                | (None, s3) \<Rightarrow> do {
                    (moved, s4) \<leftarrow> copyMoveOnce n se src tmpShare s3;
                    (case moved of
                       None \<Rightarrow> claimFromStaging n se tmpShare base out want s4
                     | Some e \<Rightarrow>
                         (case statShare se (tmpShare @ ''/'' @ base) s4 of
                            (Inr (False, _), s5) \<Rightarrow>
                              Some (([], Some e), snd (removeEmptyFolder se tmpShare s5))
                          | (_, s5) \<Rightarrow> Some (([], Some (ParkedErr tmpShare base e)), s5)))
                  })))"

text \<open>What a failed direct move leads to: an outcome, or (\<open>None\<close> in the inner option) the
  staging folder.\<close>

definition directFailed ::
  "nat \<Rightarrow> 'w fsSession \<Rightarrow> path \<Rightarrow> gostring \<Rightarrow> path \<Rightarrow> entIdent \<Rightarrow> goerr \<Rightarrow> 'w st
    \<Rightarrow> ((gostring \<times> goerr option) option \<times> 'w st) option" where
  "directFailed n se src base out want e s =
     (let landing = out @ ''/'' @ base in
      if moveOutcomeUnknown e then do {
        (left, s1) \<leftarrow> sourceLeaves n se src s;
        (if left then Some (apfst Some (arrived se landing base want s1))
         else Some (Some (base, Some (Unsettled out)), s1))
      }
      else if \<not> worthStaging e then Some (Some ([], Some e), s)
      else if isCollision e then Some (None, s)
      else (case statShare se landing s of
          (Inr (True, _), s1) \<Rightarrow>
            (case statShare se src s1 of
               (Inr (False, _), s2) \<Rightarrow> Some (apfst Some (arrived se landing base want s2))
             | (_, s2) \<Rightarrow>
                 if i_isDir want then Some (Some ([], Some (Plain (PartMoved e base))), s2)
                 else Some (None, s2))
        | (_, s1) \<Rightarrow> Some (Some ([], Some e), s1)))"

definition moveViaFS ::
  "nat \<Rightarrow> 'w fsSession \<Rightarrow> path \<Rightarrow> path \<Rightarrow> entIdent \<Rightarrow> 'w st
    \<Rightarrow> ((gostring \<times> goerr option) \<times> 'w st) option" where
  "moveViaFS n se src out want s =
     (let base = Base src in
      case statShare se (out @ ''/'' @ base) s of
        (Inl e, s1) \<Rightarrow> Some (([], Some e), s1)
      | (Inr (True, _), s1) \<Rightarrow> stageAndClaim n se src base out want s1
      | (Inr (False, _), s1) \<Rightarrow>
          (case track_ahead se (out @ ''/'' @ base) s1 of
             (Some e, s2) \<Rightarrow> Some (([], Some e), s2)
           | (None, s2) \<Rightarrow> do {
               (moved, s3) \<leftarrow> copyMoveOnce n se src out s2;
               (case moved of
                  None \<Rightarrow> Some ((base, None), s3)
                | Some e \<Rightarrow> do {
                    (r, s4) \<leftarrow> directFailed n se src base out want e s3;
                    (case r of
                       Some r \<Rightarrow> Some (r, s4)
                     | None \<Rightarrow> stageAndClaim n se src base out want s4)
                  })
             }))"

end
