(* ===== verification/MoveOutcome.thy ===== *)
theory MoveOutcome
  imports MoveFlow
begin

text \<open>
  What the outcome of \<open>moveViaFS\<close> says about where the entry is.  A \<open>view\<close> of the outside
  world names the share path at which the moved entry lies, the places an accepted task may still
  carry it to, and the tasks that carry it; \<open>honest\<close> collects File Station's documented
  behaviour in these terms.  Under it every outcome of the move workflow is true: a success names
  the place, a plain error means the entry never left, and only the three outcomes that say so
  leave it anywhere else.
\<close>

record 'w view =
  place :: "'w \<Rightarrow> path"
  going :: "'w \<Rightarrow> path set"
  carrier :: "'w \<Rightarrow> gostring \<Rightarrow> (path \<times> path) option"

text \<open>A call that starts nothing: the entry stays, or an accepted task brings it to its target.\<close>

definition drift :: "'w view \<Rightarrow> 'w \<Rightarrow> 'w \<Rightarrow> bool" where
  "drift V w w' \<longleftrightarrow> (place V w' = place V w \<or> place V w' \<in> going V w)
     \<and> going V w' \<subseteq> going V w \<and> carrier V w' = carrier V w"

definition landing :: "path \<Rightarrow> path \<Rightarrow> path" where
  "landing src dest = dest @ ''/'' @ Base src"

text \<open>A question about one path is answered truly: an entry that is there is reported there.\<close>

definition shown :: "path \<Rightarrow> (path \<times> fsEntry) list reply \<Rightarrow> bool" where
  "shown p r =
     (case r of
        Answer fs \<Rightarrow> (\<exists>e. fold (\<lambda>(q, e) m. m(q \<mapsto> e)) (place_answers [p] fs) Map.empty p = Some e \<and> fs_exists e)
      | Denied c ns \<Rightarrow> c \<noteq> 408 \<and> 408 \<notin> set ns
      | _ \<Rightarrow> True)"

definition honest_questions :: "'w dsm \<Rightarrow> 'w view \<Rightarrow> bool" where
  "honest_questions d V \<longleftrightarrow>
     (\<forall>p b w r w'. c_getinfo d [p] b w = (r, w') \<longrightarrow> drift V w w' \<and> (place V w' = p \<longrightarrow> shown p r))
     \<and> (\<forall>t w. drift V w (o_sleep d t w)) \<and> (\<forall>w. drift V w (snd (o_random d w)))
     \<and> (\<forall>w. drift V w (snd (o_jwrite d w)))
     \<and> (\<forall>p n f w. drift V w (snd (c_create d p n f w)))"

text \<open>Starting a task for the entry, and the two answers of a status request that end it.\<close>

definition honest_start :: "'w dsm \<Rightarrow> 'w view \<Rightarrow> bool" where
  "honest_start d V \<longleftrightarrow> (\<forall>src dest w r w'. c_cmstart d src dest True w = (r, w') \<and> place V w = src
     \<and> going V w = {} \<longrightarrow>
       (place V w' = src \<or> place V w' = landing src dest) \<and> going V w' \<subseteq> {landing src dest}
       \<and> (\<forall>c ns. r = Denied c ns \<longrightarrow> place V w' = src \<and> going V w' = {})
       \<and> (\<forall>tid. r = Answer tid \<longrightarrow> carrier V w' tid = Some (src, landing src dest)))"

definition honest_status :: "'w dsm \<Rightarrow> 'w view \<Rightarrow> bool" where
  "honest_status d V \<longleftrightarrow> (\<forall>tid w r w' src t. c_cmstatus d tid w = (r, w') \<and> carrier V w tid = Some (src, t)
     \<and> place V w \<in> {src, t} \<and> going V w \<subseteq> {t} \<longrightarrow>
       (r = Answer True \<longrightarrow> place V w' = t \<and> going V w' = {})
       \<and> (\<forall>c ns. r = Denied c ns \<longrightarrow> place V w' = src \<and> going V w' = {})
       \<and> (r \<in> {Answer False, NoReply, Garbled} \<longrightarrow> drift V w w'))"

text \<open>The task list, read after a start that got no answer: a recent task for this source and this
  destination carries the entry; without one, nothing was started.\<close>

definition honest_tasks :: "'w dsm \<Rightarrow> 'w view \<Rightarrow> bool" where
  "honest_tasks d V \<longleftrightarrow> (\<forall>w r w' src dest since. c_tasks d w = (r, w')
     \<and> place V w \<in> {src, landing src dest} \<and> going V w \<subseteq> {landing src dest} \<longrightarrow>
       place V w' \<in> {src, landing src dest} \<and> going V w' \<subseteq> {landing src dest}
       \<and> (\<forall>ts. r = Answer ts \<longrightarrow>
            (\<forall>t \<in> set ts. \<not> task_skipped ((since - 2000) div 1000) src dest True t
               \<longrightarrow> carrier V w' (bt_id t) = Some (src, landing src dest))
            \<and> ((\<forall>t \<in> set ts. task_skipped ((since - 2000) div 1000) src dest True t)
               \<longrightarrow> place V w' = src \<and> going V w' = {})))"

text \<open>Renaming the entry inside its folder, and the removal of an empty folder, which refuses one
  that holds anything.\<close>

definition honest_rename :: "'w dsm \<Rightarrow> 'w view \<Rightarrow> bool" where
  "honest_rename d V \<longleftrightarrow> (\<forall>dir m n w r w'. c_rename d (dir @ ''/'' @ m) n w = (r, w')
     \<and> slash \<notin> set m \<and> place V w = dir @ ''/'' @ m \<and> going V w = {} \<longrightarrow>
       going V w' = {} \<and> place V w' \<in> {dir @ ''/'' @ m, dir @ ''/'' @ n}
       \<and> (r = Answer () \<longrightarrow> place V w' = dir @ ''/'' @ n)
       \<and> (\<forall>c ns. r = Denied c ns \<longrightarrow> place V w' = dir @ ''/'' @ m))"

definition honest_delete :: "'w dsm \<Rightarrow> 'w view \<Rightarrow> bool" where
  "honest_delete d V \<longleftrightarrow> (\<forall>p w. place V w \<noteq> p \<longrightarrow> drift V w (snd (c_delete d p w)))"

definition honest :: "'w dsm \<Rightarrow> 'w view \<Rightarrow> bool" where
  "honest d V \<longleftrightarrow> honest_questions d V \<and> honest_start d V \<and> honest_status d V \<and> honest_tasks d V
     \<and> honest_rename d V \<and> honest_delete d V"

text \<open>What an outcome of a move of the entry from \<open>src\<close> into \<open>out\<close> says.\<close>

definition told :: "'w view \<Rightarrow> path \<Rightarrow> path \<Rightarrow> gostring \<times> goerr option \<Rightarrow> 'w \<Rightarrow> bool" where
  "told V src out r w =
     (case snd r of
        None \<Rightarrow> place V w = out @ ''/'' @ fst r
      | Some (Unsettled dest) \<Rightarrow> dest = out \<and> place V w \<in> {src, out @ ''/'' @ fst r}
      | Some (ParkedErr tmp name e) \<Rightarrow>
          place V w = src \<or> (\<exists>q. place V w = tmp @ ''/'' @ q) \<or> place V w = out @ ''/'' @ name
      | Some (MovedBut y) \<Rightarrow> place V w \<noteq> src \<and> (\<exists>q. place V w = out @ ''/'' @ q)
      | Some e \<Rightarrow> place V w = src
          \<or> moveOutcomeUnknown e \<and> (\<exists>hex q. place V w = out @ ''/'' @ stagingPrefix @ hex @ ''/'' @ q))"

subsection \<open>Steps\<close>

lemma drift_refl [simp]: "drift V w w"
  by (simp add: drift_def)

lemma drift_trans: "drift V u v \<Longrightarrow> drift V v w \<Longrightarrow> drift V u w"
  by (auto simp: drift_def)

lemma drift_still: "drift V w w' \<Longrightarrow> going V w = {} \<Longrightarrow> place V w' = place V w \<and> going V w' = {}"
  by (auto simp: drift_def)

lemma drift_within:
  "drift V w w' \<Longrightarrow> place V w \<in> {a, b} \<Longrightarrow> going V w \<subseteq> {b} \<Longrightarrow> place V w' \<in> {a, b} \<and> going V w' \<subseteq> {b}"
  by (auto simp: drift_def)

lemma getInfo_one:
  "getInfo se [p] b s =
     (case call ''SYNO.FileStation.List'' (c_getinfo (dsm se) [p] b) s of
        (Inl e, s1) \<Rightarrow> (Inl e, s1)
      | (Inr fs, s1) \<Rightarrow> (Inr (fold (\<lambda>(q, e) m. m(q \<mapsto> e)) (place_answers [p] fs) Map.empty), s1))"
  by (simp add: getInfo_def split: prod.splits sum.splits)

lemma getInfo_drift:
  "honest (dsm se) V \<Longrightarrow> getInfo se [p] b s = (r, s') \<Longrightarrow> drift V (ext s) (ext s')"
  unfolding honest_def honest_questions_def getInfo_one call_def
  by (auto simp: Let_def split: prod.splits sum.splits)

lemma statShare_true:
  assumes "honest (dsm se) V" "statShare se p s = (r, s')"
  shows "drift V (ext s) (ext s') \<and> (\<forall>b. r = Inr (False, b) \<longrightarrow> place V (ext s') \<noteq> p)"
proof -
  obtain q w' where q: "c_getinfo (dsm se) [p] False (ext s) = (q, w')" by (metis surj_pair)
  have law: "drift V (ext s) w'" "place V w' = p \<Longrightarrow> shown p q"
    using assms(1) q unfolding honest_def honest_questions_def by metis+
  have s': "s' = s\<lparr>ext := w'\<rparr>" and r: "r = stat_answer p (case do_reply ''SYNO.FileStation.List'' q of
      Inl e \<Rightarrow> Inl e | Inr fs \<Rightarrow> Inr (fold (\<lambda>(q, e) m. m(q \<mapsto> e)) (place_answers [p] fs) Map.empty))"
    using assms(2) q by (auto simp: statShare_def getInfo_one call_def split: sum.splits)
  have "\<not> shown p q" if "r = Inr (False, b)" for b
    using that r by (cases q) (auto simp: do_reply_def stat_answer_def shown_def hasCode_def
        split: if_splits option.splits)
  then show ?thesis using law s' by auto
qed

lemma createFolder_drift:
  "honest (dsm se) V \<Longrightarrow> createFolder se p n f s = (r, s') \<Longrightarrow> drift V (ext s) (ext s')"
  unfolding honest_def honest_questions_def createFolder_def call_def
  by (auto simp: Let_def split: prod.splits) (metis snd_conv)

lemma random_drift:
  "honest (dsm se) V \<Longrightarrow> random_hex se s = (r, s') \<Longrightarrow> drift V (ext s) (ext s')"
  unfolding honest_def honest_questions_def random_hex_def
  by (auto simp: Let_def split: prod.splits) (metis snd_conv)

lemma sleep_drift: "honest (dsm se) V \<Longrightarrow> drift V (ext s) (ext (sleep se t s))"
  by (simp add: honest_def honest_questions_def sleep_def)

lemma track_write_drift:
  "honest (dsm se) V \<Longrightarrow> track_write se t l s = (r, s') \<Longrightarrow> drift V (ext s) (ext s')"
  unfolding honest_def honest_questions_def track_write_def
  by (auto simp: Let_def split: prod.splits if_splits) (metis snd_conv)

lemma track_drift:
  "honest (dsm se) V \<Longrightarrow> track_ahead se p s = (r, s') \<Longrightarrow> drift V (ext s) (ext s')"
  "honest (dsm se) V \<Longrightarrow> track_staging se p s = (r, s') \<Longrightarrow> drift V (ext s) (ext s')"
  by (auto simp: track_ahead_def track_staging_def Let_def split: option.splits prod.splits
      dest: track_write_drift)

lemma removeEmptyFolder_drift:
  "honest (dsm se) V \<Longrightarrow> place V (ext s) \<noteq> p \<Longrightarrow> drift V (ext s) (ext (snd (removeEmptyFolder se p s)))"
  by (auto simp: honest_def honest_delete_def removeEmptyFolder_def call_def Let_def split: prod.splits)
    (metis snd_conv)

lemma free_loop_drift:
  "honest (dsm se) V \<Longrightarrow> free_loop se folder base n i s = (r, s') \<Longrightarrow> drift V (ext s) (ext s')"
proof (induction n arbitrary: i s)
  case (Suc n)
  obtain q s1 where q: "statShare se (folder @ ''/'' @ candidate base i) s = (q, s1)" by (metis surj_pair)
  have "drift V (ext s) (ext s1)" using statShare_true [OF Suc.prems(1) q] by blast
  then show ?case
    using Suc.IH [OF Suc.prems(1), of "i + 1" s1] Suc.prems(2) q
    by (auto split: sum.splits prod.splits if_splits intro: drift_trans)
qed simp

lemma free_loop_name: "free_loop se folder base n i s = (Inr name, s') \<Longrightarrow> \<exists>j. name = candidate base j"
  by (induction n arbitrary: i s) (auto split: sum.splits prod.splits if_splits)

subsection \<open>One task\<close>

definition within :: "'w view \<Rightarrow> path \<Rightarrow> path \<Rightarrow> 'w \<Rightarrow> bool" where
  "within V src t w \<longleftrightarrow> place V w \<in> {src, t} \<and> going V w \<subseteq> {t}"

definition at_rest :: "'w view \<Rightarrow> path \<Rightarrow> 'w \<Rightarrow> bool" where
  "at_rest V p w \<longleftrightarrow> place V w = p \<and> going V w = {}"

text \<open>What one task's result says.\<close>

definition settled :: "'w view \<Rightarrow> path \<Rightarrow> path \<Rightarrow> goerr option \<Rightarrow> 'w \<Rightarrow> bool" where
  "settled V src t r w =
     (case r of
        None \<Rightarrow> at_rest V t w
      | Some e \<Rightarrow> if moveOutcomeUnknown e then within V src t w else at_rest V src w)"

lemma settledI:
  "at_rest V t w \<Longrightarrow> settled V src t None w"
  "within V src t w \<Longrightarrow> moveOutcomeUnknown e \<Longrightarrow> settled V src t (Some e) w"
  "at_rest V src w \<Longrightarrow> \<not> moveOutcomeUnknown e \<Longrightarrow> settled V src t (Some e) w"
  by (simp_all add: settled_def)

lemma unknown_simps [simp]:
  "moveOutcomeUnknown (Plain y)" "\<not> moveOutcomeUnknown (FsError a c ns)" "\<not> moveOutcomeUnknown (NotStarted e)"
  by (simp_all add: moveOutcomeUnknown_def)

lemma within_drift: "within V src t w \<Longrightarrow> drift V w w' \<Longrightarrow> within V src t w'"
  by (auto simp: within_def drift_def)

lemma at_rest_drift: "at_rest V p w \<Longrightarrow> drift V w w' \<Longrightarrow> at_rest V p w'"
  by (auto simp: at_rest_def drift_def)

lemma at_rest_within: "at_rest V p w \<Longrightarrow> p \<in> {src, t} \<Longrightarrow> within V src t w"
  by (auto simp: at_rest_def within_def)

lemma call_cases:
  obtains q w' where "f (ext s) = (q, w')" "call api f s = (do_reply api q, s\<lparr>ext := w'\<rparr>)"
  by (cases "f (ext s)") (auto simp: call_def)

lemma poll_task_settled:
  assumes "honest (dsm se) V" "carrier V (ext s) tid = Some (src, t)" "within V src t (ext s)"
    and "poll_task se api (c_cmstatus (dsm se) tid) n delay silent s = Some (r, s')"
  shows "settled V src t r (ext s')"
  using assms(2-)
proof (induction n arbitrary: delay silent s)
  case (Suc n)
  obtain q w' where q: "c_cmstatus (dsm se) tid (ext s) = (q, w')"
    "call api (c_cmstatus (dsm se) tid) s = (do_reply api q, s\<lparr>ext := w'\<rparr>)"
    by (rule call_cases)
  have law: "q = Answer True \<Longrightarrow> at_rest V t w'" "\<And>c ns. q = Denied c ns \<Longrightarrow> at_rest V src w'"
    "q \<in> {Answer False, NoReply, Garbled} \<Longrightarrow> drift V (ext s) w'"
    using assms(1) q(1) Suc.prems(1,2)
    unfolding honest_def honest_status_def within_def at_rest_def by blast+
  have again: "settled V src t r (ext s')"
    if "drift V (ext s) w'"
      "poll_task se api (c_cmstatus (dsm se) tid) n (next_delay delay) si (sleep se delay (s\<lparr>ext := w'\<rparr>)) = Some (r, s')"
    for si
  proof (rule Suc.IH [OF _ _ that(2)])
    have d: "drift V (ext s) (ext (sleep se delay (s\<lparr>ext := w'\<rparr>)))"
      using drift_trans [OF that(1)] sleep_drift [OF assms(1), of "s\<lparr>ext := w'\<rparr>"] by simp
    show "carrier V (ext (sleep se delay (s\<lparr>ext := w'\<rparr>))) tid = Some (src, t)"
      using d Suc.prems(1) by (simp add: drift_def)
    show "within V src t (ext (sleep se delay (s\<lparr>ext := w'\<rparr>)))"
      using within_drift [OF Suc.prems(2) d] .
  qed
  show ?case
  proof (cases q)
    case (Answer b)
    then show ?thesis
      using Suc.prems(3) law again by (cases b) (auto simp: q do_reply_def intro: settledI)
  next
    case (Denied c ns)
    then show ?thesis
      using Suc.prems(3) law by (auto simp: q do_reply_def intro: settledI)
  qed (use Suc.prems(3) law again within_drift [OF Suc.prems(2)] in
      \<open>auto simp: q do_reply_def Let_def intro: settledI split: if_splits\<close>)
qed simp

lemma best_task_found:
  "best_task f src dest rm ts (best, cr, op) \<noteq> best \<Longrightarrow>
     \<exists>t \<in> set ts. \<not> task_skipped f src dest rm t \<and> bt_id t = best_task f src dest rm ts (best, cr, op)"
proof (induction ts arbitrary: best cr op)
  case (Cons t ts)
  show ?case
  proof (cases "best_task f src dest rm ts (bt_id t, bt_crtime t, \<not> bt_finished t) = bt_id t")
    case True
    then show ?thesis
      using Cons by (auto simp: Let_def split: if_splits)
  next
    case False
    then show ?thesis
      using Cons Cons.IH [OF False] by (auto simp: Let_def split: if_splits)
  qed
qed simp

lemma best_task_keeps: "b \<noteq> [] \<Longrightarrow> best_task f src dest rm ts (b, cr, op) \<noteq> []"
  by (induction ts arbitrary: b cr op) (auto simp: Let_def task_skipped_def)

lemma best_task_none:
  "best_task f src dest rm ts ([], cr, op) = [] \<Longrightarrow> t \<in> set ts \<Longrightarrow> task_skipped f src dest rm t"
proof (induction ts)
  case (Cons t' ts)
  show ?case
  proof (cases "task_skipped f src dest rm t'")
    case True
    then show ?thesis using Cons by auto
  next
    case False
    then have "bt_id t' \<noteq> []" by (simp add: task_skipped_def)
    then show ?thesis
      using Cons.prems(1) False best_task_keeps by (auto simp: Let_def)
  qed
qed simp

lemma honest_startD:
  assumes "honest d V" "c_cmstart d src dest True w = (q, w')" "at_rest V src w"
  shows "within V src (landing src dest) w' \<and> (\<forall>c ns. q = Denied c ns \<longrightarrow> at_rest V src w')
    \<and> (\<forall>tid. q = Answer tid \<longrightarrow> carrier V w' tid = Some (src, landing src dest))"
proof -
  have "honest_start d V" using assms(1) by (simp add: honest_def)
  from this [unfolded honest_start_def, rule_format, of src dest w q w'] show ?thesis
    using assms(2,3) by (simp add: within_def at_rest_def)
qed

lemma honest_tasksD:
  assumes "honest d V" "c_tasks d w = (q, w')" "within V src (landing src dest) w"
  shows "within V src (landing src dest) w' \<and> (\<forall>ts. q = Answer ts \<longrightarrow>
      (\<forall>t \<in> set ts. \<not> task_skipped ((since - 2000) div 1000) src dest True t
         \<longrightarrow> carrier V w' (bt_id t) = Some (src, landing src dest))
      \<and> ((\<forall>t \<in> set ts. task_skipped ((since - 2000) div 1000) src dest True t) \<longrightarrow> at_rest V src w'))"
proof -
  have "honest_tasks d V" using assms(1) by (simp add: honest_def)
  from this [unfolded honest_tasks_def, rule_format, of w q w' src dest since] show ?thesis
    using assms(2,3) by (simp add: within_def at_rest_def)
qed

lemma copyMoveOnce_settled:
  assumes H: "honest (dsm se) V" and rest: "at_rest V src (ext s)"
    and res: "copyMoveOnce n se src dest s = Some (r, s')"
  shows "settled V src (landing src dest) r (ext s')"
proof -
  let ?t = "landing src dest"
  let ?api = "''SYNO.FileStation.CopyMove''"
  obtain q w' where q: "c_cmstart (dsm se) src dest True (ext s) = (q, w')"
    "call ?api (c_cmstart (dsm se) src dest True) s = (do_reply ?api q, s\<lparr>ext := w'\<rparr>)"
    by (rule call_cases)
  have start: "within V src ?t w'" "\<And>c ns. q = Denied c ns \<Longrightarrow> at_rest V src w'"
    "\<And>tid. q = Answer tid \<Longrightarrow> carrier V w' tid = Some (src, ?t)"
    using honest_startD [OF H q(1) rest] by simp_all
  have poll: "settled V src ?t r (ext s')"
    if "carrier V (ext s1) tid = Some (src, ?t)" "within V src ?t (ext s1)"
      "poll_task se ?api (c_cmstatus (dsm se) tid) n 200 None s1 = Some (r, s')" for s1 tid
    using poll_task_settled [OF H that] .
  show ?thesis
  proof (cases "\<exists>e. do_reply ?api q = Inl e \<and> moveOutcomeUnknown e")
    case False
    then show ?thesis
      using res q start poll [of "s\<lparr>ext := w'\<rparr>"]
      by (cases q) (auto simp: copyMoveOnce_def copyMoveTask_def Let_def do_reply_def intro: settledI)
  next
    case True
    then obtain e where e: "do_reply ?api q = Inl e" "moveOutcomeUnknown e" by blast
    let ?s1 = "s\<lparr>ext := w'\<rparr>"
    obtain q2 w2 where q2: "c_tasks (dsm se) w' = (q2, w2)" by (metis surj_pair)
    have tasks: "within V src ?t w2"
      "\<And>ts t. q2 = Answer ts \<Longrightarrow> t \<in> set ts \<Longrightarrow> \<not> task_skipped ((now se s - 2000) div 1000) src dest True t
         \<Longrightarrow> carrier V w2 (bt_id t) = Some (src, ?t)"
      "\<And>ts. q2 = Answer ts \<Longrightarrow> \<forall>t \<in> set ts. task_skipped ((now se s - 2000) div 1000) src dest True t
         \<Longrightarrow> at_rest V src w2"
      using honest_tasksD [OF H q2 start(1)] by simp_all
    obtain tid listed where f: "findCopyMoveTask se src dest True (now se s) ?s1
        = ((tid, listed), s\<lparr>ext := w2\<rparr>)"
      using q2 by (cases q2) (auto simp: findCopyMoveTask_def call_def do_reply_def)
    have found: "carrier V w2 tid = Some (src, ?t)" if "tid \<noteq> []"
      using that f q2 tasks(2) best_task_found [of "(now se s - 2000) div 1000" src dest True _ "[]" 0 False]
      by (cases q2) (fastforce simp: findCopyMoveTask_def call_def do_reply_def)+
    have none: "at_rest V src w2" if "tid = []" "listed"
      using that f q2 tasks(3) best_task_none [of "(now se s - 2000) div 1000" src dest True _ 0 False]
      by (cases q2) (auto simp: findCopyMoveTask_def call_def do_reply_def)
    show ?thesis
      using res e f q(2) found none tasks(1) poll [of "s\<lparr>ext := w2\<rparr>" tid]
      by (auto simp: copyMoveOnce_def copyMoveTask_def Let_def intro: settledI split: if_splits)
  qed
qed

subsection \<open>Names\<close>

lemma Base_snoc: "slash \<notin> set w \<Longrightarrow> w \<noteq> [] \<Longrightarrow> Base (x @ slash # w) = w"
proof -
  assume w: "slash \<notin> set w" "w \<noteq> []"
  then have "dropWhile (\<lambda>c. c = slash) (rev w @ s) = rev w @ s" for s
    by (cases w rule: rev_cases) auto
  then show ?thesis using w takeWhile_no_slash [of w "rev x"] by (simp add: Base_def)
qed

lemma ext_rev_set: "set (ext_rev s acc) \<subseteq> set s \<union> set acc"
  by (induction s acc rule: ext_rev.induct) auto

lemma name_parts_sub:
  "name_parts base = (stem, e) \<Longrightarrow> set stem \<subseteq> set base \<and> set e \<subseteq> set base \<and> HasPrefix base stem"
  using ext_rev_set [of "rev base" "[]"]
  by (auto simp: name_parts_def Let_def TrimSuffix_def Ext_def HasPrefix_def split: if_splits dest: in_set_takeD)

text \<open>A name good for an entry: not empty, no slash, and not that of a staging folder.\<close>

definition good_name :: "gostring \<Rightarrow> bool" where
  "good_name w \<longleftrightarrow> w \<noteq> [] \<and> slash \<notin> set w \<and> \<not> HasPrefix w stagingPrefix"

lemma prefix_before_space:
  "CHR '' '' \<notin> set p \<Longrightarrow> HasPrefix (u @ CHR '' '' # v) p \<Longrightarrow> HasPrefix u p"
  by (auto simp: HasPrefix_iff append_eq_append_conv2 append_eq_Cons_conv Cons_eq_append_conv)

lemma candidate_good:
  assumes "good_name base"
  shows "good_name (candidate base j)"
proof (cases "j = 0")
  case False
  obtain stem e where p: "name_parts base = (stem, e)" by (metis surj_pair)
  have "\<not> HasPrefix stem stagingPrefix"
    using name_parts_sub [OF p] assms HasPrefix_trans [of base stem stagingPrefix]
    by (auto simp: good_name_def)
  then have "\<not> HasPrefix (stem @ CHR '' '' # v) stagingPrefix" for v
    using prefix_before_space [of stagingPrefix stem] by (auto simp: stagingPrefix_def)
  moreover have "slash \<notin> set (dec j)" using dec_free by blast
  ultimately show ?thesis
    using name_parts_sub [OF p] assms False p
    by (auto simp: candidate_def good_name_def)
qed (use assms in \<open>simp add: candidate_def\<close>)

subsection \<open>The final hop\<close>

lemma honest_renameD:
  assumes "honest (dsm se) V" "at_rest V (dir @ ''/'' @ m) (ext s)" "rename se (dir @ ''/'' @ m) n s = (r, s')"
    and "slash \<notin> set m"
  shows "\<exists>q. at_rest V (dir @ ''/'' @ q) (ext s') \<and> (r = None \<longrightarrow> q = n)"
proof -
  obtain q w' where q: "c_rename (dsm se) (dir @ ''/'' @ m) n (ext s) = (q, w')" by (metis surj_pair)
  have "honest_rename (dsm se) V" using assms(1) by (simp add: honest_def)
  from this [unfolded honest_rename_def, rule_format, of dir m n "ext s" q w']
  have "going V w' = {} \<and> place V w' \<in> {dir @ ''/'' @ m, dir @ ''/'' @ n}
      \<and> (q = Answer () \<longrightarrow> place V w' = dir @ ''/'' @ n)"
    using q assms(2,4) by (simp add: at_rest_def)
  moreover have "r = err_of (do_reply ''SYNO.FileStation.Rename'' q)" "s' = s\<lparr>ext := w'\<rparr>"
    using assms(3) q by (auto simp: rename_def call_def)
  ultimately show ?thesis
    by (cases q) (auto simp: at_rest_def err_of_def do_reply_def)
qed

lemma removeEmptyFolder_place:
  assumes "honest (dsm se) V" "place V (ext s) = p" "going V (ext s) \<subseteq> {p}" "p \<noteq> f"
  shows "place V (ext (snd (removeEmptyFolder se f s))) = p"
  using removeEmptyFolder_drift [OF assms(1), of s f] assms(2-) by (auto simp: drift_def)

lemma arrived_told:
  assumes "honest (dsm se) V" "place V (ext s) = out @ ''/'' @ name" "going V (ext s) \<subseteq> {out @ ''/'' @ name}"
    and "src \<noteq> out @ ''/'' @ name" "arrived se (out @ ''/'' @ name) name want s = (r, s')"
  shows "told V src out r (ext s') \<and> place V (ext s') = out @ ''/'' @ name
    \<and> going V (ext s') \<subseteq> {out @ ''/'' @ name} \<and> (snd r = None \<longrightarrow> fst r = name)"
proof -
  obtain q s1 where q: "getInfo se [out @ ''/'' @ name] True s = (q, s1)" by (metis surj_pair)
  have "place V (ext s1) = out @ ''/'' @ name \<and> going V (ext s1) \<subseteq> {out @ ''/'' @ name}"
    using getInfo_drift [OF assms(1) q] assms(2,3) by (auto simp: drift_def)
  moreover have "s' = s1" "r = (name, None) \<or> r = ([], Some (MovedBut LostAnswer))"
    using assms(5) q by (auto simp: arrived_def split: if_splits)
  ultimately show ?thesis using assms(4) by (auto simp: told_def)
qed

lemma firstFreeName_rest:
  assumes "honest (dsm se) V" "at_rest V p (ext s)" "firstFreeName se out base s = (r, s')"
  shows "at_rest V p (ext s')"
  using at_rest_drift [OF assms(2)] free_loop_drift [OF assms(1)] assms(3) by (metis firstFreeName_def)

lemma firstFreeName_good:
  "good_name base \<Longrightarrow> firstFreeName se out base s = (Inr name, s') \<Longrightarrow> good_name name"
  using free_loop_name candidate_good by (metis firstFreeName_def)

lemma parked_told: "at_rest V (tmp @ ''/'' @ q) w \<Longrightarrow> told V src out ([], Some (ParkedErr tmp c e)) w"
  by (auto simp: told_def at_rest_def)

lemma claim_hop_told:
  assumes H: "honest (dsm se) V" and tmp: "tmp = out @ ''/'' @ stagingPrefix @ hex"
    and src: "\<forall>q. slash \<notin> set q \<longrightarrow> src \<noteq> out @ ''/'' @ q"
    and rest: "at_rest V (tmp @ ''/'' @ cur) (ext s)" and good: "good_name cur"
    and res: "claim_hop n se tmp base out want cur s = Some (r, s')"
  shows "case r of Some r \<Rightarrow> told V src out r (ext s') | None \<Rightarrow> at_rest V (tmp @ ''/'' @ cur) (ext s')"
proof -
  let ?p = "tmp @ ''/'' @ cur" and ?t = "out @ ''/'' @ cur"
  have land: "landing ?p out = ?t"
    using Base_snoc [of cur tmp] good by (simp add: landing_def good_name_def)
  have apart: "?t \<noteq> tmp" "src \<noteq> ?t" "?t \<noteq> ?p"
    using good src unfolding tmp good_name_def HasPrefix_iff by auto
  obtain m s1 where m: "copyMoveOnce n se ?p out s = Some (m, s1)"
    using res by (cases "copyMoveOnce n se ?p out s") (auto simp: claim_hop_def)
  have set: "settled V ?p ?t m (ext s1)"
    using copyMoveOnce_settled [OF H rest m] land by simp
  show ?thesis
  proof (cases m)
    case None
    then show ?thesis
      using res m set removeEmptyFolder_place [OF H, of s1 ?t tmp] apart
      by (auto simp: claim_hop_def settled_def told_def at_rest_def)
  next
    case (Some e)
    show ?thesis
    proof (cases "moveOutcomeUnknown e")
      case False
      then have r1: "at_rest V ?p (ext s1)" using set Some by (simp add: settled_def)
      obtain fr s2 where fr: "firstFreeName se out base s1 = (fr, s2)" by (metis surj_pair)
      show ?thesis
        using res m Some False fr parked_told [OF r1] parked_told [OF firstFreeName_rest [OF H r1 fr]]
          firstFreeName_rest [OF H r1 fr]
        by (auto simp: claim_hop_def split: if_splits sum.splits)
    next
      case True
      then have nw: "\<not> worthStaging e"
        by (cases e) (auto simp: worthStaging_def isCollision_def hasCode_def)
      obtain q s2 where q: "statShare se ?p s1 = (q, s2)" by (metis surj_pair)
      have in2: "within V ?p ?t (ext s2)"
        using set Some True statShare_true [OF H q] within_drift by (auto simp: settled_def)
      show ?thesis
      proof (cases "\<exists>b. q = Inr (False, b)")
        case True
        then have "place V (ext s2) = ?t" "going V (ext s2) \<subseteq> {?t}"
          using in2 statShare_true [OF H q] by (auto simp: within_def)
        from arrived_told [OF H this apart(2)] obtain a s3 where
          a: "arrived se ?t cur want s2 = (a, s3)" "told V src out a (ext s3)" "place V (ext s3) = ?t"
            "going V (ext s3) \<subseteq> {?t}" "snd a = None \<longrightarrow> fst a = cur"
          by (metis surj_pair)
        show ?thesis
          using res m Some \<open>moveOutcomeUnknown e\<close> q True a removeEmptyFolder_place [OF H a(3,4) apart(1)]
          by (auto simp: claim_hop_def told_def split: if_splits)
      next
        case False
        then have "r = Some ([], Some (ParkedErr tmp cur e))" "s' = s2"
          using res m Some \<open>moveOutcomeUnknown e\<close> q nw
          by (auto simp: claim_hop_def split: sum.splits prod.splits bool.splits)
        then show ?thesis using in2 by (auto simp: told_def within_def)
      qed
    qed
  qed
qed

lemma claim_loop_told:
  assumes H: "honest (dsm se) V" and tmp: "tmp = out @ ''/'' @ stagingPrefix @ hex"
    and base: "good_name base" and src: "\<forall>q. slash \<notin> set q \<longrightarrow> src \<noteq> out @ ''/'' @ q"
    and rest: "at_rest V (tmp @ ''/'' @ cur) (ext s)" and cur: "good_name cur"
    and res: "claim_loop n tries se tmp base out want cur s = Some (r, s')"
  shows "told V src out r (ext s')"
  using rest cur res
proof (induction tries arbitrary: cur s)
  case 0
  then show ?case by (auto simp: told_def at_rest_def)
next
  case (Suc tries)
  obtain fr s1 where fr: "firstFreeName se out base s = (fr, s1)" by (metis surj_pair)
  have r1: "at_rest V (tmp @ ''/'' @ cur) (ext s1)"
    by (rule firstFreeName_rest [OF H Suc.prems(1) fr])
  show ?case
  proof (cases fr)
    case (Inl e)
    then show ?thesis using Suc.prems(3) fr parked_told [OF r1, of src out cur e] by auto
  next
    case (Inr free)
    then have good: "good_name free"
      using fr firstFreeName_good [OF base] by simp
    obtain re s2 where ren: "(if free \<noteq> cur then rename se (tmp @ ''/'' @ cur) free s1 else (None, s1)) = (re, s2)"
      by (metis surj_pair)
    have "\<exists>q. at_rest V (tmp @ ''/'' @ q) (ext s2) \<and> (re = None \<longrightarrow> q = free)"
    proof (cases "free = cur")
      case False
      then show ?thesis using honest_renameD [OF H r1, of free re s2] ren Suc.prems(2) by (simp add: good_name_def)
    qed (use ren r1 in auto)
    then obtain q where r2: "at_rest V (tmp @ ''/'' @ q) (ext s2)" "re = None \<longrightarrow> q = free" by blast
    show ?thesis
    proof (cases re)
      case (Some e)
      then show ?thesis using Suc.prems(3) fr Inr ren parked_told [OF r2(1), of src out cur e] by auto
    next
      case None
      obtain te s3 where te: "track_ahead se (out @ ''/'' @ free) s2 = (te, s3)" by (metis surj_pair)
      have r3: "at_rest V (tmp @ ''/'' @ free) (ext s3)"
        using at_rest_drift [OF r2(1) track_drift(1) [OF H te]] r2(2) None by simp
      show ?thesis
      proof (cases te)
        case (Some e)
        then show ?thesis using Suc.prems(3) fr Inr ren None te parked_told [OF r3, of src out free e] by auto
      next
        case teN: None
        then obtain hr s4 where h: "claim_hop n se tmp base out want free s3 = Some (hr, s4)"
          using Suc.prems(3) fr Inr ren None te
          by (cases "claim_hop n se tmp base out want free s3") auto
        show ?thesis
          using Suc.prems(3) fr Inr ren None te teN h claim_hop_told [OF H tmp src r3 good h]
            Suc.IH [of free s4] good
          by (cases hr) auto
      qed
    qed
  qed
qed

subsection \<open>The whole move\<close>

text \<open>A task reports an answer or the lack of one, never an outcome of the workflow.\<close>

lemma do_reply_error:
  "do_reply api q = Inl e \<Longrightarrow> (\<exists>y. e = Plain y) \<or> (\<exists>a c ns. e = FsError a c ns)"
  by (cases q) (auto simp: do_reply_def)

lemma poll_task_error:
  "poll_task se api st n delay si s = Some (Some e, s')
    \<Longrightarrow> (\<exists>y. e = Plain y) \<or> (\<exists>a c ns. e = FsError a c ns)"
proof (induction n arbitrary: delay si s)
  case (Suc n)
  obtain q w' where "call api st s = (do_reply api q, s\<lparr>ext := w'\<rparr>)" by (rule call_cases)
  then show ?case
    using Suc do_reply_error [of api q]
    by (auto simp: Let_def split: sum.splits bool.splits if_splits)
qed simp

lemma task_error:
  "copyMoveOnce n se src dest s = Some (Some e, s')
    \<Longrightarrow> (\<exists>y. e = Plain y) \<or> (\<exists>a c ns. e = FsError a c ns) \<or> (\<exists>e'. e = NotStarted e')"
  unfolding copyMoveOnce_def copyMoveTask_def Let_def
  by (auto simp: call_def Let_def dest: poll_task_error do_reply_error split: sum.splits prod.splits if_splits)

lemma stageAndClaim_told:
  assumes H: "honest (dsm se) V" and base: "good_name base" "Base src = base"
    and src: "\<forall>q. slash \<notin> set q \<longrightarrow> src \<noteq> out @ ''/'' @ q" "\<forall>hex. src \<noteq> out @ ''/'' @ stagingPrefix @ hex"
    and rest: "at_rest V src (ext s)"
    and res: "stageAndClaim n se src base out want s = Some (r, s')"
  shows "told V src out r (ext s')"
proof -
  have here: "told V src out ([], Some e) w" if "at_rest V src w" "\<forall>d. e \<noteq> Unsettled d" "\<forall>y. e \<noteq> MovedBut y" for e w
    using that by (cases e) (auto simp: told_def at_rest_def)
  obtain h s1 where h: "random_hex se s = (h, s1)" by (metis surj_pair)
  have r1: "at_rest V src (ext s1)" using at_rest_drift [OF rest random_drift [OF H h]] .
  show ?thesis
  proof (cases h)
    case None
    then show ?thesis using res h here [OF r1] by (auto simp: stageAndClaim_def)
  next
    case (Some hex)
    let ?tmp = "out @ ''/'' @ stagingPrefix @ hex"
    obtain c s2 where c: "createFolder se out (stagingPrefix @ hex) False s1 = (c, s2)" by (metis surj_pair)
    have r2: "at_rest V src (ext s2)" using at_rest_drift [OF r1 createFolder_drift [OF H c]] .
    obtain t s3 where t: "track_staging se ?tmp s2 = (t, s3)" by (metis surj_pair)
    have r3: "at_rest V src (ext s3)" using at_rest_drift [OF r2 track_drift(2) [OF H t]] .
    have rm: "at_rest V src (ext (snd (removeEmptyFolder se ?tmp s)))" if "at_rest V src (ext s)" for s
      using at_rest_drift [OF that removeEmptyFolder_drift [OF H]] that src(2) by (simp add: at_rest_def)
    have call_err: "\<forall>d. e \<noteq> Unsettled d" "\<forall>y. e \<noteq> MovedBut y" if "c = Some e \<or> t = Some e" for e
      using that c t by (auto simp: createFolder_def call_def do_reply_def err_of_def track_staging_def Let_def
          split: prod.splits reply.splits option.splits if_splits)
    show ?thesis
    proof (cases "c = None \<and> t = None")
      case False
      then show ?thesis
        using res h Some c t here [OF r2] here [OF rm [OF r3]] call_err
        by (cases c; cases t) (auto simp: stageAndClaim_def Let_def)
    next
      case True
      obtain m s4 where m: "copyMoveOnce n se src ?tmp s3 = Some (m, s4)"
        using res h Some c t True
        by (cases "copyMoveOnce n se src ?tmp s3") (auto simp: stageAndClaim_def Let_def)
      have set: "settled V src (?tmp @ ''/'' @ base) m (ext s4)"
        using copyMoveOnce_settled [OF H r3 m] base(2) by (simp add: landing_def)
      show ?thesis
      proof (cases m)
        case None
        then have "claim_loop n nameClaimTries se ?tmp base out want base s4 = Some (r, s')"
          using res h Some c t True m by (simp add: stageAndClaim_def Let_def claimFromStaging_def)
        then show ?thesis
          using claim_loop_told [OF H refl base(1) src(1), where hex = hex] set None base(1) by (simp add: settled_def)
      next
        case mm: (Some e)
        obtain q s5 where q: "statShare se (?tmp @ ''/'' @ base) s4 = (q, s5)" by (metis surj_pair)
        have w5: "within V src (?tmp @ ''/'' @ base) (ext s5)"
          using set mm at_rest_within within_drift statShare_true [OF H q]
          by (fastforce simp: settled_def split: if_splits)
        show ?thesis
        proof (cases "\<exists>b. q = Inr (False, b)")
          case True
          have "place V (ext s5) = src" "\<not> moveOutcomeUnknown e \<Longrightarrow> at_rest V src (ext s5)"
            using True w5 statShare_true [OF H q] set mm at_rest_drift
            by (auto simp: within_def settled_def)
          moreover have "r = ([], Some e)" "s' = snd (removeEmptyFolder se ?tmp s5)"
            using res h Some c t \<open>c = None \<and> t = None\<close> m mm q True
            by (auto simp: stageAndClaim_def Let_def)
          moreover have "within V src (?tmp @ ''/'' @ base) (ext (snd (removeEmptyFolder se ?tmp s5)))"
            using within_drift [OF w5 removeEmptyFolder_drift [OF H]] calculation(1) src(2) by simp
          ultimately show ?thesis
            using rm [of s5] task_error [OF m [unfolded mm]]
            by (cases e) (auto simp: told_def within_def at_rest_def)
        next
          case False
          then have "r = ([], Some (ParkedErr ?tmp base e))" "s' = s5"
            using res h Some c t \<open>c = None \<and> t = None\<close> m mm q False
            by (auto simp: stageAndClaim_def Let_def split: sum.splits prod.splits bool.splits)
          then show ?thesis using w5 by (auto simp: told_def within_def)
        qed
      qed
    qed
  qed
qed

lemma statShare_error:
  "statShare se p s = (Inl e, s') \<Longrightarrow> (\<exists>y. e = Plain y) \<or> (\<exists>a c ns. e = FsError a c ns)"
  using do_reply_error
  by (auto simp: statShare_def getInfo_one call_def stat_answer_def Let_def
      split: prod.splits sum.splits if_splits option.splits)

lemma same_folder:
  assumes "list_all proper ws" "proper w" "slash \<notin> set q" "abs_path (ws @ [w]) = out @ ''/'' @ q"
    and "abs_path ws \<noteq> out"
  shows "ws = [] \<and> out = []"
proof (cases "ws = []")
  case True
  then have "slash # w = out @ slash # q" using assms(4) by (simp add: abs_path_def)
  then show ?thesis using True assms(2) last_field [of slash w q "[]" out] assms(3) by (simp add: proper_def)
next
  case False
  then have "abs_path ws @ slash # w = out @ slash # q" using assms(4) by (simp add: abs_path_snoc)
  then show ?thesis using assms(2,3,5) last_field [of slash w q "abs_path ws" out] by (simp add: proper_def)
qed

lemma watch_source_drift:
  "honest (dsm se) V \<Longrightarrow> watch_source n se src dl delay s = Some (r, s')
    \<Longrightarrow> drift V (ext s) (ext s') \<and> (r \<longrightarrow> place V (ext s') \<noteq> src)"
proof (induction n arbitrary: delay s)
  case (Suc n)
  obtain q s1 where q: "statShare se src s = (q, s1)" by (metis surj_pair)
  note st = statShare_true [OF Suc.prems(1) q]
  show ?case
  proof (cases "\<exists>b. q = Inr (False, b)")
    case True
    then show ?thesis using Suc.prems(2) q st by auto
  next
    case False
    then have "Some (r, s') = (if now se s1 > dl then Some (False, s1)
        else watch_source n se src dl (next_delay delay) (sleep se delay s1))"
      using Suc.prems(2) q by (auto split: sum.splits prod.splits bool.splits)
    then show ?thesis
      using Suc.IH [OF Suc.prems(1), of "next_delay delay" "sleep se delay s1"] st
        drift_trans [OF _ drift_trans [OF sleep_drift [OF Suc.prems(1)]]]
      by (auto split: if_splits)
  qed
qed simp

lemma directFailed_told:
  assumes H: "honest (dsm se) V" and base: "slash \<notin> set base" "Base src = base"
    and src: "\<forall>q. slash \<notin> set q \<longrightarrow> src \<noteq> out @ ''/'' @ q"
    and set: "settled V src (out @ ''/'' @ base) (Some e) (ext s)"
    and kind: "(\<exists>y. e = Plain y) \<or> (\<exists>a c ns. e = FsError a c ns) \<or> (\<exists>e'. e = NotStarted e')"
    and res: "directFailed n se src base out want e s = Some (r, s')"
  shows "case r of Some r \<Rightarrow> told V src out r (ext s') | None \<Rightarrow> at_rest V src (ext s')"
proof -
  let ?t = "out @ ''/'' @ base"
  have apart: "src \<noteq> ?t" using src base(1) by blast
  have here: "told V src out ([], Some e') w" if "at_rest V src w" "e' = e \<or> (\<exists>y. e' = Plain y)" for e' w
    using that kind by (auto simp: told_def at_rest_def)
  show ?thesis
  proof (cases "moveOutcomeUnknown e")
    case True
    then have w: "within V src ?t (ext s)" using set by (simp add: settled_def)
    obtain l s1 where l: "sourceLeaves n se src s = Some (l, s1)"
      using res True by (cases "sourceLeaves n se src s") (auto simp: directFailed_def Let_def)
    have d: "drift V (ext s) (ext s1)" "l \<longrightarrow> place V (ext s1) \<noteq> src"
      using watch_source_drift [OF H l [unfolded sourceLeaves_def]] by auto
    note w1 = within_drift [OF w d(1)]
    show ?thesis
    proof (cases l)
      case True
      then have "place V (ext s1) = ?t" "going V (ext s1) \<subseteq> {?t}" using d w1 by (auto simp: within_def)
      from arrived_told [OF H this apart] show ?thesis
        using res \<open>moveOutcomeUnknown e\<close> l True
        by (cases "arrived se ?t base want s1") (auto simp: directFailed_def Let_def)
    next
      case False
      then show ?thesis using res \<open>moveOutcomeUnknown e\<close> l w1
        by (auto simp: directFailed_def Let_def told_def within_def)
    qed
  next
    case False
    then have rest: "at_rest V src (ext s)" using set by (simp add: settled_def)
    obtain q s1 where q: "statShare se ?t s = (q, s1)" by (metis surj_pair)
    have r1: "at_rest V src (ext s1)" using at_rest_drift [OF rest] statShare_true [OF H q] by blast
    obtain q2 s2 where q2: "statShare se src s1 = (q2, s2)" by (metis surj_pair)
    have r2: "at_rest V src (ext s2)" "\<forall>b. q2 \<noteq> Inr (False, b)"
      using at_rest_drift [OF r1] statShare_true [OF H q2] by (auto simp: at_rest_def)
    show ?thesis
      using res False q q2 here [OF rest] here [OF r1] here [OF r2(1)] rest r2
      unfolding directFailed_def Let_def
      by (auto split: if_splits sum.splits bool.splits prod.splits)
  qed
qed


subsection \<open>A small outside world\<close>

text \<open>A world of one entry in which every call answers, or (\<open>lossy\<close>) the answers to starts and
  task lists are lost while File Station carries on; \<open>others\<close> are paths other files hold.\<close>

record mini =
  m_place :: path
  m_going :: "path option"
  m_task :: "(path \<times> path) option"

definition mini_view :: "mini view" where
  "mini_view = \<lparr>place = m_place, going = (\<lambda>w. set_option (m_going w)),
     carrier = (\<lambda>w tid. if tid = ''t'' then m_task w else None)\<rparr>"

definition parent_of :: "path \<Rightarrow> path" where
  "parent_of p = rev (tl (dropWhile (\<lambda>c. c \<noteq> slash) (rev p)))"

definition mini_entry :: fsEntry where
  "mini_entry = \<lparr>FIsDir = False, Code = 0, FSize = 7, Mtime = 100\<rparr>"

definition mini_arrive :: "mini \<Rightarrow> mini" where
  "mini_arrive w = (case m_going w of None \<Rightarrow> w | Some t \<Rightarrow> w\<lparr>m_place := t, m_going := None\<rparr>)"

definition mini_dsm :: "bool \<Rightarrow> path list \<Rightarrow> mini dsm" where
  "mini_dsm lossy others = \<lparr>
     c_getinfo = (\<lambda>ps _ w. (Answer (map (\<lambda>p. (p, mini_entry)) (filter (\<lambda>p. p = m_place w \<or> p \<in> set others) ps)), w)),
     c_list = (\<lambda>_ _ _ w. (NoReply, w)),
     c_cmstart = (\<lambda>src dest _ w. if m_place w \<noteq> src then (NoReply, w)
        else if lossy then (NoReply, w\<lparr>m_going := Some (landing src dest)\<rparr>)
        else (Answer ''t'', w\<lparr>m_task := Some (src, landing src dest)\<rparr>)),
     c_cmstatus = (\<lambda>tid w. case m_task w of
         None \<Rightarrow> (Answer False, w)
       | Some (src, t) \<Rightarrow> if tid = ''t'' \<and> m_place w \<in> {src, t}
                          then (Answer True, w\<lparr>m_place := t, m_going := None\<rparr>) else (Answer False, w)),
     c_tasks = (\<lambda>w. (NoReply, w)),
     c_rename = (\<lambda>p n w. if m_place w = p then (Answer (), w\<lparr>m_place := parent_of p @ ''/'' @ n\<rparr>) else (Answer (), w)),
     c_create = (\<lambda>_ _ _ w. (Answer (), w)),
     c_delete = (\<lambda>_ w. (Denied 900 [], mini_arrive w)),
     c_delstart = (\<lambda>_ w. (NoReply, w)),
     c_delstatus = (\<lambda>_ w. (NoReply, w)),
     o_now = (\<lambda>_. 0), o_sleep = (\<lambda>_ w. w), o_random = (\<lambda>w. (Some ''00'', w)),
     o_jwrite = (\<lambda>w. (WDone, w)), o_hash = (\<lambda>_ _. None), o_fmt = (\<lambda>_. []), o_lower = (\<lambda>r. r)\<rparr>"

lemma mini_honest: "honest (mini_dsm lossy others) mini_view"
proof -
  have "parent_of (dir @ slash # m) = dir" if "slash \<notin> set m" for dir m
    using that dropWhile_no_slash [of m "rev dir"] by (simp add: parent_of_def)
  then have "honest_rename (mini_dsm lossy others) mini_view"
    by (auto simp: honest_rename_def mini_dsm_def mini_view_def)
  moreover have "honest_questions (mini_dsm lossy others) mini_view"
    by (auto simp: honest_questions_def mini_dsm_def mini_view_def drift_def shown_def place_answers_def
        mini_entry_def fs_exists_def)
  moreover have "honest_start (mini_dsm lossy others) mini_view"
    by (auto simp: honest_start_def mini_dsm_def mini_view_def)
  moreover have "honest_status (mini_dsm lossy others) mini_view"
    by (auto simp: honest_status_def mini_dsm_def mini_view_def drift_def split: if_splits)
  moreover have "honest_tasks (mini_dsm lossy others) mini_view"
    by (auto simp: honest_tasks_def mini_dsm_def mini_view_def)
  moreover have "honest_delete (mini_dsm lossy others) mini_view"
    by (auto simp: honest_delete_def mini_dsm_def mini_view_def drift_def mini_arrive_def split: option.splits)
  ultimately show ?thesis by (simp add: honest_def)
qed

definition mini_session :: "bool \<Rightarrow> path list \<Rightarrow> mini fsSession" where
  "mini_session lossy others = \<lparr>dsm = mini_dsm lossy others, shareTab = None, track = None\<rparr>"

definition mini_state :: "mini st" where
  "mini_state = \<lparr>ext = \<lparr>m_place = ''/s/a.txt'', m_going = None, m_task = None\<rparr>,
     jf = \<lparr>j_lines = [], j_cut = False, j_synced = 0\<rparr>\<rparr>"

definition mini_want :: entIdent where
  "mini_want = \<lparr>i_size = 7, i_mod = [], i_modUnix = 100, i_isDir = False, i_pfx = [], i_hash = []\<rparr>"


text \<open>The one outcome that is not told: when the name is taken at the destination and File Station's
  answers about the staging hop are lost while the task carries on, the entry can land in the hidden
  staging folder and the move is reported as a plain connection error, as if nothing had left its
  place; the direct hop reports the same situation as unsettled.\<close>

theorem lost_staging_answer_untold:
  "honest (mini_dsm True [''/o/a.txt'']) mini_view
   \<and> map_option (\<lambda>(r, s'). (r, place mini_view (ext s')))
       (moveViaFS 5 (mini_session True [''/o/a.txt'']) ''/s/a.txt'' ''/o'' mini_want mini_state)
     = Some (([], Some (Plain Unreachable)), ''/o/.dupfinder-tmp-00/a.txt'')"
proof -
  have "map_option (\<lambda>(r, s'). (r, place mini_view (ext s')))
       (moveViaFS 5 (mini_session True [''/o/a.txt'']) ''/s/a.txt'' ''/o'' mini_want mini_state)
     = Some (([], Some (Plain Unreachable)), ''/o/.dupfinder-tmp-00/a.txt'')" by code_simp
  then show ?thesis by (simp add: mini_honest)
qed

end
