(* ===== verification/MoveRules.thy ===== *)
theory MoveRules
  imports MoveOutcome
begin

text \<open>
  A rule for what the move workflow asks File Station to do.  \<open>obeys d S T P\<close> says that every
  call preserves the predicate \<open>P\<close> on states, where the start of a CopyMove task need do so only
  if \<open>S\<close> allows it (given the journal's file), and a rename or removal of a path only if
  \<open>T\<close> allows that path.  A workflow that preserves every such \<open>P\<close> makes only allowed
  requests; the lemmas go through the workflow of \<open>MoveFlow\<close> once, for any \<open>S\<close> and
  \<open>T\<close>.
\<close>

definition obeys ::
  "'w dsm \<Rightarrow> (path \<Rightarrow> path \<Rightarrow> bool \<Rightarrow> jfile \<Rightarrow> bool) \<Rightarrow> (path \<Rightarrow> bool) \<Rightarrow> ('w st \<Rightarrow> bool) \<Rightarrow> bool" where
  "obeys d S T P \<longleftrightarrow>
     (\<forall>s ps b. P s \<longrightarrow> P (s\<lparr>ext := snd (c_getinfo d ps b (ext s))\<rparr>))
     \<and> (\<forall>s id. P s \<longrightarrow> P (s\<lparr>ext := snd (c_cmstatus d id (ext s))\<rparr>))
     \<and> (\<forall>s id. P s \<longrightarrow> P (s\<lparr>ext := snd (c_delstatus d id (ext s))\<rparr>))
     \<and> (\<forall>s. P s \<longrightarrow> P (s\<lparr>ext := snd (c_tasks d (ext s))\<rparr>))
     \<and> (\<forall>s p n. P s \<and> T p \<longrightarrow> P (s\<lparr>ext := snd (c_rename d p n (ext s))\<rparr>))
     \<and> (\<forall>s p n f. P s \<longrightarrow> P (s\<lparr>ext := snd (c_create d p n f (ext s))\<rparr>))
     \<and> (\<forall>s p. P s \<and> T p \<longrightarrow> P (s\<lparr>ext := snd (c_delete d p (ext s))\<rparr>))
     \<and> (\<forall>s p. P s \<and> T p \<longrightarrow> P (s\<lparr>ext := snd (c_delstart d p (ext s))\<rparr>))
     \<and> (\<forall>s x. P s \<longrightarrow> P (s\<lparr>ext := o_sleep d x (ext s)\<rparr>))
     \<and> (\<forall>s. P s \<longrightarrow> P (s\<lparr>ext := snd (o_random d (ext s))\<rparr>))
     \<and> (\<forall>s l. P s \<longrightarrow> P (s\<lparr>ext := snd (o_jwrite d (ext s)), jf := snd (jwrite (fst (o_jwrite d (ext s))) l True (jf s))\<rparr>))
     \<and> (\<forall>s src dest rm. P s \<and> S src dest rm (jf s)
          \<longrightarrow> P (s\<lparr>ext := snd (c_cmstart d src dest rm (ext s))\<rparr>))"

text \<open>A step that keeps \<open>P\<close> and does not touch the journal.\<close>

definition keeps :: "('w st \<Rightarrow> bool) \<Rightarrow> 'w st \<Rightarrow> 'w st \<Rightarrow> bool" where
  "keeps P s s' \<longleftrightarrow> (P s \<longrightarrow> P s') \<and> jf s' = jf s"

lemma keeps_refl [simp]: "keeps P s s"
  by (simp add: keeps_def)

lemma keeps_trans: "keeps P s s1 \<Longrightarrow> keeps P s1 s2 \<Longrightarrow> keeps P s s2"
  by (simp add: keeps_def)

lemma keeps_call: "(\<forall>s. P s \<longrightarrow> P (s\<lparr>ext := snd (f (ext s))\<rparr>)) \<Longrightarrow> call api f s = (r, s') \<Longrightarrow> keeps P s s'"
  by (auto simp: call_def keeps_def Let_def split: prod.splits)

lemma keeps_getinfo:
  assumes "obeys (dsm se) S T P" "getInfo se [p] b s = (r, s')"
  shows "keeps P s s'"
proof -
  obtain q s1 where q: "call ''SYNO.FileStation.List'' (c_getinfo (dsm se) [p] b) s = (q, s1)" by (metis surj_pair)
  then have "s' = s1" using assms(2) by (auto simp: getInfo_def Let_def split: sum.splits)
  then show ?thesis using keeps_call [OF _ q] assms(1) by (simp add: obeys_def)
qed

lemma keeps_stat: "obeys (dsm se) S T P \<Longrightarrow> statShare se p s = (r, s') \<Longrightarrow> keeps P s s'"
  by (cases "getInfo se [p] False s") (auto simp: statShare_def dest: keeps_getinfo)

lemma keeps_free_loop: "obeys (dsm se) S T P \<Longrightarrow> free_loop se folder base n i s = (r, s') \<Longrightarrow> keeps P s s'"
proof (induction n arbitrary: i s)
  case (Suc n)
  obtain q s1 where q: "statShare se (folder @ ''/'' @ candidate base i) s = (q, s1)" by (metis surj_pair)
  show ?case
    using Suc.IH [OF Suc.prems(1), of "i + 1" s1] Suc.prems(2) q keeps_stat [OF Suc.prems(1) q]
    by (auto split: sum.splits prod.splits if_splits intro: keeps_trans)
qed simp

lemma keeps_first_free: "obeys (dsm se) S T P \<Longrightarrow> firstFreeName se folder base s = (r, s') \<Longrightarrow> keeps P s s'"
  unfolding firstFreeName_def by (rule keeps_free_loop)

lemma keeps_sleep: "obeys (dsm se) S T P \<Longrightarrow> keeps P s (sleep se x s)"
  by (simp add: obeys_def keeps_def sleep_def)

lemma keeps_random: "obeys (dsm se) S T P \<Longrightarrow> random_hex se s = (r, s') \<Longrightarrow> keeps P s s'"
  by (auto simp: obeys_def keeps_def random_hex_def Let_def split: prod.splits)

lemma keeps_err_call:
  "(P s \<Longrightarrow> P (s\<lparr>ext := snd (f (ext s))\<rparr>)) \<Longrightarrow> apfst err_of (call api f s) = (r, s') \<Longrightarrow> keeps P s s'"
  by (auto simp: call_def keeps_def Let_def split: prod.splits)

lemma keeps_simple:
  assumes "obeys (dsm se) S T P"
  shows "T p \<Longrightarrow> rename se p n s = (r, s') \<Longrightarrow> keeps P s s'" "createFolder se p n f s = (r, s') \<Longrightarrow> keeps P s s'"
    "T p \<Longrightarrow> keeps P s (snd (removeEmptyFolder se p s))"
  using assms keeps_err_call [where f = "c_rename (dsm se) p n" and s = s]
    keeps_err_call [where f = "c_create (dsm se) p n f" and s = s]
    keeps_err_call [where f = "c_delete (dsm se) p" and s = s, OF _ surjective_pairing]
  by (simp_all add: obeys_def rename_def createFolder_def removeEmptyFolder_def)

lemma keeps_poll:
  "c \<in> {c_cmstatus, c_delstatus} \<Longrightarrow> obeys (dsm se) S T P \<Longrightarrow> poll_task se api (c (dsm se) tid) n delay si s = Some (r, s') \<Longrightarrow> keeps P s s'"
proof (induction n arbitrary: delay si s)
  case (Suc n)
  obtain q s1 where q: "call api (c (dsm se) tid) s = (q, s1)" by (metis surj_pair)
  have k: "keeps P s s1" using keeps_call [OF _ q] Suc.prems(1,2) by (auto simp: obeys_def)
  have "keeps P s s'" if "poll_task se api (c (dsm se) tid) n d2 si2 (sleep se delay s1) = Some (r, s')" for d2 si2
    using Suc.IH [OF Suc.prems(1,2) that] k keeps_sleep [OF Suc.prems(2)] keeps_trans by blast
  then show ?case
    using Suc.prems(3) q k by (auto simp: Let_def split: sum.splits bool.splits if_splits)
qed simp

lemma keeps_watch:
  "obeys (dsm se) S T P \<Longrightarrow> watch_source n se src dl delay s = Some (r, s') \<Longrightarrow> keeps P s s'"
proof (induction n arbitrary: delay s)
  case (Suc n)
  obtain q s1 where q: "statShare se src s = (q, s1)" by (metis surj_pair)
  note k = keeps_stat [OF Suc.prems(1) q]
  have "keeps P s s'" if "watch_source n se src dl d2 (sleep se delay s1) = Some (r, s')" for d2
    using Suc.IH [OF Suc.prems(1) that] k keeps_sleep [OF Suc.prems(1)] keeps_trans by blast
  then show ?case
    using Suc.prems(2) q k by (auto split: sum.splits prod.splits bool.splits if_splits)
qed simp

lemma keeps_arrived: "obeys (dsm se) S T P \<Longrightarrow> arrived se sh name want s = (r, s') \<Longrightarrow> keeps P s s'"
  by (cases "getInfo se [sh] True s") (auto simp: arrived_def dest: keeps_getinfo split: if_splits)

lemma keeps_copy:
  assumes G: "obeys (dsm se) S T P" and a: "S src dest rm (jf s)"
    and res: "copyMoveTask n se src dest rm s = Some (r, s')"
  shows "keeps P s s'"
proof -
  let ?api = "''SYNO.FileStation.CopyMove''"
  obtain q s1 where q: "call ?api (c_cmstart (dsm se) src dest rm) s = (q, s1)" by (metis surj_pair)
  have k: "keeps P s s1"
  proof -
    have "P s \<Longrightarrow> P (s\<lparr>ext := snd (c_cmstart (dsm se) src dest rm (ext s))\<rparr>)"
      using G a unfolding obeys_def by blast
    then show ?thesis using q by (auto simp: keeps_def call_def split: prod.splits)
  qed
  obtain x s2 where x: "findCopyMoveTask se src dest rm (now se s) s1 = (x, s2)" by (metis surj_pair)
  have k2: "keeps P s1 s2"
  proof -
    obtain y s3 where y: "call ''SYNO.FileStation.BackgroundTask'' (c_tasks (dsm se)) s1 = (y, s3)" by (metis surj_pair)
    then have "s2 = s3" using x by (auto simp: findCopyMoveTask_def split: sum.splits)
    then show ?thesis using keeps_call [OF _ y] G by (simp add: obeys_def)
  qed
  show ?thesis
    using res q k x k2 keeps_poll [where c = c_cmstatus, OF _ G] keeps_trans [OF k] keeps_trans [OF keeps_trans [OF k k2]]
    by (auto simp: copyMoveTask_def Let_def split: sum.splits prod.splits if_splits)
qed

lemma track_fails_keeps:
  assumes "obeys (dsm se) S T P" "P s"
  shows "track_ahead se p s = (r, s') \<Longrightarrow> P s'" "track_staging se p s = (r, s') \<Longrightarrow> P s'"
    "P (track_placed se p s)"
proof -
  have "P (s\<lparr>ext := w, jf := f\<rparr>)" if "o_jwrite (dsm se) (ext s) = (o', w)" "jwrite o' l True (jf s) = (b, f)" for o' w l b f
    using assms that unfolding obeys_def by (metis fst_conv snd_conv)
  then show "track_ahead se p s = (r, s') \<Longrightarrow> P s'" "track_staging se p s = (r, s') \<Longrightarrow> P s'"
    "P (track_placed se p s)"
    using assms(2) by (auto simp: track_ahead_def track_staging_def track_placed_def track_write_def Let_def
        split: prod.splits if_splits option.splits)
qed

subsection \<open>The workflow\<close>

lemma keeps_hop:
  assumes G: "obeys (dsm se) S T P" and a: "S (tmp @ ''/'' @ cur) out True (jf s)" and T: "T tmp"
    and res: "claim_hop n se tmp base out want cur s = Some (r, s')"
  shows "keeps P s s'"
proof -
  obtain m s1 where m: "copyMoveOnce n se (tmp @ ''/'' @ cur) out s = Some (m, s1)"
    using res by (cases "copyMoveOnce n se (tmp @ ''/'' @ cur) out s") (auto simp: claim_hop_def)
  have k1: "keeps P s s1" using keeps_copy [OF G a] m by (simp add: copyMoveOnce_def)
  obtain q s2 where q: "statShare se (tmp @ ''/'' @ cur) s1 = (q, s2)" by (metis surj_pair)
  note k2 = keeps_trans [OF k1 keeps_stat [OF G q]]
  obtain ar s3 where ar: "arrived se (out @ ''/'' @ cur) cur want s2 = (ar, s3)" by (metis surj_pair)
  note k3 = keeps_trans [OF k2 keeps_arrived [OF G ar]]
  obtain f s4 where f: "firstFreeName se out base s1 = (f, s4)" by (metis surj_pair)
  note k4 = keeps_trans [OF k1 keeps_first_free [OF G f]]
  obtain f' s5 where f': "firstFreeName se out base s2 = (f', s5)" by (metis surj_pair)
  note k5 = keeps_trans [OF k2 keeps_first_free [OF G f']]
  note rm = keeps_trans [OF _ keeps_simple(3) [OF G, of tmp, OF T]]
  show ?thesis
    using res m q ar f f' k1 k2 k3 k4 k5 rm [OF k1] rm [OF k3]
    by (auto simp: claim_hop_def Let_def split: option.splits if_splits sum.splits prod.splits bool.splits)
qed

lemma claim_keeps:
  assumes G: "obeys (dsm se) S T P" and T: "T tmp" "\<And>c. T (tmp @ ''/'' @ c)" and base: "good_name base"
    and ahead: "\<And>c s s'. good_name c \<Longrightarrow> P s \<Longrightarrow> \<not> j_cut (jf s)
      \<Longrightarrow> track_ahead se (out @ ''/'' @ c) s = (None, s')
      \<Longrightarrow> P s' \<and> S (tmp @ ''/'' @ c) out True (jf s') \<and> \<not> j_cut (jf s')"
  shows "P s \<Longrightarrow> \<not> j_cut (jf s) \<Longrightarrow> claim_loop n tries se tmp base out want cur s = Some (r, s') \<Longrightarrow> P s'"
proof (induction tries arbitrary: cur s)
  case (Suc tries)
  obtain fr s1 where fr: "firstFreeName se out base s = (fr, s1)" by (metis surj_pair)
  have k1: "keeps P s s1" by (rule keeps_first_free [OF G fr])
  show ?case
  proof (cases fr)
    case (Inr free)
    then have good: "good_name free" using fr firstFreeName_good [OF base] by simp
    obtain re s2 where ren: "(if free \<noteq> cur then rename se (tmp @ ''/'' @ cur) free s1 else (None, s1)) = (re, s2)"
      by (metis surj_pair)
    then have k2: "keeps P s s2"
      using k1 keeps_trans [OF k1 keeps_simple(1) [OF G T(2)]] by (cases "free = cur") auto
    obtain te s3 where te: "track_ahead se (out @ ''/'' @ free) s2 = (te, s3)" by (metis surj_pair)
    have P2: "P s2" "\<not> j_cut (jf s2)" using k2 Suc.prems by (auto simp: keeps_def)
    show ?thesis
    proof (cases "re = None \<and> te = None")
      case True
      have a: "P s3 \<and> S (tmp @ ''/'' @ free) out True (jf s3) \<and> \<not> j_cut (jf s3)"
        using ahead [OF good P2] te True by simp
      obtain hr s4 where h: "claim_hop n se tmp base out want free s3 = Some (hr, s4)"
        using Suc.prems(3) fr Inr ren te True
        by (cases "claim_hop n se tmp base out want free s3") auto
      have "P s4" "\<not> j_cut (jf s4)" using keeps_hop [OF G _ T(1) h] a by (auto simp: keeps_def)
      then show ?thesis
        using Suc.prems(3) fr Inr ren te True h Suc.IH [of s4 free] by (cases hr) auto
    next
      case False
      then show ?thesis
        using Suc.prems(3) fr Inr ren te P2(1) track_fails_keeps(1) [OF G P2(1) te]
        by (cases re; cases te) auto
    qed
  qed (use Suc.prems fr k1 in \<open>auto simp: keeps_def\<close>)
qed simp

lemma keeps_direct:
  assumes G: "obeys (dsm se) S T P" and res: "directFailed n se src base out want e s = Some (r, s')"
  shows "keeps P s s'"
proof -
  let ?t = "out @ ''/'' @ base"
  obtain q s1 where q: "statShare se ?t s = (q, s1)" by (metis surj_pair)
  note k1 = keeps_stat [OF G q]
  obtain q2 s2 where q2: "statShare se src s1 = (q2, s2)" by (metis surj_pair)
  note k2 = keeps_trans [OF k1 keeps_stat [OF G q2]]
  have ar: "keeps P s (snd (arrived se ?t base want x))" if "keeps P s x" for x
    using keeps_trans [OF that keeps_arrived [OF G]] by (metis surj_pair snd_conv)
  show ?thesis
  proof (cases "moveOutcomeUnknown e")
    case True
    obtain l x where l: "sourceLeaves n se src s = Some (l, x)"
      using res True by (cases "sourceLeaves n se src s") (auto simp: directFailed_def Let_def)
    have "keeps P s x" using keeps_watch [OF G] l by (auto simp: sourceLeaves_def)
    then show ?thesis
      using res True l ar [of x] by (cases "arrived se ?t base want x") (auto simp: directFailed_def Let_def split: if_splits)
  next
    case False
    then show ?thesis
      using res q q2 k1 k2 ar [OF k2]
      by (cases "arrived se ?t base want s2")
        (auto simp: directFailed_def Let_def split: if_splits sum.splits prod.splits bool.splits)
  qed
qed

end
