(* ===== verification/MoveJournal.thy ===== *)
theory MoveJournal
  imports MoveRules
begin

text \<open>
  The write-ahead rule of \<open>server/journal.go\<close> on the move workflow, and its time bounds: no
  CopyMove task starts before its announcement is flushed (an instance of \<open>MoveRules\<close>), and the
  loops that wait for a lost answer end.
\<close>

subsection \<open>Announcements\<close>

definition announced :: "fileTrack \<Rightarrow> jfile \<Rightarrow> path \<Rightarrow> path \<Rightarrow> bool" where
  "announced t f src dest \<longleftrightarrow>
     (\<exists>i l. i < j_synced f \<and> i < length (j_lines f) \<and> j_lines f ! i = Some l
        \<and> (J_Ahead l = track_path t (dest @ ''/'' @ Base src) \<and> J_From l = [t_cp t, t_src t]
           \<or> J_Staging l = track_path t dest))"

definition guards :: "'w dsm \<Rightarrow> fileTrack \<Rightarrow> ('w st \<Rightarrow> bool) \<Rightarrow> bool" where
  "guards d t P \<longleftrightarrow> obeys d (\<lambda>src dest rm f. announced t f src dest) (\<lambda>_. True) P"

text \<open>A journal write that went through announces what it says, when no line was cut before it.\<close>

lemma track_ahead_announces:
  assumes G: "guards (dsm se) t P" "track se = Some t" "t_journal t" "\<not> j_cut (jf s)" "P s"
    and "track_ahead se (dest @ ''/'' @ Base src) s = (None, s')"
  shows "P s' \<and> announced t (jf s') src dest \<and> \<not> j_cut (jf s')"
proof -
  let ?l = "zero_line\<lparr>J_Ahead := track_path t (dest @ ''/'' @ Base src), J_From := [t_cp t, t_src t],
      J_Where := dest @ ''/'' @ Base src\<rparr>"
  obtain o' w where o: "o_jwrite (dsm se) (ext s) = (o', w)" by (metis surj_pair)
  have s': "s' = s\<lparr>ext := w, jf := snd (jwrite o' ?l True (jf s))\<rparr>" and ok: "o' = WDone"
    using assms(2,3,6) o by (auto simp: track_ahead_def track_write_def jwrite_def Let_def
        split: prod.splits if_splits wout.splits)
  have "P s'" using G(1) assms(5) o unfolding s' guards_def obeys_def by (metis fst_conv snd_conv)
  moreover have "announced t (jf s') src dest"
    unfolding announced_def s' ok using assms(4)
    by (intro exI [of _ "length (j_lines (jf s))"] exI [of _ ?l]) (simp add: jwrite_def Let_def)
  ultimately show ?thesis by (simp add: s' ok jwrite_def Let_def)
qed

lemma track_staging_announces:
  assumes G: "guards (dsm se) t P" "track se = Some t" "t_journal t" "\<not> j_cut (jf s)" "P s"
    and "track_staging se dest s = (None, s')"
  shows "P s' \<and> announced t (jf s') src dest \<and> \<not> j_cut (jf s')"
proof -
  let ?l = "zero_line\<lparr>J_Staging := track_path t dest, J_Where := dest\<rparr>"
  obtain o' w where o: "o_jwrite (dsm se) (ext s) = (o', w)" by (metis surj_pair)
  have s': "s' = s\<lparr>ext := w, jf := snd (jwrite o' ?l True (jf s))\<rparr>" and ok: "o' = WDone"
    using assms(2,3,6) o by (auto simp: track_staging_def track_write_def jwrite_def Let_def
        split: prod.splits if_splits wout.splits)
  have "P s'" using G(1) assms(5) o unfolding s' guards_def obeys_def by (metis fst_conv snd_conv)
  moreover have "announced t (jf s') src dest"
    unfolding announced_def s' ok using assms(4)
    by (intro exI [of _ "length (j_lines (jf s))"] exI [of _ ?l]) (simp add: jwrite_def Let_def)
  ultimately show ?thesis by (simp add: s' ok jwrite_def Let_def)
qed

subsection \<open>No task starts unannounced\<close>

lemma stage_keeps:
  assumes G: "guards (dsm se) t P" "track se = Some t" "t_journal t" and base: "good_name base"
    and s: "P s" "\<not> j_cut (jf s)" and res: "stageAndClaim n se src base out want s = Some (r, s')"
  shows "P s'"
proof -
  note O = G(1) [unfolded guards_def]
  obtain h s1 where h: "random_hex se s = (h, s1)" by (metis surj_pair)
  note k1 = keeps_random [OF O h]
  show ?thesis
  proof (cases h)
    case None
    then show ?thesis using res h k1 s by (auto simp: stageAndClaim_def keeps_def)
  next
    case (Some hex)
    let ?tmp = "out @ ''/'' @ stagingPrefix @ hex"
    obtain c s2 where c: "createFolder se out (stagingPrefix @ hex) False s1 = (c, s2)" by (metis surj_pair)
    have P2: "P s2" "\<not> j_cut (jf s2)"
      using keeps_trans [OF k1 keeps_simple(2) [OF O c]] s by (auto simp: keeps_def)
    obtain ts s3 where ts: "track_staging se ?tmp s2 = (ts, s3)" by (metis surj_pair)
    have rm: "P s3 \<Longrightarrow> P (snd (removeEmptyFolder se ?tmp s3))" for s3
      using keeps_simple(3) [OF O] by (simp add: keeps_def)
    show ?thesis
    proof (cases "c = None \<and> ts = None")
      case False
      then show ?thesis
        using res h Some c ts P2 track_fails_keeps(2) [OF O P2(1) ts] rm
        by (cases c; cases ts) (auto simp: stageAndClaim_def Let_def)
    next
      case True
      have a: "P s3 \<and> announced t (jf s3) src ?tmp \<and> \<not> j_cut (jf s3)"
        using track_staging_announces [OF G P2(2,1)] ts True by blast
      obtain m s4 where m: "copyMoveOnce n se src ?tmp s3 = Some (m, s4)"
        using res h Some c ts True
        by (cases "copyMoveOnce n se src ?tmp s3") (auto simp: stageAndClaim_def Let_def)
      have ahead: "P s' \<and> announced t (jf s') (?tmp @ ''/'' @ cu) out \<and> \<not> j_cut (jf s')"
        if "good_name cu" "P s" "\<not> j_cut (jf s)" "track_ahead se (out @ ''/'' @ cu) s = (None, s')" for cu s s'
        using track_ahead_announces [OF G that(3,2), of out "?tmp @ ''/'' @ cu" s'] that(4)
          Base_snoc [of cu ?tmp] that(1) by (simp add: good_name_def)
      have P4: "P s4" "\<not> j_cut (jf s4)"
        using keeps_copy [OF O] a m by (auto simp: copyMoveOnce_def keeps_def)
      obtain q s5 where q: "statShare se (?tmp @ ''/'' @ base) s4 = (q, s5)" by (metis surj_pair)
      have "P s5" using keeps_stat [OF O q] P4 by (simp add: keeps_def)
      moreover have "P s'" if "claimFromStaging n se ?tmp base out want s4 = Some (r, s')"
        by (rule claim_keeps [OF O TrueI TrueI base ahead P4 that [unfolded claimFromStaging_def]])
      ultimately show ?thesis
        using res h Some c ts True m q rm [of s5]
        by (auto simp: stageAndClaim_def Let_def split: option.splits sum.splits prod.splits bool.splits)
    qed
  qed
qed

text \<open>C9. Write-ahead: a move starts no CopyMove task before the journal holds, flushed to disk, the line
  that announces where the task puts the entry and where the entry comes from. Whatever predicate the
  calls preserve, with task starts preserving it only when so announced, the whole workflow preserves.\<close>

theorem no_move_unannounced:
  assumes "guards (dsm se) t P" "track se = Some t" "t_journal t" "good_name (Base src)"
    and "P s" "\<not> j_cut (jf s)" "moveViaFS n se src out want s = Some (r, s')"
  shows "P s'"
proof -
  let ?b = "Base src"
  note O = assms(1) [unfolded guards_def]
  obtain q s1 where q: "statShare se (out @ ''/'' @ ?b) s = (q, s1)" by (metis surj_pair)
  have P1: "P s1" "\<not> j_cut (jf s1)" using keeps_stat [OF O q] assms(5,6) by (auto simp: keeps_def)
  obtain ta s2 where ta: "track_ahead se (out @ ''/'' @ ?b) s1 = (ta, s2)" by (metis surj_pair)
  consider "\<exists>e. q = Inl e" | "\<exists>b. q = Inr (True, b)" | "\<exists>b. q = Inr (False, b)"
    by (metis (full_types) sum.exhaust surj_pair)
  then show ?thesis
  proof cases
    case 3
    show ?thesis
    proof (cases ta)
      case (Some e)
      then show ?thesis
        using assms(7) q 3 ta track_fails_keeps(1) [OF O P1(1) ta] by (auto simp: moveViaFS_def Let_def)
    next
      case None
      have a: "P s2 \<and> announced t (jf s2) src out \<and> \<not> j_cut (jf s2)"
        using track_ahead_announces [OF assms(1-3) P1(2,1)] ta None by blast
      obtain m s3 where m: "copyMoveOnce n se src out s2 = Some (m, s3)"
        using assms(7) q 3 ta None by (cases "copyMoveOnce n se src out s2") (auto simp: moveViaFS_def Let_def)
      have P3: "P s3" "\<not> j_cut (jf s3)"
        using keeps_copy [OF O] a m by (auto simp: copyMoveOnce_def keeps_def)
      show ?thesis
      proof (cases m)
        case mN: None
        then show ?thesis using assms(7) q 3 ta None m P3 by (auto simp: moveViaFS_def Let_def)
      next
        case mS: (Some e)
        obtain dr s4 where dr: "directFailed n se src ?b out want e s3 = Some (dr, s4)"
          using assms(7) q 3 ta None m mS
          by (cases "directFailed n se src ?b out want e s3") (auto simp: moveViaFS_def Let_def)
        have "keeps P s3 s4" by (rule keeps_direct [OF O dr])
        then have P4: "P s4" "\<not> j_cut (jf s4)" using P3 by (auto simp: keeps_def)
        then show ?thesis
          using assms(7) q 3 ta None m mS dr stage_keeps [OF assms(1-4) P4, where r = r and s' = s']
          by (cases dr) (auto simp: moveViaFS_def Let_def)
      qed
    qed
  qed (use assms(7) q P1 stage_keeps [OF assms(1-4) P1, where r = r and s' = s'] in \<open>auto simp: moveViaFS_def Let_def\<close>)
qed

text \<open>An outside world that remembers which tasks it was asked to start.\<close>

definition log_dsm :: "(path \<times> path) list dsm" where
  "log_dsm = \<lparr>c_getinfo = (\<lambda>_ _ w. (Answer [], w)), c_list = (\<lambda>_ _ _ w. (NoReply, w)),
     c_cmstart = (\<lambda>src dest _ w. (Answer ''t'', (src, dest) # w)), c_cmstatus = (\<lambda>_ w. (Answer True, w)),
     c_tasks = (\<lambda>w. (NoReply, w)), c_rename = (\<lambda>_ _ w. (Answer (), w)), c_create = (\<lambda>_ _ _ w. (Answer (), w)),
     c_delete = (\<lambda>_ w. (Answer (), w)), c_delstart = (\<lambda>_ w. (NoReply, w)), c_delstatus = (\<lambda>_ w. (NoReply, w)),
     o_now = (\<lambda>_. 0), o_sleep = (\<lambda>_ w. w), o_random = (\<lambda>w. (Some ''00'', w)),
     o_jwrite = (\<lambda>w. (WDone, w)), o_hash = (\<lambda>_ _. None), o_fmt = (\<lambda>_. []), o_lower = (\<lambda>r. r)\<rparr>"

definition log_track :: fileTrack where
  "log_track = \<lparr>t_journal = True, t_src = ''/volume1/s/a'', t_cp = ''/volume1/s/a'', t_destShare = ''/o'', t_destCanon = ''/volume1/o''\<rparr>"

definition all_announced :: "(path \<times> path) list st \<Rightarrow> bool" where
  "all_announced s \<longleftrightarrow> (\<forall>(src, dest) \<in> set (ext s). announced log_track (jf s) src dest)"

lemma announced_write: "announced t f src dest \<Longrightarrow> announced t (snd (jwrite o' l True f)) src dest"
proof -
  assume "announced t f src dest"
  then obtain i ln where i: "i < j_synced f" "i < length (j_lines f)" "j_lines f ! i = Some ln"
    "J_Ahead ln = track_path t (dest @ ''/'' @ Base src) \<and> J_From ln = [t_cp t, t_src t]
     \<or> J_Staging ln = track_path t dest" by (auto simp: announced_def)
  have "i < j_synced (snd (jwrite o' l True f)) \<and> i < length (j_lines (snd (jwrite o' l True f)))
    \<and> j_lines (snd (jwrite o' l True f)) ! i = Some ln"
    using i(1-3) by (cases o') (simp_all add: jwrite_def Let_def nth_append)
  then show ?thesis using i(4) unfolding announced_def by blast
qed

lemma log_guards: "guards log_dsm log_track all_announced"
  by (auto simp: guards_def obeys_def log_dsm_def all_announced_def intro: announced_write)

theorem no_move_unannounced_witness:
  "\<exists>s'. map_option snd (moveViaFS 3 \<lparr>dsm = log_dsm, shareTab = None, track = Some log_track\<rparr> ''/s/a'' ''/o'' mini_want
       \<lparr>ext = [], jf = \<lparr>j_lines = [], j_cut = False, j_synced = 0\<rparr>\<rparr>) = Some s'
     \<and> ext s' = [(''/s/a'', ''/o'')] \<and> all_announced s'"
proof -
  let ?se = "\<lparr>dsm = log_dsm, shareTab = None, track = Some log_track\<rparr>"
  let ?s = "\<lparr>ext = [], jf = \<lparr>j_lines = [], j_cut = False, j_synced = 0\<rparr>\<rparr>"
  have "map_option (\<lambda>(r, s'). ext s') (moveViaFS 3 ?se ''/s/a'' ''/o'' mini_want ?s) = Some [(''/s/a'', ''/o'')]"
    by code_simp
  then obtain r s' where m: "moveViaFS 3 ?se ''/s/a'' ''/o'' mini_want ?s = Some (r, s')" "ext s' = [(''/s/a'', ''/o'')]"
    by auto
  have g: "good_name (Base ''/s/a'')" by code_simp
  have "all_announced s'"
    by (rule no_move_unannounced [where t = log_track, OF _ _ _ g _ _ m(1)])
      (simp add: log_guards, simp, simp add: log_track_def, simp_all add: all_announced_def)
  then show ?thesis using m by simp
qed

subsection \<open>Waiting ends\<close>

text \<open>The clock: no call sets it back, and a sleep lasts at least as long as asked.\<close>

definition clock_runs :: "'w dsm \<Rightarrow> bool" where
  "clock_runs d \<longleftrightarrow> (\<forall>w t. o_now d w + t \<le> o_now d (o_sleep d t w))
     \<and> (\<forall>w ps b. o_now d w \<le> o_now d (snd (c_getinfo d ps b w)))
     \<and> (\<forall>w id. o_now d w \<le> o_now d (snd (c_cmstatus d id w)))"

lemma clock_stat: "clock_runs (dsm se) \<Longrightarrow> statShare se p s = (r, s') \<Longrightarrow> now se s \<le> now se s'"
  by (auto simp: clock_runs_def now_def statShare_def getInfo_one call_def Let_def
      split: prod.splits sum.splits) (metis snd_conv)+

lemma watch_source_ends:
  "clock_runs (dsm se) \<Longrightarrow> 200 \<le> delay \<Longrightarrow> dl - now se s < 200 * int n
    \<Longrightarrow> \<exists>r s'. watch_source (Suc n) se src dl delay s = Some (r, s')"
proof (induction n arbitrary: delay s)
  case 0
  obtain q s1 where q: "statShare se src s = (q, s1)" by (metis surj_pair)
  have "now se s \<le> now se s1" by (rule clock_stat [OF 0(1) q])
  then show ?case using 0 q by (cases "\<exists>b. q = Inr (False, b)") (auto split: sum.splits prod.splits bool.splits)
next
  case (Suc n)
  obtain q s1 where q: "statShare se src s = (q, s1)" by (metis surj_pair)
  have "now se s \<le> now se s1" by (rule clock_stat [OF Suc.prems(1) q])
  moreover have "now se s1 + delay \<le> now se (sleep se delay s1)"
    using Suc.prems(1) by (simp add: clock_runs_def now_def sleep_def)
  ultimately have "\<exists>r s'. watch_source (Suc n) se src dl (next_delay delay) (sleep se delay s1) = Some (r, s')"
    using Suc.prems by (intro Suc.IH) (auto simp: next_delay_def)
  then show ?case
    using q by (subst watch_source.simps) (auto split: sum.splits prod.splits bool.splits simp del: watch_source.simps)
qed

lemma poll_silent_ends:
  assumes c: "clock_runs (dsm se)"
    and silent: "\<forall>w. fst (c_cmstatus (dsm se) tid w) \<in> {NoReply, Garbled}"
  shows "200 \<le> delay \<Longrightarrow> since + statusGiveUp - now se s < 200 * int n \<Longrightarrow>
    \<exists>e s'. poll_task se api (c_cmstatus (dsm se) tid) (Suc n) delay (Some since) s = Some (Some e, s')
      \<and> moveOutcomeUnknown e \<and> now se s' - since \<ge> statusGiveUp"
proof (induction n arbitrary: delay s)
  case 0
  obtain q w' where q: "c_cmstatus (dsm se) tid (ext s) = (q, w')"
    "call api (c_cmstatus (dsm se) tid) s = (do_reply api q, s\<lparr>ext := w'\<rparr>)" by (rule call_cases)
  have "q \<in> {NoReply, Garbled}" using silent q(1) by (metis fst_conv)
  moreover have "now se s \<le> now se (s\<lparr>ext := w'\<rparr>)"
    using c q(1) unfolding clock_runs_def now_def by simp (metis snd_conv)
  ultimately show ?case using 0 q by (auto simp: do_reply_def Let_def)
next
  case (Suc n)
  obtain q w' where q: "c_cmstatus (dsm se) tid (ext s) = (q, w')"
    "call api (c_cmstatus (dsm se) tid) s = (do_reply api q, s\<lparr>ext := w'\<rparr>)" by (rule call_cases)
  have qs: "q \<in> {NoReply, Garbled}" using silent q(1) by (metis fst_conv)
  have n1: "now se s \<le> now se (s\<lparr>ext := w'\<rparr>)"
    using c q(1) unfolding clock_runs_def now_def by simp (metis snd_conv)
  let ?s2 = "sleep se delay (s\<lparr>ext := w'\<rparr>)"
  have "now se (s\<lparr>ext := w'\<rparr>) + delay \<le> now se ?s2"
    using c by (simp add: clock_runs_def now_def sleep_def)
  then have "\<exists>e s'. poll_task se api (c_cmstatus (dsm se) tid) (Suc n) (next_delay delay) (Some since) ?s2 = Some (Some e, s')
      \<and> moveOutcomeUnknown e \<and> now se s' - since \<ge> statusGiveUp"
    using Suc.prems n1 by (intro Suc.IH) (auto simp: next_delay_def)
  then show ?case
    using q qs by (subst poll_task.simps) (auto simp: do_reply_def Let_def simp del: poll_task.simps)
qed

text \<open>C15. Waiting for a lost answer ends: with a clock that runs, watching the source of a move whose answer
  was lost returns within 602 rounds, and a task whose status requests all stay unanswered is given up
  with the error of a lost answer, after at least two minutes of silence and within 602 rounds.\<close>

theorem lost_answers_end:
  assumes "clock_runs (dsm se)"
  shows "(\<exists>r s'. sourceLeaves 602 se src s = Some (r, s'))
    \<and> ((\<forall>w. fst (c_cmstatus (dsm se) tid w) \<in> {NoReply, Garbled}) \<longrightarrow>
        (\<exists>e s'. poll_task se api (c_cmstatus (dsm se) tid) 602 200 (Some (now se s)) s = Some (Some e, s')
           \<and> moveOutcomeUnknown e \<and> now se s' - now se s \<ge> statusGiveUp))"
  using watch_source_ends [OF assms, of 200 "now se s + statusGiveUp" s 601 src]
    poll_silent_ends [OF assms, of tid 200 "now se s" s 601 api]
  by (simp add: sourceLeaves_def statusGiveUp_def del: watch_source.simps poll_task.simps)

definition clock_dsm :: "int dsm" where
  "clock_dsm = \<lparr>c_getinfo = (\<lambda>_ _ w. (NoReply, w)), c_list = (\<lambda>_ _ _ w. (NoReply, w)),
     c_cmstart = (\<lambda>_ _ _ w. (NoReply, w)), c_cmstatus = (\<lambda>_ w. (NoReply, w + 5)),
     c_tasks = (\<lambda>w. (NoReply, w)), c_rename = (\<lambda>_ _ w. (NoReply, w)), c_create = (\<lambda>_ _ _ w. (NoReply, w)),
     c_delete = (\<lambda>_ w. (NoReply, w)), c_delstart = (\<lambda>_ w. (NoReply, w)), c_delstatus = (\<lambda>_ w. (NoReply, w)),
     o_now = (\<lambda>w. w), o_sleep = (\<lambda>x w. w + x), o_random = (\<lambda>w. (None, w)),
     o_jwrite = (\<lambda>w. (WDone, w)), o_hash = (\<lambda>_ _. None), o_fmt = (\<lambda>_. []), o_lower = (\<lambda>r. r)\<rparr>"

theorem lost_answers_end_witness:
  "\<exists>r s'. sourceLeaves 602 \<lparr>dsm = clock_dsm, shareTab = None, track = None\<rparr> ''/s/a''
     \<lparr>ext = 0, jf = \<lparr>j_lines = [], j_cut = False, j_synced = 0\<rparr>\<rparr> = Some (r, s')"
proof -
  have "clock_runs clock_dsm" by (simp add: clock_runs_def clock_dsm_def)
  then show ?thesis
    using lost_answers_end [of "\<lparr>dsm = clock_dsm, shareTab = None, track = None\<rparr>"] by simp
qed

end
