(* ===== verification/Transit.thy ===== *)
theory Transit
  imports MoveFlow "HOL-Library.AList"
begin

text \<open>
  \<open>server/transit.go\<close>: verified moves between file systems, which copy, prove the copy, put
  it in place and only then retire the original; with the folder manifests they compare.  The local
  disk is the record \<open>'w osys\<close> over the same outside world as File Station.
\<close>

subsection \<open>The local disk\<close>

record 'w osys =
  os_dirents :: "path \<Rightarrow> 'w \<Rightarrow> ((gostring \<times> bool) list \<times> bool) option"
  os_lstat :: "path \<Rightarrow> 'w \<Rightarrow> finfo option"
  os_stat :: "path \<Rightarrow> 'w \<Rightarrow> finfo option"
  os_readlink :: "path \<Rightarrow> 'w \<Rightarrow> path option"
  os_vols :: "path list"
  os_walk :: "path \<Rightarrow> 'w \<Rightarrow> (path \<times> ftype \<times> finfo option) list"
  os_canon :: "path \<Rightarrow> 'w \<Rightarrow> path option"
  os_prefix :: "path \<Rightarrow> 'w \<Rightarrow> string option"
  os_stopping :: "'w \<Rightarrow> bool"

text \<open>\<open>os_dirents\<close> lists a directory's entries (name, is a folder) and whether the listing
  was read to its end; \<open>os_canon\<close> opens a folder and gives its canonical path;
  \<open>os_prefix\<close> is the hash of a file's first 64 KiB.\<close>

definition verifyRead :: "'w fsSession \<Rightarrow> path \<Rightarrow> 'w st \<Rightarrow> string option" where
  "verifyRead se p s = o_hash (dsm se) p (ext s)"

definition crossesFS :: "'w osys \<Rightarrow> path \<Rightarrow> path \<Rightarrow> 'w st \<Rightarrow> bool" where
  "crossesFS os srcDir destDir s =
     (if volumeOf srcDir (os_vols os) \<noteq> volumeOf destDir (os_vols os) then True
      else case os_stat os srcDir (ext s) of
          None \<Rightarrow> True
        | Some a \<Rightarrow>
            (case os_stat os destDir (ext s) of
               None \<Rightarrow> True
             | Some b \<Rightarrow> dev (linkOf a) \<noteq> dev (linkOf b)))"

subsection \<open>Manifests\<close>

record manEnt =
  me_typ :: ftype
  me_size :: int
  me_mtime :: int
  me_hash :: string
  me_link :: path

type_synonym manifest = "(gostring \<times> manEnt) list"

record transitRef =
  ref_isDir :: bool
  ref_hash :: string
  ref_man :: manifest

definition man_entry :: "'w fsSession \<Rightarrow> 'w osys \<Rightarrow> path \<Rightarrow> bool \<Rightarrow> 'w st \<Rightarrow> manifest_why + manEnt" where
  "man_entry se os p hashed s =
     (case os_lstat os p (ext s) of
        None \<Rightarrow> Inl ManifestRead
      | Some fi \<Rightarrow>
          (let me = \<lparr>me_typ = fi_type fi, me_size = fi_size fi, me_mtime = fi_mtime fi, me_hash = [], me_link = []\<rparr> in
           if fi_type fi = Directory then Inl ManifestFolder
           else if fi_type fi = Regular \<and> hashed then
             (case verifyRead se p s of None \<Rightarrow> Inl ManifestRead | Some h \<Rightarrow> Inr (me\<lparr>me_hash := h\<rparr>))
           else if fi_type fi = Symlink then
             (case os_readlink os p (ext s) of None \<Rightarrow> Inl ManifestRead | Some l \<Rightarrow> Inr (me\<lparr>me_link := l\<rparr>))
           else Inr me))"

fun man_loop ::
  "'w fsSession \<Rightarrow> 'w osys \<Rightarrow> path \<Rightarrow> bool \<Rightarrow> 'w st \<Rightarrow> gostring list \<Rightarrow> manifest \<Rightarrow> manifest_why + manifest" where
  "man_loop se os dir hashed s [] m = Inr m"
| "man_loop se os dir hashed s (n # ns) m =
     (if n = ''@eaDir'' then man_loop se os dir hashed s ns m
      else if length m \<ge> maxManifest then Inl ManifestTooLarge
      else case man_entry se os (Join dir n) hashed s of
          Inl e \<Rightarrow> Inl e
        | Inr me \<Rightarrow> man_loop se os dir hashed s ns (AList.update n me m))"

definition takeManifest ::
  "'w fsSession \<Rightarrow> 'w osys \<Rightarrow> path \<Rightarrow> bool \<Rightarrow> 'w st \<Rightarrow> manifest_why + manifest" where
  "takeManifest se os dir hashed s =
     (case os_dirents os dir (ext s) of
        None \<Rightarrow> Inl ManifestRead
      | Some (names, complete) \<Rightarrow>
          (case man_loop se os dir hashed s (map fst names) [] of
             Inl e \<Rightarrow> Inl e
           | Inr m \<Rightarrow> if complete then Inr m else Inl ManifestRead))"

definition copyMatches :: "manifest \<Rightarrow> manifest \<Rightarrow> bool" where
  "copyMatches orig cp \<longleftrightarrow> length orig = length cp
     \<and> list_all (\<lambda>(name, or). case map_of cp name of
          None \<Rightarrow> False
        | Some c \<Rightarrow> me_typ c = me_typ or \<and> me_hash c = me_hash or \<and> me_link c = me_link or
            \<and> (me_typ or = Regular \<longrightarrow> me_size c = me_size or)) orig"

definition unchanged :: "manifest \<Rightarrow> manifest \<Rightarrow> bool" where
  "unchanged orig cur \<longleftrightarrow> length orig = length cur
     \<and> list_all (\<lambda>(name, or). case map_of cur name of
          None \<Rightarrow> False
        | Some n \<Rightarrow> me_typ n = me_typ or \<and> me_size n = me_size or \<and> me_mtime n = me_mtime or
            \<and> me_link n = me_link or) orig"

subsection \<open>Identity of what File Station shows\<close>

definition info_entry :: "path \<Rightarrow> goerr + (path \<rightharpoonup> fsEntry) \<Rightarrow> fsEntry option" where
  "info_entry p r =
     (case r of Inl _ \<Rightarrow> None
      | Inr m \<Rightarrow> (case m p of None \<Rightarrow> None | Some e \<Rightarrow> if fs_exists e then Some e else None))"

definition info_same :: "'w fsSession \<Rightarrow> path \<Rightarrow> entIdent \<Rightarrow> goerr + (path \<rightharpoonup> fsEntry) \<Rightarrow> bool" where
  "info_same se p want r =
     (case info_entry p r of None \<Rightarrow> False | Some e \<Rightarrow> identMatches (o_fmt (dsm se)) e [want] \<noteq> None)"

subsection \<open>Giving the copy up\<close>

definition discardCopy ::
  "nat \<Rightarrow> 'w fsSession \<Rightarrow> path \<Rightarrow> path \<Rightarrow> entIdent \<Rightarrow> goerr \<Rightarrow> 'w st \<Rightarrow> (goerr \<times> 'w st) option" where
  "discardCopy n se tmp src want y s =
     (let (info, s1) = getInfo se [src] True s in
      if info_same se src want info then do {
        (derr, s2) \<leftarrow> removeTree n se tmp s1;
        (case derr of
           None \<Rightarrow> Some (y, s2)
         | Some _ \<Rightarrow> Some (Plain (CopyNotRemoved y tmp), s2))
      }
      else Some (Plain (CopyKept y tmp), s1))"

subsection \<open>Retiring the original\<close>

definition restoreOriginal ::
  "'w fsSession \<Rightarrow> path \<Rightarrow> path \<Rightarrow> kept_why \<Rightarrow> 'w st \<Rightarrow> goerr option \<times> 'w st" where
  "restoreOriginal se qShare src y s =
     (case rename se qShare (Base src) s of
        (None, s1) \<Rightarrow> (Some (Plain (KeptBoth y)), s1)
      | (Some _, s1) \<Rightarrow>
          (case statShare se src s1 of
             (Inr (True, _), s2) \<Rightarrow>
               (case statShare se qShare s2 of
                  (Inr (False, _), s3) \<Rightarrow> (Some (Plain (KeptBoth y)), s3)
                | (_, s3) \<Rightarrow> (Some (MovedBut (NotPutBack y qShare)), s3))
           | (_, s2) \<Rightarrow> (Some (MovedBut (NotPutBack y qShare)), s2)))"

definition retirePrefix :: gostring where
  "retirePrefix = ''.dupfinder-del-''"

text \<open>From the renamed original on: check it again, delete it or put it back.\<close>

definition retireRenamed ::
  "nat \<Rightarrow> 'w fsSession \<Rightarrow> 'w osys \<Rightarrow> path \<Rightarrow> path \<Rightarrow> path \<Rightarrow> entIdent \<Rightarrow> transitRef \<Rightarrow> 'w st
    \<Rightarrow> (goerr option \<times> 'w st) option" where
  "retireRenamed n se os src qShare qFS want ref s =
     (let (info, s1) = getInfo se [qShare] True s;
          same = (info_same se qShare want info
            \<and> (ref_isDir ref \<longrightarrow> (case takeManifest se os qFS False s1 of
                  Inl _ \<Rightarrow> False | Inr m \<Rightarrow> unchanged (ref_man ref) m)))
      in if \<not> same then Some (restoreOriginal se qShare src ChangedMeanwhile s1)
         else do {
           (derr, s2) \<leftarrow> (if ref_isDir ref then removeTree n se qShare s1
                          else Some (removeEmptyFolder se qShare s1));
           (case derr of
              None \<Rightarrow> Some (None, s2)
            | Some e \<Rightarrow>
                (case statShare se qShare s2 of
                   (Inr (False, _), s3) \<Rightarrow> Some (None, s3)
                 | (_, s3) \<Rightarrow> Some (restoreOriginal se qShare src (DeleteFailed e) s3)))
         })"

definition retireOriginal ::
  "nat \<Rightarrow> 'w fsSession \<Rightarrow> 'w osys \<Rightarrow> path \<Rightarrow> path \<Rightarrow> entIdent \<Rightarrow> transitRef \<Rightarrow> 'w st
    \<Rightarrow> (goerr option \<times> 'w st) option" where
  "retireOriginal n se os src cp want ref s =
     (case random_hex se s of
        (None, s1) \<Rightarrow> Some (Some (Plain (KeptBoth NoRetireName)), s1)
      | (Some hex, s1) \<Rightarrow>
          (let q = retirePrefix @ hex; qShare = Dir src @ ''/'' @ q; qFS = Join (Dir cp) q in
           case rename se src q s1 of
             (None, s2) \<Rightarrow> retireRenamed n se os src qShare qFS want ref s2
           | (Some rerr, s2) \<Rightarrow>
               (case statShare se qShare s2 of
                  (Inr (True, _), s3) \<Rightarrow>
                    if moveOutcomeUnknown rerr then retireRenamed n se os src qShare qFS want ref s3
                    else Some (Some (Plain (KeptBoth (RenameFailed rerr))), s3)
                | (_, s3) \<Rightarrow> Some (Some (Plain (KeptBoth (RenameFailed rerr))), s3))))"

subsection \<open>The transit\<close>

text \<open>Reading the staged copy back: \<open>None\<close> when it reproduces the reference.\<close>

definition copy_fault :: "'w fsSession \<Rightarrow> 'w osys \<Rightarrow> path \<Rightarrow> transitRef \<Rightarrow> 'w st \<Rightarrow> plain_why option" where
  "copy_fault se os staged ref s =
     (if ref_isDir ref then
        (case takeManifest se os staged True s of
           Inl _ \<Rightarrow> Some CopyUnreadable
         | Inr got \<Rightarrow> if copyMatches (ref_man ref) got then None else Some CopyDiffers)
      else
        (case verifyRead se staged s of
           None \<Rightarrow> Some CopyUnreadable
         | Some h \<Rightarrow> if h \<noteq> ref_hash ref then Some CopyDiffers else None))"

definition staged_want :: "path \<Rightarrow> entIdent \<Rightarrow> goerr + (path \<rightharpoonup> fsEntry) \<Rightarrow> entIdent" where
  "staged_want p want r =
     (case info_entry p r of
        None \<Rightarrow> want
      | Some e \<Rightarrow> \<lparr>i_size = FSize e, i_mod = [], i_modUnix = Mtime e, i_isDir = FIsDir e, i_pfx = [], i_hash = []\<rparr>)"

text \<open>Steps 1 to 3 of \<open>transitViaFS\<close>: the copy's name, or the error.\<close>

definition transitCopy ::
  "nat \<Rightarrow> 'w fsSession \<Rightarrow> 'w osys \<Rightarrow> path \<Rightarrow> path \<Rightarrow> path \<Rightarrow> entIdent \<Rightarrow> transitRef \<Rightarrow> 'w st
    \<Rightarrow> ((goerr + gostring) \<times> 'w st) option" where
  "transitCopy n se os src out outFS want ref s =
     (let base = Base src; giveup = (\<lambda>tmp y s. do {
            (e, s') \<leftarrow> discardCopy n se tmp src want (Plain y) s; Some (Inl e, s') }) in
      case random_hex se s of
        (None, s1) \<Rightarrow> Some (Inl (Plain NoRandom), s1)
      | (Some hex, s1) \<Rightarrow>
          (let tmp = stagingPrefix @ hex; tmpShare = out @ ''/'' @ tmp; tmpFS = Join outFS tmp in
           case createFolder se out tmp False s1 of
             (Some e, s2) \<Rightarrow> Some (Inl e, s2)
           | (None, s2) \<Rightarrow>
               (case track_staging se tmpShare s2 of
                  (Some e, s3) \<Rightarrow> Some (Inl e, snd (removeEmptyFolder se tmpShare s3))
                | (None, s3) \<Rightarrow> do {
                    (copied, s4) \<leftarrow> copyOnce n se src tmpShare s3;
                    (case copied of
                       Some e \<Rightarrow> giveup tmpShare (CopyFailed e) s4
                     | None \<Rightarrow>
                         (case copy_fault se os (Join tmpFS base) ref s4 of
                            Some y \<Rightarrow> giveup tmpShare y s4
                          | None \<Rightarrow>
                              (let (info, s5) = getInfo se [tmpShare @ ''/'' @ base] True s4;
                                   sw = staged_want (tmpShare @ ''/'' @ base) want info
                               in do {
                                 (r, s6) \<leftarrow> claimFromStaging n se tmpShare base out sw s5;
                                 (case snd r of
                                    None \<Rightarrow> Some (Inr (fst r), s6)
                                  | Some (ParkedErr _ _ cause) \<Rightarrow> giveup tmpShare (NotPlaced cause) s6
                                  | Some _ \<Rightarrow> Some (Inl (Plain (PlacingLost out)), s6))
                               })))
                  })))"

definition transitViaFS ::
  "nat \<Rightarrow> 'w fsSession \<Rightarrow> 'w osys \<Rightarrow> path \<Rightarrow> path \<Rightarrow> path \<Rightarrow> path \<Rightarrow> entIdent \<Rightarrow> transitRef \<Rightarrow> 'w st
    \<Rightarrow> ((gostring \<times> goerr option) \<times> 'w st) option" where
  "transitViaFS n se os cp src out outFS want ref s = do {
     (r, s1) \<leftarrow> transitCopy n se os src out outFS want ref s;
     (case r of
        Inl e \<Rightarrow> Some (([], Some e), s1)
      | Inr name \<Rightarrow> do {
          (e, s2) \<leftarrow> retireOriginal n se os src cp want ref (track_placed se (out @ ''/'' @ name) s1);
          Some ((name, e), s2)
        })
   }"

end
