(* ===== verification/TransitSafety.thy ===== *)
theory TransitSafety
  imports MoveRules Transit
begin

text \<open>
  The guarantees of \<open>server/transit.go\<close>: a manifest comparison that passes means the same
  names with the same content, and no request that could take the original away is made before a copy at
  the destination has been read back and found to reproduce it.
\<close>

subsection \<open>Manifests\<close>

lemma man_loop_distinct:
  "man_loop se os dir h s ns m = Inr m' \<Longrightarrow> distinct (map fst m) \<Longrightarrow> distinct (map fst m')"
  by (induction ns arbitrary: m) (auto simp: distinct_update split: if_splits sum.splits)

lemma takeManifest_distinct: "takeManifest se os dir h s = Inr m \<Longrightarrow> distinct (map fst m)"
  using man_loop_distinct [where m = "[]"]
  by (auto simp: takeManifest_def split: option.splits sum.splits if_splits)

lemma length_update: "length (AList.update n e m) \<le> Suc (length m)"
  by (induction m) auto

lemma man_loop_size:
  "man_loop se os dir h s ns m = Inr m' \<Longrightarrow> length m \<le> maxManifest \<Longrightarrow> length m' \<le> maxManifest"
proof (induction ns arbitrary: m)
  case (Cons n ns)
  show ?case
  proof (cases "n = ''@eaDir'' \<or> length m \<ge> maxManifest")
    case False
    then obtain me where "man_entry se os (Join dir n) h s = Inr me"
      "man_loop se os dir h s ns (AList.update n me m) = Inr m'"
      using Cons.prems by (auto split: sum.splits)
    moreover have "length (AList.update n me m) \<le> maxManifest"
      using length_update [of n me m] False by simp
    ultimately show ?thesis using Cons.IH by blast
  qed (use Cons in \<open>auto split: if_splits\<close>)
qed simp

definition same_entry :: "manEnt \<Rightarrow> manEnt \<Rightarrow> bool" where
  "same_entry x y \<longleftrightarrow> me_typ y = me_typ x \<and> me_hash y = me_hash x \<and> me_link y = me_link x
     \<and> (me_typ x = Regular \<longrightarrow> me_size y = me_size x)"

lemma copyMatches_lookup:
  assumes "distinct (map fst mo)"
  shows "copyMatches mo mc \<longleftrightarrow> length mo = length mc
    \<and> (\<forall>n x. map_of mo n = Some x \<longrightarrow> (\<exists>y. map_of mc n = Some y \<and> same_entry x y))"
proof -
  have "list_all (\<lambda>(n, x). Q n x) mo \<longleftrightarrow> (\<forall>n x. map_of mo n = Some x \<longrightarrow> Q n x)" for Q
    using map_of_eq_Some_iff [OF assms] by (auto simp: list_all_iff)
  moreover have "(case map_of mc n of None \<Rightarrow> False
      | Some c \<Rightarrow> me_typ c = me_typ x \<and> me_hash c = me_hash x \<and> me_link c = me_link x
          \<and> (me_typ x = Regular \<longrightarrow> me_size c = me_size x))
    \<longleftrightarrow> (\<exists>y. map_of mc n = Some y \<and> same_entry x y)" for n x
    by (cases "map_of mc n") (auto simp: same_entry_def)
  ultimately show ?thesis by (simp add: copyMatches_def)
qed

lemma matched_names:
  assumes "distinct (map fst xs)" "distinct (map fst ys)" "length xs = length ys"
    and "fst ` set xs \<subseteq> fst ` set ys"
  shows "fst ` set xs = fst ` set ys"
proof (rule card_subset_eq)
  show "card (fst ` set xs) = card (fst ` set ys)"
    using assms(1-3) distinct_card [of "map fst xs"] distinct_card [of "map fst ys"] by simp
qed (use assms(4) in auto)

text \<open>Two manifests taken from disk match exactly when they hold the same names and, under each name,
  entries of the same type with the same content hash, link target and (for files) size; a manifest
  never holds more than its bound, so nothing is left unchecked.\<close>

theorem manifests_match:
  assumes "takeManifest se os d1 True s1 = Inr mo" "takeManifest se os d2 True s2 = Inr mc"
  shows "copyMatches mo mc \<longleftrightarrow> fst ` set mo = fst ` set mc
    \<and> (\<forall>name x y. map_of mo name = Some x \<and> map_of mc name = Some y \<longrightarrow> same_entry x y)
    \<and> length mo \<le> maxManifest"
proof -
  note D = takeManifest_distinct [OF assms(1)] takeManifest_distinct [OF assms(2)]
  have size: "length mo \<le> maxManifest"
    using assms(1) man_loop_size [of se os d1 True s1 _ "[]"]
    by (auto simp: takeManifest_def split: option.splits sum.splits if_splits)
  have len: "length mo = length mc" if "fst ` set mo = fst ` set mc"
    using D that distinct_card [of "map fst mo"] distinct_card [of "map fst mc"] by simp
  have dom: "n \<in> fst ` set m \<longleftrightarrow> map_of m n \<noteq> None" for n and m :: manifest
    by (simp add: map_of_eq_None_iff)
  show ?thesis
  proof
    assume c: "copyMatches mo mc"
    have "fst ` set mo \<subseteq> fst ` set mc"
    proof
      fix n assume "n \<in> fst ` set mo"
      then obtain x where "map_of mo n = Some x" using dom [of n mo] by auto
      then obtain y where "map_of mc n = Some y" using c copyMatches_lookup [OF D(1), of mc] by blast
      then show "n \<in> fst ` set mc" using dom [of n mc] by simp
    qed
    then have "fst ` set mo = fst ` set mc"
      using matched_names [OF D] c by (simp add: copyMatches_def)
    then show "fst ` set mo = fst ` set mc
      \<and> (\<forall>name x y. map_of mo name = Some x \<and> map_of mc name = Some y \<longrightarrow> same_entry x y)
      \<and> length mo \<le> maxManifest"
      using c [unfolded copyMatches_lookup [OF D(1)]] size by (metis option.inject)
  next
    assume r: "fst ` set mo = fst ` set mc
      \<and> (\<forall>name x y. map_of mo name = Some x \<and> map_of mc name = Some y \<longrightarrow> same_entry x y)
      \<and> length mo \<le> maxManifest"
    have "\<exists>y. map_of mc n = Some y \<and> same_entry x y" if x: "map_of mo n = Some x" for n x
    proof -
      have "n \<in> fst ` set mc" using x dom [of n mo] r by simp
      then obtain y where y: "map_of mc n = Some y" using dom [of n mc] by auto
      then show ?thesis using r x by blast
    qed
    moreover have "length mo = length mc" using r len by blast
    ultimately show "copyMatches mo mc"
      unfolding copyMatches_lookup [OF D(1)] by blast
  qed
qed

subsection \<open>The original is spared until the copy is proven\<close>

definition spares :: "'w dsm \<Rightarrow> path \<Rightarrow> ('w st \<Rightarrow> bool) \<Rightarrow> bool" where
  "spares d src P \<longleftrightarrow> obeys d (\<lambda>s dest rm f. rm \<longrightarrow> s \<noteq> src) (\<lambda>p. p \<noteq> src) P"

lemma keeps_removeTree:
  assumes "obeys (dsm se) S T P" "T p" "P s" "removeTree n se p s = Some (r, s')"
  shows "P s'"
proof -
  obtain q s1 where q: "call ''SYNO.FileStation.Delete'' (c_delstart (dsm se) p) s = (q, s1)" by (metis surj_pair)
  have "P (s\<lparr>ext := snd (c_delstart (dsm se) p (ext s))\<rparr>)"
    using assms(1-3) unfolding obeys_def by blast
  then have "P s1" using q by (auto simp: call_def split: prod.splits)
  then show ?thesis
    using assms(4) q keeps_poll [where c = c_delstatus, OF _ assms(1)]
    by (auto simp: removeTree_def keeps_def split: sum.splits)
qed

lemma spares_discard:
  assumes "spares (dsm se) src P" "tmp \<noteq> src" "P s" "discardCopy n se tmp src want y s = Some (e, s')"
  shows "P s'"
proof -
  note O = assms(1) [unfolded spares_def]
  obtain i s1 where i: "getInfo se [src] True s = (i, s1)" by (metis surj_pair)
  have P1: "P s1" using keeps_getinfo [OF O i] assms(3) by (simp add: keeps_def)
  have "P s2" if "removeTree n se tmp s1 = Some (d, s2)" for d s2
    by (rule keeps_removeTree [OF O assms(2) P1 that])
  then show ?thesis
    using assms(4) i P1
    by (auto simp: discardCopy_def Let_def split: if_splits bind_splits option.splits)
qed

lemma track_uncut:
  "\<not> j_cut (jf s) \<Longrightarrow> track_staging se p s = (None, s') \<Longrightarrow> \<not> j_cut (jf s')"
  by (auto simp: track_staging_def track_write_def jwrite_def Let_def
      split: option.splits prod.splits if_splits wout.splits)

lemma track_uncut_ahead:
  "\<not> j_cut (jf s) \<Longrightarrow> track_ahead se p s = (None, s') \<Longrightarrow> \<not> j_cut (jf s')"
  by (auto simp: track_ahead_def track_write_def jwrite_def Let_def
      split: option.splits prod.splits if_splits wout.splits)

lemma transitCopy_spares:
  assumes sp: "spares (dsm se) src P" and base: "good_name (Base src)"
    and apart: "\<forall>hex. src \<noteq> out @ ''/'' @ stagingPrefix @ hex"
    and P: "P s" "\<not> j_cut (jf s)" and res: "transitCopy n se os src out outFS want ref s = Some (r, s')"
  shows "P s' \<and> (\<forall>name. r = Inr name \<longrightarrow>
    (\<exists>hex s1. copy_fault se os (Join (Join outFS (stagingPrefix @ hex)) (Base src)) ref s1 = None))"
proof -
  note O = sp [unfolded spares_def]
  obtain h s1 where h: "random_hex se s = (h, s1)" by (metis surj_pair)
  note k1 = keeps_random [OF O h]
  show ?thesis
  proof (cases h)
    case None
    then show ?thesis using res h k1 P by (auto simp: transitCopy_def keeps_def)
  next
    case (Some hex)
    let ?tmp = "out @ ''/'' @ stagingPrefix @ hex"
    let ?st = "Join (Join outFS (stagingPrefix @ hex)) (Base src)"
    have T: "?tmp \<noteq> src" "?tmp @ ''/'' @ q \<noteq> src" for q
      using apart by (metis, metis append.assoc)
    obtain c s2 where c: "createFolder se out (stagingPrefix @ hex) False s1 = (c, s2)" by (metis surj_pair)
    have P2: "P s2" "\<not> j_cut (jf s2)"
      using keeps_trans [OF k1 keeps_simple(2) [OF O c]] P by (auto simp: keeps_def)
    obtain ts s3 where ts: "track_staging se ?tmp s2 = (ts, s3)" by (metis surj_pair)
    have P3: "P s3" by (rule track_fails_keeps(2) [OF O P2(1) ts])
    have rm: "P (snd (removeEmptyFolder se ?tmp s3))"
      using keeps_simple(3) [OF O, of ?tmp] T(1) P3 by (simp add: keeps_def)
    have giveup: "P s'" if "discardCopy n se ?tmp src want (Plain y) x = Some (e, s')" "P x" for y x e s'
      by (rule spares_discard [OF sp T(1) that(2,1)])
    show ?thesis
    proof (cases "c = None \<and> ts = None")
      case False
      then show ?thesis using res h Some c ts P2 P3 rm
        by (cases c; cases ts) (auto simp: transitCopy_def Let_def)
    next
      case True
      have cut3: "\<not> j_cut (jf s3)" using track_uncut [of s2 se ?tmp s3] P2(2) ts True by simp
      obtain m s4 where m: "copyOnce n se src ?tmp s3 = Some (m, s4)"
        using res h Some c ts True
        by (cases "copyOnce n se src ?tmp s3") (auto simp: transitCopy_def Let_def)
      have P4: "P s4" "\<not> j_cut (jf s4)"
        using keeps_copy [OF O _ m [unfolded copyOnce_def]] P3 cut3 by (auto simp: keeps_def)
      obtain i s5 where i: "getInfo se [?tmp @ ''/'' @ Base src] True s4 = (i, s5)" by (metis surj_pair)
      have P5: "P s5" "\<not> j_cut (jf s5)" using keeps_getinfo [OF O i] P4 by (auto simp: keeps_def)
      let ?sw = "staged_want (?tmp @ ''/'' @ Base src) want i"
      have claim: "P s6" if "claimFromStaging n se ?tmp (Base src) out ?sw s5 = Some (x, s6)" for x s6
      proof (rule claim_keeps [OF O _ _ base _ P5 that [unfolded claimFromStaging_def]])
        fix c s s' assume a: "P s" "\<not> j_cut (jf s)" "track_ahead se (out @ ''/'' @ c) s = (None, s')"
        show "P s' \<and> (True \<longrightarrow> ?tmp @ ''/'' @ c \<noteq> src) \<and> \<not> j_cut (jf s')"
          using track_fails_keeps(1) [OF O a(1,3)] track_uncut_ahead [OF a(2,3)] T by auto
      qed (use T in auto)
      show ?thesis
        using res h Some c ts True m i P4(1) claim giveup
        by (auto simp: transitCopy_def Let_def split: option.splits bind_splits prod.splits goerr.splits)
    qed
  qed
qed

lemma copy_fault_file:
  "copy_fault se os p ref s = None \<Longrightarrow> \<not> ref_isDir ref \<Longrightarrow> verifyRead se p s = Some (ref_hash ref)"
  by (auto simp: copy_fault_def split: option.splits if_splits)

lemma copy_fault_dir:
  "copy_fault se os p ref s = None \<Longrightarrow> ref_isDir ref
    \<Longrightarrow> \<exists>m. takeManifest se os p True s = Inr m \<and> copyMatches (ref_man ref) m"
  by (auto simp: copy_fault_def split: sum.splits if_splits)

text \<open>C12. Across file systems the original outlives every doubt about its copy: either the move ends with an
  error after requests none of which could take the original from its place, or a copy at the
  destination was read back and reproduced the content that left (a file's hash, a folder's manifest)
  before the original was touched.\<close>

theorem original_spared_until_proven:
  assumes "spares (dsm se) src P" "good_name (Base src)" "\<forall>hex. src \<noteq> out @ ''/'' @ stagingPrefix @ hex"
    and "P s" "\<not> j_cut (jf s)" "transitViaFS n se os cp src out outFS want ref s = Some ((name, e), s')"
  shows "(P s' \<and> e \<noteq> None \<and> name = [])
    \<or> (\<exists>hex s1. (\<not> ref_isDir ref \<longrightarrow>
            verifyRead se (Join (Join outFS (stagingPrefix @ hex)) (Base src)) s1 = Some (ref_hash ref))
        \<and> (ref_isDir ref \<longrightarrow> (\<exists>m. takeManifest se os (Join (Join outFS (stagingPrefix @ hex)) (Base src)) True s1 = Inr m
            \<and> copyMatches (ref_man ref) m)))"
proof -
  obtain r s1 where t: "transitCopy n se os src out outFS want ref s = Some (r, s1)"
    using assms(6) by (cases "transitCopy n se os src out outFS want ref s") (auto simp: transitViaFS_def)
  note sp = transitCopy_spares [OF assms(1-5) t]
  show ?thesis
  proof (cases r)
    case (Inl err)
    then show ?thesis using assms(6) t sp by (auto simp: transitViaFS_def)
  next
    case (Inr nm)
    then obtain hex s2 where "copy_fault se os (Join (Join outFS (stagingPrefix @ hex)) (Base src)) ref s2 = None"
      using sp by blast
    then show ?thesis using copy_fault_file copy_fault_dir by blast
  qed
qed

text \<open>A world that remembers the paths it was asked to rename or remove; copies read back wrong.\<close>

definition touch_dsm :: "path list dsm" where
  "touch_dsm = \<lparr>c_getinfo = (\<lambda>ps _ w. (Answer [], w)), c_list = (\<lambda>_ _ _ w. (NoReply, w)),
     c_cmstart = (\<lambda>src _ rm w. (Answer ''t'', if rm then src # w else w)), c_cmstatus = (\<lambda>_ w. (Answer True, w)),
     c_tasks = (\<lambda>w. (NoReply, w)), c_rename = (\<lambda>p _ w. (Answer (), p # w)), c_create = (\<lambda>_ _ _ w. (Answer (), w)),
     c_delete = (\<lambda>p w. (Answer (), p # w)), c_delstart = (\<lambda>p w. (Answer ''d'', p # w)), c_delstatus = (\<lambda>_ w. (Answer True, w)),
     o_now = (\<lambda>_. 0), o_sleep = (\<lambda>_ w. w), o_random = (\<lambda>w. (Some ''00'', w)),
     o_jwrite = (\<lambda>w. (WDone, w)), o_hash = (\<lambda>_ _. Some ''bad''), o_fmt = (\<lambda>_. []), o_lower = (\<lambda>r. r)\<rparr>"

definition no_osys :: "'w osys" where
  "no_osys = \<lparr>os_dirents = (\<lambda>_ _. None), os_lstat = (\<lambda>_ _. None), os_stat = (\<lambda>_ _. None),
     os_readlink = (\<lambda>_ _. None), os_vols = [], os_walk = (\<lambda>_ _. []), os_canon = (\<lambda>_ _. None),
     os_prefix = (\<lambda>_ _. None), os_stopping = (\<lambda>_. False)\<rparr>"

lemma touch_spares: "spares touch_dsm src (\<lambda>s. src \<notin> set (ext s))"
  by (auto simp: spares_def obeys_def touch_dsm_def)

theorem original_spared_until_proven_witness:
  "\<exists>e s'. transitViaFS 3 \<lparr>dsm = touch_dsm, shareTab = None, track = None\<rparr> no_osys ''/v/s/a'' ''/s/a'' ''/o'' ''/v/o''
      mini_want \<lparr>ref_isDir = False, ref_hash = ''good'', ref_man = []\<rparr>
      \<lparr>ext = [], jf = \<lparr>j_lines = [], j_cut = False, j_synced = 0\<rparr>\<rparr> = Some (([], Some e), s')
    \<and> (''/s/a'' \<notin> set (ext s') \<or> (\<exists>p s1. verifyRead \<lparr>dsm = touch_dsm, shareTab = None, track = None\<rparr> p s1 = Some ''good''))"
proof -
  let ?se = "\<lparr>dsm = touch_dsm, shareTab = None, track = None\<rparr>"
  let ?ref = "\<lparr>ref_isDir = False, ref_hash = ''good'', ref_man = []\<rparr>"
  let ?s = "\<lparr>ext = [], jf = \<lparr>j_lines = [], j_cut = False, j_synced = 0\<rparr>\<rparr>"
  have "map_option (\<lambda>(r, s'). (fst r, snd r \<noteq> None))
      (transitViaFS 3 ?se no_osys ''/v/s/a'' ''/s/a'' ''/o'' ''/v/o'' mini_want ?ref ?s) = Some ([], True)"
    by code_simp
  then obtain e s' where t: "transitViaFS 3 ?se no_osys ''/v/s/a'' ''/s/a'' ''/o'' ''/v/o'' mini_want ?ref ?s
      = Some (([], Some e), s')" by auto
  have g: "good_name (Base ''/s/a'')" by code_simp
  have sp: "spares (dsm ?se) ''/s/a'' (\<lambda>s. ''/s/a'' \<notin> set (ext s))" by (simp add: touch_spares)
  have "(''/s/a'' \<notin> set (ext s') \<and> Some e \<noteq> None \<and> [] = ([] :: string))
    \<or> (\<exists>hex s1. (\<not> ref_isDir ?ref \<longrightarrow>
            verifyRead ?se (Join (Join ''/v/o'' (stagingPrefix @ hex)) (Base ''/s/a'')) s1 = Some (ref_hash ?ref))
        \<and> (ref_isDir ?ref \<longrightarrow> (\<exists>m. takeManifest ?se no_osys (Join (Join ''/v/o'' (stagingPrefix @ hex)) (Base ''/s/a'')) True s1 = Inr m
            \<and> copyMatches (ref_man ?ref) m)))"
    by (rule original_spared_until_proven [OF sp g _ _ _ t]) (simp_all add: stagingPrefix_def)
  then show ?thesis using t by auto
qed

definition ex_osys :: "'w osys" where
  "ex_osys = no_osys\<lparr>os_dirents := (\<lambda>_ _. Some ([(''thumbs.db'', False), (''@eaDir'', True)], True)),
     os_lstat := (\<lambda>_ _. Some ex_finfo)\<rparr>"

theorem manifests_match_witness:
  "\<exists>m. takeManifest \<lparr>dsm = touch_dsm, shareTab = None, track = None\<rparr> ex_osys ''/a'' True
        \<lparr>ext = [], jf = \<lparr>j_lines = [], j_cut = False, j_synced = 0\<rparr>\<rparr> = Inr m
     \<and> length m = 1 \<and> (copyMatches m m \<longleftrightarrow> True)"
proof -
  let ?t = "takeManifest \<lparr>dsm = touch_dsm, shareTab = None, track = None\<rparr> ex_osys ''/a'' True
        \<lparr>ext = [], jf = \<lparr>j_lines = [], j_cut = False, j_synced = 0\<rparr>\<rparr>"
  have "(case ?t of Inl _ \<Rightarrow> None | Inr m \<Rightarrow> Some (length m)) = Some 1" by code_simp
  then obtain m where m: "?t = Inr m" "length m = 1" by (auto split: sum.splits)
  have "copyMatches m m" using manifests_match [OF m(1) m(1)] m(2)
    by (auto simp: same_entry_def maxManifest_def)
  then show ?thesis using m by blast
qed

end
