(* ===== verification/MoveExec.thy ===== *)
theory MoveExec
  imports Transit
begin

text \<open>
  \<open>server/move.go\<close>, the execution: what one vetted entry still has to pass
  (\<open>execMoveFSAt\<close>), its verification before and after (\<open>preMoveHash\<close>,
  \<open>verifyMoved\<close>, \<open>parkedOutcome\<close>), the folder a batch mirrors it into
  (\<open>batchTarget\<close>), the step for one requested path (\<open>moveOne\<close>), and the loop of
  \<open>handleMove\<close> with its journal, its record of landings and its report; with the confirmation
  of an empty folder from \<open>server/emptyfolders.go\<close>.  The canonical-path resolver
  enters as its answers, the texts of errors as \<open>msg\<close>.
\<close>

subsection \<open>Still empty\<close>

definition dirHoldsOnlyJunk :: "'w fsSession \<Rightarrow> 'w osys \<Rightarrow> path \<Rightarrow> 'w st \<Rightarrow> goerr + bool" where
  "dirHoldsOnlyJunk se os p s =
     (case os_dirents os p (ext s) of
        None \<Rightarrow> Inl (Plain DirUnread)
      | Some (ents, complete) \<Rightarrow>
          if list_ex (\<lambda>(name, isDir). name \<noteq> ''@eaDir'' \<and> (isDir \<or> \<not> isTempName (o_lower (dsm se)) name)) ents
          then Inr False
          else if complete then Inr True else Inl (Plain DirUnread))"

definition confirmEmpty :: "'w fsSession \<Rightarrow> 'w osys \<Rightarrow> path \<Rightarrow> 'w st \<Rightarrow> (goerr + bool) \<times> 'w st" where
  "confirmEmpty se os p s =
     (case shareSpacePath (shareTab se) p of
        None \<Rightarrow> (Inl (Plain (NoShare p)), s)
      | Some sp \<Rightarrow>
          (case folderHoldsOnlyJunk se sp s of
             (Inl e, s1) \<Rightarrow> (Inl e, s1)
           | (Inr False, s1) \<Rightarrow> (Inr False, s1)
           | (Inr True, s1) \<Rightarrow> (dirHoldsOnlyJunk se os p s1, s1)))"

subsection \<open>Verification\<close>

definition contentPrefixUnchanged :: "'w osys \<Rightarrow> path \<Rightarrow> string \<Rightarrow> 'w st \<Rightarrow> bool" where
  "contentPrefixUnchanged os cp want s =
     (if want = [] then True
      else case os_prefix os cp (ext s) of
          None \<Rightarrow> False
        | Some h \<Rightarrow> if length h < length want then False else take (length want) h = want)"

definition preMoveHash :: "'w fsSession \<Rightarrow> path \<Rightarrow> entIdent \<Rightarrow> 'w st \<Rightarrow> goerr + string" where
  "preMoveHash se cp want s =
     (case verifyRead se cp s of
        None \<Rightarrow> Inl (Plain CannotReadSource)
      | Some h \<Rightarrow> if i_hash want \<noteq> [] \<and> h \<noteq> i_hash want then Inl (Plain ContentsChanged) else Inr h)"

definition verifyMoved :: "'w fsSession \<Rightarrow> path \<Rightarrow> string \<Rightarrow> 'w st \<Rightarrow> goerr option" where
  "verifyMoved se destFS preHash s =
     (case verifyRead se destFS s of
        None \<Rightarrow> Some (MovedBut MovedUnread)
      | Some h \<Rightarrow> if h \<noteq> preHash then Some (MovedBut MovedDiffers) else None)"

definition parkedOutcome ::
  "'w fsSession \<Rightarrow> path \<Rightarrow> gostring \<Rightarrow> goerr \<Rightarrow> path \<Rightarrow> path \<Rightarrow> string \<Rightarrow> 'w st \<Rightarrow> goerr" where
  "parkedOutcome se tmp name cause destShare destCanon preHash s =
     (let pe = ParkedErr tmp name cause in
      if preHash = [] then MovedBut (ParkedAt pe)
      else case verifyRead se (Join (Join destCanon (TrimPrefix tmp destShare)) name) s of
          None \<Rightarrow> MovedBut (ParkedUnread pe)
        | Some h \<Rightarrow> if h \<noteq> preHash then MovedBut (ParkedDiffers pe) else MovedBut (ParkedIntact pe))"

subsection \<open>The batch folder\<close>

definition batchTarget ::
  "'w fsSession \<Rightarrow> batchFolder \<Rightarrow> path \<Rightarrow> 'w st \<Rightarrow> (goerr + path) \<times> batchFolder \<times> 'w st" where
  "batchTarget se b src s =
     (case batch_share se b s of
        (Inl e, b1, s1) \<Rightarrow> (Inl e, b1, s1)
      | (Inr root, b1, s1) \<Rightarrow>
          (let rel = TrimPrefix (Dir src) ''/'' in
           if rel = [] then (Inl (Plain VolumeRoot), b1, s1)
           else (let outShare = Join root rel in
             case createFolder se (Dir outShare) (Base outShare) True s1 of
               (Some e, s2) \<Rightarrow> (Inl e, b1, s2)
             | (None, s2) \<Rightarrow> (Inr outShare, b1, s2))))"

subsection \<open>One entry\<close>

text \<open>The checks of \<open>execMoveFSAt\<close> before anything is created: what moves, and the identity it has.\<close>

definition exec_checks ::
  "'w fsSession \<Rightarrow> 'w osys \<Rightarrow> path \<Rightarrow> path \<Rightarrow> path \<Rightarrow> entIdent list \<Rightarrow> bool \<Rightarrow> 'w st
    \<Rightarrow> (goerr + path \<times> fsEntry \<times> entIdent) \<times> 'w st" where
  "exec_checks se os cp destShare destCanon wants flat s =
     (case shareSpacePath (shareTab se) cp of
        None \<Rightarrow> (Inl (Plain OutsideAllowed), s)
      | Some srcShare \<Rightarrow>
          (case getInfo se [srcShare] True s of
             (Inl e, s1) \<Rightarrow> (if hasCode e [408] then Inl (Plain NoSuchEntry) else Inl e, s1)
           | (Inr m, s1) \<Rightarrow>
               (case info_entry srcShare (Inr m) of
                  None \<Rightarrow> (Inl (Plain NoSuchEntry), s1)
                | Some e \<Rightarrow>
                    (case identMatches (o_fmt (dsm se)) e wants of
                       None \<Rightarrow> (Inl (Plain ChangedSinceScan), s1)
                     | Some want \<Rightarrow>
                         if i_pfx want \<noteq> [] \<and> \<not> contentPrefixUnchanged os cp (i_pfx want) s1
                         then (Inl (Plain ContentsChanged), s1)
                         else if FIsDir e \<and> (destCanon = cp \<or> HasPrefix (destCanon @ ''/'') (cp @ ''/''))
                         then (Inl (Plain DestInside), s1)
                         else if flat \<and> Dir srcShare = destShare then (Inl (Plain AlreadyThere), s1)
                         else (Inr (srcShare, e, want), s1)))))"

text \<open>What the destination must reproduce: the hash before the move (empty when not verified or a
  folder), and the reference of a transit, if there is one.\<close>

definition exec_reference ::
  "'w fsSession \<Rightarrow> 'w osys \<Rightarrow> path \<Rightarrow> path \<Rightarrow> fsEntry \<Rightarrow> entIdent \<Rightarrow> bool \<Rightarrow> 'w st
    \<Rightarrow> goerr + string \<times> transitRef option" where
  "exec_reference se os cp destCanon e want verify s =
     (case (if verify \<and> \<not> FIsDir e then preMoveHash se cp want s else Inr []) of
        Inl err \<Rightarrow> Inl err
      | Inr preHash \<Rightarrow>
          if \<not> (verify \<and> crossesFS os (Dir cp) destCanon s) then Inr (preHash, None)
          else if FIsDir e then
            (case takeManifest se os cp True s of
               Inl y \<Rightarrow> Inl (Plain (NoManifest y))
             | Inr man \<Rightarrow> Inr (preHash, Some \<lparr>ref_isDir = True, ref_hash = [], ref_man = man\<rparr>))
          else Inr (preHash, Some \<lparr>ref_isDir = False, ref_hash = preHash, ref_man = []\<rparr>))"

definition landed_path :: "path \<Rightarrow> path \<Rightarrow> path \<Rightarrow> path" where
  "landed_path destCanon destShare outShare = Join destCanon (TrimPrefix outShare destShare)"

text \<open>The move itself, into \<open>out\<close>.\<close>

definition exec_move ::
  "nat \<Rightarrow> 'w fsSession \<Rightarrow> 'w osys \<Rightarrow> path \<Rightarrow> path \<Rightarrow> path \<Rightarrow> path \<Rightarrow> path \<Rightarrow> fsEntry \<Rightarrow> entIdent \<Rightarrow> bool
    \<Rightarrow> string \<Rightarrow> transitRef option \<Rightarrow> 'w st \<Rightarrow> ((path \<times> goerr option) \<times> 'w st) option" where
  "exec_move n se os cp srcShare destShare destCanon out e want verify preHash ref s =
     (let outFS = landed_path destCanon destShare out in
      case ref of
        Some rf \<Rightarrow> do {
          ((name, terr), s1) \<leftarrow> transitViaFS n se os cp srcShare out outFS want rf s;
          Some ((if name = [] then [] else Join outFS name, terr), s1)
        }
      | None \<Rightarrow> do {
          ((name, err), s1) \<leftarrow> moveViaFS n se srcShare out want s;
          (case err of
             Some (ParkedErr tmp pname cause) \<Rightarrow>
               Some (([], Some (parkedOutcome se tmp pname cause destShare destCanon preHash s1)), s1)
           | Some (Unsettled d) \<Rightarrow> Some ((Join outFS name, Some (Unsettled d)), s1)
           | Some err \<Rightarrow> Some (([], Some err), s1)
           | None \<Rightarrow>
               (let at = Join outFS name in
                if verify \<and> \<not> FIsDir e then
                  (let s2 = track_placed se (out @ ''/'' @ name) s1 in
                   Some ((at, verifyMoved se at preHash s2), s2))
                else Some ((at, None), s1)))
        })"

definition execMoveFSAt ::
  "nat \<Rightarrow> 'w fsSession \<Rightarrow> 'w osys \<Rightarrow> path \<Rightarrow> path \<Rightarrow> path \<Rightarrow> path \<Rightarrow> entIdent list \<Rightarrow> batchFolder option \<Rightarrow> bool
    \<Rightarrow> 'w st \<Rightarrow> ((path \<times> goerr option) \<times> batchFolder option \<times> 'w st) option" where
  "execMoveFSAt n se os src cp destShare destCanon wants batch verify s =
     (case exec_checks se os cp destShare destCanon wants (batch = None) s of
        (Inl err, s1) \<Rightarrow> Some (([], Some err), batch, s1)
      | (Inr (srcShare, e, want), s1) \<Rightarrow>
          (case exec_reference se os cp destCanon e want verify s1 of
             Inl err \<Rightarrow> Some (([], Some err), batch, s1)
           | Inr (preHash, ref) \<Rightarrow>
               (case (case batch of
                        None \<Rightarrow> (Inr destShare, None, s1)
                      | Some b \<Rightarrow> (case batchTarget se b src s1 of (r, b1, s2) \<Rightarrow> (r, Some b1, s2))) of
                  (Inl err, b1, s2) \<Rightarrow> Some (([], Some err), b1, s2)
                | (Inr out, b1, s2) \<Rightarrow> do {
                    (r, s3) \<leftarrow> exec_move n se os cp srcShare destShare destCanon out e want verify preHash ref s2;
                    Some (r, b1, s3)
                  })))"

record one_result =
  o_cp :: path
  o_at :: path
  o_gone :: bool
  o_err :: "goerr option"

definition failed_one :: "path \<Rightarrow> goerr \<Rightarrow> one_result" where
  "failed_one cp e = \<lparr>o_cp = cp, o_at = [], o_gone = False, o_err = Some e\<rparr>"

definition is_movedBut :: "goerr \<Rightarrow> bool" where
  "is_movedBut e = (case e of MovedBut _ \<Rightarrow> True | _ \<Rightarrow> False)"

definition moveOne ::
  "nat \<Rightarrow> 'w fsSession \<Rightarrow> 'w osys \<Rightarrow> path list \<Rightarrow> moveVet \<Rightarrow> path \<Rightarrow> path \<Rightarrow> bool \<Rightarrow> path \<Rightarrow> batchFolder option \<Rightarrow> 'w st
    \<Rightarrow> (one_result \<times> batchFolder option \<times> 'w st) option" where
  "moveOne n se os rawVols v destShare destCanon verify src batch s =
     (if \<not> allowedPath rawVols src then Some (failed_one [] (Plain OutsideAllowed), batch, s)
      else case os_canon os (Dir src) (ext s) of
          None \<Rightarrow> Some (failed_one [] (Plain CannotResolve), batch, s)
        | Some pCanon \<Rightarrow>
            (let cp = Join pCanon (Base src);
                 se1 = se\<lparr>track := map_option (\<lambda>t. t\<lparr>t_cp := cp\<rparr>) (track se)\<rparr>
             in case refuse (o_lower (dsm se)) v cp of
                  Some y \<Rightarrow> Some (failed_one cp (Plain (Refused y)), batch, s)
                | None \<Rightarrow>
                    (case (if v_tool v = ''empty_folders'' \<and> isDirIdent (v_idents v cp)
                           then (case confirmEmpty se1 os cp s of
                                   (Inl e, s1) \<Rightarrow> (Some (Plain (NotConfirmedEmpty e)), s1)
                                 | (Inr False, s1) \<Rightarrow> (Some (Plain NoLongerEmpty), s1)
                                 | (Inr True, s1) \<Rightarrow> (None, s1))
                           else (None, s)) of
                       (Some e, s1) \<Rightarrow> Some (failed_one cp e, batch, s1)
                     | (None, s1) \<Rightarrow> do {
                         ((at, err), b1, s2) \<leftarrow>
                           execMoveFSAt n se1 os src cp destShare destCanon (v_idents v cp) batch verify s1;
                         Some (\<lparr>o_cp = cp, o_at = at,
                                o_gone = (case err of None \<Rightarrow> True | Some e \<Rightarrow> is_movedBut e), o_err = err\<rparr>, b1, s2)
                       })))"

subsection \<open>The batch\<close>

datatype batch_err = NotAttemptedStopping | NotJournaled | EntryErr goerr

record 'w batchRun =
  br_st :: "'w st"
  br_batch :: "batchFolder option"
  br_jerr :: bool
  br_moved :: "path list"
  br_canon :: "path list"
  br_dirs :: "path list"
  br_landed :: "string list"
  br_any :: bool
  br_recorded :: bool
  br_errs :: "(path \<times> batch_err) list"

text \<open>A line of the batch itself, outside any entry's track; \<open>on\<close> says that there is a journal.\<close>

definition batch_write :: "'w fsSession \<Rightarrow> bool \<Rightarrow> journalLine \<Rightarrow> bool \<Rightarrow> 'w st \<Rightarrow> bool \<times> 'w st" where
  "batch_write se on l durable s =
     (if \<not> on then (True, s)
      else (let (o', w) = o_jwrite (dsm se) (ext s); (ok, f) = jwrite o' l durable (jf s)
            in (ok, s\<lparr>ext := w, jf := f\<rparr>)))"

definition disk_of :: "'w osys \<Rightarrow> 'w st \<Rightarrow> disk" where
  "disk_of os s = \<lparr>d_lstat = (\<lambda>p. os_lstat os p (ext s)), d_walk = (\<lambda>p. os_walk os p (ext s))\<rparr>"

definition batch_name :: "batchFolder option \<Rightarrow> gostring" where
  "batch_name b = (case b of None \<Rightarrow> [] | Some b \<Rightarrow> (case b_result b of Some (Inr name) \<Rightarrow> name | _ \<Rightarrow> []))"

text \<open>What one entry adds to the record of landings.\<close>

definition entry_landed ::
  "'w osys \<Rightarrow> path \<Rightarrow> path \<Rightarrow> one_result \<Rightarrow> batchFolder option \<Rightarrow> bool \<Rightarrow> 'w st \<Rightarrow> string list" where
  "entry_landed os src destCanon r batch recorded s =
     (if o_at r = [] then []
      else (case batch of
              None \<Rightarrow> [o_at r]
            | Some b \<Rightarrow> if \<not> recorded \<and> batch_name batch \<noteq> [] then [Join destCanon (batch_name batch)] else [])
        @ landedData (disk_of os s) (o_at r))
     @ (if o_gone r then [fromKey @ o_cp r, fromKey @ src] else [])"

definition done_line ::
  "(goerr \<Rightarrow> string) \<Rightarrow> path \<Rightarrow> path \<Rightarrow> one_result \<Rightarrow> string list \<Rightarrow> path list \<Rightarrow> path list \<Rightarrow> batchFolder option \<Rightarrow> journalLine" where
  "done_line msg src dest r landed left leftDirs batch =
     zero_line\<lparr>J_Done := src, J_Moved := (o_err r = None), J_MoveOut := landed, J_Gone := left, J_Dirs := leftDirs,
       J_Err := (case o_err r of None \<Rightarrow> [] | Some e \<Rightarrow> msg e),
       J_Folder := (if batch_name batch \<noteq> [] then Join dest (batch_name batch) else [])\<rparr>"

record move_args =
  ma_vols :: "path list"
  ma_vet :: moveVet
  ma_dest :: path
  ma_destShare :: path
  ma_destCanon :: path
  ma_verify :: bool
  ma_journal :: bool

definition move_entry ::
  "nat \<Rightarrow> (goerr \<Rightarrow> string) \<Rightarrow> 'w fsSession \<Rightarrow> 'w osys \<Rightarrow> move_args \<Rightarrow> path \<Rightarrow> 'w batchRun \<Rightarrow> 'w batchRun option" where
  "move_entry n msg se os a rawsrc b =
     (let src = Clean rawsrc in
      if os_stopping os (ext (br_st b))
      then Some (b\<lparr>br_errs := br_errs b @ [(src, NotAttemptedStopping)]\<rparr>)
      else
        let (started, s1) = (if br_jerr b then (False, br_st b)
              else batch_write se (ma_journal a) (zero_line\<lparr>J_Start := src\<rparr>) False (br_st b))
        in if \<not> started
           then Some (b\<lparr>br_st := s1, br_jerr := True, br_errs := br_errs b @ [(src, NotJournaled)]\<rparr>)
           else do {
             (r, bf, s2) \<leftarrow> moveOne n
               (se\<lparr>track := Some \<lparr>t_journal = ma_journal a, t_src = src, t_cp = [], t_destShare = ma_destShare a,
                                 t_destCanon = ma_destCanon a\<rparr>\<rparr>)
               os (ma_vols a) (ma_vet a) (ma_destShare a) (ma_destCanon a) (ma_verify a) src (br_batch b) s1;
             (let landed = entry_landed os src (ma_destCanon a) r bf (br_recorded b) s2;
                  isDir = isDirIdent (v_idents (ma_vet a) (o_cp r));
                  left = (if o_gone r then [o_cp r, src] else []);
                  leftDirs = (if o_gone r \<and> isDir then [o_cp r, src] else []);
                  (ok, s3) = batch_write se (ma_journal a) (done_line msg src (ma_dest a) r landed left leftDirs bf)
                               (landed \<noteq> [] \<or> o_gone r) s2
              in Some (b\<lparr>br_st := s3, br_batch := bf, br_jerr := \<not> ok,
                   br_moved := br_moved b @ (if o_err r = None then [src] else []),
                   br_canon := br_canon b @ (if o_gone r then [o_cp r] else []),
                   br_dirs := br_dirs b @ leftDirs,
                   br_landed := br_landed b @ landed,
                   br_any := br_any b \<or> o_at r \<noteq> [],
                   br_recorded := br_recorded b \<or> (o_at r \<noteq> [] \<and> bf \<noteq> None \<and> batch_name bf \<noteq> []),
                   br_errs := br_errs b @ (case o_err r of None \<Rightarrow> [] | Some e \<Rightarrow> [(src, EntryErr e)])\<rparr>))
           })"

fun move_entries ::
  "nat \<Rightarrow> (goerr \<Rightarrow> string) \<Rightarrow> 'w fsSession \<Rightarrow> 'w osys \<Rightarrow> move_args \<Rightarrow> path list \<Rightarrow> 'w batchRun \<Rightarrow> 'w batchRun option" where
  "move_entries n msg se os a [] b = Some b"
| "move_entries n msg se os a (f # fs) b = do { b1 \<leftarrow> move_entry n msg se os a f b; move_entries n msg se os a fs b1 }"

text \<open>A batch folder that received nothing is removed, when File Station shows it empty.\<close>

definition tidy_batch :: "'w fsSession \<Rightarrow> 'w batchRun \<Rightarrow> 'w batchRun" where
  "tidy_batch se b =
     (case br_batch b of
        None \<Rightarrow> b
      | Some bf \<Rightarrow>
          if batch_name (br_batch b) = [] \<or> br_any b then b
          else (let share = b_destShare bf @ ''/'' @ batch_name (br_batch b) in
            case folderIsEmpty se share (br_st b) of
              (Inr True, s1) \<Rightarrow>
                (case removeEmptyFolder se share s1 of
                   (None, s2) \<Rightarrow> b\<lparr>br_st := s2, br_batch := Some (bf\<lparr>b_result := Some (Inr [])\<rparr>)\<rparr>
                 | (Some _, s2) \<Rightarrow> b\<lparr>br_st := s2\<rparr>)
            | (_, s1) \<Rightarrow> b\<lparr>br_st := s1\<rparr>))"

record batch_report =
  rp_total :: nat
  rp_moved :: "path list"
  rp_errors :: "(path \<times> batch_err) list"
  rp_folder :: path

text \<open>After the loop: the server's results and record of moved copies are updated, the report is made,
  and the journal goes once they are saved.\<close>

definition batch_end ::
  "'w fsSession \<Rightarrow> move_args \<Rightarrow> MoveReq \<Rightarrow> (path \<Rightarrow> path) \<Rightarrow> ('w st \<Rightarrow> bool) \<Rightarrow> server \<times> moveOutSet \<Rightarrow> 'w batchRun
    \<Rightarrow> batch_report option \<times> (server \<times> moveOutSet) \<times> 'w st \<times> jfile option" where
  "batch_end se a req canon save_ok srv b =
     (let b1 = tidy_batch se b;
          out = (if br_landed b1 \<noteq> [] then moveOut_with (snd srv) (br_landed b1) else snd srv);
          srv1 = (if br_canon b1 \<noteq> [] then pruneMoved (br_canon b1) (br_dirs b1) canon (fst srv) else fst srv);
          saved = (if br_any b1 \<or> br_canon b1 \<noteq> [] then save_ok (br_st b1) else True);
          rep = \<lparr>rp_total = length (RFiles req), rp_moved = br_moved b1, rp_errors = br_errs b1,
                 rp_folder = (if batch_name (br_batch b1) \<noteq> [] then Join (ma_dest a) (batch_name (br_batch b1)) else [])\<rparr>
      in (Some rep, (srv1, out), br_st b1,
          if \<not> ma_journal a then Some (jf (br_st b1))
          else jfinish (fst (o_jwrite (dsm se) (ext (br_st b1)))) saved (jf (br_st b1))))"

definition start_batch :: "move_args \<Rightarrow> gostring option \<Rightarrow> 'w st \<Rightarrow> 'w batchRun" where
  "start_batch a folder s =
     \<lparr>br_st = s, br_batch = map_option (\<lambda>nm. \<lparr>b_destShare = ma_destShare a, b_base = nm, b_result = None\<rparr>) folder,
      br_jerr = False, br_moved = [], br_canon = [], br_dirs = [], br_landed = [], br_any = False,
      br_recorded = False, br_errs = []\<rparr>"

text \<open>The batch from its journal's first line to its report.\<close>

definition move_batch ::
  "nat \<Rightarrow> (goerr \<Rightarrow> string) \<Rightarrow> 'w fsSession \<Rightarrow> 'w osys \<Rightarrow> move_args \<Rightarrow> MoveReq \<Rightarrow> string \<Rightarrow> gostring option
    \<Rightarrow> (path \<Rightarrow> path) \<Rightarrow> ('w st \<Rightarrow> bool) \<Rightarrow> server \<times> moveOutSet \<Rightarrow> 'w st
    \<Rightarrow> (batch_report option \<times> (server \<times> moveOutSet) \<times> 'w st \<times> jfile option) option" where
  "move_batch n msg se os a req jid folder canon save_ok srv s =
     (let (ok, s1) = batch_write se (ma_journal a)
            (zero_line\<lparr>J_Begin := Some \<lparr>B_ID = jid, B_Tool = RTool req, B_Dest = ma_dest a, B_Files = RFiles req\<rparr>\<rparr>) True s
      in if \<not> ok then Some (None, srv, s1, Some (jf s1))
         else do {
           b \<leftarrow> move_entries n msg se os a (RFiles req) (start_batch a folder s1);
           Some (batch_end se a req canon save_ok srv b)
         })"

text \<open>The requests \<open>decodeMoveRequest\<close> turns away, and the folder name of the others.\<close>

datatype decode_err = PostRequired | BadBody | NoFiles | ReadOnlyTool | UnknownTool

definition readOnlyTools :: "string list" where
  "readOnlyTools = [''corrupted_files'']"

definition decodeMoveRequest :: "bool \<Rightarrow> MoveReq option \<Rightarrow> decode_err + MoveReq \<times> gostring" where
  "decodeMoveRequest post body =
     (if \<not> post then Inl PostRequired
      else case body of
          None \<Rightarrow> Inl BadBody
        | Some req \<Rightarrow>
            if RFiles req = [] then Inl NoFiles
            else if RTool req \<in> set readOnlyTools then Inl ReadOnlyTool
            else case moveFolderNames (RTool req) of None \<Rightarrow> Inl UnknownTool | Some f \<Rightarrow> Inr (req, f))"

end
