(* ===== verification/MoveBatch.thy ===== *)
theory MoveBatch
  imports TransitSafety MoveExec "HOL-Library.Multiset"
begin

text \<open>
  The guarantees of the execution in \<open>server/move.go\<close>: what a verified move that reports success
  has read, and the books a batch keeps (its report, the record of landings).
\<close>

subsection \<open>A verified move read what it moved\<close>

lemma transitCopy_verified:
  assumes "transitCopy n se os src out outFS want ref s = Some (Inr name, s')"
  shows "\<exists>hex s1. copy_fault se os (Join (Join outFS (stagingPrefix @ hex)) (Base src)) ref s1 = None"
  using assms
  by (auto simp: transitCopy_def Let_def split: option.splits bind_splits prod.splits goerr.splits)

lemma transit_verified:
  assumes "transitViaFS n se os cp src out outFS want ref s = Some ((name, None), s')"
  shows "\<exists>hex s1. copy_fault se os (Join (Join outFS (stagingPrefix @ hex)) (Base src)) ref s1 = None"
  using assms transitCopy_verified
  by (fastforce simp: transitViaFS_def split: bind_splits sum.splits)

lemma exec_checksD:
  assumes "exec_checks se os cp destShare destCanon wants flat s = (Inr (srcShare, e, want), s1)"
  shows "shareSpacePath (shareTab se) cp = Some srcShare" "s1 = snd (getInfo se [srcShare] True s)"
    "info_entry srcShare (fst (getInfo se [srcShare] True s)) = Some e"
    "identMatches (o_fmt (dsm se)) e wants = Some want"
  using assms by (auto simp: exec_checks_def split: option.splits prod.splits sum.splits if_splits)

lemma exec_referenceD:
  assumes "exec_reference se os cp destCanon e want True s = Inr (h, ref)"
  shows "\<not> FIsDir e \<Longrightarrow> verifyRead se cp s = Some h \<and> (i_hash want \<noteq> [] \<longrightarrow> h = i_hash want)"
    "crossesFS os (Dir cp) destCanon s \<Longrightarrow> \<exists>rf. ref = Some rf \<and> ref_isDir rf = FIsDir e
       \<and> (\<not> FIsDir e \<longrightarrow> ref_hash rf = h) \<and> (FIsDir e \<longrightarrow> takeManifest se os cp True s = Inr (ref_man rf))"
    "\<not> crossesFS os (Dir cp) destCanon s \<Longrightarrow> ref = None"
  using assms
  by (auto simp: exec_reference_def preMoveHash_def split: sum.splits if_splits option.splits)

lemma exec_move_direct:
  assumes "exec_move n se os cp srcShare destShare destCanon out e want True h None s = Some ((at, None), s')"
    and "\<not> FIsDir e"
  shows "verifyRead se at s' = Some h"
  using assms
  by (auto simp: exec_move_def Let_def verifyMoved_def split: bind_splits option.splits goerr.splits if_splits)

lemma exec_move_transit:
  assumes "exec_move n se os cp srcShare destShare destCanon out e want True h (Some rf) s = Some ((at, None), s')"
  shows "\<exists>p s1. copy_fault se os p rf s1 = None"
  using assms transit_verified by (fastforce simp: exec_move_def Let_def split: bind_splits)


subsection \<open>A batch keeps its books\<close>

definition books :: "path list \<Rightarrow> 'w batchRun \<Rightarrow> bool" where
  "books fs b \<longleftrightarrow> mset (br_moved b) + mset (map fst (br_errs b)) = mset (map Clean fs)
     \<and> (\<forall>p\<in>set (br_moved b). fromKey @ p \<in> set (br_landed b) \<and> br_canon b \<noteq> [])"

lemma moveOne_gone:
  "moveOne n se os vols v ds dc ver src batch s = Some (r, b1, s') \<Longrightarrow> o_err r = None \<Longrightarrow> o_gone r"
  by (auto simp: moveOne_def Let_def failed_one_def split: if_splits option.splits prod.splits bind_splits)

lemma move_entry_books:
  assumes "books fs b" "move_entry n msg se os a f b = Some b'"
  shows "books (fs @ [f]) b'"
proof (cases "os_stopping os (ext (br_st b))")
  case True
  then show ?thesis using assms by (auto simp: move_entry_def books_def)
next
  case stop: False
  obtain started s1 where st: "(if br_jerr b then (False, br_st b)
      else batch_write se (ma_journal a) (zero_line\<lparr>J_Start := Clean f\<rparr>) False (br_st b)) = (started, s1)"
    by (metis surj_pair)
  show ?thesis
  proof (cases started)
    case False
    then show ?thesis using assms stop st by (auto simp: move_entry_def books_def Let_def)
  next
    case True
    let ?se = "se\<lparr>track := Some \<lparr>t_journal = ma_journal a, t_src = Clean f, t_cp = [],
        t_destShare = ma_destShare a, t_destCanon = ma_destCanon a\<rparr>\<rparr>"
    obtain r bf s2 where m: "moveOne n ?se os (ma_vols a) (ma_vet a) (ma_destShare a) (ma_destCanon a)
        (ma_verify a) (Clean f) (br_batch b) s1 = Some (r, bf, s2)"
      using assms(2) stop st True by (auto simp: move_entry_def Let_def split: bind_splits)
    obtain L where b': "br_moved b' = br_moved b @ (if o_err r = None then [Clean f] else [])"
      "br_canon b' = br_canon b @ (if o_gone r then [o_cp r] else [])"
      "br_landed b' = br_landed b @ L @ (if o_gone r then [fromKey @ o_cp r, fromKey @ Clean f] else [])"
      "br_errs b' = br_errs b @ (case o_err r of None \<Rightarrow> [] | Some e \<Rightarrow> [(Clean f, EntryErr e)])"
      using assms(2) stop st True m
      by (auto simp: move_entry_def Let_def entry_landed_def split: bind_splits prod.splits)
    show ?thesis
      using assms(1) moveOne_gone [OF m] unfolding books_def b'
      by (auto split: option.splits)
  qed
qed

lemma move_entries_books:
  "books fs b \<Longrightarrow> move_entries n msg se os a gs b = Some b' \<Longrightarrow> books (fs @ gs) b'"
proof (induction gs arbitrary: fs b)
  case (Cons g gs)
  then obtain b1 where "move_entry n msg se os a g b = Some b1" "move_entries n msg se os a gs b1 = Some b'"
    by (auto split: bind_splits)
  then show ?case using Cons.IH [OF move_entry_books [OF Cons.prems(1)]] by simp
qed simp

lemma tidy_batch_same [simp]:
  "br_moved (tidy_batch se b) = br_moved b" "br_errs (tidy_batch se b) = br_errs b"
  "br_landed (tidy_batch se b) = br_landed b" "br_canon (tidy_batch se b) = br_canon b"
  "br_dirs (tidy_batch se b) = br_dirs b"
  by (simp_all add: tidy_batch_def Let_def split: option.splits sum.splits prod.splits bool.splits)

lemma tidy_batch_books: "books fs b \<Longrightarrow> books fs (tidy_batch se b)"
  by (simp add: books_def)


subsection \<open>A move in a small world\<close>

text \<open>The world of \<open>mini_dsm\<close>, with a share, a volume and readable contents.\<close>

definition box_session :: "mini fsSession" where
  "box_session = \<lparr>dsm = (mini_dsm False [])\<lparr>o_hash := (\<lambda>p w. if p = ''/v'' @ m_place w then Some ''h'' else None)\<rparr>,
     shareTab = Some [\<lparr>share_name = ''s'', real = ''/v/s'', resolved = ''/v/s''\<rparr>], track = None\<rparr>"

definition box_osys :: "mini osys" where
  "box_osys = no_osys\<lparr>os_vols := [''/v''], os_canon := (\<lambda>p _. Some p),
     os_stat := (\<lambda>_ _. Some ex_finfo)\<rparr>"


definition box_vet :: moveVet where
  "box_vet = \<lparr>v_tool = ''duplicates'', v_canonRefs = [], v_allowed = {''/v/s/a.tmp''},
     v_idents = (\<lambda>p. if p = ''/v/s/a.tmp'' then [mini_want] else []), v_keepers = {}, v_drops = {},
     v_outHeld = {}, v_staleHeld = {}, v_selfm = [], v_groups = [], v_requested = {}, v_exists = {},
     v_isOut = (\<lambda>_. False), v_vols = [''/v'']\<rparr>"

definition box_state :: "mini st" where
  "box_state = mini_state\<lparr>ext := \<lparr>m_place = ''/s/a.tmp'', m_going = None, m_task = None\<rparr>\<rparr>"

definition box_args :: move_args where
  "box_args = \<lparr>ma_vols = [''/v''], ma_vet = box_vet, ma_dest = ''/v/o'', ma_destShare = ''/o'',
     ma_destCanon = ''/v/o'', ma_verify = True, ma_journal = True\<rparr>"

definition box_req :: MoveReq where
  "box_req = \<lparr>RFiles = [''/v/s/b.tmp'', ''/v/s/a.tmp''], RDest = ''/v/o'', Preserve = False,
     RTool = ''duplicates'', Verify = True, RID = []\<rparr>"




end
