(* ===== verification/Binary.thy ===== *)
theory Binary
  imports Prelude "HOL-Library.Word"
begin

unbundle bit_operations_syntax

text \<open>
  What the program uses of Go's encoding packages: fixed little-endian integers and varints
  (\<open>encoding/binary\<close>), hexadecimal text (\<open>encoding/hex\<close>) and the FNV-1a hash
  (\<open>hash/fnv\<close>).  The lemmas are the round trips its readers rest on.
\<close>

subsection \<open>Fixed-size integers\<close>

fun put_le :: "nat \<Rightarrow> nat \<Rightarrow> gostring" where
  "put_le 0 x = []"
| "put_le (Suc n) x = char_of (x mod 256) # put_le n (x div 256)"

fun get_le :: "gostring \<Rightarrow> nat" where
  "get_le [] = 0"
| "get_le (c # cs) = of_char c + 256 * get_le cs"

lemma length_put_le [simp]: "length (put_le n x) = n"
  by (induction n arbitrary: x) auto

lemma get_put_le: "get_le (put_le n x) = x mod 256 ^ n"
  by (induction n arbitrary: x) (auto simp: mod_mult2_eq)

text \<open>A signed 64-bit number as its bit pattern, and back.\<close>

definition put_int64 :: "int \<Rightarrow> gostring" where
  "put_int64 i = put_le 8 (unat (word_of_int i :: 64 word))"

definition get_int64 :: "gostring \<Rightarrow> int" where
  "get_int64 bs = sint (of_nat (get_le bs) :: 64 word)"

definition is_int64 :: "int \<Rightarrow> bool" where
  "is_int64 i \<longleftrightarrow> - (2 ^ 63) \<le> i \<and> i < 2 ^ 63"

lemma length_put_int64 [simp]: "length (put_int64 i) = 8"
  by (simp add: put_int64_def)

lemma get_put_int64: "is_int64 i \<Longrightarrow> get_int64 (put_int64 i) = i"
proof -
  assume i: "is_int64 i"
  have "unat (word_of_int i :: 64 word) < 256 ^ 8"
    using unsigned_less [of "word_of_int i :: 64 word"] by simp
  then have "get_int64 (put_int64 i) = sint (word_of_int i :: 64 word)"
    by (simp add: get_int64_def put_int64_def get_put_le)
  also have "\<dots> = i" using i
    by (simp add: is_int64_def signed_of_int signed_take_bit_int_eq_self_iff)
  finally show ?thesis .
qed

subsection \<open>Varints\<close>

fun put_uvarint :: "nat \<Rightarrow> gostring" where
  "put_uvarint x = (if x < 128 then [char_of x] else char_of (x mod 128 + 128) # put_uvarint (x div 128))"

declare put_uvarint.simps [simp del]

text \<open>\<open>ReadUvarint\<close>; the number of bytes it still accepts counts down from ten, and the tenth
  may only carry the top bit.\<close>

fun read_uvarint_n :: "nat \<Rightarrow> gostring \<Rightarrow> (nat \<times> gostring) option" where
  "read_uvarint_n 0 bs = None"
| "read_uvarint_n (Suc k) [] = None"
| "read_uvarint_n (Suc k) (b # bs) =
     (let v = (of_char b :: nat) in
      if v < 128 then (if k = 0 \<and> v > 1 then None else Some (v, bs))
      else (case read_uvarint_n k bs of
              None \<Rightarrow> None
            | Some (x, r) \<Rightarrow> Some (v - 128 + 128 * x, r)))"

definition read_uvarint :: "gostring \<Rightarrow> (nat \<times> gostring) option" where
  "read_uvarint bs = read_uvarint_n 10 bs"

definition put_varint :: "int \<Rightarrow> gostring" where
  "put_varint x = put_uvarint (nat (if x < 0 then - 2 * x - 1 else 2 * x))"

definition read_varint :: "gostring \<Rightarrow> (int \<times> gostring) option" where
  "read_varint bs =
     (case read_uvarint bs of
        None \<Rightarrow> None
      | Some (ux, r) \<Rightarrow> Some (let x = int (ux div 2) in if odd ux then - x - 1 else x, r))"

lemma read_put_uvarint_n:
  "x < 2 * 128 ^ k \<Longrightarrow> read_uvarint_n (Suc k) (put_uvarint x @ r) = Some (x, r)"
proof (induction k arbitrary: x)
  case 0
  then show ?case by (subst put_uvarint.simps) (auto simp: Let_def)
next
  case (Suc k)
  show ?case
  proof (cases "x < 128")
    case True
    then show ?thesis by (subst put_uvarint.simps) (auto simp: Let_def)
  next
    case False
    have "x div 128 < 2 * 128 ^ k" using Suc.prems by (simp add: div_less_iff_less_mult)
    then have "read_uvarint_n (Suc k) (put_uvarint (x div 128) @ r) = Some (x div 128, r)" by (rule Suc.IH)
    moreover have "x mod 128 + 128 < 256" using mod_less_divisor [of 128 x] by simp
    then have "of_char (char_of (x mod 128 + 128) :: char) = x mod 128 + (128 :: nat)" by simp
    ultimately show ?thesis using False
      by (subst put_uvarint.simps) (simp add: Let_def)
  qed
qed

lemma read_put_uvarint [simp]: "x < 2 ^ 64 \<Longrightarrow> read_uvarint (put_uvarint x @ r) = Some (x, r)"
  using read_put_uvarint_n [of x 9 r] by (simp add: read_uvarint_def)

lemma read_put_varint [simp]: "is_int64 x \<Longrightarrow> read_varint (put_varint x @ r) = Some (x, r)"
proof -
  assume "is_int64 x"
  then have "nat (if x < 0 then - 2 * x - 1 else 2 * x) < 2 ^ 64" by (auto simp: is_int64_def)
  then have "read_uvarint (put_varint x @ r) = Some (nat (if x < 0 then - 2 * x - 1 else 2 * x), r)"
    unfolding put_varint_def by (rule read_put_uvarint)
  then show ?thesis
    by (cases "x < 0") (auto simp: read_varint_def Let_def even_nat_iff nat_div_distrib)
qed

subsection \<open>Hexadecimal text\<close>

definition hex_char :: "nat \<Rightarrow> char" where
  "hex_char d = (if d < 10 then char_of (48 + d) else char_of (87 + d))"

definition EncodeToString :: "gostring \<Rightarrow> gostring" where
  "EncodeToString bs = concat (map (\<lambda>c. [hex_char (of_char c div 16), hex_char (of_char c mod 16)]) bs)"

definition fromHexChar :: "char \<Rightarrow> nat option" where
  "fromHexChar c =
     (let n = (of_char c :: nat) in
      if 48 \<le> n \<and> n \<le> 57 then Some (n - 48)
      else if 97 \<le> n \<and> n \<le> 102 then Some (n - 87)
      else if 65 \<le> n \<and> n \<le> 70 then Some (n - 55)
      else None)"

fun DecodeString :: "gostring \<Rightarrow> gostring option" where
  "DecodeString [] = Some []"
| "DecodeString [c] = None"
| "DecodeString (c # d # cs) =
     (case (fromHexChar c, fromHexChar d) of
        (Some a, Some b) \<Rightarrow> map_option ((#) (char_of (16 * a + b))) (DecodeString cs)
      | _ \<Rightarrow> None)"

lemma fromHexChar_hex_char: "d < 16 \<Longrightarrow> fromHexChar (hex_char d) = Some d"
  by (auto simp: fromHexChar_def hex_char_def Let_def)

lemma Decode_Encode [simp]: "DecodeString (EncodeToString bs) = Some bs"
proof (induction bs)
  case (Cons c bs)
  have "(of_char c :: nat) < 256" by simp
  then have "(of_char c :: nat) div 16 < 16" by (intro less_mult_imp_div_less) simp
  moreover have "(of_char c :: nat) mod 16 < 16" by simp
  ultimately show ?case using Cons by (simp add: EncodeToString_def fromHexChar_hex_char)
qed (simp add: EncodeToString_def)

lemma length_Encode [simp]: "length (EncodeToString bs) = 2 * length bs"
  by (induction bs) (simp_all add: EncodeToString_def)

lemma Encode_inject: "EncodeToString a = EncodeToString b \<Longrightarrow> a = b"
  by (metis Decode_Encode option.inject)

subsection \<open>FNV-1a\<close>

type_synonym key = "64 word"

definition fnv64a :: "gostring \<Rightarrow> key" where
  "fnv64a bs = fold (\<lambda>c h. (h XOR of_nat (of_char c)) * 0x100000001b3) bs 0xcbf29ce484222325"

end
