(* ===== verification/KeyCounter.thy ===== *)
theory KeyCounter
  imports Binary "HOL-Library.AList" "HOL-Library.Multiset"
begin

unbundle bit_operations_syntax

text \<open>
  \<open>keyCounter\<close> of \<open>server/stream.go\<close>: did more than one file have this candidate key?
  A map counts the keys exactly until it holds too many; then a table of two-bit counters, packed four to
  a byte, takes over, with two slots per key.  Keys, slots and the mask are 64-bit words.  The map is an
  association list; the order in which \<open>degrade\<close> meets its entries is the list's, and
  \<open>degrade_any_order\<close> shows that it does not matter.  The lemmas show that the counter misses no key
  that was added twice, and that its memory and its counters stay bounded.
\<close>

text \<open>The two package variables, which the tests shrink.\<close>

record counterSizes =
  keyCounterExactMax :: nat
  keyCounterTabBits :: nat

definition counterDefaults :: counterSizes where
  "counterDefaults = \<lparr>keyCounterExactMax = 2 * 2 ^ 20, keyCounterTabBits = 28\<rparr>"

record keyCounter =
  k_exact :: "(key \<times> nat) list option"
  k_tab :: "8 word list option"
  k_mask :: key
  k_share :: nat

definition newKeyCounterShare :: "nat \<Rightarrow> keyCounter" where
  "newKeyCounterShare share = \<lparr>k_exact = Some [], k_tab = None, k_mask = 0, k_share = share\<rparr>"

definition exactMax :: "counterSizes \<Rightarrow> keyCounter \<Rightarrow> nat" where
  "exactMax z k = (let m = keyCounterExactMax z div 2 ^ k_share k in if m < 1 then 1 else m)"

subsection \<open>The table\<close>

definition mix :: "key \<Rightarrow> key" where
  "mix x0 =
     (let x1 = x0 XOR drop_bit 33 x0;
          x2 = x1 * 0xff51afd7ed558ccd;
          x3 = x2 XOR drop_bit 33 x2;
          x4 = x3 * 0xc4ceb9fe1a85ec53
      in x4 XOR drop_bit 33 x4)"

definition slots :: "key \<Rightarrow> key \<Rightarrow> key \<times> key" where
  "slots msk key = (key AND msk, mix key AND msk)"

definition cell :: "key \<Rightarrow> nat" where
  "cell p = unat (drop_bit 2 p)"

definition shift :: "key \<Rightarrow> nat" where
  "shift p = unat (p AND 3) * 2"

definition get_slot :: "8 word list \<Rightarrow> key \<Rightarrow> 8 word" where
  "get_slot tab p = drop_bit (shift p) (tab ! cell p) AND 3"

definition bumpAt :: "key \<Rightarrow> 8 word list \<Rightarrow> 8 word list" where
  "bumpAt p tab =
     (let v = get_slot tab p in
      if v < 2
      then tab[cell p := (tab ! cell p AND NOT (push_bit (shift p) 3)) OR push_bit (shift p) (v + 1)]
      else tab)"

definition bump :: "key \<Rightarrow> key \<Rightarrow> 8 word list \<Rightarrow> 8 word list" where
  "bump msk key tab = (let (a, b) = slots msk key in bumpAt b (bumpAt a tab))"

subsection \<open>The counter\<close>

definition tab_bits :: "counterSizes \<Rightarrow> keyCounter \<Rightarrow> nat" where
  "tab_bits z k =
     (if keyCounterTabBits z > k_share k + 2 then keyCounterTabBits z - k_share k else keyCounterTabBits z)"

definition degrade_entry :: "key \<Rightarrow> key \<times> nat \<Rightarrow> 8 word list \<Rightarrow> 8 word list" where
  "degrade_entry msk e t =
     (let t1 = bump msk (fst e) t in if snd e \<ge> 2 then bump msk (fst e) t1 else t1)"

definition degrade_table :: "key \<Rightarrow> (key \<times> nat) list \<Rightarrow> 8 word list \<Rightarrow> 8 word list" where
  "degrade_table msk m tab = fold (degrade_entry msk) m tab"

definition degrade :: "counterSizes \<Rightarrow> keyCounter \<Rightarrow> keyCounter" where
  "degrade z k =
     (let bits = tab_bits z k; msk = push_bit bits 1 - 1 in
      k\<lparr>k_tab := Some (degrade_table msk (case k_exact k of None \<Rightarrow> [] | Some m \<Rightarrow> m) (replicate (2 ^ (bits - 2)) 0)),
        k_mask := msk, k_exact := None\<rparr>)"

definition exact_count :: "(key \<times> nat) list \<Rightarrow> key \<Rightarrow> nat" where
  "exact_count m key = (case map_of m key of None \<Rightarrow> 0 | Some c \<Rightarrow> c)"

definition kc_add :: "counterSizes \<Rightarrow> key \<Rightarrow> keyCounter \<Rightarrow> keyCounter" where
  "kc_add z key k =
     (case k_exact k of
        Some m \<Rightarrow>
          (let c = exact_count m key;
               k1 = (if c < 2 then k\<lparr>k_exact := Some (AList.update key (c + 1) m)\<rparr> else k)
           in if length (the (k_exact k1)) > exactMax z k1 then degrade z k1 else k1)
      | None \<Rightarrow> k\<lparr>k_tab := map_option (bump (k_mask k) key) (k_tab k)\<rparr>)"

definition hot :: "keyCounter \<Rightarrow> key \<Rightarrow> bool" where
  "hot k key =
     (case k_exact k of
        Some m \<Rightarrow> exact_count m key \<ge> 2
      | None \<Rightarrow>
          (case k_tab k of
             None \<Rightarrow> False
           | Some tab \<Rightarrow>
               (let (a, b) = slots (k_mask k) key in get_slot tab a \<ge> 2 \<and> get_slot tab b \<ge> 2)))"

definition kc_release :: "keyCounter \<Rightarrow> keyCounter" where
  "kc_release k = k\<lparr>k_exact := None, k_tab := None\<rparr>"

subsection \<open>Two-bit counters\<close>

lemma bit_3_int: "bit (3::int) n \<longleftrightarrow> n < 2"
proof -
  have "(3::int) = mask 2" by (simp add: mask_eq_exp_minus_1)
  then show ?thesis using bit_mask_iff [where 'a = int, of 2 n] by (simp only:) simp
qed

lemma bit_3_8: "bit (3::8 word) n \<longleftrightarrow> n < 2"
  by (auto simp: bit_3_int)

lemma shift_cases: "shift p \<in> {0, 2, 4, 6}"
proof -
  have "p AND 3 = take_bit 2 p" by (simp add: take_bit_eq_mask mask_eq_decr_exp)
  then have "unat (p AND 3) < 4"
    by (metis take_bit_nat_less_exp unsigned_take_bit_eq power2_eq_square mult_2 numeral_Bit0)
  then have "unat (p AND 3) \<in> {0, 1, 2, 3}" by auto
  then show ?thesis by (auto simp: shift_def)
qed

lemma field_bit: "bit (drop_bit s (b::8 word) AND 3) n \<longleftrightarrow> bit b (s + n) \<and> n < 2"
  by (simp add: bit_simps bit_3_int) (auto dest: bit_imp_le_length)

lemma field_same:
  fixes b v :: "8 word"
  assumes "s \<in> {0, 2, 4, 6}"
  shows "drop_bit s ((b AND NOT (push_bit s 3)) OR push_bit s v) AND 3 = v AND 3"
proof (rule bit_word_eqI)
  fix n
  show "bit (drop_bit s ((b AND NOT (push_bit s 3)) OR push_bit s v) AND 3) n = bit (v AND 3) n"
    using assms by (cases "n < 2") (auto simp: field_bit bit_simps bit_3_int)
qed

lemma field_other:
  fixes b v :: "8 word"
  assumes "s \<in> {0, 2, 4, 6}" "t \<in> {0, 2, 4, 6}" "s \<noteq> t" "v AND 3 = v"
  shows "drop_bit t ((b AND NOT (push_bit s 3)) OR push_bit s v) AND 3 = drop_bit t b AND 3"
proof (rule bit_word_eqI)
  fix n
  have v: "bit v (t + n - s) \<Longrightarrow> t + n - s < 2" using assms(4) by (metis bit_3_8 bit_and_iff)
  show "bit (drop_bit t ((b AND NOT (push_bit s 3)) OR push_bit s v) AND 3) n = bit (drop_bit t b AND 3) n"
  proof (cases "n < 2")
    case True
    have "\<not> (s \<le> t + n \<and> t + n - s < 2)" using assms(1-3) True by auto
    moreover have "t + n < 8" using assms(2) True by auto
    ultimately show ?thesis using True v by (auto simp: field_bit bit_simps bit_3_int)
  qed (auto simp: bit_simps bit_3_int)
qed


text \<open>Slots of different words differ in their cell or in their shift.\<close>

lemma slot_eqI: "cell p = cell q \<Longrightarrow> shift p = shift q \<Longrightarrow> p = q"
proof (rule bit_word_eqI)
  fix n
  assume c: "cell p = cell q" "shift p = shift q"
  then have d: "drop_bit 2 p = drop_bit 2 q" "p AND 3 = q AND 3"
    by (auto simp: cell_def shift_def unsigned_word_eqI word_unat_eq_iff)
  have "bit (3::64 word) n \<longleftrightarrow> n < 2" by (auto simp: bit_3_int)
  then show "bit p n = bit q n"
    using arg_cong [OF d(1), of "\<lambda>w. bit w (n - 2)"] arg_cong [OF d(2), of "\<lambda>w. bit w n"]
    by (cases n rule: nat.exhaust [case_names 0 S]; cases "n - 1") (auto simp: bit_simps bit_3_int)
qed

lemma get_slot_and_3: "get_slot tab p AND 3 = get_slot tab p"
  by (simp add: get_slot_def and.assoc)

lemma length_bumpAt [simp]: "length (bumpAt p tab) = length tab"
  by (simp add: bumpAt_def Let_def)

lemma succ_and_3: "(v::8 word) < 2 \<Longrightarrow> (v + 1) AND 3 = v + 1"
proof -
  assume "v < 2"
  then have "v = 0 \<or> v = 1" by (auto simp: word_unat_eq_iff word_less_nat_alt)
  then show ?thesis by auto
qed

lemma get_bumpAt_same:
  assumes "cell p < length tab"
  shows "get_slot (bumpAt p tab) p = (if get_slot tab p < 2 then get_slot tab p + 1 else get_slot tab p)"
  using assms field_same [OF shift_cases [of p], of "tab ! cell p" "get_slot tab p + 1"] succ_and_3
  by (auto simp: bumpAt_def Let_def get_slot_def)

lemma get_bumpAt_other:
  assumes "p \<noteq> q" "cell p < length tab"
  shows "get_slot (bumpAt p tab) q = get_slot tab q"
proof (cases "get_slot tab p < 2 \<and> cell p = cell q")
  case True
  then have "shift p \<noteq> shift q" using slot_eqI assms(1) by blast
  then show ?thesis
    using True assms(2) field_other [OF shift_cases [of p] shift_cases [of q], of "get_slot tab p + 1" "tab ! cell p"]
      succ_and_3
    by (simp add: bumpAt_def Let_def get_slot_def)
next
  case False
  then show ?thesis by (auto simp: bumpAt_def Let_def get_slot_def)
qed


definition cnt :: "8 word list \<Rightarrow> key \<Rightarrow> nat" where
  "cnt tab p = unat (get_slot tab p)"

lemma length_bump [simp]: "length (bump m key tab) = length tab"
  by (simp add: bump_def slots_def)

lemma length_degrade_table [simp]: "length (degrade_table msk m tab) = length tab"
  by (induction m arbitrary: tab) (auto simp: degrade_table_def degrade_entry_def Let_def)

lemma cnt_bumpAt:
  assumes "cell p < length tab"
  shows "cnt (bumpAt p tab) q = (if q = p \<and> cnt tab p < 2 then cnt tab p + 1 else cnt tab q)"
proof (cases "q = p")
  case True
  have "unat (v + 1) = unat v + 1" if "v < 2" for v :: "8 word"
    using that by (simp add: word_less_nat_alt unat_word_ariths(1))
  then show ?thesis
    using True get_bumpAt_same [OF assms] by (auto simp: cnt_def word_less_nat_alt)
next
  case False
  then show ?thesis using get_bumpAt_other [OF _ assms] by (simp add: cnt_def)
qed

text \<open>A table whose slots are all in range; what bumping does to its counters.\<close>

definition fits :: "key \<Rightarrow> 8 word list \<Rightarrow> bool" where
  "fits msk tab \<longleftrightarrow> (\<forall>p. cell (p AND msk) < length tab)"

lemma fits_new: "2 \<le> bits \<Longrightarrow> fits (push_bit bits 1 - 1) (replicate (2 ^ (bits - 2)) x)"
proof -
  assume b: "2 \<le> bits"
  have "cell (p AND (push_bit bits 1 - 1)) < 2 ^ (bits - 2)" for p
  proof -
    have "p AND (push_bit bits 1 - 1) = take_bit bits p"
      by (simp add: take_bit_eq_mask mask_eq_decr_exp push_bit_eq_mult)
    moreover have "take_bit 64 (unat p) = unat p"
      using unsigned_less [of p] by (intro take_bit_nat_eq_self) simp
    then have "take_bit (min 64 bits) (unat p) = take_bit bits (unat p)"
      by (metis min.commute take_bit_take_bit)
    ultimately have "cell (p AND (push_bit bits 1 - 1)) = drop_bit 2 (take_bit bits (unat p))"
      by (simp add: cell_def unsigned_drop_bit_eq unsigned_take_bit_eq)
    also have "\<dots> = take_bit (bits - 2) (drop_bit 2 (unat p))" by (simp add: drop_bit_take_bit)
    finally show ?thesis by simp
  qed
  then show ?thesis by (simp add: fits_def)
qed

lemma fits_bump [simp]: "fits m (bump msk key tab) = fits m tab"
  by (simp add: fits_def)

lemma bump_counts:
  assumes "fits msk tab" "slots msk key = (a, b)"
  shows "cnt tab q \<le> cnt (bump msk key tab) q"
    and "min 2 (cnt tab a + 1) \<le> cnt (bump msk key tab) a" "min 2 (cnt tab b + 1) \<le> cnt (bump msk key tab) b"
    and "cnt tab q \<le> 2 \<Longrightarrow> cnt (bump msk key tab) q \<le> 2"
proof -
  have "cell a < length tab" "cell b < length (bumpAt a tab)"
    using assms by (auto simp: fits_def slots_def)
  note c = cnt_bumpAt [OF this(1)] cnt_bumpAt [OF this(2)]
  show "cnt tab q \<le> cnt (bump msk key tab) q" "min 2 (cnt tab a + 1) \<le> cnt (bump msk key tab) a"
    "min 2 (cnt tab b + 1) \<le> cnt (bump msk key tab) b" "cnt tab q \<le> 2 \<Longrightarrow> cnt (bump msk key tab) q \<le> 2"
    by (auto simp: bump_def assms(2) c)
qed

definition small :: "8 word list \<Rightarrow> bool" where
  "small tab \<longleftrightarrow> (\<forall>q. cell q < length tab \<longrightarrow> cnt tab q \<le> 2)"

lemma small_bump: "fits msk tab \<Longrightarrow> small tab \<Longrightarrow> small (bump msk key tab)"
  using bump_counts(4) [OF _ prod.collapse [symmetric]] by (simp add: small_def)

lemma small_new: "small (replicate n 0)"
  by (simp add: small_def cnt_def get_slot_def)

definition seen_at_least :: "key \<Rightarrow> 8 word list \<Rightarrow> key \<Rightarrow> nat \<Rightarrow> bool" where
  "seen_at_least msk tab key n \<longleftrightarrow>
     min 2 n \<le> cnt tab (fst (slots msk key)) \<and> min 2 n \<le> cnt tab (snd (slots msk key))"

lemma seen_bump:
  assumes "fits msk tab" "seen_at_least msk tab key n"
  shows "seen_at_least msk (bump msk key' tab) key (if key' = key then n + 1 else n)"
proof -
  obtain a b where s: "slots msk key = (a, b)" by fastforce
  obtain a' b' where s': "slots msk key' = (a', b')" by fastforce
  show ?thesis
    using assms(2) s bump_counts(2,3) [OF assms(1) s] bump_counts(1) [OF assms(1) s', of a]
      bump_counts(1) [OF assms(1) s', of b]
    by (auto simp: seen_at_least_def min_def split: if_splits)
qed

lemma seen_bump_mono:
  assumes "fits msk tab" "seen_at_least msk tab key n"
  shows "seen_at_least msk (bump msk key' tab) key n"
  using seen_bump [OF assms, of key'] by (auto simp: seen_at_least_def split: if_splits)

lemma seen_any: "seen_at_least msk tab key 0"
  by (simp add: seen_at_least_def)

lemma degrade_step:
  assumes "fits msk tab" "t' = degrade_entry msk (k, c) tab"
  shows "fits msk t'" "seen_at_least msk tab key n \<Longrightarrow> seen_at_least msk t' key n" "seen_at_least msk t' k c"
    "small tab \<Longrightarrow> small t'"
proof -
  show "fits msk t'" using assms by (simp add: degrade_entry_def Let_def)
  show "seen_at_least msk tab key n \<Longrightarrow> seen_at_least msk t' key n"
    using assms seen_bump_mono by (auto simp: degrade_entry_def Let_def)
  have 1: "seen_at_least msk (bump msk k tab) k 1" using seen_bump [OF assms(1) seen_any, of k k] by simp
  have "fits msk (bump msk k tab)" using assms(1) by simp
  from seen_bump [OF this 1, of k] have "seen_at_least msk (bump msk k (bump msk k tab)) k 2" by (simp add: numeral_2_eq_2)
  then show "seen_at_least msk t' k c" using assms(2) 1 by (auto simp: seen_at_least_def degrade_entry_def Let_def)
  show "small tab \<Longrightarrow> small t'"
    using assms small_bump by (simp add: degrade_entry_def Let_def)
qed

lemma degrade_table_counts:
  assumes "fits msk tab" "small tab"
  shows "small (degrade_table msk m tab)
    \<and> (\<forall>key n. seen_at_least msk tab key n \<longrightarrow> seen_at_least msk (degrade_table msk m tab) key n)
    \<and> (\<forall>(key, c) \<in> set m. seen_at_least msk (degrade_table msk m tab) key c)"
  using assms
proof (induction m arbitrary: tab)
  case (Cons e m)
  obtain k c where e: "e = (k, c)" by fastforce
  define t' where "t' = degrade_entry msk e tab"
  note D = degrade_step [OF Cons.prems(1) t'_def [unfolded e]]
  have "degrade_table msk (e # m) tab = degrade_table msk m t'" by (simp add: degrade_table_def e t'_def)
  then show ?case using Cons.IH [OF D(1) D(4) [OF Cons.prems(2)]] D(2,3) by (auto simp: e)
qed (simp add: degrade_table_def)


subsection \<open>The order of the map does not matter\<close>

lemma fields_commute:
  fixes b v w :: "8 word"
  assumes "s \<in> {0, 2, 4, 6}" "t \<in> {0, 2, 4, 6}" "s \<noteq> t" "v AND 3 = v" "w AND 3 = w"
  shows "(((b AND NOT (push_bit s 3)) OR push_bit s v) AND NOT (push_bit t 3)) OR push_bit t w
    = (((b AND NOT (push_bit t 3)) OR push_bit t w) AND NOT (push_bit s 3)) OR push_bit s v"
proof (rule bit_word_eqI)
  fix n
  assume "n < LENGTH(8)"
  have v: "bit v (n - s) \<Longrightarrow> n - s < 2" "bit w (n - t) \<Longrightarrow> n - t < 2" using assms(4,5) by (metis bit_3_8 bit_and_iff)+
  have "\<not> (s \<le> n \<and> n - s < 2 \<and> t \<le> n \<and> n - t < 2)" using assms(1-3) by auto
  then show "bit ((((b AND NOT (push_bit s 3)) OR push_bit s v) AND NOT (push_bit t 3)) OR push_bit t w) n
    = bit ((((b AND NOT (push_bit t 3)) OR push_bit t w) AND NOT (push_bit s 3)) OR push_bit s v) n"
    using v by (auto simp: bit_simps bit_3_int)
qed

lemma get_slot_update_other: "cell p \<noteq> cell q \<Longrightarrow> get_slot (bumpAt p tab) q = get_slot tab q"
  by (simp add: get_slot_def bumpAt_def Let_def)

lemma bumpAt_commute:
  assumes "cell p < length tab" "cell q < length tab"
  shows "bumpAt p (bumpAt q tab) = bumpAt q (bumpAt p tab)"
proof (cases "p = q")
  case ne: False
  have g: "get_slot (bumpAt p tab) q = get_slot tab q" "get_slot (bumpAt q tab) p = get_slot tab p"
    using get_bumpAt_other assms ne by metis+
  show ?thesis
  proof (cases "get_slot tab p < 2 \<and> get_slot tab q < 2")
    case True
    show ?thesis
    proof (cases "cell p = cell q")
      case same: True
      have "shift q \<noteq> shift p" using slot_eqI ne same by metis
      from fields_commute [OF shift_cases shift_cases this succ_and_3 succ_and_3]
      show ?thesis using True same g assms
        by (simp add: bumpAt_def Let_def get_slot_def [symmetric])
    next
      case False
      then show ?thesis using True g
        by (simp add: bumpAt_def Let_def list_update_swap get_slot_def)
    qed
  next
    case False
    then show ?thesis using g by (auto simp: bumpAt_def Let_def get_slot_def)
  qed
qed simp


lemma bump_commute:
  assumes "fits msk tab"
  shows "bump msk k (bump msk k' tab) = bump msk k' (bump msk k tab)"
proof -
  have c: "cell (fst (slots msk x)) < length tab" "cell (snd (slots msk x)) < length tab" for x
    using assms by (auto simp: fits_def slots_def)
  have sw: "bumpAt (f (slots msk x)) (bumpAt (g (slots msk y)) t) = bumpAt (g (slots msk y)) (bumpAt (f (slots msk x)) t)"
    if "f \<in> {fst, snd}" "g \<in> {fst, snd}" "length t = length tab" for f g x y t
    using that c by (intro bumpAt_commute) auto
  have b: "bump msk x t = bumpAt (snd (slots msk x)) (bumpAt (fst (slots msk x)) t)" for x t
    by (simp add: bump_def case_prod_beta)
  have 1: "bump msk k (bumpAt (f (slots msk y)) t) = bumpAt (f (slots msk y)) (bump msk k t)"
    if "f \<in> {fst, snd}" "length t = length tab" for f y t
    unfolding b using sw [of fst f] sw [of snd f] that by simp
  show ?thesis unfolding b [of k'] using 1 [of fst] 1 [of snd] by simp
qed

lemma fits_degrade_entry [simp]: "fits msk (degrade_entry m e tab) = fits msk tab"
  by (simp add: degrade_entry_def Let_def)

lemma degrade_entry_commute:
  assumes "fits msk tab"
  shows "degrade_entry msk e (degrade_entry msk e' tab) = degrade_entry msk e' (degrade_entry msk e tab)"
  using bump_commute [of msk _ "fst e" "fst e'"] assms by (simp add: degrade_entry_def Let_def)

lemma degrade_table_first:
  "fits msk tab \<Longrightarrow> degrade_table msk (xs @ e # ys) tab = degrade_table msk (e # xs @ ys) tab"
proof (induction xs arbitrary: tab)
  case (Cons x xs)
  then show ?case using degrade_entry_commute [OF Cons.prems, of e x]
    by (simp add: degrade_table_def)
qed simp

lemma degrade_any_order:
  assumes "fits msk tab" "mset m = mset m'"
  shows "degrade_table msk m tab = degrade_table msk m' tab"
  using assms
proof (induction m arbitrary: m' tab)
  case (Cons e m)
  then have "e \<in> set m'" by (metis list.set_intros(1) mset_eq_setD)
  then obtain xs ys where m': "m' = xs @ e # ys" by (meson split_list)
  then have "mset m = mset (xs @ ys)" using Cons.prems(2) by simp
  then have "degrade_table msk m (degrade_entry msk e tab) = degrade_table msk (xs @ ys) (degrade_entry msk e tab)"
    using Cons.IH Cons.prems(1) by simp
  then show ?case using degrade_table_first [OF Cons.prems(1), of xs e ys] m'
    by (simp add: degrade_table_def)
qed simp

subsection \<open>What the counter knows\<close>

definition counted :: "counterSizes \<Rightarrow> nat \<Rightarrow> key list \<Rightarrow> keyCounter \<Rightarrow> bool" where
  "counted z share ks k \<longleftrightarrow> k_share k = share \<and>
     (case k_exact k of
        Some m \<Rightarrow> distinct (map fst m) \<and> length m \<le> exactMax z k \<and> k_tab k = None
          \<and> (\<forall>key. exact_count m key = min 2 (count_list ks key))
      | None \<Rightarrow> (\<exists>tab. k_tab k = Some tab \<and> fits (k_mask k) tab \<and> length tab = 2 ^ (tab_bits z k - 2)
          \<and> small tab \<and> (\<forall>key. seen_at_least (k_mask k) tab key (count_list ks key))))"

lemma tab_bits_ge: "2 \<le> keyCounterTabBits z \<Longrightarrow> 2 \<le> tab_bits z k"
  by (auto simp: tab_bits_def)

lemma counted_new: "counted z share [] (newKeyCounterShare share)"
  by (simp add: counted_def newKeyCounterShare_def exact_count_def)

lemma exact_count_update:
  "exact_count (AList.update key c m) key' = (if key' = key then c else exact_count m key')"
  by (simp add: exact_count_def update_conv')


lemma fits_degrade_table: "fits msk' (degrade_table msk m tab) = fits msk' tab"
  by (simp add: fits_def)

lemma counted_degrade:
  assumes "2 \<le> keyCounterTabBits z" "k_share k = share" "k_exact k = Some m" "distinct (map fst m)"
    and "\<forall>key. exact_count m key = min 2 (count_list ks key)"
  shows "counted z share ks (degrade z k)"
proof -
  let ?msk = "push_bit (tab_bits z k) 1 - 1 :: key" and ?new = "replicate (2 ^ (tab_bits z k - 2)) (0::8 word)"
  let ?t = "degrade_table ?msk m ?new"
  have f: "fits ?msk ?new" by (rule fits_new [OF tab_bits_ge [OF assms(1)]])
  have fd: "fits ?msk ?t" by (rule fits_degrade_table [THEN iffD2, OF f])
  note D = degrade_table_counts [OF f small_new, of m]
  have "seen_at_least ?msk ?t key (count_list ks key)" for key
  proof (cases "map_of m key")
    case None
    then have "count_list ks key = 0" using assms(5) by (auto simp: exact_count_def dest!: spec [of _ key])
    then show ?thesis by (simp add: seen_any)
  next
    case (Some c)
    then have "c = min 2 (count_list ks key)" using assms(5) [rule_format, of key] by (simp add: exact_count_def)
    moreover have "seen_at_least ?msk ?t key c" using D map_of_SomeD [OF Some] by blast
    ultimately have "seen_at_least ?msk ?t key c" "c = min 2 (count_list ks key)" by simp_all
    then show ?thesis by (simp add: seen_at_least_def)
  qed
  then show ?thesis
    using fd D assms(2,3) by (simp add: counted_def degrade_def Let_def tab_bits_def)
qed

lemma counted_add:
  assumes "2 \<le> keyCounterTabBits z" "counted z share ks k"
  shows "counted z share (ks @ [key]) (kc_add z key k)"
proof (cases "k_exact k")
  case None
  then obtain tab where t: "k_tab k = Some tab" "fits (k_mask k) tab" "length tab = 2 ^ (tab_bits z k - 2)"
      "small tab" "\<forall>key. seen_at_least (k_mask k) tab key (count_list ks key)" "k_share k = share"
    using assms(2) by (auto simp: counted_def)
  then have "seen_at_least (k_mask k) (bump (k_mask k) key tab) key' (count_list (ks @ [key]) key')" for key'
    using seen_bump [OF t(2), of key' "count_list ks key'" key] by (auto split: if_splits)
  then show ?thesis using None t small_bump by (simp add: counted_def kc_add_def tab_bits_def)
next
  case (Some m)
  then have m: "distinct (map fst m)" "length m \<le> exactMax z k" "k_tab k = None" "k_share k = share"
      "\<forall>key. exact_count m key = min 2 (count_list ks key)"
    using assms(2) by (auto simp: counted_def)
  define m' where "m' = (if exact_count m key < 2 then AList.update key (exact_count m key + 1) m else m)"
  have m': "distinct (map fst m')" "\<forall>key'. exact_count m' key' = min 2 (count_list (ks @ [key]) key')"
    using m(1,5) by (auto simp: m'_def exact_count_update distinct_update)
  have k1: "(if exact_count m key < 2 then k\<lparr>k_exact := Some (AList.update key (exact_count m key + 1) m)\<rparr> else k)
      = k\<lparr>k_exact := Some m'\<rparr>"
    using Some by (simp add: m'_def)
  have add: "kc_add z key k
      = (if length m' > exactMax z k then degrade z (k\<lparr>k_exact := Some m'\<rparr>) else k\<lparr>k_exact := Some m'\<rparr>)"
    using Some k1 by (simp only: kc_add_def Let_def option.case) (simp add: exactMax_def)
  show ?thesis
  proof (cases "length m' > exactMax z k")
    case True
    then show ?thesis
      using counted_degrade [OF assms(1) _ _ m', of "k\<lparr>k_exact := Some m'\<rparr>" share] m(4) add by simp
  next
    case False
    then show ?thesis using m m' unfolding add by (simp add: counted_def exactMax_def)
  qed
qed

lemma counted_adds:
  assumes "2 \<le> keyCounterTabBits z"
  shows "counted z share ks (fold (kc_add z) ks (newKeyCounterShare share))"
proof (induction ks rule: rev_induct)
  case (snoc key ks)
  then show ?case using counted_add [OF assms snoc] by simp
qed (simp add: counted_new)

lemma shared_key_hot:
  assumes "2 \<le> keyCounterTabBits z"
  shows "(count_list ks key \<ge> 2 \<longrightarrow> hot (fold (kc_add z) ks (newKeyCounterShare share)) key)
    \<and> (k_exact (fold (kc_add z) ks (newKeyCounterShare share)) \<noteq> None
        \<longrightarrow> hot (fold (kc_add z) ks (newKeyCounterShare share)) key = (count_list ks key \<ge> 2))"
  using counted_adds [OF assms, of share ks]
  by (auto simp: counted_def hot_def seen_at_least_def cnt_def word_le_nat_alt min_def case_prod_beta
      split: option.splits if_splits dest!: spec [of _ key])

text \<open>The candidate counter never hides a collision: whatever its memory budget and however many keys it
  was fed, a key that was added at least twice is reported hot; and as long as the map is still in use only
  those keys are.\<close>

theorem counter_misses_no_collision:
  assumes "2 \<le> keyCounterTabBits z"
  shows "(count_list ks key \<ge> 2 \<longrightarrow> hot (fold (kc_add z) ks (newKeyCounterShare share)) key)
    \<and> (k_exact (fold (kc_add z) ks (newKeyCounterShare share)) \<noteq> None
        \<longrightarrow> hot (fold (kc_add z) ks (newKeyCounterShare share)) key = (count_list ks key \<ge> 2))"
  using assms by (rule shared_key_hot)

text \<open>The counter's memory is bounded whatever it is fed: the map never holds more keys than its share of the
  budget, the table has the fixed size of its share, every slot a key uses is inside it, and no counter
  exceeds two, so the two-bit fields never overflow into each other.\<close>

theorem counter_stays_bounded:
  assumes "2 \<le> keyCounterTabBits z"
  shows "let k = fold (kc_add z) ks (newKeyCounterShare share) in
    case k_exact k of
      Some m \<Rightarrow> length m \<le> exactMax z k \<and> k_tab k = None
    | None \<Rightarrow> (case k_tab k of
        None \<Rightarrow> False
      | Some tab \<Rightarrow> length tab = 2 ^ (tab_bits z k - 2)
          \<and> (\<forall>key. cell (fst (slots (k_mask k) key)) < length tab \<and> cell (snd (slots (k_mask k) key)) < length tab)
          \<and> (\<forall>q. cell q < length tab \<longrightarrow> get_slot tab q \<le> 2))"
  using counted_adds [OF assms, of share ks]
  by (auto simp: counted_def Let_def fits_def slots_def small_def cnt_def word_le_nat_alt split: option.splits)

text \<open>A counter small enough to degrade at its third key.\<close>

definition ex_sizes :: counterSizes where
  "ex_sizes = \<lparr>keyCounterExactMax = 2, keyCounterTabBits = 6\<rparr>"

theorem counter_misses_no_collision_witness:
  "hot (fold (kc_add ex_sizes) [7, 9, 7, 12, 40] (newKeyCounterShare 0)) 7
   \<and> k_exact (fold (kc_add ex_sizes) [7, 9, 7, 12, 40] (newKeyCounterShare 0)) = None"
proof
  show "hot (fold (kc_add ex_sizes) [7, 9, 7, 12, 40] (newKeyCounterShare 0)) 7"
    using counter_misses_no_collision [of ex_sizes "[7, 9, 7, 12, 40]" 7 0] by (simp add: ex_sizes_def)
  show "k_exact (fold (kc_add ex_sizes) [7, 9, 7, 12, 40] (newKeyCounterShare 0)) = None" by code_simp
qed

theorem counter_stays_bounded_witness:
  "length (the (k_tab (fold (kc_add ex_sizes) [7, 9, 7, 12, 40] (newKeyCounterShare 0)))) = 16"
proof -
  have e: "k_exact (fold (kc_add ex_sizes) [7, 9, 7, 12, 40] (newKeyCounterShare 0)) = None"
    "tab_bits ex_sizes (fold (kc_add ex_sizes) [7, 9, 7, 12, 40] (newKeyCounterShare 0)) = 6" by code_simp+
  show ?thesis
    using counter_stays_bounded [of ex_sizes "[7, 9, 7, 12, 40]" 0] e
    by (auto simp: Let_def ex_sizes_def split: option.splits)
qed

end
