(* ===== verification/HashStore.thy ===== *)
theory HashStore
  imports Binary GoPath "HOL-Library.AList" "HOL-Library.Multiset"
begin

text \<open>
  \<open>server/hashcache.go\<close>: the store of full-content hashes.  Within a scan it answers only for what
  that scan recorded (\<open>lookup\<close>); across scans it is history that \<open>record\<close> compares the
  fresh content against.  A nil store is \<open>None\<close>.  The map is an association list with distinct keys;
  every loop over it goes through \<open>ord\<close>, an arbitrary reordering, as Go leaves the order open.
  \<open>b3\<close> is the BLAKE3 function (a third-party package).  The mutex is not modelled: each operation is
  atomic.  The file is the byte sequence \<open>save\<close> writes and \<open>load\<close> reads.
\<close>

subsection \<open>Data\<close>

record hcEnt =
  h_size :: int
  h_mod :: int
  h_tag :: gostring
  h_pfx :: gostring
  h_hash :: gostring
  h_gen :: "32 word"

record changedRec =
  cr_tag :: gostring
  cr_prior :: gostring

record hashCache =
  c_path :: path
  c_gen :: "32 word"
  c_ents :: "(key \<times> hcEnt) list"
  c_dirty :: bool
  c_changed :: "(key \<times> changedRec) list"

text \<open>The two package variables, which the tests shrink.\<close>

record cacheSizes =
  hashCacheMax :: nat
  hashCacheHigh :: nat

definition cacheDefaults :: cacheSizes where
  "cacheDefaults = \<lparr>hashCacheMax = 500000, hashCacheHigh = 500000 + 500000 div 4\<rparr>"

definition changedMax :: nat where
  "changedMax = 2 ^ 17"

definition hashCacheFile :: gostring where
  "hashCacheFile = ''hashcache.bin''"

definition hashCacheMagic :: gostring where
  "hashCacheMagic = ''DFHC2'' @ [char_of (0::nat), char_of (0::nat), char_of (0::nat)]"

type_synonym 'a reorder = "'a list \<Rightarrow> 'a list"

definition pathKey :: "path \<Rightarrow> key" where
  "pathKey p = fnv64a p"

definition pathTag :: "(gostring \<Rightarrow> gostring) \<Rightarrow> path \<Rightarrow> gostring" where
  "pathTag b3 p = take 16 (b3 p)"

subsection \<open>Reading and writing the file\<close>

definition put_ent :: "key \<times> hcEnt \<Rightarrow> gostring" where
  "put_ent ke =
     (let e = snd ke in
      put_le 8 (unat (fst ke)) @ put_int64 (h_size e) @ put_int64 (h_mod e) @ h_tag e @ h_pfx e @ h_hash e
      @ put_le 4 (unat (h_gen e)))"

definition recSize :: nat where
  "recSize = 8 + 8 + 8 + 16 + 16 + 32 + 4"

definition cut_bytes :: "nat \<Rightarrow> nat \<Rightarrow> gostring \<Rightarrow> gostring" where
  "cut_bytes i j bs = take (j - i) (drop i bs)"

definition get_ent :: "gostring \<Rightarrow> key \<times> hcEnt" where
  "get_ent rec =
     (of_nat (get_le (cut_bytes 0 8 rec)),
      \<lparr>h_size = get_int64 (cut_bytes 8 16 rec), h_mod = get_int64 (cut_bytes 16 24 rec),
       h_tag = cut_bytes 24 40 rec, h_pfx = cut_bytes 40 56 rec, h_hash = cut_bytes 56 88 rec,
       h_gen = of_nat (get_le (cut_bytes 88 92 rec))\<rparr>)"

fun load_ents :: "nat \<Rightarrow> gostring \<Rightarrow> (key \<times> hcEnt) list \<Rightarrow> (key \<times> hcEnt) list" where
  "load_ents 0 bs ents = ents"
| "load_ents (Suc n) bs ents =
     (if length bs < recSize then ents
      else (let (k, e) = get_ent (take recSize bs) in load_ents n (drop recSize bs) (AList.update k e ents)))"

definition emptyCache :: hashCache where
  "emptyCache = \<lparr>c_path = [], c_gen = 0, c_ents = [], c_dirty = False, c_changed = []\<rparr>"

text \<open>\<open>f\<close> is what the file holds, \<open>None\<close> when it cannot be opened.\<close>

definition loadHashCache :: "cacheSizes \<Rightarrow> path \<Rightarrow> gostring option \<Rightarrow> hashCache" where
  "loadHashCache z dir f =
     (if dir = [] then emptyCache
      else (let c = emptyCache\<lparr>c_path := Join dir hashCacheFile\<rparr> in
        case f of
          None \<Rightarrow> c\<lparr>c_gen := 1\<rparr>
        | Some bs \<Rightarrow>
            if length bs < 8 \<or> take 8 bs \<noteq> hashCacheMagic then c\<lparr>c_gen := 1\<rparr>
            else if length bs < 16 then c\<lparr>c_gen := 1\<rparr>
            else (let gen = get_le (cut_bytes 8 12 bs); cnt = get_le (cut_bytes 12 16 bs) in
              c\<lparr>c_ents := load_ents (min cnt (hashCacheMax z + 1)) (drop 16 bs) [],
                c_gen := of_nat gen + 1\<rparr>)))"

definition loadHashCacheResume :: "cacheSizes \<Rightarrow> path \<Rightarrow> gostring option \<Rightarrow> 32 word \<Rightarrow> hashCache" where
  "loadHashCacheResume z dir f gen =
     (let c = loadHashCache z dir f in if gen \<noteq> 0 then c\<lparr>c_gen := gen\<rparr> else c)"

subsection \<open>Queries\<close>

definition prefix_bytes :: "gostring \<Rightarrow> gostring option" where
  "prefix_bytes pfxHex =
     (case DecodeString pfxHex of None \<Rightarrow> None | Some pfx \<Rightarrow> if length pfx < 16 then None else Some (take 16 pfx))"

definition lookup ::
  "(gostring \<Rightarrow> gostring) \<Rightarrow> hashCache option \<Rightarrow> path \<Rightarrow> int \<Rightarrow> int \<Rightarrow> gostring \<Rightarrow> gostring option" where
  "lookup b3 cache p sz md pfxHex =
     (case cache of
        None \<Rightarrow> None
      | Some c \<Rightarrow>
          (case prefix_bytes pfxHex of
             None \<Rightarrow> None
           | Some pfx \<Rightarrow>
               (case map_of (c_ents c) (pathKey p) of
                  None \<Rightarrow> None
                | Some e \<Rightarrow>
                    if h_gen e \<noteq> c_gen c \<or> h_size e \<noteq> sz \<or> h_mod e \<noteq> md \<or> h_tag e \<noteq> pathTag b3 p then None
                    else if h_pfx e \<noteq> pfx then None
                    else Some (EncodeToString (h_hash e)))))"

definition live_change ::
  "(gostring \<Rightarrow> gostring) \<Rightarrow> hashCache \<Rightarrow> path \<Rightarrow> int \<Rightarrow> int \<Rightarrow> gostring \<Rightarrow> gostring option" where
  "live_change b3 c p sz md pfx =
     (case map_of (c_ents c) (pathKey p) of
        None \<Rightarrow> None
      | Some e \<Rightarrow>
          if h_gen e = c_gen c \<or> h_size e \<noteq> sz \<or> h_mod e \<noteq> md \<or> h_tag e \<noteq> pathTag b3 p then None
          else if h_pfx e \<noteq> pfx then Some (EncodeToString (h_hash e)) else None)"

definition priorContentChanged ::
  "(gostring \<Rightarrow> gostring) \<Rightarrow> hashCache option \<Rightarrow> path \<Rightarrow> int \<Rightarrow> int \<Rightarrow> gostring \<Rightarrow> gostring option" where
  "priorContentChanged b3 cache p sz md pfxHex =
     (case cache of
        None \<Rightarrow> None
      | Some c \<Rightarrow>
          (case prefix_bytes pfxHex of
             None \<Rightarrow> None
           | Some pfx \<Rightarrow>
               (case map_of (c_changed c) (pathKey p) of
                  Some r \<Rightarrow> if cr_tag r = pathTag b3 p then Some (EncodeToString (cr_prior r))
                            else live_change b3 c p sz md pfx
                | None \<Rightarrow> live_change b3 c p sz md pfx)))"

definition changedPath :: "(gostring \<Rightarrow> gostring) \<Rightarrow> hashCache option \<Rightarrow> path \<Rightarrow> bool" where
  "changedPath b3 cache p =
     (case cache of
        None \<Rightarrow> False
      | Some c \<Rightarrow> (case map_of (c_changed c) (pathKey p) of None \<Rightarrow> False | Some r \<Rightarrow> cr_tag r = pathTag b3 p))"


subsection \<open>Trimming\<close>

fun trim_gen :: "nat \<Rightarrow> 32 word \<Rightarrow> (key \<times> hcEnt) list \<Rightarrow> (key \<times> hcEnt) list \<Rightarrow> (key \<times> hcEnt) list" where
  "trim_gen keep gen [] ents = ents"
| "trim_gen keep gen (ke # order) ents =
     (if length ents \<le> keep then ents
      else trim_gen keep gen order (if h_gen (snd ke) = gen then AList.delete (fst ke) ents else ents))"

fun trim_any :: "nat \<Rightarrow> (key \<times> hcEnt) list \<Rightarrow> (key \<times> hcEnt) list \<Rightarrow> (key \<times> hcEnt) list" where
  "trim_any keep [] ents = ents"
| "trim_any keep (ke # order) ents =
     (if length ents \<le> keep then ents else trim_any keep order (AList.delete (fst ke) ents))"

definition trimLocked :: "(key \<times> hcEnt) reorder \<Rightarrow> nat \<Rightarrow> (key \<times> hcEnt) list \<Rightarrow> (key \<times> hcEnt) list" where
  "trimLocked ord keep ents =
     (if length ents \<le> keep then ents
      else
        let gens = rev (sort (map (\<lambda>ke. h_gen (snd ke)) ents));
            cutoff = gens ! (keep - 1);
            left = filter (\<lambda>ke. \<not> h_gen (snd ke) < cutoff) ents
        in trim_any keep (ord left) left)"

definition trimMidScan :: "(key \<times> hcEnt) reorder \<Rightarrow> nat \<Rightarrow> 32 word \<Rightarrow> (key \<times> hcEnt) list \<Rightarrow> (key \<times> hcEnt) list" where
  "trimMidScan ord keep gen ents = trimLocked ord keep (trim_gen keep gen (ord ents) ents)"

subsection \<open>Recording\<close>

definition mk_ent :: "(gostring \<Rightarrow> gostring) \<Rightarrow> 32 word \<Rightarrow> path \<Rightarrow> int \<Rightarrow> int \<Rightarrow> gostring \<Rightarrow> gostring \<Rightarrow> hcEnt" where
  "mk_ent b3 gen p sz md pfx full =
     \<lparr>h_size = sz, h_mod = md, h_tag = pathTag b3 p, h_pfx = pfx, h_hash = full, h_gen = gen\<rparr>"

text \<open>What \<open>record\<close> displaces is evidence when it is another generation's entry for the same
  path, size and time with other content.\<close>

definition rotted :: "hashCache \<Rightarrow> hcEnt \<Rightarrow> hcEnt \<Rightarrow> bool" where
  "rotted c e old \<longleftrightarrow> h_gen old \<noteq> c_gen c \<and> h_size old = h_size e \<and> h_mod old = h_mod e \<and> h_tag old = h_tag e
     \<and> (h_pfx old \<noteq> h_pfx e \<or> h_hash old \<noteq> h_hash e)"

definition note_change :: "key \<Rightarrow> hcEnt \<Rightarrow> hcEnt \<Rightarrow> (key \<times> changedRec) list \<Rightarrow> (key \<times> changedRec) list" where
  "note_change k e old ch =
     (if length ch < changedMax then AList.update k \<lparr>cr_tag = h_tag e, cr_prior = h_hash old\<rparr> ch else ch)"

definition record_ent ::
  "cacheSizes \<Rightarrow> (key \<times> hcEnt) reorder \<Rightarrow> key \<Rightarrow> hcEnt \<Rightarrow> hashCache \<Rightarrow> gostring option \<times> hashCache" where
  "record_ent z ord k e c =
     (let (prior, ch) =
            (case map_of (c_ents c) k of
               None \<Rightarrow> (None, c_changed c)
             | Some old \<Rightarrow>
                 if rotted c e old then (Some (EncodeToString (h_hash old)), note_change k e old (c_changed c))
                 else (None, c_changed c));
          ents = AList.update k e (c_ents c)
      in (prior,
          c\<lparr>c_changed := ch, c_dirty := True,
            c_ents := (if length ents > hashCacheHigh z then trimMidScan ord (hashCacheMax z) (c_gen c) ents else ents)\<rparr>))"

definition record_hash ::
  "cacheSizes \<Rightarrow> (key \<times> hcEnt) reorder \<Rightarrow> (gostring \<Rightarrow> gostring) \<Rightarrow> hashCache option \<Rightarrow> path \<Rightarrow> int \<Rightarrow> int
    \<Rightarrow> gostring \<Rightarrow> gostring \<Rightarrow> gostring option \<times> hashCache option" where
  "record_hash z ord b3 cache p sz md pfxHex fullHex =
     (case cache of
        None \<Rightarrow> (None, None)
      | Some c \<Rightarrow>
          (case (prefix_bytes pfxHex, DecodeString fullHex) of
             (Some pfx, Some full) \<Rightarrow>
               if length full \<noteq> 32 then (None, Some c)
               else (case record_ent z ord (pathKey p) (mk_ent b3 (c_gen c) p sz md pfx full) c of
                       (prior, c') \<Rightarrow> (prior, Some c'))
           | _ \<Rightarrow> (None, Some c)))"

subsection \<open>Saving\<close>

definition store_bytes :: "32 word \<Rightarrow> (key \<times> hcEnt) list \<Rightarrow> gostring" where
  "store_bytes gen all =
     hashCacheMagic @ put_le 4 (unat gen) @ put_le 4 (length all) @ concat (map put_ent all)"

text \<open>\<open>wrote\<close> is whether \<open>writeAtomic\<close> succeeds: then the file holds the second component; else it
  is what it was.\<close>

definition saveTrim ::
  "cacheSizes \<Rightarrow> (key \<times> hcEnt) reorder \<Rightarrow> bool \<Rightarrow> bool \<Rightarrow> hashCache \<Rightarrow> bool \<times> gostring option \<times> hashCache" where
  "saveTrim z ord final wrote c =
     (if c_path c = [] then (True, None, c)
      else if \<not> c_dirty c then (True, None, c)
      else
        let c1 = (if final then c\<lparr>c_ents := trimLocked ord (hashCacheMax z) (c_ents c)\<rparr> else c);
            all0 = ord (c_ents c1);
            all = (if \<not> final \<and> length all0 > hashCacheMax z
                   then take (hashCacheMax z) (sort_key (\<lambda>ke. - int (unat (h_gen (snd ke)))) all0) else all0)
        in if wrote then (True, Some (store_bytes (c_gen c1) all), c1\<lparr>c_dirty := False\<rparr>)
           else (False, None, c1))"

definition save :: "cacheSizes \<Rightarrow> (key \<times> hcEnt) reorder \<Rightarrow> bool \<Rightarrow> hashCache \<Rightarrow> bool \<times> gostring option \<times> hashCache" where
  "save z ord wrote c = saveTrim z ord True wrote c"

definition saveMid :: "cacheSizes \<Rightarrow> (key \<times> hcEnt) reorder \<Rightarrow> bool \<Rightarrow> hashCache \<Rightarrow> bool \<times> gostring option \<times> hashCache" where
  "saveMid z ord wrote c = saveTrim z ord False wrote c"

subsection \<open>The file reads back\<close>

definition ent_ok :: "hcEnt \<Rightarrow> bool" where
  "ent_ok e \<longleftrightarrow> is_int64 (h_size e) \<and> is_int64 (h_mod e) \<and> length (h_tag e) = 16 \<and> length (h_pfx e) = 16
     \<and> length (h_hash e) = 32"

definition ents_ok :: "(key \<times> hcEnt) list \<Rightarrow> bool" where
  "ents_ok ents \<longleftrightarrow> distinct (map fst ents) \<and> (\<forall>ke \<in> set ents. ent_ok (snd ke))"

lemma get_put_word: "LENGTH('a::len) \<le> 8 * n \<Longrightarrow> (of_nat (get_le (put_le n (unat (w :: 'a word)))) :: 'a word) = w"
proof -
  assume "LENGTH('a) \<le> 8 * n"
  then have "(2::nat) ^ LENGTH('a) \<le> 256 ^ n" using power_increasing [of "LENGTH('a)" "8 * n" "2::nat"] by (simp add: power_mult)
  then have "unat w < 256 ^ n" using unsigned_less [of w] by (rule order_less_le_trans [rotated])
  then show ?thesis by (simp add: get_put_le)
qed

lemma length_put_ent: "ent_ok (snd ke) \<Longrightarrow> length (put_ent ke) = recSize"
  by (simp add: put_ent_def ent_ok_def recSize_def Let_def)

lemma get_put_ent: "ent_ok (snd ke) \<Longrightarrow> get_ent (put_ent ke) = ke"
  by (cases ke) (simp add: get_ent_def put_ent_def ent_ok_def Let_def cut_bytes_def get_put_word get_put_int64)

definition reorders :: "'a reorder \<Rightarrow> bool" where
  "reorders ord \<longleftrightarrow> (\<forall>xs. mset (ord xs) = mset xs)"

lemma reorders_simps:
  assumes "reorders ord"
  shows "set (ord xs) = set xs" "length (ord xs) = length xs"
  using assms mset_eq_setD [of "ord xs" xs] mset_eq_length [of "ord xs" xs] by (simp_all add: reorders_def)

lemma same_map:
  assumes "distinct (map fst xs)" "mset ys = mset xs"
  shows "distinct (map fst ys)" "map_of ys = map_of xs"
proof -
  have "mset (map fst ys) = mset (map fst xs)" using assms(2) by simp
  then show d: "distinct (map fst ys)" using assms(1) mset_eq_imp_distinct_iff by blast
  show "map_of ys = map_of xs" 
    by (rule map_of_inject_set [OF d assms(1), THEN iffD2, OF mset_eq_setD [OF assms(2)]])
qed

lemma map_of_fold_update:
  "map_of (fold (\<lambda>ke. AList.update (fst ke) (snd ke)) xs al) k
     = (case map_of (rev xs) k of None \<Rightarrow> map_of al k | Some v \<Rightarrow> Some v)"
proof (induction xs arbitrary: al)
  case (Cons x xs)
  then show ?case by (cases "map_of (rev xs) k") (simp_all add: update_conv' map_add_def)
qed simp

lemma distinct_fold_update:
  "distinct (map fst al) \<Longrightarrow> distinct (map fst (fold (\<lambda>ke. AList.update (fst ke) (snd ke)) xs al))"
  by (induction xs arbitrary: al) (auto simp: distinct_update)

lemma load_ents_bytes:
  "\<forall>ke \<in> set all. ent_ok (snd ke) \<Longrightarrow>
     load_ents n (concat (map put_ent all)) ents = fold (\<lambda>ke. AList.update (fst ke) (snd ke)) (take n all) ents"
proof (induction n arbitrary: all ents)
  case (Suc n)
  show ?case
  proof (cases all)
    case Nil
    then show ?thesis by (simp add: recSize_def)
  next
    case (Cons ke rest)
    then have "length (put_ent ke) = recSize" "get_ent (put_ent ke) = ke"
      using Suc.prems length_put_ent get_put_ent by auto
    then show ?thesis using Suc Cons by (simp add: case_prod_beta)
  qed
qed simp

lemma take_sort_key: "mset (sort_key f xs) = mset xs" "set (take n (sort_key f xs)) \<subseteq> set xs"
  using set_take_subset [of n "sort_key f xs"] by simp_all

lemma load_store_bytes:
  assumes "dir \<noteq> []" "ents_ok all" "length all \<le> hashCacheMax z" "length all < 2 ^ 32"
  shows "map_of (c_ents (loadHashCache z dir (Some (store_bytes gen all)))) = map_of all"
    "ents_ok (c_ents (loadHashCache z dir (Some (store_bytes gen all))))"
    "c_gen (loadHashCache z dir (Some (store_bytes gen all))) = gen + 1"
proof -
  have m: "length hashCacheMagic = 8" by (simp add: hashCacheMagic_def)
  have n: "get_le (put_le 4 (length all)) = length all" using assms(4) by (simp add: get_put_le)
  have l: "loadHashCache z dir (Some (store_bytes gen all)) = emptyCache\<lparr>c_path := Join dir hashCacheFile,
      c_ents := load_ents (min (length all) (hashCacheMax z + 1)) (concat (map put_ent all)) [], c_gen := gen + 1\<rparr>"
    using assms(1) m n by (simp add: loadHashCache_def store_bytes_def cut_bytes_def Let_def get_put_word)
  have e: "c_ents (loadHashCache z dir (Some (store_bytes gen all)))
      = fold (\<lambda>ke. AList.update (fst ke) (snd ke)) all []"
    using assms(2,3) load_ents_bytes [of all "min (length all) (hashCacheMax z + 1)" "[]"]
    unfolding l by (simp add: ents_ok_def)
  have d: "distinct (map fst (rev all))" using assms(2) by (simp add: ents_ok_def rev_map [symmetric])
  have m: "map_of (rev all) = map_of all" using same_map [of all "rev all"] assms(2) by (simp add: ents_ok_def)
  show mo: "map_of (c_ents (loadHashCache z dir (Some (store_bytes gen all)))) = map_of all"
    unfolding e by (rule ext) (simp add: map_of_fold_update m split: option.split)
  have d2: "distinct (map fst (c_ents (loadHashCache z dir (Some (store_bytes gen all)))))"
    unfolding e by (rule distinct_fold_update) simp
  have "set (c_ents (loadHashCache z dir (Some (store_bytes gen all)))) = set all"
    using map_of_inject_set [OF d2, of all] mo assms(2) by (simp add: ents_ok_def)
  then show "ents_ok (c_ents (loadHashCache z dir (Some (store_bytes gen all))))"
    using d2 assms(2) by (simp add: ents_ok_def)
  show "c_gen (loadHashCache z dir (Some (store_bytes gen all))) = gen + 1" by (simp add: l)
qed

subsection \<open>What trimming leaves\<close>

lemma set_alist_delete: "set (AList.delete k al) \<subseteq> set al"
  by (auto simp: AList.delete_eq)

lemma trim_any_sub: "set (trim_any keep order ents) \<subseteq> set ents"
proof (induction order arbitrary: ents)
  case (Cons ke order)
  then show ?case using set_alist_delete [of "fst ke" ents] Cons [of "AList.delete (fst ke) ents"] by auto
qed simp

lemma trim_gen_sub: "set (trim_gen keep gen order ents) \<subseteq> set ents"
proof (induction order arbitrary: ents)
  case (Cons ke order)
  then show ?case using set_alist_delete [of "fst ke" ents] Cons [of "AList.delete (fst ke) ents"] Cons [of ents] by auto
qed simp

lemma trim_any_distinct: "distinct (map fst ents) \<Longrightarrow> distinct (map fst (trim_any keep order ents))"
  by (induction keep order ents rule: trim_any.induct) (auto simp: distinct_delete)

lemma trim_gen_distinct: "distinct (map fst ents) \<Longrightarrow> distinct (map fst (trim_gen keep gen order ents))"
  by (induction keep gen order ents rule: trim_gen.induct) (auto simp: distinct_delete)

lemma trim_any_length: "fst ` set ents \<subseteq> fst ` set order \<Longrightarrow> length (trim_any keep order ents) \<le> keep"
proof (induction order arbitrary: ents)
  case (Cons ke order)
  have "fst ` set (AList.delete (fst ke) ents) \<subseteq> fst ` set order"
    using Cons.prems by (auto simp: AList.delete_eq)
  then show ?case using Cons.IH by simp
qed simp

lemma trimLocked_sub: "set (trimLocked ord keep ents) \<subseteq> set ents"
proof -
  have "set (trim_any keep order (filter P ents)) \<subseteq> set ents" for order P
    using trim_any_sub by fastforce
  then show ?thesis by (simp add: trimLocked_def Let_def)
qed

lemma trimLocked_distinct: "distinct (map fst ents) \<Longrightarrow> distinct (map fst (trimLocked ord keep ents))"
proof -
  assume "distinct (map fst ents)"
  then have "distinct (map fst (trim_any keep order (filter P ents)))" for order P
    by (intro trim_any_distinct distinct_map_filter)
  then show ?thesis using \<open>distinct (map fst ents)\<close> by (simp add: trimLocked_def Let_def)
qed

lemma trimLocked_length: "reorders ord \<Longrightarrow> length (trimLocked ord keep ents) \<le> keep"
  using trim_any_length by (simp add: trimLocked_def Let_def reorders_simps)

lemma trimMidScan_sub: "set (trimMidScan ord keep gen ents) \<subseteq> set ents"
  using trimLocked_sub trim_gen_sub by (fastforce simp: trimMidScan_def)

lemma trimMidScan_length: "reorders ord \<Longrightarrow> length (trimMidScan ord keep gen ents) \<le> keep"
  by (simp add: trimMidScan_def trimLocked_length)

lemma trims_ok: "ents_ok ents \<Longrightarrow> ents_ok (trimLocked ord keep ents)"
    "ents_ok ents \<Longrightarrow> ents_ok (trimMidScan ord keep gen ents)"
  using trimLocked_sub [of ord keep ents] trimMidScan_sub [of ord keep gen ents]
  by (auto simp: ents_ok_def trimLocked_distinct trim_gen_distinct trimMidScan_def)

lemma set_alist_update: "set (AList.update k v al) \<subseteq> insert (k, v) (set al)"
  by (induction al) auto

lemma length_alist_update: "length (AList.update k v al) \<le> Suc (length al)"
  by (induction al) auto

subsection \<open>The store through a scan\<close>

text \<open>What a scan does to its store; queries leave it alone.\<close>

datatype cacheOp =
    RecordOp path int int gostring gostring
  | SaveMidOp bool

fun cache_op :: "cacheSizes \<Rightarrow> (key \<times> hcEnt) reorder \<Rightarrow> (gostring \<Rightarrow> gostring) \<Rightarrow> cacheOp \<Rightarrow> hashCache \<Rightarrow> hashCache" where
  "cache_op z ord b3 (RecordOp p sz md pfx full) c =
     (case snd (record_hash z ord b3 (Some c) p sz md pfx full) of None \<Rightarrow> c | Some c' \<Rightarrow> c')"
| "cache_op z ord b3 (SaveMidOp wrote) c = snd (snd (saveMid z ord wrote c))"

definition cache_ops ::
  "cacheSizes \<Rightarrow> (key \<times> hcEnt) reorder \<Rightarrow> (gostring \<Rightarrow> gostring) \<Rightarrow> cacheOp list \<Rightarrow> hashCache \<Rightarrow> hashCache" where
  "cache_ops z ord b3 ops c = fold (cache_op z ord b3) ops c"

lemma saveMid_same: "c_ents (snd (snd (saveMid z ord wrote c))) = c_ents c"
    "c_gen (snd (snd (saveMid z ord wrote c))) = c_gen c"
    "c_changed (snd (snd (saveMid z ord wrote c))) = c_changed c"
  by (simp_all add: saveMid_def saveTrim_def Let_def)

lemma record_ent_simps:
  "c_gen (snd (record_ent z ord k e c)) = c_gen c"
  "c_ents (snd (record_ent z ord k e c)) = (let ents = AList.update k e (c_ents c) in
     if length ents > hashCacheHigh z then trimMidScan ord (hashCacheMax z) (c_gen c) ents else ents)"
  "fst (record_ent z ord k e c) = (case map_of (c_ents c) k of
     None \<Rightarrow> None | Some old \<Rightarrow> if rotted c e old then Some (EncodeToString (h_hash old)) else None)"
  "c_changed (snd (record_ent z ord k e c)) = (case map_of (c_ents c) k of
     None \<Rightarrow> c_changed c | Some old \<Rightarrow> if rotted c e old then note_change k e old (c_changed c) else c_changed c)"
  by (auto simp: record_ent_def Let_def case_prod_beta split: option.splits)

lemma record_hash_Some:
  "record_hash z ord b3 (Some c) p sz md pfxHex fullHex =
     (case (prefix_bytes pfxHex, DecodeString fullHex) of
        (Some pfx, Some full) \<Rightarrow>
          if length full \<noteq> 32 then (None, Some c)
          else apsnd Some (record_ent z ord (pathKey p) (mk_ent b3 (c_gen c) p sz md pfx full) c)
      | _ \<Rightarrow> (None, Some c))"
  by (auto simp: record_hash_def apsnd_def split: option.splits prod.splits)

text \<open>Each step leaves the store alone or records one entry.\<close>

lemma cache_op_cases:
  obtains "c_ents (cache_op z ord b3 op c) = c_ents c" "c_gen (cache_op z ord b3 op c) = c_gen c"
      "c_changed (cache_op z ord b3 op c) = c_changed c"
  | p sz md pfxHex fullHex pfx full where "op = RecordOp p sz md pfxHex fullHex" "prefix_bytes pfxHex = Some pfx"
      "DecodeString fullHex = Some full" "length full = 32"
      "cache_op z ord b3 op c = snd (record_ent z ord (pathKey p) (mk_ent b3 (c_gen c) p sz md pfx full) c)"
proof (cases op)
  case (RecordOp p sz md pfxHex fullHex)
  show thesis
  proof (cases "\<exists>pfx full. prefix_bytes pfxHex = Some pfx \<and> DecodeString fullHex = Some full \<and> length full = 32")
    case True
    then show thesis using that(2) RecordOp by (auto simp: record_hash_Some)
  next
    case False
    then have "cache_op z ord b3 op c = c"
      by (auto simp: RecordOp record_hash_Some split: option.splits)
    then show thesis using that(1) by simp
  qed
next
  case (SaveMidOp wrote)
  then show thesis using that(1) saveMid_same by simp
qed

lemma cache_op_gen [simp]: "c_gen (cache_op z ord b3 op c) = c_gen c"
  by (cases op c rule: cache_op_cases [of z ord b3]) (simp_all add: record_ent_simps)

lemma cache_ops_gen [simp]: "c_gen (cache_ops z ord b3 ops c) = c_gen c"
  by (induction ops arbitrary: c) (simp_all add: cache_ops_def)

text \<open>Every entry of the current generation was recorded by this scan.\<close>

definition recorded :: "(gostring \<Rightarrow> gostring) \<Rightarrow> cacheOp list \<Rightarrow> hashCache \<Rightarrow> bool" where
  "recorded b3 ops c \<longleftrightarrow> (\<forall>(k, e) \<in> set (c_ents c). h_gen e = c_gen c \<longrightarrow>
     (\<exists>p sz md pfxHex fullHex pfx full. RecordOp p sz md pfxHex fullHex \<in> set ops \<and> k = pathKey p
        \<and> prefix_bytes pfxHex = Some pfx \<and> DecodeString fullHex = Some full \<and> e = mk_ent b3 (c_gen c) p sz md pfx full))"

lemma record_ent_sub: "set (c_ents (snd (record_ent z ord k e c))) \<subseteq> insert (k, e) (set (c_ents c))"
  using set_alist_update [of k e "c_ents c"]
    trimMidScan_sub [of ord "hashCacheMax z" "c_gen c" "AList.update k e (c_ents c)"]
  by (auto simp: record_ent_simps Let_def)

lemma recorded_mono: "recorded b3 ops c \<Longrightarrow> set ops \<subseteq> set ops' \<Longrightarrow> recorded b3 ops' c"
  unfolding recorded_def by (fastforce split: prod.splits)

lemma recorded_op: "recorded b3 ops c \<Longrightarrow> recorded b3 (ops @ [op]) (cache_op z ord b3 op c)"
proof (cases op c rule: cache_op_cases [of z ord b3])
  case 1
  assume "recorded b3 ops c"
  then have "recorded b3 (ops @ [op]) c" by (rule recorded_mono) auto
  then show ?thesis using 1 by (simp add: recorded_def)
next
  case (2 p sz md pfxHex fullHex pfx full)
  assume "recorded b3 ops c"
  then have r: "recorded b3 (ops @ [op]) c" by (rule recorded_mono) auto
  let ?e = "mk_ent b3 (c_gen c) p sz md pfx full"
  have "set (c_ents (cache_op z ord b3 op c)) \<subseteq> insert (pathKey p, ?e) (set (c_ents c))"
    using 2(5) record_ent_sub [of z ord "pathKey p" ?e c] by simp
  moreover have "\<exists>p' sz' md' pfxHex' fullHex' pfx' full'. RecordOp p' sz' md' pfxHex' fullHex' \<in> set (ops @ [op])
      \<and> pathKey p = pathKey p' \<and> prefix_bytes pfxHex' = Some pfx' \<and> DecodeString fullHex' = Some full'
      \<and> ?e = mk_ent b3 (c_gen c) p' sz' md' pfx' full'"
    using 2 by (intro exI [of _ p] exI [of _ sz] exI [of _ md] exI [of _ pfxHex] exI [of _ fullHex] exI [of _ pfx] exI [of _ full]) simp
  ultimately show ?thesis using r unfolding recorded_def cache_op_gen by blast
qed

lemma recorded_ops: "recorded b3 ops c \<Longrightarrow> recorded b3 (ops @ ops') (cache_ops z ord b3 ops' c)"
proof (induction ops' arbitrary: ops c)
  case (Cons op ops')
  then show ?case using Cons.IH [OF recorded_op [OF Cons.prems]] by (simp add: cache_ops_def)
qed (simp add: cache_ops_def)

subsection \<open>Bounds and well-formedness\<close>

lemma cut_bytes_length: "j \<le> length bs \<Longrightarrow> length (cut_bytes i j bs) = j - i"
  by (simp add: cut_bytes_def)

lemma get_int64_range: "is_int64 (get_int64 bs)"
  using sint_ge [of "of_nat (get_le bs) :: 64 word"] sint_lt [of "of_nat (get_le bs) :: 64 word"]
  by (simp add: is_int64_def get_int64_def)

lemma ent_ok_get: "length bs = recSize \<Longrightarrow> ent_ok (snd (get_ent bs))"
  by (simp add: ent_ok_def get_ent_def cut_bytes_length get_int64_range recSize_def)

lemma ents_ok_update: "ents_ok ents \<Longrightarrow> ent_ok e \<Longrightarrow> ents_ok (AList.update k e ents)"
  using set_alist_update [of k e ents] by (auto simp: ents_ok_def distinct_update)

lemma ents_ok_load_ents: "ents_ok ents \<Longrightarrow> ents_ok (load_ents n bs ents)"
proof (induction n arbitrary: bs ents)
  case (Suc n)
  show ?case
  proof (cases "length bs < recSize")
    case False
    then have "ent_ok (snd (get_ent (take recSize bs)))" by (intro ent_ok_get) simp
    then show ?thesis using Suc ents_ok_update False by (simp add: case_prod_beta)
  qed (use Suc.prems in simp)
qed simp

lemma ents_ok_load: "ents_ok (c_ents (loadHashCache z dir f))"
proof -
  have "ents_ok []" by (simp add: ents_ok_def)
  then show ?thesis using ents_ok_load_ents
    by (auto simp: loadHashCache_def emptyCache_def Let_def split: option.split)
qed

lemma ents_ok_record: "ents_ok (c_ents c) \<Longrightarrow> ent_ok e \<Longrightarrow> ents_ok (c_ents (snd (record_ent z ord k e c)))"
  by (simp add: record_ent_simps Let_def ents_ok_update trims_ok)

lemma prefix_bytes_length: "prefix_bytes h = Some pfx \<Longrightarrow> length pfx = 16"
  by (auto simp: prefix_bytes_def split: option.splits if_splits)

definition int64_op :: "cacheOp \<Rightarrow> bool" where
  "int64_op op = (case op of RecordOp p sz md a b \<Rightarrow> is_int64 sz \<and> is_int64 md | SaveMidOp w \<Rightarrow> True)"

lemma ents_ok_op:
  assumes "\<forall>p. length (b3 p) = 32" "int64_op op" "ents_ok (c_ents c)"
  shows "ents_ok (c_ents (cache_op z ord b3 op c))"
proof (cases op c rule: cache_op_cases [of z ord b3])
  case 1
  then show ?thesis using assms by simp
next
  case (2 p sz md pfxHex fullHex pfx full)
  then have "ent_ok (mk_ent b3 (c_gen c) p sz md pfx full)"
    using assms(1,2) prefix_bytes_length by (simp add: ent_ok_def mk_ent_def pathTag_def int64_op_def)
  then show ?thesis using 2 assms(3) ents_ok_record by simp
qed

text \<open>The store is well-formed whatever its file holds and whatever a scan records: every path has one entry, and
  every entry has 64-bit size and time and a tag, a prefix and a hash of 16, 16 and 32 bytes, which is what the
  fixed-size record of the file can hold.  (BLAKE3 yields 32 bytes.)\<close>

theorem store_well_formed:
  assumes "\<forall>p. length (b3 p) = 32" "\<forall>op \<in> set ops. int64_op op"
  shows "ents_ok (c_ents (cache_ops z ord b3 ops (loadHashCache z dir f)))"
proof -
  have "ents_ok (c_ents c) \<Longrightarrow> ents_ok (c_ents (cache_ops z ord b3 ops c))" for c
    using assms(2) by (induction ops arbitrary: c) (simp_all add: cache_ops_def ents_ok_op [OF assms(1)])
  then show ?thesis using ents_ok_load by blast
qed

lemma capped_op:
  assumes "reorders ord" "hashCacheMax z \<le> hashCacheHigh z"
    and "length (c_ents c) \<le> hashCacheHigh z" "length (c_changed c) \<le> changedMax"
  shows "length (c_ents (cache_op z ord b3 op c)) \<le> hashCacheHigh z"
    "length (c_changed (cache_op z ord b3 op c)) \<le> changedMax"
proof -
  have r: "length (c_ents (snd (record_ent z ord k e c))) \<le> hashCacheHigh z" for k e
    using trimMidScan_length [OF assms(1), of "hashCacheMax z"] assms(2)
    by (auto simp: record_ent_simps Let_def intro: order_trans)
  have n: "length (note_change k e old (c_changed c)) \<le> changedMax" for k e old
    using length_alist_update [of k "\<lparr>cr_tag = h_tag e, cr_prior = h_hash old\<rparr>" "c_changed c"] assms(4)
    by (simp add: note_change_def)
  show "length (c_ents (cache_op z ord b3 op c)) \<le> hashCacheHigh z"
    by (cases op c rule: cache_op_cases [of z ord b3]) (simp_all add: r assms(3))
  show "length (c_changed (cache_op z ord b3 op c)) \<le> changedMax"
    by (cases op c rule: cache_op_cases [of z ord b3])
      (auto simp: record_ent_simps n assms(4) split: option.splits)
qed

lemma ents_ok_ord: "reorders ord \<Longrightarrow> ents_ok xs \<Longrightarrow> ents_ok (ord xs)"
  using same_map(1) [of xs "ord xs"] reorders_simps(1) [of ord xs] by (simp add: ents_ok_def reorders_def)

lemma saveTrim_written:
  assumes "saveTrim z ord final wrote c = (ok, Some bs, c')" "reorders ord"
  obtains all where "bs = store_bytes (c_gen c) all" "length all \<le> hashCacheMax z" "set all \<subseteq> set (c_ents c)"
    "ents_ok (c_ents c) \<Longrightarrow> ents_ok all" "final \<Longrightarrow> all = ord (trimLocked ord (hashCacheMax z) (c_ents c))"
proof (cases final)
  case True
  let ?t = "trimLocked ord (hashCacheMax z) (c_ents c)"
  have "bs = store_bytes (c_gen c) (ord ?t)"
    using assms(1) True by (auto simp: saveTrim_def Let_def split: if_splits)
  moreover have "ents_ok (ord ?t)" if "ents_ok (c_ents c)"
    using ents_ok_ord [OF assms(2)] trims_ok(1) [OF that] by blast
  ultimately show thesis using that trimLocked_length [OF assms(2)] trimLocked_sub assms(2)
    by (simp add: reorders_simps)
next
  case False
  let ?s = "sort_key (\<lambda>ke. - int (unat (h_gen (snd ke)))) (ord (c_ents c))"
  define all where "all = (if length (ord (c_ents c)) > hashCacheMax z then take (hashCacheMax z) ?s else ord (c_ents c))"
  have "bs = store_bytes (c_gen c) all"
    using assms(1) False by (auto simp: saveTrim_def Let_def all_def split: if_splits)
  moreover have "length all \<le> hashCacheMax z" by (simp add: all_def)
  moreover have sub: "set all \<subseteq> set (c_ents c)"
    using take_sort_key(2) [of "hashCacheMax z" _ "ord (c_ents c)"] by (auto simp: all_def reorders_simps [OF assms(2)])
  moreover have "ents_ok all" if o: "ents_ok (c_ents c)"
  proof -
    have "distinct (map fst (ord (c_ents c)))" "distinct (map fst ?s)"
      using o assms(2) same_map(1) [of "c_ents c"] by (simp_all add: ents_ok_def reorders_def)
    then have "distinct (map fst all)" by (simp add: all_def take_map [symmetric])
    then show ?thesis using o sub by (auto simp: ents_ok_def)
  qed
  ultimately show thesis using that False by blast
qed

text \<open>C37. The store's memory and its file are bounded: from a store within its caps, whatever a scan records, the map never
  exceeds its high mark nor the evidence set its cap, and a file written then holds at most
  \<open>hashCacheMax\<close> entries, all of them the store's.\<close>

theorem store_stays_capped:
  assumes "reorders ord" "hashCacheMax z \<le> hashCacheHigh z"
    and "length (c_ents c) \<le> hashCacheHigh z" "length (c_changed c) \<le> changedMax"
  shows "length (c_ents (cache_ops z ord b3 ops c)) \<le> hashCacheHigh z
    \<and> length (c_changed (cache_ops z ord b3 ops c)) \<le> changedMax
    \<and> (\<forall>final wrote ok bs c'. saveTrim z ord final wrote (cache_ops z ord b3 ops c) = (ok, Some bs, c') \<longrightarrow>
        (\<exists>all. bs = store_bytes (c_gen c) all \<and> length all \<le> hashCacheMax z
           \<and> set all \<subseteq> set (c_ents (cache_ops z ord b3 ops c))))"
proof -
  have "length (c_ents (cache_ops z ord b3 ops c)) \<le> hashCacheHigh z
      \<and> length (c_changed (cache_ops z ord b3 ops c)) \<le> changedMax"
    using assms(3,4)
  proof (induction ops arbitrary: c)
    case (Cons op ops)
    then show ?case using capped_op [OF assms(1,2) Cons.prems] by (simp add: cache_ops_def)
  qed (simp add: cache_ops_def)
  moreover have "\<exists>all. bs = store_bytes (c_gen c) all \<and> length all \<le> hashCacheMax z
      \<and> set all \<subseteq> set (c_ents (cache_ops z ord b3 ops c))"
    if "saveTrim z ord final wrote (cache_ops z ord b3 ops c) = (ok, Some bs, c')" for final wrote ok bs c'
    using saveTrim_written [OF that assms(1)] by (metis cache_ops_gen)
  ultimately show ?thesis by blast
qed

subsection \<open>What a scan is served, and what it finds\<close>

text \<open>A store as a scan leaves it: no entry is of a later generation, and the counter has not run out.\<close>

definition sane :: "hashCache \<Rightarrow> bool" where
  "sane c \<longleftrightarrow> ents_ok (c_ents c) \<and> (\<forall>ke \<in> set (c_ents c). h_gen (snd ke) \<le> c_gen c) \<and> c_gen c \<noteq> - 1"

text \<open>A file such a store wrote, or none.\<close>

definition written :: "cacheSizes \<Rightarrow> gostring option \<Rightarrow> bool" where
  "written z f \<longleftrightarrow> f = None \<or>
     (\<exists>ord final c ok c'. reorders ord \<and> sane c \<and> saveTrim z ord final True c = (ok, f, c'))"

lemma less_succ: "(g::32 word) \<noteq> - 1 \<Longrightarrow> g' \<le> g \<Longrightarrow> g' < g + 1"
proof -
  assume g: "g \<noteq> - 1" "g' \<le> g"
  have "unat (- 1 :: 32 word) = 2 ^ 32 - 1" 
    by (simp add: unsigned_minus_1_eq_mask mask_eq_exp_minus_1)
  then have "unat g \<noteq> 2 ^ 32 - 1" using g(1) by (metis word_unat_eq_iff)
  moreover have "unat g < 2 ^ 32" by (rule order_less_le_trans [OF unsigned_less]) simp
  ultimately have "unat g + 1 < 2 ^ 32" by simp
  then have "unat (g + 1) = unat g + 1" by (simp add: unat_word_ariths(1))
  then show ?thesis using g(2) by (simp add: word_less_nat_alt word_le_nat_alt)
qed

lemma loaded_is_history:
  assumes "written z f" "hashCacheMax z < 2 ^ 32" "ke \<in> set (c_ents (loadHashCache z dir f))"
  shows "h_gen (snd ke) < c_gen (loadHashCache z dir f)"
proof (cases "f = None \<or> dir = []")
  case True
  then show ?thesis using assms(3) by (auto simp: loadHashCache_def emptyCache_def Let_def)
next
  case False
  then obtain bs where f: "f = Some bs" by (cases f) auto
  then obtain ord final c ok c' where w: "reorders ord" "sane c" "saveTrim z ord final True c = (ok, Some bs, c')"
    using assms(1) False by (auto simp: written_def)
  obtain all where a: "bs = store_bytes (c_gen c) all" "length all \<le> hashCacheMax z" "set all \<subseteq> set (c_ents c)" "ents_ok all"
    using saveTrim_written [OF w(3,1)] w(2) by (metis sane_def)
  note L = load_store_bytes [OF _ a(4,2), of dir "c_gen c"]
  have "length all < 2 ^ 32" using a(2) assms(2) by simp
  then have "set (c_ents (loadHashCache z dir f)) = set all" "c_gen (loadHashCache z dir f) = c_gen c + 1"
    using L a(1,4) f False map_of_inject_set [of "c_ents (loadHashCache z dir f)" all] by (auto simp: ents_ok_def)
  then show ?thesis using assms(3) a(3) w(2) less_succ by (auto simp: sane_def)
qed

lemma pathTag_mk [simp]: "h_tag (mk_ent b3 g p sz md pfx full) = pathTag b3 p" "h_gen (mk_ent b3 g p sz md pfx full) = g"
  "h_size (mk_ent b3 g p sz md pfx full) = sz" "h_mod (mk_ent b3 g p sz md pfx full) = md"
  "h_pfx (mk_ent b3 g p sz md pfx full) = pfx" "h_hash (mk_ent b3 g p sz md pfx full) = full"
  by (simp_all add: mk_ent_def)

text \<open>C17. A scan is only served what it read itself: from a store loaded from a file earlier scans wrote, every hash
  the store answers with during the scan was recorded in that scan, for a path with the same bucket and the same
  BLAKE3 tag, with the size, the time and the prefix asked for.  History is never served.\<close>

theorem lookup_serves_this_scan:
  assumes "written z f" "hashCacheMax z < 2 ^ 32"
    and "lookup b3 (Some (cache_ops z ord b3 ops (loadHashCache z dir f))) p sz md pfxHex = Some h"
  shows "\<exists>p' pfxHex' fullHex full. RecordOp p' sz md pfxHex' fullHex \<in> set ops \<and> pathKey p' = pathKey p
    \<and> pathTag b3 p' = pathTag b3 p \<and> prefix_bytes pfxHex' = prefix_bytes pfxHex
    \<and> DecodeString fullHex = Some full \<and> h = EncodeToString full"
proof -
  let ?start = "loadHashCache z dir f" and ?c = "cache_ops z ord b3 ops (loadHashCache z dir f)"
  have "recorded b3 [] ?start"
    using loaded_is_history [OF assms(1,2), of _ dir] by (fastforce simp: recorded_def)
  from recorded_ops [OF this, of ops z ord] have r: "recorded b3 ops ?c" by simp
  obtain pfx e where e: "prefix_bytes pfxHex = Some pfx" "map_of (c_ents ?c) (pathKey p) = Some e"
    "h_gen e = c_gen ?c" "h_size e = sz" "h_mod e = md" "h_tag e = pathTag b3 p" "h_pfx e = pfx"
    "h = EncodeToString (h_hash e)"
    using assms(3) by (auto simp: lookup_def split: option.splits if_splits)
  have "(pathKey p, e) \<in> set (c_ents ?c)" using e(2) by (rule map_of_SomeD)
  with r e(3) obtain p' sz' md' pfxHex' fullHex pfx' full where
    "RecordOp p' sz' md' pfxHex' fullHex \<in> set ops" "pathKey p = pathKey p'" "prefix_bytes pfxHex' = Some pfx'"
    "DecodeString fullHex = Some full" "e = mk_ent b3 (c_gen ?c) p' sz' md' pfx' full"
    unfolding recorded_def by blast
  then show ?thesis using e by (intro exI [of _ p'] exI [of _ pfxHex'] exI [of _ fullHex] exI [of _ full]) simp
qed

text \<open>The file is the store: what a final save writes reads back as the same entries, under the next
  generation, as long as they fit the cap.\<close>

theorem store_roundtrip:
  assumes "reorders ord" "ents_ok (c_ents c)" "length (c_ents c) \<le> hashCacheMax z" "hashCacheMax z < 2 ^ 32"
    and "save z ord True c = (True, Some bs, c')" "dir \<noteq> []"
  shows "map_of (c_ents (loadHashCache z dir (Some bs))) = map_of (c_ents c)
    \<and> c_gen (loadHashCache z dir (Some bs)) = c_gen c + 1 \<and> c_ents c' = c_ents c \<and> \<not> c_dirty c'"
proof -
  have t: "trimLocked ord (hashCacheMax z) (c_ents c) = c_ents c" using assms(3) by (simp add: trimLocked_def)
  then have bs: "bs = store_bytes (c_gen c) (ord (c_ents c))" "c_ents c' = c_ents c" "\<not> c_dirty c'"
    using assms(5) by (auto simp: save_def saveTrim_def Let_def split: if_splits)
  have "length (ord (c_ents c)) \<le> hashCacheMax z" using assms(1,3) by (simp add: reorders_simps)
  moreover have "map_of (ord (c_ents c)) = map_of (c_ents c)"
    using same_map(2) [of "c_ents c" "ord (c_ents c)"] assms(1,2) by (simp add: ents_ok_def reorders_def)
  ultimately show ?thesis
    using load_store_bytes [OF assms(6) ents_ok_ord [OF assms(1,2)], of z "c_gen c"] assms(4) bs by simp
qed

text \<open>Recording elsewhere leaves an entry alone while nothing is trimmed.\<close>

definition other_path :: "key \<Rightarrow> cacheOp \<Rightarrow> bool" where
  "other_path k op = (case op of RecordOp q sz md a b \<Rightarrow> pathKey q \<noteq> k | SaveMidOp w \<Rightarrow> True)"

lemma other_op:
  assumes "other_path k op" "length (c_ents c) < hashCacheHigh z"
  shows "map_of (c_ents (cache_op z ord b3 op c)) k = map_of (c_ents c) k"
    "length (c_ents (cache_op z ord b3 op c)) \<le> Suc (length (c_ents c))"
proof -
  have l: "\<not> hashCacheHigh z < length (AList.update k' e (c_ents c))" for k' e
    using length_alist_update [of k' e "c_ents c"] assms(2) by simp
  then show "map_of (c_ents (cache_op z ord b3 op c)) k = map_of (c_ents c) k"
    using assms(1)
    by (cases op c rule: cache_op_cases [of z ord b3]) (auto simp: record_ent_simps Let_def update_conv' other_path_def)
  show "length (c_ents (cache_op z ord b3 op c)) \<le> Suc (length (c_ents c))"
    using length_alist_update [of _ _ "c_ents c"] l
    by (cases op c rule: cache_op_cases [of z ord b3]) (auto simp: record_ent_simps Let_def)
qed

lemma other_ops:
  "\<forall>op \<in> set ops. other_path k op \<Longrightarrow> length (c_ents c) + length ops \<le> hashCacheHigh z
    \<Longrightarrow> map_of (c_ents (cache_ops z ord b3 ops c)) k = map_of (c_ents c) k"
proof (induction ops arbitrary: c)
  case (Cons op ops)
  then have "length (c_ents (cache_op z ord b3 op c)) \<le> Suc (length (c_ents c))"
    "map_of (c_ents (cache_op z ord b3 op c)) k = map_of (c_ents c) k"
    using other_op [of k op c z ord b3] by auto
  then show ?case using Cons by (simp add: cache_ops_def)
qed (simp add: cache_ops_def)

text \<open>Silent damage is found by the next scan: let a scan leave an entry for a path and save the store, and let the
  next scan load it and record anything about other paths; when it then records the path at the same size and
  time, it reports a change, with the content the entry held, exactly when the prefix or the content differs.\<close>

theorem rot_found_next_scan:
  assumes "reorders ord" "sane c" "length (c_ents c) \<le> hashCacheMax z" "hashCacheMax z < 2 ^ 32"
    and "save z ord True c = (True, Some bs, c')" "dir \<noteq> []"
    and "map_of (c_ents c) (pathKey p) = Some e" "h_tag e = pathTag b3 p"
    and "\<forall>op \<in> set ops. other_path (pathKey p) op"
    and "length (c_ents (loadHashCache z dir (Some bs))) + length ops \<le> hashCacheHigh z"
    and "prefix_bytes pfxHex = Some pfx" "DecodeString fullHex = Some full" "length full = 32"
  shows "fst (record_hash z ord' b3 (Some (cache_ops z ord' b3 ops (loadHashCache z dir (Some bs))))
      p (h_size e) (h_mod e) pfxHex fullHex)
    = (if h_pfx e = pfx \<and> h_hash e = full then None else Some (EncodeToString (h_hash e)))"
proof -
  let ?c = "cache_ops z ord' b3 ops (loadHashCache z dir (Some bs))"
  have ok: "ents_ok (c_ents c)" using assms(2) by (simp add: sane_def)
  note R = store_roundtrip [OF assms(1) ok assms(3-6)]
  have "map_of (c_ents ?c) (pathKey p) = Some e"
    using other_ops [OF assms(9,10)] R assms(7) by simp
  moreover have "h_gen e \<le> c_gen c" using assms(2) map_of_SomeD [OF assms(7)] by (fastforce simp: sane_def)
  then have "h_gen e \<noteq> c_gen ?c" using less_succ [of "c_gen c" "h_gen e"] assms(2) R by (auto simp: sane_def)
  ultimately show ?thesis
    using assms(8,11-13) by (auto simp: record_hash_Some record_ent_simps rotted_def)
qed

subsection \<open>A limit of the trimming\<close>

definition ex_ent :: "32 word \<Rightarrow> hcEnt" where
  "ex_ent g = \<lparr>h_size = 1, h_mod = 1, h_tag = replicate 16 CHR ''t'', h_pfx = replicate 16 CHR ''p'',
     h_hash = replicate 32 CHR ''h'', h_gen = g\<rparr>"

text \<open>The last loop of \<open>trimLocked\<close> takes its victims from everything that is left, not only from the
  boundary generation: an entry of the newest generation can go while older ones stay.\<close>

lemma trim_drops_newer:
  "trimLocked id 2 [(1, ex_ent 3), (2, ex_ent 2), (3, ex_ent 2)] = [(2, ex_ent 2), (3, ex_ent 2)]"
  by code_simp

subsection \<open>A small store\<close>

definition ex_b3 :: "gostring \<Rightarrow> gostring" where
  "ex_b3 p = replicate 32 CHR ''t''"

definition ex_cap :: cacheSizes where
  "ex_cap = \<lparr>hashCacheMax = 2, hashCacheHigh = 3\<rparr>"

definition ex_store :: hashCache where
  "ex_store = emptyCache\<lparr>c_path := ''/s/h'', c_gen := 3, c_ents := [(pathKey ''a'', ex_ent 3)], c_dirty := True\<rparr>"

definition ex_pfx :: gostring where
  "ex_pfx = EncodeToString (replicate 16 CHR ''p'')"

definition ex_full :: "char \<Rightarrow> gostring" where
  "ex_full c = EncodeToString (replicate 32 c)"

lemma ex_hex: "prefix_bytes ex_pfx = Some (replicate 16 CHR ''p'')" "DecodeString (ex_full c) = Some (replicate 32 c)"
  by (simp_all add: ex_pfx_def prefix_bytes_def ex_full_def)

lemma reorders_id: "reorders id"
  by (simp add: reorders_def)

lemma sane_ex: "sane ex_store"
  by (simp add: sane_def ex_store_def emptyCache_def ents_ok_def ent_ok_def ex_ent_def is_int64_def)

lemma save_ex: "\<exists>bs c'. save ex_cap id True ex_store = (True, Some bs, c')"
  by (simp add: save_def saveTrim_def ex_store_def emptyCache_def Let_def)

theorem store_well_formed_witness:
  "ents_ok (c_ents (cache_ops ex_cap id ex_b3 [RecordOp ''a'' 5 7 ex_pfx (ex_full CHR ''x'')] (loadHashCache ex_cap ''/s'' None)))"
  by (rule store_well_formed) (simp_all add: ex_b3_def int64_op_def is_int64_def)

theorem store_stays_capped_witness:
  "length (c_ents (cache_ops ex_cap id ex_b3 [RecordOp ''a'' 5 7 ex_pfx (ex_full CHR ''x''), RecordOp ''b'' 5 7 ex_pfx (ex_full CHR ''x'')]
     ex_store)) \<le> 3"
  using store_stays_capped [OF reorders_id, of ex_cap ex_store ex_b3
      "[RecordOp ''a'' 5 7 ex_pfx (ex_full CHR ''x''), RecordOp ''b'' 5 7 ex_pfx (ex_full CHR ''x'')]"]
  by (simp add: ex_cap_def ex_store_def emptyCache_def)

theorem lookup_serves_this_scan_witness:
  "lookup ex_b3 (Some (cache_ops ex_cap id ex_b3 [RecordOp ''a'' 5 7 ex_pfx (ex_full CHR ''x'')] (loadHashCache ex_cap ''/s'' None)))
     ''a'' 5 7 ex_pfx = Some (ex_full CHR ''x'')
   \<and> (\<exists>p' pfxHex' fullHex. RecordOp p' 5 7 pfxHex' fullHex \<in> set [RecordOp ''a'' 5 7 ex_pfx (ex_full CHR ''x'')])"
proof -
  have l: "lookup ex_b3 (Some (cache_ops ex_cap id ex_b3 [RecordOp ''a'' 5 7 ex_pfx (ex_full CHR ''x'')] (loadHashCache ex_cap ''/s'' None)))
     ''a'' 5 7 ex_pfx = Some (ex_full CHR ''x'')"
    by (simp add: cache_ops_def record_hash_Some ex_hex record_ent_simps Let_def loadHashCache_def emptyCache_def lookup_def
        ex_cap_def ex_full_def)
  show ?thesis using lookup_serves_this_scan [OF _ _ l] l by (simp add: written_def ex_cap_def)
qed

theorem store_roundtrip_witness:
  "\<exists>bs c'. save ex_cap id True ex_store = (True, Some bs, c')
     \<and> map_of (c_ents (loadHashCache ex_cap ''/s'' (Some bs))) = map_of (c_ents ex_store)
     \<and> c_gen (loadHashCache ex_cap ''/s'' (Some bs)) = 4"
proof -
  obtain bs c' where s: "save ex_cap id True ex_store = (True, Some bs, c')" using save_ex by blast
  have "ents_ok (c_ents ex_store)" "length (c_ents ex_store) \<le> hashCacheMax ex_cap" "hashCacheMax ex_cap < 2 ^ 32"
    "c_gen ex_store = 3" using sane_ex by (simp_all add: sane_def ex_store_def ex_cap_def)
  then show ?thesis using s store_roundtrip [OF reorders_id _ _ _ s, of "''/s''"] by auto
qed

text \<open>The content of a file changed behind its size and time between two scans.\<close>

theorem rot_found_next_scan_witness:
  "\<exists>bs c'. save ex_cap id True ex_store = (True, Some bs, c')
     \<and> fst (record_hash ex_cap id ex_b3 (Some (cache_ops ex_cap id ex_b3 [SaveMidOp True] (loadHashCache ex_cap ''/s'' (Some bs))))
           ''a'' 1 1 ex_pfx (ex_full CHR ''x'')) = Some (ex_full CHR ''h'')"
proof -
  obtain bs c' where s: "save ex_cap id True ex_store = (True, Some bs, c')" using save_ex by blast
  have c: "length (c_ents ex_store) \<le> hashCacheMax ex_cap" "hashCacheMax ex_cap < 2 ^ 32"
    "map_of (c_ents ex_store) (pathKey ''a'') = Some (ex_ent 3)" "h_tag (ex_ent 3) = pathTag ex_b3 ''a''"
    by (simp_all add: ex_store_def ex_cap_def ex_ent_def pathTag_def ex_b3_def)
  have ok: "ents_ok (c_ents ex_store)" using sane_ex by (simp add: sane_def)
  have "map_of (c_ents (loadHashCache ex_cap ''/s'' (Some bs))) = map_of (c_ents ex_store)"
    "ents_ok (c_ents (loadHashCache ex_cap ''/s'' (Some bs)))"
    using store_roundtrip [OF reorders_id ok c(1,2) s, of "''/s''"] ents_ok_load by simp_all
  then have "set (c_ents (loadHashCache ex_cap ''/s'' (Some bs))) = set (c_ents ex_store)"
    using ok map_of_inject_set by (auto simp: ents_ok_def)
  then have "length (c_ents (loadHashCache ex_cap ''/s'' (Some bs))) \<le> 1"
    using \<open>ents_ok (c_ents (loadHashCache ex_cap ''/s'' (Some bs)))\<close> distinct_card [of "c_ents (loadHashCache ex_cap ''/s'' (Some bs))"]
    by (simp add: ents_ok_def ex_store_def distinct_map)
  then show ?thesis
    using rot_found_next_scan [OF reorders_id sane_ex c(1,2) s _ c(3,4), of "''/s''" "[SaveMidOp True]" ex_pfx _ "ex_full CHR ''x''" _ id]
      ex_hex s
    by (simp add: other_path_def ex_cap_def ex_ent_def ex_full_def [of "CHR ''h''"])
qed

end
