(* ===== verification/BoundedTop.thy ===== *)
theory BoundedTop
  imports Prelude "HOL-Library.Multiset"
begin

text \<open>
  The bounded rankings of \<open>server/stream.go\<close>: a ranking keeps the best entries of a stream in
  a heap of Go's package \<open>container/heap\<close> (\<open>up\<close>, \<open>down\<close>, \<open>Push\<close>,
  \<open>Fix\<close>), evicting the lowest-ranked one.  The locale \<open>ranking\<close> holds what the three
  rankings of the program (candidates by path, duplicate groups, conflicting groups) share: what is kept is
  what a full sort cut at the limit would keep.
\<close>

subsection \<open>Package heap\<close>

definition swap_at :: "nat \<Rightarrow> nat \<Rightarrow> 'a list \<Rightarrow> 'a list" where
  "swap_at i j h = h[i := h ! j, j := h ! i]"

function heap_up :: "('a \<Rightarrow> 'a \<Rightarrow> bool) \<Rightarrow> nat \<Rightarrow> 'a list \<Rightarrow> 'a list" where
  "heap_up ls j h =
     (let i = (j - 1) div 2 in
      if i = j \<or> \<not> ls (h ! j) (h ! i) then h else heap_up ls i (swap_at i j h))"
  by pat_completeness auto

termination by (relation "measure (\<lambda>(_, j, _). j)") auto

declare heap_up.simps [simp del]

text \<open>The child \<open>down\<close> compares with: the lesser of the two.\<close>

definition lesser_child :: "('a \<Rightarrow> 'a \<Rightarrow> bool) \<Rightarrow> nat \<Rightarrow> nat \<Rightarrow> 'a list \<Rightarrow> nat" where
  "lesser_child ls i n h =
     (let j1 = 2 * i + 1; j2 = j1 + 1 in if j2 < n \<and> ls (h ! j2) (h ! j1) then j2 else j1)"

function heap_down :: "('a \<Rightarrow> 'a \<Rightarrow> bool) \<Rightarrow> nat \<Rightarrow> nat \<Rightarrow> 'a list \<Rightarrow> 'a list" where
  "heap_down ls i n h =
     (if 2 * i + 1 \<ge> n then h
      else let j = lesser_child ls i n h in
        if \<not> ls (h ! j) (h ! i) then h else heap_down ls j n (swap_at i j h))"
  by pat_completeness auto

termination
  by (relation "measure (\<lambda>(_, i, n, _). n - i)") (auto simp: lesser_child_def Let_def split: if_splits)

declare heap_down.simps [simp del]

definition heap_push :: "('a \<Rightarrow> 'a \<Rightarrow> bool) \<Rightarrow> 'a \<Rightarrow> 'a list \<Rightarrow> 'a list" where
  "heap_push ls x h = heap_up ls (length h) (h @ [x])"

text \<open>\<open>Fix\<close> of the root: it can only move down.\<close>

definition heap_fix_root :: "('a \<Rightarrow> 'a \<Rightarrow> bool) \<Rightarrow> 'a list \<Rightarrow> 'a list" where
  "heap_fix_root ls h = heap_down ls 0 (length h) h"

subsection \<open>Offering an entry\<close>

text \<open>The root is the lowest-ranked kept entry, the one a better entry evicts; the second
  component is what the offer drops.\<close>

definition lower_first :: "('a \<Rightarrow> 'a \<Rightarrow> bool) \<Rightarrow> 'a \<Rightarrow> 'a \<Rightarrow> bool" where
  "lower_first before x y \<longleftrightarrow> before y x"

definition heap_offer :: "('a \<Rightarrow> 'a \<Rightarrow> bool) \<Rightarrow> nat \<Rightarrow> 'a \<Rightarrow> 'a list \<Rightarrow> 'a list \<times> 'a option" where
  "heap_offer before limit x h =
     (if length h < limit then (heap_push (lower_first before) x h, None)
      else if before x (h ! 0) then (heap_fix_root (lower_first before) (h[0 := x]), Some (h ! 0))
      else (h, Some x))"

text \<open>\<open>sort.Slice\<close> by a ranking; the order of entries of equal rank is not the source's to
  choose.\<close>

fun rank_insert :: "('a \<Rightarrow> 'a \<Rightarrow> bool) \<Rightarrow> 'a \<Rightarrow> 'a list \<Rightarrow> 'a list" where
  "rank_insert before x [] = [x]"
| "rank_insert before x (y # ys) = (if before y x then y # rank_insert before x ys else x # y # ys)"

definition rank_sort :: "('a \<Rightarrow> 'a \<Rightarrow> bool) \<Rightarrow> 'a list \<Rightarrow> 'a list" where
  "rank_sort before xs = foldr (rank_insert before) xs []"

lemma mset_rank_insert [simp]: "mset (rank_insert before x xs) = add_mset x (mset xs)"
  by (induction xs) auto

lemma set_rank_insert [simp]: "set (rank_insert before x xs) = insert x (set xs)"
  by (induction xs) auto

lemma mset_rank_sort [simp]: "mset (rank_sort before xs) = mset xs"
  by (induction xs) (auto simp: rank_sort_def)

lemma length_rank_sort [simp]: "length (rank_sort before xs) = length xs"
  by (metis mset_rank_sort size_mset)

lemma set_rank_sort [simp]: "set (rank_sort before xs) = set xs"
  by (metis mset_rank_sort set_mset_mset)

lemma mset_swap_at: "i < length h \<Longrightarrow> j < length h \<Longrightarrow> mset (swap_at i j h) = mset h"
  by (simp add: swap_at_def mset_swap)

lemma length_swap_at [simp]: "length (swap_at i j h) = length h"
  by (simp add: swap_at_def)

lemma nth_swap_at: "i < length h \<Longrightarrow> j < length h \<Longrightarrow>
  swap_at i j h ! m = (if m = j then h ! i else if m = i then h ! j else h ! m)"
  by (simp add: swap_at_def nth_list_update)

lemma mset_heap_up: "j < length h \<Longrightarrow> mset (heap_up ls j h) = mset h"
proof (induction ls j h rule: heap_up.induct)
  case (1 ls j h)
  show ?case
  proof (cases "(j - 1) div 2 = j \<or> \<not> ls (h ! j) (h ! ((j - 1) div 2))")
    case True
    then show ?thesis by (subst heap_up.simps) (simp add: Let_def)
  next
    case False
    have "(j - 1) div 2 < length h" using "1.prems" by linarith
    then show ?thesis
      using 1 False by (subst heap_up.simps) (simp add: Let_def mset_swap_at)
  qed
qed

lemma lesser_child_cases: "lesser_child ls i n h = 2 * i + 1 \<or> lesser_child ls i n h = 2 * i + 2 \<and> 2 * i + 2 < n"
  by (simp add: lesser_child_def Let_def)

lemma mset_heap_down: "n = length h \<Longrightarrow> mset (heap_down ls i n h) = mset h"
proof (induction ls i n h rule: heap_down.induct)
  case (1 ls i n h)
  let ?j = "lesser_child ls i n h"
  show ?case
  proof (cases "2 * i + 1 \<ge> n \<or> \<not> ls (h ! ?j) (h ! i)")
    case True
    then show ?thesis by (subst heap_down.simps) (auto simp: Let_def)
  next
    case False
    then have "?j < length h" "i < length h" using lesser_child_cases [of ls i n h] "1.prems" by auto
    then show ?thesis
      using 1 False by (subst heap_down.simps) (simp add: Let_def mset_swap_at)
  qed
qed

lemma mset_heap_push: "mset (heap_push ls x h) = add_mset x (mset h)"
  by (simp add: heap_push_def mset_heap_up)

lemma mset_heap_fix_root: "mset (heap_fix_root ls h) = mset h"
  by (simp add: heap_fix_root_def mset_heap_down)

subsection \<open>What a ranking keeps\<close>

locale ranking =
  fixes before :: "'a \<Rightarrow> 'a \<Rightarrow> bool" and rank :: "'a \<Rightarrow> 'k::linorder"
  assumes before_rank: "before a b \<longleftrightarrow> rank a < rank b"
begin

lemma sorted_rank_insert: "sorted (map rank xs) \<Longrightarrow> sorted (map rank (rank_insert before x xs))"
  by (induction xs) (auto simp: before_rank)

lemma sorted_rank_sort: "sorted (map rank (rank_sort before xs))"
  by (induction xs) (auto simp: rank_sort_def sorted_rank_insert)

lemma rank_sort_ranks: "map rank (rank_sort before xs) = sort (map rank xs)"
  by (rule properties_for_sort [symmetric]) (simp_all add: sorted_rank_sort)

definition edge_ok :: "'a list \<Rightarrow> nat \<Rightarrow> bool" where
  "edge_ok h m \<longleftrightarrow> rank (h ! m) \<le> rank (h ! ((m - 1) div 2))"

definition heap_ok :: "'a list \<Rightarrow> bool" where
  "heap_ok h \<longleftrightarrow> (\<forall>m < length h. edge_ok h m)"

lemma heap_root: "heap_ok h \<Longrightarrow> m < length h \<Longrightarrow> rank (h ! m) \<le> rank (h ! 0)"
proof (induction m rule: less_induct)
  case (less m)
  show ?case
  proof (cases "m = 0")
    case False
    then have "(m - 1) div 2 < m" by linarith
    then show ?thesis
      using less less_trans [of "(m - 1) div 2" m "length h"]
      by (auto simp: heap_ok_def edge_ok_def intro: order_trans)
  qed simp
qed

lemma heap_up_ok:
  assumes "j < length h" "\<forall>m < length h. m \<noteq> j \<longrightarrow> edge_ok h m"
    and "\<forall>m < length h. m \<noteq> j \<and> (m - 1) div 2 = j \<longrightarrow> rank (h ! m) \<le> rank (h ! ((j - 1) div 2))"
  shows "heap_ok (heap_up (lower_first before) j h)"
  using assms
proof (induction "lower_first before" j h rule: heap_up.induct)
  case (1 j h)
  let ?i = "(j - 1) div 2"
  show ?case
  proof (cases "?i = j \<or> \<not> lower_first before (h ! j) (h ! ?i)")
    case True
    then have "edge_ok h j"
    proof
      assume "(j - 1) div 2 = j"
      then have "j = 0" by linarith
      then show ?thesis by (simp add: edge_ok_def del: One_nat_def)
    qed (simp add: edge_ok_def lower_first_def before_rank not_less)
    then have "heap_ok h" using "1.prems"(2) by (auto simp: heap_ok_def)
    then show ?thesis using True by (subst heap_up.simps) (auto simp: Let_def)
  next
    case False
    let ?h = "swap_at ?i j h"
    have i: "?i < j" "?i < length h" using False "1.prems"(1) by linarith+
    have lt: "rank (h ! ?i) < rank (h ! j)" using False by (simp add: lower_first_def before_rank)
    note nth = nth_swap_at [OF i(2) "1.prems"(1)]
    have edges: "edge_ok ?h m" if m: "m < length ?h" "m \<noteq> ?i" for m
    proof (cases "m = j")
      case True
      then show ?thesis using lt i by (simp add: edge_ok_def nth del: One_nat_def)
    next
      case mj: False
      have e: "rank (h ! m) \<le> rank (h ! ((m - 1) div 2))"
        using "1.prems"(2) m mj by (simp add: edge_ok_def del: One_nat_def)
      consider "(m - 1) div 2 = j" | "(m - 1) div 2 = ?i" | "(m - 1) div 2 \<notin> {?i, j}" by blast
      then show ?thesis
      proof cases
        case 1
        then show ?thesis using "1.prems"(3) m mj by (simp add: edge_ok_def nth del: One_nat_def)
      next
        case 2
        then show ?thesis using e lt m mj i by (simp add: edge_ok_def nth del: One_nat_def)
      next
        case 3
        then show ?thesis using e m mj by (simp add: edge_ok_def nth del: One_nat_def)
      qed
    qed
    have up: "rank (h ! ?i) \<le> rank (h ! ((?i - 1) div 2))"
      using "1.prems"(2) i by (simp add: edge_ok_def del: One_nat_def)
    have children: "rank (?h ! m) \<le> rank (?h ! ((?i - 1) div 2))"
      if m: "m < length ?h" "m \<noteq> ?i" "(m - 1) div 2 = ?i" for m
    proof -
      have "rank (?h ! m) \<le> rank (h ! ?i)"
        using "1.prems"(2) m by (cases "m = j") (auto simp: edge_ok_def nth simp del: One_nat_def)
      also have "\<dots> \<le> rank (?h ! ((?i - 1) div 2))"
        using up lt i by (auto simp: nth simp del: One_nat_def)
      finally show ?thesis .
    qed
    have "heap_ok (heap_up (lower_first before) ?i ?h)"
      by (rule "1.hyps" [OF refl False]) (use i edges children in auto)
    then show ?thesis using False by (subst heap_up.simps) (simp add: Let_def)
  qed
qed

lemma heap_down_ok:
  assumes "n = length h" "\<forall>m < n. m = i \<or> (m - 1) div 2 \<noteq> i \<longrightarrow> edge_ok h m"
    and "i \<noteq> 0 \<longrightarrow> (\<forall>m < n. m \<noteq> i \<and> (m - 1) div 2 = i \<longrightarrow> rank (h ! m) \<le> rank (h ! ((i - 1) div 2)))"
  shows "heap_ok (heap_down (lower_first before) i n h)"
  using assms
proof (induction "lower_first before" i n h rule: heap_down.induct)
  case (1 i n h)
  let ?j = "lesser_child (lower_first before) i n h"
  have kids: "m = 2 * i + 1 \<or> m = 2 * i + 2" if "m \<noteq> i" "(m - 1) div 2 = i" for m using that by linarith
  have best: "rank (h ! m) \<le> rank (h ! ?j)" if "m < n" "m \<noteq> i" "(m - 1) div 2 = i" for m
    using kids [OF that(2,3)] that(1) by (auto simp: lesser_child_def Let_def lower_first_def before_rank)
  show ?case
  proof (cases "2 * i + 1 \<ge> n")
    case True
    have "edge_ok h m" if "m < n" for m
      using "1.prems"(2) kids [of m] that True by (cases "m = i \<or> (m - 1) div 2 \<noteq> i") auto
    then have "heap_ok h" using "1.prems"(1) by (auto simp: heap_ok_def)
    then show ?thesis using True by (subst heap_down.simps) simp
  next
    case inside: False
    have j: "?j < length h" "?j \<noteq> i" "(?j - 1) div 2 = i" "i < length h"
      using lesser_child_cases [of "lower_first before" i n h] inside "1.prems"(1) by auto
    show ?thesis
    proof (cases "lower_first before (h ! ?j) (h ! i)")
      case False
      have "edge_ok h m" if "m < n" for m
      proof (cases "m = i \<or> (m - 1) div 2 \<noteq> i")
        case True
        then show ?thesis using "1.prems"(2) that by blast
      next
        case mk: False
        then have "rank (h ! m) \<le> rank (h ! i)"
          using best [OF that] False by (auto simp: lower_first_def before_rank)
        then show ?thesis using mk by (simp add: edge_ok_def)
      qed
      then have "heap_ok h" using "1.prems"(1) by (auto simp: heap_ok_def)
      then show ?thesis using inside False by (subst heap_down.simps) (simp add: Let_def)
    next
      case ls: True
      let ?h = "swap_at i ?j h"
      have lt: "rank (h ! i) < rank (h ! ?j)" using ls by (simp add: lower_first_def before_rank)
      note nth = nth_swap_at [OF j(4,1)]
      have old: "rank (h ! m) \<le> rank (h ! ((m - 1) div 2))" if "m < n" "m = i \<or> (m - 1) div 2 \<noteq> i" for m
        using "1.prems"(2) that unfolding edge_ok_def by blast
      have edges: "edge_ok ?h m" if m: "m < n" "m = ?j \<or> (m - 1) div 2 \<noteq> ?j" for m
      proof -
        consider "m = ?j" | "m = i" "i \<noteq> 0" | "m = i" "i = 0" | "m \<notin> {i, ?j}" "(m - 1) div 2 = i"
          | "m \<notin> {i, ?j}" "(m - 1) div 2 \<noteq> i" by auto
        then show ?thesis
        proof cases
          case 1
          then show ?thesis using lt j by (simp add: edge_ok_def nth del: One_nat_def)
        next
          case 2
          have "rank (h ! ?j) \<le> rank (h ! ((i - 1) div 2))" using "1.prems" j 2 by simp
          moreover have "(i - 1) div 2 \<noteq> i" using 2 by linarith
          ultimately show ?thesis using 2 m j by (simp add: edge_ok_def nth del: One_nat_def)
        next
          case 3
          then show ?thesis by (simp add: edge_ok_def)
        next
          case 4
          then show ?thesis using best [of m] m(1) j by (simp add: edge_ok_def nth del: One_nat_def)
        next
          case 5
          then show ?thesis using old [of m] m by (auto simp: edge_ok_def nth simp del: One_nat_def)
        qed
      qed
      have children: "rank (?h ! m) \<le> rank (?h ! ((?j - 1) div 2))"
        if m: "m < n" "m \<noteq> ?j" "(m - 1) div 2 = ?j" for m
      proof -
        have "m \<noteq> i" using m(3) j lesser_child_cases [of "lower_first before" i n h] by auto
        then show ?thesis using old [of m] m j by (simp add: nth del: One_nat_def)
      qed
      have "heap_ok (heap_down (lower_first before) ?j n ?h)"
      proof (rule "1.hyps" [OF inside refl])
        show "\<not> \<not> lower_first before (h ! ?j) (h ! i)" using ls by simp
      qed (use "1.prems"(1) edges children in auto)
      then show ?thesis using inside ls by (subst heap_down.simps) (simp add: Let_def)
    qed
  qed
qed

lemma heap_push_ok: "heap_ok h \<Longrightarrow> heap_ok (heap_push (lower_first before) x h)"
  unfolding heap_push_def by (rule heap_up_ok) (auto simp: heap_ok_def edge_ok_def nth_append)

lemma heap_fix_ok:
  assumes "heap_ok h" "h \<noteq> []"
  shows "heap_ok (heap_fix_root (lower_first before) (h[0 := x]))"
  unfolding heap_fix_root_def
proof (rule heap_down_ok)
  show "\<forall>m<length (h[0 := x]). m = 0 \<or> (m - 1) div 2 \<noteq> 0 \<longrightarrow> edge_ok (h[0 := x]) m"
    using assms by (auto simp: heap_ok_def edge_ok_def nth_list_update)
qed auto

text \<open>The invariant of a stream of offers: what was dropped ranks no better than what is kept.\<close>

definition kept_of :: "nat \<Rightarrow> 'a list \<Rightarrow> 'a list \<Rightarrow> 'a multiset \<Rightarrow> bool" where
  "kept_of limit xs h D \<longleftrightarrow> mset xs = mset h + D \<and> heap_ok h \<and> length h = min limit (length xs)
     \<and> (\<forall>d \<in># D. \<forall>x \<in> set h. rank x \<le> rank d)"

lemma kept_of_Nil: "kept_of limit [] [] {#}"
  by (simp add: kept_of_def heap_ok_def)

lemma kept_of_offer:
  assumes k: "kept_of limit xs h D" and l: "0 < limit" and o: "heap_offer before limit x h = (h', dr)"
  shows "kept_of limit (xs @ [x]) h' (D + (case dr of None \<Rightarrow> {#} | Some d \<Rightarrow> {#d#}))"
proof (cases "length h < limit")
  case True
  then have "length h = length xs" using k by (auto simp: kept_of_def)
  then have "D = {#}" using k by (metis add_diff_cancel_left' kept_of_def size_mset size_eq_0_iff_empty size_union diff_self_eq_0)
  then show ?thesis
    using k o True heap_push_ok mset_heap_push [of "lower_first before" x h]
    by (auto simp: kept_of_def heap_offer_def dest: arg_cong [where f = size])
next
  case False
  then have len: "length h = limit" "h \<noteq> []" using k l by (auto simp: kept_of_def)
  have root: "rank y \<le> rank (h ! 0)" if "y \<in> set h" for y
    using heap_root k that by (metis kept_of_def in_set_conv_nth)
  have D: "\<forall>d \<in># D. \<forall>x \<in> set h. rank x \<le> rank d" using k by (simp add: kept_of_def)
  show ?thesis
  proof (cases "before x (h ! 0)")
    case True
    let ?h = "h[0 := x]"
    have h': "h' = heap_fix_root (lower_first before) ?h" "dr = Some (h ! 0)"
      using o False True by (auto simp: heap_offer_def)
    have ms: "add_mset (h ! 0) (mset ?h) = add_mset x (mset h)"
      using len(2) by (cases h) auto
    have sub: "set h' \<subseteq> insert x (set h)"
      using mset_heap_fix_root [of "lower_first before" ?h] h'(1) set_update_subset_insert [of h 0 x]
      by (metis set_mset_mset)
    have "length h' = limit"
      using mset_heap_fix_root [of "lower_first before" ?h] h'(1) len(1) by (metis length_list_update size_mset)
    moreover have "rank y \<le> rank (h ! 0)" if "y \<in> set h'" for y
      using that sub root True by (auto simp: before_rank)
    moreover have "rank y \<le> rank d" if "y \<in> set h'" "d \<in># D" for y d
    proof -
      have "rank (h ! 0) \<le> rank d" using D that(2) len(2) by auto
      then show ?thesis using that(1) sub root True D that(2) by (auto simp: before_rank)
    qed
    moreover have "mset h' = mset ?h" using h'(1) by (simp add: mset_heap_fix_root)
    moreover have "heap_ok h'" using h'(1) heap_fix_ok k len(2) by (auto simp: kept_of_def)
    moreover have "length xs \<ge> limit" using k len(1) by (auto simp: kept_of_def)
    ultimately show ?thesis using k h'(2) ms by (auto simp: kept_of_def)
  next
    case nb: False
    have "rank y \<le> rank x" if "y \<in> set h" for y
      using root [OF that] nb by (simp add: before_rank)
    moreover have "length xs \<ge> limit" using k len(1) by (auto simp: kept_of_def)
    ultimately show ?thesis
      using k o False nb by (auto simp: kept_of_def heap_offer_def)
  qed
qed

text \<open>What is kept, in listing order, has the ranks of the full sort cut at the limit; when no
  two ranks are equal it is that cut, and what was dropped is the rest.\<close>

definition best_of :: "nat \<Rightarrow> 'a list \<Rightarrow> 'a list \<Rightarrow> 'a multiset \<Rightarrow> bool" where
  "best_of limit xs h D \<longleftrightarrow> mset xs = mset h + D \<and> length h = min limit (length xs)
     \<and> (\<forall>d \<in># D. \<forall>x \<in> set h. rank x \<le> rank d)"

lemma kept_best: "kept_of limit xs h D \<Longrightarrow> best_of limit xs h D"
  by (simp add: kept_of_def best_of_def)

lemma best_ranks:
  assumes "best_of limit xs h D"
  shows "map rank (rank_sort before h) = take limit (sort (map rank xs))"
proof -
  let ?ys = "sort (map rank h)" and ?zs = "sorted_list_of_multiset (image_mset rank D)"
  have "sorted (?ys @ ?zs)"
    using assms by (auto simp: sorted_append best_of_def)
  moreover have "mset (?ys @ ?zs) = mset (map rank xs)"
    using assms by (simp add: best_of_def)
  ultimately have "sort (map rank xs) = ?ys @ ?zs" using properties_for_sort by metis
  moreover have "take limit (?ys @ ?zs) = ?ys"
  proof (cases "length h = limit")
    case False
    then have "length h = length xs" using assms by (auto simp: best_of_def)
    then have "size D = 0" using assms by (metis add_cancel_left_right best_of_def size_mset size_union)
    then show ?thesis using assms by (simp add: best_of_def)
  qed simp
  ultimately show ?thesis by (simp add: rank_sort_ranks)
qed

lemma best_of_distinct:
  assumes b: "best_of limit xs h D" and d: "distinct (map rank xs)"
  shows "rank_sort before h = take limit (rank_sort before xs)" "D = mset (drop limit (rank_sort before xs))"
proof -
  let ?all = "rank_sort before xs"
  have ms: "mset xs = mset h + D" using b by (simp add: best_of_def)
  then have sub: "set h \<subseteq> set xs" by (metis mset_subset_eq_add_left set_mset_mono set_mset_mset)
  have "map rank (rank_sort before h) = map rank (take limit ?all)"
    using best_ranks [OF b] by (simp add: rank_sort_ranks take_map [symmetric])
  moreover have "inj_on rank (set (rank_sort before h) \<union> set (take limit ?all))"
    using d sub set_take_subset [of limit ?all] by (auto simp: distinct_map intro: inj_on_subset)
  ultimately show eq: "rank_sort before h = take limit ?all" by (rule map_inj_on)
  have "mset ?all = mset (rank_sort before h) + D" using ms by simp
  then have "mset (take limit ?all) + mset (drop limit ?all) = mset (take limit ?all) + D"
    by (metis eq append_take_drop_id mset_append)
  then show "D = mset (drop limit ?all)" by simp
qed

text \<open>Sorting what is held with the next element and cutting keeps the best.\<close>

lemma best_of_cut:
  assumes b: "best_of limit xs h D" and o: "rank_sort before (h @ [x]) = s" and l: "length (h @ [x]) > limit"
  shows "best_of limit (xs @ [x]) (take limit s) (D + mset (drop limit s))"
proof -
  have len: "length s = length h + 1" and ms: "mset s = add_mset x (mset h)"
    using o by (metis length_append_singleton Suc_eq_plus1 mset_rank_sort size_mset)
      (metis mset_append mset.simps add.commute add_mset_add_single mset_rank_sort o)
  have hl: "length h = limit" "limit \<le> length xs" using b l by (auto simp: best_of_def)
  have "sorted (map rank (take limit s) @ map rank (drop limit s))"
    using sorted_rank_sort o by (metis append_take_drop_id map_append)
  then have new: "rank a \<le> rank d" if "a \<in> set (take limit s)" "d \<in> set (drop limit s)" for a d
    using that by (auto simp: sorted_append)
  have old: "rank a \<le> rank d" if a: "a \<in> set (take limit s)" and d: "d \<in># D" for a d
  proof (cases "a \<in> set h")
    case True
    then show ?thesis using b d by (auto simp: best_of_def)
  next
    case False
    have "a \<in># mset s" using a by (auto dest: in_set_takeD)
    then have "a = x" using False ms by auto
    obtain y where y: "drop limit s = [y]" using len hl by (cases "drop limit s") (auto dest: arg_cong [where f = length])
    have "y \<in># mset s" using y by (metis in_set_dropD list.set_intros(1) set_mset_mset)
    show ?thesis
    proof (cases "y \<in> set h")
      case True
      then have "rank y \<le> rank d" using b d by (auto simp: best_of_def)
      then show ?thesis using new [OF a] y by auto
    next
      case False
      then have "y = x" using \<open>y \<in># mset s\<close> ms by auto
      have "add_mset x (mset h) = mset (take limit s) + {#x#}"
        using ms y \<open>y = x\<close> by (metis append_take_drop_id mset_append mset_single_iff_right)
      then have "mset (take limit s) = mset h" by simp
      then show ?thesis using a b d by (metis best_of_def set_mset_mset)
    qed
  qed
  have "mset (xs @ [x]) = mset (take limit s) + (D + mset (drop limit s))"
  proof -
    have "mset (xs @ [x]) = mset s + D" using b ms by (simp add: best_of_def)
    then show ?thesis by (metis add.assoc add.commute append_take_drop_id mset_append)
  qed
  then show ?thesis using new old len hl by (auto simp: best_of_def)
qed

end

end
