(* ===== verification/Entries.thy ===== *)
theory Entries
  imports MoveVet MoveOut Decimal
begin

text \<open>
  The entries a scan works on (\<open>server/scan.go\<close>): \<open>fEnt\<close> and what an empty folder
  still holds (\<open>junkInfo\<close>, \<open>dirEnt\<close>), the physical copies behind a group's names
  (\<open>physicalCopies\<close>, \<open>copyPhys\<close>, \<open>reclaimPhys\<close>), and the result rows made of
  entries (\<open>fileEnt\<close>).  Times are Unix seconds, \<open>None\<close> for the zero time; sizes are
  integers.  The lemmas show that the reclaimable figure never overstates.
\<close>

subsection \<open>Data\<close>

record junkInfo =
  j_n :: int
  j_bytes :: int
  j_ex :: "gostring list"

definition junkExamples :: nat where
  "junkExamples = 3"

definition zero_junkInfo :: junkInfo where
  "zero_junkInfo = \<lparr>j_n = 0, j_bytes = 0, j_ex = []\<rparr>"

definition junk_add :: "gostring \<Rightarrow> int \<Rightarrow> junkInfo \<Rightarrow> junkInfo" where
  "junk_add name sz j =
     j\<lparr>j_n := j_n j + 1, j_bytes := j_bytes j + sz,
       j_ex := (if length (j_ex j) < junkExamples then j_ex j @ [name] else j_ex j)\<rparr>"

fun junk_names :: "gostring list \<Rightarrow> gostring list \<Rightarrow> gostring list" where
  "junk_names ex [] = ex"
| "junk_names ex (name # names) = (if length ex \<ge> junkExamples then ex else junk_names (ex @ [name]) names)"

definition junk_merge :: "junkInfo \<Rightarrow> junkInfo \<Rightarrow> junkInfo" where
  "junk_merge j c =
     j\<lparr>j_n := j_n j + j_n c, j_bytes := j_bytes j + j_bytes c, j_ex := junk_names (j_ex j) (j_ex c)\<rparr>"

type_synonym time = "int option"

record fEnt =
  f_path :: path
  f_name :: gostring
  f_dir :: path
  f_size :: int
  f_holes :: int
  f_mod :: time
  f_created :: time
  f_isDir :: bool
  f_rel :: path
  f_rh :: "nat option"
  f_link :: fileLink
  f_junk :: "junkInfo option"

definition zero_fEnt :: fEnt where
  "zero_fEnt = \<lparr>f_path = [], f_name = [], f_dir = [], f_size = 0, f_holes = 0, f_mod = None, f_created = None,
     f_isDir = False, f_rel = [], f_rh = None, f_link = \<lparr>dev = 0, ino = 0, n_links = 0\<rparr>, f_junk = None\<rparr>"

record dirEnt =
  d_path :: path
  d_mod :: time
  d_junk :: "junkInfo option"

definition junkBytes :: "dirEnt \<Rightarrow> int" where
  "junkBytes d = (case d_junk d of None \<Rightarrow> 0 | Some j \<Rightarrow> j_bytes j)"

subsection \<open>Physical copies\<close>

fun physicalCopies_loop :: "fileLink set \<Rightarrow> fEnt list \<Rightarrow> nat" where
  "physicalCopies_loop seen [] = 0"
| "physicalCopies_loop seen (f # fs) =
     (let l = f_link f in
      if n_links l \<le> 1 \<or> ino l = 0 then Suc (physicalCopies_loop seen fs)
      else if l \<notin> seen then Suc (physicalCopies_loop (insert l seen) fs)
      else physicalCopies_loop seen fs)"

definition physicalCopies :: "fEnt list \<Rightarrow> nat" where
  "physicalCopies fs = physicalCopies_loop {} fs"

fun copyPhys_loop :: "fileLink set \<Rightarrow> fEnt list \<Rightarrow> int list" where
  "copyPhys_loop seen [] = []"
| "copyPhys_loop seen (f # fs) =
     (let l = f_link f in
      if n_links l > 1 \<and> ino l \<noteq> 0 then
        if l \<in> seen then copyPhys_loop seen fs
        else (f_size f - f_holes f) # copyPhys_loop (insert l seen) fs
      else (f_size f - f_holes f) # copyPhys_loop seen fs)"

definition copyPhys :: "fEnt list \<Rightarrow> int list" where
  "copyPhys fs = copyPhys_loop {} fs"

fun reclaim_loop :: "int \<Rightarrow> int \<Rightarrow> int list \<Rightarrow> int" where
  "reclaim_loop acc largest [] = acc - largest"
| "reclaim_loop acc largest (p # ps) = reclaim_loop (acc + p) (if p > largest then p else largest) ps"

definition reclaimPhys :: "int list \<Rightarrow> int" where
  "reclaimPhys ps = reclaim_loop 0 0 ps"

definition physOf :: "int option \<Rightarrow> int \<Rightarrow> int" where
  "physOf blocks sz =
     (case blocks of
        None \<Rightarrow> sz
      | Some b \<Rightarrow> (let p = b * 512 in if p > sz \<or> p < 0 then sz else p))"

subsection \<open>Rows\<close>

definition fmtTime :: "(int \<Rightarrow> string) \<Rightarrow> time \<Rightarrow> string" where
  "fmtTime fmt t = (case t of None \<Rightarrow> [] | Some u \<Rightarrow> fmt u)"

definition extOf :: "(gostring \<Rightarrow> gostring) \<Rightarrow> gostring \<Rightarrow> gostring" where
  "extOf toUpper name =
     (let e = TrimPrefix (Ext name) ''.'' in if e = [] then ''FILE'' else toUpper e)"

fun hex_digits :: "nat \<Rightarrow> gostring" where
  "hex_digits n =
     (let d = n mod 16; c = (if d < 10 then char_of (48 + d) else char_of (87 + d)) in
      if n < 16 then [c] else hex_digits (n div 16) @ [c])"

declare hex_digits.simps [simp del]

text \<open>What the rows need of Go's formatting: times and upper case.\<close>

record fmt =
  fm_time :: "int \<Rightarrow> string"
  fm_upper :: "gostring \<Rightarrow> gostring"

text \<open>\<open>fileEnt\<close>; the counter of row ids is passed through.\<close>

definition fileEnt :: "fmt \<Rightarrow> fEnt \<Rightarrow> nat \<Rightarrow> FileEnt \<times> nat" where
  "fileEnt fm f nextID =
     (let i = nextID + 1; l = f_link f in
      (zero_FileEnt\<lparr>
         ID := CHR ''f'' # dec i, Name := f_name f, FDir := f_dir f, Size := f_size f,
         Mod := fmtTime (fm_time fm) (f_mod f),
         ModUnix := (case f_mod f of None \<Rightarrow> 0 | Some u \<Rightarrow> u),
         Created := fmtTime (fm_time fm) (f_created f), Ext := extOf (fm_upper fm) (f_name f),
         NoMove := fsCannotAddressPath (Join (f_dir f) (f_name f)),
         Links := (if n_links l > 1 then int (n_links l) else 0),
         Ino := (if n_links l > 1 then hex_digits (dev l) @ '':'' @ hex_digits (ino l) else []),
         Alloc := (if f_holes f > 0 then Some (f_size f - f_holes f) else None)\<rparr>, i))"

fun fileEnts :: "fmt \<Rightarrow> fEnt list \<Rightarrow> nat \<Rightarrow> FileEnt list \<times> nat" where
  "fileEnts fm [] n = ([], n)"
| "fileEnts fm (f # fs) n =
     (let (r, n1) = fileEnt fm f n; (rs, n2) = fileEnts fm fs n1 in (r # rs, n2))"

definition blank_rows :: "FileEnt list \<Rightarrow> nat" where
  "blank_rows rows = length (filter (\<lambda>r. Created r = []) rows)"

definition blankCreated :: "toolResult option \<Rightarrow> nat" where
  "blankCreated res =
     (case res of None \<Rightarrow> 0
      | Some r \<Rightarrow> blank_rows (Files r) + sum_list (map (\<lambda>g. blank_rows (GFiles g)) (Groups r)))"

text \<open>\<open>humanCount\<close>: a comma before every third digit from the right.\<close>

fun commas :: "nat \<Rightarrow> nat \<Rightarrow> gostring \<Rightarrow> gostring" where
  "commas len i [] = []"
| "commas len i (c # cs) =
     (if i > 0 \<and> (len - i) mod 3 = 0 then [CHR '','', c] else [c]) @ commas len (Suc i) cs"

definition humanCount :: "nat \<Rightarrow> gostring" where
  "humanCount n = (let s = dec n in commas (length s) 0 s)"

subsection \<open>What the figures say\<close>

lemma physicalCopies_loop_le: "physicalCopies_loop seen fs \<le> length fs"
  by (induction seen fs rule: physicalCopies_loop.induct) (auto simp: Let_def intro: le_SucI)

lemma physicalCopies_le: "physicalCopies fs \<le> length fs"
  by (simp add: physicalCopies_def physicalCopies_loop_le)

lemma physicalCopies_phys_loop: "physicalCopies_loop seen fs = length (copyPhys_loop seen fs)"
  by (induction seen fs rule: physicalCopies_loop.induct) (auto simp: Let_def)

lemma physicalCopies_phys: "physicalCopies fs = length (copyPhys fs)"
  by (simp add: physicalCopies_def copyPhys_def physicalCopies_phys_loop)

lemma reclaim_loop_eq:
  "reclaim_loop s m ps = s + sum_list ps - fold max ps m"
proof (induction ps arbitrary: s m)
  case (Cons p ps)
  have "(if p > m then p else m) = max p m" by simp
  then show ?case using Cons by simp
qed simp

lemma reclaimPhys_eq: "reclaimPhys ps = sum_list ps - fold max ps 0"
  by (simp add: reclaimPhys_def reclaim_loop_eq)

lemma fold_max_start: "(m::int) \<le> fold max ps m"
proof (induction ps arbitrary: m)
  case (Cons p ps)
  then show ?case by (metis fold_simps(2) max.cobounded2 order_trans)
qed simp

lemma fold_max_ge: "(p::int) \<in> set ps \<Longrightarrow> p \<le> fold max ps m"
proof (induction ps arbitrary: m)
  case (Cons q ps)
  show ?case
  proof (cases "p = q")
    case True
    then show ?thesis using fold_max_start [of "max q m" ps] by simp
  qed (use Cons in auto)
qed simp

lemma fold_max_in: "fold max ps (m::int) \<in> insert m (set ps)"
  by (induction ps arbitrary: m) (auto simp: max_def split: if_splits)

text \<open>Whatever copy stays, removing the others frees at least the figure; and some choice frees
  exactly it.\<close>

lemma reclaimPhys_understates:
  assumes "i < length ps" "\<forall>p \<in> set ps. 0 \<le> p"
  shows "reclaimPhys ps \<le> sum_list ps - ps ! i"
  using fold_max_ge [of "ps ! i" ps 0] assms by (simp add: reclaimPhys_eq)

lemma reclaimPhys_attained:
  assumes "ps \<noteq> []" "\<forall>p \<in> set ps. 0 \<le> p"
  shows "\<exists>i < length ps. reclaimPhys ps = sum_list ps - ps ! i"
proof -
  have "fold max ps 0 \<in> set ps"
  proof (cases "fold max ps 0 = 0")
    case True
    then have "\<forall>p \<in> set ps. p = 0" using fold_max_ge [of _ ps 0] assms(2) by (metis order_antisym)
    then show ?thesis using True assms(1) by (cases ps) auto
  next
    case False
    then show ?thesis using fold_max_in [of ps 0] by auto
  qed
  then show ?thesis by (metis in_set_conv_nth reclaimPhys_eq)
qed

lemma reclaimPhys_nonneg: "\<forall>p \<in> set ps. 0 \<le> p \<Longrightarrow> 0 \<le> reclaimPhys ps"
proof (cases ps)
  case (Cons p ps')
  assume nn: "\<forall>p \<in> set ps. 0 \<le> p"
  obtain i where i: "i < length ps" "reclaimPhys ps = sum_list ps - ps ! i"
    using reclaimPhys_attained [OF _ nn] Cons by auto
  have "sum_list ps = ps ! i + sum_list (take i ps @ drop (Suc i) ps)"
    using id_take_nth_drop [OF i(1)] by (metis (no_types, lifting) add.left_commute sum_list.Cons sum_list_append)
  moreover have "0 \<le> sum_list (take i ps @ drop (Suc i) ps)"
    using nn by (intro sum_list_nonneg) (auto dest: in_set_takeD in_set_dropD)
  ultimately show ?thesis using i(2) by simp
qed (simp add: reclaimPhys_def)

lemma physOf_bounds: "0 \<le> sz \<Longrightarrow> 0 \<le> physOf b sz \<and> physOf b sz \<le> sz"
  by (auto simp: physOf_def Let_def split: option.splits)

end
