(* ===== verification/StreamTop.thy ===== *)
theory StreamTop
  imports Entries BoundedTop "HOL-Library.List_Lexorder" "HOL-Library.Char_ord"
begin

text \<open>
  \<open>boundedTop\<close> of \<open>server/stream.go\<close>, the bounded listing of the flat tools and of the
  empty-folder candidates, with its truncation report.  Strings are compared byte by byte, as Go does.
\<close>

record boundedTop =
  bt_limit :: nat
  bt_ents :: "fEnt list"
  bt_dropped :: nat

definition newBoundedTop :: "nat \<Rightarrow> boundedTop" where
  "newBoundedTop limit = \<lparr>bt_limit = limit, bt_ents = [], bt_dropped = 0\<rparr>"

text \<open>The comparator of every caller: by path.\<close>

definition path_before :: "fEnt \<Rightarrow> fEnt \<Rightarrow> bool" where
  "path_before a b \<longleftrightarrow> f_path a < f_path b"

definition top_add :: "fEnt \<Rightarrow> boundedTop \<Rightarrow> boundedTop" where
  "top_add f t =
     (let (h, dr) = heap_offer path_before (bt_limit t) f (bt_ents t) in
      t\<lparr>bt_ents := h, bt_dropped := (case dr of None \<Rightarrow> bt_dropped t | Some _ \<Rightarrow> bt_dropped t + 1)\<rparr>)"

definition top_final :: "boundedTop \<Rightarrow> fEnt list \<times> TruncInfo option" where
  "top_final t =
     (rank_sort path_before (bt_ents t),
      if bt_dropped t = 0 then None
      else Some (zero_TruncInfo\<lparr>TFiles := int (bt_dropped t), Cap := int (bt_limit t)\<rparr>))"

interpretation by_path: ranking path_before f_path
  by unfold_locales (simp add: path_before_def)

text \<open>What a listing knows of the stream it has seen.\<close>

definition top_saw :: "fEnt list \<Rightarrow> boundedTop \<Rightarrow> bool" where
  "top_saw xs t \<longleftrightarrow> (\<exists>D. by_path.kept_of (bt_limit t) xs (bt_ents t) D \<and> bt_dropped t = size D)"

lemma top_saw_new: "top_saw [] (newBoundedTop limit)"
  using by_path.kept_of_Nil [of limit] by (auto simp: top_saw_def newBoundedTop_def)

lemma bt_limit_add [simp]: "bt_limit (top_add f t) = bt_limit t"
  by (simp add: top_add_def case_prod_beta Let_def)

lemma top_saw_add:
  assumes "top_saw xs t" "0 < bt_limit t"
  shows "top_saw (xs @ [f]) (top_add f t)"
proof -
  obtain D where D: "by_path.kept_of (bt_limit t) xs (bt_ents t) D" "bt_dropped t = size D"
    using assms(1) by (auto simp: top_saw_def)
  obtain h dr where o: "heap_offer path_before (bt_limit t) f (bt_ents t) = (h, dr)" by fastforce
  show ?thesis
    using by_path.kept_of_offer [OF D(1) assms(2) o] o D(2)
    by (cases dr) (auto simp: top_saw_def top_add_def)
qed

lemma top_saw_fold:
  "top_saw xs t \<Longrightarrow> 0 < bt_limit t \<Longrightarrow> top_saw (xs @ ys) (fold top_add ys t)"
proof (induction ys arbitrary: xs t)
  case (Cons y ys)
  then show ?case using Cons.IH [of "xs @ [y]" "top_add y t"] top_saw_add [of xs t y] by simp
qed simp

lemma top_saw_final:
  assumes "top_saw xs t"
  shows "map f_path (fst (top_final t)) = take (bt_limit t) (sort (map f_path xs))"
    "set (fst (top_final t)) \<subseteq> set xs"
    "bt_dropped t = length xs - bt_limit t"
proof -
  obtain D where D: "by_path.kept_of (bt_limit t) xs (bt_ents t) D" "bt_dropped t = size D"
    using assms by (auto simp: top_saw_def)
  show "map f_path (fst (top_final t)) = take (bt_limit t) (sort (map f_path xs))"
    using by_path.best_ranks [OF by_path.kept_best [OF D(1)]] by (simp add: top_final_def)
  have m: "mset xs = mset (bt_ents t) + D" "length (bt_ents t) = min (bt_limit t) (length xs)"
    using D(1) by (auto simp: by_path.kept_of_def)
  show "set (fst (top_final t)) \<subseteq> set xs"
    using m(1) by (metis fst_conv mset_subset_eq_add_left set_mset_mono set_mset_mset set_rank_sort top_final_def)
  have "length xs = length (bt_ents t) + size D" using m(1) by (metis size_mset size_union)
  then show "bt_dropped t = length xs - bt_limit t" using m(2) D(2) by simp
qed

text \<open>A flat listing is the full sort by path cut at its cap: the rows kept, in order, have the paths a
  complete sorted listing would begin with, each is an entry of the stream, and the number reported as left
  out is exactly the number beyond the cap, with no report when nothing is.\<close>

theorem listing_is_sorted_cut:
  assumes "0 < cap"
  shows "map f_path (fst (top_final (fold top_add xs (newBoundedTop cap)))) = take cap (sort (map f_path xs))
    \<and> set (fst (top_final (fold top_add xs (newBoundedTop cap)))) \<subseteq> set xs
    \<and> snd (top_final (fold top_add xs (newBoundedTop cap)))
        = (if length xs \<le> cap then None
           else Some (zero_TruncInfo\<lparr>TFiles := int (length xs - cap), Cap := int cap\<rparr>))"
proof -
  have limit: "bt_limit (fold top_add ys t) = bt_limit t" for ys t by (induction ys arbitrary: t) auto
  let ?t = "fold top_add xs (newBoundedTop cap)"
  have cap: "bt_limit ?t = cap" by (simp add: limit newBoundedTop_def)
  have saw: "top_saw xs ?t"
    using top_saw_fold [OF top_saw_new, of cap xs] assms by (simp add: newBoundedTop_def)
  show ?thesis
    using top_saw_final [OF saw] cap by (auto simp: top_final_def)
qed

theorem listing_is_sorted_cut_witness:
  "map f_path (fst (top_final (fold top_add (map (\<lambda>p. zero_fEnt\<lparr>f_path := p\<rparr>) [''/c'', ''/a'', ''/b'']) (newBoundedTop 2))))
     = [''/a'', ''/b'']"
proof -
  let ?xs = "map (\<lambda>p. zero_fEnt\<lparr>f_path := p\<rparr>) [''/c'', ''/a'', ''/b'']"
  have "take 2 (sort (map f_path ?xs)) = [''/a'', ''/b'']"
    by code_simp
  then show ?thesis using listing_is_sorted_cut [of 2 ?xs] by simp
qed

end
