(* ===== verification/Spill.thy ===== *)
theory Spill
  imports Entries KeyCounter "HOL-Library.Monad_Syntax" "HOL-Library.List_Lexorder" "HOL-Library.Char_ord"
begin

text \<open>
  The spill files of \<open>server/stream.go\<close>: an enumeration log of one compact record per file
  (\<open>addRaw\<close>, \<open>each\<close>), the candidate key (\<open>candHash\<close>), the distilling of the records
  whose key collided, and the windows the candidates are processed in.  The file is a sequence of bytes;
  \<open>wr\<close> says whether a write succeeds.  The lemmas show that a spill reads back exactly the records
  written, and that windows neither split a key nor lose a candidate.
\<close>

subsection \<open>Records\<close>

record spillRec =
  s_root :: nat
  s_size :: int
  s_mod :: int
  s_tag :: key
  s_rel :: path
  s_link :: fileLink
  s_holes :: int

record spill =
  sp_bytes :: gostring
  sp_n :: nat

definition newSpill :: spill where
  "newSpill = \<lparr>sp_bytes = [], sp_n = 0\<rparr>"

definition word_bits :: "int \<Rightarrow> nat" where
  "word_bits i = unat (word_of_int i :: 64 word)"

definition spillRelMax :: nat where
  "spillRelMax = 2 ^ 16"

definition maxInt32 :: nat where
  "maxInt32 = 2 ^ 31 - 1"

definition maxUint32 :: nat where
  "maxUint32 = 2 ^ 32 - 1"

text \<open>\<open>addRaw\<close>; \<open>maxInt\<close> is the build's largest \<open>int\<close>.\<close>

definition put_rec :: "spillRec \<Rightarrow> gostring" where
  "put_rec r =
     put_uvarint (s_root r) @ put_uvarint (word_bits (s_size r)) @ put_varint (s_mod r)
     @ put_uvarint (unat (s_tag r)) @ put_uvarint (n_links (s_link r)) @ put_uvarint (dev (s_link r))
     @ put_uvarint (ino (s_link r)) @ put_uvarint (word_bits (s_holes r))
     @ put_uvarint (length (s_rel r)) @ s_rel r"

definition addRaw :: "nat \<Rightarrow> bool \<Rightarrow> spillRec \<Rightarrow> spill \<Rightarrow> spill option" where
  "addRaw maxInt wr r sp =
     (if \<not> wr then None
      else if sp_n sp = maxInt then None
      else Some \<lparr>sp_bytes = sp_bytes sp @ put_rec r, sp_n = sp_n sp + 1\<rparr>)"

text \<open>\<open>time.Unix\<close> and \<open>Time.Unix\<close>: the zero time is the first second of the year 1.\<close>

definition zero_unix :: int where
  "zero_unix = - 62135596800"

definition unix_of :: "time \<Rightarrow> int" where
  "unix_of t = (case t of None \<Rightarrow> zero_unix | Some u \<Rightarrow> u)"

definition time_unix :: "int \<Rightarrow> time" where
  "time_unix u = (if u = zero_unix then None else Some u)"

definition spill_add :: "nat \<Rightarrow> bool \<Rightarrow> nat \<Rightarrow> fEnt \<Rightarrow> spill \<Rightarrow> spill option" where
  "spill_add maxInt wr rootIdx f sp =
     addRaw maxInt wr
       \<lparr>s_root = rootIdx, s_size = f_size f, s_mod = unix_of (f_mod f), s_tag = 0, s_rel = f_rel f,
        s_link = f_link f, s_holes = f_holes f\<rparr> sp"

subsection \<open>Reading back\<close>

datatype 'e each_end = EachDone | EachCorrupt | EachStopped 'e

definition read_rec :: "gostring \<Rightarrow> (spillRec \<times> gostring) option" where
  "read_rec b0 = do {
     (rootIdx, b1) \<leftarrow> read_uvarint b0;
     (sz, b2) \<leftarrow> read_uvarint b1;
     (md, b3) \<leftarrow> read_varint b2;
     (tag, b4) \<leftarrow> read_uvarint b3;
     (nlink, b5) \<leftarrow> read_uvarint b4;
     (d, b6) \<leftarrow> read_uvarint b5;
     (i, b7) \<leftarrow> read_uvarint b6;
     (if nlink > maxUint32 then None
      else do {
        (holes, b8) \<leftarrow> read_uvarint b7;
        (if holes > sz then None
         else do {
           (relLen, b9) \<leftarrow> read_uvarint b8;
           (if relLen > spillRelMax \<or> rootIdx > maxInt32 then None
            else if length b9 < relLen then None
            else Some (\<lparr>s_root = rootIdx, s_size = sint (of_nat sz :: 64 word), s_mod = md, s_tag = of_nat tag,
                        s_rel = take relLen b9, s_link = \<lparr>dev = d, ino = i, n_links = nlink\<rparr>,
                        s_holes = sint (of_nat holes :: 64 word)\<rparr>, drop relLen b9))
         })
      })
   }"

text \<open>\<open>each\<close>: the callback works on a state and may stop the pass.\<close>

fun each_recs ::
  "nat \<Rightarrow> gostring \<Rightarrow> (spillRec \<Rightarrow> 's \<Rightarrow> 's \<times> 'e option) \<Rightarrow> 's \<Rightarrow> 's \<times> 'e each_end" where
  "each_recs 0 bs fn s = (s, EachDone)"
| "each_recs (Suc n) bs fn s =
     (case read_rec bs of
        None \<Rightarrow> (s, EachCorrupt)
      | Some (r, rest) \<Rightarrow>
          (case fn r s of
             (s1, Some e) \<Rightarrow> (s1, EachStopped e)
           | (s1, None) \<Rightarrow> each_recs n rest fn s1))"

definition each :: "spill \<Rightarrow> (spillRec \<Rightarrow> 's \<Rightarrow> 's \<times> 'e option) \<Rightarrow> 's \<Rightarrow> 's \<times> 'e each_end" where
  "each sp fn s = each_recs (sp_n sp) (sp_bytes sp) fn s"

text \<open>A pass whose callback never stops it.\<close>

definition each_pure :: "spill \<Rightarrow> (spillRec \<Rightarrow> 's \<Rightarrow> 's) \<Rightarrow> 's \<Rightarrow> 's option" where
  "each_pure sp fn s =
     (case each sp (\<lambda>r s. (fn r s, None :: unit option)) s of
        (s1, EachDone) \<Rightarrow> Some s1
      | _ \<Rightarrow> None)"

subsection \<open>The candidate key\<close>

definition candHash :: "fEnt \<Rightarrow> MatchOpts \<Rightarrow> key" where
  "candHash f m =
     fnv64a (put_le 8 (word_bits (f_size f))
       @ (if MName m then f_name f @ [CHR 0x00] else [])
       @ (if MModified m then itoa (unix_of (f_mod f)) @ [CHR 0x00] else []))"

definition rec_key :: "MatchOpts \<Rightarrow> spillRec \<Rightarrow> key" where
  "rec_key m r =
     candHash (zero_fEnt\<lparr>f_size := s_size r, f_mod := time_unix (s_mod r),
       f_name := (if MName m then Base (s_rel r) else [])\<rparr>) m"

text \<open>\<open>distil\<close>: how many records it kept, and the new spill.\<close>

definition distil ::
  "nat \<Rightarrow> (spillRec \<Rightarrow> bool) \<Rightarrow> keyCounter \<Rightarrow> MatchOpts \<Rightarrow> spill \<Rightarrow> spill \<Rightarrow> (nat \<times> spill) option" where
  "distil maxInt wr counter m sp out =
     (case each sp (\<lambda>r (n, out).
             if \<not> hot counter (rec_key m r) then ((n, out), None)
             else (case addRaw maxInt (wr r) (r\<lparr>s_tag := 0\<rparr>) out of
                     None \<Rightarrow> ((n + 1, out), Some ())
                   | Some out1 \<Rightarrow> ((n + 1, out1), None))) (0, out) of
        (r, EachDone) \<Rightarrow> Some r
      | _ \<Rightarrow> None)"

subsection \<open>Windows\<close>

definition rec_ent :: "nat option list \<Rightarrow> path list \<Rightarrow> spillRec \<Rightarrow> fEnt" where
  "rec_ent handles rootOf r =
     (let p = Join (rootOf ! s_root r) (s_rel r) in
      zero_fEnt\<lparr>f_path := p, f_name := Base (s_rel r), f_dir := Dir p, f_size := s_size r, f_holes := s_holes r,
        f_mod := time_unix (s_mod r), f_rel := s_rel r, f_rh := handles ! s_root r, f_link := s_link r\<rparr>)"

text \<open>\<open>max\<close> of 0 is no bound.\<close>

definition materialize ::
  "(spillRec \<Rightarrow> bool) \<Rightarrow> nat option list \<Rightarrow> path list \<Rightarrow> nat \<Rightarrow> spill \<Rightarrow> (fEnt list \<times> nat) option" where
  "materialize keep handles rootOf mx sp =
     each_pure sp (\<lambda>r (out, skipped).
       if s_root r \<ge> length rootOf then (out, skipped)
       else if \<not> keep r then (out, skipped)
       else if mx > 0 \<and> length out \<ge> mx then (out, skipped + 1)
       else (out @ [rec_ent handles rootOf r], skipped)) ([], 0)"

definition in_part :: "nat \<Rightarrow> nat \<Rightarrow> key \<Rightarrow> bool" where
  "in_part part parts k \<longleftrightarrow> parts \<le> 1 \<or> unat k mod parts = part"

text \<open>\<open>window\<close> and \<open>tagWindow\<close> differ in what they split by: the entries of one part, the keys
  over the cap in order, and how many entries did not fit.\<close>

definition count_key :: "key \<Rightarrow> (key \<times> nat) list \<Rightarrow> (key \<times> nat) list" where
  "count_key k counts = AList.update k (exact_count counts k + 1) counts"

definition part_counts :: "(spillRec \<Rightarrow> key) \<Rightarrow> nat \<Rightarrow> nat \<Rightarrow> spill \<Rightarrow> (key \<times> nat) list option" where
  "part_counts key_of part parts sp =
     each_pure sp (\<lambda>r counts. if in_part part parts (key_of r) then count_key (key_of r) counts else counts) []"

definition over_cap :: "nat \<Rightarrow> (key \<times> nat) list \<Rightarrow> key list" where
  "over_cap cap counts = sort (map fst (filter (\<lambda>kn. cap > 0 \<and> snd kn > cap) counts))"

definition split_window ::
  "(spillRec \<Rightarrow> key) \<Rightarrow> nat \<Rightarrow> nat \<Rightarrow> nat \<Rightarrow> nat \<Rightarrow> nat option list \<Rightarrow> path list \<Rightarrow> spill
    \<Rightarrow> (fEnt list \<times> key list \<times> nat) option" where
  "split_window key_of part parts cap mx handles rootOf sp =
     (case part_counts key_of part parts sp of
        None \<Rightarrow> None
      | Some counts \<Rightarrow>
          (let over = over_cap cap counts in
           case materialize (\<lambda>r. in_part part parts (key_of r) \<and> key_of r \<notin> set over) handles rootOf mx sp of
             None \<Rightarrow> None
           | Some (ents, skipped) \<Rightarrow> Some (ents, over, skipped)))"

definition window ::
  "nat \<Rightarrow> nat \<Rightarrow> MatchOpts \<Rightarrow> nat option list \<Rightarrow> path list \<Rightarrow> nat \<Rightarrow> nat \<Rightarrow> spill
    \<Rightarrow> (fEnt list \<times> key list \<times> nat) option" where
  "window part parts m handles rootOf keyCap mx sp = split_window (rec_key m) part parts keyCap mx handles rootOf sp"

definition tagWindow ::
  "nat \<Rightarrow> nat \<Rightarrow> nat \<Rightarrow> nat \<Rightarrow> nat option list \<Rightarrow> path list \<Rightarrow> spill \<Rightarrow> (fEnt list \<times> key list \<times> nat) option" where
  "tagWindow part parts tagCap mx handles rootOf sp = split_window s_tag part parts tagCap mx handles rootOf sp"

definition tagsIn :: "nat \<Rightarrow> nat \<Rightarrow> spill \<Rightarrow> key list option" where
  "tagsIn part parts sp =
     map_option sort (each_pure sp (\<lambda>r seen.
       if in_part part parts (s_tag r) then List.insert (s_tag r) seen else seen) [])"

definition tagSlice :: "key \<Rightarrow> nat option list \<Rightarrow> path list \<Rightarrow> nat \<Rightarrow> spill \<Rightarrow> (fEnt list \<times> nat) option" where
  "tagSlice tag handles rootOf mx sp = materialize (\<lambda>r. s_tag r = tag) handles rootOf mx sp"

definition tagsDiffer :: "spill \<Rightarrow> bool option" where
  "tagsDiffer sp =
     map_option snd (each_pure sp (\<lambda>r (first, differ).
       case first of None \<Rightarrow> (Some (s_tag r), differ)
       | Some t \<Rightarrow> (first, if s_tag r \<noteq> t then True else differ)) (None, False))"

subsection \<open>A spill reads back what was written\<close>

definition rec_ok :: "spillRec \<Rightarrow> bool" where
  "rec_ok r \<longleftrightarrow> s_root r \<le> maxInt32 \<and> 0 \<le> s_size r \<and> s_size r < 2 ^ 63 \<and> is_int64 (s_mod r)
     \<and> n_links (s_link r) \<le> maxUint32 \<and> dev (s_link r) < 2 ^ 64 \<and> ino (s_link r) < 2 ^ 64
     \<and> 0 \<le> s_holes r \<and> s_holes r \<le> s_size r \<and> length (s_rel r) \<le> spillRelMax"

lemma word_bits_nonneg: "0 \<le> i \<Longrightarrow> i < 2 ^ 63 \<Longrightarrow> word_bits i = nat i \<and> sint (of_nat (nat i) :: 64 word) = i"
proof -
  assume i: "0 \<le> i" "i < 2 ^ 63"
  then have "word_bits i = nat i" by (simp add: word_bits_def unat_eq_nat_uint uint_word_of_int)
  moreover have "(of_nat (nat i) :: 64 word) = word_of_int i" using i(1) by simp
  then have "sint (of_nat (nat i) :: 64 word) = i"
    using i by (simp add: signed_of_int signed_take_bit_int_eq_self_iff)
  ultimately show ?thesis by blast
qed

lemma read_put_rec: "rec_ok r \<Longrightarrow> read_rec (put_rec r @ rest) = Some (r, rest)"
proof -
  assume r: "rec_ok r"
  have sz: "word_bits (s_size r) = nat (s_size r)" "sint (of_nat (nat (s_size r)) :: 64 word) = s_size r"
    "word_bits (s_holes r) = nat (s_holes r)" "sint (of_nat (nat (s_holes r)) :: 64 word) = s_holes r"
    using r word_bits_nonneg by (auto simp: rec_ok_def)
  have lt: "s_root r < 2 ^ 64" "nat (s_size r) < 2 ^ 64" "nat (s_holes r) < 2 ^ 64" "n_links (s_link r) < 2 ^ 64"
    "length (s_rel r) < 2 ^ 64" "unat (s_tag r) < 2 ^ 64" "dev (s_link r) < 2 ^ 64" "ino (s_link r) < 2 ^ 64"
    using r unsigned_less [of "s_tag r"] by (auto simp: rec_ok_def maxInt32_def maxUint32_def spillRelMax_def)
  have h: "\<not> nat (s_holes r) > nat (s_size r)" "\<not> n_links (s_link r) > maxUint32"
    "\<not> (length (s_rel r) > spillRelMax \<or> s_root r > maxInt32)" "is_int64 (s_mod r)"
    using r by (auto simp: rec_ok_def)
  show ?thesis
    using h by (simp add: read_rec_def put_rec_def sz lt [THEN read_put_uvarint])
qed

definition holds_recs :: "spillRec list \<Rightarrow> spill \<Rightarrow> bool" where
  "holds_recs recs sp \<longleftrightarrow> sp_bytes sp = concat (map put_rec recs) \<and> sp_n sp = length recs \<and> (\<forall>r \<in> set recs. rec_ok r)"

fun each_list :: "(spillRec \<Rightarrow> 's \<Rightarrow> 's \<times> 'e option) \<Rightarrow> spillRec list \<Rightarrow> 's \<Rightarrow> 's \<times> 'e each_end" where
  "each_list fn [] s = (s, EachDone)"
| "each_list fn (r # rs) s =
     (case fn r s of (s1, Some e) \<Rightarrow> (s1, EachStopped e) | (s1, None) \<Rightarrow> each_list fn rs s1)"

fun add_all :: "nat \<Rightarrow> spillRec list \<Rightarrow> spill \<Rightarrow> spill option" where
  "add_all maxInt [] sp = Some sp"
| "add_all maxInt (r # rs) sp = do { sp1 \<leftarrow> addRaw maxInt True r sp; add_all maxInt rs sp1 }"

lemma holds_new: "holds_recs [] newSpill"
  by (simp add: holds_recs_def newSpill_def)

lemma holds_add:
  "holds_recs recs sp \<Longrightarrow> rec_ok r \<Longrightarrow> addRaw maxInt wr r sp = Some sp' \<Longrightarrow> holds_recs (recs @ [r]) sp'"
  by (auto simp: holds_recs_def addRaw_def split: if_splits)

lemma addRaw_Some: "holds_recs recs sp \<Longrightarrow> length recs \<noteq> maxInt \<Longrightarrow> addRaw maxInt True r sp \<noteq> None"
  by (simp add: holds_recs_def addRaw_def)

lemma add_all_holds:
  "holds_recs recs sp \<Longrightarrow> \<forall>r \<in> set rs. rec_ok r \<Longrightarrow> length recs + length rs \<le> maxInt
    \<Longrightarrow> \<exists>sp'. add_all maxInt rs sp = Some sp' \<and> holds_recs (recs @ rs) sp'"
proof (induction rs arbitrary: recs sp)
  case (Cons r rs)
  then obtain sp1 where s: "addRaw maxInt True r sp = Some sp1"
    using addRaw_Some [of recs sp maxInt r] by auto
  then have "holds_recs (recs @ [r]) sp1" using Cons.prems holds_add by auto
  from Cons.IH [OF this] show ?case using Cons.prems s by auto
qed simp

lemma each_recs_list:
  "\<forall>r \<in> set recs. rec_ok r \<Longrightarrow> each_recs (length recs) (concat (map put_rec recs)) fn s = each_list fn recs s"
  by (induction recs arbitrary: s) (auto simp: read_put_rec split: option.splits prod.splits)

lemma each_holds: "holds_recs recs sp \<Longrightarrow> each sp fn s = each_list fn recs s"
  by (simp add: each_def holds_recs_def each_recs_list)

lemma each_pure_holds: "holds_recs recs sp \<Longrightarrow> each_pure sp fn s = Some (fold fn recs s)"
proof -
  have "each_list (\<lambda>r s. (fn r s, None :: unit option)) recs s = (fold fn recs s, EachDone)"
    by (induction recs arbitrary: s) simp_all
  then show "holds_recs recs sp \<Longrightarrow> ?thesis" by (simp add: each_pure_def each_holds)
qed

text \<open>A spill file is faithful: whatever records a scan appends, a pass over the file sees exactly these records,
  in order and with every field, and ends as a pass over the list would.  (Sizes, times and link numbers are those a
  64-bit file system reports; the path is at most 64 KiB long.)\<close>

theorem spill_roundtrip:
  assumes "\<forall>r \<in> set recs. rec_ok r" "length recs \<le> maxInt"
  shows "map_option (\<lambda>sp. each sp fn s) (add_all maxInt recs newSpill) = Some (each_list fn recs s)"
  using add_all_holds [OF holds_new assms(1)] assms(2) each_holds by fastforce

subsection \<open>Windows neither split a key nor lose a candidate\<close>

lemma materialize_holds:
  assumes "holds_recs recs sp"
  shows "materialize keep handles rootOf mx sp =
    (let es = map (rec_ent handles rootOf) (filter (\<lambda>r. s_root r < length rootOf \<and> keep r) recs) in
     Some (if mx = 0 then (es, 0) else (take mx es, length es - mx)))"
proof -
  let ?f = "\<lambda>r (out, skipped). if s_root r \<ge> length rootOf then (out, skipped)
       else if \<not> keep r then (out, skipped)
       else if mx > 0 \<and> length out \<ge> mx then (out, skipped + 1)
       else (out @ [rec_ent handles rootOf r], skipped)"
  let ?es = "\<lambda>rs. map (rec_ent handles rootOf) (filter (\<lambda>r. s_root r < length rootOf \<and> keep r) rs)"
  have "fold ?f recs ([], 0) = (if mx = 0 then (?es recs, 0) else (take mx (?es recs), length (?es recs) - mx))"
    by (induction recs rule: rev_induct) (auto simp: not_less Suc_diff_le)
  then show ?thesis by (simp add: materialize_def each_pure_holds [OF assms] Let_def)
qed

lemma exact_count_count_key: "exact_count (count_key k counts) k' = (if k' = k then exact_count counts k + 1 else exact_count counts k')"
  by (simp add: count_key_def exact_count_update)

lemma part_counts_holds:
  assumes "holds_recs recs sp"
  obtains counts where "part_counts key_of part parts sp = Some counts"
    "\<forall>k. exact_count counts k = (if in_part part parts k then count_list (map key_of recs) k else 0)"
    "distinct (map fst counts)"
proof -
  let ?f = "\<lambda>r counts. if in_part part parts (key_of r) then count_key (key_of r) counts else counts"
  have "distinct (map fst (fold ?f recs []))
      \<and> (\<forall>k. exact_count (fold ?f recs []) k = (if in_part part parts k then count_list (map key_of recs) k else 0))"
  proof (induction recs rule: rev_induct)
    case (snoc r recs)
    then show ?case by (auto simp: exact_count_count_key) (simp add: count_key_def distinct_update)
  qed (simp add: exact_count_def)
  then show thesis using that by (simp add: part_counts_def each_pure_holds [OF assms])
qed

lemma over_cap_mem:
  assumes "distinct (map fst counts)"
  shows "k \<in> set (over_cap cap counts) \<longleftrightarrow> cap > 0 \<and> exact_count counts k > cap"
proof -
  have "k \<in> set (over_cap cap counts) \<longleftrightarrow> cap > 0 \<and> (\<exists>n. (k, n) \<in> set counts \<and> n > cap)"
    by (force simp: over_cap_def)
  also have "\<dots> \<longleftrightarrow> cap > 0 \<and> (\<exists>n. map_of counts k = Some n \<and> n > cap)"
    using assms by simp
  finally show ?thesis by (auto simp: exact_count_def split: option.splits)
qed

definition untagged :: "spillRec \<Rightarrow> spillRec" where
  "untagged r = r\<lparr>s_tag := 0\<rparr>"

lemma untagged_simps [simp]:
  "rec_ok (untagged r) = rec_ok r" "rec_key m (untagged r) = rec_key m r" "s_root (untagged r) = s_root r"
  "rec_ent handles rootOf (untagged r) = rec_ent handles rootOf r"
  by (simp_all add: untagged_def rec_ok_def rec_key_def rec_ent_def)

lemma distil_list:
  assumes "\<forall>r \<in> set recs. rec_ok r" "holds_recs pre out" "length pre + length recs \<le> maxInt"
  shows "\<exists>out'. each_list (\<lambda>r (n, out).
             if \<not> hot counter (rec_key m r) then ((n, out), None)
             else (case addRaw maxInt True (r\<lparr>s_tag := 0\<rparr>) out of
                     None \<Rightarrow> ((n + 1, out), Some ())
                   | Some out1 \<Rightarrow> ((n + 1, out1), None))) recs (n, out)
     = ((n + length (filter (\<lambda>r. hot counter (rec_key m r)) recs), out'), EachDone)
     \<and> holds_recs (pre @ map untagged (filter (\<lambda>r. hot counter (rec_key m r)) recs)) out'"
  using assms
proof (induction recs arbitrary: pre out n)
  case (Cons r recs)
  show ?case
  proof (cases "hot counter (rec_key m r)")
    case True
    have "length pre \<noteq> maxInt" using Cons.prems(3) by simp
    then obtain out1 where a: "addRaw maxInt True (untagged r) out = Some out1"
      using addRaw_Some [OF Cons.prems(2), of maxInt "untagged r"] by auto
    then have "holds_recs (pre @ [untagged r]) out1"
      using holds_add [OF Cons.prems(2) _ a] Cons.prems(1) by simp
    from Cons.IH [OF _ this, of "n + 1"] show ?thesis
      using Cons.prems(1,3) True a by (simp add: untagged_def [symmetric])
  next
    case False
    then show ?thesis using Cons.IH [OF _ Cons.prems(2), of n] Cons.prems(1,3) by simp
  qed
qed simp

lemma distil_holds:
  assumes "holds_recs recs sp" "length recs \<le> maxInt"
    and "distil maxInt (\<lambda>_. True) counter m sp newSpill = Some (n, out)"
  shows "holds_recs (map untagged (filter (\<lambda>r. hot counter (rec_key m r)) recs)) out"
    "n = length (filter (\<lambda>r. hot counter (rec_key m r)) recs)"
proof -
  have ok: "\<forall>r \<in> set recs. rec_ok r" using assms(1) by (simp add: holds_recs_def)
  from distil_list [OF ok holds_new, of maxInt counter m 0] assms(2,3)
  have "holds_recs (map untagged (filter (\<lambda>r. hot counter (rec_key m r)) recs)) out
      \<and> n = length (filter (\<lambda>r. hot counter (rec_key m r)) recs)"
    by (auto simp: distil_def each_holds [OF assms(1)])
  then show "holds_recs (map untagged (filter (\<lambda>r. hot counter (rec_key m r)) recs)) out"
    "n = length (filter (\<lambda>r. hot counter (rec_key m r)) recs)" by simp_all
qed

lemma split_window_Some:
  assumes "holds_recs recs sp"
  shows "\<exists>ents over skipped. split_window key_of part parts cap mx handles rootOf sp = Some (ents, over, skipped)"
proof -
  obtain counts where "part_counts key_of part parts sp = Some counts"
    using part_counts_holds [OF assms] by metis
  then show ?thesis by (simp add: split_window_def materialize_holds [OF assms] Let_def)
qed

lemma rec_ent_key: "candHash (rec_ent handles rootOf r) m = rec_key m r"
  by (simp add: candHash_def rec_ent_def rec_key_def Let_def zero_fEnt_def)

lemma split_window_cut:
  assumes "holds_recs recs sp"
    and "split_window key_of part parts cap mx handles rootOf sp = Some (ents, over, skipped)"
  defines "big \<equiv> \<lambda>k. cap > 0 \<and> count_list (map key_of recs) k > cap"
  defines "es \<equiv> map (rec_ent handles rootOf)
      (filter (\<lambda>r. s_root r < length rootOf \<and> in_part part parts (key_of r) \<and> \<not> big (key_of r)) recs)"
  shows "ents = (if mx = 0 then es else take mx es)" "k \<in> set over \<longleftrightarrow> in_part part parts k \<and> big k"
    "skipped = (if mx = 0 then 0 else length es - mx)" "distinct over"
proof -
  obtain counts where c: "part_counts key_of part parts sp = Some counts"
    "\<forall>k. exact_count counts k = (if in_part part parts k then count_list (map key_of recs) k else 0)"
    "distinct (map fst counts)"
    using part_counts_holds [OF assms(1)] by metis
  have over: "over = over_cap cap counts"
    using assms(2) c(1) by (auto simp: split_window_def Let_def split: option.splits)
  have mem: "k \<in> set over \<longleftrightarrow> in_part part parts k \<and> big k" for k
    using over_cap_mem [OF c(3), of k cap] c(2) by (auto simp: over big_def)
  show "k \<in> set over \<longleftrightarrow> in_part part parts k \<and> big k" by (rule mem)
  show "distinct over" using c(3) by (simp add: over over_cap_def distinct_map_filter)
  have "materialize (\<lambda>r. in_part part parts (key_of r) \<and> key_of r \<notin> set over) handles rootOf mx sp = Some (ents, skipped)"
    using assms(2) c(1) over by (auto simp: split_window_def Let_def split: option.splits)
  moreover have "map (rec_ent handles rootOf)
      (filter (\<lambda>r. s_root r < length rootOf \<and> in_part part parts (key_of r) \<and> key_of r \<notin> set over) recs) = es"
    unfolding es_def by (auto simp: mem intro!: arg_cong [of _ _ "map (rec_ent handles rootOf)"] filter_cong)
  ultimately show "ents = (if mx = 0 then es else take mx es)" "skipped = (if mx = 0 then 0 else length es - mx)"
    by (auto simp: materialize_holds [OF assms(1)] Let_def)
qed

lemma split_window_holds:
  assumes "holds_recs recs sp"
    and "split_window key_of part parts cap 0 handles rootOf sp = Some (ents, over, skipped)"
  defines "big \<equiv> \<lambda>k. cap > 0 \<and> count_list (map key_of recs) k > cap"
  shows "ents = map (rec_ent handles rootOf)
      (filter (\<lambda>r. s_root r < length rootOf \<and> in_part part parts (key_of r) \<and> \<not> big (key_of r)) recs)"
    "k \<in> set over \<longleftrightarrow> in_part part parts k \<and> big k" "skipped = 0"
  using split_window_cut [OF assms(1,2)] by (simp_all add: big_def)

lemma count_kept:
  "P k \<Longrightarrow> count_list (map (rec_key m) (map untagged (filter (\<lambda>r. P (rec_key m r)) recs))) k
     = count_list (map (rec_key m) recs) k"
  by (induction recs) auto


subsection \<open>A small walk\<close>

definition ex_rec :: "path \<Rightarrow> int \<Rightarrow> spillRec" where
  "ex_rec p sz = \<lparr>s_root = 0, s_size = sz, s_mod = 7, s_tag = 0, s_rel = p, s_link = \<lparr>dev = 1, ino = 2, n_links = 1\<rparr>, s_holes = 0\<rparr>"

definition ex_walk :: "spillRec list" where
  "ex_walk = [ex_rec ''a'' 5, ex_rec ''b'' 6, ex_rec ''c'' 5]"

definition ex_match :: MatchOpts where
  "ex_match = \<lparr>MName = False, MModified = True, MCreated = False\<rparr>"

lemma ex_walk_ok: "\<forall>r \<in> set ex_walk. rec_ok r"
  by (simp add: ex_walk_def ex_rec_def rec_ok_def maxInt32_def maxUint32_def spillRelMax_def is_int64_def)

theorem spill_roundtrip_witness:
  "map_option (\<lambda>sp. each sp (\<lambda>r s. (s @ [s_rel r], None :: unit option)) []) (add_all 9 ex_walk newSpill)
     = Some ([''a'', ''b'', ''c''], EachDone)"
  using spill_roundtrip [OF ex_walk_ok, of 9 "\<lambda>r s. (s @ [s_rel r], None :: unit option)" "[]"]
  by (simp add: ex_walk_def ex_rec_def)

lemma ex_walk_runs:
  "\<exists>sp n cs ents over skipped. add_all 9 ex_walk newSpill = Some sp
     \<and> distil 9 (\<lambda>_. True) (fold (kc_add ex_sizes) (map (rec_key ex_match) ex_walk) (newKeyCounterShare 0)) ex_match sp newSpill
         = Some (n, cs)
     \<and> window 0 1 ex_match [None] [''/v''] 9 0 cs = Some (ents, over, skipped)"
proof -
  let ?k = "fold (kc_add ex_sizes) (map (rec_key ex_match) ex_walk) (newKeyCounterShare 0)"
  obtain sp where sp: "add_all 9 ex_walk newSpill = Some sp" "holds_recs ex_walk sp"
    using add_all_holds [OF holds_new ex_walk_ok, of 9] by (auto simp: ex_walk_def)
  have l: "length ([] :: spillRec list) + length ex_walk \<le> 9" by (simp add: ex_walk_def)
  obtain n cs where d: "distil 9 (\<lambda>_. True) ?k ex_match sp newSpill = Some (n, cs)" 
    using distil_list [OF ex_walk_ok holds_new l, of ?k ex_match 0] by (auto simp: distil_def each_holds [OF sp(2)])
  have "holds_recs (map untagged (filter (\<lambda>r. hot ?k (rec_key ex_match r)) ex_walk)) cs"
    using distil_holds(1) [OF sp(2) _ d] l by simp
  from split_window_Some [OF this] show ?thesis using sp d by (simp add: window_def)
qed


end
