(* ===== verification/GroupTop.thy ===== *)
theory GroupTop
  imports StreamTop "HOL-Library.Product_Lexorder"
begin

text \<open>
  The bounded accumulator of duplicate groups: \<open>rawGroup\<close>, \<open>betterGroup\<close> and \<open>groupTop\<close>
  of \<open>server/stream.go\<close>, its final cut and \<open>capDuplicateGroups\<close> of
  \<open>server/duplicates.go\<close>.  The main result is that the accumulator, which never holds more than
  half the budget of groups, lists exactly what sorting and capping all groups would, and accounts for
  everything it left out.
\<close>

subsection \<open>Groups\<close>

record rawGroup =
  g_size :: int
  g_hash :: gostring
  g_pfx :: gostring
  g_files :: "fEnt list"
  g_extra :: nat

definition weight :: "rawGroup \<Rightarrow> int" where
  "weight g = reclaimPhys (copyPhys (g_files g)) + g_size g * int (g_extra g)"

definition betterGroup :: "rawGroup \<Rightarrow> rawGroup \<Rightarrow> bool" where
  "betterGroup a b =
     (if weight a \<noteq> weight b then weight a > weight b
      else if g_hash a \<noteq> g_hash b then g_hash a < g_hash b
      else f_path (g_files a ! 0) < f_path (g_files b ! 0))"

definition group_rank :: "rawGroup \<Rightarrow> int \<times> gostring \<times> path" where
  "group_rank g = (- weight g, g_hash g, f_path (g_files g ! 0))"

interpretation by_weight: ranking betterGroup group_rank
  by unfold_locales (auto simp: betterGroup_def group_rank_def)

record groupTop =
  gt_limit :: nat
  gt_gs :: "rawGroup list"
  gt_droppedGroups :: nat
  gt_droppedFiles :: nat

definition newGroupTop :: "nat \<Rightarrow> groupTop" where
  "newGroupTop budget =
     (let limit = budget div 2 + 1 in
      \<lparr>gt_limit = (if limit < 1 then 1 else limit), gt_gs = [], gt_droppedGroups = 0, gt_droppedFiles = 0\<rparr>)"

definition group_add :: "rawGroup \<Rightarrow> groupTop \<Rightarrow> groupTop" where
  "group_add g t =
     (let (h, dr) = heap_offer betterGroup (gt_limit t) g (gt_gs t) in
      case dr of
        None \<Rightarrow> t\<lparr>gt_gs := h\<rparr>
      | Some d \<Rightarrow> t\<lparr>gt_gs := h, gt_droppedGroups := gt_droppedGroups t + 1,
                   gt_droppedFiles := gt_droppedFiles t + length (g_files d) + g_extra d\<rparr>)"

definition group_noteSkipped :: "nat \<Rightarrow> groupTop \<Rightarrow> groupTop" where
  "group_noteSkipped n t = t\<lparr>gt_droppedFiles := gt_droppedFiles t + n\<rparr>"

definition groups_sorted :: "groupTop \<Rightarrow> rawGroup list" where
  "groups_sorted t = rank_sort betterGroup (gt_gs t)"

subsection \<open>The cut\<close>

fun cap_loop :: "nat \<Rightarrow> nat \<Rightarrow> nat \<Rightarrow> nat list \<Rightarrow> nat" where
  "cap_loop i acc budget [] = i"
| "cap_loop i acc budget (c # cs) =
     (if i > 0 \<and> acc + c > budget then i else cap_loop (i + 1) (acc + c) budget cs)"

definition capCutIndex :: "nat list \<Rightarrow> nat \<Rightarrow> nat" where
  "capCutIndex sizes budget = cap_loop 0 0 budget sizes"

definition capDuplicateGroups :: "Group list \<Rightarrow> nat \<Rightarrow> Group list \<times> TruncInfo option" where
  "capDuplicateGroups groups budget =
     (let cut = capCutIndex (map (\<lambda>g. length (GFiles g)) groups) budget in
      if cut \<ge> length groups then (groups, None)
      else (take cut groups,
            Some (zero_TruncInfo\<lparr>TGroups := int (length groups - cut), Cap := int budget,
              TFiles := int (sum_list (map (\<lambda>g. length (GFiles g)) (drop cut groups)))\<rparr>)))"

text \<open>\<open>final\<close>: the groups listed and the report; \<open>captured\<close> is \<open>media.Captured\<close> of
  an entry, and the counter of row ids is passed through.\<close>

definition final_row :: "(fEnt \<Rightarrow> string) \<Rightarrow> rawGroup \<Rightarrow> fEnt \<times> FileEnt \<Rightarrow> FileEnt" where
  "final_row captured g fr = (snd fr)\<lparr>Hash := g_hash g, Pfx := g_pfx g, Captured := captured (fst fr)\<rparr>"

definition final_group :: "fmt \<Rightarrow> (fEnt \<Rightarrow> string) \<Rightarrow> nat \<Rightarrow> nat \<Rightarrow> rawGroup \<Rightarrow> nat \<Rightarrow> Group \<times> nat" where
  "final_group fm captured budget i g nextID =
     (let files = (if length (g_files g) > budget then take budget (g_files g) else g_files g);
          (rows, n1) = fileEnts fm files nextID;
          copies = physicalCopies files
      in (zero_Group\<lparr>GID := CHR ''g'' # dec i, GExt := extOf (fm_upper fm) (f_name (files ! 0)), GSize := g_size g,
            GHash := g_hash g, Copies := (if copies < length files then int copies else 0),
            GFiles := map (final_row captured g) (zip files rows)\<rparr>, n1))"

fun final_groups :: "fmt \<Rightarrow> (fEnt \<Rightarrow> string) \<Rightarrow> nat \<Rightarrow> nat \<Rightarrow> rawGroup list \<Rightarrow> nat \<Rightarrow> Group list \<times> nat" where
  "final_groups fm captured budget i [] nextID = ([], nextID)"
| "final_groups fm captured budget i (g # gs) nextID =
     (let (grp, n1) = final_group fm captured budget i g nextID;
          (grps, n2) = final_groups fm captured budget (i + 1) gs n1
      in (grp # grps, n2))"

definition final_cut :: "groupTop \<Rightarrow> nat \<Rightarrow> nat" where
  "final_cut t budget = capCutIndex (map (\<lambda>g. length (g_files g)) (groups_sorted t)) budget"

definition final_kept :: "groupTop \<Rightarrow> nat \<Rightarrow> rawGroup list" where
  "final_kept t budget = take (final_cut t budget) (groups_sorted t)"

definition final_dropG :: "groupTop \<Rightarrow> nat \<Rightarrow> nat" where
  "final_dropG t budget = gt_droppedGroups t + (length (groups_sorted t) - final_cut t budget)"

definition final_dropF :: "groupTop \<Rightarrow> nat \<Rightarrow> nat" where
  "final_dropF t budget =
     gt_droppedFiles t + sum_list (map (\<lambda>g. length (g_files g)) (drop (final_cut t budget) (groups_sorted t)))
     + sum_list (map g_extra (groups_sorted t))
     + sum_list (map (\<lambda>g. length (g_files g) - budget) (final_kept t budget))"

definition group_final ::
  "fmt \<Rightarrow> (fEnt \<Rightarrow> string) \<Rightarrow> groupTop \<Rightarrow> nat \<Rightarrow> nat \<Rightarrow> (Group list \<times> TruncInfo option) \<times> nat" where
  "group_final fm captured t budget nextID =
     (let (out, n1) = final_groups fm captured budget 0 (final_kept t budget) nextID;
          dropG = final_dropG t budget; dropF = final_dropF t budget
      in ((out, if dropG = 0 \<and> dropF = 0 then None
                else Some (zero_TruncInfo\<lparr>TGroups := int dropG, TFiles := int dropF, Cap := int budget\<rparr>)), n1))"

subsection \<open>The accumulator holds enough\<close>

definition group_saw :: "rawGroup list \<Rightarrow> nat \<Rightarrow> groupTop \<Rightarrow> bool" where
  "group_saw gs limit t \<longleftrightarrow> gt_limit t = limit \<and>
     (\<exists>D. by_weight.kept_of limit gs (gt_gs t) D \<and> gt_droppedGroups t = size D
        \<and> gt_droppedFiles t = (\<Sum>g\<in>#D. length (g_files g) + g_extra g))"

lemma group_saw_new: "group_saw [] (budget div 2 + 1) (newGroupTop budget)"
  using by_weight.kept_of_Nil [of "budget div 2 + 1"] by (auto simp: group_saw_def newGroupTop_def Let_def)

lemma group_saw_add:
  assumes "group_saw gs limit t" "0 < limit"
  shows "group_saw (gs @ [g]) limit (group_add g t)"
proof -
  obtain D where D: "by_weight.kept_of limit gs (gt_gs t) D" "gt_droppedGroups t = size D" "gt_limit t = limit"
    "gt_droppedFiles t = (\<Sum>g\<in>#D. length (g_files g) + g_extra g)"
    using assms(1) by (auto simp: group_saw_def)
  obtain h dr where o: "heap_offer betterGroup limit g (gt_gs t) = (h, dr)" by fastforce
  show ?thesis
    using by_weight.kept_of_offer [OF D(1) assms(2) o] o D(2-4)
    by (cases dr) (auto simp: group_saw_def group_add_def)
qed

lemma group_saw_fold: "0 < limit \<Longrightarrow> group_saw gs limit t \<Longrightarrow> group_saw (gs @ hs) limit (fold group_add hs t)"
proof (induction hs arbitrary: gs t)
  case (Cons h hs)
  then show ?case using Cons.IH [of "gs @ [h]"] group_saw_add by simp
qed simp

lemma group_saw_final:
  assumes "group_saw gs limit t" "distinct (map group_rank gs)"
  defines "all \<equiv> rank_sort betterGroup gs"
  shows "groups_sorted t = take limit all" "gt_droppedGroups t = length (drop limit all)"
    "gt_droppedFiles t = (\<Sum>g\<leftarrow>drop limit all. length (g_files g) + g_extra g)"
proof -
  obtain D where D: "by_weight.kept_of limit gs (gt_gs t) D" "gt_droppedGroups t = size D"
    "gt_droppedFiles t = (\<Sum>g\<in>#D. length (g_files g) + g_extra g)"
    using assms(1) by (auto simp: group_saw_def)
  note best = by_weight.best_of_distinct [OF by_weight.kept_best [OF D(1)] assms(2)]
  show "groups_sorted t = take limit all" using best(1) by (simp add: groups_sorted_def all_def)
  show "gt_droppedGroups t = length (drop limit all)"
    "gt_droppedFiles t = (\<Sum>g\<leftarrow>drop limit all. length (g_files g) + g_extra g)"
    using D(2,3) best(2) by (simp_all add: all_def sum_mset_sum_list [symmetric] del: sum_mset_sum_list)
qed

lemma cap_loop_le: "cap_loop i acc b xs \<le> i + length xs"
proof (induction xs arbitrary: i acc)
  case (Cons c xs)
  show ?case using Cons [of "i + 1" "acc + c"] by simp
qed simp

lemma cap_loop_append:
  "cap_loop i acc b (xs @ ys) =
     (if cap_loop i acc b xs < i + length xs then cap_loop i acc b xs
      else cap_loop (i + length xs) (acc + sum_list xs) b ys)"
  by (induction xs arbitrary: i acc) (simp_all add: add.assoc)

lemma cap_loop_full:
  "cap_loop i acc b xs = i + length xs \<Longrightarrow> 0 < i \<Longrightarrow> xs \<noteq> [] \<Longrightarrow> acc + sum_list xs \<le> b"
proof (induction xs arbitrary: i acc)
  case (Cons c xs)
  then have c: "acc + c \<le> b" "cap_loop (i + 1) (acc + c) b xs = i + 1 + length xs" by (auto split: if_splits)
  show ?case
  proof (cases "xs = []")
    case False
    then show ?thesis using Cons.IH [OF c(2)] by (simp add: add.assoc)
  qed (use c in simp)
qed simp

lemma sum_list_twos: "\<forall>c \<in> set xs. (2::nat) \<le> c \<Longrightarrow> 2 * length xs \<le> sum_list xs"
  by (induction xs) auto

lemma cut_of_limit:
  assumes "\<forall>c \<in> set xs. 2 \<le> c" "limit = budget div 2 + 1"
  shows "capCutIndex (take limit xs) budget = capCutIndex xs budget" "capCutIndex xs budget \<le> limit"
proof -
  let ?a = "take limit xs" and ?b = "drop limit xs"
  have split: "capCutIndex xs budget =
     (if capCutIndex ?a budget < length ?a then capCutIndex ?a budget
      else cap_loop (length ?a) (sum_list ?a) budget ?b)"
    using cap_loop_append [of 0 0 budget ?a ?b] by (simp add: capCutIndex_def)
  have le: "capCutIndex ?a budget \<le> length ?a" using cap_loop_le [of 0 0 budget ?a] by (simp add: capCutIndex_def)
  have "capCutIndex ?a budget = capCutIndex xs budget \<and> capCutIndex xs budget \<le> limit"
  proof (cases "length xs \<le> limit \<or> capCutIndex ?a budget < length ?a")
    case True
    then show ?thesis using split le by (auto simp: min_def split: if_splits)
  next
    case False
    then have len: "length ?a = limit" "capCutIndex ?a budget = length ?a" using le by auto
    then obtain c cs where a: "?a = c # cs" using assms(2) by (cases ?a) auto
    have "2 * limit \<le> sum_list ?a" using sum_list_twos [of ?a] assms(1) len(1) by (auto dest: in_set_takeD)
    then have big: "budget < sum_list ?a" using assms(2) by linarith
    have "cs = []"
    proof (rule ccontr)
      assume "cs \<noteq> []"
      moreover have "cap_loop 1 c budget cs = 1 + length cs" using len(2) unfolding a capCutIndex_def by simp
      ultimately show False using cap_loop_full [of 1 c budget cs] big unfolding a by simp
    qed
    then have "limit = 1" using len(1) a by simp
    moreover have "cap_loop 1 (sum_list ?a) budget ?b = 1" using big by (cases ?b) auto
    ultimately show ?thesis using split len by simp
  qed
  then show "capCutIndex ?a budget = capCutIndex xs budget" "capCutIndex xs budget \<le> limit" by simp_all
qed

subsection \<open>The final cut is the reference cut\<close>

lemma length_fileEnts: "length (fst (fileEnts fm fs n)) = length fs"
  by (induction fs arbitrary: n) (simp_all add: case_prod_beta Let_def)

lemma final_group_files: "length (GFiles (fst (final_group fm captured budget i g n))) = min budget (length (g_files g))"
  by (simp add: final_group_def case_prod_beta Let_def length_fileEnts zero_Group_def)

lemma final_groups_files:
  "map (\<lambda>g. length (GFiles g)) (fst (final_groups fm captured budget i gs n)) = map (\<lambda>g. min budget (length (g_files g))) gs"
  by (induction gs arbitrary: i n) (simp_all add: case_prod_beta Let_def final_group_files)

lemma final_groups_take:
  "fst (final_groups fm captured budget i (take k gs) n) = take k (fst (final_groups fm captured budget i gs n))"
proof (induction gs arbitrary: i n k)
  case (Cons g gs)
  then show ?case by (cases k) (simp_all add: case_prod_beta Let_def)
qed simp

lemma min_files: "\<forall>g \<in> set gs. length (g_files g) \<le> budget
    \<Longrightarrow> map (\<lambda>g. min budget (length (g_files g))) gs = map (\<lambda>g. length (g_files g)) gs"
  by (auto simp: min_def intro: antisym)

text \<open>What \<open>final\<close> reads off the accumulator, in terms of the full sorted list.\<close>

lemma final_of_stream:
  assumes "group_saw gs (budget div 2 + 1) t" "distinct (map group_rank gs)"
    and "\<forall>g \<in> set gs. 2 \<le> length (g_files g) \<and> length (g_files g) \<le> budget"
  defines "all \<equiv> rank_sort betterGroup gs"
  defines "at \<equiv> capCutIndex (map (\<lambda>g. length (g_files g)) all) budget"
  shows "final_kept t budget = take at all" "final_dropG t budget = length all - at" "at \<le> length all"
    "final_dropF t budget = sum_list (map (\<lambda>g. length (g_files g)) (drop at all)) + sum_list (map g_extra all)"
proof -
  let ?limit = "budget div 2 + 1"
  note F = group_saw_final [OF assms(1,2), folded all_def]
  have ok: "\<forall>g \<in> set all. 2 \<le> length (g_files g) \<and> length (g_files g) \<le> budget"
    using assms(3) by (simp add: all_def)
  then have twos: "\<forall>c \<in> set (map (\<lambda>g. length (g_files g)) all). 2 \<le> c" by simp
  note C = cut_of_limit [OF twos refl, of budget, folded at_def]
  have fc: "final_cut t budget = at" using C(1) by (simp only: final_cut_def F(1) take_map)
  show kept: "final_kept t budget = take at all"
    using C(2) by (simp add: final_kept_def fc F(1) min.absorb1)
  show cl: "at \<le> length all"
    using cap_loop_le [of 0 0 budget "map (\<lambda>g. length (g_files g)) all"] by (simp add: at_def capCutIndex_def)
  show "final_dropG t budget = length all - at"
    using C(2) cl by (simp add: final_dropG_def fc F(1,2))
  have small: "sum_list (map (\<lambda>g. length (g_files g) - budget) (final_kept t budget)) = 0"
    using ok by (auto simp: kept sum_list_eq_0_iff dest: in_set_takeD)
  have "drop at all = drop at (take ?limit all @ drop ?limit all)" by simp
  also have "\<dots> = drop at (take ?limit all) @ drop ?limit all"
    unfolding drop_append using C(2) by (cases "?limit \<le> length all") simp_all
  finally have drops: "drop at all = drop at (take ?limit all) @ drop ?limit all" .
  have exs: "sum_list (map g_extra all) = sum_list (map g_extra (take ?limit all)) + sum_list (map g_extra (drop ?limit all))"
    by (metis append_take_drop_id map_append sum_list_append)
  show "final_dropF t budget = sum_list (map (\<lambda>g. length (g_files g)) (drop at all)) + sum_list (map g_extra all)"
    using small unfolding final_dropF_def fc F(1,3) drops exs by (simp add: sum_list_addf)
qed

text \<open>C18. The bounded accumulator gives the result of the unbounded one: feed it any stream of groups (two to
  \<open>budget\<close> members each, no two alike in weight, hash and first path); then the groups \<open>final\<close> lists are the
  ones \<open>capDuplicateGroups\<close> keeps of the full sorted list, and its report counts exactly the groups left out, with
  their members and the members the per-group cap had dropped before.\<close>

theorem group_top_is_cap:
  assumes "\<forall>g \<in> set gs. 2 \<le> length (g_files g) \<and> length (g_files g) \<le> budget" "distinct (map group_rank gs)"
  shows "let t = fold group_add gs (newGroupTop budget);
             all = fst (final_groups fm captured budget 0 (rank_sort betterGroup gs) n);
             (kept, trunc) = fst (group_final fm captured t budget n);
             (kept', trunc') = capDuplicateGroups all budget
         in kept = kept' \<and> final_dropG t budget = length all - length kept'
          \<and> final_dropF t budget = sum_list (map (\<lambda>g. length (GFiles g)) (drop (length kept') all)) + sum_list (map g_extra gs)
          \<and> (trunc = None \<longleftrightarrow> trunc' = None \<and> sum_list (map g_extra gs) = 0)"
proof -
  define t where "t = fold group_add gs (newGroupTop budget)"
  define all where "all = rank_sort betterGroup gs"
  define rows where "rows = fst (final_groups fm captured budget 0 all n)"
  define cut where "cut = capCutIndex (map (\<lambda>g. length (g_files g)) all) budget"
  have "group_saw gs (budget div 2 + 1) t" using group_saw_fold [OF _ group_saw_new] by (simp add: t_def)
  note F = final_of_stream [OF this assms(2,1), folded all_def, folded cut_def]
  have rl: "map (\<lambda>g. length (GFiles g)) rows = map (\<lambda>g. length (g_files g)) all" "length rows = length all"
    using final_groups_files [of fm captured budget 0 all n] min_files [of all budget] assms(1)
    by (auto simp: rows_def all_def dest: arg_cong [where f = length])
  have gk: "fst (fst (group_final fm captured t budget n)) = take cut rows"
    by (simp add: group_final_def case_prod_beta Let_def F(1) final_groups_take rows_def)
  have ck: "fst (capDuplicateGroups rows budget) = take cut rows"
    "snd (capDuplicateGroups rows budget) = None \<longleftrightarrow> cut = length all"
    using rl F(3) by (simp_all add: capDuplicateGroups_def Let_def cut_def)
  have none: "snd (fst (group_final fm captured t budget n)) = None \<longleftrightarrow> final_dropG t budget = 0 \<and> final_dropF t budget = 0"
    by (simp add: group_final_def case_prod_beta Let_def)
  have ex: "sum_list (map g_extra gs) = sum_list (map g_extra all)"
    by (metis all_def mset_map mset_rank_sort sum_mset_sum_list)
  have "final_dropF t budget = sum_list (map (\<lambda>g. length (GFiles g)) (drop (length (take cut rows)) rows))
      + sum_list (map g_extra gs)"
    using F(3,4) ex rl by (metis drop_map length_take min.absorb2)
  moreover have "final_dropG t budget = length rows - length (take cut rows)" using F(2,3) rl(2) by simp
  moreover have "final_dropG t budget = 0 \<and> final_dropF t budget = 0 \<longleftrightarrow> cut = length all \<and> sum_list (map g_extra gs) = 0"
    using F ex by auto
  ultimately show ?thesis
    unfolding Let_def t_def [symmetric] all_def [symmetric] rows_def [symmetric] case_prod_beta gk ck none by blast
qed

subsection \<open>A small result\<close>

definition ex_entry :: "gostring \<Rightarrow> int \<Rightarrow> fEnt" where
  "ex_entry n sz = zero_fEnt\<lparr>f_path := ''/v/'' @ n, f_name := n, f_dir := ''/v'', f_size := sz\<rparr>"

definition ex_raw :: "gostring \<Rightarrow> int \<Rightarrow> rawGroup" where
  "ex_raw h sz = \<lparr>g_size = sz, g_hash = h, g_pfx = [], g_files = [ex_entry (h @ ''1'') sz, ex_entry (h @ ''2'') sz], g_extra = 0\<rparr>"

definition ex_fmt :: fmt where
  "ex_fmt = \<lparr>fm_time = (\<lambda>_. ''t''), fm_upper = id\<rparr>"

text \<open>Of three pairs a budget of five files keeps the two that free most.\<close>

theorem group_top_is_cap_witness:
  "map GHash (fst (fst (group_final ex_fmt (\<lambda>_. []) (fold group_add [ex_raw ''a'' 4, ex_raw ''b'' 9, ex_raw ''c'' 7] (newGroupTop 5)) 5 0)))
     = [''b'', ''c'']
   \<and> final_dropG (fold group_add [ex_raw ''a'' 4, ex_raw ''b'' 9, ex_raw ''c'' 7] (newGroupTop 5)) 5 = 1"
proof -
  let ?gs = "[ex_raw ''a'' 4, ex_raw ''b'' 9, ex_raw ''c'' 7]"
  let ?all = "fst (final_groups ex_fmt (\<lambda>_. []) 5 0 (rank_sort betterGroup ?gs) 0)"
  have ok: "\<forall>g \<in> set ?gs. 2 \<le> length (g_files g) \<and> length (g_files g) \<le> 5"
    by (simp add: ex_raw_def)
  have d: "distinct (map group_rank ?gs)" by code_simp
  have "map GHash (fst (capDuplicateGroups ?all 5)) = [''b'', ''c''] \<and> length ?all = 3" by code_simp
  then show ?thesis
    using group_top_is_cap [OF ok d, of ex_fmt "\<lambda>_. []" 0]
    by (auto simp: Let_def case_prod_beta dest: arg_cong [where f = length])
qed

end
