(* ===== verification/Grouping.thy ===== *)
theory Grouping
  imports Spill HashStore GroupTop
begin

text \<open>
  \<open>dupWindow\<close> of \<open>server/duplicates.go\<close>: one window of candidates is keyed, read (64 KiB
  first, in full where the prefixes agree), grouped by content and handed to the accumulator.  Reading a file
  is a function (\<open>rd_pfx\<close>, \<open>rd_full\<close>: its hash, or nothing when it cannot be read); the
  workers run in any order, and so do the loops over maps, so each pass goes through an arbitrary reordering.
  Progress and stopping are not modelled.  The main result is that the groups are exactly the classes of equal key
  and equal content.
\<close>

subsection \<open>Keys\<close>

definition candKey :: "fmt \<Rightarrow> MatchOpts \<Rightarrow> fEnt \<Rightarrow> gostring" where
  "candKey fm m f =
     itoa (f_size f)
     @ (if MName m then ''|'' @ f_name f else [])
     @ (if MModified m then ''|'' @ fmtTime (fm_time fm) (f_mod f) else [])
     @ (if MCreated m then (if f_created f = None then ''|?'' @ f_path f
                            else ''|'' @ fmtTime (fm_time fm) (f_created f)) else [])"

definition skipped_ent :: "fEnt \<Rightarrow> bool" where
  "skipped_ent f \<longleftrightarrow> f_isDir f \<or> f_size f = 0"

type_synonym pEnt = "fEnt \<times> gostring"

definition pending :: "fmt \<Rightarrow> MatchOpts \<Rightarrow> fEnt list \<Rightarrow> pEnt list" where
  "pending fm m files =
     (let keyed = map (\<lambda>f. (f, if skipped_ent f then [] else candKey fm m f)) files in
      filter (\<lambda>e. snd e \<noteq> [] \<and> count_list (map snd keyed) (snd e) \<ge> 2) keyed)"

subsection \<open>The two reading passes\<close>

record reads =
  rd_pfx :: "fEnt \<Rightarrow> gostring option"
  rd_full :: "fEnt \<Rightarrow> gostring option"

text \<open>An entry with its key, its prefix hash and its full hash.\<close>

type_synonym pTriple = "fEnt \<times> gostring \<times> gostring"
type_synonym pHashed = "fEnt \<times> gostring \<times> gostring \<times> gostring"

record orders =
  or_prefix :: "pTriple reorder"
  or_group :: "pTriple reorder"
  or_full :: "pTriple reorder"
  or_bucket :: "gostring reorder"
  or_store :: "(key \<times> hcEnt) reorder"

definition prefix_pass :: "reads \<Rightarrow> pEnt list \<Rightarrow> pTriple list" where
  "prefix_pass rd pend = List.map_filter (\<lambda>(f, k). map_option (\<lambda>p. (f, k, p)) (rd_pfx rd f)) pend"

definition colliding :: "pTriple list \<Rightarrow> pTriple list" where
  "colliding ts = filter (\<lambda>t. length (filter (\<lambda>u. snd u = snd t) ts) \<ge> 2) ts"

definition stored_hash :: "(gostring \<Rightarrow> gostring) \<Rightarrow> hashCache option \<Rightarrow> pTriple \<Rightarrow> gostring option" where
  "stored_hash b3 hc t =
     lookup b3 hc (f_path (fst t)) (f_size (fst t)) (unix_of (f_mod (fst t))) (snd (snd t))"

definition with_hash :: "pTriple \<Rightarrow> gostring \<Rightarrow> pHashed" where
  "with_hash t h = (fst t, fst (snd t), snd (snd t), h)"

definition hits :: "(gostring \<Rightarrow> gostring) \<Rightarrow> hashCache option \<Rightarrow> pTriple list \<Rightarrow> pHashed list" where
  "hits b3 hc ts = List.map_filter (\<lambda>t. map_option (with_hash t) (stored_hash b3 hc t)) ts"

definition misses :: "(gostring \<Rightarrow> gostring) \<Rightarrow> hashCache option \<Rightarrow> pTriple list \<Rightarrow> pTriple list" where
  "misses b3 hc ts = filter (\<lambda>t. stored_hash b3 hc t = None) ts"

fun full_pass ::
  "cacheSizes \<Rightarrow> (key \<times> hcEnt) reorder \<Rightarrow> (gostring \<Rightarrow> gostring) \<Rightarrow> reads \<Rightarrow> pTriple list \<Rightarrow> hashCache option
    \<Rightarrow> pHashed list \<times> hashCache option" where
  "full_pass z ord b3 rd [] hc = ([], hc)"
| "full_pass z ord b3 rd (t # ts) hc =
     (case rd_full rd (fst t) of
        None \<Rightarrow> full_pass z ord b3 rd ts hc
      | Some h \<Rightarrow>
          (let hc1 = snd (record_hash z ord b3 hc (f_path (fst t)) (f_size (fst t)) (unix_of (f_mod (fst t)))
                              (snd (snd t)) h);
               (done, hc2) = full_pass z ord b3 rd ts hc1
           in (with_hash t h # done, hc2)))"

subsection \<open>The groups\<close>

definition hash_key :: "pHashed \<Rightarrow> gostring" where
  "hash_key q = fst (snd q) @ CHR 0x00 # snd (snd (snd q))"

text \<open>\<open>key[strings.LastIndex(key, "\x00")+1:]\<close>\<close>

definition after_nul :: "gostring \<Rightarrow> gostring" where
  "after_nul key = rev (takeWhile (\<lambda>c. c \<noteq> CHR 0x00) (rev key))"

definition bucket_pfx :: "pHashed list \<Rightarrow> gostring" where
  "bucket_pfx qs =
     (case List.find (\<lambda>q. length (fst (snd (snd q))) \<ge> 32) qs of
        None \<Rightarrow> []
      | Some q \<Rightarrow> take 32 (fst (snd (snd q))))"

definition bucket_group :: "nat \<Rightarrow> pHashed list \<Rightarrow> gostring \<Rightarrow> rawGroup option" where
  "bucket_group cap hashed key =
     (let bucket = filter (\<lambda>q. hash_key q = key) hashed; g = map fst bucket in
      if length g < 2 then None
      else
        (let sorted = sort_key f_path g in
         Some \<lparr>g_size = f_size (sorted ! 0), g_hash = after_nul key, g_pfx = bucket_pfx bucket,
               g_files = (if length sorted > cap then take cap sorted else sorted),
               g_extra = (if length sorted > cap then length sorted - cap else 0)\<rparr>))"

definition window_hashed ::
  "cacheSizes \<Rightarrow> orders \<Rightarrow> (gostring \<Rightarrow> gostring) \<Rightarrow> fmt \<Rightarrow> MatchOpts \<Rightarrow> reads \<Rightarrow> fEnt list \<Rightarrow> hashCache option
    \<Rightarrow> pHashed list \<times> hashCache option" where
  "window_hashed z o' b3 fm m rd files hc =
     (let ts = or_group o' (colliding (or_prefix o' (prefix_pass rd (pending fm m files))));
          (done, hc') = full_pass z (or_store o') b3 rd (or_full o' (misses b3 hc ts)) hc
      in (hits b3 hc ts @ done, hc'))"

definition window_groups :: "nat \<Rightarrow> orders \<Rightarrow> pHashed list \<Rightarrow> rawGroup list" where
  "window_groups cap o' hashed =
     List.map_filter (bucket_group cap hashed) (or_bucket o' (remdups (map hash_key hashed)))"

definition dupWindow ::
  "nat \<Rightarrow> cacheSizes \<Rightarrow> orders \<Rightarrow> (gostring \<Rightarrow> gostring) \<Rightarrow> fmt \<Rightarrow> MatchOpts \<Rightarrow> reads \<Rightarrow> fEnt list
    \<Rightarrow> hashCache option \<Rightarrow> groupTop \<Rightarrow> groupTop \<times> hashCache option" where
  "dupWindow cap z o' b3 fm m rd files hc acc =
     (let (hashed, hc') = window_hashed z o' b3 fm m rd files hc in
      (fold group_add (window_groups cap o' hashed) acc, hc'))"

definition scanDuplicates ::
  "nat \<Rightarrow> cacheSizes \<Rightarrow> orders \<Rightarrow> (gostring \<Rightarrow> gostring) \<Rightarrow> fmt \<Rightarrow> (fEnt \<Rightarrow> string) \<Rightarrow> MatchOpts \<Rightarrow> reads
    \<Rightarrow> fEnt list \<Rightarrow> hashCache option \<Rightarrow> nat \<Rightarrow> (Group list \<times> TruncInfo option) \<times> nat" where
  "scanDuplicates cap z o' b3 fm captured m rd files hc nextID =
     group_final fm captured (fst (dupWindow cap z o' b3 fm m rd files hc (newGroupTop cap))) cap nextID"

definition prefixTag :: "gostring \<Rightarrow> key" where
  "prefixTag pfxHex = fnv64a pfxHex"

subsection \<open>What is hashed\<close>

text \<open>The content hash a window uses for an entry with the given prefix hash.\<close>

definition content :: "(gostring \<Rightarrow> gostring) \<Rightarrow> reads \<Rightarrow> hashCache option \<Rightarrow> fEnt \<Rightarrow> gostring \<Rightarrow> gostring option" where
  "content b3 rd hc f p =
     (case lookup b3 hc (f_path f) (f_size f) (unix_of (f_mod f)) p of None \<Rightarrow> rd_full rd f | Some h \<Rightarrow> Some h)"

text \<open>A file of the class of a key and a content.\<close>

definition in_class ::
  "(gostring \<Rightarrow> gostring) \<Rightarrow> fmt \<Rightarrow> MatchOpts \<Rightarrow> reads \<Rightarrow> hashCache option \<Rightarrow> gostring \<Rightarrow> gostring \<Rightarrow> fEnt \<Rightarrow> bool" where
  "in_class b3 fm m rd hc K H f \<longleftrightarrow> \<not> skipped_ent f \<and> candKey fm m f = K
     \<and> (\<exists>p. rd_pfx rd f = Some p \<and> content b3 rd hc f p = Some H)"

lemma candKey_nonempty: "candKey fm m f \<noteq> []"
  by (simp add: candKey_def itoa_def)

lemma full_pass_done:
  "fst (full_pass z ord b3 rd ts hc) = List.map_filter (\<lambda>t. map_option (with_hash t) (rd_full rd (fst t))) ts"
  by (induction ts arbitrary: hc) (simp_all add: map_filter_simps case_prod_beta Let_def split: option.split)

lemma mset_map_filter:
  assumes "mset xs = mset ys"
  shows "mset (List.map_filter f xs) = mset (List.map_filter f ys)"
proof -
  have "mset (filter P xs) = mset (filter P ys)" for P using assms by simp
  then show ?thesis unfolding List.map_filter_def mset_map by metis
qed

text \<open>The prefix triples in the order of the window, and the hashed entries up to order.\<close>

definition triples :: "fmt \<Rightarrow> MatchOpts \<Rightarrow> reads \<Rightarrow> fEnt list \<Rightarrow> pTriple list" where
  "triples fm m rd files = prefix_pass rd (pending fm m files)"

definition hashed_files :: "(gostring \<Rightarrow> gostring) \<Rightarrow> reads \<Rightarrow> hashCache option \<Rightarrow> pTriple list \<Rightarrow> pHashed list" where
  "hashed_files b3 rd hc ts =
     List.map_filter (\<lambda>t. map_option (with_hash t) (content b3 rd hc (fst t) (snd (snd t)))) (colliding ts)"

lemma mset_colliding: "mset ts = mset us \<Longrightarrow> mset (colliding ts) = mset (colliding us)"
proof -
  assume m: "mset ts = mset us"
  then have "length (filter P ts) = length (filter P us)" for P by (metis mset_filter size_mset)
  then show ?thesis using m by (simp add: colliding_def)
qed

lemma hits_and_misses:
  "mset (hits b3 hc ts) + mset (List.map_filter (\<lambda>t. map_option (with_hash t) (rd_full rd (fst t))) (misses b3 hc ts))
   = mset (List.map_filter (\<lambda>t. map_option (with_hash t) (content b3 rd hc (fst t) (snd (snd t)))) ts)"
  by (induction ts)
    (auto simp: hits_def misses_def map_filter_simps content_def stored_hash_def split: option.split)

definition fair :: "orders \<Rightarrow> bool" where
  "fair o' \<longleftrightarrow> reorders (or_prefix o') \<and> reorders (or_group o') \<and> reorders (or_full o') \<and> reorders (or_bucket o')"

lemma mset_window_hashed:
  assumes "fair o'"
  shows "mset (fst (window_hashed z o' b3 fm m rd files hc)) = mset (hashed_files b3 rd hc (triples fm m rd files))"
proof -
  let ?ts = "or_group o' (colliding (or_prefix o' (triples fm m rd files)))"
  have r: "mset (or_prefix o' xs) = mset xs" "mset (or_group o' xs) = mset xs" "mset (or_full o' xs) = mset xs" for xs
    using assms by (simp_all add: fair_def reorders_def)
  have full: "mset (List.map_filter f (or_full o' us)) = mset (List.map_filter f us)" for f :: "pTriple \<Rightarrow> pHashed option" and us
    by (rule mset_map_filter) (rule r(3))
  have "fst (window_hashed z o' b3 fm m rd files hc) = hits b3 hc ?ts
      @ List.map_filter (\<lambda>t. map_option (with_hash t) (rd_full rd (fst t))) (or_full o' (misses b3 hc ?ts))"
    unfolding window_hashed_def Let_def case_prod_beta fst_conv full_pass_done triples_def ..
  then have "mset (fst (window_hashed z o' b3 fm m rd files hc)) = mset (hits b3 hc ?ts)
      + mset (List.map_filter (\<lambda>t. map_option (with_hash t) (rd_full rd (fst t))) (misses b3 hc ?ts))"
    by (simp only: mset_append full)
  also have "\<dots> = mset (List.map_filter (\<lambda>t. map_option (with_hash t) (content b3 rd hc (fst t) (snd (snd t)))) ?ts)"
    by (rule hits_and_misses)
  also have "\<dots> = mset (hashed_files b3 rd hc (triples fm m rd files))"
    unfolding hashed_files_def by (rule mset_map_filter) (rule trans [OF r(2) mset_colliding [OF r(1)]])
  finally show ?thesis .
qed

subsection \<open>Buckets are classes\<close>

lemma count_list_length: "count_list xs k = length (filter (\<lambda>x. x = k) xs)"
  by (induction xs) auto

text \<open>The entries that reach the second pass, in the order of the files.\<close>

definition key_count :: "fmt \<Rightarrow> MatchOpts \<Rightarrow> fEnt list \<Rightarrow> gostring \<Rightarrow> nat" where
  "key_count fm m files k = length (filter (\<lambda>f. \<not> skipped_ent f \<and> candKey fm m f = k) files)"

lemma pending_eq:
  "pending fm m files = map (\<lambda>f. (f, candKey fm m f))
     (filter (\<lambda>f. \<not> skipped_ent f \<and> key_count fm m files (candKey fm m f) \<ge> 2) files)"
proof -
  let ?key = "\<lambda>f. if skipped_ent f then [] else candKey fm m f"
  have c: "count_list (map ?key files) k = key_count fm m files k" if "k \<noteq> []" for k
    using that by (induction files) (auto simp: key_count_def)
  have "pending fm m files = map (\<lambda>f. (f, ?key f)) (filter (\<lambda>f. ?key f \<noteq> [] \<and> count_list (map ?key files) (?key f) \<ge> 2) files)"
    by (simp add: pending_def Let_def filter_map o_def)
  also have "\<dots> = map (\<lambda>f. (f, ?key f)) (filter (\<lambda>f. \<not> skipped_ent f \<and> key_count fm m files (candKey fm m f) \<ge> 2) files)"
    using c candKey_nonempty by (auto intro!: arg_cong [of _ _ "map _"] filter_cong)
  finally show ?thesis by (auto intro!: map_cong)
qed

definition pair_count :: "fmt \<Rightarrow> MatchOpts \<Rightarrow> reads \<Rightarrow> fEnt list \<Rightarrow> gostring \<Rightarrow> gostring \<Rightarrow> nat" where
  "pair_count fm m rd files k p = length (filter (\<lambda>u. snd u = (k, p)) (triples fm m rd files))"

lemma triples_files:
  "map fst (filter (\<lambda>u. snd u = (k, p)) (triples fm m rd files))
   = filter (\<lambda>f. \<not> skipped_ent f \<and> candKey fm m f = k \<and> key_count fm m files k \<ge> 2 \<and> rd_pfx rd f = Some p) files"
proof -
  have "map fst (filter (\<lambda>u. snd u = (k, p)) (List.map_filter (\<lambda>(f, k). map_option (\<lambda>p. (f, k, p)) (rd_pfx rd f))
       (map (\<lambda>f. (f, candKey fm m f)) (filter (\<lambda>f. \<not> skipped_ent f \<and> n (candKey fm m f)) fs))))
     = filter (\<lambda>f. \<not> skipped_ent f \<and> candKey fm m f = k \<and> n k \<and> rd_pfx rd f = Some p) fs" for n fs
    by (induction fs) (auto simp: map_filter_simps split: option.split)
  then show ?thesis unfolding triples_def prefix_pass_def pending_eq .
qed

text \<open>The bucket of a key and a content, in the order of the files.\<close>

lemma bucket_files:
  "map fst (filter (\<lambda>q. fst (snd q) = K \<and> snd (snd (snd q)) = H) (hashed_files b3 rd hc (triples fm m rd files)))
   = filter (\<lambda>f. \<not> skipped_ent f \<and> candKey fm m f = K \<and> key_count fm m files K \<ge> 2
       \<and> (\<exists>p. rd_pfx rd f = Some p \<and> pair_count fm m rd files K p \<ge> 2 \<and> content b3 rd hc f p = Some H)) files"
proof -
  have "map fst (filter (\<lambda>q. fst (snd q) = K \<and> snd (snd (snd q)) = H)
       (List.map_filter (\<lambda>t. map_option (with_hash t) (content b3 rd hc (fst t) (snd (snd t))))
         (filter (\<lambda>t. c (snd t)) (List.map_filter (\<lambda>(f, k). map_option (\<lambda>p. (f, k, p)) (rd_pfx rd f))
           (map (\<lambda>f. (f, candKey fm m f)) (filter (\<lambda>f. \<not> skipped_ent f \<and> n (candKey fm m f)) fs))))))
     = filter (\<lambda>f. \<not> skipped_ent f \<and> candKey fm m f = K \<and> n K
         \<and> (\<exists>p. rd_pfx rd f = Some p \<and> c (K, p) \<and> content b3 rd hc f p = Some H)) fs" for n c fs
    by (induction fs) (auto simp: map_filter_simps with_hash_def split: option.split)
  from this [of "\<lambda>kp. length (filter (\<lambda>u. snd u = kp) (triples fm m rd files)) \<ge> 2" "\<lambda>k. key_count fm m files k \<ge> 2" files]
  show ?thesis
    unfolding hashed_files_def colliding_def pair_count_def
    by (simp add: triples_def prefix_pass_def pending_eq)
qed

definition class_of ::
  "(gostring \<Rightarrow> gostring) \<Rightarrow> fmt \<Rightarrow> MatchOpts \<Rightarrow> reads \<Rightarrow> hashCache option \<Rightarrow> fEnt list \<Rightarrow> gostring \<Rightarrow> gostring \<Rightarrow> fEnt list" where
  "class_of b3 fm m rd hc files K H = filter (in_class b3 fm m rd hc K H) files"

text \<open>What the hashes of the files read have in common: equal contents have equal beginnings, and a hash is
  hexadecimal text.\<close>

definition honest_hashes :: "(gostring \<Rightarrow> gostring) \<Rightarrow> reads \<Rightarrow> hashCache option \<Rightarrow> fEnt list \<Rightarrow> bool" where
  "honest_hashes b3 rd hc files \<longleftrightarrow>
     (\<forall>f \<in> set files. \<forall>p h. rd_pfx rd f = Some p \<and> content b3 rd hc f p = Some h \<longrightarrow> CHR 0x00 \<notin> set h
        \<and> (\<forall>g \<in> set files. \<forall>q. rd_pfx rd g = Some q \<and> content b3 rd hc g q = Some h \<longrightarrow> p = q))"

definition bucket_list ::
  "(gostring \<Rightarrow> gostring) \<Rightarrow> fmt \<Rightarrow> MatchOpts \<Rightarrow> reads \<Rightarrow> hashCache option \<Rightarrow> fEnt list \<Rightarrow> gostring \<Rightarrow> gostring \<Rightarrow> fEnt list" where
  "bucket_list b3 fm m rd hc files K H =
     map fst (filter (\<lambda>q. fst (snd q) = K \<and> snd (snd (snd q)) = H) (hashed_files b3 rd hc (triples fm m rd files)))"

lemma length_filter_imp: "(\<And>x. x \<in> set xs \<Longrightarrow> P x \<Longrightarrow> Q x) \<Longrightarrow> length (filter P xs) \<le> length (filter Q xs)"
  by (induction xs) (auto intro: le_SucI)

lemma bucket_in_class: "f \<in> set (bucket_list b3 fm m rd hc files K H) \<Longrightarrow> in_class b3 fm m rd hc K H f"
  unfolding bucket_list_def bucket_files by (auto simp: in_class_def)

lemma bucket_le_class: "length (bucket_list b3 fm m rd hc files K H) \<le> length (class_of b3 fm m rd hc files K H)"
  unfolding bucket_list_def bucket_files class_of_def by (rule length_filter_imp) (auto simp: in_class_def)

lemma honest_hashesD:
  assumes "honest_hashes b3 rd hc files" "f \<in> set files" "rd_pfx rd f = Some p" "content b3 rd hc f p = Some h"
  shows "CHR 0x00 \<notin> set h"
    "g \<in> set files \<Longrightarrow> rd_pfx rd g = Some q \<Longrightarrow> content b3 rd hc g q = Some h \<Longrightarrow> p = q"
  using assms(1) [unfolded honest_hashes_def, rule_format, OF assms(2) conjI [OF assms(3,4)]] by simp_all

lemma same_prefix:
  assumes "honest_hashes b3 rd hc files" "f \<in> set files \<and> in_class b3 fm m rd hc K H f" "rd_pfx rd f = Some p"
    and "g \<in> set files \<and> in_class b3 fm m rd hc K H g"
  shows "rd_pfx rd g = Some p"
proof -
  obtain q where "rd_pfx rd g = Some q" "content b3 rd hc g q = Some H" using assms(4) by (auto simp: in_class_def)
  moreover have "content b3 rd hc f p = Some H" using assms(2,3) by (auto simp: in_class_def)
  ultimately show ?thesis using honest_hashesD(2) [OF assms(1) _ assms(3), of H g q] assms(2,4) by auto
qed

lemma class_is_bucket:
  assumes "honest_hashes b3 rd hc files" "2 \<le> length (class_of b3 fm m rd hc files K H)"
  shows "bucket_list b3 fm m rd hc files K H = class_of b3 fm m rd hc files K H"
proof -
  let ?C = "class_of b3 fm m rd hc files K H"
  have "length ?C \<le> key_count fm m files K"
    unfolding key_count_def class_of_def by (rule length_filter_imp) (auto simp: in_class_def)
  then have keys: "2 \<le> key_count fm m files K" using assms(2) by simp
  have pairs: "2 \<le> pair_count fm m rd files K p" if f: "f \<in> set ?C" "rd_pfx rd f = Some p" for f p
  proof -
    have fc: "f \<in> set files \<and> in_class b3 fm m rd hc K H f" using f(1) by (simp add: class_of_def)
    have "rd_pfx rd g = Some p" if g: "g \<in> set ?C" for g
      by (rule same_prefix [OF assms(1) fc f(2)]) (use g in \<open>simp add: class_of_def\<close>)
    then have "length ?C \<le> length (filter (\<lambda>f. \<not> skipped_ent f \<and> candKey fm m f = K \<and> key_count fm m files K \<ge> 2
        \<and> rd_pfx rd f = Some p) files)"
      unfolding class_of_def by (intro length_filter_imp) (use keys in \<open>auto simp: in_class_def\<close>)
    also have "\<dots> = pair_count fm m rd files K p"
      unfolding pair_count_def triples_files [symmetric] by simp
    finally show ?thesis using assms(2) by simp
  qed
  show ?thesis unfolding bucket_list_def bucket_files class_of_def
  proof (rule filter_cong [OF refl])
    fix f assume f: "f \<in> set files"
    have "2 \<le> pair_count fm m rd files K p" if "in_class b3 fm m rd hc K H f" "rd_pfx rd f = Some p" for p
      using pairs f that by (simp add: class_of_def)
    then show "(\<not> skipped_ent f \<and> candKey fm m f = K \<and> key_count fm m files K \<ge> 2
        \<and> (\<exists>p. rd_pfx rd f = Some p \<and> pair_count fm m rd files K p \<ge> 2 \<and> content b3 rd hc f p = Some H))
      = in_class b3 fm m rd hc K H f"
      using keys by (auto simp: in_class_def)
  qed
qed

lemma hashed_mem:
  assumes "q \<in> set (hashed_files b3 rd hc (triples fm m rd files))"
  shows "fst q \<in> set files" "rd_pfx rd (fst q) = Some (fst (snd (snd q)))"
    "content b3 rd hc (fst q) (fst (snd (snd q))) = Some (snd (snd (snd q)))"
  using assms
  by (auto simp: hashed_files_def colliding_def triples_def prefix_pass_def pending_eq List.map_filter_def with_hash_def)

lemma after_nul_key: "CHR 0x00 \<notin> set h \<Longrightarrow> after_nul (k @ CHR 0x00 # h) = h"
proof -
  assume "CHR 0x00 \<notin> set h"
  then have "takeWhile (\<lambda>c. c \<noteq> CHR 0x00) (rev h @ CHR 0x00 # rev k) = rev h"
    by (subst takeWhile_append2) auto
  then show ?thesis by (simp add: after_nul_def)
qed

lemma hash_key_inject:
  assumes "CHR 0x00 \<notin> set h" "CHR 0x00 \<notin> set h'"
  shows "k @ CHR 0x00 # h = k' @ CHR 0x00 # h' \<longleftrightarrow> k = k' \<and> h = h'"
  using after_nul_key [OF assms(1), of k] after_nul_key [OF assms(2), of k'] by auto

lemma sort_path_unique:
  assumes "distinct (map f_path ys)" "mset xs = mset ys"
  shows "sort_key f_path xs = sort_key f_path ys"
proof (rule sort_key_inj_key_eq)
  show "mset xs = mset (sort_key f_path ys)" using assms(2) by simp
  show "inj_on f_path (set xs)" using assms mset_eq_setD [OF assms(2)] by (simp add: distinct_map)
qed simp

lemma distinct_map_filter_paths: "distinct (map f_path files) \<Longrightarrow> distinct (map f_path (filter P files))"
  by (rule distinct_map_filter)

text \<open>What a bucket of the window becomes.\<close>

lemma bucket_group_class:
  assumes h: "honest_hashes b3 rd hc files" and d: "distinct (map f_path files)"
    and ms: "mset hashed = mset (hashed_files b3 rd hc (triples fm m rd files))"
    and q: "q \<in> set hashed" "fst (snd q) = K" "snd (snd (snd q)) = H"
  defines "B \<equiv> bucket_list b3 fm m rd hc files K H"
  shows "(bucket_group cap hashed (hash_key q) = None) = (length B < 2)"
    "bucket_group cap hashed (hash_key q) = Some g \<Longrightarrow>
       g_hash g = H \<and> g_files g = take cap (sort_key f_path B) \<and> g_extra g = length B - cap"
proof -
  have set_eq: "set hashed = set (hashed_files b3 rd hc (triples fm m rd files))" using ms by (rule mset_eq_setD)
  have nul: "CHR 0x00 \<notin> set (snd (snd (snd u)))" if u: "u \<in> set hashed" for u
    by (rule honest_hashesD(1) [OF h hashed_mem [OF u [unfolded set_eq]]])
  have key: "hash_key u = hash_key q \<longleftrightarrow> fst (snd u) = K \<and> snd (snd (snd u)) = H" if "u \<in> set hashed" for u
    using hash_key_inject [OF nul [OF that] nul [OF q(1)]] q(2,3) by (simp add: hash_key_def)
  let ?g = "map fst (filter (\<lambda>u. hash_key u = hash_key q) hashed)"
  have "filter (\<lambda>u. hash_key u = hash_key q) hashed = filter (\<lambda>u. fst (snd u) = K \<and> snd (snd (snd u)) = H) hashed"
    using key by (rule filter_cong [OF refl])
  then have mg: "mset ?g = mset B" unfolding B_def bucket_list_def by (simp add: ms)
  then have len: "length ?g = length B" by (rule mset_eq_length)
  have "distinct (map f_path B)" unfolding B_def bucket_list_def bucket_files by (rule distinct_map_filter_paths [OF d])
  from sort_path_unique [OF this mg] have srt: "sort_key f_path ?g = sort_key f_path B" .
  have "after_nul (hash_key q) = H" using after_nul_key nul [OF q(1)] q(3) by (simp add: hash_key_def)
  then show "(bucket_group cap hashed (hash_key q) = None) = (length B < 2)"
    "bucket_group cap hashed (hash_key q) = Some g \<Longrightarrow>
       g_hash g = H \<and> g_files g = take cap (sort_key f_path B) \<and> g_extra g = length B - cap"
    unfolding bucket_group_def Let_def srt len by (auto split: if_splits)
qed

lemma distinct_map_filter_inj:
  assumes "distinct xs" "\<And>x y a b. x \<in> set xs \<Longrightarrow> y \<in> set xs \<Longrightarrow> f x = Some a \<Longrightarrow> f y = Some b \<Longrightarrow> h a = h b \<Longrightarrow> x = y"
  shows "distinct (map h (List.map_filter f xs))"
  using assms
proof (induction xs)
  case (Cons x xs)
  then have IH: "distinct (map h (List.map_filter f xs))" by simp
  show ?case
  proof (cases "f x")
    case (Some a)
    have "h a \<noteq> h b" if "y \<in> set xs" "f y = Some b" for y b
      using Cons.prems Some that by (metis distinct.simps(2) list.set_intros)
    then have "h a \<notin> set (map h (List.map_filter f xs))" by (force simp: List.map_filter_def)
    then show ?thesis using IH Some by (simp add: map_filter_simps)
  qed (simp add: map_filter_simps IH)
qed (simp add: map_filter_simps)

text \<open>What the buckets of a window become.\<close>

definition is_group_of :: "nat \<Rightarrow> gostring \<Rightarrow> fEnt list \<Rightarrow> rawGroup \<Rightarrow> bool" where
  "is_group_of cap H C g \<longleftrightarrow> g_hash g = H \<and> g_files g = take cap (sort_key f_path C) \<and> g_extra g = length C - cap"

lemma group_sub: "is_group_of cap H C g \<Longrightarrow> set (g_files g) \<subseteq> set C"
  by (simp add: is_group_of_def take_sort_key(2))

lemma window_bucket:
  assumes "honest_hashes b3 rd hc files" "distinct (map f_path files)" "fair o'"
    and q: "q \<in> set (fst (window_hashed z o' b3 fm m rd files hc))"
  defines "C \<equiv> class_of b3 fm m rd hc files (fst (snd q)) (snd (snd (snd q)))"
  shows "length C < 2 \<Longrightarrow> bucket_group cap (fst (window_hashed z o' b3 fm m rd files hc)) (hash_key q) = None"
    "2 \<le> length C \<Longrightarrow> \<exists>g. bucket_group cap (fst (window_hashed z o' b3 fm m rd files hc)) (hash_key q) = Some g
       \<and> is_group_of cap (snd (snd (snd q))) C g"
proof -
  note B = bucket_group_class [OF assms(1,2) mset_window_hashed [OF assms(3)] q refl refl, where cap = cap]
  show "bucket_group cap (fst (window_hashed z o' b3 fm m rd files hc)) (hash_key q) = None" if "length C < 2"
  proof -
    have "length (bucket_list b3 fm m rd hc files (fst (snd q)) (snd (snd (snd q)))) < 2"
      using bucket_le_class that unfolding C_def by (rule order_le_less_trans)
    then show ?thesis by (simp only: B(1))
  qed
  show "\<exists>g. bucket_group cap (fst (window_hashed z o' b3 fm m rd files hc)) (hash_key q) = Some g
       \<and> is_group_of cap (snd (snd (snd q))) C g" if "2 \<le> length C"
  proof -
    have eq: "bucket_list b3 fm m rd hc files (fst (snd q)) (snd (snd (snd q))) = C"
      using class_is_bucket [OF assms(1)] that unfolding C_def by blast
    then have "bucket_group cap (fst (window_hashed z o' b3 fm m rd files hc)) (hash_key q) \<noteq> None"
      unfolding B(1) using that by simp
    then obtain g where "bucket_group cap (fst (window_hashed z o' b3 fm m rd files hc)) (hash_key q) = Some g" by blast
    then show ?thesis using B(2) eq unfolding is_group_of_def by blast
  qed
qed

text \<open>A class with two members has a bucket.\<close>

lemma class_key:
  assumes "honest_hashes b3 rd hc files" "fair o'" "2 \<le> length (class_of b3 fm m rd hc files K H)"
  obtains q where "q \<in> set (fst (window_hashed z o' b3 fm m rd files hc))" "fst (snd q) = K" "snd (snd (snd q)) = H"
proof -
  have "bucket_list b3 fm m rd hc files K H \<noteq> []" using class_is_bucket [OF assms(1,3)] assms(3) by auto
  then have "filter (\<lambda>q. fst (snd q) = K \<and> snd (snd (snd q)) = H) (hashed_files b3 rd hc (triples fm m rd files)) \<noteq> []"
    by (simp add: bucket_list_def)
  then obtain q where "q \<in> set (hashed_files b3 rd hc (triples fm m rd files))" "fst (snd q) = K" "snd (snd (snd q)) = H"
    by (auto simp: filter_empty_conv)
  then show thesis using that mset_eq_setD [OF mset_window_hashed [OF assms(2)]] by blast
qed

lemma window_groups_mem:
  fixes z :: cacheSizes and fm :: fmt and m :: MatchOpts
  assumes "honest_hashes b3 rd hc files" "distinct (map f_path files)" "fair o'"
  defines "h \<equiv> fst (window_hashed z o' b3 fm m rd files hc)"
  shows "g \<in> set (window_groups cap o' h) \<longleftrightarrow> (\<exists>q \<in> set h. bucket_group cap h (hash_key q) = Some g)"
    "set (or_bucket o' (remdups (map hash_key h))) = hash_key ` set h" "distinct (or_bucket o' (remdups (map hash_key h)))"
    "q \<in> set h \<Longrightarrow> bucket_group cap h (hash_key q) = Some g \<Longrightarrow>
       2 \<le> length (class_of b3 fm m rd hc files (fst (snd q)) (snd (snd (snd q))))
       \<and> is_group_of cap (snd (snd (snd q))) (class_of b3 fm m rd hc files (fst (snd q)) (snd (snd (snd q)))) g"
proof -
  have ord: "mset (or_bucket o' xs) = mset xs" for xs using assms(3) by (simp add: fair_def reorders_def)
  show keys: "set (or_bucket o' (remdups (map hash_key h))) = hash_key ` set h"
    using mset_eq_setD [OF ord] by simp
  show "distinct (or_bucket o' (remdups (map hash_key h)))"
    using mset_eq_imp_distinct_iff [OF ord] by simp
  show "g \<in> set (window_groups cap o' h) \<longleftrightarrow> (\<exists>q \<in> set h. bucket_group cap h (hash_key q) = Some g)"
    unfolding window_groups_def using keys by (auto simp: List.map_filter_def image_iff)
  show "q \<in> set h \<Longrightarrow> bucket_group cap h (hash_key q) = Some g \<Longrightarrow>
       2 \<le> length (class_of b3 fm m rd hc files (fst (snd q)) (snd (snd (snd q))))
       \<and> is_group_of cap (snd (snd (snd q))) (class_of b3 fm m rd hc files (fst (snd q)) (snd (snd (snd q)))) g"
    unfolding h_def using window_bucket [OF assms(1-3), where z = z and fm = fm and m = m and cap = cap]
    by (metis leI option.distinct(1) option.inject)
qed

lemma window_groups_distinct:
  assumes "honest_hashes b3 rd hc files" "distinct (map f_path files)" "fair o'" "0 < cap"
  shows "distinct (map (\<lambda>g. (g_hash g, g_files g)) (window_groups cap o' (fst (window_hashed z o' b3 fm m rd files hc))))"
  unfolding window_groups_def
proof (rule distinct_map_filter_inj)
  let ?h = "fst (window_hashed z o' b3 fm m rd files hc)"
  let ?C = "\<lambda>q :: pHashed. class_of b3 fm m rd hc files (fst (snd q)) (snd (snd (snd q)))"
  note M = window_groups_mem [OF assms(1-3), where z = z and fm = fm and m = m]
  show "distinct (or_bucket o' (remdups (map hash_key ?h)))" by (rule M(3))
  fix x y a b
  assume xy: "x \<in> set (or_bucket o' (remdups (map hash_key ?h)))" "y \<in> set (or_bucket o' (remdups (map hash_key ?h)))"
    "bucket_group cap ?h x = Some a" "bucket_group cap ?h y = Some b" "(g_hash a, g_files a) = (g_hash b, g_files b)"
  then obtain q u where q: "q \<in> set ?h" "x = hash_key q" "u \<in> set ?h" "y = hash_key u" unfolding M(2) by blast
  then have ga: "is_group_of cap (snd (snd (snd q))) (?C q) a" "2 \<le> length (?C q)"
    "is_group_of cap (snd (snd (snd u))) (?C u) b" "2 \<le> length (?C u)"
    using M(4) xy(3,4) by blast+
  then have "?C q \<noteq> []" by auto
  then have "length (g_files a) > 0" using assms(4) ga(1) by (simp add: is_group_of_def)
  then have "g_files a \<noteq> []" by simp
  then have "hd (g_files a) \<in> set (g_files a)" by simp
  moreover have "set (g_files a) \<subseteq> set (?C q)" "set (g_files b) \<subseteq> set (?C u)" "g_files a = g_files b"
    using group_sub [OF ga(1)] group_sub [OF ga(3)] xy(5) by simp_all
  ultimately have "hd (g_files a) \<in> set (?C q) \<inter> set (?C u)" by auto
  then have "fst (snd q) = fst (snd u)" by (auto simp: class_of_def in_class_def)
  then show "x = y" using ga xy(5) q by (simp add: hash_key_def is_group_of_def)
qed

lemma window_groups_classes:
  assumes "honest_hashes b3 rd hc files" "distinct (map f_path files)" "fair o'" "0 < cap"
  shows "(\<lambda>g. (g_hash g, g_files g, g_extra g)) ` set (window_groups cap o' (fst (window_hashed z o' b3 fm m rd files hc)))
      = {(H, take cap (sort_key f_path (class_of b3 fm m rd hc files K H)), length (class_of b3 fm m rd hc files K H) - cap) |K H.
          2 \<le> length (class_of b3 fm m rd hc files K H)}
    \<and> distinct (map (\<lambda>g. (g_hash g, g_files g)) (window_groups cap o' (fst (window_hashed z o' b3 fm m rd files hc))))"
proof (intro conjI set_eqI iffI)
  let ?h = "fst (window_hashed z o' b3 fm m rd files hc)"
  note M = window_groups_mem [OF assms(1-3), where z = z and fm = fm and m = m]
  fix x assume "x \<in> (\<lambda>g. (g_hash g, g_files g, g_extra g)) ` set (window_groups cap o' ?h)"
  then obtain g q where "x = (g_hash g, g_files g, g_extra g)" "q \<in> set ?h" "bucket_group cap ?h (hash_key q) = Some g"
    using M(1) by auto
  then show "x \<in> {(H, take cap (sort_key f_path (class_of b3 fm m rd hc files K H)), length (class_of b3 fm m rd hc files K H) - cap) |K H.
        2 \<le> length (class_of b3 fm m rd hc files K H)}"
    using M(4) unfolding is_group_of_def by blast
next
  let ?h = "fst (window_hashed z o' b3 fm m rd files hc)"
  fix x assume "x \<in> {(H, take cap (sort_key f_path (class_of b3 fm m rd hc files K H)), length (class_of b3 fm m rd hc files K H) - cap) |K H.
        2 \<le> length (class_of b3 fm m rd hc files K H)}"
  then obtain K H where x: "x = (H, take cap (sort_key f_path (class_of b3 fm m rd hc files K H)), length (class_of b3 fm m rd hc files K H) - cap)"
    "2 \<le> length (class_of b3 fm m rd hc files K H)" by blast
  obtain q where q: "q \<in> set ?h" "fst (snd q) = K" "snd (snd (snd q)) = H" using class_key [OF assms(1,3) x(2)] .
  then obtain g where "bucket_group cap ?h (hash_key q) = Some g" "is_group_of cap H (class_of b3 fm m rd hc files K H) g"
    using window_bucket(2) [OF assms(1-3) q(1)] x(2) by blast
  then show "x \<in> (\<lambda>g. (g_hash g, g_files g, g_extra g)) ` set (window_groups cap o' ?h)"
    using window_groups_mem(1) [OF assms(1-3)] q(1) x(1) unfolding is_group_of_def image_iff by metis
qed (rule window_groups_distinct [OF assms])

text \<open>A window's groups are exactly the duplicates in it: whatever order the workers and the maps take, the
  groups handed on are one for each class of two or more files with equal key (size and the criteria asked for) and
  equal content, with all members in path order, cut at the per-group cap with the rest counted; and no class is
  handed on twice.\<close>

theorem window_groups_exact:
  assumes "honest_hashes b3 rd hc files" "distinct (map f_path files)" "fair o'" "0 < cap"
  shows "(\<lambda>g. (g_hash g, g_files g, g_extra g)) ` set (window_groups cap o' (fst (window_hashed z o' b3 fm m rd files hc)))
      = {(H, take cap (sort_key f_path (class_of b3 fm m rd hc files K H)), length (class_of b3 fm m rd hc files K H) - cap) |K H.
          2 \<le> length (class_of b3 fm m rd hc files K H)}
    \<and> distinct (map (\<lambda>g. (g_hash g, g_files g)) (window_groups cap o' (fst (window_hashed z o' b3 fm m rd files hc))))"
  using assms by (rule window_groups_classes)

subsection \<open>A small window\<close>

definition id_orders :: orders where
  "id_orders = \<lparr>or_prefix = rev, or_group = id, or_full = id, or_bucket = id, or_store = id\<rparr>"

definition ex_reads :: reads where
  "ex_reads = \<lparr>rd_pfx = (\<lambda>_. Some ''p''), rd_full = (\<lambda>f. Some (if f_name f = ''c'' then ''k'' else ''h''))\<rparr>"

definition ex_window :: "fEnt list" where
  "ex_window = [ex_entry ''b'' 4, ex_entry ''c'' 4, ex_entry ''a'' 4]"

theorem window_groups_exact_witness:
  "(''h'', [ex_entry ''a'' 4, ex_entry ''b'' 4], 0)
     \<in> (\<lambda>g. (g_hash g, g_files g, g_extra g))
        ` set (window_groups 9 id_orders (fst (window_hashed cacheDefaults id_orders id ex_fmt ex_match ex_reads ex_window None)))"
proof -
  have f: "fair id_orders" by (simp add: fair_def id_orders_def reorders_def)
  have d: "distinct (map f_path ex_window)" by code_simp
  have "honest_hashes id ex_reads None ex_window"
    by (auto simp: honest_hashes_def ex_reads_def content_def lookup_def)
  note W = window_groups_exact [OF this d f, of 9 cacheDefaults ex_fmt ex_match]
  have "class_of id ex_fmt ex_match ex_reads None ex_window (candKey ex_fmt ex_match (ex_entry ''a'' 4)) ''h''
      = [ex_entry ''b'' 4, ex_entry ''a'' 4]"
    by (simp add: class_of_def in_class_def ex_window_def ex_entry_def ex_reads_def content_def lookup_def skipped_ent_def
        candKey_def ex_match_def zero_fEnt_def)
  note cls = this
  have srt: "sort_key f_path [ex_entry ''b'' 4, ex_entry ''a'' 4] = [ex_entry ''a'' 4, ex_entry ''b'' 4]" by code_simp
  have "(''h'', [ex_entry ''a'' 4, ex_entry ''b'' 4], 0)
      \<in> {(H, take 9 (sort_key f_path (class_of id ex_fmt ex_match ex_reads None ex_window K H)),
            length (class_of id ex_fmt ex_match ex_reads None ex_window K H) - 9) |K H.
          2 \<le> length (class_of id ex_fmt ex_match ex_reads None ex_window K H)}"
    by (rule CollectI, rule exI [of _ "candKey ex_fmt ex_match (ex_entry ''a'' 4)"], rule exI [of _ "''h''"])
      (simp add: cls srt del: sort_key_simps)
  then show ?thesis using W by simp
qed

end
