(* ===== verification/Walk.thy ===== *)
theory Walk
  imports Entries SelfMount Paths
begin

text \<open>
  The walk of a scan (\<open>server/walk.go\<close>): what a tree on disk makes the accumulators see, as the
  sequence of calls they get.  A directory's listing is a list of nodes in name order; \<open>n_fail\<close> says that
  reading it ended in an error, after the nodes listed; \<open>None\<close> for an entry's information is an
  \<open>Info()\<close> that failed.  \<open>fs.WalkDir\<close> is written out.  Stopping the walk (the cancel channel) is not
  modelled: a stopped scan keeps nothing of its walk.  Then the roots a scan walks (\<open>scanRoots\<close>) and the
  tools it runs (\<open>toolList\<close>, \<open>openTool\<close>).
\<close>

subsection \<open>What is on disk\<close>

record winfo =
  w_size :: int
  w_blocks :: "int option"
  w_mtime :: time
  w_link :: fileLink

datatype node =
    NFile gostring "winfo option"
  | NDir gostring "winfo option" bool "node list"
  | NOther gostring

text \<open>\<open>scannable\<close> holds of the first two; \<open>NOther\<close> is a symbolic link, a pipe, a socket or a
  device.\<close>

fun node_name :: "node \<Rightarrow> gostring" where
  "node_name (NFile n i) = n"
| "node_name (NDir n i fl cs) = n"
| "node_name (NOther n) = n"

fun scannable :: "node \<Rightarrow> bool" where
  "scannable (NOther n) = False"
| "scannable nd = True"

text \<open>The calls: an entry, an unreadable location (\<open>noteUnreadable\<close>), a line of the error list.\<close>

datatype wcall =
    Visit nat fEnt
  | Unreadable path
  | WalkErr path

subsection \<open>One entry\<close>

definition walk_entry :: "nat \<Rightarrow> path \<Rightarrow> path \<Rightarrow> gostring \<Rightarrow> bool \<Rightarrow> winfo \<Rightarrow> fEnt" where
  "walk_entry idx p rel name isDir i =
     zero_fEnt\<lparr>f_path := p, f_name := name, f_dir := Dir p, f_size := w_size i,
       f_holes := w_size i - physOf (w_blocks i) (w_size i), f_mod := w_mtime i, f_isDir := isDir,
       f_rel := rel, f_rh := Some idx, f_link := w_link i\<rparr>"

definition walk_emit :: "nat \<Rightarrow> path \<Rightarrow> path \<Rightarrow> gostring \<Rightarrow> bool \<Rightarrow> winfo option \<Rightarrow> wcall list" where
  "walk_emit idx p rel name isDir info =
     (case info of None \<Rightarrow> [] | Some i \<Rightarrow> [Visit idx (walk_entry idx p rel name isDir i)])"

record walk_ctx =
  wc_idx :: nat
  wc_root :: path
  wc_canon :: path
  wc_withDirs :: bool
  wc_selfm :: "selfMount list"

text \<open>A path of the walk's file system under a name: \<open>path.Join\<close> of the directory's and the name.\<close>

definition rel_join :: "path \<Rightarrow> gostring \<Rightarrow> path" where
  "rel_join rel n = (if rel = [] then n else rel @ ''/'' @ n)"

text \<open>The callback of \<open>fs.WalkDir\<close> and its recursion, below the root.\<close>

fun walk_node :: "walk_ctx \<Rightarrow> path \<Rightarrow> node \<Rightarrow> wcall list" where
  "walk_node c rel (NOther n) = []"
| "walk_node c rel (NFile n info) =
     walk_emit (wc_idx c) (Join (wc_root c) (rel_join rel n)) (rel_join rel n) n False info"
| "walk_node c rel (NDir n info fl cs) =
     (let r = rel_join rel n; display = Join (wc_root c) r in
      if skipName n then []
      else if wc_selfm c \<noteq> [] \<and> mount_under (wc_selfm c) (Join (wc_canon c) r) \<noteq> None
      then [WalkErr display, Unreadable display]
      else (if wc_withDirs c then walk_emit (wc_idx c) display r n True info else [])
        @ (if fl then [WalkErr display, Unreadable display] else [])
        @ concat (map (walk_node c r) cs))"

text \<open>The root itself: listed, never visited.\<close>

definition walk_root_rec :: "walk_ctx \<Rightarrow> bool \<Rightarrow> node list \<Rightarrow> wcall list" where
  "walk_root_rec c fl cs =
     (if fl then [WalkErr (wc_root c), Unreadable (wc_root c)] else [])
     @ concat (map (walk_node c []) cs)"

text \<open>Without recursion only the root's direct entries are visited; a listing that fails is given up.\<close>

fun walk_flat_node :: "walk_ctx \<Rightarrow> node \<Rightarrow> wcall list" where
  "walk_flat_node c (NOther n) = []"
| "walk_flat_node c (NFile n info) = walk_emit (wc_idx c) (Join (wc_root c) n) n n False info"
| "walk_flat_node c (NDir n info fl cs) =
     (if mount_under (wc_selfm c) (Join (wc_canon c) n) \<noteq> None then [WalkErr (Join (wc_root c) n)]
      else if wc_withDirs c \<and> \<not> skipName n
      then walk_emit (wc_idx c) (Join (wc_root c) n) n n True info else [])"

definition walk_root_flat :: "walk_ctx \<Rightarrow> bool \<Rightarrow> node list \<Rightarrow> wcall list" where
  "walk_root_flat c fl cs =
     (if fl then [WalkErr (wc_root c), Unreadable (wc_root c)] else concat (map (walk_flat_node c) cs))"

subsection \<open>The walk\<close>

text \<open>A root as opening it finds it: no handle (\<open>None\<close>), or the handle's canonical path (if it has
  one) and the listing behind it.\<close>

type_synonym opened = "(path option \<times> bool \<times> node list) option"

record walk_env =
  we_open :: "path \<Rightarrow> opened"
  we_vols :: "path list"
  we_selfm :: "selfMount list"
  we_recurse :: bool
  we_withDirs :: bool

fun walk_roots :: "walk_env \<Rightarrow> nat \<Rightarrow> path list \<Rightarrow> wcall list \<times> path list" where
  "walk_roots env idx [] = ([], [])"
| "walk_roots env idx (root # roots) =
     (let refused = (let (cs, ro) = walk_roots env idx roots in (WalkErr root # Unreadable root # cs, ro)) in
      case we_open env root of
        None \<Rightarrow> refused
      | Some (None, _) \<Rightarrow> refused
      | Some (Some canon, fl, nodes) \<Rightarrow>
          if \<not> isUnder canon (we_vols env) \<or> mount_under (we_selfm env) canon \<noteq> None then refused
          else
            (let c = \<lparr>wc_idx = idx, wc_root = root, wc_canon = canon, wc_withDirs = we_withDirs env,
                      wc_selfm = we_selfm env\<rparr>;
                 calls = (if we_recurse env then walk_root_rec c fl nodes else walk_root_flat c fl nodes);
                 (cs, ro) = walk_roots env (Suc idx) roots
             in (calls @ cs, root # ro)))"

definition walkErrCap :: nat where
  "walkErrCap = 20000"

text \<open>The error list: the first ones, and how many more there were.\<close>

definition walk_errors :: "wcall list \<Rightarrow> path list \<times> nat" where
  "walk_errors calls =
     (let errs = List.map_filter (\<lambda>c. case c of WalkErr p \<Rightarrow> Some p | _ \<Rightarrow> None) calls in
      (take walkErrCap errs, length errs - walkErrCap))"

text \<open>The calls, the error list with its overflow, and the raw path of each handle.\<close>

definition walkStream :: "walk_env \<Rightarrow> path list \<Rightarrow> wcall list \<times> (path list \<times> nat) \<times> path list" where
  "walkStream env roots = (let (calls, ro) = walk_roots env 0 roots in (calls, walk_errors calls, ro))"

subsection \<open>The roots of a scan\<close>

definition root_covered :: "bool \<Rightarrow> path list \<Rightarrow> path \<Rightarrow> bool" where
  "root_covered recurse canons p \<longleftrightarrow>
     list_ex (\<lambda>kc. p = kc \<or> recurse \<and> HasPrefix p (kc @ ''/'')) canons"

fun keep_roots :: "bool \<Rightarrow> path list \<Rightarrow> (path \<times> path) list \<Rightarrow> RootMap list" where
  "keep_roots recurse canons [] = []"
| "keep_roots recurse canons ((raw, canon) # ws) =
     (if root_covered recurse canons canon then keep_roots recurse canons ws
      else \<lparr>Raw = raw, Canon = canon\<rparr> # keep_roots recurse (canons @ [canon]) ws)"

text \<open>Kept roots, and the roots refused; \<open>resolve\<close> is \<open>resolveAllowedRoot\<close>.  Among roots whose
  canonical paths are equally long \<open>sort.Slice\<close> may take any order; the request's is taken here.\<close>

definition scanRoots :: "(path \<Rightarrow> path option) \<Rightarrow> bool \<Rightarrow> path list \<Rightarrow> RootMap list \<times> path list" where
  "scanRoots resolve recurse roots =
     (let wroots = List.map_filter (\<lambda>r. map_option (\<lambda>c. (r, c)) (resolve r)) roots in
      (keep_roots recurse [] (sort_key (\<lambda>w. length (snd w)) wroots),
       filter (\<lambda>r. resolve r = None) roots))"

subsection \<open>The tools of a scan\<close>

record ScanReq =
  SR_Tool :: string
  SR_Tools :: "string list"
  SR_Dirs :: "path list"
  SR_RefDirs :: "path list"
  SR_Recurse :: bool
  SR_Match :: MatchOpts
  SR_Resume :: bool

definition scanOrder :: "string list" where
  "scanOrder = [''empty_folders'', ''empty_files'', ''temp_files'', ''duplicates'', ''corrupted_files'']"

definition validTools :: "string list" where
  "validTools = [''duplicates'', ''empty_folders'', ''empty_files'', ''temp_files'', ''corrupted_files'']"

datatype tool_err = UnknownTool string | NoTool

definition toolList :: "ScanReq \<Rightarrow> tool_err + string list" where
  "toolList r =
     (let asked = (if SR_Tools r = [] \<and> SR_Tool r \<noteq> [] then [SR_Tool r] else SR_Tools r) in
      case List.find (\<lambda>t. t \<notin> set validTools) asked of
        Some t \<Rightarrow> Inl (UnknownTool t)
      | None \<Rightarrow>
          (let out = filter (\<lambda>t. t \<in> set asked) scanOrder in
           if out = [] then Inl NoTool else Inr out))"

definition openTool :: "ScanReq \<Rightarrow> string list \<Rightarrow> string" where
  "openTool r tools =
     (if SR_Tool r \<in> set tools then SR_Tool r
      else case tools of [] \<Rightarrow> SR_Tool r | t # _ \<Rightarrow> t)"

subsection \<open>Lemmas\<close>

text \<open>No kept root covers another, and every root is covered by one that is kept.\<close>

definition covers_root :: "bool \<Rightarrow> path \<Rightarrow> path \<Rightarrow> bool" where
  "covers_root recurse k p \<longleftrightarrow> p = k \<or> recurse \<and> HasPrefix p (k @ ''/'')"

lemma root_covered_iff: "root_covered recurse canons p \<longleftrightarrow> (\<exists>k \<in> set canons. covers_root recurse k p)"
  by (auto simp: root_covered_def covers_root_def list_ex_iff)

lemma covers_root_length: "covers_root recurse k p \<Longrightarrow> length k \<le> length p"
  by (auto simp: covers_root_def HasPrefix_iff)

lemma covers_root_same: "covers_root recurse k p \<Longrightarrow> length p \<le> length k \<Longrightarrow> p = k"
  by (auto simp: covers_root_def HasPrefix_iff)

lemma keep_roots_cover:
  "\<forall>w \<in> set ws. \<exists>k \<in> set canons \<union> Canon ` set (keep_roots recurse canons ws). covers_root recurse k (snd w)"
proof (induction recurse canons ws rule: keep_roots.induct)
  case (2 recurse canons raw canon ws)
  then show ?case by (auto simp: root_covered_iff covers_root_def)
qed simp

lemma keep_roots_apart:
  assumes "sorted (map (\<lambda>w. length (snd w)) ws)" "\<forall>k \<in> set canons. \<forall>w \<in> set ws. length k \<le> length (snd w)"
  shows "sorted_wrt (\<lambda>a b. \<not> covers_root recurse (Canon a) (Canon b) \<and> length (Canon a) \<le> length (Canon b))
       (keep_roots recurse canons ws)
    \<and> (\<forall>r \<in> set (keep_roots recurse canons ws). \<not> root_covered recurse canons (Canon r))
    \<and> (\<forall>r \<in> set (keep_roots recurse canons ws). (Raw r, Canon r) \<in> set ws)"
  using assms
proof (induction recurse canons ws rule: keep_roots.induct)
  case (2 recurse canons raw canon ws)
  show ?case
  proof (cases "root_covered recurse canons canon")
    case True
    then show ?thesis using 2 by auto
  next
    case False
    have IH: "sorted_wrt (\<lambda>a b. \<not> covers_root recurse (Canon a) (Canon b) \<and> length (Canon a) \<le> length (Canon b))
         (keep_roots recurse (canons @ [canon]) ws)
      \<and> (\<forall>r \<in> set (keep_roots recurse (canons @ [canon]) ws). \<not> root_covered recurse (canons @ [canon]) (Canon r))
      \<and> (\<forall>r \<in> set (keep_roots recurse (canons @ [canon]) ws). (Raw r, Canon r) \<in> set ws)"
      using "2.IH"(2) [OF False] "2.prems" by auto
    moreover have "length canon \<le> length (Canon r)" if "r \<in> set (keep_roots recurse (canons @ [canon]) ws)" for r
      using IH that "2.prems"(1) by force
    ultimately show ?thesis using False by (auto simp: root_covered_iff)
  qed
qed simp

text \<open>The roots a scan walks never overlap and lose nothing: each is one of the requested roots with its
  canonical path, no kept root is the same as another or (when the scan recurses) inside another, and every
  requested root still inside the volumes is a kept one or inside one; the others are reported.\<close>

theorem scan_roots_disjoint:
  "(let (kept, refused) = scanRoots resolve recurse roots in
     (\<forall>r \<in> set kept. Raw r \<in> set roots \<and> resolve (Raw r) = Some (Canon r))
   \<and> (\<forall>i < length kept. \<forall>j < length kept. i \<noteq> j \<longrightarrow> \<not> covers_root recurse (Canon (kept ! i)) (Canon (kept ! j)))
   \<and> (\<forall>p \<in> set roots. case resolve p of
        None \<Rightarrow> p \<in> set refused
      | Some c \<Rightarrow> (\<exists>r \<in> set kept. covers_root recurse (Canon r) c)))"
proof -
  let ?ws = "sort_key (\<lambda>w. length (snd w)) (List.map_filter (\<lambda>r. map_option (\<lambda>c. (r, c)) (resolve r)) roots)"
  let ?kept = "keep_roots recurse [] ?ws"
  have S: "sorted (map (\<lambda>w. length (snd w)) ?ws)" by simp
  have ws: "w \<in> set ?ws \<longleftrightarrow> fst w \<in> set roots \<and> resolve (fst w) = Some (snd w)" for w
    by (cases w) (force simp: map_filter_def image_iff)
  note K = keep_roots_apart [OF S, of "[]" recurse]
  have apart: "sorted_wrt (\<lambda>a b. \<not> covers_root recurse (Canon a) (Canon b) \<and> length (Canon a) \<le> length (Canon b)) ?kept"
    using K by simp
  have "\<not> covers_root recurse (Canon (?kept ! i)) (Canon (?kept ! j))"
    if ij: "i < length ?kept" "j < length ?kept" "i \<noteq> j" for i j
  proof (cases "i < j")
    case True
    then show ?thesis using sorted_wrt_nth_less [OF apart] ij by blast
  next
    case False
    then have ji: "\<not> covers_root recurse (Canon (?kept ! j)) (Canon (?kept ! i))"
      "length (Canon (?kept ! j)) \<le> length (Canon (?kept ! i))"
      using sorted_wrt_nth_less [OF apart, of j i] ij by auto
    show ?thesis
    proof
      assume "covers_root recurse (Canon (?kept ! i)) (Canon (?kept ! j))"
      from covers_root_same [OF this ji(2)] show False using ji(1) by (simp add: covers_root_def)
    qed
  qed
  moreover have "\<exists>r \<in> set ?kept. covers_root recurse (Canon r) c" if "p \<in> set roots" "resolve p = Some c" for p c
  proof -
    have "(p, c) \<in> set ?ws" using ws [of "(p, c)"] that by simp
    then show ?thesis using keep_roots_cover [of ?ws "[]" recurse] by fastforce
  qed
  moreover have "Raw r \<in> set roots \<and> resolve (Raw r) = Some (Canon r)" if "r \<in> set ?kept" for r
    using K ws [of "(Raw r, Canon r)"] that by auto
  ultimately show ?thesis
    unfolding scanRoots_def Let_def by (simp split: option.splits)
qed

theorem scan_roots_disjoint_witness:
  "map Raw (fst (scanRoots (\<lambda>p. if p = ''/x'' then None else Some p) True [''/v/a/b'', ''/x'', ''/v/a'', ''/v/ab'']))
     = [''/v/a'', ''/v/ab'']
   \<and> \<not> covers_root True ''/v/a'' ''/v/ab''"
proof -
  let ?r = "scanRoots (\<lambda>p. if p = ''/x'' then None else Some p) True [''/v/a/b'', ''/x'', ''/v/a'', ''/v/ab'']"
  have e: "?r = ([\<lparr>Raw = ''/v/a'', Canon = ''/v/a''\<rparr>, \<lparr>Raw = ''/v/ab'', Canon = ''/v/ab''\<rparr>], [''/x''])"
    by code_simp
  show ?thesis
    using scan_roots_disjoint [of "\<lambda>p. if p = ''/x'' then None else Some p" True "[''/v/a/b'', ''/x'', ''/v/a'', ''/v/ab'']"]
    unfolding e by (auto simp: numeral_2_eq_2 less_Suc_eq)
qed

end
