(* ===== verification/EmptySpec.thy ===== *)
theory EmptySpec
  imports EmptyFolders
begin

text \<open>
  What \<open>EmptyFolders\<close> computes: a specification on trees (which folders hold a real file as far as the
  walk can see, and which of the others are topmost) and the proof that the stack machine, fed with the walk's
  calls, implements it.
\<close>

subsection \<open>The specification\<close>

text \<open>The walk of one root: its number and paths, the self-mounts and the junk names.\<close>

record espec =
  sp_idx :: nat
  sp_root :: "gostring list"
  sp_canon :: path
  sp_selfm :: "selfMount list"
  sp_lower :: "nat \<Rightarrow> nat"

definition sp_ctx :: "espec \<Rightarrow> walk_ctx" where
  "sp_ctx s = \<lparr>wc_idx = sp_idx s, wc_root = abs_path (sp_root s), wc_canon = sp_canon s, wc_withDirs = True,
     wc_selfm = sp_selfm s\<rparr>"

definition sp_path :: "espec \<Rightarrow> gostring list \<Rightarrow> path" where
  "sp_path s ws = abs_path (sp_root s @ ws)"

definition mounted :: "espec \<Rightarrow> gostring list \<Rightarrow> bool" where
  "mounted s ws \<longleftrightarrow> sp_selfm s \<noteq> [] \<and> mount_under (sp_selfm s) (Join (sp_canon s) (join_byte slash ws)) \<noteq> None"

text \<open>Whether something below (or at) the node \<open>ws\<close> must be taken for content.\<close>

fun holds_file :: "espec \<Rightarrow> gostring list \<Rightarrow> node \<Rightarrow> bool" where
  "holds_file s ws (NOther n) = False"
| "holds_file s ws (NFile n i) \<longleftrightarrow> \<not> isTempName (sp_lower s) n"
| "holds_file s ws (NDir n i fl cs) \<longleftrightarrow>
     \<not> skipName n \<and> (mounted s (ws @ [n]) \<or> fl \<or> list_ex (holds_file s (ws @ [n])) cs)"

text \<open>The junk below a node, in walk order.\<close>

fun junk_below :: "node \<Rightarrow> (gostring \<times> int) list" where
  "junk_below (NOther n) = []"
| "junk_below (NFile n i) = [(n, w_size (the i))]"
| "junk_below (NDir n i fl cs) = (if skipName n then [] else concat (map junk_below cs))"

definition junk_info :: "(gostring \<times> int) list \<Rightarrow> junkInfo option" where
  "junk_info js =
     (if js = [] then None
      else Some \<lparr>j_n = int (length js), j_bytes = sum_list (map snd js), j_ex = take junkExamples (map fst js)\<rparr>)"

definition folder_row :: "espec \<Rightarrow> gostring list \<Rightarrow> winfo option \<Rightarrow> node list \<Rightarrow> dirEnt" where
  "folder_row s ws i cs =
     \<lparr>d_path = sp_path s ws, d_mod = w_mtime (the i), d_junk = junk_info (concat (map junk_below cs))\<rparr>"

text \<open>Every folder the walk enters, with whether its parent is the root or holds content.\<close>

fun folders :: "espec \<Rightarrow> bool \<Rightarrow> gostring list \<Rightarrow> node \<Rightarrow> (bool \<times> bool \<times> dirEnt) list" where
  "folders s open ws (NOther n) = []"
| "folders s open ws (NFile n i) = []"
| "folders s open ws (NDir n i fl cs) =
     (if skipName n \<or> mounted s (ws @ [n]) then []
      else let h = holds_file s ws (NDir n i fl cs) in
        (open, h, folder_row s (ws @ [n]) i cs) # concat (map (folders s h (ws @ [n])) cs))"

definition topmost_empty :: "espec \<Rightarrow> node list \<Rightarrow> dirEnt list" where
  "topmost_empty s nodes =
     map (\<lambda>(_, _, d). d) (filter (\<lambda>(open, h, _). open \<and> \<not> h) (concat (map (folders s True []) nodes)))"

text \<open>What the walk of the tree is assumed to find: real names, no two alike in a folder, every
  entry's information readable, and no folder with more child folders than a frame holds back.\<close>

fun is_folder :: "node \<Rightarrow> bool" where
  "is_folder (NDir n i fl cs) = True"
| "is_folder _ = False"

fun good_node :: "node \<Rightarrow> bool" where
  "good_node (NOther n) \<longleftrightarrow> proper n"
| "good_node (NFile n i) \<longleftrightarrow> proper n \<and> i \<noteq> None"
| "good_node (NDir n i fl cs) \<longleftrightarrow> proper n \<and> i \<noteq> None \<and> distinct (map node_name cs)
     \<and> length (filter is_folder cs) \<le> emptyFolderCap \<and> list_all good_node cs"

subsection \<open>Junk\<close>

lemma junk_add_info:
  "Some (junk_add n z (case junk_info js of None \<Rightarrow> zero_junkInfo | Some j \<Rightarrow> j)) = junk_info (js @ [(n, z)])"
  by (auto simp: junk_info_def junk_add_def zero_junkInfo_def junkExamples_def)

lemma junk_names_take: "length ex \<le> junkExamples \<Longrightarrow> junk_names ex ns = take junkExamples (ex @ ns)"
  by (induction ex ns rule: junk_names.induct) auto

lemma junk_merge_info:
  assumes "ks \<noteq> []"
  shows "Some (junk_merge (case junk_info js of None \<Rightarrow> zero_junkInfo | Some j \<Rightarrow> j) (the (junk_info ks)))
    = junk_info (js @ ks)"
proof -
  have "junk_names (take junkExamples xs) (take junkExamples ys) = take junkExamples (xs @ ys)" for xs ys :: "gostring list"
    by (subst junk_names_take) (auto simp: min_def)
  then show ?thesis
    using assms junk_names_take [of "[]" "take junkExamples (map fst ks)"]
    by (auto simp: junk_info_def junk_merge_def zero_junkInfo_def)
qed

subsection \<open>Paths\<close>

lemma Join_rel:
  assumes "list_all proper us" "us \<noteq> []" "list_all proper vs" "vs \<noteq> []"
  shows "Join (abs_path us) (join_byte slash vs) = abs_path (us @ vs)"
proof -
  have "abs_path us @ slash # join_byte slash vs = abs_path (us @ vs)"
    using assms by (simp add: abs_path_append)
  then show ?thesis using assms Clean_abs_path [of "us @ vs"] by (simp add: Join_def abs_path_def)
qed

lemma join_byte_Nil_iff: "list_all proper ws \<Longrightarrow> join_byte slash ws = [] \<longleftrightarrow> ws = []"
  by (cases "(slash, ws)" rule: join_byte.cases) (auto simp: proper_def)

lemma rel_join_snoc:
  assumes "list_all proper ws"
  shows "rel_join (join_byte slash ws) n = join_byte slash (ws @ [n])"
proof (cases "ws = []")
  case False
  then show ?thesis using assms by (simp add: rel_join_def join_byte_Nil_iff join_byte_snoc)
qed (simp add: rel_join_def)

definition good_spec :: "espec \<Rightarrow> bool" where
  "good_spec s \<longleftrightarrow> sp_root s \<noteq> [] \<and> list_all proper (sp_root s)"

lemma walk_path:
  assumes "good_spec s" "list_all proper (ws @ [n])"
  shows "Join (wc_root (sp_ctx s)) (rel_join (join_byte slash ws) n) = sp_path s (ws @ [n])"
  using assms Join_rel [of "sp_root s" "ws @ [n]"]
  by (simp add: rel_join_snoc good_spec_def sp_path_def sp_ctx_def)

lemma inside_path:
  assumes "good_spec s" "list_all proper us" "list_all proper vs"
  shows "inside (sp_path s us) (sp_path s vs) \<longleftrightarrow> prefix us vs"
proof -
  have "inside (abs_path (sp_root s @ us)) (abs_path (sp_root s @ vs)) \<longleftrightarrow> prefix (sp_root s @ us) (sp_root s @ vs)"
    using under_abs_path [of "sp_root s @ us" "sp_root s @ vs"] assms
    by (auto simp: inside_def good_spec_def)
  then show ?thesis by (simp add: sp_path_def)
qed

subsection \<open>Closing frames\<close>

function close_to :: "nat \<Rightarrow> emptyFolderScan \<Rightarrow> emptyFolderScan" where
  "close_to n e = (if length (es_stack e) \<le> n then e else close_to n (ef_pop e))"
  by pat_completeness auto

termination by (relation "measure (\<lambda>(_, e). length (es_stack e))") auto

declare close_to.simps [simp del]

lemma close_to_same [simp]: "length (es_stack e) \<le> n \<Longrightarrow> close_to n e = e"
  by (subst close_to.simps) simp

lemma close_to_step: "n < length (es_stack e) \<Longrightarrow> close_to n e = close_to n (ef_pop e)"
  by (subst close_to.simps) simp

lemma length_close_to: "length (es_stack (close_to n e)) = min n (length (es_stack e))"
proof (induction n e rule: close_to.induct)
  case (1 n e)
  then show ?case by (cases "length (es_stack e) \<le> n") (auto simp: close_to_step)
qed

lemma close_to_Suc:
  assumes "n < length (es_stack e)"
  shows "close_to n e = ef_pop (close_to (Suc n) e)"
  using assms
proof (induction n e rule: close_to.induct)
  case (1 n e)
  show ?case
  proof (cases "length (es_stack e) = Suc n")
    case True
    then show ?thesis by (simp add: close_to_step)
  next
    case False
    then have "n < length (es_stack (ef_pop e))" "Suc n < length (es_stack e)" using "1.prems" by auto
    then show ?thesis using 1 by (simp add: close_to_step)
  qed
qed

lemma curRoot_emits [simp]: "es_curRoot (fold ef_emit ds e) = es_curRoot e"
  by (induction ds arbitrary: e) (auto simp: ef_emit_def)

lemma markHasFile_same [simp]:
  "ef_path (fst (markHasFile f e)) = ef_path f" "ef_isRoot (fst (markHasFile f e)) = ef_isRoot f"
  "es_curRoot (snd (markHasFile f e)) = es_curRoot e"
  by (auto simp: markHasFile_def Let_def ef_emit_def)

lemma merge_up_same [simp]: "ef_path (merge_up f p) = ef_path p" "ef_isRoot (merge_up f p) = ef_isRoot p"
  "ef_hasFile (merge_up f p) = ef_hasFile p" "ef_empties (merge_up f p) = ef_empties p"
  "ef_dropped (merge_up f p) = ef_dropped p"
  by (auto simp: merge_up_def split: option.splits)

lemma addEmpty_same [simp]:
  "ef_path (fst (addEmpty d p e)) = ef_path p" "ef_isRoot (fst (addEmpty d p e)) = ef_isRoot p"
  "ef_hasFile (fst (addEmpty d p e)) = ef_hasFile p" "es_curRoot (snd (addEmpty d p e)) = es_curRoot e"
  by (auto simp: addEmpty_def ef_emit_def)

definition stack_paths :: "emptyFolderScan \<Rightarrow> path list" where
  "stack_paths e = map ef_path (es_stack e)"

lemma pop_same [simp]: "es_curRoot (ef_pop e) = es_curRoot e" "stack_paths (ef_pop e) = tl (stack_paths e)"
  by (auto simp: ef_pop_def ef_pop_frame_def Let_def stack_paths_def case_prod_beta split: list.splits)

lemma close_to_curRoot [simp]: "es_curRoot (close_to n e) = es_curRoot e"
proof (induction n e rule: close_to.induct)
  case (1 n e)
  then show ?case by (cases "length (es_stack e) \<le> n") (auto simp: close_to_step)
qed

lemma close_to_paths: "stack_paths (close_to n e) = drop (length (es_stack e) - n) (stack_paths e)"
proof (induction n e rule: close_to.induct)
  case (1 n e)
  show ?case
  proof (cases "length (es_stack e) \<le> n")
    case False
    then obtain k where k: "length (es_stack e) - n = Suc k" "length (es_stack (ef_pop e)) - n = k"
      by (cases "length (es_stack e) - n") auto
    then show ?thesis using 1 False by (simp add: close_to_step drop_Suc)
  qed simp
qed

text \<open>A call about a path outside the innermost frames closes them first.\<close>

definition strangers :: "path \<Rightarrow> nat \<Rightarrow> emptyFolderScan \<Rightarrow> bool" where
  "strangers q n e \<longleftrightarrow> (\<forall>p \<in> set (take (length (es_stack e) - n) (stack_paths e)). \<not> inside p q)"

lemma popTo_strangers:
  assumes "strangers q n e"
  shows "popTo q e = popTo q (close_to n e)"
  using assms
proof (induction n e rule: close_to.induct)
  case (1 n e)
  show ?case
  proof (cases "length (es_stack e) \<le> n")
    case False
    then obtain f rest where st: "es_stack e = f # rest" by (cases "es_stack e") auto
    obtain k where k: "length (es_stack e) - n = Suc k" "length (es_stack e) - Suc n = k"
      using False by (cases "length (es_stack e) - n") auto
    have ps: "stack_paths e = ef_path f # map ef_path rest" using st by (simp add: stack_paths_def)
    have "\<not> inside (ef_path f) q" "strangers q n (ef_pop e)"
      using "1.prems" by (simp_all add: strangers_def k ps)
    moreover have "popTo q e = popTo q (ef_pop e)" if "\<not> inside (ef_path f) q"
      using st that by (subst popTo.simps) simp
    ultimately show ?thesis using 1 False by (simp add: close_to_step)
  qed simp
qed

lemma popTo_inside: "es_stack e = f # rest \<Longrightarrow> inside (ef_path f) q \<Longrightarrow> popTo q e = e"
  by (subst popTo.simps) simp

subsection \<open>One node at a time\<close>

text \<open>The effect of a node's calls once its frames are closed.\<close>

fun node_effect :: "espec \<Rightarrow> gostring list \<Rightarrow> node \<Rightarrow> emptyFolderScan \<Rightarrow> emptyFolderScan" where
  "node_effect s ws (NOther n) e = e"
| "node_effect s ws (NFile n i) e =
     (if isTempName (sp_lower s) n then junk_top n (w_size (the i)) e else mark_top e)"
| "node_effect s ws (NDir n i fl cs) e =
     (if skipName n then e
      else if mounted s (ws @ [n]) then mark_top e
      else ef_pop (fold (\<lambda>c e. node_effect s (ws @ [n]) c e) cs
             ((if fl then mark_top else (\<lambda>e. e))
               (push_frame (new_frame (sp_path s (ws @ [n])) (w_mtime (the i)) False) e))))"

text \<open>Every frame but the innermost, and every path, stays.\<close>

definition same_below :: "emptyFolderScan \<Rightarrow> emptyFolderScan \<Rightarrow> bool" where
  "same_below e e' \<longleftrightarrow> stack_paths e' = stack_paths e \<and> es_curRoot e' = es_curRoot e
     \<and> tl (es_stack e') = tl (es_stack e)
     \<and> (es_stack e \<noteq> [] \<longrightarrow> ef_isRoot (hd (es_stack e')) = ef_isRoot (hd (es_stack e)))"

lemma same_below_refl [simp]: "same_below e e"
  by (simp add: same_below_def)

lemma same_below_trans: "same_below a b \<Longrightarrow> same_below b c \<Longrightarrow> same_below a c"
  by (auto simp: same_below_def stack_paths_def)

lemma same_below_mark [simp]: "same_below e (mark_top e)"
  by (auto simp: same_below_def mark_top_def stack_paths_def case_prod_beta split: list.splits)

lemma same_below_junk [simp]: "same_below e (junk_top n z e)"
  by (auto simp: same_below_def junk_top_def stack_paths_def split: list.splits)

lemma pop_below:
  assumes "same_below (push_frame g e) e'" "es_stack e \<noteq> []"
  shows "same_below e (ef_pop e')"
proof -
  obtain f rest where f: "es_stack e = f # rest" using assms(2) by (cases "es_stack e") auto
  obtain g' where g': "es_stack e' = g' # f # rest"
    using assms f by (cases "es_stack e'") (auto simp: same_below_def push_frame_def stack_paths_def)
  then show ?thesis
    using assms f
    by (auto simp: same_below_def ef_pop_def ef_pop_frame_def push_frame_def stack_paths_def Let_def case_prod_beta)
qed

lemma same_below_fold:
  assumes "\<And>c e. c \<in> set cs \<Longrightarrow> es_stack e \<noteq> [] \<Longrightarrow> same_below e (h c e)" "es_stack e \<noteq> []"
  shows "same_below e (fold h cs e)"
  using assms
proof (induction cs arbitrary: e)
  case (Cons c cs)
  have 1: "same_below e (h c e)" using Cons.prems by simp
  then have "es_stack (h c e) \<noteq> []" using Cons.prems(2) by (auto simp: same_below_def stack_paths_def)
  then have "same_below (h c e) (fold h cs (h c e))" using Cons by simp
  then show ?case using same_below_trans [OF 1] by simp
qed simp

lemma node_effect_below: "es_stack e \<noteq> [] \<Longrightarrow> same_below e (node_effect s ws nd e)"
proof (induction s ws nd e rule: node_effect.induct)
  case (3 s ws n i fl cs e)
  let ?g = "push_frame (new_frame (sp_path s (ws @ [n])) (w_mtime (the i)) False) e"
  let ?g1 = "(if fl then mark_top else (\<lambda>e. e)) ?g"
  show ?case
  proof (cases "skipName n \<or> mounted s (ws @ [n])")
    case False
    have g1: "same_below ?g ?g1" by simp
    moreover have "es_stack ?g1 \<noteq> []"
      using g1 by (auto simp: same_below_def stack_paths_def push_frame_def)
    then have "same_below ?g1 (fold (\<lambda>c e. node_effect s (ws @ [n]) c e) cs ?g1)"
      using "3.IH" False by (intro same_below_fold) auto
    ultimately show ?thesis
      using False pop_below [OF same_below_trans "3.prems"] by auto
  qed auto
qed auto

subsection \<open>The machine does the effects\<close>

definition node_calls :: "espec \<Rightarrow> gostring list \<Rightarrow> node \<Rightarrow> wcall list" where
  "node_calls s ws nd = walk_node (sp_ctx s) (join_byte slash ws) nd"

definition run_node :: "espec \<Rightarrow> gostring list \<Rightarrow> node \<Rightarrow> emptyFolderScan \<Rightarrow> emptyFolderScan" where
  "run_node s ws nd e = ef_run (sp_lower s) (node_calls s ws nd) e"

lemma sp_ctx_simps [simp]:
  "wc_idx (sp_ctx s) = sp_idx s" "wc_canon (sp_ctx s) = sp_canon s" "wc_selfm (sp_ctx s) = sp_selfm s"
  "wc_withDirs (sp_ctx s)"
  by (simp_all add: sp_ctx_def)

definition node_visit :: "espec \<Rightarrow> gostring list \<Rightarrow> gostring \<Rightarrow> bool \<Rightarrow> winfo \<Rightarrow> wcall" where
  "node_visit s ws n isDir i =
     Visit (sp_idx s) (walk_entry (sp_idx s) (sp_path s (ws @ [n])) (join_byte slash (ws @ [n])) n isDir i)"

lemma node_calls_simps:
  assumes "good_spec s" "list_all proper (ws @ [node_name nd])"
  shows "node_calls s ws (NOther n) = []"
    "nd = NFile n (Some j) \<Longrightarrow> node_calls s ws nd = [node_visit s ws n False j]"
    "nd = NDir n (Some j) fl cs \<Longrightarrow> node_calls s ws nd =
       (if skipName n then []
        else if mounted s (ws @ [n])
        then [WalkErr (sp_path s (ws @ [n])), Unreadable (sp_path s (ws @ [n]))]
        else node_visit s ws n True j
          # (if fl then [WalkErr (sp_path s (ws @ [n])), Unreadable (sp_path s (ws @ [n]))] else [])
          @ concat (map (node_calls s (ws @ [n])) cs))"
proof -
  have p: "Join (wc_root (sp_ctx s)) (rel_join (join_byte slash ws) (node_name nd)) = sp_path s (ws @ [node_name nd])"
    by (rule walk_path [OF assms])
  have r: "rel_join (join_byte slash ws) m = join_byte slash (ws @ [m])" for m
    using assms(2) by (intro rel_join_snoc) auto
  show "node_calls s ws (NOther n) = []" by (simp add: node_calls_def)
  show "nd = NFile n (Some j) \<Longrightarrow> node_calls s ws nd = [node_visit s ws n False j]"
    using p by (simp add: node_calls_def walk_emit_def node_visit_def r)
  show "nd = NDir n (Some j) fl cs \<Longrightarrow> node_calls s ws nd =
       (if skipName n then []
        else if mounted s (ws @ [n])
        then [WalkErr (sp_path s (ws @ [n])), Unreadable (sp_path s (ws @ [n]))]
        else node_visit s ws n True j
          # (if fl then [WalkErr (sp_path s (ws @ [n])), Unreadable (sp_path s (ws @ [n]))] else [])
          @ concat (map (node_calls s (ws @ [n])) cs))"
  proof -
    assume nd: "nd = NDir n (Some j) fl cs"
    have "walk_node (sp_ctx s) (join_byte slash (ws @ [n])) = node_calls s (ws @ [n])"
      by (simp add: node_calls_def fun_eq_iff)
    then show ?thesis
      using p by (simp add: nd node_calls_def [of s ws] walk_emit_def node_visit_def r Let_def mounted_def)
  qed
qed

lemma visit_node_popTo:
  assumes "es_curRoot e = Some (sp_idx s)" "es_curRoot e' = Some (sp_idx s)"
    and "popTo (sp_path s (ws @ [n])) e = popTo (sp_path s (ws @ [n])) e'"
  shows "ef_call lower (node_visit s ws n isDir i) e = ef_call lower (node_visit s ws n isDir i) e'"
  using assms by (simp add: node_visit_def ef_visit_def walk_entry_def zero_fEnt_def)

lemma run_node_popTo:
  assumes "good_spec s" "list_all proper (ws @ [node_name nd])" "good_node nd"
    and "es_curRoot e = Some (sp_idx s)" "es_curRoot e' = Some (sp_idx s)"
    and "popTo (sp_path s (ws @ [node_name nd])) e = popTo (sp_path s (ws @ [node_name nd])) e'"
  shows "node_calls s ws nd = [] \<or> run_node s ws nd e = run_node s ws nd e'"
proof (cases nd)
  case (NFile n i)
  then show ?thesis
    using assms visit_node_popTo [of e s e' ws n] node_calls_simps(2) [OF assms(1,2)]
    by (auto simp: run_node_def ef_run_def)
next
  case (NDir n i fl cs)
  then obtain j where j: "i = Some j" using assms(3) by auto
  show ?thesis
    using assms(6) NDir j visit_node_popTo [OF assms(4,5), of ws n] node_calls_simps(3) [OF assms(1,2), of n j fl cs]
    by (auto simp: run_node_def ef_run_def ef_noteUnreadable_def)
next
  case (NOther n)
  then show ?thesis using node_calls_simps(1) [OF assms(1,2)] by simp
qed

lemma no_calls:
  assumes "good_spec s" "list_all proper (ws @ [node_name nd])" "good_node nd" "node_calls s ws nd = []"
  shows "node_effect s ws nd e = e"
proof (cases nd)
  case (NFile n i)
  then show ?thesis using assms node_calls_simps(2) [OF assms(1,2)] by auto
next
  case (NDir n i fl cs)
  then obtain j where "i = Some j" using assms(3) by auto
  then show ?thesis using assms(4) NDir node_calls_simps(3) [OF assms(1,2), of n j fl cs] by (auto split: if_splits)
qed simp

text \<open>Where the open frames above a state are, after a node's calls.\<close>

definition opened_in :: "espec \<Rightarrow> gostring list \<Rightarrow> gostring set \<Rightarrow> nat \<Rightarrow> emptyFolderScan \<Rightarrow> bool" where
  "opened_in s ws B n e \<longleftrightarrow> n \<le> length (es_stack e) \<and> es_curRoot e = Some (sp_idx s)
     \<and> (\<forall>p \<in> set (take (length (es_stack e) - n) (stack_paths e)).
          \<exists>b \<in> B. \<exists>vs. list_all proper (ws @ b # vs) \<and> p = sp_path s (ws @ b # vs))"

definition does_effect :: "espec \<Rightarrow> gostring list \<Rightarrow> node \<Rightarrow> bool" where
  "does_effect s ws nd \<longleftrightarrow> (\<forall>e f rest. es_stack e = f # rest \<longrightarrow> ef_path f = sp_path s ws
     \<longrightarrow> es_curRoot e = Some (sp_idx s)
     \<longrightarrow> opened_in s ws {node_name nd} (length (es_stack e)) (run_node s ws nd e)
       \<and> close_to (length (es_stack e)) (run_node s ws nd e) = node_effect s ws nd e)"

lemma opened_strangers:
  assumes "good_spec s" "opened_in s ws B n e" "list_all proper (ws @ [m])" "m \<notin> B"
  shows "strangers (sp_path s (ws @ [m])) n e"
  using assms inside_path [OF assms(1) _ assms(3)] by (auto simp: strangers_def opened_in_def)

lemma does_effects:
  assumes "good_spec s" "\<forall>c \<in> set cs. does_effect s ws c \<and> good_node c \<and> list_all proper (ws @ [node_name c])"
    and "distinct (map node_name cs)" "node_name ` set cs \<inter> B = {}"
    and "opened_in s ws B n e" "n = length (es_stack (close_to n e))" "0 < n"
    and "hd (stack_paths (close_to n e)) = sp_path s ws"
  shows "opened_in s ws (B \<union> node_name ` set cs) n (fold (run_node s ws) cs e)
    \<and> close_to n (fold (run_node s ws) cs e) = fold (node_effect s ws) cs (close_to n e)"
  using assms(2-)
proof (induction cs arbitrary: B e)
  case (Cons c cs)
  let ?q = "sp_path s (ws @ [node_name c])" and ?ce = "close_to n e"
  have pr: "list_all proper (ws @ [node_name c])" and gn: "good_node c" and de: "does_effect s ws c"
    using Cons.prems(1) by auto
  obtain f rest where f: "es_stack ?ce = f # rest" "ef_path f = sp_path s ws"
    using Cons.prems(5-7) by (cases "es_stack ?ce") (auto simp: stack_paths_def)
  have cr: "es_curRoot e = Some (sp_idx s)" "es_curRoot ?ce = Some (sp_idx s)"
    using Cons.prems(4) by (auto simp: opened_in_def)
  have st: "strangers ?q n e"
    using opened_strangers [OF assms(1) Cons.prems(4) pr] Cons.prems(3) by auto
  note pop = popTo_strangers [OF st]
  let ?e1 = "run_node s ws c e"
  have step: "opened_in s ws (B \<union> {node_name c}) n ?e1 \<and> close_to n ?e1 = node_effect s ws c ?ce"
  proof (cases "node_calls s ws c = []")
    case True
    then have "?e1 = e" by (simp add: run_node_def ef_run_def)
    then show ?thesis using no_calls [OF assms(1) pr gn True] Cons.prems(4) by (auto simp: opened_in_def)
  next
    case False
    have "?e1 = run_node s ws c ?ce"
      using run_node_popTo [OF assms(1) pr gn cr] pop False by simp
    then show ?thesis
      using de [unfolded does_effect_def, rule_format, OF f cr(2)] Cons.prems(5)
      by (auto simp: opened_in_def)
  qed
  have below: "same_below ?ce (node_effect s ws c ?ce)" using node_effect_below f(1) by simp
  have "opened_in s ws ((B \<union> {node_name c}) \<union> node_name ` set cs) n (fold (run_node s ws) cs ?e1)
    \<and> close_to n (fold (run_node s ws) cs ?e1) = fold (node_effect s ws) cs (close_to n ?e1)"
  proof (rule Cons.IH)
    show "\<forall>c\<in>set cs. does_effect s ws c \<and> good_node c \<and> list_all proper (ws @ [node_name c])"
      using Cons.prems(1) by auto
    show "distinct (map node_name cs)" using Cons.prems(2) by simp
    show "node_name ` set cs \<inter> (B \<union> {node_name c}) = {}" using Cons.prems(2,3) by auto
    show "opened_in s ws (B \<union> {node_name c}) n ?e1" using step by simp
    show "n = length (es_stack (close_to n ?e1))"
      using step unfolding opened_in_def by (metis length_close_to min.absorb1)
    show "hd (stack_paths (close_to n ?e1)) = sp_path s ws"
      using step below Cons.prems(7) by (simp add: same_below_def)
  qed (use Cons.prems(6) in simp)
  then show ?case using step by simp
qed simp

lemma run_node_folder:
  assumes "good_spec s" "list_all proper (ws @ [n])" "\<not> skipName n" "\<not> mounted s (ws @ [n])"
  shows "run_node s ws (NDir n (Some j) fl cs) e =
    fold (run_node s (ws @ [n])) cs
      ((if fl then ef_noteUnreadable (sp_path s (ws @ [n])) else (\<lambda>e. e))
        (ef_call (sp_lower s) (node_visit s ws n True j) e))"
proof -
  have "fold (ef_call l) (concat (map h cs)) e = fold (\<lambda>c. fold (ef_call l) (h c)) cs e" for l h e
    by (induction cs arbitrary: e) auto
  moreover have "(\<lambda>c. fold (ef_call (sp_lower s)) (node_calls s (ws @ [n]) c)) = run_node s (ws @ [n])"
    by (simp add: run_node_def ef_run_def fun_eq_iff)
  ultimately show ?thesis
    using assms node_calls_simps(3) [OF assms(1), of ws "NDir n (Some j) fl cs" n j fl cs]
    by (simp add: run_node_def [of s ws] ef_run_def)
qed

lemma ef_visit_inside:
  assumes "es_stack e = f # rest" "ef_path f = sp_path s ws" "es_curRoot e = Some (sp_idx s)"
    and "good_spec s" "list_all proper (ws @ [n])"
  shows "popTo (sp_path s (ws @ [n])) e = e"
    "ef_call lower (node_visit s ws n True i) e = push_frame (new_frame (sp_path s (ws @ [n])) (w_mtime i) False) e"
    "ef_call lower (node_visit s ws n False i) e =
       (if isTempName lower n then junk_top n (w_size i) e else mark_top e)"
proof -
  have "inside (sp_path s ws) (sp_path s (ws @ [n]))"
    using inside_path [OF assms(4), of ws "ws @ [n]"] assms(5) by simp
  then show p: "popTo (sp_path s (ws @ [n])) e = e"
    using popTo_inside [OF assms(1)] assms(2) by simp
  show "ef_call lower (node_visit s ws n True i) e = push_frame (new_frame (sp_path s (ws @ [n])) (w_mtime i) False) e"
    using p assms(1,3) by (simp add: node_visit_def ef_visit_def walk_entry_def ef_enter_def zero_fEnt_def)
  show "ef_call lower (node_visit s ws n False i) e =
       (if isTempName lower n then junk_top n (w_size i) e else mark_top e)"
    using p assms(1,3) by (simp add: node_visit_def ef_visit_def walk_entry_def ef_enter_def zero_fEnt_def)
qed

lemma opened_here:
  assumes "es_curRoot e = Some (sp_idx s)" "n = length (es_stack e)"
  shows "opened_in s ws B n e" "close_to n e = e"
  using assms by (auto simp: opened_in_def)

lemma opened_deeper:
  assumes o: "opened_in s (ws @ [m]) B (Suc n) e" and t: "list_all proper (ws @ [m])"
    and h: "hd (stack_paths (close_to (Suc n) e)) = sp_path s (ws @ [m])"
  shows "opened_in s ws {m} n e"
proof -
  let ?k = "length (es_stack e) - Suc n"
  have k: "length (es_stack e) - n = Suc ?k" "?k < length (stack_paths e)"
    using o by (auto simp: opened_in_def stack_paths_def)
  have "stack_paths e ! ?k = sp_path s (ws @ [m])"
    using h k(2) by (simp add: close_to_paths hd_drop_conv_nth)
  then have "set (take (length (es_stack e) - n) (stack_paths e)) = insert (sp_path s (ws @ [m])) (set (take ?k (stack_paths e)))"
    unfolding k(1) using take_Suc_conv_app_nth [OF k(2)] by simp
  moreover have "\<exists>vs. list_all proper (ws @ m # vs) \<and> p = sp_path s (ws @ m # vs)"
    if "p \<in> set (take ?k (stack_paths e))" for p
    using o that unfolding opened_in_def by (metis append.assoc append_Cons append_Nil)
  moreover have "\<exists>vs. list_all proper (ws @ m # vs) \<and> sp_path s (ws @ [m]) = sp_path s (ws @ m # vs)"
    using t by blast
  ultimately show ?thesis using o unfolding opened_in_def by (metis Suc_leD insertE singletonI)
qed

lemma node_does_effect:
  "good_spec s \<Longrightarrow> list_all proper (ws @ [node_name nd]) \<Longrightarrow> good_node nd \<Longrightarrow> does_effect s ws nd"
proof (induction s ws nd rule: holds_file.induct)
  case (1 s ws n)
  then show ?case
    using node_calls_simps(1) [of s ws "NOther n" n]
    by (simp add: does_effect_def run_node_def ef_run_def opened_here)
next
  case (2 s ws n i)
  then obtain j where i: "i = Some j" by auto
  have c: "node_calls s ws (NFile n i) = [node_visit s ws n False j]"
    using node_calls_simps(2) [of s ws "NFile n i" n j] "2.prems" i by simp
  have "opened_in s ws {n} (length (es_stack e)) (run_node s ws (NFile n i) e)
      \<and> close_to (length (es_stack e)) (run_node s ws (NFile n i) e) = node_effect s ws (NFile n i) e"
    if e: "es_stack e = f # rest" "ef_path f = sp_path s ws" "es_curRoot e = Some (sp_idx s)" for e f rest
  proof -
    have r: "run_node s ws (NFile n i) e = node_effect s ws (NFile n i) e"
      using ef_visit_inside(3) [OF e "2.prems"(1), of n] "2.prems"(2) c i by (simp add: run_node_def ef_run_def)
    have "same_below e (node_effect s ws (NFile n i) e)" using node_effect_below e(1) by simp
    then have "length (es_stack (node_effect s ws (NFile n i) e)) = length (es_stack e)"
      "es_curRoot (node_effect s ws (NFile n i) e) = Some (sp_idx s)"
      using e(3) by (auto simp: same_below_def stack_paths_def dest: arg_cong [where f = length])
    then show ?thesis unfolding r using opened_here by metis
  qed
  then show ?case by (simp add: does_effect_def)
next
  case (3 s ws n i fl cs)
  then obtain j where i: "i = Some j" by auto
  let ?nd = "NDir n i fl cs" and ?q = "sp_path s (ws @ [n])"
  have pr: "list_all proper (ws @ [n])" using "3.prems"(2) by simp
  have calls: "node_calls s ws ?nd = (if skipName n then []
        else if mounted s (ws @ [n]) then [WalkErr ?q, Unreadable ?q]
        else node_visit s ws n True j # (if fl then [WalkErr ?q, Unreadable ?q] else [])
          @ concat (map (node_calls s (ws @ [n])) cs))"
    using node_calls_simps(3) [of s ws ?nd n j fl cs] "3.prems" i by simp
  have "opened_in s ws {n} (length (es_stack e)) (run_node s ws ?nd e)
      \<and> close_to (length (es_stack e)) (run_node s ws ?nd e) = node_effect s ws ?nd e"
    if e: "es_stack e = f # rest" "ef_path f = sp_path s ws" "es_curRoot e = Some (sp_idx s)" for e f rest
  proof -
    note here = ef_visit_inside [OF e "3.prems"(1) pr]
    consider "skipName n" | "\<not> skipName n" "mounted s (ws @ [n])" | "\<not> skipName n" "\<not> mounted s (ws @ [n])" by blast
    then show ?thesis
    proof cases
      case 1
      then show ?thesis using calls e by (simp add: run_node_def ef_run_def opened_here)
    next
      case 2
      then have r: "run_node s ws ?nd e = mark_top e"
        using calls here(1) by (simp add: run_node_def ef_run_def ef_noteUnreadable_def)
      have "same_below e (mark_top e)" by simp
      then have "length (es_stack (mark_top e)) = length (es_stack e)" "es_curRoot (mark_top e) = Some (sp_idx s)"
        using e(3) by (auto simp: same_below_def stack_paths_def dest: arg_cong [where f = length])
      then show ?thesis using 2 r opened_here [of "mark_top e" s "length (es_stack e)"] by simp
    next
      case 3
      let ?e1 = "push_frame (new_frame ?q (w_mtime (the i)) False) e"
      let ?e2 = "(if fl then mark_top else (\<lambda>e. e)) ?e1"
      have "popTo ?q ?e1 = ?e1"
        by (rule popTo_inside [where f = "new_frame ?q (w_mtime (the i)) False" and rest = "es_stack e"])
          (simp_all add: push_frame_def new_frame_def inside_def)
      then have run: "run_node s ws ?nd e = fold (run_node s (ws @ [n])) cs ?e2"
        using run_node_folder [OF "3.prems"(1) pr 3(1,2), of j fl cs e] here(2) [of _ j] i
        by (simp add: ef_noteUnreadable_def)
      have b: "same_below ?e1 ?e2" by simp
      then have e2: "length (es_stack ?e2) = Suc (length (es_stack e))" "es_curRoot ?e2 = Some (sp_idx s)"
        "hd (stack_paths ?e2) = ?q" "es_stack ?e2 \<noteq> []"
        using e(3) by (auto simp: same_below_def stack_paths_def push_frame_def new_frame_def dest: arg_cong [where f = length])
      let ?n = "Suc (length (es_stack e))"
      have kids: "\<forall>c \<in> set cs. does_effect s (ws @ [n]) c \<and> good_node c \<and> list_all proper ((ws @ [n]) @ [node_name c])"
      proof
        fix c assume c: "c \<in> set cs"
        have g: "good_node c" using "3.prems"(3) c by (auto simp: list_all_iff)
        then have "list_all proper ((ws @ [n]) @ [node_name c])" using pr by (cases c) auto
        then show "does_effect s (ws @ [n]) c \<and> good_node c \<and> list_all proper ((ws @ [n]) @ [node_name c])"
          using "3.IH" [OF c] "3.prems"(1) g by blast
      qed
      have C: "close_to ?n ?e2 = ?e2" using e2(1) by simp
      have D: "opened_in s (ws @ [n]) ({} \<union> node_name ` set cs) ?n (fold (run_node s (ws @ [n])) cs ?e2)
          \<and> close_to ?n (fold (run_node s (ws @ [n])) cs ?e2) = fold (node_effect s (ws @ [n])) cs (close_to ?n ?e2)"
      proof (rule does_effects [OF "3.prems"(1) kids])
        show "distinct (map node_name cs)" using "3.prems"(3) by simp
        show "opened_in s (ws @ [n]) {} ?n ?e2" by (rule opened_here(1) [OF e2(2) e2(1) [symmetric]])
        show "?n = length (es_stack (close_to ?n ?e2))" "hd (stack_paths (close_to ?n ?e2)) = sp_path s (ws @ [n])"
          unfolding C using e2 by simp_all
      qed simp_all
      let ?E = "fold (run_node s (ws @ [n])) cs ?e2"
      have eff: "close_to ?n ?E = fold (node_effect s (ws @ [n])) cs ?e2" using D C by simp
      have sb: "same_below ?e2 (fold (node_effect s (ws @ [n])) cs ?e2)"
        using e2(4) by (intro same_below_fold node_effect_below)
      have hd: "hd (stack_paths (close_to ?n ?E)) = sp_path s (ws @ [n])"
        using sb e2(3) unfolding eff by (simp add: same_below_def)
      have "length (es_stack e) < length (es_stack ?E)" using D by (simp add: opened_in_def)
      then have "close_to (length (es_stack e)) ?E = ef_pop (fold (node_effect s (ws @ [n])) cs ?e2)"
        using close_to_Suc eff by simp
      moreover have "opened_in s ws {n} (length (es_stack e)) ?E"
        using D hd by (intro opened_deeper [OF _ pr]) auto
      ultimately show ?thesis using run 3 by simp
    qed
  qed
  then show ?case by (simp add: does_effect_def)
qed

subsection \<open>What the effects offer\<close>

definition tops :: "espec \<Rightarrow> gostring list \<Rightarrow> node \<Rightarrow> dirEnt list" where
  "tops s ws nd = map (\<lambda>(_, _, d). d) (filter (\<lambda>(open, h, _). open \<and> \<not> h) (folders s True ws nd))"

lemma folders_held_back:
  "\<not> holds_file s ws nd \<Longrightarrow> filter (\<lambda>(open, h, _). open \<and> \<not> h) (folders s False ws nd) = []"
proof (induction s ws nd rule: holds_file.induct)
  case (3 s ws n i fl cs)
  then show ?case
    by (auto simp: Let_def filter_empty_conv list_ex_iff split: if_splits) fastforce
qed auto

lemma tops_folder:
  assumes "\<not> skipName n" "\<not> mounted s (ws @ [n])"
  shows "tops s ws (NDir n i fl cs) =
    (if holds_file s ws (NDir n i fl cs) then concat (map (tops s (ws @ [n])) cs)
     else [folder_row s (ws @ [n]) i cs])"
proof -
  let ?P = "\<lambda>(open, h, _ :: dirEnt). open \<and> \<not> h"
  have "filter ?P (concat (map (folders s False (ws @ [n])) cs)) = []" if "\<not> holds_file s ws (NDir n i fl cs)"
    using that assms folders_held_back by (fastforce simp: filter_concat list_ex_iff)
  moreover have "map (\<lambda>(_, _, d). d) (filter ?P (concat (map (folders s True (ws @ [n])) cs)))
      = concat (map (tops s (ws @ [n])) cs)"
    by (induction cs) (auto simp: tops_def)
  ultimately show ?thesis
    using assms by (auto simp: tops_def Let_def)
qed

definition frame_full :: "efFrame \<Rightarrow> bool" where
  "frame_full f \<longleftrightarrow> ef_hasFile f \<or> ef_isRoot f"

definition frame_ok :: "(gostring \<times> int) list \<Rightarrow> efFrame \<Rightarrow> bool" where
  "frame_ok J f \<longleftrightarrow> ef_dropped f = 0 \<and> (frame_full f \<longrightarrow> ef_empties f = [])
     \<and> (\<not> ef_hasFile f \<longrightarrow> ef_junk f = junk_info J)"

text \<open>What happened to a frame while \<open>T\<close> became topmost, \<open>K\<close> was the junk met and \<open>H\<close> says
  whether content was: everything new was offered or is held back.\<close>

definition frame_step ::
  "(gostring \<times> int) list \<Rightarrow> (gostring \<times> int) list \<Rightarrow> dirEnt list \<Rightarrow> bool \<Rightarrow> efFrame \<Rightarrow> efFrame \<Rightarrow> dirEnt list \<Rightarrow> bool" where
  "frame_step J K T H f f' ds \<longleftrightarrow>
     frame_ok (J @ K) f' \<and> ef_hasFile f' = (ef_hasFile f \<or> H) \<and> ef_isRoot f' = ef_isRoot f
     \<and> ef_path f' = ef_path f \<and> ef_mod f' = ef_mod f
     \<and> mset ds + mset (ef_empties f') = mset (ef_empties f) + mset T
     \<and> (\<not> frame_full f' \<longrightarrow> ds = [])"

definition offers :: "emptyFolderScan \<Rightarrow> emptyFolderScan \<Rightarrow> dirEnt list \<Rightarrow> bool" where
  "offers e e' ds \<longleftrightarrow> es_top e' = fold top_add (map candidate_ent ds) (es_top e) \<and> es_dropped e' = es_dropped e"

lemma offers_trans: "offers a b ds \<Longrightarrow> offers b c es \<Longrightarrow> offers a c (ds @ es)"
  by (simp add: offers_def)

lemma offers_emits: "es_top (fold ef_emit ds e) = fold top_add (map candidate_ent ds) (es_top e)"
  "es_dropped (fold ef_emit ds e) = es_dropped e"
  by (induction ds arbitrary: e) (auto simp: ef_emit_def)

lemma frame_step_trans:
  "frame_step J K T H f g ds \<Longrightarrow> frame_step (J @ K) K' T' H' g h es \<Longrightarrow> frame_step J (K @ K') (T @ T') (H \<or> H') f h (ds @ es)"
  unfolding frame_step_def frame_full_def
  by (auto simp: ac_simps)

lemma frame_step_refl: "frame_ok J f \<Longrightarrow> frame_step J [] [] False f f []"
  by (simp add: frame_step_def)

definition top_step ::
  "(gostring \<times> int) list \<Rightarrow> (gostring \<times> int) list \<Rightarrow> dirEnt list \<Rightarrow> bool \<Rightarrow> emptyFolderScan \<Rightarrow> emptyFolderScan \<Rightarrow> bool" where
  "top_step J K T H e e' \<longleftrightarrow> (\<exists>f rest f' ds. es_stack e = f # rest \<and> es_stack e' = f' # rest
     \<and> offers e e' ds \<and> frame_step J K T H f f' ds)"

lemma top_stepI:
  "es_stack e = f # rest \<Longrightarrow> es_stack e' = f' # rest \<Longrightarrow> offers e e' ds \<Longrightarrow> frame_step J K T H f f' ds
    \<Longrightarrow> top_step J K T H e e'"
  unfolding top_step_def by (intro exI conjI)

lemma offers_refl: "offers e e []"
  by (simp add: offers_def)

lemma top_step_trans:
  "top_step J K T H a b \<Longrightarrow> top_step (J @ K) K' T' H' b c \<Longrightarrow> top_step J (K @ K') (T @ T') (H \<or> H') a c"
proof -
  assume 1: "top_step J K T H a b" and 2: "top_step (J @ K) K' T' H' b c"
  obtain f g rest ds where A: "es_stack a = f # rest" "es_stack b = g # rest" "offers a b ds"
    "frame_step J K T H f g ds" using 1 unfolding top_step_def by (elim exE conjE) (rule that)
  obtain g' h rest' es where B: "es_stack b = g' # rest'" "es_stack c = h # rest'" "offers b c es"
    "frame_step (J @ K) K' T' H' g' h es" using 2 unfolding top_step_def by (elim exE conjE) (rule that)
  have "g' = g" "rest' = rest" using A(2) B(1) by auto
  then have "es_stack c = h # rest" "offers a c (ds @ es)" "frame_step J (K @ K') (T @ T') (H \<or> H') f h (ds @ es)"
    using A B offers_trans frame_step_trans by auto
  then show ?thesis unfolding top_step_def using A(1) by (intro exI conjI)
qed

lemma top_step_refl: "es_stack e = f # rest \<Longrightarrow> frame_ok J f \<Longrightarrow> top_step J [] [] False e e"
  by (rule top_stepI [OF _ _ offers_refl frame_step_refl])

lemma top_step_mark:
  assumes "es_stack e = f # rest" "frame_ok J f"
  shows "top_step J K [] True e (mark_top e)"
proof -
  have "frame_step J K [] True f (fst (markHasFile f e)) (if ef_hasFile f then [] else ef_empties f)"
    using assms(2) by (auto simp: frame_step_def frame_ok_def frame_full_def markHasFile_def Let_def)
  moreover have "offers e (mark_top e) (if ef_hasFile f then [] else ef_empties f)"
    using assms by (auto simp: offers_def mark_top_def markHasFile_def offers_emits frame_ok_def Let_def)
  moreover have "es_stack (mark_top e) = fst (markHasFile f e) # rest"
    using assms(1) by (simp add: mark_top_def case_prod_beta)
  ultimately show ?thesis using top_stepI [OF assms(1)] by blast
qed

lemma top_step_junk:
  assumes "es_stack e = f # rest" "frame_ok J f"
  shows "top_step J [(n, z)] [] False e (junk_top n z e)"
proof (cases "ef_hasFile f")
  case True
  then have "junk_top n z e = e" "frame_step J [(n, z)] [] False f f []"
    using assms by (auto simp: junk_top_def frame_step_def frame_ok_def frame_full_def)
  then show ?thesis using top_stepI [OF assms(1) assms(1) offers_refl] by simp
next
  case False
  let ?g = "f\<lparr>ef_junk := junk_info (J @ [(n, z)])\<rparr>"
  have "junk_top n z e = e\<lparr>es_stack := ?g # rest\<rparr>"
    using assms False junk_add_info [of n z J] by (simp add: junk_top_def frame_ok_def)
  then show ?thesis
    using assms False by (intro top_stepI [OF assms(1), where f' = ?g and ds = "[]"])
      (auto simp: offers_def frame_step_def frame_ok_def frame_full_def)
qed

text \<open>A folder's frame closes: its folders and junk become its parent's.\<close>

lemma top_step_pop:
  assumes e: "es_stack e = f # rest" and f: "frame_ok J f" "length (ef_empties f) < emptyFolderCap"
    and step: "top_step [] K T H (push_frame (new_frame q m False) e) e'"
  shows "top_step J K (if H then T else [\<lparr>d_path = q, d_mod = m, d_junk = junk_info K\<rparr>]) H e (ef_pop e')"
proof -
  obtain g ds where g: "es_stack e' = g # f # rest" "offers e e' ds"
    "frame_step [] K T H (new_frame q m False) g ds"
    using step e by (auto simp: top_step_def push_frame_def offers_def)
  note G = g(3) [unfolded frame_step_def frame_ok_def frame_full_def new_frame_def, simplified]
  have pop: "ef_pop e' = ef_pop_frame g (f # rest) e'" using g(1) by (simp add: ef_pop_def)
  show ?thesis
  proof (cases H)
    case True
    then have gf: "ef_hasFile g" "ef_empties g = []" "ef_dropped g = 0" "mset ds = mset T" using G by auto
    let ?es = "if ef_hasFile f then [] else ef_empties f"
    have p: "ef_pop e' = (snd (markHasFile f e'))\<lparr>es_stack := fst (markHasFile f e') # rest\<rparr>"
      using pop gf by (simp add: ef_pop_frame_def Let_def case_prod_beta)
    have "offers e' (ef_pop e') ?es"
      using f(1) unfolding p by (auto simp: offers_def markHasFile_def offers_emits frame_ok_def Let_def)
    then have o: "offers e (ef_pop e') (ds @ ?es)" using g(2) offers_trans by blast
    have "frame_step J K T True f (fst (markHasFile f e')) (ds @ ?es)"
      using f(1) gf(4) by (auto simp: frame_step_def frame_ok_def frame_full_def markHasFile_def Let_def)
    then show ?thesis using top_stepI [OF e _ o] True p by simp
  next
    case False
    then have gf: "\<not> ef_hasFile g" "\<not> ef_isRoot g" "ds = []" "ef_junk g = junk_info K"
      using G by auto
    let ?d = "\<lparr>d_path = q, d_mod = m, d_junk = junk_info K\<rparr>"
    let ?es = "if frame_full f then [?d] else []"
    let ?f = "merge_up g (fst (addEmpty ?d f e'))"
    have p: "ef_pop e' = (snd (addEmpty ?d f e'))\<lparr>es_stack := ?f # rest\<rparr>"
      using pop gf G by (simp add: ef_pop_frame_def Let_def case_prod_beta)
    have "offers e' (ef_pop e') ?es"
      using f unfolding p by (auto simp: offers_def addEmpty_def frame_full_def ef_emit_def)
    then have o: "offers e (ef_pop e') ?es" using g(2) gf(3) by (simp add: offers_def)
    have junk: "\<not> ef_hasFile f \<longrightarrow> ef_junk ?f = junk_info (J @ K)"
    proof (cases "K = []")
      case True
      then have "ef_junk g = None" using gf(4) by (simp add: junk_info_def)
      then show ?thesis using f(1) True by (simp add: merge_up_def addEmpty_def frame_ok_def)
    next
      case K: False
      then obtain j where j: "junk_info K = Some j" by (simp add: junk_info_def)
      then show ?thesis
        using f(1) gf(4) junk_merge_info [OF K, of J] by (simp add: merge_up_def addEmpty_def frame_ok_def)
    qed
    have emp: "ef_empties ?f = (if frame_full f then ef_empties f else ef_empties f @ [?d])" "ef_dropped ?f = 0"
      "ef_mod ?f = ef_mod f"
      using f by (auto simp: addEmpty_def frame_full_def frame_ok_def merge_up_def split: option.splits)
    have "frame_step J K [?d] False f ?f ?es"
      using f(1) junk emp by (auto simp: frame_step_def frame_ok_def frame_full_def)
    then show ?thesis using top_stepI [OF e _ o] False p by simp
  qed
qed

lemma top_steps:
  assumes "\<And>c J e f rest. c \<in> set cs \<Longrightarrow> es_stack e = f # rest \<Longrightarrow> frame_ok J f
      \<Longrightarrow> length (ef_empties f) + (if is_folder c then 1 else 0) \<le> emptyFolderCap
      \<Longrightarrow> top_step J (Kf c) (Tf c) (Hf c) e (h c e) \<and> (\<not> Hf c \<longrightarrow> length (Tf c) \<le> (if is_folder c then 1 else 0))"
    and "es_stack e = f # rest" "frame_ok J f"
    and "length (ef_empties f) + length (filter is_folder cs) \<le> emptyFolderCap"
  shows "top_step J (concat (map Kf cs)) (concat (map Tf cs)) (list_ex Hf cs) e (fold h cs e)"
  using assms
proof (induction cs arbitrary: J e f rest)
  case Nil
  then show ?case using top_step_refl by simp
next
  case (Cons c cs)
  have 1: "top_step J (Kf c) (Tf c) (Hf c) e (h c e)" "\<not> Hf c \<longrightarrow> length (Tf c) \<le> (if is_folder c then 1 else 0)"
  proof -
    have "length (ef_empties f) + (if is_folder c then 1 else 0) \<le> emptyFolderCap"
      using Cons.prems(4) by (auto split: if_splits)
    from Cons.prems(1) [OF _ Cons.prems(2,3) this]
    show "top_step J (Kf c) (Tf c) (Hf c) e (h c e)" "\<not> Hf c \<longrightarrow> length (Tf c) \<le> (if is_folder c then 1 else 0)"
      by simp_all
  qed
  then obtain g ds where g: "es_stack (h c e) = g # rest" "frame_step J (Kf c) (Tf c) (Hf c) f g ds"
    using Cons.prems(2) by (auto simp: top_step_def)
  have len: "length (ef_empties g) + length (filter is_folder cs) \<le> emptyFolderCap"
  proof (cases "frame_full g")
    case True
    then have "ef_empties g = []" using g(2) by (simp add: frame_step_def frame_ok_def)
    then show ?thesis using Cons.prems(4) by (simp split: if_splits)
  next
    case False
    then have "\<not> Hf c" "mset (ef_empties g) = mset (ef_empties f) + mset (Tf c)"
      using g(2) by (auto simp: frame_step_def frame_full_def)
    then have "length (ef_empties g) \<le> length (ef_empties f) + (if is_folder c then 1 else 0)"
      using 1(2) by (metis add_le_cancel_left size_mset size_union)
    then show ?thesis using Cons.prems(4) by (auto split: if_splits)
  qed
  have "top_step (J @ Kf c) (concat (map Kf cs)) (concat (map Tf cs)) (list_ex Hf cs) (h c e) (fold h cs (h c e))"
    by (rule Cons.IH [OF _ g(1) _ len]) (use Cons.prems(1) g(2) in \<open>auto simp: frame_step_def\<close>)
  from top_step_trans [OF 1(1) this] show ?case by simp
qed

lemma node_top_step:
  "good_node nd \<Longrightarrow> es_stack e = f # rest \<Longrightarrow> frame_ok J f
    \<Longrightarrow> length (ef_empties f) + (if is_folder nd then 1 else 0) \<le> emptyFolderCap
    \<Longrightarrow> top_step J (if holds_file s ws nd then [] else junk_below nd) (tops s ws nd) (holds_file s ws nd) e (node_effect s ws nd e)
      \<and> (\<not> holds_file s ws nd \<longrightarrow> length (tops s ws nd) \<le> (if is_folder nd then 1 else 0))"
proof (induction s ws nd arbitrary: e f rest J rule: holds_file.induct)
  case (1 s ws n)
  then show ?case using top_step_refl by (auto simp: tops_def)
next
  case (2 s ws n i)
  then show ?case using top_step_junk top_step_mark by (auto simp: tops_def)
next
  case (3 s ws n i fl cs)
  let ?nd = "NDir n i fl cs"
  consider "skipName n" | "\<not> skipName n" "mounted s (ws @ [n])" | "\<not> skipName n" "\<not> mounted s (ws @ [n])" by blast
  then show ?case
  proof cases
    case 1
    then show ?thesis using top_step_refl "3.prems" by (auto simp: tops_def)
  next
    case 2
    then show ?thesis using top_step_mark "3.prems" by (auto simp: tops_def)
  next
    case 3
    let ?e1 = "push_frame (new_frame (sp_path s (ws @ [n])) (w_mtime (the i)) False) e"
    let ?e2 = "(if fl then mark_top else (\<lambda>e. e)) ?e1"
    have g: "es_stack ?e1 = new_frame (sp_path s (ws @ [n])) (w_mtime (the i)) False # es_stack e"
      "frame_ok [] (new_frame (sp_path s (ws @ [n])) (w_mtime (the i)) False)"
      by (auto simp: push_frame_def new_frame_def frame_ok_def frame_full_def junk_info_def)
    have s1: "top_step [] [] [] fl ?e1 ?e2"
      using top_step_mark [OF g] top_step_refl [OF g] by simp
    then obtain g2 ds where g2: "es_stack ?e2 = g2 # es_stack e"
      "frame_step [] [] [] fl (new_frame (sp_path s (ws @ [n])) (w_mtime (the i)) False) g2 ds"
      using g(1) unfolding top_step_def by (metis list.inject)
    have len: "length (ef_empties g2) + length (filter is_folder cs) \<le> emptyFolderCap"
      using g2(2) "3.prems"(1) by (auto simp: frame_step_def new_frame_def)
    have ok2: "frame_ok [] g2" using g2(2) by (simp add: frame_step_def)
    let ?Kf = "\<lambda>c. if holds_file s (ws @ [n]) c then [] else junk_below c"
    have s2: "top_step [] (concat (map ?Kf cs)) (concat (map (tops s (ws @ [n])) cs)) (list_ex (holds_file s (ws @ [n])) cs)
        ?e2 (fold (node_effect s (ws @ [n])) cs ?e2)"
    proof (rule top_steps [OF _ g2(1) ok2 len])
      fix c J' f' rest' and e' :: emptyFolderScan
      assume c: "c \<in> set cs" and *: "es_stack e' = f' # rest'" "frame_ok J' f'"
        "length (ef_empties f') + (if is_folder c then 1 else 0) \<le> emptyFolderCap"
      have "good_node c" using "3.prems"(1) c by (auto simp: list_all_iff)
      from "3.IH" [OF c this *]
      show "top_step J' (?Kf c) (tops s (ws @ [n]) c) (holds_file s (ws @ [n]) c) e' (node_effect s (ws @ [n]) c e')
          \<and> (\<not> holds_file s (ws @ [n]) c \<longrightarrow> length (tops s (ws @ [n]) c) \<le> (if is_folder c then 1 else 0))"
        by simp
    qed
    let ?K = "concat (map ?Kf cs)" and ?H = "fl \<or> list_ex (holds_file s (ws @ [n])) cs"
    have s3: "top_step [] ?K (concat (map (tops s (ws @ [n])) cs)) ?H ?e1 (fold (node_effect s (ws @ [n])) cs ?e2)"
      using top_step_trans [OF s1, of ?K] s2 by simp
    have H: "holds_file s ws ?nd = ?H" using 3 by simp
    have K: "?K = junk_below ?nd" if "\<not> ?H"
    proof -
      have m: "map ?Kf cs = map junk_below cs" using that by (simp add: list_ex_iff)
      show ?thesis unfolding m using 3 by simp
    qed
    have "length (ef_empties f) < emptyFolderCap" using "3.prems"(4) by simp
    from top_step_pop [OF "3.prems"(2,3) this s3]
    have p: "top_step J ?K (if ?H then concat (map (tops s (ws @ [n])) cs)
        else [\<lparr>d_path = sp_path s (ws @ [n]), d_mod = w_mtime (the i), d_junk = junk_info ?K\<rparr>]) ?H e
        (node_effect s ws ?nd e)"
      using 3 by simp
    have t: "tops s ws ?nd = (if ?H then concat (map (tops s (ws @ [n])) cs)
        else [\<lparr>d_path = sp_path s (ws @ [n]), d_mod = w_mtime (the i), d_junk = junk_info ?K\<rparr>])"
      using tops_folder [OF 3(1,2), of i fl cs] H K 3 by (auto simp: folder_row_def)
    have K': "top_step J K' T True a b" if "top_step J K T True a b" for J K K' T a b
      using that unfolding top_step_def frame_step_def frame_ok_def frame_full_def by auto
    show ?thesis
    proof (cases ?H)
      case True
      then show ?thesis using K' p t H by (simp only: if_True simp_thms)
    next
      case False
      note nH = this
      have "top_step J (junk_below ?nd) (tops s ws ?nd) False e (node_effect s ws ?nd e)"
        using p [unfolded t [symmetric]] nH K [OF nH] by (simp only: if_False)
      moreover have "length (tops s ws ?nd) \<le> 1" unfolding t using nH by (simp only: if_False) simp
      moreover have "holds_file s ws ?nd = False" using nH H by simp
      ultimately show ?thesis by (simp only: if_False if_True is_folder.simps simp_thms)
    qed
  qed
qed

subsection \<open>The whole walk of a root\<close>

lemma pop_all_close: "pop_all e = close_to 0 e"
proof (induction e rule: pop_all.induct)
  case (1 e)
  then show ?case by (cases "es_stack e = []") (subst pop_all.simps, simp add: close_to_step)+
qed

lemma popTo_empty: "es_stack e = [] \<Longrightarrow> popTo p e = e"
  by (subst popTo.simps) simp

definition root_frame :: "espec \<Rightarrow> efFrame" where
  "root_frame s = new_frame (sp_path s []) None True"

definition enter_root :: "espec \<Rightarrow> emptyFolderScan \<Rightarrow> emptyFolderScan" where
  "enter_root s e = push_frame (root_frame s) (e\<lparr>es_curRoot := Some (sp_idx s)\<rparr>)"

definition good_root :: "node list \<Rightarrow> bool" where
  "good_root nodes \<longleftrightarrow> distinct (map node_name nodes) \<and> length (filter is_folder nodes) \<le> emptyFolderCap
     \<and> list_all good_node nodes"

lemma good_node_proper: "good_node nd \<Longrightarrow> proper (node_name nd)"
  by (cases nd) auto

lemma first_visit:
  assumes "good_spec s" "proper n" "es_stack e = []" "es_curRoot e \<noteq> Some (sp_idx s)"
  shows "ef_call lower (node_visit s [] n isDir i) e = ef_call lower (node_visit s [] n isDir i) (enter_root s e)"
proof -
  have d: "Dir (sp_path s [n]) = sp_path s []"
    using Dir_abs_path [of "sp_root s" n] assms(1,2) by (simp add: sp_path_def good_spec_def)
  have "popTo (sp_path s ([] @ [n])) (enter_root s e) = enter_root s e"
    by (rule ef_visit_inside(1) [where f = "root_frame s" and rest = "[]"])
      (use assms in \<open>simp_all add: enter_root_def push_frame_def root_frame_def new_frame_def\<close>)
  then show ?thesis
    using assms d
    by (simp add: node_visit_def ef_visit_def walk_entry_def zero_fEnt_def pop_all_close popTo_empty ef_enter_def
        enter_root_def root_frame_def push_frame_def)
qed

lemma entered_root_run:
  assumes s: "good_spec s" and g: "good_root nodes" and e: "es_stack e = []"
  shows "\<exists>ds. offers e (pop_all (fold (run_node s []) nodes (enter_root s e))) ds
    \<and> mset ds = mset (concat (map (tops s []) nodes))"
proof -
  let ?e = "enter_root s e"
  have st: "es_stack ?e = root_frame s # []" using e by (simp add: enter_root_def push_frame_def)
  have ok: "frame_ok [] (root_frame s)"
    by (simp add: root_frame_def new_frame_def frame_ok_def junk_info_def)
  have C: "close_to 1 ?e = ?e" using st by simp
  have kids: "\<forall>c \<in> set nodes. does_effect s [] c \<and> good_node c \<and> list_all proper ([] @ [node_name c])"
    using g node_does_effect [OF s] good_node_proper by (auto simp: good_root_def list_all_iff)
  have D: "opened_in s [] ({} \<union> node_name ` set nodes) 1 (fold (run_node s []) nodes ?e)
      \<and> close_to 1 (fold (run_node s []) nodes ?e) = fold (node_effect s []) nodes (close_to 1 ?e)"
  proof (rule does_effects [OF s kids])
    show "opened_in s [] {} 1 ?e"
      by (rule opened_here) (use st in \<open>simp_all add: enter_root_def push_frame_def\<close>)
    show "1 = length (es_stack (close_to 1 ?e))" "hd (stack_paths (close_to 1 ?e)) = sp_path s []"
      unfolding C using st by (simp_all add: stack_paths_def root_frame_def new_frame_def)
  qed (use g in \<open>simp_all add: good_root_def\<close>)
  let ?E = "fold (run_node s []) nodes ?e" and ?F = "fold (node_effect s []) nodes ?e"
  have F: "close_to 1 ?E = ?F" using D C by simp
  let ?Kf = "\<lambda>c. if holds_file s [] c then [] else junk_below c"
  have "top_step [] (concat (map ?Kf nodes)) (concat (map (tops s []) nodes)) (list_ex (holds_file s []) nodes) ?e ?F"
  proof (rule top_steps [OF _ st ok])
    fix c J' f' rest' and e' :: emptyFolderScan
    assume c: "c \<in> set nodes" and *: "es_stack e' = f' # rest'" "frame_ok J' f'"
      "length (ef_empties f') + (if is_folder c then 1 else 0) \<le> emptyFolderCap"
    have "good_node c" using g c by (auto simp: good_root_def list_all_iff)
    from node_top_step [OF this *]
    show "top_step J' (?Kf c) (tops s [] c) (holds_file s [] c) e' (node_effect s [] c e')
          \<and> (\<not> holds_file s [] c \<longrightarrow> length (tops s [] c) \<le> (if is_folder c then 1 else 0))" by simp
  qed (use g in \<open>simp add: good_root_def root_frame_def new_frame_def\<close>)
  then obtain f ds where f: "es_stack ?F = [f]" "offers ?e ?F ds"
    "frame_step [] (concat (map ?Kf nodes)) (concat (map (tops s []) nodes)) (list_ex (holds_file s []) nodes) (root_frame s) f ds"
    using st unfolding top_step_def by auto
  have full: "ef_isRoot f" "ef_empties f = []" "ef_dropped f = 0" "mset ds = mset (concat (map (tops s []) nodes))"
    using f(3) by (auto simp: frame_step_def frame_ok_def frame_full_def root_frame_def new_frame_def)
  have "0 < length (es_stack ?E)" using D by (auto simp: opened_in_def)
  then have "pop_all ?E = ef_pop ?F" using F by (simp add: pop_all_close close_to_Suc)
  also have "\<dots> = ?F\<lparr>es_stack := []\<rparr>"
    using f(1) full by (simp add: ef_pop_def ef_pop_frame_def Let_def)
  finally have "offers e (pop_all ?E) ds"
    using f(2) by (simp add: offers_def enter_root_def push_frame_def)
  then show ?thesis using full(4) by blast
qed

lemma root_run:
  assumes s: "good_spec s" and "good_root nodes" and "es_stack e = []" "es_curRoot e \<noteq> Some (sp_idx s)"
  shows "\<exists>ds. offers e (pop_all (fold (run_node s []) nodes e)) ds
    \<and> mset ds = mset (concat (map (tops s []) nodes))"
  using assms(2-)
proof (induction nodes)
  case Nil
  then show ?case by (auto simp: pop_all_close offers_def intro!: exI [of _ "[]"])
next
  case (Cons c cs)
  have gc: "good_node c" and gr: "good_root cs"
    using Cons.prems(1) by (auto simp: good_root_def split: if_splits)
  have pr: "list_all proper ([] @ [node_name c])" using good_node_proper [OF gc] by simp
  note sub = Cons.IH [OF gr Cons.prems(2,3)]
  show ?case
  proof (cases "\<exists>isDir i. \<exists>cl. node_calls s [] c = node_visit s [] (node_name c) isDir i # cl")
    case True
    then obtain isDir i cl where cl: "node_calls s [] c = node_visit s [] (node_name c) isDir i # cl" by blast
    have "run_node s [] c e = run_node s [] c (enter_root s e)"
      using first_visit [OF s good_node_proper [OF gc] Cons.prems(2,3)]
      by (simp add: run_node_def ef_run_def cl)
    then show ?thesis using entered_root_run [OF s Cons.prems(1,2)] by simp
  next
    case False
    have "run_node s [] c e = e \<and> tops s [] c = []"
    proof (cases c)
      case (NFile n i)
      then show ?thesis using False node_calls_simps(2) [OF s pr] gc by auto
    next
      case (NDir n i fl ds)
      then obtain j where j: "i = Some j" using gc by auto
      note calls = node_calls_simps(3) [OF s pr, of n j fl ds]
      have "skipName n \<or> mounted s ([] @ [n])" using False NDir j calls by (auto split: if_splits)
      moreover have "ef_noteUnreadable p e = e" for p
        using Cons.prems(2) by (simp add: ef_noteUnreadable_def popTo_empty mark_top_def)
      ultimately show ?thesis
        using NDir j calls by (auto simp: run_node_def ef_run_def tops_def split: if_splits)
    next
      case (NOther n)
      then show ?thesis using node_calls_simps(1) [OF s pr] by (simp add: run_node_def ef_run_def tops_def)
    qed
    then show ?thesis using sub by simp
  qed
qed

lemma confirm_all_rows:
  "map (\<lambda>r. (FDir r, Name r)) (fst (confirm_all fm confirm cands n))
     = map (\<lambda>c. (f_dir c, f_name c)) (filter (\<lambda>c. confirm (f_path c) = Inr True) cands)"
proof (induction cands arbitrary: n)
  case (Cons c cs)
  obtain row n1 where r: "fileEnt fm c n = (row, n1)" by fastforce
  then have d: "FDir row = f_dir c" "Name row = f_name c"
    by (auto simp: fileEnt_def Let_def)
  show ?case
  proof (cases "confirm (f_path c)")
    case (Inl err)
    then show ?thesis using Cons by (simp add: case_prod_beta)
  next
    case (Inr b)
    then show ?thesis
      using Cons r d by (cases b; cases "f_junk c") (simp_all add: case_prod_beta)
  qed
qed simp

text \<open>C8. What the empty-folder scan reports: over the walk of a root, its rows are the topmost folders of the tree
  that hold nothing but junk the walk can see (every folder inside readable, none of them a self-mount), in the
  order of their paths and cut at the cap, those of them that File Station confirmed; the count reported as left
  out is exactly the number beyond the cap.\<close>

theorem empty_folders_topmost:
  assumes "good_spec s" "good_root nodes"
    and fin: "ef_finish fm confirm
      (ef_run (sp_lower s) (walk_root_rec (sp_ctx s) fl nodes) newEmptyFolderScan) n = (rows, trunc, errs, n')"
  shows "map (\<lambda>r. (FDir r, Name r)) rows
      = map (\<lambda>p. (Dir p, Base p)) (filter (\<lambda>p. confirm p = Inr True)
          (take emptyFolderCap (sort (map d_path (topmost_empty s nodes)))))
    \<and> trunc = (if length (topmost_empty s nodes) \<le> emptyFolderCap then None
        else Some (zero_TruncInfo\<lparr>TFiles := int (length (topmost_empty s nodes) - emptyFolderCap),
               Cap := int emptyFolderCap\<rparr>))"
proof -
  let ?e0 = newEmptyFolderScan
  have e0: "es_stack ?e0 = []" "es_curRoot ?e0 \<noteq> Some (sp_idx s)" "es_dropped ?e0 = 0"
    "es_top ?e0 = newBoundedTop emptyFolderCap"
    by (simp_all add: newEmptyFolderScan_def)
  have un: "ef_run (sp_lower s) (if fl then [WalkErr p, Unreadable p] else []) ?e0 = ?e0" for p
    using e0(1) by (simp add: ef_run_def ef_noteUnreadable_def popTo_empty mark_top_def)
  have F: "fold (ef_call l) (concat (map h cs)) e = fold (\<lambda>c. fold (ef_call l) (h c)) cs e" for l h cs e
    by (induction cs arbitrary: e) auto
  have R: "(\<lambda>c. fold (ef_call (sp_lower s)) (walk_node (sp_ctx s) [] c)) = run_node s []"
    by (simp add: run_node_def ef_run_def node_calls_def fun_eq_iff)
  have run: "ef_run (sp_lower s) (walk_root_rec (sp_ctx s) fl nodes) ?e0 = fold (run_node s []) nodes ?e0"
    using un unfolding walk_root_rec_def ef_run_def fold_append comp_def F R by simp
  obtain ds where ds: "offers ?e0 (pop_all (fold (run_node s []) nodes ?e0)) ds"
    "mset ds = mset (concat (map (tops s []) nodes))"
    using root_run [OF assms(1,2) e0(1,2)] by blast
  have "concat (map (tops s []) nodes) = topmost_empty s nodes"
    unfolding topmost_empty_def by (induction nodes) (auto simp: tops_def)
  then have tm: "mset ds = mset (topmost_empty s nodes)" using ds(2) by simp
  let ?t = "fold top_add (map candidate_ent ds) (newBoundedTop emptyFolderCap)"
  have saw: "top_saw (map candidate_ent ds) ?t"
    using top_saw_fold [OF top_saw_new, of emptyFolderCap "map candidate_ent ds"]
    by (simp add: newBoundedTop_def emptyFolderCap_def)
  have "bt_limit (fold top_add xs t) = bt_limit t" for xs t by (induction xs arbitrary: t) auto
  then have limit: "bt_limit ?t = emptyFolderCap" by (simp add: newBoundedTop_def)
  have dp: "f_path (candidate_ent d) = d_path d" for d by (simp add: candidate_ent_def)
  have "sort (map f_path (map candidate_ent ds)) = sort (map d_path (topmost_empty s nodes))"
  proof -
    have "map f_path (map candidate_ent ds) = map d_path ds" by (simp add: dp)
    moreover have "mset (map d_path ds) = mset (map d_path (topmost_empty s nodes))" using tm by simp
    ultimately show ?thesis by (metis sorted_list_of_multiset_mset)
  qed
  then have paths: "map f_path (fst (top_final ?t)) = take emptyFolderCap (sort (map d_path (topmost_empty s nodes)))"
    using top_saw_final(1) [OF saw] limit by simp
  have ent: "f_dir c = Dir (f_path c) \<and> f_name c = Base (f_path c)" if "c \<in> set (fst (top_final ?t))" for c
    using top_saw_final(2) [OF saw] that by (auto simp: candidate_ent_def)
  have rows: "rows = fst (confirm_all fm confirm (fst (top_final ?t)) n)"
    "trunc = snd (top_final ?t)"
    using fin ds(1) e0 run
    by (auto simp: ef_finish_def offers_def Let_def ef_trunc_def split: prod.splits)
  have "map (\<lambda>r. (FDir r, Name r)) rows
      = map (\<lambda>c. (Dir (f_path c), Base (f_path c))) (filter (\<lambda>c. confirm (f_path c) = Inr True) (fst (top_final ?t)))"
    unfolding rows confirm_all_rows using ent by simp
  also have "\<dots> = map (\<lambda>p. (Dir p, Base p)) (filter (\<lambda>p. confirm p = Inr True) (map f_path (fst (top_final ?t))))"
    by (simp add: filter_map comp_def)
  finally have A: "map (\<lambda>r. (FDir r, Name r)) rows
      = map (\<lambda>p. (Dir p, Base p)) (filter (\<lambda>p. confirm p = Inr True)
          (take emptyFolderCap (sort (map d_path (topmost_empty s nodes)))))"
    unfolding paths .
  have "length ds = length (topmost_empty s nodes)" using tm by (metis size_mset)
  then have "bt_dropped ?t = length (topmost_empty s nodes) - emptyFolderCap"
    using top_saw_final(3) [OF saw] limit by simp
  then show ?thesis using A rows(2) limit by (auto simp: top_final_def)
qed

text \<open>A root with a folder of junk, a folder with a document and an empty folder inside it, and a folder of
  empty folders.\<close>

definition ex_winfo :: winfo where
  "ex_winfo = \<lparr>w_size = 10, w_blocks = Some 8, w_mtime = Some 100, w_link = \<lparr>dev = 1, ino = 2, n_links = 1\<rparr>\<rparr>"

definition ex_tree :: "node list" where
  "ex_tree =
     [NDir ''a'' (Some ex_winfo) False [NFile ''Thumbs.db'' (Some ex_winfo)],
      NDir ''b'' (Some ex_winfo) False [NFile ''doc'' (Some ex_winfo), NDir ''e'' (Some ex_winfo) False []],
      NDir ''c'' (Some ex_winfo) False [NDir ''x'' (Some ex_winfo) False [], NDir ''y'' (Some ex_winfo) False []],
      NDir ''d'' (Some ex_winfo) True []]"

definition ex_espec :: espec where
  "ex_espec = \<lparr>sp_idx = 0, sp_root = [''v'', ''s''], sp_canon = ''/v/s'', sp_selfm = [], sp_lower = (\<lambda>r. r)\<rparr>"

theorem empty_folders_topmost_witness:
  "map (\<lambda>r. (FDir r, Name r)) (fst (ef_finish \<lparr>fm_time = (\<lambda>_. []), fm_upper = (\<lambda>x. x)\<rparr>
      (\<lambda>p. Inr (p \<noteq> ''/v/s/b/e''))
      (ef_run (\<lambda>r. r) (walk_root_rec (sp_ctx ex_espec) False ex_tree) newEmptyFolderScan) 0))
    = [(''/v/s'', ''a''), (''/v/s'', ''c'')]"
proof -
  let ?f = "ef_finish \<lparr>fm_time = (\<lambda>_. []), fm_upper = (\<lambda>x. x)\<rparr>
      (\<lambda>p. Inr (p \<noteq> ''/v/s/b/e''))
      (ef_run (sp_lower ex_espec) (walk_root_rec (sp_ctx ex_espec) False ex_tree) newEmptyFolderScan) 0"
  have g: "good_spec ex_espec" "good_root ex_tree"
    by (simp_all add: good_spec_def good_root_def ex_espec_def ex_tree_def proper_def emptyFolderCap_def)
  have t: "map d_path (topmost_empty ex_espec ex_tree) = [''/v/s/a'', ''/v/s/b/e'', ''/v/s/c'']"
    by code_simp
  obtain rows trunc errs n' where f: "?f = (rows, trunc, errs, n')" by (metis prod_cases4)
  have "sort [''/v/s/a'', ''/v/s/b/e'', ''/v/s/c''] = [''/v/s/a'', ''/v/s/b/e'', ''/v/s/c'']" by code_simp
  then have "map (\<lambda>r. (FDir r, Name r)) rows = map (\<lambda>p. (Dir p, Base p)) [''/v/s/a'', ''/v/s/c'']"
    using empty_folders_topmost [OF g f] t by (simp add: emptyFolderCap_def)
  moreover have "map (\<lambda>p. (Dir p, Base p)) [''/v/s/a'', ''/v/s/c''] = [(''/v/s'', ''a''), (''/v/s'', ''c'')]" by code_simp
  moreover have "sp_lower ex_espec = (\<lambda>r. r)" by (simp add: ex_espec_def)
  ultimately show ?thesis using f by simp
qed

end
