(* ===== verification/MediaFile.thy ===== *)
theory MediaFile
  imports Prelude Binary "HOL-Library.Monad_Syntax" "HOL-Library.Word"
begin

text \<open>
  What the readers of package \<open>internal/media\<close> stand on: a file read by offset
  (\<open>io.ReaderAt\<close>), Go's slice expressions, its sized integers and the big-endian and
  little-endian readers of \<open>encoding/binary\<close>.

  The readers work on bytes they do not control, so what goes wrong is a value here: a
  slice or an index out of range, which panics in Go, is \<open>None\<close>, and every function of
  the readers that slices returns an \<open>option\<close> -- \<open>Some r\<close> is the return of
  \<open>r\<close>.  An \<open>int\<close> has the width of the build: \<open>goint w\<close> is the value of a sum or a
  conversion in a \<open>w\<close>-bit \<open>int\<close>, with \<open>w = 32\<close> for the armv7 binary
  \<open>build.sh\<close> ships and \<open>w = 64\<close> for the others; \<open>int64\<close> arithmetic is
  \<open>goint 64\<close>.
\<close>

subsection \<open>Sized integers\<close>

definition goint :: "nat \<Rightarrow> int \<Rightarrow> int" where
  "goint w x = signed_take_bit (w - 1) x"

definition int_width :: "nat \<Rightarrow> bool" where
  "int_width w \<longleftrightarrow> w = 32 \<or> w = 64"

lemma goint_id: "0 < w \<Longrightarrow> - (2 ^ (w - 1)) \<le> x \<Longrightarrow> x < 2 ^ (w - 1) \<Longrightarrow> goint w x = x"
  by (auto simp: goint_def signed_take_bit_int_eq_self_iff)

lemma goint_small:
  assumes "int_width w" and "- 2147483648 \<le> x" and "x < 2147483648"
  shows "goint w x = x"
  using assms by (auto simp: int_width_def intro!: goint_id)

lemma goint64_small: "- 9223372036854775808 \<le> x \<Longrightarrow> x < 9223372036854775808 \<Longrightarrow> goint 64 x = x"
  by (auto intro!: goint_id)

lemma goint64_lower: "- 9223372036854775808 \<le> goint 64 x"
  and goint64_upper: "goint 64 x < 9223372036854775808"
  using signed_take_bit_int_greater_eq_minus_exp [of 63 x]
    signed_take_bit_int_less_exp [of 63 x]
  by (auto simp: goint_def)

text \<open>A conversion never raises a value that is not negative after it.\<close>

lemma goint_nonneg_le: "0 \<le> x \<Longrightarrow> goint w x \<le> x"
proof -
  assume x: "0 \<le> x"
  let ?n = "w - 1"
  have "goint w x \<le> take_bit (Suc ?n) x"
    by (simp add: goint_def signed_take_bit_eq_take_bit_minus)
  also have "\<dots> \<le> x" using x by (simp add: take_bit_int_less_eq_self_iff)
  finally show ?thesis .
qed

subsection \<open>Slices and byte orders\<close>

text \<open>\<open>b[lo:hi]\<close> and \<open>b[i]\<close>.  The bound is the length; the readers are shown never
  to pass it.\<close>

definition subslice :: "gostring \<Rightarrow> int \<Rightarrow> int \<Rightarrow> gostring option" where
  "subslice b lo hi = (if 0 \<le> lo \<and> lo \<le> hi \<and> hi \<le> int (length b)
     then Some (take (nat (hi - lo)) (drop (nat lo) b)) else None)"

definition byte_at :: "gostring \<Rightarrow> int \<Rightarrow> nat option" where
  "byte_at b i = (if 0 \<le> i \<and> i < int (length b) then Some (of_char (b ! nat i)) else None)"

text \<open>\<open>binary.BigEndian\<close> and \<open>binary.LittleEndian\<close>: the value of the first
  \<open>n\<close> bytes; a shorter slice panics.\<close>

fun get_be :: "gostring \<Rightarrow> nat" where
  "get_be [] = 0"
| "get_be (b # bs) = of_char b * 256 ^ length bs + get_be bs"

definition Uint :: "bool \<Rightarrow> nat \<Rightarrow> gostring \<Rightarrow> nat option" where
  "Uint big n b = (if length b < n then None
     else Some (if big then get_be (take n b) else get_le (take n b)))"

lemma of_char_less: "of_char c < (256 :: nat)"
  by (rule nat_of_char_less_256)

lemma get_be_less: "get_be bs < 256 ^ length bs"
proof (induction bs)
  case (Cons b bs)
  have "of_char b * 256 ^ length bs + get_be bs < of_char b * 256 ^ length bs + 256 ^ length bs"
    using Cons by simp
  also have "\<dots> = (of_char b + 1) * 256 ^ length bs" by simp
  also have "\<dots> \<le> 256 * 256 ^ length bs"
    using Suc_leI [OF of_char_less [of b]] by (intro mult_right_mono) (simp_all only: Suc_eq_plus1)
  finally show ?case by simp
qed simp

lemma get_le_less: "get_le bs < 256 ^ length bs"
proof (induction bs)
  case (Cons b bs)
  have "of_char b + 256 * get_le bs < 256 + 256 * get_le bs"
    by (simp add: of_char_less)
  also have "\<dots> = 256 * (get_le bs + 1)" by simp
  also have "\<dots> \<le> 256 * 256 ^ length bs" using Cons by (intro mult_le_mono2) simp
  finally show ?case by simp
qed simp

lemma Uint_some: "n \<le> length b \<Longrightarrow> \<exists>v. Uint big n b = Some v"
  by (simp add: Uint_def)

lemma Uint_less: "Uint big n b = Some v \<Longrightarrow> v < 256 ^ n"
  using get_be_less [of "take n b"] get_le_less [of "take n b"]
  by (auto simp: Uint_def min_def split: if_splits)

lemma subslice_some:
  "0 \<le> lo \<Longrightarrow> lo \<le> hi \<Longrightarrow> hi \<le> int (length b)
   \<Longrightarrow> subslice b lo hi = Some (take (nat (hi - lo)) (drop (nat lo) b))"
  by (simp add: subslice_def)

lemma length_subslice: "subslice b lo hi = Some s \<Longrightarrow> int (length s) = hi - lo"
  by (auto simp: subslice_def split: if_splits)

lemma subslice_ex: "0 \<le> lo \<Longrightarrow> lo \<le> hi \<Longrightarrow> hi \<le> int (length b)
   \<Longrightarrow> \<exists>s. subslice b lo hi = Some s \<and> int (length s) = hi - lo"
  by (simp add: subslice_def)

lemma byte_at_some: "0 \<le> i \<Longrightarrow> i < int (length b) \<Longrightarrow> \<exists>v. byte_at b i = Some v"
  by (simp add: byte_at_def)

text \<open>A number read at a position: \<open>bo.Uint16(t[p : p+2])\<close> and its like.\<close>

definition uint_at :: "nat \<Rightarrow> bool \<Rightarrow> nat \<Rightarrow> gostring \<Rightarrow> int \<Rightarrow> nat option" where
  "uint_at w big n b p = subslice b p (goint w (p + int n)) \<bind> Uint big n"

lemma uint_at_some:
  assumes "int_width w" and "0 \<le> p" and "p + int n \<le> int (length b)"
    and "length b < 2147483648"
  shows "\<exists>v. uint_at w big n b p = Some v \<and> v < 256 ^ n"
proof -
  have g: "goint w (p + int n) = p + int n"
    using assms by (intro goint_small) auto
  obtain s where s: "subslice b p (p + int n) = Some s" "int (length s) = int n"
    using subslice_ex [of p "p + int n" b] assms by auto
  then have "\<exists>v. Uint big n s = Some v" by (intro Uint_some) simp
  then obtain v where "Uint big n s = Some v" ..
  with s g show ?thesis by (auto simp: uint_at_def Uint_less)
qed

subsection \<open>Files read by offset\<close>

text \<open>An open file: its bytes, and the offsets the drive cannot read back.  The size the
  scan recorded may differ from the length, for the file may have changed since.\<close>

record osfile =
  content :: gostring
  bad :: "nat \<Rightarrow> bool"

datatype read_err = EOF | IOErr

fun readable :: "(nat \<Rightarrow> bool) \<Rightarrow> nat \<Rightarrow> gostring \<Rightarrow> gostring" where
  "readable bd i [] = []"
| "readable bd i (b # bs) = (if bd i then [] else b # readable bd (Suc i) bs)"

text \<open>\<open>f.ReadAt(buf[:n], off)\<close>: what it read and its error, nil exactly when the buffer
  was filled.\<close>

definition ReadAt :: "osfile \<Rightarrow> nat \<Rightarrow> int \<Rightarrow> gostring \<times> read_err option" where
  "ReadAt f n off =
     (if off < 0 then ([], Some IOErr)
      else (let want = take n (drop (nat off) (content f));
                got = readable (bad f) (nat off) want
            in (got, if length got = n then None
                     else if length got < length want then Some IOErr else Some EOF)))"

definition read_full :: "osfile \<Rightarrow> nat \<Rightarrow> int \<Rightarrow> gostring option" where
  "read_full f n off = (case ReadAt f n off of (b, None) \<Rightarrow> Some b | (_, Some _) \<Rightarrow> None)"

definition sound_file :: "gostring \<Rightarrow> osfile" where
  "sound_file c = \<lparr>content = c, bad = (\<lambda>_. False)\<rparr>"

lemma length_readable: "length (readable bd i bs) \<le> length bs"
  by (induction bs arbitrary: i) (auto simp: le_SucI)

lemma readable_good [simp]: "readable (\<lambda>_. False) i bs = bs"
  by (induction bs arbitrary: i) auto

lemma readable_all: "length (readable bd i bs) = length bs \<Longrightarrow> readable bd i bs = bs"
proof (induction bs arbitrary: i)
  case (Cons b bs)
  then show ?case by (auto split: if_splits)
qed simp

lemma read_full_SomeD:
  assumes "read_full f n off = Some b"
  shows "length b = n" and "0 \<le> off" and "b = take n (drop (nat off) (content f))"
    and "nat off + n \<le> length (content f) \<or> n = 0"
proof -
  from assms have off: "\<not> off < 0"
    by (auto simp: read_full_def ReadAt_def split: if_splits)
  with assms show "0 \<le> off" by simp
  let ?want = "take n (drop (nat off) (content f))"
  let ?got = "readable (bad f) (nat off) ?want"
  from assms off have b: "b = ?got" and n: "length ?got = n"
    by (auto simp: read_full_def ReadAt_def Let_def split: if_splits)
  show "length b = n" using b n by simp
  have "length ?got = length ?want"
    using n length_readable [of "bad f" "nat off" ?want] by simp
  then show "b = ?want" using b readable_all by simp
  have "n \<le> length ?want" using n length_readable [of "bad f" "nat off" ?want] by simp
  then show "nat off + n \<le> length (content f) \<or> n = 0" by auto
qed

lemma read_full_sound [simp]:
  "read_full (sound_file c) n off = (if 0 \<le> off \<and> (nat off + n \<le> length c \<or> n = 0)
     then Some (take n (drop (nat off) c)) else None)"
  by (auto simp: read_full_def ReadAt_def Let_def sound_file_def min_def)

end
