(* ===== verification/PngCheck.thy ===== *)
theory PngCheck
  imports MediaFile
begin

unbundle bit_operations_syntax

text \<open>
  \<open>verifyPNG\<close> of \<open>internal/media/verify.go\<close>: the walk of a PNG's chunk list that
  recomputes the CRC32 of every chunk, with \<open>hash/crc32\<close> (the IEEE polynomial, one bit
  at a time) written out.  The lemmas are that the verdict is Proven exactly for a file that is
  a list of well-summed chunks closed by its end-of-image chunk, and that one changed byte of a
  chunk's type, data or checksum is always found.
\<close>

subsection \<open>Verdicts and their evidence\<close>

datatype Intactness = Unproven | Proven | Damaged

text \<open>An evidence text is kept as its parts: fixed text, a quoted text (\<open>%q\<close>), a number
  (\<open>%d\<close>) and a byte count (\<open>FmtBytes\<close>).  The empty text is the empty list.\<close>

datatype part = T gostring | Quoted gostring | Number int | Amount int

type_synonym evidence = "part list"
type_synonym finding = "Intactness \<times> evidence"

text \<open>The answers of the polls of the scan's cancel channel, in order.\<close>

type_synonym polls = "nat \<Rightarrow> bool"

abbreviation never :: polls where "never \<equiv> \<lambda>_. False"

lemma never_polls: "\<not> False" by simp

subsection \<open>CRC32\<close>

definition crc_poly :: "32 word" where "crc_poly = 0xEDB88320"

definition crc_step :: "32 word \<Rightarrow> 32 word" where
  "crc_step s = (if bit s 0 then drop_bit 1 s XOR crc_poly else drop_bit 1 s)"

definition crc_byte :: "32 word \<Rightarrow> char \<Rightarrow> 32 word" where
  "crc_byte s b = (crc_step ^^ 8) (s XOR of_nat (of_char b))"

definition crc_update :: "32 word \<Rightarrow> gostring \<Rightarrow> 32 word" where
  "crc_update = foldl crc_byte"

definition crc_start :: "32 word" where "crc_start = NOT 0"

definition crc32 :: "gostring \<Rightarrow> 32 word" where
  "crc32 bs = NOT (crc_update crc_start bs)"

lemma crc_update_append: "crc_update s (xs @ ys) = crc_update (crc_update s xs) ys"
  by (simp add: crc_update_def)

text \<open>The polynomial has its top bit, the shifted register has not, so a step can be undone.\<close>

lemma crc_step_top: "bit (crc_step s) 31 \<longleftrightarrow> bit s 0"
proof -
  have "bit crc_poly 31" by (simp add: crc_poly_def)
  moreover have "\<not> bit (drop_bit 1 s) 31"
    by (simp add: bit_drop_bit_eq bit_word_iff_drop_bit_and impossible_bit)
  ultimately show ?thesis by (simp add: crc_step_def bit_xor_iff)
qed

lemma crc_step_inj: "crc_step s = crc_step t \<Longrightarrow> s = t"
proof -
  assume eq: "crc_step s = crc_step t"
  then have low: "bit s 0 \<longleftrightarrow> bit t 0" using crc_step_top by metis
  with eq have sh: "drop_bit 1 s = drop_bit 1 t"
    by (auto simp: crc_step_def split: if_splits dest: arg_cong [of _ _ "\<lambda>x. x XOR crc_poly"]
      simp: xor.assoc)
  show ?thesis
  proof (rule bit_eqI)
    fix n
    show "bit s n \<longleftrightarrow> bit t n"
    proof (cases n)
      case 0
      with low show ?thesis by simp
    next
      case (Suc m)
      then show ?thesis using sh by (metis bit_drop_bit_eq comp_apply plus_1_eq_Suc)
    qed
  qed
qed

lemma crc_steps_inj: "(crc_step ^^ n) s = (crc_step ^^ n) t \<Longrightarrow> s = t"
  by (induction n) (auto dest: crc_step_inj)

lemma xor_cancel: "(a :: 32 word) XOR b = a XOR c \<Longrightarrow> b = c"
  by (metis xor.left_commute xor_self_eq xor.right_neutral)

lemma crc_byte_state: "crc_byte s b = crc_byte t b \<Longrightarrow> s = t"
  unfolding crc_byte_def by (drule crc_steps_inj) (metis xor.commute xor_cancel)

lemma of_nat_word_small: "n < 2 ^ LENGTH('a) \<Longrightarrow> unat (of_nat n :: 'a::len word) = n"
  by (simp add: unsigned_of_nat take_bit_nat_eq_self_iff)

lemma of_char_word_inj: "(of_nat (of_char b) :: 32 word) = of_nat (of_char c) \<Longrightarrow> b = c"
proof -
  assume "(of_nat (of_char b) :: 32 word) = of_nat (of_char c)"
  then have "unat (of_nat (of_char b) :: 32 word) = unat (of_nat (of_char c) :: 32 word)" by simp
  moreover have "unat (of_nat (of_char d) :: 32 word) = of_char d" for d :: char
    by (rule of_nat_word_small) (rule less_trans [OF of_char_less], simp)
  ultimately show "b = c" by simp
qed

lemma crc_byte_byte: "crc_byte s b = crc_byte s c \<Longrightarrow> b = c"
  unfolding crc_byte_def by (drule crc_steps_inj) (metis xor_cancel of_char_word_inj)

lemma crc_update_state: "crc_update s xs = crc_update t xs \<Longrightarrow> s = t"
proof (induction xs arbitrary: s t)
  case (Cons x xs)
  then have "crc_byte s x = crc_byte t x"
    by (simp add: crc_update_def)
  then show ?case by (rule crc_byte_state)
qed (simp add: crc_update_def)

lemma crc_one_byte:
  assumes "crc_update s (xs @ b # ys) = crc_update s (xs @ c # ys)"
  shows "b = c"
proof -
  let ?m = "crc_update s xs"
  from assms have "crc_update (crc_byte ?m b) ys = crc_update (crc_byte ?m c) ys"
    by (simp add: crc_update_append) (simp add: crc_update_def)
  then show ?thesis by (intro crc_byte_byte [of ?m]) (rule crc_update_state)
qed


subsection \<open>The walk\<close>

definition dash :: gostring where
  "dash = '' '' @ [CHR 0xE2, CHR 0x80, CHR 0x94] @ '' ''"

definition png_magic :: gostring where
  "png_magic = [CHR 0x89, CHR ''P'', CHR ''N'', CHR ''G'', CHR 0x0D, CHR 0x0A, CHR 0x1A, CHR 0x0A]"

text \<open>The data of one chunk, read through a 64 KiB buffer and summed: \<open>None\<close> when a read
  fails.\<close>

function crc_stream :: "osfile \<Rightarrow> int \<Rightarrow> int \<Rightarrow> 32 word \<Rightarrow> 32 word option" where
  "crc_stream f off rest h =
     (if 0 < rest then
        (let nb = (if rest < 65536 then rest else 65536) in
         case read_full f (nat nb) off of
           None \<Rightarrow> None
         | Some got \<Rightarrow> crc_stream f (off + nb) (rest - nb) (crc_update h got))
      else Some h)"
  by pat_completeness auto
termination by (relation "measure (\<lambda>(f, off, rest, h). nat rest)") auto

declare crc_stream.simps [simp del]

definition png_end :: "bool \<Rightarrow> bool \<Rightarrow> finding" where
  "png_end sawIHDR sawIEND =
     (if \<not> sawIHDR \<or> \<not> sawIEND
      then (Damaged, [T (''PNG is missing its end-of-image chunk'' @ dash @ ''the file is truncated'')])
      else (Proven, [T ''every PNG chunk matches its own CRC32'']))"

function png_walk :: "osfile \<Rightarrow> int \<Rightarrow> polls \<Rightarrow> nat \<Rightarrow> int \<Rightarrow> bool \<Rightarrow> bool \<Rightarrow> finding" where
  "png_walk f sz stop k pos sawIHDR sawIEND =
     (if \<not> pos < sz then png_end sawIHDR sawIEND
      else if stop k then (Unproven, [])
      else case read_full f 8 pos of
        None \<Rightarrow> (Damaged, [T (''PNG chunk list ends mid-header'' @ dash @ ''the file is truncated'')])
      | Some hdr \<Rightarrow>
          (let clen = int (get_be (take 4 hdr)); ctype = drop 4 hdr in
           if clen < 0 \<or> clen > sz - pos - 12
           then (Damaged, [T ''PNG chunk '', Quoted ctype, T '' claims '', Number clen,
             T '' bytes but only '', Number (sz - pos - 12), T ('' remain'' @ dash @ ''the file is truncated'')])
           else case crc_stream f (pos + 8) clen (crc_update crc_start ctype) of
             None \<Rightarrow> (Damaged, [T (''PNG data ends early'' @ dash @ ''the file is truncated'')])
           | Some h \<Rightarrow> (case read_full f 4 (pos + 8 + clen) of
               None \<Rightarrow> (Damaged, [T (''PNG chunk checksum is missing'' @ dash @ ''the file is truncated'')])
             | Some want \<Rightarrow>
                 if NOT h \<noteq> of_nat (get_be want)
                 then (Damaged, [T ''PNG chunk '', Quoted ctype, T '' fails its own CRC32 at offset '',
                   Number pos, T (dash @ ''the stored bytes are damaged'')])
                 else (let ihdr = (sawIHDR \<or> ctype = ''IHDR'');
                           iend = (sawIEND \<or> (ctype \<noteq> ''IHDR'' \<and> ctype = ''IEND''))
                       in if iend then png_end ihdr iend
                          else png_walk f sz stop (Suc k) (pos + 12 + clen) ihdr iend))))"
  by pat_completeness auto
termination
  by (relation "measure (\<lambda>(f, sz, stop, k, pos, i, e). nat (sz - pos))") auto

declare png_walk.simps [simp del]

definition verifyPNG :: "osfile \<Rightarrow> int \<Rightarrow> polls \<Rightarrow> finding" where
  "verifyPNG f sz stop = png_walk f sz stop 0 8 False False"

subsection \<open>What a well-formed chunk list is\<close>

definition put_be :: "nat \<Rightarrow> nat \<Rightarrow> gostring" where
  "put_be n x = rev (put_le n x)"

text \<open>A chunk as stored: its length, its type, its data and the checksum of the last two.\<close>

definition chunk_bytes :: "gostring \<times> gostring \<Rightarrow> gostring" where
  "chunk_bytes = (\<lambda>(ty, d). put_be 4 (length d) @ ty @ d @ put_be 4 (unat (crc32 (ty @ d))))"

definition chunk_ok :: "gostring \<times> gostring \<Rightarrow> bool" where
  "chunk_ok = (\<lambda>(ty, d). length ty = 4 \<and> length d < 4294967296)"

definition plain_chunk :: "gostring \<times> gostring \<Rightarrow> bool" where
  "plain_chunk = (\<lambda>(ty, d). chunk_ok (ty, d) \<and> ty \<noteq> ''IEND'')"

lemma length_put_be [simp]: "length (put_be n x) = n"
  by (simp add: put_be_def)

lemma get_be_snoc: "get_be (bs @ [b]) = 256 * get_be bs + of_char b"
  by (induction bs) (auto simp: algebra_simps)

lemma get_put_be: "get_be (put_be n x) = x mod 256 ^ n"
  by (induction n arbitrary: x) (auto simp: put_be_def get_be_snoc mod_mult2_eq)

lemma put_get_be: "put_be (length bs) (get_be bs) = bs"
proof (induction bs rule: rev_induct)
  case (snoc b bs)
  have "(256 * get_be bs + of_char b) mod 256 = (of_char b :: nat)"
    using of_char_less [of b] by simp
  moreover have "(256 * get_be bs + of_char b) div 256 = get_be bs"
    using of_char_less [of b] by simp
  ultimately show ?case using snoc by (simp add: put_be_def get_be_snoc)
qed (simp add: put_be_def)

subsection \<open>Reading one chunk\<close>

lemma crc_stream_sound:
  assumes "0 \<le> off" and "0 \<le> rest" and "nat (off + rest) \<le> length c"
  shows "crc_stream (sound_file c) off rest h = Some (crc_update h (take (nat rest) (drop (nat off) c)))"
  using assms
proof (induction "sound_file c" off rest h rule: crc_stream.induct)
  case (1 off rest h)
  show ?case
  proof (cases "0 < rest")
    case False
    with 1 show ?thesis by (simp add: crc_stream.simps [of _ off] crc_update_def)
  next
    case True
    define nb where "nb = (if rest < 65536 then rest else 65536)"
    let ?got = "take (nat nb) (drop (nat off) c)"
    have nb: "0 < nb" "nb \<le> rest" using True by (auto simp: nb_def)
    then have got: "read_full (sound_file c) (nat nb) off = Some ?got"
      using 1 by (auto simp: nat_add_distrib)
    have "crc_stream (sound_file c) (off + nb) (rest - nb) (crc_update h ?got)
        = Some (crc_update (crc_update h ?got) (take (nat (rest - nb)) (drop (nat (off + nb)) c)))"
      using 1(1) [OF True nb_def got] 1 nb by simp
    moreover have "?got @ take (nat (rest - nb)) (drop (nat (off + nb)) c) = take (nat rest) (drop (nat off) c)"
      using nb 1 take_add [of "nat nb" "nat (rest - nb)" "drop (nat off) c"]
      by (simp add: nat_add_distrib add.commute flip: nat_add_distrib)
    ultimately show ?thesis
      using True got by (simp add: crc_stream.simps [of _ off] nb_def [symmetric] flip: crc_update_append)
  qed
qed

lemma crc_stream_SomeD:
  assumes "crc_stream f off rest h = Some h'" and "0 \<le> off" and "0 \<le> rest"
  shows "h' = crc_update h (take (nat rest) (drop (nat off) (content f)))"
    and "rest = 0 \<or> nat (off + rest) \<le> length (content f)"
proof -
  have "h' = crc_update h (take (nat rest) (drop (nat off) (content f)))
      \<and> (rest = 0 \<or> nat (off + rest) \<le> length (content f))"
    using assms
  proof (induction f off rest h rule: crc_stream.induct)
    case (1 f off rest h)
    show ?case
    proof (cases "0 < rest")
      case False
      with 1 show ?thesis by (simp add: crc_stream.simps [of _ off] crc_update_def)
    next
      case True
      define nb where "nb = (if rest < 65536 then rest else 65536)"
      have nb: "0 < nb" "nb \<le> rest" using True by (auto simp: nb_def)
      obtain got where got: "read_full f (nat nb) off = Some got"
        and more: "crc_stream f (off + nb) (rest - nb) (crc_update h got) = Some h'"
        using 1(2) True by (auto simp: crc_stream.simps [of _ off] Let_def nb_def [symmetric] split: option.splits)
      note g = read_full_SomeD [OF got]
      have "h' = crc_update (crc_update h got) (take (nat (rest - nb)) (drop (nat (off + nb)) (content f)))
          \<and> (rest - nb = 0 \<or> nat (off + nb + (rest - nb)) \<le> length (content f))"
        using 1(1) [OF True nb_def got more] 1 nb by simp
      moreover have "got @ take (nat (rest - nb)) (drop (nat (off + nb)) (content f))
          = take (nat rest) (drop (nat off) (content f))"
        using nb 1 g(3) take_add [of "nat nb" "nat (rest - nb)" "drop (nat off) (content f)"]
        by (simp add: nat_add_distrib add.commute flip: nat_add_distrib)
      moreover have "nat (off + nb) \<le> length (content f)"
        using g(4) nb 1 by (auto simp: nat_add_distrib)
      ultimately show ?thesis by (auto simp flip: crc_update_append)
    qed
  qed
  then show "h' = crc_update h (take (nat rest) (drop (nat off) (content f)))"
    and "rest = 0 \<or> nat (off + rest) \<le> length (content f)" by auto
qed

text \<open>A chunk on the disk with whatever stands where its checksum should be.\<close>

definition frame_bytes :: "gostring \<Rightarrow> gostring \<Rightarrow> gostring \<Rightarrow> gostring" where
  "frame_bytes ty d w = put_be 4 (length d) @ ty @ d @ w"

lemma chunk_frame: "chunk_bytes (ty, d) = frame_bytes ty d (put_be 4 (unat (crc32 (ty @ d))))"
  by (simp add: chunk_bytes_def frame_bytes_def)

lemma sum_matches:
  assumes "length w = 4"
  shows "(x :: 32 word) = of_nat (get_be w) \<longleftrightarrow> w = put_be 4 (unat x)"
proof
  assume "x = of_nat (get_be w)"
  then have "unat x = get_be w"
    using get_be_less [of w] assms by (simp add: of_nat_word_small)
  then show "w = put_be 4 (unat x)" using put_get_be [of w] assms by simp
next
  assume "w = put_be 4 (unat x)"
  moreover have "unat x < 2 ^ LENGTH(32)" by (rule unsigned_less)
  ultimately have "get_be w = unat x" by (simp add: get_put_be)
  then show "x = of_nat (get_be w)" by simp
qed

lemma frame_read:
  assumes at: "drop (nat pos) c = frame_bytes ty d w @ r" and pos: "0 \<le> pos"
    and ty: "length ty = 4" and w: "length w = 4" and d: "length d < 4294967296"
  shows "read_full (sound_file c) 8 pos = Some (put_be 4 (length d) @ ty)"
    and "get_be (put_be 4 (length d)) = length d"
    and "crc_stream (sound_file c) (pos + 8) (int (length d)) (crc_update crc_start ty)
       = Some (crc_update crc_start (ty @ d))"
    and "read_full (sound_file c) 4 (pos + 8 + int (length d)) = Some w"
    and "drop (nat (pos + 12 + int (length d))) c = r"
    and "pos + 12 + int (length d) \<le> int (length c)"
proof -
  have "length (drop (nat pos) c) = 12 + length d + length r"
    using at ty w by (simp add: frame_bytes_def)
  then have len: "length c = nat pos + 12 + length d + length r" by simp
  have at8: "drop (nat pos + 8) c = d @ w @ r"
    using arg_cong [OF at, of "drop 8"] ty by (simp add: frame_bytes_def add.commute)
  have at8d: "drop (nat pos + 8 + length d) c = w @ r"
    using arg_cong [OF at8, of "drop (length d)"] by (simp add: add.commute)
  have at12: "drop (nat pos + 12 + length d) c = r"
    using arg_cong [OF at8d, of "drop 4"] w by (simp add: ac_simps)
  show "read_full (sound_file c) 8 pos = Some (put_be 4 (length d) @ ty)"
    using at ty pos len by (simp add: frame_bytes_def)
  show "get_be (put_be 4 (length d)) = length d"
    using d by (simp add: get_put_be)
  have n8: "nat (pos + 8) = nat pos + 8" and n8d: "nat (pos + 8 + int (length d)) = nat pos + 8 + length d"
    and n12: "nat (pos + 12 + int (length d)) = nat pos + 12 + length d"
    using pos by auto
  show "crc_stream (sound_file c) (pos + 8) (int (length d)) (crc_update crc_start ty)
       = Some (crc_update crc_start (ty @ d))"
    using pos len by (subst crc_stream_sound) (auto simp: n8 n8d at8 crc_update_append)
  show "read_full (sound_file c) 4 (pos + 8 + int (length d)) = Some w"
    using pos len w by (simp add: n8d at8d)
  show "drop (nat (pos + 12 + int (length d))) c = r" by (simp add: n12 at12)
  show "pos + 12 + int (length d) \<le> int (length c)" using len pos by simp
qed

text \<open>One turn of the walk over such a frame.\<close>

lemma png_walk_frame:
  assumes at: "drop (nat pos) c = frame_bytes ty d w @ r" and pos: "0 \<le> pos"
    and ty: "length ty = 4" and w: "length w = 4" and d: "length d < 4294967296"
    and k: "\<not> stop k"
  shows "png_walk (sound_file c) (int (length c)) stop k pos i e =
    (if w \<noteq> put_be 4 (unat (crc32 (ty @ d)))
     then (Damaged, [T ''PNG chunk '', Quoted ty, T '' fails its own CRC32 at offset '',
                   Number pos, T (dash @ ''the stored bytes are damaged'')])
     else if e \<or> ty = ''IEND'' then png_end (i \<or> ty = ''IHDR'') True
     else png_walk (sound_file c) (int (length c)) stop (Suc k) (pos + 12 + int (length d))
       (i \<or> ty = ''IHDR'') False)"
proof -
  note fr = frame_read [OF at pos ty w d]
  have "pos < int (length c)" "int (length d) \<le> int (length c) - pos - 12" using fr(6) by auto
  then show ?thesis
    using fr(1-4) ty k sum_matches [OF w, of "crc32 (ty @ d)"]
    by (subst png_walk.simps) (auto simp: Let_def crc32_def not_less)
qed

lemma get_be_put_unat [simp]: "get_be (put_be 4 (unat (x :: 32 word))) = unat x"
proof -
  have "unat x < 2 ^ LENGTH(32)" by (rule unsigned_less)
  then show ?thesis by (simp add: get_put_be)
qed

subsection \<open>What Proven means\<close>

text \<open>The chunk list of a whole picture: chunks other than the end, a header among them,
  and the end-of-image chunk; what follows it is not read.\<close>

definition png_body :: "gostring \<Rightarrow> (gostring \<times> gostring) list \<Rightarrow> gostring \<Rightarrow> gostring \<Rightarrow> bool" where
  "png_body bs cs d r \<longleftrightarrow> bs = concat (map chunk_bytes cs) @ chunk_bytes (''IEND'', d) @ r
     \<and> list_all plain_chunk cs \<and> chunk_ok (''IEND'', d)"

lemma chunk_read:
  assumes hdr: "read_full f 8 pos = Some hdr" and pos: "0 \<le> pos"
    and clen: "clen = int (get_be (take 4 hdr))" and ty: "ty = drop 4 hdr"
    and h: "crc_stream f (pos + 8) clen (crc_update crc_start ty) = Some h"
    and want: "read_full f 4 (pos + 8 + clen) = Some want"
    and sum: "NOT h = of_nat (get_be want)"
  shows "\<exists>d. chunk_ok (ty, d)
    \<and> drop (nat pos) (content f) = chunk_bytes (ty, d) @ drop (nat (pos + 12 + clen)) (content f)"
proof -
  let ?c = "content f" and ?n = "nat pos" and ?l = "nat clen"
  note gh = read_full_SomeD [OF hdr]
  note gw = read_full_SomeD [OF want]
  define d where "d = take ?l (drop (?n + 8) ?c)"
  have cl: "0 \<le> clen" by (simp add: clen)
  have n8: "nat (pos + 8) = ?n + 8" "nat (pos + 8 + clen) = ?n + 8 + ?l"
    "nat (pos + 12 + clen) = ?n + 12 + ?l" using pos cl by auto
  have len: "?n + 12 + ?l \<le> length ?c" using gw(4) by (simp add: n8)
  have lty: "length ty = 4" using gh(1) by (simp add: ty)
  have ld: "length d = ?l" using len by (simp add: d_def)
  have l32: "?l < 4294967296" using get_be_less [of "take 4 hdr"] gh(1) by (simp add: clen)
  have head: "hdr = put_be 4 ?l @ ty"
    using put_get_be [of "take 4 hdr"] gh(1) by (simp add: clen ty)
  have hsum: "h = crc_update crc_start (ty @ d)"
    using crc_stream_SomeD(1) [OF h] pos cl by (simp add: n8 d_def crc_update_append)
  have lw: "length want = 4" using gw(1) .
  have tail: "want = put_be 4 (unat (crc32 (ty @ d)))"
    using sum sum_matches [OF lw, of "NOT h"] by (simp add: crc32_def hsum)
  have "drop ?n ?c = take 8 (drop ?n ?c) @ drop (?n + 8) ?c"
    by (metis append_take_drop_id drop_drop add.commute)
  also have "take 8 (drop ?n ?c) = hdr" using gh(3) by simp
  also have "drop (?n + 8) ?c = d @ drop (?n + 8 + ?l) ?c"
    by (metis d_def append_take_drop_id drop_drop add.commute)
  also have "drop (?n + 8 + ?l) ?c = take 4 (drop (?n + 8 + ?l) ?c) @ drop 4 (drop (?n + 8 + ?l) ?c)"
    by (rule append_take_drop_id [symmetric])
  also have "take 4 (drop (?n + 8 + ?l) ?c) = want" using gw(3) by (simp add: n8)
  also have "drop 4 (drop (?n + 8 + ?l) ?c) = drop (?n + 12 + ?l) ?c" by (simp add: ac_simps)
  finally have "drop ?n ?c = frame_bytes ty d want @ drop (?n + 12 + ?l) ?c"
    by (simp add: frame_bytes_def head ld)
  then show ?thesis using l32 ld lty
    by (intro exI [of _ d]) (simp add: chunk_frame tail chunk_ok_def n8)
qed

lemma png_walk_Proven:
  assumes "fst (png_walk f sz stop k pos i False) = Proven" and "0 \<le> pos"
  shows "\<exists>cs d r. png_body (drop (nat pos) (content f)) cs d r \<and> (i \<or> ''IHDR'' \<in> fst ` set cs)"
  using assms
proof (induction f sz stop k pos i False rule: png_walk.induct)
  case (1 f sz stop k pos i)
  note IH = 1(1) and P = 1(2) and pos = 1(3)
  from P have lt: "pos < sz" and go: "\<not> stop k"
    by (auto simp: png_walk.simps [of f] png_end_def split: if_splits)
  from P lt go obtain hdr where hdr: "read_full f 8 pos = Some hdr"
    by (cases "read_full f 8 pos") (auto simp: png_walk.simps [of f])
  define clen where "clen = int (get_be (take 4 hdr))"
  define ty where "ty = drop 4 hdr"
  from P lt go hdr have fits: "\<not> (clen < 0 \<or> clen > sz - pos - 12)"
    by (auto simp: png_walk.simps [of f] Let_def clen_def split: if_splits)
  with P lt go hdr obtain h where h: "crc_stream f (pos + 8) clen (crc_update crc_start ty) = Some h"
    by (cases "crc_stream f (pos + 8) clen (crc_update crc_start ty)")
      (auto simp: png_walk.simps [of f] Let_def clen_def ty_def)
  with P lt go hdr fits obtain want where want: "read_full f 4 (pos + 8 + clen) = Some want"
    by (cases "read_full f 4 (pos + 8 + clen)") (auto simp: png_walk.simps [of f] Let_def clen_def ty_def)
  have sum: "NOT h = of_nat (get_be want)"
    using P lt go hdr fits h want
    by (rule_tac ccontr) (simp add: png_walk.simps [of f] Let_def clen_def ty_def)
  obtain d where ok: "chunk_ok (ty, d)"
    and at: "drop (nat pos) (content f) = chunk_bytes (ty, d) @ drop (nat (pos + 12 + clen)) (content f)"
    using chunk_read [OF hdr pos clen_def ty_def h want sum] by blast
  let ?i = "i \<or> ty = ''IHDR''"
  show ?case
  proof (cases "ty = ''IEND''")
    case True
    with P lt go hdr fits h want sum have "?i"
      by (simp add: png_walk.simps [of f] Let_def clen_def ty_def png_end_def split: if_splits)
    with True have i by simp
    have "png_body (drop (nat pos) (content f)) [] d (drop (nat (pos + 12 + clen)) (content f))"
      using at ok True by (simp add: png_body_def)
    with \<open>i\<close> show ?thesis by blast
  next
    case False
    have onward: "fst (png_walk f sz stop (Suc k) (pos + 12 + clen) ?i False) = Proven"
      using P lt go hdr fits h want sum False
      by (simp add: png_walk.simps [of f _ _ k pos] Let_def clen_def [symmetric] ty_def [symmetric])
    have "\<exists>cs d r. png_body (drop (nat (pos + 12 + clen)) (content f)) cs d r \<and> (?i \<or> ''IHDR'' \<in> fst ` set cs)"
      using IH lt go hdr clen_def ty_def fits h want sum False onward pos
      by (auto simp: clen_def)
    then obtain cs d' r where body: "png_body (drop (nat (pos + 12 + clen)) (content f)) cs d' r"
      and ih: "?i \<or> ''IHDR'' \<in> fst ` set cs" by blast
    have "png_body (drop (nat pos) (content f)) ((ty, d) # cs) d' r"
      using body at ok False by (simp add: png_body_def plain_chunk_def)
    moreover have "i \<or> ''IHDR'' \<in> fst ` set ((ty, d) # cs)" using ih by auto
    ultimately show ?thesis by blast
  qed
qed

subsection \<open>Walking a known chunk list\<close>

lemma png_walk_chunks:
  assumes "drop (nat pos) c = concat (map chunk_bytes cs) @ frame_bytes ty d w @ r"
    and "list_all plain_chunk cs" and "0 \<le> pos"
    and "pos' = pos + int (length (concat (map chunk_bytes cs)))"
  shows "0 \<le> pos' \<and> drop (nat pos') c = frame_bytes ty d w @ r
    \<and> png_walk (sound_file c) (int (length c)) never k pos i False
      = png_walk (sound_file c) (int (length c)) never (k + length cs) pos' (i \<or> ''IHDR'' \<in> fst ` set cs) False"
  using assms
proof (induction cs arbitrary: k pos i)
  case (Cons ch cs)
  obtain t e where ch: "ch = (t, e)" by force
  let ?w = "put_be 4 (unat (crc32 (t @ e)))" and ?p = "pos + 12 + int (length e)"
    and ?i = "i \<or> t = ''IHDR''"
  let ?r = "concat (map chunk_bytes cs) @ frame_bytes ty d w @ r"
  have at: "drop (nat pos) c = frame_bytes t e ?w @ ?r"
    using Cons.prems(1) by (simp add: ch chunk_frame)
  have t: "length t = 4" "length e < 4294967296" "t \<noteq> ''IEND''"
    using Cons.prems(2) by (auto simp: ch plain_chunk_def chunk_ok_def)
  note fr = frame_read [OF at \<open>0 \<le> pos\<close> t(1) length_put_be t(2)]
  have pl: "list_all plain_chunk cs" and p: "0 \<le> ?p" using Cons.prems(2,3) by auto
  have pos': "pos' = ?p + int (length (concat (map chunk_bytes cs)))"
    using Cons.prems(4) t(1) by (simp add: ch chunk_frame frame_bytes_def)
  note IH = Cons.IH [OF fr(5) pl p pos', of "Suc k" ?i]
  have "(?i \<or> ''IHDR'' \<in> fst ` set cs) = (i \<or> ''IHDR'' \<in> fst ` set (ch # cs))" by (auto simp: ch)
  moreover have "png_walk (sound_file c) (int (length c)) never k pos i False
      = png_walk (sound_file c) (int (length c)) never (Suc k) ?p ?i False"
    using png_walk_frame [OF at \<open>0 \<le> pos\<close> t(1) length_put_be t(2), of never k i False, OF never_polls] t(3)
    by simp
  ultimately show ?case using IH by simp
qed simp

lemma png_walk_body:
  assumes "png_body (drop 8 c) cs d r" and "''IHDR'' \<in> fst ` set cs"
  shows "fst (verifyPNG (sound_file c) (int (length c)) never) = Proven"
proof -
  let ?w = "put_be 4 (unat (crc32 (''IEND'' @ d)))"
  have b: "drop (nat 8) c = concat (map chunk_bytes cs) @ frame_bytes ''IEND'' d ?w @ r"
    "list_all plain_chunk cs" "length d < 4294967296"
    using assms(1) by (auto simp: png_body_def chunk_frame chunk_ok_def)
  let ?p = "8 + int (length (concat (map chunk_bytes cs)))"
  note w = png_walk_chunks [OF b(1,2) _ refl, of 0 False]
  have kp: "0 \<le> ?p" "drop (nat ?p) c = frame_bytes ''IEND'' d ?w @ r" using w by auto
  show ?thesis
    using w png_walk_frame [OF kp(2,1) _ length_put_be b(3), of never "length cs" True False, OF _ never_polls]
      assms(2)
    by (simp add: verifyPNG_def png_end_def)
qed

text \<open>C21. The PNG check says Proven exactly for a file that, after its eight signature bytes,
  is a list of chunks each closed by the CRC32 of its type and data, with a header chunk among
  them and an end-of-image chunk last; whatever follows the end is not looked at.\<close>

theorem png_proven_exactly:
  "fst (verifyPNG (sound_file c) (int (length c)) never) = Proven
   \<longleftrightarrow> (\<exists>cs d r. png_body (drop 8 c) cs d r \<and> ''IHDR'' \<in> fst ` set cs)"
proof
  assume "fst (verifyPNG (sound_file c) (int (length c)) never) = Proven"
  then show "\<exists>cs d r. png_body (drop 8 c) cs d r \<and> ''IHDR'' \<in> fst ` set cs"
    using png_walk_Proven [of "sound_file c" "int (length c)" never 0 8 False]
    by (simp add: verifyPNG_def sound_file_def)
qed (use png_walk_body in blast)

lemma one_byte_sum:
  assumes "ty @ d @ put_be 4 (unat (crc32 (ty @ d))) = xs @ b # ys" and "b' \<noteq> b"
    and "length ty = 4" and "ty' = take 4 (xs @ b' # ys)"
    and "d' = take (length d) (drop 4 (xs @ b' # ys))" and "w' = drop (4 + length d) (xs @ b' # ys)"
  shows "ty' @ d' @ w' = xs @ b' # ys" and "length ty' = 4" and "length d' = length d"
    and "length w' = 4" and "w' \<noteq> put_be 4 (unat (crc32 (ty' @ d')))"
proof -
  let ?n = "length (xs @ b # ys)"
  have n: "?n = 8 + length d" using arg_cong [OF assms(1), of length] assms(3) by simp
  show "ty' @ d' @ w' = xs @ b' # ys"
    by (metis assms(4-6) append_take_drop_id drop_drop add.commute)
  show "length ty' = 4" "length d' = length d" "length w' = 4"
    using n by (auto simp: assms(4-6))
  let ?m = "4 + length d"
  have td: "take ?m (xs @ b # ys) = ty @ d" and tw: "drop ?m (xs @ b # ys) = put_be 4 (unat (crc32 (ty @ d)))"
    using assms(1,3) by (auto simp flip: assms(1))
  have td': "ty' @ d' = take ?m (xs @ b' # ys)" unfolding assms(4,5) by (rule take_add [symmetric])
  show "w' \<noteq> put_be 4 (unat (crc32 (ty' @ d')))"
  proof (cases "length xs < ?m")
    case True
    let ?zs = "take (?m - length xs - 1) ys"
    have "w' = put_be 4 (unat (crc32 (ty @ d)))" using True tw by (simp add: assms(6) drop_Cons')
    moreover have "ty @ d = xs @ b # ?zs" "ty' @ d' = xs @ b' # ?zs"
      using True by (auto simp: td' take_Cons' simp flip: td)
    then have "crc32 (ty' @ d') \<noteq> crc32 (ty @ d)"
      using crc_one_byte [of crc_start xs b' ?zs b] assms(2) by (auto simp: crc32_def)
    ultimately show ?thesis using get_be_put_unat by (metis word_unat_eq_iff)
  next
    case False
    then have "ty' @ d' = ty @ d" by (simp add: td' flip: td)
    moreover have "w' = drop ?m xs @ b' # ys" "put_be 4 (unat (crc32 (ty @ d))) = drop ?m xs @ b # ys"
      using False by (auto simp: assms(6) simp flip: tw)
    ultimately show ?thesis using assms(2) by simp
  qed
qed

text \<open>One byte changed anywhere in the type, the data or the checksum of any chunk of a
  well-formed PNG, the bytes around it unchanged, and the check says Damaged.\<close>

theorem png_damage_found:
  assumes "length sig = 8" and "list_all plain_chunk cs" and "chunk_ok (ty, d)"
    and "chunk_bytes (ty, d) = put_be 4 (length d) @ xs @ b # ys" and "b' \<noteq> b"
    and "c = sig @ concat (map chunk_bytes cs) @ put_be 4 (length d) @ xs @ b' # ys @ r"
  shows "fst (verifyPNG (sound_file c) (int (length c)) never) = Damaged"
proof -
  have ty: "length ty = 4" "length d < 4294967296" using assms(3) by (auto simp: chunk_ok_def)
  have body: "ty @ d @ put_be 4 (unat (crc32 (ty @ d))) = xs @ b # ys"
    using assms(4) by (simp add: chunk_bytes_def)
  note ob = one_byte_sum [OF body assms(5) ty(1) refl refl refl]
  let ?ty = "take 4 (xs @ b' # ys)" and ?d = "take (length d) (drop 4 (xs @ b' # ys))"
    and ?w = "drop (4 + length d) (xs @ b' # ys)"
  have "drop (nat 8) c = concat (map chunk_bytes cs) @ put_be 4 (length d) @ (xs @ b' # ys) @ r"
    using assms(1,6) by simp
  then have at: "drop (nat 8) c = concat (map chunk_bytes cs) @ frame_bytes ?ty ?d ?w @ r"
    unfolding frame_bytes_def ob(3) by (metis ob(1) append.assoc)
  have d32: "length ?d < 4294967296" using ob(3) ty(2) by simp
  let ?p = "8 + int (length (concat (map chunk_bytes cs)))"
  note w = png_walk_chunks [OF at assms(2) _ refl, of 0 False]
  have kp: "0 \<le> ?p" "drop (nat ?p) c = frame_bytes ?ty ?d ?w @ r" using w by auto
  show ?thesis
    using w ob(5) png_walk_frame [OF kp(2,1) ob(2,4) d32, of never "length cs"
      "''IHDR'' \<in> fst ` set cs" False, OF never_polls]
    by (simp add: verifyPNG_def)
qed

definition ex_png :: gostring where
  "ex_png = png_magic @ put_be 4 0 @ ''JHDR'' @ put_be 4 (unat (crc32 ''IHDR''))"

lemma png_damage_found_witness:
  "fst (verifyPNG (sound_file ex_png) (int (length ex_png)) never) = Damaged"
proof -
  have "chunk_bytes (''IHDR'', []) = put_be 4 (length ([] :: gostring)) @ [] @ CHR ''I'' # ''HDR'' @
      put_be 4 (unat (crc32 ''IHDR''))"
    by (simp add: chunk_bytes_def)
  from png_damage_found [where cs = "[]" and r = "[]" and sig = png_magic, OF _ _ _ this, of "CHR ''J''" ex_png]
  show ?thesis by (simp add: png_magic_def ex_png_def chunk_ok_def)
qed

end
