(* ===== verification/BoxTree.thy ===== *)
theory BoxTree
  imports PngCheck
begin

text \<open>
  The ISO base-media box tree: \<open>verifyISOBMFF\<close> of \<open>internal/media/verify.go\<close>, which
  asks that the top-level boxes tile the file, and \<open>findBox\<close> of \<open>heif.go\<close>, which the
  capture-date readers find their boxes with.  The check convicts exactly the files that are not
  a list of boxes, and what \<open>findBox\<close> returns lies inside the range it was given although
  the sizes come from the file and its sums are of 64 bits.
\<close>

subsection \<open>verifyISOBMFF\<close>

text \<open>The switch on the size field: the size of the box and of its header, or the verdict
  that ends the walk.\<close>

definition box_extent :: "osfile \<Rightarrow> int \<Rightarrow> int \<Rightarrow> gostring \<Rightarrow> finding + (int \<times> int)" where
  "box_extent f sz pos hdr =
     (let bs = int (get_be (take 4 hdr)); btype = drop 4 hdr in
      if bs = 0 then Inr (sz - pos, 8)
      else if bs = 1 then
        (if sz - pos < 16
         then Inl (Damaged, [T (''media box claims a 64-bit size the file cannot hold'' @ dash @ ''it is truncated'')])
         else case read_full f 8 (pos + 8) of
           None \<Rightarrow> Inl (Damaged, [T (''media box size is unreadable'' @ dash @ ''the file is truncated'')])
         | Some ext \<Rightarrow>
             (let u = int (get_be ext) in
              if u > sz - pos
              then Inl (Damaged, [T ''media box '', Quoted btype, T '' claims '', Number u,
                T '' bytes but only '', Number (sz - pos), T ('' remain'' @ dash @ ''the file is truncated'')])
              else Inr (u, 16)))
      else Inr (bs, 8))"

lemma box_extent_header: "box_extent f sz pos hdr = Inr (bs, hlen) \<Longrightarrow> hlen = 8 \<or> hlen = 16"
  by (auto simp: box_extent_def Let_def split: if_splits option.splits)

function box_walk :: "osfile \<Rightarrow> int \<Rightarrow> polls \<Rightarrow> nat \<Rightarrow> int \<Rightarrow> finding" where
  "box_walk f sz stop k pos =
     (if \<not> pos < sz then (Unproven, [])
      else if stop k then (Unproven, [])
      else if sz - pos < 8
      then (Damaged, [T ''media box list ends with '', Number (sz - pos),
        T ('' stray bytes'' @ dash @ ''the file is truncated'')])
      else case read_full f 8 pos of
        None \<Rightarrow> (Damaged, [T (''media box header is unreadable'' @ dash @ ''the file is truncated'')])
      | Some hdr \<Rightarrow> (case box_extent f sz pos hdr of
          Inl v \<Rightarrow> v
        | Inr (bs, hlen) \<Rightarrow>
            if bs < hlen \<or> bs > sz - pos
            then (Damaged, [T ''media box '', Quoted (drop 4 hdr), T '' claims '', Number bs,
              T '' bytes but only '', Number (sz - pos), T ('' remain'' @ dash @ ''the file is truncated'')])
            else box_walk f sz stop (Suc k) (pos + bs)))"
  by pat_completeness auto
termination
  by (relation "measure (\<lambda>(f, sz, stop, k, pos). nat (sz - pos))") (auto dest!: box_extent_header)

declare box_walk.simps [simp del]

definition verifyISOBMFF :: "osfile \<Rightarrow> int \<Rightarrow> polls \<Rightarrow> finding" where
  "verifyISOBMFF f sz stop = box_walk f sz stop 0 0"

subsection \<open>Files that are a list of boxes\<close>

text \<open>A box with its size in four bytes, or in eight when the short field says 1.\<close>

datatype box = Box32 gostring gostring | Box64 gostring gostring

fun box_bytes :: "box \<Rightarrow> gostring" where
  "box_bytes (Box32 ty d) = put_be 4 (8 + length d) @ ty @ d"
| "box_bytes (Box64 ty d) = put_be 4 1 @ ty @ put_be 8 (16 + length d) @ d"

fun box_ok :: "box \<Rightarrow> bool" where
  "box_ok (Box32 ty d) \<longleftrightarrow> length ty = 4 \<and> 8 + length d < 4294967296"
| "box_ok (Box64 ty d) \<longleftrightarrow> length ty = 4 \<and> 16 + length d < 18446744073709551616"

text \<open>The grammar of a tiled file: boxes one after the other, the last of which may say 0 and
  run to the end.\<close>

inductive tiled :: "gostring \<Rightarrow> bool" where
  tiled_end: "tiled []"
| tiled_open: "length ty = 4 \<Longrightarrow> tiled (put_be 4 0 @ ty @ d)"
| tiled_box: "box_ok b \<Longrightarrow> tiled r \<Longrightarrow> tiled (box_bytes b @ r)"

lemma length_box_bytes: "box_ok b \<Longrightarrow> 8 \<le> length (box_bytes b)"
  by (cases b) auto

lemma box_walk_not_Proven: "fst (box_walk f sz stop k pos) \<noteq> Proven"
proof (induction f sz stop k pos rule: box_walk.induct)
  case (1 f sz stop k pos)
  have ext: "box_extent f sz pos hdr = Inl v \<Longrightarrow> fst v = Damaged" for hdr v
    by (auto simp: box_extent_def Let_def split: if_splits option.splits)
  show ?case
  proof (cases "\<not> pos < sz \<or> stop k \<or> sz - pos < 8 \<or> read_full f 8 pos = None")
    case True
    then show ?thesis by (auto simp: box_walk.simps [of f])
  next
    case False
    then obtain hdr where hdr: "read_full f 8 pos = Some hdr" by auto
    show ?thesis
    proof (cases "box_extent f sz pos hdr")
      case (Inl v)
      then show ?thesis using False hdr ext by (auto simp: box_walk.simps [of f])
    next
      case (Inr e)
      then obtain bs hlen where "box_extent f sz pos hdr = Inr (bs, hlen)" by (cases e) auto
      then show ?thesis using 1 False hdr by (auto simp: box_walk.simps [of f _ _ k])
    qed
  qed
qed

lemma header_pieces:
  assumes "8 \<le> length b"
  shows "b = put_be 4 (get_be (take 4 b)) @ take 4 (drop 4 b) @ drop 8 b"
proof -
  have "put_be 4 (get_be (take 4 b)) = take 4 b"
    using put_get_be [of "take 4 b"] assms by simp
  moreover have "b = take 4 b @ take 4 (drop 4 b) @ drop 4 (drop 4 b)"
    by (simp only: append_take_drop_id)
  ultimately show ?thesis by simp
qed

lemma long_header_pieces:
  assumes "16 \<le> length b"
  shows "drop 8 b = put_be 8 (get_be (take 8 (drop 8 b))) @ drop 16 b"
proof -
  have "put_be 8 (get_be (take 8 (drop 8 b))) = take 8 (drop 8 b)"
    using put_get_be [of "take 8 (drop 8 b)"] assms by simp
  moreover have "drop 8 b = take 8 (drop 8 b) @ drop 8 (drop 8 b)"
    by (simp only: append_take_drop_id)
  ultimately show ?thesis by simp
qed

lemma tiled_extent:
  assumes l8: "8 \<le> length b" and ext: "box_extent f sz pos (take 8 b) = Inr (bs, hlen)"
    and lb: "int (length b) = sz - pos" and h: "hlen = 8 \<or> hlen = 16"
    and fits: "hlen \<le> bs" "bs \<le> sz - pos"
    and rest: "tiled (drop (nat bs) b)" and f: "f = sound_file c" and pos: "0 \<le> pos"
    and b: "b = drop (nat pos) c"
  shows "tiled b"
proof -
  let ?n = "get_be (take 4 b)" and ?ty = "take 4 (drop 4 b)"
  note pieces = header_pieces [OF l8]
  have ty: "length ?ty = 4" using l8 by simp
  have n: "get_be (take 4 (take 8 b)) = ?n" by (simp add: min_def)
  consider "?n = 0" | "?n = 1" | "?n \<noteq> 0" "?n \<noteq> 1" by blast
  then show ?thesis
  proof cases
    case 1
    then show ?thesis using tiled_open [OF ty, of "drop 8 b"] pieces by simp
  next
    case 2
    with ext lb have l16: "16 \<le> length b" by (simp add: box_extent_def n split: if_splits)
    have "read_full f 8 (pos + 8) = Some (take 8 (drop 8 b))"
      using l16 pos by (simp add: f b nat_add_distrib add.commute)
    with ext 2 l16 lb have bs: "bs = int (get_be (take 8 (drop 8 b)))" "hlen = 16"
      by (auto simp: box_extent_def n Let_def split: if_splits)
    define d where "d = take (nat bs - 16) (drop 16 b)"
    have "16 \<le> nat bs" "nat bs \<le> length b" using bs(2) fits lb by linarith+
    then have ld: "16 + length d = nat bs" by (simp add: d_def)
    have "drop 16 b = d @ drop (nat bs - 16) (drop 16 b)"
      unfolding d_def by (rule append_take_drop_id [symmetric])
    then have "drop 16 b = d @ drop (nat bs) b" using \<open>16 \<le> nat bs\<close> by simp
    then have "b = box_bytes (Box64 ?ty d) @ drop (nat bs) b"
      using pieces long_header_pieces [OF l16] 2 bs(1) ld by simp
    moreover have "box_ok (Box64 ?ty d)"
      using ty ld bs(1) get_be_less [of "take 8 (drop 8 b)"] l16 by simp
    ultimately show ?thesis using tiled_box rest by metis
  next
    case 3
    with ext have bs: "bs = int ?n" "hlen = 8" by (auto simp: box_extent_def n Let_def split: if_splits)
    define d where "d = take (nat bs - 8) (drop 8 b)"
    have "8 \<le> nat bs" "nat bs \<le> length b" using bs(2) fits lb by linarith+
    then have ld: "8 + length d = nat bs" by (simp add: d_def)
    have "drop 8 b = d @ drop (nat bs - 8) (drop 8 b)"
      unfolding d_def by (rule append_take_drop_id [symmetric])
    then have "drop 8 b = d @ drop (nat bs) b" using \<open>8 \<le> nat bs\<close> by simp
    then have "b = box_bytes (Box32 ?ty d) @ drop (nat bs) b"
      using pieces bs(1) ld by simp
    moreover have "box_ok (Box32 ?ty d)"
      using ty ld bs(1) get_be_less [of "take 4 b"] l8 by simp
    ultimately show ?thesis using tiled_box rest by metis
  qed
qed

lemma box_walk_Unproven:
  assumes "fst (box_walk f sz never k pos) = Unproven" and "0 \<le> pos" and "f = sound_file c"
    and "sz = int (length c)"
  shows "tiled (drop (nat pos) c)"
  using assms
proof (induction f sz never k pos rule: box_walk.induct)
  case (1 f sz k pos)
  show ?case
  proof (cases "pos < sz")
    case False
    then show ?thesis using 1(5) by (simp add: tiled_end)
  next
    case lt: True
    let ?b = "drop (nat pos) c"
    have P: "fst (box_walk f sz never k pos) = Unproven" by fact
    from P lt have eight: "\<not> sz - pos < 8"
      by (auto simp: box_walk.simps [of f])
    have lb: "int (length ?b) = sz - pos" using 1(3,5) lt by auto
    have hdr: "read_full f 8 pos = Some (take 8 ?b)" using 1(3-5) eight by auto
    from P lt eight hdr obtain bs hlen where ext: "box_extent f sz pos (take 8 ?b) = Inr (bs, hlen)"
      and fits: "\<not> (bs < hlen \<or> bs > sz - pos)"
      by (auto simp: box_walk.simps [of f] box_extent_def Let_def split: sum.splits option.splits if_splits)
    have h: "hlen = 8 \<or> hlen = 16" using box_extent_header [OF ext] .
    have onward: "fst (box_walk f sz never (Suc k) (pos + bs)) = Unproven"
      using P lt eight hdr ext fits by (simp add: box_walk.simps [of f _ _ k] split: if_splits)
    have rest: "tiled (drop (nat (pos + bs)) c)"
      using 1(1) [OF _ never_polls _ hdr ext] lt eight fits onward 1(3-5) h by auto
    have more: "drop (nat (pos + bs)) c = drop (nat bs) ?b" using 1(3) h fits by (auto simp: nat_add_distrib add.commute)
    have l8: "8 \<le> length ?b" using lb eight by simp
    show ?thesis by (rule tiled_extent [OF l8 ext lb h _ _ rest [unfolded more] 1(4) 1(3) refl]) (use fits in auto)
  qed
qed

lemma box_extent_box:
  assumes at: "drop (nat pos) c = box_bytes b @ r" and ok: "box_ok b" and pos: "0 \<le> pos"
  shows "\<exists>hdr hlen. read_full (sound_file c) 8 pos = Some hdr \<and> (hlen = 8 \<or> hlen = 16)
    \<and> hlen \<le> int (length (box_bytes b))
    \<and> box_extent (sound_file c) (int (length c)) pos hdr = Inr (int (length (box_bytes b)), hlen)"
proof -
  let ?b = "drop (nat pos) c"
  have l8: "8 \<le> length ?b" using at length_box_bytes [OF ok] by simp
  then have rd: "read_full (sound_file c) 8 pos = Some (take 8 ?b)" using pos by simp
  have room: "int (length c) - pos = int (length ?b)" using l8 pos by simp
  show ?thesis
  proof (cases b)
    case (Box32 ty d)
    then have "take 4 (take 8 ?b) = put_be 4 (8 + length d)" using at by simp
    then show ?thesis using Box32 ok rd
      by (intro exI [of _ "take 8 ?b"] exI [of _ 8]) (simp add: box_extent_def Let_def get_put_be)
  next
    case (Box64 ty d)
    then have t4: "take 4 (take 8 ?b) = put_be 4 1" using at by simp
    have "drop (nat pos + 8) c = put_be 8 (16 + length d) @ d @ r"
      using arg_cong [OF at, of "drop 8"] Box64 ok by (simp add: add.commute)
    moreover have l16: "nat pos + 16 \<le> length c"
      using arg_cong [OF at, of length] Box64 ok by simp
    ultimately have "read_full (sound_file c) 8 (pos + 8) = Some (put_be 8 (16 + length d))"
      using pos l16 by (simp add: nat_add_distrib)
    then show ?thesis using Box64 ok rd t4 room at
      by (intro exI [of _ "take 8 ?b"] exI [of _ 16]) (simp add: box_extent_def Let_def get_put_be)
  qed
qed

lemma box_walk_tiled:
  assumes "tiled b" and "b = drop (nat pos) c" and "0 \<le> pos"
  shows "fst (box_walk (sound_file c) (int (length c)) never k pos) = Unproven"
  using assms
proof (induction arbitrary: k pos rule: tiled.induct)
  case tiled_end
  then show ?case by (auto simp: box_walk.simps)
next
  case (tiled_open ty d)
  let ?b = "drop (nat pos) c"
  have l8: "8 \<le> length ?b" using tiled_open by (simp flip: tiled_open(2))
  have "take 4 (take 8 ?b) = put_be 4 0" by (simp flip: tiled_open(2))
  moreover have "read_full (sound_file c) 8 pos = Some (take 8 ?b)" using l8 tiled_open(3) by simp
  moreover have "\<not> int (length c) - pos < 8" using l8 tiled_open(3) by simp
  ultimately show ?case
    by (simp add: box_walk.simps [of _ _ _ k] box_walk.simps [of _ _ _ _ "int (length c)"]
      box_extent_def get_put_be)
next
  case (tiled_box b r)
  note at = tiled_box.prems(1) [symmetric]
  obtain hdr hlen where rd: "read_full (sound_file c) 8 pos = Some hdr" and h: "hlen \<le> int (length (box_bytes b))"
    and ext: "box_extent (sound_file c) (int (length c)) pos hdr = Inr (int (length (box_bytes b)), hlen)"
    using box_extent_box [OF at tiled_box.hyps(1) tiled_box.prems(2)] by blast
  have len: "length (drop (nat pos) c) = length (box_bytes b) + length r" using at by simp
  have "8 \<le> length (box_bytes b)" by (rule length_box_bytes [OF tiled_box.hyps(1)])
  then have room: "pos < int (length c)" "\<not> int (length c) - pos < 8"
    "\<not> int (length (box_bytes b)) > int (length c) - pos"
    using len tiled_box.prems(2) by auto
  have "r = drop (nat (pos + int (length (box_bytes b)))) c"
    using arg_cong [OF at, of "drop (length (box_bytes b))"] tiled_box.prems(2)
    by (simp add: nat_add_distrib add.commute)
  then have "fst (box_walk (sound_file c) (int (length c)) never (Suc k) (pos + int (length (box_bytes b)))) = Unproven"
    using tiled_box by auto
  then show ?case using rd ext h room
    by (simp add: box_walk.simps [of _ _ _ k])
qed

text \<open>C22. The media-box check convicts exactly the files whose top-level boxes do not tile
  them, and never says more than Unproven of the others.\<close>

theorem isobmff_damage_exact:
  "fst (verifyISOBMFF (sound_file c) (int (length c)) never) = (if tiled c then Unproven else Damaged)"
proof (cases "tiled c")
  case True
  then show ?thesis using box_walk_tiled [of c 0 c 0] by (simp add: verifyISOBMFF_def)
next
  case False
  then have "fst (verifyISOBMFF (sound_file c) (int (length c)) never) \<noteq> Unproven"
    using box_walk_Unproven [OF _ _ refl refl, of c 0 0] by (auto simp: verifyISOBMFF_def)
  moreover have "fst (verifyISOBMFF (sound_file c) (int (length c)) never) \<noteq> Proven"
    unfolding verifyISOBMFF_def by (rule box_walk_not_Proven)
  ultimately show ?thesis using False by (cases "fst (verifyISOBMFF (sound_file c) (int (length c)) never)") auto
qed

subsection \<open>findBox\<close>

text \<open>The walk measures offsets as \<open>int64\<close> values.  A sum that wraps turns negative, and a
  negative offset is one \<open>ReadAt\<close> refuses.\<close>

definition off_measure :: "int \<Rightarrow> nat" where
  "off_measure off = (if off < 0 then 0
     else if off < 9223372036854775808 then 1 + nat (9223372036854775808 - off)
     else 9223372036854775810)"

lemma goint64_period: "goint 64 (x - 18446744073709551616) = goint 64 x"
proof -
  have "x - 18446744073709551616 + 9223372036854775808 = (x + 9223372036854775808) - 18446744073709551616"
    by simp
  then have "(x - 18446744073709551616 + 9223372036854775808) mod 18446744073709551616
      = (x + 9223372036854775808) mod 18446744073709551616"
    by (simp only: minus_mod_self2)
  then show ?thesis
    by (simp add: goint_def signed_take_bit_eq_take_bit_shift take_bit_eq_mod)
qed

lemma off_measure_step:
  assumes "0 \<le> off" and "8 \<le> sz" and "sz < 9223372036854775808"
  shows "off_measure (goint 64 (off + sz)) < off_measure off"
proof (cases "off < 9223372036854775808")
  case False
  then show ?thesis using goint64_upper [of "off + sz"] assms(1) by (auto simp: off_measure_def)
next
  case True
  show ?thesis
  proof (cases "off + sz < 9223372036854775808")
    case small: True
    then have "goint 64 (off + sz) = off + sz" using assms by (intro goint64_small) auto
    then show ?thesis using small True assms by (auto simp: off_measure_def)
  next
    case False
    have "goint 64 (off + sz) = goint 64 (off + sz - 18446744073709551616)"
      by (rule goint64_period [symmetric])
    also have "\<dots> = off + sz - 18446744073709551616"
      using False True assms by (intro goint64_small) auto
    finally show ?thesis using True False assms by (auto simp: off_measure_def)
  qed
qed

text \<open>The size and the payload offset of the box whose header starts at \<open>off\<close>.\<close>

definition box_size :: "osfile \<Rightarrow> int \<Rightarrow> int \<Rightarrow> gostring \<Rightarrow> (int \<times> int) option" where
  "box_size f lim off hdr =
     (let n = int (get_be (take 4 hdr)); payload = goint 64 (off + 8) in
      if n = 1 then
        (case read_full f 8 (goint 64 (off + 8)) of
           None \<Rightarrow> None
         | Some ext \<Rightarrow> Some (goint 64 (int (get_be ext)), goint 64 (off + 16)))
      else if n = 0 then Some (goint 64 (lim - off), payload)
      else Some (n, payload))"

lemma box_size_bound:
  assumes "box_size f e off hdr = Some (n, p)" and "length hdr = 8"
  shows "n < 9223372036854775808"
  using assms goint64_upper get_be_less [of "take 4 hdr"]
  by (auto simp: box_size_def Let_def split: if_splits option.splits)

function findBox :: "osfile \<Rightarrow> int \<Rightarrow> int \<Rightarrow> gostring \<Rightarrow> (int \<times> int) option" where
  "findBox f off lim ty =
     (if \<not> goint 64 (off + 8) \<le> lim then None
      else case read_full f 8 off of
        None \<Rightarrow> None
      | Some hdr \<Rightarrow> (case box_size f lim off hdr of
          None \<Rightarrow> None
        | Some (sz, payload) \<Rightarrow>
            if sz < 8 \<or> goint 64 (off + sz) > lim \<or> payload > goint 64 (off + sz) then None
            else if drop 4 hdr = ty then Some (payload, goint 64 (off + sz))
            else findBox f (goint 64 (off + sz)) lim ty))"
  by pat_completeness auto
termination
  by (relation "measure (\<lambda>(f, off, lim, ty). off_measure off)")
    (auto intro!: off_measure_step dest: box_size_bound read_full_SomeD)

declare findBox.simps [simp del]

text \<open>A box found lies inside the range that was searched, its payload not before its
  header and not past its end.\<close>

lemma findBox_bounds:
  assumes "findBox f off lim ty = Some (p, q)" and "0 \<le> off" and "lim < 9223372036854775808"
    and "length (content f) < 9223372036854775808"
  shows "off + 8 \<le> p \<and> p \<le> q \<and> q \<le> lim"
  using assms
proof (induction f off lim ty rule: findBox.induct)
  case (1 f off e ty)
  from 1(2) obtain hdr where hdr: "read_full f 8 off = Some hdr"
    by (auto simp: findBox.simps [of f off] split: if_splits option.splits)
  from 1(2) hdr obtain n payload where bx: "box_size f e off hdr = Some (n, payload)"
    by (auto simp: findBox.simps [of f off] split: if_splits option.splits)
  from 1(2) hdr bx have ok: "8 \<le> n" "goint 64 (off + n) \<le> e" "payload \<le> goint 64 (off + n)"
    by (auto simp: findBox.simps [of f off] split: if_splits)
  note rd = read_full_SomeD [OF hdr]
  have fits: "off + 8 \<le> int (length (content f))" using rd(2,4) by auto
  have g8: "goint 64 (off + 8) = off + 8" using fits 1(3,5) by (intro goint64_small) auto
  have pay: "off + 8 \<le> payload"
  proof (cases "get_be (take 4 hdr) = 1")
    case True
    with bx obtain ext where ext: "read_full f 8 (off + 8) = Some ext" and p: "payload = goint 64 (off + 16)"
      by (auto simp: box_size_def g8 split: option.splits)
    have "off + 16 \<le> int (length (content f))" using read_full_SomeD(2,4) [OF ext] by auto
    then have "goint 64 (off + 16) = off + 16" using 1(3,5) by (intro goint64_small) auto
    with p show ?thesis by simp
  next
    case False
    with bx show ?thesis by (auto simp: box_size_def g8 Let_def split: if_splits)
  qed
  show ?case
  proof (cases "drop 4 hdr = ty")
    case True
    with 1(2) hdr bx ok have "p = payload" "q = goint 64 (off + n)"
      by (auto simp: findBox.simps [of f off] split: if_splits)
    with pay ok show ?thesis by simp
  next
    case False
    with 1(2) hdr bx ok have rest: "findBox f (goint 64 (off + n)) e ty = Some (p, q)"
      by (auto simp: findBox.simps [of f off] split: if_splits)
    have "0 \<le> goint 64 (off + n)" using pay ok(3) 1(3) by simp
    then have "goint 64 (off + n) + 8 \<le> p \<and> p \<le> q \<and> q \<le> e"
      using 1(1) [OF _ hdr bx refl _ False rest] ok 1(2,4,5)
      by (auto simp: findBox.simps [of f off] split: if_splits)
    with pay ok(3) show ?thesis by simp
  qed
qed

end
