(* ===== verification/GoTime.thy ===== *)
theory GoTime
  imports SelfMount Decimal "HOL-Library.Monad_Syntax"
begin

text \<open>
  What the media readers use of Go's packages \<open>time\<close> and \<open>strings\<close>:
  \<open>strings.TrimSpace\<close> and \<open>TrimRight\<close>, \<open>time.Parse\<close> of the layouts the readers name,
  \<open>Time.Format\<close> of the row layout and \<open>time.Unix(s, 0).UTC()\<close>.  A time is its wall
  clock in its own zone: that is what \<open>Year\<close> and \<open>Format\<close> read, whatever the zone is.
\<close>

subsection \<open>Trimming\<close>

definition TrimSpace :: "gostring \<Rightarrow> gostring" where
  "TrimSpace s =
     concat (map snd (rev (dropWhile (\<lambda>rw. IsSpace (fst rw))
       (rev (dropWhile (\<lambda>rw. IsSpace (fst rw)) (rune_chunks s))))))"

definition TrimRightByte :: "char \<Rightarrow> gostring \<Rightarrow> gostring" where
  "TrimRightByte c s = rev (dropWhile (\<lambda>b. b = c) (rev s))"

subsection \<open>Wall clocks\<close>

record gotime =
  t_year :: int
  t_month :: nat
  t_day :: nat
  t_hour :: nat
  t_min :: nat
  t_sec :: nat

definition zero_time :: gotime where
  "zero_time = \<lparr>t_year = 1, t_month = 1, t_day = 1, t_hour = 0, t_min = 0, t_sec = 0\<rparr>"

definition leap :: "int \<Rightarrow> bool" where
  "leap y \<longleftrightarrow> y mod 4 = 0 \<and> (y mod 100 \<noteq> 0 \<or> y mod 400 = 0)"

definition daysIn :: "nat \<Rightarrow> int \<Rightarrow> nat" where
  "daysIn m y = (if m = 2 then (if leap y then 29 else 28)
     else if m \<in> {4, 6, 9, 11} then 30 else 31)"

definition clock_ok :: "gotime \<Rightarrow> bool" where
  "clock_ok t \<longleftrightarrow> 1 \<le> t_month t \<and> t_month t \<le> 12 \<and> 1 \<le> t_day t \<and> t_day t \<le> daysIn (t_month t) (t_year t)
     \<and> t_hour t < 24 \<and> t_min t < 60 \<and> t_sec t < 60"

subsection \<open>Format\<close>

definition two :: "nat \<Rightarrow> gostring" where
  "two n = [digit_char (n div 10 mod 10), digit_char (n mod 10)]"

definition four :: "nat \<Rightarrow> gostring" where
  "four n = two (n div 100) @ two (n mod 100)"

text \<open>\<open>t.Format("2006-01-02 15:04:05")\<close> of a year of four digits.\<close>

definition Format :: "gotime \<Rightarrow> gostring" where
  "Format t = four (nat (t_year t)) @ ''-'' @ two (t_month t) @ ''-'' @ two (t_day t) @ '' ''
     @ two (t_hour t) @ '':'' @ two (t_min t) @ '':'' @ two (t_sec t)"

subsection \<open>Parse\<close>

text \<open>A layout as the elements \<open>nextStdChunk\<close> cuts it into.\<close>

datatype tchunk = Lit gostring | Year4 | Month2 | Day2 | Hour2 | Min2 | Sec2 | Frac9 | NumTZ | ISOTZ

definition exifLayout :: "tchunk list" where
  "exifLayout = [Year4, Lit '':'', Month2, Lit '':'', Day2, Lit '' '', Hour2, Lit '':'', Min2, Lit '':'', Sec2]"

definition isoLayouts :: "tchunk list list" where
  "isoLayouts =
     (let day = [Year4, Lit ''-'', Month2, Lit ''-'', Day2, Lit ''T'', Hour2, Lit '':'', Min2, Lit '':'', Sec2]
      in [day @ [NumTZ], day @ [ISOTZ], day @ [Frac9, ISOTZ], day])"

definition cutspace :: "gostring \<Rightarrow> gostring" where
  "cutspace s = dropWhile (\<lambda>c. c = CHR '' '') s"

lemma length_cutspace: "length (cutspace s) \<le> length s"
  by (simp add: cutspace_def length_dropWhile_le)

fun skip_lit :: "gostring \<Rightarrow> gostring \<Rightarrow> gostring option" where
  "skip_lit v [] = Some v"
| "skip_lit v (p # ps) =
     (if p = CHR '' ''
      then (if v \<noteq> [] \<and> hd v \<noteq> CHR '' '' then None else skip_lit (cutspace v) ps)
      else (case v of [] \<Rightarrow> None | c # v' \<Rightarrow> if c = p then skip_lit v' ps else None))"

definition digit_val :: "char \<Rightarrow> nat" where
  "digit_val c = of_char c - 48"

text \<open>\<open>getnum\<close>: two digits, or one when the layout does not fix the width.\<close>

definition getnum :: "bool \<Rightarrow> gostring \<Rightarrow> (nat \<times> gostring) option" where
  "getnum fixed s =
     (case s of [] \<Rightarrow> None
      | a # s' \<Rightarrow>
          if \<not> is_digit a then None
          else (case s' of
              b # s'' \<Rightarrow> if is_digit b then Some (10 * digit_val a + digit_val b, s'')
                         else if fixed then None else Some (digit_val a, s')
            | [] \<Rightarrow> if fixed then None else Some (digit_val a, s')))"

definition getyear :: "gostring \<Rightarrow> (nat \<times> gostring) option" where
  "getyear s =
     (if length s < 4 \<or> \<not> list_all is_digit (take 4 s) then None
      else Some (foldl (\<lambda>n c. 10 * n + digit_val c) 0 (take 4 s), drop 4 s))"

text \<open>The fraction a seconds field may carry, asked for by the layout or not.\<close>

definition drop_frac :: "gostring \<Rightarrow> gostring" where
  "drop_frac v =
     (case v of
        p # d # v' \<Rightarrow> if (p = CHR ''.'' \<or> p = CHR '','') \<and> is_digit d then dropWhile is_digit v' else v
      | _ \<Rightarrow> v)"

definition zone_rest :: "bool \<Rightarrow> gostring \<Rightarrow> gostring option" where
  "zone_rest colon v =
     (if colon \<and> v \<noteq> [] \<and> hd v = CHR ''Z'' then Some (tl v)
      else if length v < (if colon then 6 else 5) \<or> (colon \<and> v ! 3 \<noteq> CHR '':'') then None
      else do {
        (h, _) \<leftarrow> getnum True (take 2 (drop 1 v));
        (m, _) \<leftarrow> getnum True (take 2 (drop (if colon then 4 else 3) v));
        if h > 24 \<or> m > 60 \<or> hd v \<notin> {CHR ''+'', CHR ''-''} then None
        else Some (drop (if colon then 6 else 5) v)
      })"

fun parse_chunks :: "tchunk list \<Rightarrow> gotime \<Rightarrow> gostring \<Rightarrow> (gotime \<times> gostring) option" where
  "parse_chunks [] t v = Some (t, v)"
| "parse_chunks (Lit p # cs) t v = skip_lit v p \<bind> parse_chunks cs t"
| "parse_chunks (Year4 # cs) t v = do { (n, v') \<leftarrow> getyear v; parse_chunks cs (t\<lparr>t_year := int n\<rparr>) v' }"
| "parse_chunks (Month2 # cs) t v = do { (n, v') \<leftarrow> getnum True v;
     if n = 0 \<or> 12 < n then None else parse_chunks cs (t\<lparr>t_month := n\<rparr>) v' }"
| "parse_chunks (Day2 # cs) t v = do { (n, v') \<leftarrow> getnum True v; parse_chunks cs (t\<lparr>t_day := n\<rparr>) v' }"
| "parse_chunks (Hour2 # cs) t v = do { (n, v') \<leftarrow> getnum False v;
     if 24 \<le> n then None else parse_chunks cs (t\<lparr>t_hour := n\<rparr>) v' }"
| "parse_chunks (Min2 # cs) t v = do { (n, v') \<leftarrow> getnum True v;
     if 60 \<le> n then None else parse_chunks cs (t\<lparr>t_min := n\<rparr>) v' }"
| "parse_chunks (Sec2 # cs) t v = do { (n, v') \<leftarrow> getnum True v;
     if 60 \<le> n then None
     else parse_chunks cs (t\<lparr>t_sec := n\<rparr>) (case cs of Frac9 # _ \<Rightarrow> v' | _ \<Rightarrow> drop_frac v') }"
| "parse_chunks (Frac9 # cs) t v = parse_chunks cs t (drop_frac v)"
| "parse_chunks (NumTZ # cs) t v = zone_rest False v \<bind> parse_chunks cs t"
| "parse_chunks (ISOTZ # cs) t v = zone_rest True v \<bind> parse_chunks cs t"

definition Parse :: "tchunk list \<Rightarrow> gostring \<Rightarrow> gotime option" where
  "Parse layout v = do {
     (t, v') \<leftarrow> parse_chunks layout zero_time v;
     if v' \<noteq> [] \<or> t_day t < 1 \<or> t_day t > daysIn (t_month t) (t_year t) then None else Some t
   }"

subsection \<open>Seconds since the epoch\<close>

text \<open>The civil date of a day number (0 is 1970-01-01), by eras of 400 years counted from
  a year that starts in March.\<close>

definition civil_of_days :: "int \<Rightarrow> int \<times> nat \<times> nat" where
  "civil_of_days n =
     (let z = n + 719468; era = z div 146097; doe = z mod 146097;
          yoe = (doe - doe div 1460 + doe div 36524 - doe div 146096) div 365;
          doy = doe - (365 * yoe + yoe div 4 - yoe div 100);
          mp = (5 * doy + 2) div 153;
          d = doy - (153 * mp + 2) div 5 + 1;
          m = (if mp < 10 then mp + 3 else mp - 9);
          y = yoe + era * 400 + (if m \<le> 2 then 1 else 0)
      in (y, nat m, nat d))"

text \<open>\<open>time.Unix(s, 0).UTC()\<close>: package \<open>time\<close> counts in unsigned seconds from a far past,
  so a second before it wraps.\<close>

definition abs_epoch :: int where "abs_epoch = 9223372028715321600"

definition Unix :: "int \<Rightarrow> gotime" where
  "Unix s =
     (let u = (s + abs_epoch) mod 18446744073709551616 - abs_epoch;
          (y, m, d) = civil_of_days (u div 86400); r = u mod 86400
      in \<lparr>t_year = y, t_month = m, t_day = d, t_hour = nat (r div 3600),
          t_min = nat (r div 60 mod 60), t_sec = nat (r mod 60)\<rparr>)"

subsection \<open>Facts\<close>

lemma getnum_less: "getnum f s = Some (n, r) \<Longrightarrow> n < 100"
proof -
  have "is_digit c \<Longrightarrow> digit_val c \<le> 9" for c by (auto simp: is_digit_def digit_val_def)
  note d = this
  show "getnum f s = Some (n, r) \<Longrightarrow> n < 100"
    by (auto simp: getnum_def split: list.splits if_splits dest!: d)
qed

lemma parse_chunks_clock:
  assumes "parse_chunks cs t v = Some (u, r)" and "1 \<le> t_month t" and "t_month t \<le> 12"
    and "t_hour t < 24" and "t_min t < 60" and "t_sec t < 60"
  shows "1 \<le> t_month u \<and> t_month u \<le> 12 \<and> t_hour u < 24 \<and> t_min u < 60 \<and> t_sec u < 60"
  using assms
  by (induction cs t v rule: parse_chunks.induct)
    (auto simp: bind_eq_Some_conv split: if_splits prod.splits)

text \<open>A parsed time is a date of the calendar and a time of the day.\<close>

lemma Parse_ok: "Parse l v = Some t \<Longrightarrow> clock_ok t"
  by (auto simp: Parse_def bind_eq_Some_conv clock_ok_def zero_time_def split: if_splits
    dest!: parse_chunks_clock)

lemma length_Format [simp]: "length (Format t) = 19"
  by (simp add: Format_def four_def two_def)

subsection \<open>Reading back what is printed\<close>

lemma digit_val_char: "d < 10 \<Longrightarrow> digit_val (digit_char d) = d"
  by (simp add: digit_val_def digit_char_def)

lemma getnum_two [simp]: "n < 100 \<Longrightarrow> getnum f (two n @ r) = Some (n, r)"
  by (simp add: getnum_def two_def is_digit_char digit_val_char)

lemma getnum_two_end [simp]: "n < 100 \<Longrightarrow> getnum f (two n) = Some (n, [])"
  using getnum_two [of n f "[]"] by simp

lemma getyear_four [simp]: "n < 10000 \<Longrightarrow> getyear (four n @ r) = Some (n, r)"
proof -
  assume n: "n < 10000"
  define h l where "h = n div 100" and "l = n mod 100"
  have hl: "h < 100" "l < 100" "n = 100 * h + l" using n by (auto simp: h_def l_def)
  then have d: "h div 10 < 10" "l div 10 < 10" by auto
  have "10 * (10 * a + b) + c = 100 * a + (10 * b + c)" for a b c :: nat by simp
  then have "10 * (10 * (10 * (h div 10) + h mod 10) + l div 10) + l mod 10 = n"
    by (simp only: mult_div_mod_eq hl(3) [symmetric])
  then show ?thesis using d
    by (simp add: getyear_def four_def two_def is_digit_char digit_val_char
      flip: h_def l_def)
qed

text \<open>The form a camera writes.\<close>

definition exif_text :: "gotime \<Rightarrow> gostring" where
  "exif_text t = four (nat (t_year t)) @ '':'' @ two (t_month t) @ '':'' @ two (t_day t) @ '' ''
     @ two (t_hour t) @ '':'' @ two (t_min t) @ '':'' @ two (t_sec t)"

lemma cutspace_two [simp]: "cutspace (two n @ r) = two n @ r"
proof -
  have "digit_char (n div 10 mod 10) \<noteq> CHR '' ''"
    using is_digit_char [of "n div 10 mod 10"] by (auto simp: is_digit_def)
  then show ?thesis by (simp add: cutspace_def two_def)
qed

lemma cutspace_space [simp]: "cutspace (CHR '' '' # s) = cutspace s"
  by (simp add: cutspace_def)

lemma Parse_exif_text:
  assumes "clock_ok t" and "0 \<le> t_year t" and "t_year t < 10000"
  shows "Parse exifLayout (exif_text t) = Some t"
proof -
  have d: "daysIn m y \<le> 31" for m y by (simp add: daysIn_def)
  have "t_day t < 100" using assms(1) d [of "t_month t" "t_year t"] by (auto simp: clock_ok_def)
  moreover have "nat (t_year t) < 10000" using assms by simp
  ultimately show ?thesis
    using assms
    by (simp add: Parse_def exifLayout_def exif_text_def clock_ok_def zero_time_def drop_frac_def)
qed

lemma exif_text_chars: "c \<in> set (exif_text t) \<Longrightarrow> (of_char c :: nat) \<in> {32} \<union> {48..58}"
  by (auto simp: exif_text_def four_def two_def digit_char_def)

lemma runes_of_ascii: "ascii s \<Longrightarrow> rune_chunks s = map (\<lambda>c. (of_char c, [c])) s"
  using rune_chunks_ascii [of s "[]"] by simp

lemma TrimSpace_solid:
  assumes "ascii s" and "s \<noteq> []" and "\<not> IsSpace (of_char (hd s))" and "\<not> IsSpace (of_char (last s))"
  shows "TrimSpace s = s"
proof -
  let ?m = "map (\<lambda>c. (of_char c :: nat, [c])) s"
  have l: "dropWhile (\<lambda>rw. IsSpace (fst rw)) ?m = ?m"
    using assms(2,3) by (cases s) auto
  have r: "dropWhile (\<lambda>rw. IsSpace (fst rw)) (rev ?m) = rev ?m"
    using assms(2,4) by (cases s rule: rev_cases) auto
  have "concat (map (\<lambda>c. [c]) s) = s" by (induction s) auto
  then show ?thesis
    by (simp add: TrimSpace_def runes_of_ascii [OF assms(1)] l r comp_def del: rev_map)
qed

lemma TrimSpace_exif_text: "TrimSpace (exif_text t) = exif_text t"
proof (rule TrimSpace_solid)
  show "ascii (exif_text t)" using exif_text_chars [of _ t] by (fastforce simp: ascii_def)
  show "exif_text t \<noteq> []" by (simp add: exif_text_def four_def two_def)
  have sp: "\<not> IsSpace (of_char (digit_char d))" if "d < 10" for d
    using that by (auto simp: IsSpace_def digit_char_def)
  show "\<not> IsSpace (of_char (hd (exif_text t)))" "\<not> IsSpace (of_char (last (exif_text t)))"
    by (simp_all add: exif_text_def four_def two_def sp)
qed

end
