(* ===== verification/ExifDate.thy ===== *)
theory ExifDate
  imports MediaFile GoTime
begin

text \<open>
  \<open>internal/media/exif.go\<close>: the EXIF block of a JPEG (\<open>findExifInJpeg\<close>) and the
  capture date of a TIFF block (\<open>parseTiffDate\<close>), with \<open>captureDate\<close> of
  \<open>qt.go\<close>.  Offsets and counts come from the file and an \<open>int\<close> may have 32 bits, so
  every sum and conversion is written in the width \<open>w\<close> of the build and every slice can
  panic (\<open>None\<close>); the lemmas show that none does.
\<close>

definition captureDate :: "gotime \<Rightarrow> gostring" where
  "captureDate t = (if t = zero_time \<or> t_year t < 1971 \<or> t_year t > 2100 then [] else Format t)"

subsection \<open>findExifInJpeg\<close>

text \<open>One segment at offset \<open>i\<close>: the answer, or the offset of the next.\<close>

definition jpeg_segment :: "nat \<Rightarrow> gostring \<Rightarrow> int \<Rightarrow> (gostring option + int) option" where
  "jpeg_segment w b i = do {
     m0 \<leftarrow> byte_at b i;
     if m0 \<noteq> 0xFF then Some (Inl None)
     else do {
       marker \<leftarrow> byte_at b (goint w (i + 1));
       if marker = 0xD8 \<or> (0xD0 \<le> marker \<and> marker \<le> 0xD9) then Some (Inr (goint w (i + 2)))
       else if goint w (i + 4) > int (length b) then Some (Inl None)
       else do {
         s \<leftarrow> subslice b (goint w (i + 2)) (goint w (i + 4));
         segLen \<leftarrow> map_option int (Uint True 2 s);
         if segLen < 2 then Some (Inl None)
         else do {
           exif \<leftarrow> (if marker = 0xE1 \<and> goint w (goint w (i + 4) + 6) \<le> int (length b)
                    then do {
                      sig \<leftarrow> subslice b (goint w (i + 4)) (goint w (i + 10));
                      Some (sig = ''Exif'' @ [CHR 0x00, CHR 0x00])
                    } else Some False);
           if exif then
             (if segLen < 8 then Some (Inl None)
              else let e = goint w (goint w (i + 2) + segLen);
                       e' = (if e > int (length b) then int (length b) else e)
                   in map_option (\<lambda>t. Inl (Some t)) (subslice b (goint w (i + 10)) e'))
           else if marker = 0xDA then Some (Inl None)
           else Some (Inr (goint w (i + goint w (2 + segLen))))
         }
       }
     }
   }"

text \<open>The loop, with a bound on its turns: a segment takes two bytes or more.\<close>

fun jpeg_segments :: "nat \<Rightarrow> nat \<Rightarrow> gostring \<Rightarrow> int \<Rightarrow> gostring option option" where
  "jpeg_segments fuel w b i =
     (if goint w (i + 4) \<le> int (length b) then
        (case fuel of
           0 \<Rightarrow> None
         | Suc n \<Rightarrow> (case jpeg_segment w b i of
             None \<Rightarrow> None
           | Some (Inl r) \<Rightarrow> Some r
           | Some (Inr j) \<Rightarrow> jpeg_segments n w b j))
      else Some None)"

declare jpeg_segments.simps [simp del]

definition findExifInJpeg :: "nat \<Rightarrow> gostring \<Rightarrow> gostring option option" where
  "findExifInJpeg w b =
     (if length b < 4 then Some None
      else do {
        b0 \<leftarrow> byte_at b 0;
        b1 \<leftarrow> (if b0 \<noteq> 0xFF then Some 0 else byte_at b 1);
        if b0 \<noteq> 0xFF \<or> b1 \<noteq> 0xD8 then Some None
        else jpeg_segments (length b) w b 2
      })"

subsection \<open>parseTiffDate\<close>

text \<open>What \<open>readIFD\<close> has found: the offset of the Exif directory and the texts by tag.\<close>

type_synonym ifd_state = "int \<times> (nat \<rightharpoonup> gostring)"

definition ifd_entry :: "nat \<Rightarrow> bool \<Rightarrow> gostring \<Rightarrow> nat list \<Rightarrow> int \<Rightarrow> ifd_state \<Rightarrow> ifd_state option" where
  "ifd_entry w big t want e st = do {
     tag \<leftarrow> uint_at w big 2 t e;
     if tag \<notin> set want then Some st
     else do {
       ty \<leftarrow> uint_at w big 2 t (goint w (e + 2));
       cnt \<leftarrow> map_option (\<lambda>v. goint w (int v)) (uint_at w big 4 t (goint w (e + 4)));
       if tag = 0x8769
       then map_option (\<lambda>v. (goint w (int v), snd st)) (uint_at w big 4 t (goint w (e + 8)))
       else if ty \<noteq> 2 \<or> cnt < 10 then Some st
       else do {
         valOff \<leftarrow> (if cnt > 4 then map_option (\<lambda>v. goint w (int v)) (uint_at w big 4 t (goint w (e + 8)))
                    else Some (goint w (e + 8)));
         if valOff < 0 \<or> cnt < 0 \<or> valOff > int (length t) \<or> cnt > goint w (int (length t) - valOff)
         then Some st
         else map_option (\<lambda>s. (fst st, (snd st)(tag \<mapsto> TrimRightByte CHR 0x00 s)))
           (subslice t valOff (goint w (valOff + cnt)))
       }
     }
   }"

fun ifd_entries :: "nat \<Rightarrow> bool \<Rightarrow> gostring \<Rightarrow> nat list \<Rightarrow> int \<Rightarrow> nat \<Rightarrow> int \<Rightarrow> ifd_state \<Rightarrow> ifd_state option" where
  "ifd_entries w big t want off 0 i st = Some st"
| "ifd_entries w big t want off (Suc k) i st =
     (let e = goint w (goint w (off + 2) + goint w (i * 12)) in
      if goint w (e + 12) > int (length t) then Some st
      else ifd_entry w big t want e st \<bind> ifd_entries w big t want off k (i + 1))"

definition readIFD :: "nat \<Rightarrow> bool \<Rightarrow> gostring \<Rightarrow> int \<Rightarrow> nat list \<Rightarrow> ifd_state \<Rightarrow> ifd_state option" where
  "readIFD w big t off want st =
     (if off < 0 \<or> off > goint w (int (length t) - 2) then Some st
      else do {
        n \<leftarrow> uint_at w big 2 t off;
        if n > 512 then Some st else ifd_entries w big t want off n 0 st
      })"

definition text_of :: "(nat \<rightharpoonup> gostring) \<Rightarrow> nat \<Rightarrow> gostring" where
  "text_of m k = (case m k of Some s \<Rightarrow> s | None \<Rightarrow> [])"

definition tiff_order :: "gostring \<Rightarrow> bool option" where
  "tiff_order s = (if s = ''II'' then Some False else if s = ''MM'' then Some True else None)"

definition tiff_texts :: "nat \<Rightarrow> bool \<Rightarrow> gostring \<Rightarrow> (gostring \<times> gostring \<times> gostring) option" where
  "tiff_texts w big t = do {
     ifd0 \<leftarrow> map_option (\<lambda>v. goint w (int v)) (uint_at w big 4 t 4);
     (exifOff, vals) \<leftarrow> readIFD w big t ifd0 [0x8769, 0x0132] (0, Map.empty);
     (exifOff', vals') \<leftarrow>
       (if exifOff > 0 then readIFD w big t exifOff [0x9003, 0x9004] (exifOff, vals)
        else Some (exifOff, vals));
     Some (text_of vals' 0x9003, text_of vals' 0x9004, text_of vals 0x0132)
   }"

definition tiff_date :: "gostring \<Rightarrow> gostring \<Rightarrow> gostring \<Rightarrow> gostring" where
  "tiff_date original digitized dateTime =
     (let raw = original;
          raw = (if raw = [] then digitized else raw);
          raw = (if raw = [] then dateTime else raw)
      in if raw = [] then []
         else case Parse exifLayout (TrimSpace raw) of
           None \<Rightarrow> []
         | Some ts \<Rightarrow> captureDate ts)"

definition parseTiffDate :: "nat \<Rightarrow> gostring \<Rightarrow> gostring option" where
  "parseTiffDate w t =
     (if length t < 8 then Some []
      else do {
        mark \<leftarrow> subslice t 0 2;
        (case tiff_order mark of
           None \<Rightarrow> Some []
         | Some big \<Rightarrow> do {
             magic \<leftarrow> uint_at w big 2 t 2;
             if magic \<noteq> 42 then Some []
             else do {
               (original, digitized, dateTime) \<leftarrow> tiff_texts w big t;
               Some (tiff_date original digitized dateTime)
             }
           })
      })"

subsection \<open>No slice of the readers panics\<close>

text \<open>The blocks handed to these readers are heads of a file: 256 KiB of a JPEG or a raw, at
  most a megabyte of a HEIF item.  One gigabyte bounds them generously.\<close>

definition block :: "gostring \<Rightarrow> bool" where
  "block t \<longleftrightarrow> length t \<le> 1073741824"

lemma block_goint: "int_width w \<Longrightarrow> - 1073741824 \<le> x \<Longrightarrow> x \<le> 2147483647 \<Longrightarrow> goint w x = x"
  by (rule goint_small) auto

lemma block_uint:
  assumes "int_width w" and "block t" and "0 \<le> p" and "p + int n \<le> int (length t)"
  obtains v where "uint_at w big n t p = Some v" and "v < 256 ^ n"
  using uint_at_some [OF assms(1,3,4), of big] assms(2) by (auto simp: block_def)

lemma ifd_entry_some:
  assumes w: "int_width w" and t: "block t" and e: "0 \<le> e" "e + 12 \<le> int (length t)"
  shows "\<exists>st'. ifd_entry w big t want e st = Some st'"
proof -
  have g: "goint w (e + 2) = e + 2" "goint w (e + 4) = e + 4" "goint w (e + 8) = e + 8"
    using w e t by (auto simp: block_def intro!: block_goint)
  obtain tag where tag: "uint_at w big 2 t e = Some tag"
    using block_uint [OF w t, of e 2 big] e by auto
  obtain ty where ty: "uint_at w big 2 t (e + 2) = Some ty"
    using block_uint [OF w t, of "e + 2" 2 big] e by auto
  obtain cnt where cnt: "uint_at w big 4 t (e + 4) = Some cnt"
    using block_uint [OF w t, of "e + 4" 4 big] e by auto
  obtain val where val: "uint_at w big 4 t (e + 8) = Some val"
    using block_uint [OF w t, of "e + 8" 4 big] e by auto
  have cut: "\<exists>s. subslice t v (goint w (v + c)) = Some s"
    if v: "\<not> (v < 0 \<or> c < 0 \<or> v > int (length t) \<or> c > goint w (int (length t) - v))" for v c
  proof -
    have "goint w (int (length t) - v) = int (length t) - v"
      using w v t by (intro block_goint) (auto simp: block_def)
    with v have "v + c \<le> int (length t)" by simp
    moreover from this have "goint w (v + c) = v + c"
      using w v t by (intro block_goint) (auto simp: block_def)
    ultimately show ?thesis using v by (simp add: subslice_def)
  qed
  show ?thesis
    using cut [of "goint w (int val)" "goint w (int cnt)"] cut [of "e + 8" "goint w (int cnt)"]
    by (auto simp: ifd_entry_def tag g ty cnt val)
qed

lemma ifd_entries_some:
  assumes w: "int_width w" and t: "block t" and off: "0 \<le> off" "off \<le> int (length t) - 2"
    and "0 \<le> i" and "i + int k \<le> 512"
  shows "\<exists>st'. ifd_entries w big t want off k i st = Some st'"
  using assms(5,6)
proof (induction k arbitrary: i st)
  case (Suc k)
  have g: "goint w (off + 2) = off + 2" "goint w (i * 12) = i * 12"
    "goint w (off + 2 + i * 12) = off + 2 + i * 12"
    "goint w (off + 2 + i * 12 + 12) = off + 2 + i * 12 + 12"
    using w off t Suc.prems by (auto simp: block_def intro!: block_goint)
  show ?case
  proof (cases "off + 2 + i * 12 + 12 > int (length t)")
    case False
    then obtain st' where "ifd_entry w big t want (off + 2 + i * 12) st = Some st'"
      using ifd_entry_some [OF w t, of "off + 2 + i * 12" big want st] off Suc.prems by auto
    moreover have "\<exists>s. ifd_entries w big t want off k (i + 1) st' = Some s"
      using Suc.IH [of "i + 1" st'] Suc.prems by simp
    ultimately show ?thesis using False unfolding ifd_entries.simps Let_def g by auto
  qed (simp only: ifd_entries.simps Let_def g if_True, simp)
qed simp

lemma readIFD_some:
  assumes w: "int_width w" and t: "block t"
  shows "\<exists>st'. readIFD w big t off want st = Some st'"
proof (cases "off < 0 \<or> off > goint w (int (length t) - 2)")
  case False
  have "goint w (int (length t) - 2) = int (length t) - 2"
    using w t by (intro block_goint) (auto simp: block_def)
  with False have off: "0 \<le> off" "off \<le> int (length t) - 2" by auto
  obtain n where n: "uint_at w big 2 t off = Some n"
    using block_uint [OF w t, of off 2 big] off by auto
  show ?thesis
    using ifd_entries_some [OF w t off, of 0 n big want st] by (auto simp: readIFD_def n)
qed (auto simp: readIFD_def)

lemma parseTiffDate_some:
  assumes w: "int_width w" and t: "block t"
  shows "\<exists>d. parseTiffDate w t = Some d"
proof (cases "length t < 8")
  case False
  then obtain m where m: "subslice t 0 2 = Some m" by (auto simp: subslice_def)
  show ?thesis
  proof (cases "tiff_order m")
    case (Some big)
    obtain k where k: "uint_at w big 2 t 2 = Some k"
      using block_uint [OF w t, of 2 2 big] False by auto
    obtain ofs where ofs: "uint_at w big 4 t 4 = Some ofs"
      using block_uint [OF w t, of 4 4 big] False by auto
    obtain st where st: "readIFD w big t (goint w (int ofs)) [0x8769, 0x0132] (0, Map.empty) = Some st"
      using readIFD_some [OF w t] by blast
    obtain st' where "readIFD w big t (fst st) [0x9003, 0x9004] (fst st, snd st) = Some st'"
      using readIFD_some [OF w t] by blast
    with ofs st have "\<exists>x. tiff_texts w big t = Some x"
      by (cases st; cases st') (auto simp: tiff_texts_def)
    then show ?thesis using m Some k False
      by (auto simp: parseTiffDate_def)
  qed (use m False in \<open>auto simp: parseTiffDate_def\<close>)
qed (simp add: parseTiffDate_def)

text \<open>A segment that starts four bytes or more before the end is read without a panic, its
  successor lies further on, and what it yields is a part of the block.\<close>

definition segment_fine :: "gostring \<Rightarrow> int \<Rightarrow> gostring option + int \<Rightarrow> bool" where
  "segment_fine b i r =
     (case r of Inl None \<Rightarrow> True | Inl (Some t) \<Rightarrow> length t \<le> length b
      | Inr j \<Rightarrow> i + 2 \<le> j \<and> j \<le> i + 65537)"

lemma jpeg_segment_some:
  assumes w: "int_width w" and b: "block b" and i: "0 \<le> i" "i + 4 \<le> int (length b)"
  shows "\<exists>r. jpeg_segment w b i = Some r \<and> segment_fine b i r"
proof -
  have g: "goint w (i + 1) = i + 1" "goint w (i + 2) = i + 2" "goint w (i + 4) = i + 4"
    "goint w (i + 4 + 6) = i + 10" "goint w (i + 10) = i + 10"
    using w i b by (auto simp: block_def add.assoc intro!: block_goint)
  have g': "goint w (10 + i) = i + 10" using g(5) by (simp add: add.commute)
  obtain m0 where m0: "byte_at b i = Some m0" using byte_at_some i by fastforce
  obtain mk where mk: "byte_at b (i + 1) = Some mk" using byte_at_some [of "i + 1" b] i by fastforce
  obtain s where s: "subslice b (i + 2) (i + 4) = Some s" "int (length s) = 2"
    using subslice_ex [of "i + 2" "i + 4" b] i by auto
  then obtain sl where sl: "Uint True 2 s = Some sl" "sl < 65536"
    using Uint_some [of 2 s True] Uint_less [of True 2 s] by auto
  have h: "goint w (2 + int sl) = 2 + int sl" "goint w (i + 2 + int sl) = i + 2 + int sl"
    "goint w (i + (2 + int sl)) = i + (2 + int sl)"
    using w i b sl by (auto simp: block_def intro!: block_goint)
  have sig: "\<exists>x. subslice b (i + 4) (i + 10) = Some x" if "i + 10 \<le> int (length b)"
    using that i by (simp add: subslice_def)
  have cut: "\<exists>t. subslice b (i + 10) e = Some t \<and> length t \<le> length b"
    if "i + 10 \<le> e" "e \<le> int (length b)" for e
    using that i by (simp add: subslice_def)
  have cut1: "\<exists>t. subslice b (i + 10) (i + 2 + int sl) = Some t \<and> length t \<le> length b"
    if "8 \<le> sl" "i + 2 + int sl \<le> int (length b)"
    using cut [of "i + 2 + int sl"] that by simp
  have cut2: "\<exists>t. subslice b (i + 10) (int (length b)) = Some t \<and> length t \<le> length b"
    if "i + 10 \<le> int (length b)"
    using cut [of "int (length b)"] that by simp
  show ?thesis
  proof (cases "m0 \<noteq> 0xFF \<or> mk = 0xD8 \<or> (0xD0 \<le> mk \<and> mk \<le> 0xD9) \<or> sl < 2")
    case True
    then show ?thesis using i s sl by (auto simp: jpeg_segment_def m0 mk g g' segment_fine_def)
  next
    case False
    show ?thesis
    proof (cases "mk = 0xE1 \<and> i + 10 \<le> int (length b)")
      case True
      then show ?thesis using False i s sl sig cut1 cut2
        by (cases "i + 2 + int sl \<le> int (length b)")
          (auto simp: jpeg_segment_def m0 mk g g' h segment_fine_def Let_def)
    next
      case no: False
      then show ?thesis using False i s sl
        by (auto simp: jpeg_segment_def m0 mk g g' h segment_fine_def)
    qed
  qed
qed

lemma jpeg_segments_some:
  assumes w: "int_width w" and b: "block b" and "0 \<le> i" and "i \<le> int (length b) + 65537"
    and "int (length b) \<le> i + int n + 3"
  shows "\<exists>r. jpeg_segments n w b i = Some r \<and> (\<forall>t. r = Some t \<longrightarrow> length t \<le> length b)"
  using assms(3-5)
proof (induction n arbitrary: i)
  case 0
  have "goint w (i + 4) = i + 4" using w b 0 by (auto simp: block_def intro!: block_goint)
  then show ?case using 0 by (simp add: jpeg_segments.simps)
next
  case (Suc n)
  have g: "goint w (i + 4) = i + 4" using w b Suc by (auto simp: block_def intro!: block_goint)
  show ?case
  proof (cases "i + 4 \<le> int (length b)")
    case True
    obtain r where r: "jpeg_segment w b i = Some r" "segment_fine b i r"
      using jpeg_segment_some [OF w b Suc.prems(1) True] by blast
    show ?thesis
    proof (cases r)
      case (Inl x)
      then show ?thesis using r True by (auto simp: jpeg_segments.simps g segment_fine_def split: option.splits)
    next
      case (Inr j)
      then have "\<exists>r. jpeg_segments n w b j = Some r \<and> (\<forall>t. r = Some t \<longrightarrow> length t \<le> length b)"
        using Suc r True by (intro Suc.IH) (auto simp: segment_fine_def)
      then show ?thesis using Inr r True by (simp add: jpeg_segments.simps [of "Suc n"] g)
    qed
  qed (simp add: jpeg_segments.simps g)
qed

lemma findExifInJpeg_some:
  assumes w: "int_width w" and b: "block b"
  shows "\<exists>r. findExifInJpeg w b = Some r \<and> (\<forall>t. r = Some t \<longrightarrow> block t)"
proof (cases "length b < 4")
  case False
  then have "0 < int (length b)" "1 < int (length b)" by auto
  then obtain b0 b1 where "byte_at b 0 = Some b0" "byte_at b 1 = Some b1"
    using byte_at_some [of 0 b] byte_at_some [of 1 b] by fastforce
  then show ?thesis
    using False b jpeg_segments_some [OF w b, of 2 "length b"]
    by (auto simp: findExifInJpeg_def block_def)
qed (simp add: findExifInJpeg_def)

text \<open>The date a camera wrote is the date shown: the text of any calendar date between
  1971 and 2100 in EXIF's form is read back and printed in the form of a row.\<close>

theorem camera_date_shown:
  assumes "clock_ok t" and "1971 \<le> t_year t" and "t_year t \<le> 2100"
  shows "tiff_date (exif_text t) digitized dateTime = Format t"
proof -
  have "exif_text t \<noteq> []" by (simp add: exif_text_def four_def two_def)
  moreover have "t \<noteq> zero_time" using assms(2) by (auto simp: zero_time_def)
  ultimately show ?thesis
    using assms by (simp add: tiff_date_def TrimSpace_exif_text Parse_exif_text captureDate_def)
qed

definition ex_time :: gotime where
  "ex_time = \<lparr>t_year = 2024, t_month = 2, t_day = 29, t_hour = 23, t_min = 5, t_sec = 9\<rparr>"

lemma camera_date_shown_witness:
  "tiff_date ''2024:02:29 23:05:09'' [] ''2020:01:01 00:00:00'' = ''2024-02-29 23:05:09''"
proof -
  have "exif_text ex_time = ''2024:02:29 23:05:09''" "Format ex_time = ''2024-02-29 23:05:09''"
    by code_simp+
  then show ?thesis
    using camera_date_shown [of ex_time "[]" "''2020:01:01 00:00:00''"]
    by (simp add: clock_ok_def daysIn_def leap_def ex_time_def)
qed

end
