(* ===== verification/HeifDate.thy ===== *)
theory HeifDate
  imports ExifDate BoxTree
begin

text \<open>
  \<open>internal/media/heif.go\<close>: the EXIF item of a HEIF, HEIC or AVIF picture.  The item list
  (\<open>iinf\<close>) names it, the location table (\<open>iloc\<close>) says where it lies, and its TIFF
  block is read as a JPEG's is.  As in \<open>ExifDate\<close>, a slice or an allocation out of range is
  \<open>None\<close>; the lemmas show there is none for any file, on builds with 32-bit integers too.
\<close>

definition heifBoxMax :: int where "heifBoxMax = 8388608"
definition heifMaxExtents :: nat where "heifMaxExtents = 1048576"

text \<open>\<open>make([]byte, n)\<close> followed by a \<open>ReadAt\<close> that has to fill it: a negative
  \<open>n\<close> panics; an unfilled buffer is the inner \<open>None\<close>.\<close>

definition read_buf :: "osfile \<Rightarrow> int \<Rightarrow> int \<Rightarrow> gostring option option" where
  "read_buf f n off = (if n < 0 then None else Some (read_full f (nat n) off))"

subsection \<open>heifExifItemID\<close>

text \<open>The version, the item and its type of an \<open>infe\<close> entry whose payload is \<open>b\<close>.\<close>

definition infe_item :: "nat \<Rightarrow> gostring \<Rightarrow> nat option option" where
  "infe_item w b = do {
     iv \<leftarrow> byte_at b 0;
     (itemID, typOff) \<leftarrow>
       (if iv = 2 \<and> 12 \<le> length b then map_option (\<lambda>v. (v, 8 :: int)) (uint_at w True 2 b 4)
        else if 3 \<le> iv \<and> 14 \<le> length b then map_option (\<lambda>v. (v, 10)) (uint_at w True 4 b 4)
        else Some (0, - 1));
     if typOff > 0 \<and> int (length b) \<ge> goint w (typOff + 4)
     then do {
       s \<leftarrow> subslice b typOff (goint w (typOff + 4));
       Some (if s = ''Exif'' then Some itemID else None)
     } else Some None
   }"

text \<open>The loop over the entries, with a bound on its turns: an entry takes eight bytes or
  more.\<close>

fun infe_loop :: "nat \<Rightarrow> nat \<Rightarrow> gostring \<Rightarrow> int \<Rightarrow> nat option option" where
  "infe_loop fuel w buf pos =
     (if goint w (pos + 8) \<le> int (length buf) then
        (case fuel of
           0 \<Rightarrow> None
         | Suc n \<Rightarrow> do {
             sz \<leftarrow> map_option (\<lambda>v. goint w (int v)) (uint_at w True 4 buf pos);
             name \<leftarrow> subslice buf (goint w (pos + 4)) (goint w (pos + 8));
             if sz < 8 \<or> sz > goint w (int (length buf) - pos) then Some None
             else do {
               found \<leftarrow> (if name = ''infe'' \<and> sz \<ge> 16
                 then subslice buf (goint w (pos + 8)) (goint w (pos + sz)) \<bind> infe_item w
                 else Some None);
               (case found of
                  Some k \<Rightarrow> Some (Some k)
                | None \<Rightarrow> infe_loop n w buf (goint w (pos + sz)))
             }
           })
      else Some None)"

declare infe_loop.simps [simp del]

definition heifExifItemID :: "nat \<Rightarrow> osfile \<Rightarrow> int \<Rightarrow> int \<Rightarrow> nat option option" where
  "heifExifItemID w f metaStart metaEnd =
     (case findBox f metaStart metaEnd ''iinf'' of
        None \<Rightarrow> Some None
      | Some (s, e) \<Rightarrow>
          (let n = goint 64 (e - s) in
           if n \<le> 0 \<or> n > heifBoxMax then Some None
           else do {
             r \<leftarrow> read_buf f n s;
             (case r of
                None \<Rightarrow> Some None
              | Some buf \<Rightarrow>
                  if length buf < 6 then Some None
                  else do {
                    ver \<leftarrow> byte_at buf 0;
                    infe_loop (length buf) w buf (if ver = 0 then 6 else 8)
                  })
           }))"

subsection \<open>heifItemLocation\<close>

text \<open>\<open>readUint\<close>: the value of the next \<open>n\<close> bytes in an unsigned 64-bit integer and the
  new position; the inner \<open>None\<close> says the buffer ends before.\<close>

definition uint64_of :: "gostring \<Rightarrow> nat" where
  "uint64_of bs = foldl (\<lambda>v b. (v * 256 + of_char b) mod 18446744073709551616) 0 bs"

definition readUint :: "nat \<Rightarrow> gostring \<Rightarrow> int \<Rightarrow> nat \<Rightarrow> (nat \<times> int) option option" where
  "readUint w buf pos n =
     (if n = 0 then Some (Some (0, pos))
      else if goint w (pos + int n) > int (length buf) then Some None
      else map_option (\<lambda>bs. Some (uint64_of bs, goint w (pos + int n)))
        (subslice buf pos (goint w (pos + int n))))"

text \<open>A reading step that returns when the buffer has ended.\<close>

definition after_read :: "(nat \<times> int) option option \<Rightarrow> (nat \<Rightarrow> int \<Rightarrow> 'a option option) \<Rightarrow> 'a option option" where
  "after_read r k = (case r of None \<Rightarrow> None | Some None \<Rightarrow> Some None | Some (Some (v, p)) \<Rightarrow> k v p)"

record iloc =
  il_ver :: nat
  il_off :: nat
  il_len :: nat
  il_base :: nat
  il_idx :: nat

text \<open>The extents of one item: the offset and the length of the first, and the position
  after the last.\<close>

fun extent_loop :: "nat \<Rightarrow> gostring \<Rightarrow> iloc \<Rightarrow> nat \<Rightarrow> nat \<Rightarrow> nat \<times> nat \<Rightarrow> int \<Rightarrow> (nat \<times> nat \<times> int) option option" where
  "extent_loop w buf il 0 e first pos = Some (Some (fst first, snd first, pos))"
| "extent_loop w buf il (Suc k) e first pos =
     after_read (readUint w buf pos (il_idx il)) (\<lambda>_ pos.
     after_read (readUint w buf pos (il_off il)) (\<lambda>eo pos.
     after_read (readUint w buf pos (il_len il)) (\<lambda>el pos.
       extent_loop w buf il k (Suc e) (if e = 0 then (eo, el) else first) pos)))"

text \<open>One item: its number, its construction method, its base offset and its extents;
  the answer when it is the one wanted, else the extents seen and the position to go on from.\<close>

type_synonym iloc_step = "((int \<times> int) + (nat \<times> int)) option option"

definition iloc_extents ::
  "nat \<Rightarrow> gostring \<Rightarrow> iloc \<Rightarrow> nat \<Rightarrow> nat \<Rightarrow> nat \<Rightarrow> nat \<Rightarrow> nat \<Rightarrow> nat \<Rightarrow> int \<Rightarrow> iloc_step" where
  "iloc_extents w buf il wantID seen itemID m base extents pos =
     (if seen + extents > heifMaxExtents then Some None
      else (case extent_loop w buf il extents 0 (0, 0) pos of
          None \<Rightarrow> None
        | Some None \<Rightarrow> Some None
        | Some (Some (firstOff, firstLen, pos)) \<Rightarrow>
            if itemID = wantID \<and> m mod 16 = 0 \<and> extents > 0
            then Some (Some (Inl (goint 64 (int ((base + firstOff) mod 18446744073709551616)),
              goint 64 (int firstLen))))
            else Some (Some (Inr (seen + extents, pos)))))"

definition iloc_rest :: "nat \<Rightarrow> gostring \<Rightarrow> iloc \<Rightarrow> nat \<Rightarrow> nat \<Rightarrow> nat \<Rightarrow> nat \<Rightarrow> int \<Rightarrow> iloc_step" where
  "iloc_rest w buf il wantID seen itemID m pos =
     after_read (readUint w buf pos 2) (\<lambda>_ pos.
     after_read (readUint w buf pos (il_base il)) (\<lambda>base pos.
     after_read (readUint w buf pos 2) (\<lambda>extents pos.
       iloc_extents w buf il wantID seen itemID m base extents pos)))"

definition iloc_item :: "nat \<Rightarrow> gostring \<Rightarrow> iloc \<Rightarrow> nat \<Rightarrow> nat \<Rightarrow> int \<Rightarrow> iloc_step" where
  "iloc_item w buf il wantID seen pos =
     after_read (readUint w buf pos (if il_ver il < 2 then 2 else 4)) (\<lambda>itemID pos.
       if il_ver il = 1 \<or> il_ver il = 2
       then after_read (readUint w buf pos 2) (\<lambda>m pos. iloc_rest w buf il wantID seen itemID m pos)
       else iloc_rest w buf il wantID seen itemID 0 pos)"

fun iloc_loop :: "nat \<Rightarrow> nat \<Rightarrow> gostring \<Rightarrow> iloc \<Rightarrow> nat \<Rightarrow> nat \<Rightarrow> int \<Rightarrow> (int \<times> int) option option" where
  "iloc_loop count w buf il wantID seen pos =
     (if count = 0 then Some None
      else (case iloc_item w buf il wantID seen pos of
          None \<Rightarrow> None
        | Some None \<Rightarrow> Some None
        | Some (Some (Inl found)) \<Rightarrow> Some (Some found)
        | Some (Some (Inr (seen', pos'))) \<Rightarrow> iloc_loop (count - 1) w buf il wantID seen' pos'))"

declare iloc_loop.simps [simp del]

definition iloc_table :: "nat \<Rightarrow> gostring \<Rightarrow> nat \<Rightarrow> (int \<times> int) option option" where
  "iloc_table w buf wantID = do {
     ver \<leftarrow> byte_at buf 0;
     b4 \<leftarrow> byte_at buf 4;
     b5 \<leftarrow> byte_at buf 5;
     let il = \<lparr>il_ver = ver, il_off = b4 div 16, il_len = b4 mod 16, il_base = b5 div 16,
               il_idx = (if ver = 1 \<or> ver = 2 then b5 mod 16 else 0)\<rparr>;
     if il_off il + il_len il + il_idx il = 0 then Some None
     else if ver < 2 then
       (if length buf < 8 then Some None
        else uint_at w True 2 buf 6 \<bind> (\<lambda>count. iloc_loop count w buf il wantID 0 8))
     else
       (if length buf < 10 then Some None
        else uint_at w True 4 buf 6 \<bind> (\<lambda>count. iloc_loop count w buf il wantID 0 10))
   }"

definition heifItemLocation :: "nat \<Rightarrow> osfile \<Rightarrow> int \<Rightarrow> int \<Rightarrow> nat \<Rightarrow> (int \<times> int) option option" where
  "heifItemLocation w f metaStart metaEnd wantID =
     (case findBox f metaStart metaEnd ''iloc'' of
        None \<Rightarrow> Some None
      | Some (s, e) \<Rightarrow>
          (let n = goint 64 (e - s) in
           if n \<le> 0 \<or> n > heifBoxMax then Some None
           else do {
             r \<leftarrow> read_buf f n s;
             (case r of
                None \<Rightarrow> Some None
              | Some buf \<Rightarrow> if length buf < 8 then Some None else iloc_table w buf wantID)
           }))"

subsection \<open>tiffFromExifItem and heifCaptured\<close>

definition bytes_index :: "gostring \<Rightarrow> gostring \<Rightarrow> nat option" where
  "bytes_index b pat = find (\<lambda>i. HasPrefix (drop i b) pat) [0..<Suc (length b)]"

definition mm_mark :: gostring where "mm_mark = ''MM'' @ [CHR 0x00, CHR 0x2A]"
definition ii_mark :: gostring where "ii_mark = ''II'' @ [CHR 0x2A, CHR 0x00]"

text \<open>The byte-order mark within the first 64 bytes, then near the declared offset.\<close>

definition tiffFromExifItem :: "nat \<Rightarrow> gostring \<Rightarrow> gostring option option" where
  "tiffFromExifItem w p =
     (let limit = min (length p) 64 in
      case find (\<lambda>i. i + 4 \<le> limit \<and> (HasPrefix (drop i p) mm_mark \<or> HasPrefix (drop i p) ii_mark)) [0..<limit] of
        Some i \<Rightarrow> map_option Some (subslice p (int i) (int (length p)))
      | None \<Rightarrow>
          if length p > 4 then do {
            off \<leftarrow> map_option (\<lambda>v. goint w (int v)) (uint_at w True 4 p 0);
            if off \<ge> 0 \<and> off < goint w (int (length p) - 4)
            then do {
              rest \<leftarrow> subslice p (goint w (4 + off)) (int (length p));
              head \<leftarrow> subslice rest 0 (min (int (length rest)) 32);
              (case bytes_index head mm_mark of
                 Some i \<Rightarrow> map_option Some (subslice rest (int i) (int (length rest)))
               | None \<Rightarrow> (case bytes_index head ii_mark of
                   Some i \<Rightarrow> map_option Some (subslice rest (int i) (int (length rest)))
                 | None \<Rightarrow> Some None))
            } else Some None
          } else Some None)"

definition tiff_of :: "gostring option \<Rightarrow> gostring" where
  "tiff_of t = (case t of None \<Rightarrow> [] | Some b \<Rightarrow> b)"

text \<open>The item payload at the location found, at most a megabyte of it.\<close>

definition heif_payload :: "nat \<Rightarrow> osfile \<Rightarrow> int \<Rightarrow> (int \<times> int) option \<Rightarrow> gostring option" where
  "heif_payload w f lim loc =
     (case loc of
        None \<Rightarrow> Some []
      | Some (off, len) \<Rightarrow>
          if len < 8 \<or> off \<le> 0 \<or> goint 64 (off + len) > lim then Some []
          else do {
            r \<leftarrow> read_buf f (if len > 1048576 then 1048576 else len) off;
            (case r of
               None \<Rightarrow> Some []
             | Some payload \<Rightarrow> tiffFromExifItem w payload \<bind> (\<lambda>t. parseTiffDate w (tiff_of t)))
          })"

text \<open>\<open>open\<close> yields the file or fails; its size is what \<open>Stat\<close> reports.\<close>

definition heifCaptured :: "nat \<Rightarrow> osfile option \<Rightarrow> gostring option" where
  "heifCaptured w opened =
     (case opened of
        None \<Rightarrow> Some []
      | Some f \<Rightarrow>
          (let lim = int (length (content f)) in
           case findBox f 0 lim ''meta'' of
             None \<Rightarrow> Some []
           | Some (s, metaEnd) \<Rightarrow> do {
               let metaStart = goint 64 (s + 4);
               item \<leftarrow> heifExifItemID w f metaStart metaEnd;
               (case item of
                  None \<Rightarrow> Some []
                | Some exifID \<Rightarrow> heifItemLocation w f metaStart metaEnd exifID \<bind> heif_payload w f lim)
             }))"

subsection \<open>No slice panics\<close>

lemma infe_item_some:
  assumes w: "int_width w" and b: "block b" and n: "8 \<le> length b"
  shows "\<exists>r. infe_item w b = Some r"
proof -
  have "0 < int (length b)" using n by linarith
  then obtain iv where iv: "byte_at b 0 = Some iv" using byte_at_some [of 0 b] by auto
  have g: "goint w (8 + 4) = 12" "goint w (10 + 4) = 14"
    using w by (auto intro!: block_goint)
  have u2: "\<exists>v. uint_at w True 2 b 4 = Some v" using block_uint [OF w b, of 4 2 True] n by auto
  have u4: "\<exists>v. uint_at w True 4 b 4 = Some v" using block_uint [OF w b, of 4 4 True] n by auto
  have s1: "\<exists>s. subslice b 8 12 = Some s" if "12 \<le> length b" using that by (simp add: subslice_def)
  have s2: "\<exists>s. subslice b 10 14 = Some s" if "14 \<le> length b" using that by (simp add: subslice_def)
  show ?thesis
    using u2 u4 s1 s2 g by (auto simp: infe_item_def iv)
qed

lemma infe_loop_some:
  assumes w: "int_width w" and b: "block buf"
    and "0 \<le> pos" and "pos \<le> int (length buf) + 8" and "int (length buf) \<le> pos + int n + 7"
  shows "\<exists>r. infe_loop n w buf pos = Some r"
  using assms(3-5)
proof (induction n arbitrary: pos)
  case 0
  have "goint w (pos + 8) = pos + 8" using w b 0 by (auto simp: block_def intro!: block_goint)
  then show ?case using 0 by (simp add: infe_loop.simps)
next
  case (Suc n)
  have g: "goint w (pos + 8) = pos + 8" "goint w (pos + 4) = pos + 4"
    "goint w (int (length buf) - pos) = int (length buf) - pos"
    using w b Suc by (auto simp: block_def intro!: block_goint)
  show ?case
  proof (cases "pos + 8 \<le> int (length buf)")
    case True
    obtain v where v: "uint_at w True 4 buf pos = Some v"
      using block_uint [OF w b, of pos 4 True] Suc.prems True by auto
    obtain name where name: "subslice buf (pos + 4) (pos + 8) = Some name"
      using True Suc.prems by (auto simp: subslice_def)
    let ?sz = "goint w (int v)"
    show ?thesis
    proof (cases "?sz < 8 \<or> ?sz > int (length buf) - pos")
      case False
      have h: "goint w (pos + ?sz) = pos + ?sz"
        using w b Suc.prems False by (intro block_goint) (auto simp: block_def)
      have item: "\<exists>s r. subslice buf (pos + 8) (pos + ?sz) = Some s \<and> infe_item w s = Some r" if "?sz \<ge> 16"
      proof -
        have "\<exists>s. subslice buf (pos + 8) (pos + ?sz) = Some s \<and> int (length s) = pos + ?sz - (pos + 8)"
          using that Suc.prems False by (intro subslice_ex) auto
        then obtain s where s: "subslice buf (pos + 8) (pos + ?sz) = Some s" "int (length s) = ?sz - 8"
          by auto
        have "length s \<le> length buf" using s by (auto simp: subslice_def split: if_splits)
        then show ?thesis
          using s that infe_item_some [OF w, of s] b by (auto simp: block_def)
      qed
      have more: "\<exists>r. infe_loop n w buf (pos + ?sz) = Some r"
        using Suc.prems False by (intro Suc.IH) auto
      show ?thesis using item more False
        by (auto simp: infe_loop.simps [of "Suc n"] g v name h split: option.splits)
    qed (auto simp: infe_loop.simps g v name)
  qed (simp add: infe_loop.simps g)
qed

lemma after_read_some:
  assumes w: "int_width w" and b: "block buf" and pos: "0 \<le> pos" "pos \<le> int (length buf)"
    and n: "n \<le> 255"
    and k: "\<And>v p. pos \<le> p \<Longrightarrow> p \<le> int (length buf) \<Longrightarrow> \<exists>r. k v p = Some r \<and> Q r"
    and none: "Q None"
  shows "\<exists>r. after_read (readUint w buf pos n) k = Some r \<and> Q r"
proof -
  have g: "goint w (pos + int n) = pos + int n"
    using w b pos n by (intro block_goint) (auto simp: block_def)
  consider "n = 0" | "n \<noteq> 0" "pos + int n > int (length buf)" | "n \<noteq> 0" "pos + int n \<le> int (length buf)"
    by linarith
  then show ?thesis
  proof cases
    case 1
    then show ?thesis using k [of pos 0] pos by (simp add: readUint_def after_read_def)
  next
    case 2
    then show ?thesis using none by (simp add: readUint_def after_read_def g)
  next
    case 3
    then obtain s where "subslice buf pos (pos + int n) = Some s" using pos by (auto simp: subslice_def)
    then show ?thesis using 3 k [of "pos + int n" "uint64_of s"] by (simp add: readUint_def after_read_def g)
  qed
qed

definition il_ok :: "iloc \<Rightarrow> bool" where
  "il_ok il \<longleftrightarrow> il_off il \<le> 15 \<and> il_len il \<le> 15 \<and> il_base il \<le> 15 \<and> il_idx il \<le> 15"

lemma extent_loop_some:
  assumes w: "int_width w" and b: "block buf" and il: "il_ok il" and "0 \<le> pos" and "pos \<le> int (length buf)"
  shows "\<exists>r. extent_loop w buf il k e first pos = Some r
    \<and> (\<forall>a c p. r = Some (a, c, p) \<longrightarrow> pos \<le> p \<and> p \<le> int (length buf))"
  using assms(4,5)
proof (induction k arbitrary: e first pos)
  case (Suc k)
  let ?Q = "\<lambda>r. \<forall>a c p. r = Some (a, c, p) \<longrightarrow> pos \<le> p \<and> p \<le> int (length buf)"
  have n: "il_idx il \<le> 255" "il_off il \<le> 255" "il_len il \<le> 255" using il by (auto simp: il_ok_def)
  show ?case
    unfolding extent_loop.simps
  proof (rule after_read_some [OF w b Suc.prems n(1)])
    fix v p assume p: "pos \<le> p" "p \<le> int (length buf)"
    show "\<exists>r. after_read (readUint w buf p (il_off il)) (\<lambda>eo pos.
        after_read (readUint w buf pos (il_len il)) (\<lambda>el pos.
        extent_loop w buf il k (Suc e) (if e = 0 then (eo, el) else first) pos)) = Some r \<and> ?Q r"
    proof (rule after_read_some [OF w b _ p(2) n(2)])
      fix v' p' assume p': "p \<le> p'" "p' \<le> int (length buf)"
      show "\<exists>r. after_read (readUint w buf p' (il_len il)) (\<lambda>el pos.
          extent_loop w buf il k (Suc e) (if e = 0 then (v', el) else first) pos) = Some r \<and> ?Q r"
      proof (rule after_read_some [OF w b _ p'(2) n(3)])
        fix v'' p'' assume p'': "p' \<le> p''" "p'' \<le> int (length buf)"
        show "\<exists>r. extent_loop w buf il k (Suc e) (if e = 0 then (v', v'') else first) p'' = Some r \<and> ?Q r"
          using Suc.IH [of p'' "Suc e" "if e = 0 then (v', v'') else first"] p p' p'' Suc.prems by fastforce
      qed (use p p' Suc.prems in auto)
    qed (use p Suc.prems in auto)
  qed simp
qed simp

definition step_fine :: "gostring \<Rightarrow> ((int \<times> int) + (nat \<times> int)) option \<Rightarrow> bool" where
  "step_fine buf r \<longleftrightarrow> (\<forall>s p. r = Some (Inr (s, p)) \<longrightarrow> 0 \<le> p \<and> p \<le> int (length buf))"

lemma step_fine_None [simp]: "step_fine buf None"
  by (simp add: step_fine_def)

lemma iloc_extents_some:
  assumes w: "int_width w" and b: "block buf" and il: "il_ok il"
    and pos: "0 \<le> pos" "pos \<le> int (length buf)"
  shows "\<exists>r. iloc_extents w buf il wantID seen itemID m base extents pos = Some r \<and> step_fine buf r"
proof -
  obtain r where r: "extent_loop w buf il extents 0 (0, 0) pos = Some r"
    and p: "\<And>a c p. r = Some (a, c, p) \<Longrightarrow> pos \<le> p \<and> p \<le> int (length buf)"
    using extent_loop_some [OF w b il pos, of extents 0 "(0, 0)"] by blast
  show ?thesis
  proof (cases r)
    case None
    then show ?thesis by (simp add: iloc_extents_def r)
  next
    case (Some x)
    obtain a c q where x: "x = (a, c, q)" by (cases x)
    show ?thesis using p [of a c q] pos Some
      by (simp add: iloc_extents_def r x step_fine_def)
  qed
qed

lemma iloc_rest_some:
  assumes w: "int_width w" and b: "block buf" and il: "il_ok il" and pos: "0 \<le> pos" "pos \<le> int (length buf)"
  shows "\<exists>r. iloc_rest w buf il wantID seen itemID m pos = Some r \<and> step_fine buf r"
  unfolding iloc_rest_def
proof (rule after_read_some [OF w b pos])
  fix v p assume p: "pos \<le> p" "p \<le> int (length buf)"
  have n: "il_base il \<le> 255" using il by (auto simp: il_ok_def)
  show "\<exists>r. after_read (readUint w buf p (il_base il)) (\<lambda>base pos.
     after_read (readUint w buf pos 2) (\<lambda>extents pos.
       iloc_extents w buf il wantID seen itemID m base extents pos)) = Some r \<and> step_fine buf r"
  proof (rule after_read_some [OF w b _ p(2) n])
    fix v' p' assume p': "p \<le> p'" "p' \<le> int (length buf)"
    show "\<exists>r. after_read (readUint w buf p' 2) (\<lambda>extents pos.
       iloc_extents w buf il wantID seen itemID m v' extents pos) = Some r \<and> step_fine buf r"
      using iloc_extents_some [OF w b il] p p' pos by (intro after_read_some [OF w b _ p'(2)]) auto
  qed (use p pos in auto)
qed auto

lemma iloc_item_some:
  assumes w: "int_width w" and b: "block buf" and il: "il_ok il" and pos: "0 \<le> pos" "pos \<le> int (length buf)"
  shows "\<exists>r. iloc_item w buf il wantID seen pos = Some r \<and> step_fine buf r"
  unfolding iloc_item_def
proof (rule after_read_some [OF w b pos])
  fix v p assume p: "pos \<le> p" "p \<le> int (length buf)"
  have "\<exists>r. after_read (readUint w buf p 2) (\<lambda>m pos. iloc_rest w buf il wantID seen v m pos) = Some r
      \<and> step_fine buf r"
    using iloc_rest_some [OF w b il] p pos by (intro after_read_some [OF w b _ p(2)]) auto
  then show "\<exists>r. (if il_ver il = 1 \<or> il_ver il = 2
       then after_read (readUint w buf p 2) (\<lambda>m pos. iloc_rest w buf il wantID seen v m pos)
       else iloc_rest w buf il wantID seen v 0 p) = Some r \<and> step_fine buf r"
    using iloc_rest_some [OF w b il] p pos by auto
qed auto

lemma iloc_loop_some:
  assumes w: "int_width w" and b: "block buf" and il: "il_ok il" and "0 \<le> pos" and "pos \<le> int (length buf)"
  shows "\<exists>r. iloc_loop count w buf il wantID seen pos = Some r"
  using assms(4,5)
proof (induction count arbitrary: seen pos)
  case (Suc count)
  obtain r where "iloc_item w buf il wantID seen pos = Some r" "step_fine buf r"
    using iloc_item_some [OF w b il Suc.prems] by blast
  then show ?case using Suc.IH
    by (auto simp: iloc_loop.simps [of "Suc count"] step_fine_def split: option.splits sum.splits)
qed (simp add: iloc_loop.simps)

lemma iloc_table_some:
  assumes w: "int_width w" and b: "block buf" and n: "8 \<le> length buf"
  shows "\<exists>r. iloc_table w buf wantID = Some r"
proof -
  have "0 < int (length buf)" "4 < int (length buf)" "5 < int (length buf)" using n by auto
  then obtain v b4 b5 where at: "byte_at buf 0 = Some v" "byte_at buf 4 = Some b4" "byte_at buf 5 = Some b5"
    using byte_at_some [of 0 buf] byte_at_some [of 4 buf] byte_at_some [of 5 buf] by fastforce
  then have lt: "b4 < 256" "b5 < 256" by (auto simp: byte_at_def of_char_less split: if_splits)
  define il where "il = \<lparr>il_ver = v, il_off = b4 div 16, il_len = b4 mod 16, il_base = b5 div 16,
    il_idx = (if v = 1 \<or> v = 2 then b5 mod 16 else 0)\<rparr>"
  have il: "il_ok il" using lt by (auto simp: il_ok_def il_def)
  have u2: "\<exists>c. uint_at w True 2 buf 6 = Some c" using block_uint [OF w b, of 6 2 True] n by auto
  have u4: "\<exists>c. uint_at w True 4 buf 6 = Some c" if "10 \<le> length buf"
    using block_uint [OF w b, of 6 4 True] that by auto
  have l8: "\<exists>r. iloc_loop c w buf il wantID 0 8 = Some r" for c
    using iloc_loop_some [OF w b il, of 8 c] n by auto
  have l10: "\<exists>r. iloc_loop c w buf il wantID 0 10 = Some r" if "10 \<le> length buf" for c
    using iloc_loop_some [OF w b il, of 10 c] that by auto
  have "iloc_table w buf wantID =
     (if il_off il + il_len il + il_idx il = 0 then Some None
      else if v < 2 then
        (if length buf < 8 then Some None
         else uint_at w True 2 buf 6 \<bind> (\<lambda>count. iloc_loop count w buf il wantID 0 8))
      else
        (if length buf < 10 then Some None
         else uint_at w True 4 buf 6 \<bind> (\<lambda>count. iloc_loop count w buf il wantID 0 10)))"
    unfolding iloc_table_def at il_def Let_def by (simp only: bind.bind_lunit)
  then show ?thesis using u2 u4 l8 l10 by auto
qed

lemma read_buf_block:
  assumes "0 \<le> n" and "n \<le> heifBoxMax"
  shows "\<exists>r. read_buf f n off = Some r \<and> (\<forall>b. r = Some b \<longrightarrow> block b \<and> int (length b) = n)"
proof -
  have "block b \<and> int (length b) = n" if "read_full f (nat n) off = Some b" for b
    using read_full_SomeD(1) [OF that] assms by (auto simp: block_def heifBoxMax_def)
  then show ?thesis using assms(1) by (auto simp: read_buf_def)
qed

lemma find_someD: "find P xs = Some x \<Longrightarrow> x \<in> set xs \<and> P x"
  by (auto simp: find_Some_iff)

lemma bytes_index_le: "bytes_index b pat = Some i \<Longrightarrow> i \<le> length b"
  by (auto simp: bytes_index_def dest!: find_someD)

lemma tiffFromExifItem_some:
  assumes w: "int_width w" and p: "block p"
  shows "\<exists>r. tiffFromExifItem w p = Some r \<and> block (tiff_of r)"
proof -
  have tail: "\<exists>t. subslice q (int i) (int (length q)) = Some t \<and> block t"
    if "i \<le> length q" "length q \<le> length p" for i q
    using that p by (auto simp: subslice_def block_def)
  let ?P = "\<lambda>i. i + 4 \<le> min (length p) 64 \<and> (HasPrefix (drop i p) mm_mark \<or> HasPrefix (drop i p) ii_mark)"
  show ?thesis
  proof (cases "find ?P [0..<min (length p) 64]")
    case (Some i)
    then have "i \<le> length p" by (auto dest!: find_someD)
    then show ?thesis using tail [of i p] Some by (auto simp: tiffFromExifItem_def Let_def tiff_of_def)
  next
    case None
    have empty: "block []" by (simp add: block_def)
    show ?thesis
    proof (cases "length p > 4")
      case False
      then show ?thesis using None empty by (simp add: tiffFromExifItem_def Let_def tiff_of_def)
    next
      case True
      obtain v where v: "uint_at w True 4 p 0 = Some v" using block_uint [OF w p, of 0 4 True] True by auto
      let ?off = "goint w (int v)"
      have g: "goint w (int (length p) - 4) = int (length p) - 4"
        using w p by (intro block_goint) (auto simp: block_def)
      show ?thesis
      proof (cases "?off \<ge> 0 \<and> ?off < int (length p) - 4")
        case False
        then show ?thesis using None True empty by (auto simp: tiffFromExifItem_def Let_def v g tiff_of_def)
      next
        case ok: True
        have g4: "goint w (4 + ?off) = 4 + ?off"
          using w p ok by (intro block_goint) (auto simp: block_def)
        obtain rest where rest: "subslice p (4 + ?off) (int (length p)) = Some rest" "length rest \<le> length p"
          using ok by (auto simp: subslice_def)
        obtain hd where hd: "subslice rest 0 (min (int (length rest)) 32) = Some hd" "length hd \<le> length rest"
          by (auto simp: subslice_def)
        have ix: "bytes_index hd pat = Some i \<Longrightarrow> i \<le> length rest" for pat i
          using bytes_index_le hd(2) order_trans by blast
        have t: "bytes_index hd pat = Some i \<Longrightarrow> \<exists>t. subslice rest (int i) (int (length rest)) = Some t \<and> block t" for pat i
          using tail [OF ix rest(2)] .
        show ?thesis
        proof (cases "bytes_index hd mm_mark")
          case (Some i)
          then show ?thesis using t [OF Some] None True ok
            by (auto simp: tiffFromExifItem_def Let_def v g g4 rest hd tiff_of_def)
        next
          case no: None
          show ?thesis
            using t [of ii_mark] None True ok no empty
            by (cases "bytes_index hd ii_mark")
              (auto simp: tiffFromExifItem_def Let_def v g g4 rest hd tiff_of_def)
        qed
      qed
    qed
  qed
qed

lemma heifExifItemID_some:
  assumes w: "int_width w"
  shows "\<exists>r. heifExifItemID w f s e = Some r"
proof (cases "findBox f s e ''iinf''")
  case None
  then show ?thesis by (simp add: heifExifItemID_def)
next
  case (Some se)
  obtain p q where se: "se = (p, q)" by (cases se)
  let ?n = "goint 64 (q - p)"
  show ?thesis
  proof (cases "?n \<le> 0 \<or> ?n > heifBoxMax")
    case True
    then show ?thesis using Some se by (auto simp: heifExifItemID_def Let_def)
  next
    case False
    then obtain r where r: "read_buf f ?n p = Some r" "\<And>b. r = Some b \<Longrightarrow> block b"
      using read_buf_block [of ?n f p] by auto
    show ?thesis
    proof (cases r)
      case None
      then show ?thesis using Some se r by (simp add: heifExifItemID_def Let_def)
    next
      case (Some buf)
      then have b: "block buf" using r by simp
      have "\<exists>x. infe_loop (length buf) w buf i = Some x" if "length buf \<ge> 6" "i = 6 \<or> i = 8" for i
        using infe_loop_some [OF w b, of i "length buf"] that by auto
      moreover have "\<exists>v. byte_at buf 0 = Some v" if "length buf \<ge> 6"
        using byte_at_some [of 0 buf] that by fastforce
      ultimately show ?thesis using \<open>findBox f s e ''iinf'' = Some se\<close> Some se r(1)
        by (cases "length buf < 6") (fastforce simp: heifExifItemID_def Let_def)+
    qed
  qed
qed

lemma heifItemLocation_some:
  assumes w: "int_width w"
  shows "\<exists>r. heifItemLocation w f s e k = Some r"
proof (cases "findBox f s e ''iloc''")
  case None
  then show ?thesis by (simp add: heifItemLocation_def)
next
  case (Some se)
  obtain p q where se: "se = (p, q)" by (cases se)
  let ?n = "goint 64 (q - p)"
  show ?thesis
  proof (cases "?n \<le> 0 \<or> ?n > heifBoxMax")
    case True
    then show ?thesis using Some se by (auto simp: heifItemLocation_def Let_def)
  next
    case False
    then obtain r where r: "read_buf f ?n p = Some r" "\<And>b. r = Some b \<Longrightarrow> block b"
      using read_buf_block [of ?n f p] by auto
    have "\<exists>x. iloc_table w b k = Some x" if "r = Some b" "\<not> length b < 8" for b
      using iloc_table_some [OF w r(2) [OF that(1)]] that(2) by simp
    then show ?thesis using Some se r(1) False
      by (cases r) (auto simp: heifItemLocation_def Let_def)
  qed
qed

lemma heif_payload_some:
  assumes w: "int_width w"
  shows "\<exists>d. heif_payload w f lim loc = Some d"
proof (cases "\<exists>off len. loc = Some (off, len) \<and> \<not> (len < 8 \<or> off \<le> 0 \<or> goint 64 (off + len) > lim)")
  case True
  then obtain off len where loc: "loc = Some (off, len)"
    and ok: "\<not> (len < 8 \<or> off \<le> 0 \<or> goint 64 (off + len) > lim)" by blast
  define n where "n = (if len > 1048576 then 1048576 else len)"
  have "0 \<le> n" "n \<le> heifBoxMax" using ok by (auto simp: n_def heifBoxMax_def)
  then obtain r where r: "read_buf f n off = Some r" "\<And>b. r = Some b \<Longrightarrow> block b"
    using read_buf_block [of n f off] by blast
  have "\<exists>d. tiffFromExifItem w b \<bind> (\<lambda>t. parseTiffDate w (tiff_of t)) = Some d" if "r = Some b" for b
    using tiffFromExifItem_some [OF w r(2) [OF that]] parseTiffDate_some [OF w] by auto
  then show ?thesis using r(1) ok
    by (cases r) (auto simp: heif_payload_def loc n_def [symmetric])
qed (auto simp: heif_payload_def split: option.splits)

lemma heifCaptured_some:
  assumes w: "int_width w"
  shows "\<exists>d. heifCaptured w opened = Some d"
proof -
  have "\<exists>d. heifExifItemID w f s e \<bind> (\<lambda>item. case item of None \<Rightarrow> Some []
      | Some k \<Rightarrow> heifItemLocation w f s e k \<bind> heif_payload w f lim) = Some d" for f s e lim
  proof -
    obtain r where r: "heifExifItemID w f s e = Some r" using heifExifItemID_some [OF w] by blast
    have "\<exists>d. heifItemLocation w f s e k \<bind> heif_payload w f lim = Some d" for k
      using heifItemLocation_some [OF w, of f s e k] heif_payload_some [OF w] by auto
    then show ?thesis using r by (cases r) auto
  qed
  then show ?thesis by (auto simp: heifCaptured_def Let_def split: option.splits)
qed

end
