(* ===== verification/QtDate.thy ===== *)
theory QtDate
  imports HeifDate
begin

text \<open>
  \<open>internal/media/qt.go\<close>, the creation date of a QuickTime or MP4 container, and
  \<open>Captured\<close> of \<open>exif.go\<close>, which picks the reader by the file's extension.  The
  properties are the two a scan rests on: no file makes a reader panic, and what a reader returns
  is empty or a calendar date a camera could have written, in the form of every date of a row.
\<close>

subsection \<open>QuickTime\<close>

text \<open>\<open>parseISODate\<close>: the first of the layouts that parses.\<close>

fun parse_layouts :: "tchunk list list \<Rightarrow> gostring \<Rightarrow> gostring" where
  "parse_layouts [] v = []"
| "parse_layouts (l # ls) v =
     (case Parse l v of Some t \<Rightarrow> captureDate t | None \<Rightarrow> parse_layouts ls v)"

definition parseISODate :: "gostring \<Rightarrow> gostring" where
  "parseISODate v = parse_layouts isoLayouts v"

definition qtMvhdDate :: "osfile \<Rightarrow> int \<Rightarrow> int \<Rightarrow> gostring option" where
  "qtMvhdDate f moovStart moovEnd =
     (case findBox f moovStart moovEnd ''mvhd'' of
        None \<Rightarrow> Some []
      | Some (s, e) \<Rightarrow>
          if goint 64 (e - s) < 16 then Some []
          else (case read_full f 16 s of
              None \<Rightarrow> Some []
            | Some buf \<Rightarrow> do {
                ver \<leftarrow> byte_at buf 0;
                secs \<leftarrow> (if ver = 1 then subslice buf 4 12 \<bind> Uint True 8
                        else subslice buf 4 8 \<bind> Uint True 4);
                Some (if secs = 0 then []
                      else captureDate (Unix (goint 64 (goint 64 (int secs) - 2082844800))))
              }))"

definition creationKey :: gostring where
  "creationKey = ''com.apple.quicktime.creationdate''"

text \<open>The number of the creation-date key in the \<open>keys\<close> box, 0 when there is none.  The
  bound on the turns is no loss: a key takes eight bytes or more.\<close>

fun keys_loop :: "nat \<Rightarrow> nat \<Rightarrow> gostring \<Rightarrow> int \<Rightarrow> int \<Rightarrow> int \<Rightarrow> int option" where
  "keys_loop fuel w kb count i pos =
     (if i \<le> count \<and> goint w (pos + 8) \<le> int (length kb) then
        (case fuel of
           0 \<Rightarrow> None
         | Suc n \<Rightarrow> do {
             sz \<leftarrow> map_option (\<lambda>v. goint w (int v)) (uint_at w True 4 kb pos);
             if sz < 8 \<or> sz > goint w (int (length kb) - pos) then Some 0
             else do {
               ns \<leftarrow> subslice kb (goint w (pos + 4)) (goint w (pos + 8));
               name \<leftarrow> subslice kb (goint w (pos + 8)) (goint w (pos + sz));
               if ns = ''mdta'' \<and> name = creationKey then Some i
               else keys_loop n w kb count (goint w (i + 1)) (goint w (pos + sz))
             }
           })
      else Some 0)"

declare keys_loop.simps [simp del]

text \<open>The value of the item with that number in the \<open>ilst\<close> box.\<close>

definition ilst_value :: "gostring \<Rightarrow> gostring option" where
  "ilst_value inner =
     (if length inner \<ge> 16 then do {
        tag \<leftarrow> subslice inner 4 8;
        if tag = ''data'' then map_option (\<lambda>v. parseISODate (TrimSpace v)) (subslice inner 16 (int (length inner)))
        else Some []
      } else Some [])"

fun ilst_loop :: "nat \<Rightarrow> nat \<Rightarrow> gostring \<Rightarrow> int \<Rightarrow> int \<Rightarrow> gostring option" where
  "ilst_loop fuel w ib wantIdx pos =
     (if goint w (pos + 8) \<le> int (length ib) then
        (case fuel of
           0 \<Rightarrow> None
         | Suc n \<Rightarrow> do {
             sz \<leftarrow> map_option (\<lambda>v. goint w (int v)) (uint_at w True 4 ib pos);
             idx \<leftarrow> map_option (\<lambda>v. goint w (int v)) (uint_at w True 4 ib (goint w (pos + 4)));
             if sz < 8 \<or> sz > goint w (int (length ib) - pos) then Some []
             else if idx = wantIdx
             then subslice ib (goint w (pos + 8)) (goint w (pos + sz)) \<bind> ilst_value
             else ilst_loop n w ib wantIdx (goint w (pos + sz))
           })
      else Some [])"

declare ilst_loop.simps [simp del]

text \<open>A box read whole when its payload is not empty and within a bound.\<close>

definition box_payload :: "osfile \<Rightarrow> int \<Rightarrow> int \<Rightarrow> gostring \<Rightarrow> int \<Rightarrow> gostring option option" where
  "box_payload f base lim ty bound =
     (case findBox f base lim ty of
        None \<Rightarrow> Some None
      | Some (s, e) \<Rightarrow>
          (let n = goint 64 (e - s) in
           if n \<le> 0 \<or> n > bound then Some None else read_buf f n s))"

definition qtKeysIlst :: "nat \<Rightarrow> osfile \<Rightarrow> int \<Rightarrow> int \<Rightarrow> gostring option" where
  "qtKeysIlst w f base lim = do {
     keys \<leftarrow> box_payload f base lim ''keys'' 65536;
     (case keys of
        None \<Rightarrow> Some []
      | Some kb \<Rightarrow>
          if length kb < 8 then Some []
          else do {
            count \<leftarrow> map_option (\<lambda>v. goint w (int v)) (uint_at w True 4 kb 4);
            wantIdx \<leftarrow> keys_loop (length kb) w kb count 1 8;
            if wantIdx = 0 then Some []
            else do {
              ilst \<leftarrow> box_payload f base lim ''ilst'' 1048576;
              (case ilst of
                 None \<Rightarrow> Some []
               | Some ib \<Rightarrow> ilst_loop (length ib) w ib wantIdx 0)
            }
          })
   }"

definition qtAppleCreationDate :: "nat \<Rightarrow> osfile \<Rightarrow> int \<Rightarrow> int \<Rightarrow> gostring option" where
  "qtAppleCreationDate w f moovStart moovEnd =
     (case findBox f moovStart moovEnd ''meta'' of
        None \<Rightarrow> Some []
      | Some (metaStart, metaEnd) \<Rightarrow> do {
          d \<leftarrow> (if metaStart \<ge> metaEnd then Some [] else qtKeysIlst w f metaStart metaEnd);
          if d \<noteq> [] then Some d
          else if goint 64 (metaStart + 4) \<ge> metaEnd then Some []
          else qtKeysIlst w f (goint 64 (metaStart + 4)) metaEnd
        })"

definition qtCaptured :: "nat \<Rightarrow> osfile option \<Rightarrow> gostring option" where
  "qtCaptured w opened =
     (case opened of
        None \<Rightarrow> Some []
      | Some f \<Rightarrow> (case findBox f 0 (int (length (content f))) ''moov'' of
            None \<Rightarrow> Some []
          | Some (moovStart, moovEnd) \<Rightarrow> do {
              d \<leftarrow> qtAppleCreationDate w f moovStart moovEnd;
              if d \<noteq> [] then Some d else qtMvhdDate f moovStart moovEnd
            }))"

subsection \<open>Captured\<close>

definition ext_among :: "gostring \<Rightarrow> gostring list \<Rightarrow> bool" where
  "ext_among l es \<longleftrightarrow> list_ex (HasSuffix l) es"

definition Captured :: "nat \<Rightarrow> (nat \<Rightarrow> nat) \<Rightarrow> osfile option \<Rightarrow> gostring \<Rightarrow> gostring option" where
  "Captured w lower opened name =
     (let l = ToLower lower name;
          isJpeg = ext_among l [''.jpg'', ''.jpeg''];
          isTiff = ext_among l [''.tif'', ''.tiff'', ''.dng'', ''.nef'', ''.cr2'', ''.arw'']
      in if ext_among l [''.heic'', ''.heif'', ''.hif'', ''.avif''] then heifCaptured w opened
         else if ext_among l [''.mov'', ''.mp4'', ''.m4v''] then qtCaptured w opened
         else if \<not> isJpeg \<and> \<not> isTiff then Some []
         else (case opened of
             None \<Rightarrow> Some []
           | Some f \<Rightarrow> do {
               let head = fst (ReadAt f 262144 0);
               tiff \<leftarrow> (if isTiff then Some (Some head) else findExifInJpeg w head);
               (case tiff of None \<Rightarrow> Some [] | Some t \<Rightarrow> parseTiffDate w t)
             }))"

subsection \<open>No reader panics\<close>

lemma qtMvhdDate_some: "\<exists>d. qtMvhdDate f s e = Some d"
proof (cases "findBox f s e ''mvhd''")
  case (Some pq)
  obtain p q where pq: "pq = (p, q)" by (cases pq)
  have "\<exists>x y z. byte_at b 0 = Some x \<and> subslice b 4 12 \<bind> Uint True 8 = Some y
      \<and> subslice b 4 8 \<bind> Uint True 4 = Some z" if "read_full f 16 p = Some b" for b
  proof -
    have n: "length b = 16" using read_full_SomeD(1) [OF that] .
    then show ?thesis by (simp add: byte_at_def subslice_def Uint_def)
  qed
  then show ?thesis using Some pq
    by (cases "goint 64 (q - p) < 16"; cases "read_full f 16 p") (force simp: qtMvhdDate_def)+
qed (simp add: qtMvhdDate_def)

lemma keys_loop_some:
  assumes w: "int_width w" and b: "block kb"
    and "0 \<le> pos" and "pos \<le> int (length kb)" and "int (length kb) \<le> pos + int n + 7"
  shows "\<exists>r. keys_loop n w kb count i pos = Some r"
  using assms(3-5)
proof (induction n arbitrary: i pos)
  case 0
  have "goint w (pos + 8) = pos + 8" using w b 0 by (auto simp: block_def intro!: block_goint)
  then show ?case using 0 by (simp add: keys_loop.simps)
next
  case (Suc n)
  have g: "goint w (pos + 8) = pos + 8" "goint w (pos + 4) = pos + 4"
    "goint w (int (length kb) - pos) = int (length kb) - pos"
    using w b Suc.prems by (auto simp: block_def intro!: block_goint)
  show ?case
  proof (cases "i \<le> count \<and> pos + 8 \<le> int (length kb)")
    case True
    obtain v where v: "uint_at w True 4 kb pos = Some v"
      using block_uint [OF w b, of pos 4 True] Suc.prems True by auto
    obtain ns where ns: "subslice kb (pos + 4) (pos + 8) = Some ns"
      using True Suc.prems by (auto simp: subslice_def)
    let ?sz = "goint w (int v)"
    show ?thesis
    proof (cases "?sz < 8 \<or> ?sz > int (length kb) - pos")
      case False
      have h: "goint w (pos + ?sz) = pos + ?sz"
        using w b Suc.prems False by (intro block_goint) (auto simp: block_def)
      obtain name where name: "subslice kb (pos + 8) (pos + ?sz) = Some name"
        using False Suc.prems by (auto simp: subslice_def)
      have "\<exists>r. keys_loop n w kb count (goint w (i + 1)) (pos + ?sz) = Some r"
        using Suc.prems False by (intro Suc.IH) auto
      then show ?thesis using True False
        by (auto simp: keys_loop.simps [of "Suc n"] g v ns name h)
    qed (auto simp: keys_loop.simps [of "Suc n"] g v)
  qed (auto simp: keys_loop.simps [of "Suc n"] g)
qed

lemma ilst_value_some: "\<exists>d. ilst_value b = Some d"
  by (auto simp: ilst_value_def subslice_def)

lemma ilst_loop_some:
  assumes w: "int_width w" and b: "block ib"
    and "0 \<le> pos" and "pos \<le> int (length ib)" and "int (length ib) \<le> pos + int n + 7"
  shows "\<exists>r. ilst_loop n w ib k pos = Some r"
  using assms(3-5)
proof (induction n arbitrary: pos)
  case 0
  have "goint w (pos + 8) = pos + 8" using w b 0 by (auto simp: block_def intro!: block_goint)
  then show ?case using 0 by (simp add: ilst_loop.simps)
next
  case (Suc n)
  have g: "goint w (pos + 8) = pos + 8" "goint w (pos + 4) = pos + 4"
    "goint w (int (length ib) - pos) = int (length ib) - pos"
    using w b Suc.prems by (auto simp: block_def intro!: block_goint)
  show ?case
  proof (cases "pos + 8 \<le> int (length ib)")
    case True
    obtain v where v: "uint_at w True 4 ib pos = Some v"
      using block_uint [OF w b, of pos 4 True] Suc.prems True by auto
    obtain x where x: "uint_at w True 4 ib (pos + 4) = Some x"
      using block_uint [OF w b, of "pos + 4" 4 True] Suc.prems True by auto
    let ?sz = "goint w (int v)"
    show ?thesis
    proof (cases "?sz < 8 \<or> ?sz > int (length ib) - pos")
      case False
      have h: "goint w (pos + ?sz) = pos + ?sz"
        using w b Suc.prems False by (intro block_goint) (auto simp: block_def)
      obtain inner where inner: "subslice ib (pos + 8) (pos + ?sz) = Some inner"
        using False Suc.prems by (auto simp: subslice_def)
      have "\<exists>r. ilst_loop n w ib k (pos + ?sz) = Some r"
        using Suc.prems False by (intro Suc.IH) auto
      then show ?thesis using True False ilst_value_some
        by (auto simp: ilst_loop.simps [of "Suc n"] g v x inner h)
    qed (auto simp: ilst_loop.simps [of "Suc n"] g v x)
  qed (auto simp: ilst_loop.simps [of "Suc n"] g)
qed

lemma box_payload_some:
  assumes "bound \<le> heifBoxMax"
  shows "\<exists>r. box_payload f base lim ty bound = Some r \<and> (\<forall>b. r = Some b \<longrightarrow> block b)"
proof (cases "findBox f base lim ty")
  case (Some pq)
  obtain p q where pq: "pq = (p, q)" by (cases pq)
  show ?thesis
    using Some pq assms read_buf_block [of "goint 64 (q - p)" f p]
    by (cases "goint 64 (q - p) \<le> 0 \<or> goint 64 (q - p) > bound") (auto simp: box_payload_def Let_def)
qed (simp add: box_payload_def)

lemma qtKeysIlst_some:
  assumes w: "int_width w"
  shows "\<exists>d. qtKeysIlst w f base lim = Some d"
proof -
  obtain keys where keys: "box_payload f base lim ''keys'' 65536 = Some keys" "\<And>b. keys = Some b \<Longrightarrow> block b"
    using box_payload_some [of 65536 f base lim "''keys''"] by (auto simp: heifBoxMax_def)
  obtain ilst where ilst: "box_payload f base lim ''ilst'' 1048576 = Some ilst" "\<And>b. ilst = Some b \<Longrightarrow> block b"
    using box_payload_some [of 1048576 f base lim "''ilst''"] by (auto simp: heifBoxMax_def)
  show ?thesis
  proof (cases keys)
    case (Some kb)
    then have b: "block kb" using keys by simp
    show ?thesis
    proof (cases "length kb < 8")
      case False
      obtain c where c: "uint_at w True 4 kb 4 = Some c" using block_uint [OF w b, of 4 4 True] False by auto
      have "\<exists>i. keys_loop (length kb) w kb (goint w (int c)) 1 8 = Some i"
        using keys_loop_some [OF w b, of 8 "length kb"] False by simp
      then obtain i where i: "keys_loop (length kb) w kb (goint w (int c)) 1 8 = Some i" ..
      have "\<exists>d. ilst_loop (length ib) w ib i 0 = Some d" if "ilst = Some ib" for ib
        using ilst_loop_some [OF w ilst(2) [OF that], of 0 "length ib"] by simp
      then show ?thesis using keys(1) Some False c i ilst(1)
        by (cases ilst) (auto simp: qtKeysIlst_def)
    qed (use keys(1) Some in \<open>simp add: qtKeysIlst_def\<close>)
  qed (use keys(1) in \<open>simp add: qtKeysIlst_def\<close>)
qed

lemma qtCaptured_some:
  assumes w: "int_width w"
  shows "\<exists>d. qtCaptured w opened = Some d"
proof -
  have apple: "\<exists>d. qtAppleCreationDate w f s e = Some d" for f s e
  proof (cases "findBox f s e ''meta''")
    case (Some pq)
    obtain p q where pq: "pq = (p, q)" by (cases pq)
    obtain x y where "qtKeysIlst w f p q = Some x" "qtKeysIlst w f (goint 64 (p + 4)) q = Some y"
      using qtKeysIlst_some [OF w] by blast
    then show ?thesis using Some pq by (auto simp: qtAppleCreationDate_def)
  qed (simp add: qtAppleCreationDate_def)
  show ?thesis
  proof (cases opened)
    case (Some f)
    show ?thesis
    proof (cases "findBox f 0 (int (length (content f))) ''moov''")
      case None
      then show ?thesis using Some by (simp add: qtCaptured_def)
    next
      case (Some pq)
      obtain p q where pq: "pq = (p, q)" by (cases pq)
      obtain d where "qtAppleCreationDate w f p q = Some d" using apple by blast
      then show ?thesis using \<open>opened = Some f\<close> Some pq qtMvhdDate_some [of f p q]
        by (auto simp: qtCaptured_def)
    qed
  qed (simp add: qtCaptured_def)
qed

text \<open>C23. Whatever bytes a media file holds, on a build with 32-bit integers as on one with 64,
  reading its capture date slices no buffer out of its range and allocates no negative length: the
  readers return, they never panic.\<close>

theorem captured_never_panics:
  assumes w: "int_width w"
  shows "Captured w lower opened name \<noteq> None"
proof -
  have "\<exists>d. (case opened of
             None \<Rightarrow> Some []
           | Some f \<Rightarrow> do {
               let head = fst (ReadAt f 262144 0);
               tiff \<leftarrow> (if tiffy then Some (Some head) else findExifInJpeg w head);
               (case tiff of None \<Rightarrow> Some [] | Some t \<Rightarrow> parseTiffDate w t)
             }) = Some d" for tiffy
  proof (cases opened)
    case (Some f)
    let ?h = "fst (ReadAt f 262144 0)"
    have "length ?h \<le> 262144"
      using length_readable [of "bad f" 0 "take 262144 (content f)"]
      by (simp add: ReadAt_def Let_def)
    then have b: "block ?h" by (simp add: block_def)
    show ?thesis
      using Some parseTiffDate_some [OF w] parseTiffDate_some [OF w b] findExifInJpeg_some [OF w b]
      by (cases tiffy) (auto simp: Let_def split: option.splits)
  qed simp
  then show ?thesis
    using heifCaptured_some [OF w, of opened] qtCaptured_some [OF w, of opened]
    by (auto simp: Captured_def Let_def)
qed

definition ex_tiff :: gostring where
  "ex_tiff = ''MM'' @ put_be 2 42 @ put_be 4 8 @ put_be 2 1 @ put_be 2 306 @ put_be 2 2
     @ put_be 4 4294967295 @ put_be 4 4294967295"

lemma captured_never_panics_witness:
  "Captured 32 id (Some (sound_file ex_tiff)) ''a.tif'' \<noteq> None"
  by (rule captured_never_panics) (simp add: int_width_def)

subsection \<open>The form of a capture date\<close>

definition camera_date :: "gostring \<Rightarrow> bool" where
  "camera_date d \<longleftrightarrow> d = [] \<or> (\<exists>t. 1971 \<le> t_year t \<and> t_year t \<le> 2100 \<and> d = Format t)"

lemma camera_date_Nil [simp]: "camera_date []"
  by (simp add: camera_date_def)

lemma captureDate_camera [simp]: "camera_date (captureDate t)"
proof (cases "t = zero_time \<or> t_year t < 1971 \<or> t_year t > 2100")
  case False
  then have "captureDate t = Format t" by (simp add: captureDate_def)
  moreover have "\<exists>u. 1971 \<le> t_year u \<and> t_year u \<le> 2100 \<and> Format t = Format u"
    using False by (intro exI [of _ t]) auto
  ultimately show ?thesis by (simp only: camera_date_def simp_thms)
qed (auto simp: captureDate_def)

text \<open>A result that is a camera date when it is one at all, through each step of a reader.\<close>

abbreviation dated :: "gostring option \<Rightarrow> bool" where
  "dated r \<equiv> pred_option camera_date r"

lemma dated_bind: "(\<And>x. m = Some x \<Longrightarrow> dated (f x)) \<Longrightarrow> dated (m \<bind> f)"
  by (cases m) auto

lemma tiff_date_camera [simp]: "camera_date (tiff_date a b c)"
  by (simp add: tiff_date_def Let_def split: option.split)

lemma parseTiffDate_dated [simp]: "dated (parseTiffDate w t)"
  by (auto simp: parseTiffDate_def intro!: dated_bind split: option.splits)

lemma heif_payload_dated [simp]: "dated (heif_payload w f lim loc)"
  by (auto simp: heif_payload_def intro!: dated_bind split: option.splits)

lemma heifCaptured_dated [simp]: "dated (heifCaptured w opened)"
  by (auto simp: heifCaptured_def Let_def intro!: dated_bind split: option.splits)

lemma parse_layouts_camera [simp]: "camera_date (parse_layouts ls v)"
  by (induction ls) (auto split: option.splits)

lemma ilst_value_dated [simp]: "dated (ilst_value b)"
  by (auto simp: ilst_value_def parseISODate_def intro!: dated_bind simp: pred_option_def)

lemma ilst_loop_dated [simp]: "dated (ilst_loop n w ib k pos)"
proof (induction n arbitrary: pos)
  case (Suc n)
  then show ?case by (auto simp: ilst_loop.simps [of "Suc n"] intro!: dated_bind)
qed (simp add: ilst_loop.simps)

lemma qtKeysIlst_dated [simp]: "dated (qtKeysIlst w f b l)"
  by (auto simp: qtKeysIlst_def intro!: dated_bind split: option.splits)

lemma qtMvhdDate_dated [simp]: "dated (qtMvhdDate f s e)"
  by (auto simp: qtMvhdDate_def intro!: dated_bind split: option.splits)

lemma qtCaptured_dated [simp]: "dated (qtCaptured w opened)"
proof -
  have "qtKeysIlst w f b l = Some d \<Longrightarrow> camera_date d" for f b l d
    using qtKeysIlst_dated [of w f b l] by simp
  then have "dated (qtAppleCreationDate w f s e)" for f s e
    by (auto simp: qtAppleCreationDate_def intro!: dated_bind split: option.splits if_splits)
  then have "qtAppleCreationDate w f s e = Some d \<Longrightarrow> camera_date d" for f s e d
    by (metis option.pred_inject(2))
  then show ?thesis
    by (auto simp: qtCaptured_def intro!: dated_bind split: option.splits)
qed

text \<open>C36. What a reader returns for any file is empty or a date of the years 1971 to 2100
  printed as every date of a row is, so a file cannot widen the Captured Date range with a date no
  camera wrote.\<close>

theorem captured_is_camera_date: "pred_option camera_date (Captured w lower opened name)"
  by (auto simp: Captured_def Let_def intro!: dated_bind split: option.splits)

end
