(* ===== verification/CompareFiles.thy ===== *)
theory CompareFiles
  imports PngCheck
begin

text \<open>
  \<open>CompareContent\<close>, \<open>DiffShape\<close> and \<open>Describe\<close> of
  \<open>internal/media/verify.go\<close>: two copies read in lockstep, 256 KiB at a time, and the shape of
  their difference.  The chunked loop is shown to see what a comparison of the whole contents sees,
  and the shapes that can convict a copy are shown to rest on what they claim.
\<close>

datatype shape = Zeros | Tail | Bitflip | Mixed

record DiffShape =
  Kind :: shape
  ZeroSide :: int
  FirstAt :: int
  DBytes :: int
  BitsSet :: int

definition minZeroBytes :: int where "minZeroBytes = 512"
definition cmpChunk :: nat where "cmpChunk = 262144"

text \<open>\<open>bits.OnesCount8\<close> of the two bytes' difference.\<close>

definition ones8 :: "char \<Rightarrow> char \<Rightarrow> int" where
  "ones8 a b = int (length (filter (\<lambda>i. bit (of_char a :: nat) i \<noteq> bit (of_char b :: nat) i) [0..<8]))"

text \<open>What the loop carries: first and last differing offset, how many differ, whether every
  differing byte so far is NUL on each side, and the differing bits of the first 64.\<close>

record diffs =
  d_first :: int
  d_last :: int
  d_count :: int
  d_azero :: bool
  d_bzero :: bool
  d_bits :: int

definition no_diffs :: diffs where
  "no_diffs = \<lparr>d_first = - 1, d_last = 0, d_count = 0, d_azero = True, d_bzero = True, d_bits = 0\<rparr>"

fun diff_bytes :: "int \<Rightarrow> gostring \<Rightarrow> gostring \<Rightarrow> diffs \<Rightarrow> diffs" where
  "diff_bytes i (a # as) (b # bs) d =
     diff_bytes (i + 1) as bs
       (if a = b then d
        else d\<lparr>d_first := (if d_first d < 0 then i else d_first d),
               d_last := i,
               d_count := d_count d + 1,
               d_azero := d_azero d \<and> a = CHR 0x00,
               d_bzero := d_bzero d \<and> b = CHR 0x00,
               d_bits := (if d_count d + 1 \<le> 64 then d_bits d + ones8 a b else d_bits d)\<rparr>)"
| "diff_bytes i as bs d = d"

lemma ReadAt_full:
  assumes "ReadAt f n off = (b, None)"
  shows "length b = n" and "nat off + n \<le> length (content f) \<or> n = 0"
    and "b = take n (drop (nat off) (content f))"
proof -
  have r: "read_full f n off = Some b" using assms by (simp add: read_full_def)
  show "length b = n" "nat off + n \<le> length (content f) \<or> n = 0"
    "b = take n (drop (nat off) (content f))"
    using read_full_SomeD [OF r] by auto
qed

function cmp_loop :: "osfile \<Rightarrow> osfile \<Rightarrow> polls \<Rightarrow> nat \<Rightarrow> nat \<Rightarrow> diffs \<Rightarrow> diffs option" where
  "cmp_loop af bf stop k off d =
     (if stop k then None
      else (let (ab, aerr) = ReadAt af cmpChunk (int off); (bb, berr) = ReadAt bf cmpChunk (int off);
                n = min (length ab) (length bb);
                d' = diff_bytes (int off) (take n ab) (take n bb) d
            in if aerr \<noteq> None \<or> berr \<noteq> None \<or> length ab \<noteq> length bb then Some d'
               else cmp_loop af bf stop (Suc k) (off + n) d'))"
  by pat_completeness auto

termination
proof (relation "measure (\<lambda>(af, bf, stop, k, off, d). length (content af) - off)", goal_cases)
  case (2 af bf stop k off d x ab aerr y bb berr n d')
  then have "ReadAt af cmpChunk (int off) = (ab, None)" by auto
  from ReadAt_full(1,2) [OF this] 2 show ?case by (auto simp: cmpChunk_def)
qed simp

declare cmp_loop.simps [simp del]

text \<open>The classification at the end; \<open>None\<close> says the contents agree.\<close>

definition classify :: "diffs \<Rightarrow> int \<Rightarrow> DiffShape option" where
  "classify d sz =
     (if d_count d = 0 then None
      else (let sh = \<lparr>Kind = Mixed, ZeroSide = - 1, FirstAt = d_first d, DBytes = d_count d, BitsSet = d_bits d\<rparr> in
        if d_count d \<le> 8 \<and> d_bits d \<le> 2 then Some (sh\<lparr>Kind := Bitflip\<rparr>)
        else if d_azero d \<noteq> d_bzero d \<and> d_count d \<ge> minZeroBytes
        then Some (sh\<lparr>Kind := (if d_last d = sz - 1 then Tail else Zeros),
                     ZeroSide := (if d_azero d then 0 else 1)\<rparr>)
        else Some sh))"

text \<open>\<open>Inl ()\<close> is the error of an open or a cancelled read.\<close>

definition CompareContent :: "osfile option \<Rightarrow> osfile option \<Rightarrow> int \<Rightarrow> polls \<Rightarrow> unit + DiffShape option" where
  "CompareContent aOpen bOpen sz stop =
     (case aOpen of None \<Rightarrow> Inl ()
      | Some af \<Rightarrow> (case bOpen of None \<Rightarrow> Inl ()
        | Some bf \<Rightarrow> (case cmp_loop af bf stop 0 0 no_diffs of
            None \<Rightarrow> Inl ()
          | Some d \<Rightarrow> Inr (classify d sz))))"

definition zeros_where :: "DiffShape \<Rightarrow> evidence" where
  "zeros_where d =
     (if Kind d = Tail
      then [Amount (DBytes d), T '' of zeros from offset '', Number (FirstAt d), T '' to the end of the file'']
      else [Amount (DBytes d), T '' of zeros at offset '', Number (FirstAt d)])"

definition Describe :: "DiffShape \<Rightarrow> int \<Rightarrow> evidence" where
  "Describe d side =
     (case Kind d of
        Bitflip \<Rightarrow> [Number (BitsSet d), T (if BitsSet d \<noteq> 1 then '' bits'' else '' bit''),
          T '' differ at offset '', Number (FirstAt d), T (dash @ ''the signature of bit rot or faulty memory'')]
      | Mixed \<Rightarrow> [Amount (DBytes d), T '' of content differs from the other copy, starting at offset '',
          Number (FirstAt d)]
      | _ \<Rightarrow> (if side = ZeroSide d
          then [T ''holds ''] @ zeros_where d
            @ [T ('' where the other copy holds data'' @ dash @ ''an interrupted copy or lost blocks'')]
          else [T ''holds data where the other copy holds ''] @ zeros_where d))"

subsection \<open>The loop sees the whole contents\<close>

lemma diff_bytes_append:
  "length as = length bs \<Longrightarrow>
   diff_bytes i (as @ as') (bs @ bs') d = diff_bytes (i + int (length as)) as' bs' (diff_bytes i as bs d)"
  by (induction as bs arbitrary: i d rule: list_induct2) (auto simp: algebra_simps)

lemma diff_bytes_take:
  "diff_bytes i (take (min (length as) (length bs)) as) (take (min (length as) (length bs)) bs) d
   = diff_bytes i as bs d"
proof (induction i as bs d rule: diff_bytes.induct)
  case (1 i a as b bs d)
  then show ?case by simp
qed auto

lemma diff_bytes_short:
  "drop n as = [] \<or> drop n bs = [] \<Longrightarrow> diff_bytes i (take n as) (take n bs) d = diff_bytes i as bs d"
proof (induction i as bs d arbitrary: n rule: diff_bytes.induct)
  case (1 i a as b bs d)
  then show ?case by (cases n) auto
qed auto

lemma ReadAt_sound: "ReadAt (sound_file c) n (int off)
   = (take n (drop off c), if n \<le> length c - off then None else Some EOF)"
  by (auto simp: ReadAt_def sound_file_def Let_def min_def)

lemma cmp_loop_sound:
  "cmp_loop (sound_file a) (sound_file b) never k off d
   = Some (diff_bytes (int off) (drop off a) (drop off b) d)"
proof (induction "sound_file a" "sound_file b" never k off d rule: cmp_loop.induct)
  case (1 k off d)
  let ?a = "take cmpChunk (drop off a)" and ?b = "take cmpChunk (drop off b)"
  let ?n = "min (length ?a) (length ?b)"
  show ?case
  proof (cases "cmpChunk \<le> length a - off \<and> cmpChunk \<le> length b - off")
    case True
    then have l: "length ?a = cmpChunk" "length ?b = cmpChunk" by auto
    have "diff_bytes (int off) (drop off a) (drop off b) d
        = diff_bytes (int off) (?a @ drop cmpChunk (drop off a)) (?b @ drop cmpChunk (drop off b)) d"
      by (simp only: append_take_drop_id)
    also have "\<dots> = diff_bytes (int (off + cmpChunk)) (drop (off + cmpChunk) a) (drop (off + cmpChunk) b)
        (diff_bytes (int off) ?a ?b d)"
      using l by (subst diff_bytes_append) (simp_all add: add.commute)
    finally show ?thesis
      using 1(1) [of "(?a, None)" ?a None "(?b, None)" ?b None] True l
      by (simp add: cmp_loop.simps [of _ _ _ k] ReadAt_sound)
  next
    case False
    have more: "drop cmpChunk (drop off a) = [] \<or> drop cmpChunk (drop off b) = []" using False by auto
    have "diff_bytes (int off) (drop off a) (drop off b) d = diff_bytes (int off) ?a ?b d"
      using diff_bytes_short [OF more, of "int off" d] by simp
    then show ?thesis using False
      by (auto simp: cmp_loop.simps [of _ _ _ k] ReadAt_sound diff_bytes_take)
  qed
qed

subsection \<open>Against the whole contents\<close>

text \<open>The differing places of two contents, over their common length.\<close>

fun diff_list :: "int \<Rightarrow> gostring \<Rightarrow> gostring \<Rightarrow> (int \<times> char \<times> char) list" where
  "diff_list i (a # as) (b # bs) = (if a = b then [] else [(i, a, b)]) @ diff_list (i + 1) as bs"
| "diff_list i as bs = []"

abbreviation nul_left :: "(int \<times> char \<times> char) list \<Rightarrow> bool" where
  "nul_left L \<equiv> \<forall>x \<in> set L. fst (snd x) = CHR 0x00"

abbreviation nul_right :: "(int \<times> char \<times> char) list \<Rightarrow> bool" where
  "nul_right L \<equiv> \<forall>x \<in> set L. snd (snd x) = CHR 0x00"

definition bits_of :: "(int \<times> char \<times> char) list \<Rightarrow> int" where
  "bits_of L = sum_list (map (\<lambda>(_, a, b). ones8 a b) L)"

definition whole_shape :: "(int \<times> char \<times> char) list \<Rightarrow> int \<Rightarrow> DiffShape option" where
  "whole_shape L sz =
     (if L = [] then None
      else (let sh = \<lparr>Kind = Mixed, ZeroSide = - 1, FirstAt = fst (hd L), DBytes = int (length L),
                      BitsSet = bits_of (take 64 L)\<rparr> in
        if length L \<le> 8 \<and> bits_of L \<le> 2 then Some (sh\<lparr>Kind := Bitflip\<rparr>)
        else if nul_left L \<noteq> nul_right L \<and> length L \<ge> 512
        then Some (sh\<lparr>Kind := (if fst (last L) = sz - 1 then Tail else Zeros),
                     ZeroSide := (if nul_left L then 0 else 1)\<rparr>)
        else Some sh))"

lemma diff_bytes_list:
  assumes "0 \<le> i" and "0 \<le> d_count d"
  shows "diff_bytes i as bs d = (let L = diff_list i as bs in
    \<lparr>d_first = (if d_first d < 0 \<and> L \<noteq> [] then fst (hd L) else d_first d),
     d_last = (if L = [] then d_last d else fst (last L)),
     d_count = d_count d + int (length L),
     d_azero = (d_azero d \<and> nul_left L), d_bzero = (d_bzero d \<and> nul_right L),
     d_bits = d_bits d + bits_of (take (nat (64 - d_count d)) L)\<rparr>)"
  using assms
proof (induction i as bs d rule: diff_bytes.induct)
  case (1 i a as b bs d)
  let ?L = "diff_list (i + 1) as bs"
  show ?case
  proof (cases "a = b")
    case True
    then show ?thesis using 1 by simp
  next
    case False
    let ?d = "d\<lparr>d_first := (if d_first d < 0 then i else d_first d), d_last := i, d_count := d_count d + 1,
               d_azero := d_azero d \<and> a = CHR 0x00, d_bzero := d_bzero d \<and> b = CHR 0x00,
               d_bits := (if d_count d + 1 \<le> 64 then d_bits d + ones8 a b else d_bits d)\<rparr>"
    have IH: "diff_bytes (i + 1) as bs ?d = (let L = ?L in
      \<lparr>d_first = (if d_first ?d < 0 \<and> L \<noteq> [] then fst (hd L) else d_first ?d),
       d_last = (if L = [] then d_last ?d else fst (last L)),
       d_count = d_count ?d + int (length L),
       d_azero = (d_azero ?d \<and> nul_left L), d_bzero = (d_bzero ?d \<and> nul_right L),
       d_bits = d_bits ?d + bits_of (take (nat (64 - d_count ?d)) L)\<rparr>)"
      using 1 False by simp
    have bits: "(if d_count d + 1 \<le> 64 then d_bits d + ones8 a b else d_bits d)
        + bits_of (take (nat (64 - (d_count d + 1))) ?L)
      = d_bits d + bits_of (take (nat (64 - d_count d)) ((i, a, b) # ?L))"
    proof (cases "d_count d + 1 \<le> 64")
      case True
      then have "nat (64 - d_count d) = Suc (nat (64 - (d_count d + 1)))" by simp
      then show ?thesis using True by (simp add: bits_of_def)
    qed (simp add: bits_of_def)
    show ?thesis using False IH bits 1(2) by (simp add: Let_def)
  qed
qed (auto simp: bits_of_def)

text \<open>Comparing two copies 256 KiB at a time finds exactly what a comparison of their
  whole contents finds: the same places, the same shape, the same side.\<close>

theorem compare_sees_whole:
  "CompareContent (Some (sound_file a)) (Some (sound_file b)) sz never
   = Inr (whole_shape (diff_list 0 a b) sz)"
proof -
  let ?L = "diff_list 0 a b"
  have "cmp_loop (sound_file a) (sound_file b) never 0 0 no_diffs = Some (diff_bytes 0 a b no_diffs)"
    using cmp_loop_sound [of a b 0 0 no_diffs] by simp
  moreover have "diff_bytes 0 a b no_diffs =
      \<lparr>d_first = (if ?L \<noteq> [] then fst (hd ?L) else - 1),
       d_last = (if ?L = [] then 0 else fst (last ?L)),
       d_count = int (length ?L), d_azero = nul_left ?L, d_bzero = nul_right ?L,
       d_bits = bits_of (take 64 ?L)\<rparr>"
    using diff_bytes_list [of 0 no_diffs a b] by (simp add: no_diffs_def Let_def)
  moreover have "take 64 ?L = ?L" if "length ?L \<le> 8" using that by simp
  ultimately show ?thesis
    by (auto simp: CompareContent_def classify_def whole_shape_def minZeroBytes_def Let_def)
qed

text \<open>The shape that convicts a copy of lost blocks is what it says: at least a sector of
  differing bytes, every one of them NUL on the side called damaged, and one that is data on the
  other.\<close>

theorem zeros_shape_honest:
  assumes "CompareContent (Some (sound_file a)) (Some (sound_file b)) sz never = Inr (Some d)"
    and "Kind d = Zeros \<or> Kind d = Tail"
  shows "512 \<le> DBytes d \<and> DBytes d = int (length (diff_list 0 a b))
    \<and> (ZeroSide d = 0 \<and> nul_left (diff_list 0 a b) \<and> \<not> nul_right (diff_list 0 a b)
       \<or> ZeroSide d = 1 \<and> nul_right (diff_list 0 a b) \<and> \<not> nul_left (diff_list 0 a b))"
proof -
  let ?L = "diff_list 0 a b"
  have w: "whole_shape ?L sz = Some d"
    using assms(1) unfolding compare_sees_whole by simp
  then show ?thesis using assms(2)
    by (auto simp: whole_shape_def Let_def split: if_splits)
qed

lemma diff_list_replicate:
  "x \<noteq> y \<Longrightarrow> diff_list i (replicate n x) (replicate n y) = map (\<lambda>j. (i + int j, x, y)) [0..<n]"
proof (induction n arbitrary: i)
  case (Suc n)
  then show ?case by (simp add: upt_conv_Cons map_Suc_upt [symmetric] del: upt_Suc)
qed simp

definition ex_lost :: gostring where "ex_lost = replicate 600 CHR 0x00"
definition ex_kept :: gostring where "ex_kept = replicate 600 CHR ''x''"

lemma zeros_shape_honest_witness:
  "\<exists>d. CompareContent (Some (sound_file ex_lost)) (Some (sound_file ex_kept)) 600 never = Inr (Some d)
    \<and> Kind d = Tail \<and> ZeroSide d = 0 \<and> DBytes d = 600"
proof -
  let ?L = "diff_list 0 ex_lost ex_kept"
  have L: "?L = map (\<lambda>j. (int j, CHR 0x00, CHR ''x'')) [0..<600]"
    unfolding ex_lost_def ex_kept_def using diff_list_replicate [of "CHR 0x00" "CHR ''x''" 0 600] by simp
  have "(0, CHR 0x00, CHR ''x'') \<in> set ?L" unfolding L by force
  then have "\<not> nul_right ?L" by force
  moreover have "?L \<noteq> []" "length ?L = 600" "fst (last ?L) = 599" "nul_left ?L"
    unfolding L by (simp_all add: last_map del: upt_rec_numeral)
  ultimately have ends: "?L \<noteq> []" "length ?L = 600" "fst (last ?L) = 599" "nul_left ?L" "\<not> nul_right ?L"
    by blast+
  then obtain d where d: "whole_shape ?L 600 = Some d" "Kind d = Tail"
    unfolding whole_shape_def Let_def by simp
  have c: "CompareContent (Some (sound_file ex_lost)) (Some (sound_file ex_kept)) 600 never = Inr (Some d)"
    using compare_sees_whole [of ex_lost ex_kept 600] d by simp
  show ?thesis
    using zeros_shape_honest [OF c] d(2) c ends by (intro exI [of _ d]) auto
qed

end
