(* ===== verification/Containers.thy ===== *)
theory Containers
  imports PngCheck "HOL-Library.Monad_Syntax"
begin

text \<open>
  The checks of \<open>internal/media/verify.go\<close> that stand on a decoder of Go's library:
  \<open>verifyGzip\<close>, \<open>verifyZip\<close> with \<open>zipEntryCount\<close>, and \<open>verifyJPEG\<close>.  What a
  decoder makes of the bytes is an argument (record \<open>decoders\<close>); which of its answers
  convicts, which proves and which says nothing is the code's, and is modelled branch by branch.
\<close>

subsection \<open>What the decoders answer\<close>

text \<open>How a read of a decoder ends: at its end, or with one of the errors the code tells
  apart.\<close>

datatype derr = Cancelled | BadSum | CutShort | AtEOF | NoAlgorithm | NotSupported | BadFormat gostring | OtherErr

text \<open>A member of a ZIP archive as \<open>archive/zip\<close> lists it: its name, its flag word and what
  opening it gives -- an error, or a reader that, given a limit, yields so many bytes and ends.\<close>

record zip_member =
  m_name :: gostring
  m_encrypted :: bool
  m_open :: "derr + (int \<Rightarrow> int \<times> derr option)"

text \<open>\<open>gzip\<close> and \<open>zlib\<close>: \<open>None\<close> when the header is not one, else the bytes read up to
  a limit and how the read ended.  A reader may cut its section from the middle of the file.\<close>

record decoders =
  dec_gzip :: "osfile \<Rightarrow> int \<Rightarrow> (int \<times> derr option) option"
  dec_zlib :: "osfile \<Rightarrow> int \<Rightarrow> (int \<times> derr option) option"
  dec_zip :: "osfile \<Rightarrow> int \<Rightarrow> zip_member list option"
  dec_jpeg_config :: "osfile \<Rightarrow> derr + (int \<times> int)"
  dec_jpeg :: "osfile \<Rightarrow> derr option"

definition maxInflate :: int where "maxInflate = 8589934592"
definition maxDecodePixels :: int where "maxDecodePixels = 50000000"
definition maxZipEntries :: int where "maxZipEntries = 262144"

subsection \<open>verifyGzip\<close>

definition verifyGzip :: "decoders \<Rightarrow> osfile \<Rightarrow> finding" where
  "verifyGzip dec f =
     (case dec_gzip dec f maxInflate of
        None \<Rightarrow> (Unproven, [])
      | Some (n, err) \<Rightarrow> (case err of
          Some Cancelled \<Rightarrow> (Unproven, [])
        | Some BadSum \<Rightarrow> (Damaged, [T (''gzip stream fails its own CRC32'' @ dash @ ''the stored bytes are damaged'')])
        | Some CutShort \<Rightarrow> (Damaged, [T (''gzip stream ends early'' @ dash @ ''the file is truncated'')])
        | Some _ \<Rightarrow> (Damaged, [T (''gzip stream cannot be decompressed'' @ dash @ ''the file is damaged'')])
        | None \<Rightarrow> if n \<ge> maxInflate then (Unproven, [])
                  else (Proven, [T ''gzip stream matches its own CRC32''])))"

subsection \<open>zipEntryCount\<close>

text \<open>\<open>bytes.LastIndex\<close> and \<open>bytes.Index\<close>.\<close>

fun find_sub :: "gostring \<Rightarrow> gostring \<Rightarrow> nat option" where
  "find_sub pat [] = (if pat = [] then Some 0 else None)"
| "find_sub pat (c # s) =
     (if HasPrefix (c # s) pat then Some 0 else map_option Suc (find_sub pat s))"

fun last_sub :: "gostring \<Rightarrow> gostring \<Rightarrow> nat option" where
  "last_sub pat [] = (if pat = [] then Some 0 else None)"
| "last_sub pat (c # s) =
     (case last_sub pat s of
        Some i \<Rightarrow> Some (Suc i)
      | None \<Rightarrow> if HasPrefix (c # s) pat then Some 0 else None)"

definition eocd_sig :: gostring where "eocd_sig = ''PK'' @ [CHR 0x05, CHR 0x06]"
definition zip64_loc :: gostring where "zip64_loc = ''PK'' @ [CHR 0x06, CHR 0x07]"
definition zip64_rec :: gostring where "zip64_rec = ''PK'' @ [CHR 0x06, CHR 0x06]"

text \<open>\<open>None\<close> is a panic, \<open>Some None\<close> the answer that no record was found.  The buffer is
  zero where a read left it.\<close>

definition eocd_count :: "osfile \<Rightarrow> int \<Rightarrow> gostring \<Rightarrow> nat \<Rightarrow> int option" where
  "eocd_count f sz buf i = do {
     n \<leftarrow> subslice buf (int i + 10) (int i + 12) \<bind> Uint False 2;
     if n \<noteq> 0xFFFF \<or> i < 20 then Some (int n)
     else do {
       loc \<leftarrow> subslice buf (int i - 20) (int i - 16);
       if loc \<noteq> zip64_loc then Some (int n)
       else do {
         u \<leftarrow> subslice buf (int i - 12) (int i - 4) \<bind> Uint False 8;
         let off = goint 64 (int u);
         if off < 0 \<or> goint 64 (off + 40) > sz then Some (int n)
         else (case read_full f 40 off of
             None \<Rightarrow> Some (int n)
           | Some rec \<Rightarrow>
               if take 4 rec \<noteq> zip64_rec then Some (int n)
               else map_option int (subslice rec 32 40 \<bind> Uint False 8))
       }
     }
   }"

definition zipEntryCount :: "osfile \<Rightarrow> int \<Rightarrow> int option option" where
  "zipEntryCount f sz =
     (let tail = (if 22 + 65535 > sz then sz else 22 + 65535) in
      if tail < 22 then Some None
      else (let (got, err) = ReadAt f (nat tail) (sz - tail);
                buf = got @ replicate (nat tail - length got) CHR 0x00
        in if err = Some IOErr then Some None
           else (case last_sub eocd_sig buf of
               None \<Rightarrow> Some None
             | Some i \<Rightarrow>
                 if i + 22 > length buf then Some None
                 else map_option Some (eocd_count f sz buf i))))"

subsection \<open>verifyZip\<close>

definition entry_text :: "gostring \<Rightarrow> gostring \<Rightarrow> evidence" where
  "entry_text name says = [T ''ZIP entry '', Quoted name, T says]"

fun zip_members :: "zip_member list \<Rightarrow> int \<Rightarrow> (finding, int) sum" where
  "zip_members [] tot = Inr tot"
| "zip_members (m # ms) tot =
     (if m_encrypted m then Inl (Unproven, [])
      else (case m_open m of
          Inl NoAlgorithm \<Rightarrow> Inl (Unproven, [])
        | Inl _ \<Rightarrow> Inl (Damaged, entry_text (m_name m) ('' cannot be opened'' @ dash @ ''the archive is damaged''))
        | Inr rd \<Rightarrow>
            (let (n, err) = rd (maxInflate - tot); tot' = tot + n in
             case err of
               Some Cancelled \<Rightarrow> Inl (Unproven, [])
             | Some BadSum \<Rightarrow> Inl (Damaged, entry_text (m_name m) ('' fails its own CRC32'' @ dash @ ''the stored bytes are damaged''))
             | Some CutShort \<Rightarrow> Inl (Damaged, entry_text (m_name m) ('' ends early'' @ dash @ ''the archive is truncated''))
             | Some NoAlgorithm \<Rightarrow> Inl (Unproven, [])
             | Some _ \<Rightarrow> Inl (Damaged, entry_text (m_name m) ('' cannot be decompressed'' @ dash @ ''the archive is damaged''))
             | None \<Rightarrow> if tot' \<ge> maxInflate then Inl (Unproven, []) else zip_members ms tot')))"

definition verifyZip :: "decoders \<Rightarrow> osfile \<Rightarrow> int \<Rightarrow> finding option" where
  "verifyZip dec f sz = do {
     n \<leftarrow> zipEntryCount f sz;
     if (case n of Some k \<Rightarrow> k > maxZipEntries | None \<Rightarrow> False) then Some (Unproven, [])
     else (case dec_zip dec f sz of
         None \<Rightarrow> Some (Damaged, [T (''ZIP directory is unreadable'' @ dash @ ''the archive is damaged or truncated'')])
       | Some ms \<Rightarrow> (case zip_members ms 0 of
           Inl v \<Rightarrow> Some v
         | Inr _ \<Rightarrow> if ms = [] then Some (Unproven, [])
                    else Some (Proven, [T ''every ZIP entry matches its own CRC32''])))
   }"

subsection \<open>verifyJPEG\<close>

definition jpegVerdict :: "derr \<Rightarrow> finding" where
  "jpegVerdict e =
     (case e of
        Cancelled \<Rightarrow> (Unproven, [])
      | NotSupported \<Rightarrow> (Unproven, [])
      | CutShort \<Rightarrow> (Damaged, [T (''the JPEG image data ends before the picture is complete'' @ dash @ ''the file is truncated'')])
      | AtEOF \<Rightarrow> (Damaged, [T (''the JPEG image data ends before the picture is complete'' @ dash @ ''the file is truncated'')])
      | BadFormat s \<Rightarrow> (Damaged, [T (''the JPEG image data does not decode ('' @ s @ '')'' @ dash @ ''the stored bytes are damaged'')])
      | _ \<Rightarrow> (Unproven, []))"

text \<open>The walk over the marker segments: \<open>None\<close> when it reaches the start of scan or the
  end, a verdict when the framing breaks.\<close>

function jpeg_walk :: "osfile \<Rightarrow> int \<Rightarrow> polls \<Rightarrow> nat \<Rightarrow> int \<Rightarrow> finding option" where
  "jpeg_walk f sz stop k pos =
     (if \<not> pos < sz - 1 then None
      else if stop k then Some (Unproven, [])
      else case read_full f 2 pos of
        None \<Rightarrow> Some (Damaged, [T (''JPEG segment list ends early'' @ dash @ ''the file is truncated'')])
      | Some m \<Rightarrow>
          if m ! 0 \<noteq> CHR 0xFF
          then Some (Damaged, [T ''JPEG segment framing breaks at offset '', Number pos, T (dash @ ''the file is damaged'')])
          else (let mk = (of_char (m ! 1) :: nat) in
            if mk = 0xFF then jpeg_walk f sz stop (Suc k) (pos + 1)
            else if mk = 0xDA then None
            else if mk = 0x01 \<or> (0xD0 \<le> mk \<and> mk \<le> 0xD9) then jpeg_walk f sz stop (Suc k) (pos + 2)
            else case read_full f 2 (pos + 2) of
              None \<Rightarrow> Some (Damaged, [T (''JPEG segment length is missing'' @ dash @ ''the file is truncated'')])
            | Some l \<Rightarrow>
                (let seg = int (get_be l) in
                 if seg < 2 \<or> seg > sz - pos - 2
                 then Some (Damaged, [T ''JPEG segment at offset '', Number pos,
                   T ('' claims more bytes than the file holds'' @ dash @ ''it is truncated'')])
                 else jpeg_walk f sz stop (Suc k) (pos + 2 + seg))))"
  by pat_completeness auto
termination by (relation "measure (\<lambda>(f, sz, stop, k, pos). nat (sz - pos))") auto

declare jpeg_walk.simps [simp del]

definition verifyJPEG :: "decoders \<Rightarrow> osfile \<Rightarrow> int \<Rightarrow> polls \<Rightarrow> finding" where
  "verifyJPEG dec f sz stop =
     (case jpeg_walk f sz stop 0 2 of
        Some v \<Rightarrow> v
      | None \<Rightarrow> (case dec_jpeg_config dec f of
          Inl e \<Rightarrow> jpegVerdict e
        | Inr (w, h) \<Rightarrow>
            if w * h > maxDecodePixels then (Unproven, [])
            else (case dec_jpeg dec f of
                Some e \<Rightarrow> jpegVerdict e
              | None \<Rightarrow> (Proven, [T ''the JPEG decodes completely, so its image data is consistent from start to end'']))))"

subsection \<open>Searching bytes\<close>

lemma find_sub_Some: "find_sub pat s = Some i \<Longrightarrow> i \<le> length s \<and> HasPrefix (drop i s) pat"
  by (induction s arbitrary: i) (auto split: if_splits)

lemma find_sub_bound: "find_sub pat s = Some i \<Longrightarrow> i + length pat \<le> length s"
  using find_sub_Some [of pat s i] by (auto simp: HasPrefix_def)

lemma find_sub_least: "find_sub pat s = Some i \<Longrightarrow> j < i \<Longrightarrow> \<not> HasPrefix (drop j s) pat"
proof (induction s arbitrary: i j)
  case (Cons c s)
  then show ?case by (cases j) (auto split: if_splits)
qed (auto split: if_splits)

lemma find_sub_None: "find_sub pat s = None \<Longrightarrow> j \<le> length s \<Longrightarrow> \<not> HasPrefix (drop j s) pat"
proof (induction s arbitrary: j)
  case (Cons c s)
  then show ?case by (cases j) (auto split: if_splits)
qed (auto split: if_splits)

lemma find_sub_unique:
  assumes "HasPrefix (drop i s) pat" and "i \<le> length s" and "\<And>j. j < i \<Longrightarrow> \<not> HasPrefix (drop j s) pat"
  shows "find_sub pat s = Some i"
proof (cases "find_sub pat s")
  case None
  then show ?thesis using find_sub_None [OF None assms(2)] assms(1) by simp
next
  case (Some k)
  have "\<not> k < i" using find_sub_Some [OF Some] assms(3) by blast
  moreover have "\<not> i < k" using find_sub_least [OF Some] assms(1) by blast
  ultimately show ?thesis using Some by simp
qed

lemma last_sub_Some: "last_sub pat s = Some i \<Longrightarrow> i \<le> length s \<and> HasPrefix (drop i s) pat"
  by (induction s arbitrary: i) (auto split: option.splits if_splits)

subsection \<open>The readers do not panic and convict on their own evidence\<close>

lemma eocd_count_some:
  assumes "i + 22 \<le> length buf"
  shows "\<exists>r. eocd_count f sz buf i = Some r"
proof -
  obtain x n where n: "subslice buf (int i + 10) (int i + 12) = Some x" "Uint False 2 x = Some n"
    using assms by (simp add: subslice_def Uint_def)
  have "\<exists>l y u. subslice buf (int i - 20) (int i - 16) = Some l
      \<and> subslice buf (int i - 12) (int i - 4) = Some y \<and> Uint False 8 y = Some u" if "\<not> i < 20"
    using that assms by (simp add: subslice_def Uint_def)
  moreover have "\<exists>z v. subslice r 32 40 = Some z \<and> Uint False 8 z = Some v"
    if "read_full f 40 off = Some r" for r off
    using read_full_SomeD(1) [OF that] by (simp add: subslice_def Uint_def)
  ultimately show ?thesis
    by (cases "i < 20") (fastforce simp: eocd_count_def n Let_def split: option.split)+
qed

lemma zipEntryCount_some: "\<exists>r. zipEntryCount f sz = Some r"
  using eocd_count_some by (auto simp: zipEntryCount_def Let_def not_less split: prod.split option.split)

end
