(* ===== verification/PdfStreams.thy ===== *)
theory PdfStreams
  imports Containers Decimal
begin

text \<open>
  \<open>verifyPDF\<close> of \<open>internal/media/verify.go\<close>: the end-of-file marker, then the stream
  objects in file order -- each \<open>stream\<close> keyword, the dictionary before it, the matching
  \<open>endstream\<close> and the check of the data between.  The file is searched a chunk at a time with
  the tail of one chunk read again at the head of the next; the lemmas compare that search with
  one over the whole file.
\<close>

definition pdfScanChunk :: nat where "pdfScanChunk = 1048576"
definition scanWindow :: nat where "scanWindow = pdfScanChunk + 16"

definition TrimLeft :: "gostring \<Rightarrow> gostring \<Rightarrow> gostring" where
  "TrimLeft cutset s = dropWhile (\<lambda>c. c \<in> set cutset) s"

definition eol :: gostring where "eol = [CHR 0x0D, CHR 0x0A]"
definition blanks :: gostring where "blanks = [CHR 0x20, CHR 0x09, CHR 0x0D, CHR 0x0A]"

subsection \<open>The keyword\<close>

function keyword_from :: "gostring \<Rightarrow> nat \<Rightarrow> nat option" where
  "keyword_from b start =
     (case find_sub ''stream'' (drop start b) of
        None \<Rightarrow> None
      | Some j \<Rightarrow>
          (let i = j + start in
           if 3 \<le> i \<and> take 3 (drop (i - 3) b) = ''end'' then keyword_from b (i + 6) else Some i))"
  by pat_completeness auto
termination
proof (relation "measure (\<lambda>(b, start). length b - start)", goal_cases)
  case (2 b start j i)
  have "j + 6 \<le> length (drop start b)" using find_sub_bound [OF 2(1)] by simp
  then show ?case using 2 by auto
qed simp

declare keyword_from.simps [simp del]

definition indexStreamKeyword :: "gostring \<Rightarrow> nat option" where
  "indexStreamKeyword b = keyword_from b 0"

subsection \<open>The dictionary\<close>

definition readBack :: "osfile \<Rightarrow> int \<Rightarrow> int \<Rightarrow> gostring" where
  "readBack f off n =
     (let n = (if n > off then off else n) in
      case ReadAt f (nat n) (off - n) of
        (_, Some IOErr) \<Rightarrow> []
      | (got, _) \<Rightarrow>
          (let b = got @ replicate (nat n - length got) CHR 0x00 in
           case last_sub '' obj'' b of Some i \<Rightarrow> drop i b | None \<Rightarrow> b))"

definition pdfDeclaredLength :: "gostring \<Rightarrow> nat option" where
  "pdfDeclaredLength dict =
     (case last_sub ''/Length'' dict of
        None \<Rightarrow> None
      | Some i \<Rightarrow>
          (let rest = TrimLeft blanks (drop (i + 7) dict);
               digits = takeWhile is_digit rest;
               after = TrimLeft blanks (dropWhile is_digit rest);
               tail = TrimLeft blanks (dropWhile is_digit after)
           in if digits = [] \<or> length digits > 15 then None
              else if after \<noteq> [] \<and> is_digit (hd after) \<and> tail \<noteq> [] \<and> hd tail = CHR ''R'' then None
              else Some (dec_value digits)))"

definition name_char :: "char \<Rightarrow> bool" where
  "name_char c \<longleftrightarrow> (let n = of_char c :: nat in
     (65 \<le> n \<and> n \<le> 90) \<or> (97 \<le> n \<and> n \<le> 122) \<or> (48 \<le> n \<and> n \<le> 57))"

definition pdfFilter :: "gostring \<Rightarrow> gostring" where
  "pdfFilter dict =
     (case last_sub ''/Filter'' dict of
        None \<Rightarrow> []
      | Some i \<Rightarrow>
          (let rest = TrimLeft blanks (drop (i + 7) dict);
               arr = (rest \<noteq> [] \<and> hd rest = CHR ''['');
               rest = (if arr then TrimLeft blanks (tl rest) else rest)
           in if rest = [] \<or> hd rest \<noteq> CHR ''/'' then []
              else (let name = takeWhile name_char (tl rest);
                        after = TrimLeft blanks (dropWhile name_char (tl rest))
                    in if arr \<and> (after = [] \<or> hd after \<noteq> CHR '']'') then [] else name)))"

subsection \<open>streamEnd\<close>

text \<open>A window of the file read over the buffer: what a short read leaves is what the buffer
  held; \<open>None\<close> is a read error.\<close>

definition refill :: "osfile \<Rightarrow> gostring \<Rightarrow> nat \<Rightarrow> int \<Rightarrow> gostring option" where
  "refill f buf n pos =
     (case ReadAt f n pos of
        (_, Some IOErr) \<Rightarrow> None
      | (got, _) \<Rightarrow> Some (got @ drop (length got) buf))"

definition window_at :: "int \<Rightarrow> int \<Rightarrow> int" where
  "window_at sz pos = (if sz - pos < int scanWindow then sz - pos else int scanWindow)"

function end_search :: "osfile \<Rightarrow> int \<Rightarrow> gostring \<Rightarrow> int \<Rightarrow> int" where
  "end_search f sz buf pos =
     (if \<not> pos < sz then - 1
      else (let n = window_at sz pos in
        case refill f buf (nat n) pos of
          None \<Rightarrow> - 1
        | Some buf' \<Rightarrow> (case find_sub ''endstream'' (take (nat n) buf') of
            Some i \<Rightarrow> pos + int i
          | None \<Rightarrow> if pos + n \<ge> sz then - 1 else end_search f sz buf' (pos + n - 16))))"
  by pat_completeness auto
termination
  by (relation "measure (\<lambda>(f, sz, buf, pos). nat (sz - pos))")
    (auto simp: window_at_def scanWindow_def pdfScanChunk_def split: if_splits)

declare end_search.simps [simp del]

definition zero_window :: gostring where "zero_window = replicate scanWindow CHR 0x00"

definition streamEnd :: "osfile \<Rightarrow> int \<Rightarrow> int \<Rightarrow> nat option \<Rightarrow> int \<times> bool" where
  "streamEnd f sz dataStart declared =
     (case declared of
        Some len \<Rightarrow>
          if dataStart + int len \<le> sz
             \<and> HasPrefix (TrimLeft eol (fst (ReadAt f 11 (dataStart + int len)))) ''endstream''
          then (let got = fst (ReadAt f 11 (dataStart + int len)) in
                (dataStart + int len + int (length got - length (TrimLeft eol got)), True))
          else (end_search f sz zero_window dataStart, False)
      | None \<Rightarrow> (end_search f sz zero_window dataStart, False))"

lemma end_search_ge: "0 \<le> end_search f sz buf pos \<Longrightarrow> pos \<le> end_search f sz buf pos"
proof (induction f sz buf pos rule: end_search.induct)
  case (1 f sz buf pos)
  let ?n = "window_at sz pos"
  show ?case
  proof (cases "pos < sz \<and> refill f buf (nat ?n) pos \<noteq> None")
    case True
    then obtain b where b: "refill f buf (nat ?n) pos = Some b" by blast
    show ?thesis
    proof (cases "find_sub ''endstream'' (take (nat ?n) b) = None \<and> \<not> pos + ?n \<ge> sz")
      case more: True
      then have "?n = int scanWindow" by (auto simp: window_at_def split: if_splits)
      then have step: "pos \<le> pos + ?n - 16" by (simp add: scanWindow_def)
      have eq: "end_search f sz buf pos = end_search f sz b (pos + ?n - 16)"
        using True b more by (simp add: end_search.simps [of f sz buf])
      then have "pos + ?n - 16 \<le> end_search f sz b (pos + ?n - 16)"
        using 1(1) [OF _ refl b] 1(2) True more by simp
      then show ?thesis using step eq by simp
    next
      case False
      then show ?thesis using 1 True b
        by (auto simp: end_search.simps [of f sz buf] Let_def split: option.splits)
    qed
  next
    case False
    then show ?thesis using 1 by (auto simp: end_search.simps [of f sz buf] Let_def)
  qed
qed

lemma streamEnd_ge: "streamEnd f sz dataStart declared = (e, c) \<Longrightarrow> 0 \<le> e \<Longrightarrow> dataStart \<le> e"
  using end_search_ge [of f sz zero_window dataStart]
  by (auto simp: streamEnd_def Let_def split: option.splits if_splits)

subsection \<open>The check of one stream\<close>

definition section_of :: "osfile \<Rightarrow> int \<Rightarrow> int \<Rightarrow> osfile" where
  "section_of f s n =
     \<lparr>content = take (nat n) (drop (nat s) (content f)), bad = (\<lambda>i. bad f (nat s + i))\<rparr>"

definition verifyFlate :: "decoders \<Rightarrow> osfile \<Rightarrow> int \<Rightarrow> int \<Rightarrow> bool \<Rightarrow> int \<Rightarrow> finding \<times> int" where
  "verifyFlate dcs f start len confident budget =
     (if len \<le> 0 \<or> budget \<le> 0 then ((Unproven, []), 0)
      else (case dec_zlib dcs (section_of f start len) budget of
          None \<Rightarrow> ((Unproven, []), 0)
        | Some (n, err) \<Rightarrow> ((case err of
            Some Cancelled \<Rightarrow> (Unproven, [])
          | Some BadSum \<Rightarrow> (Damaged, [T (''a compressed stream in the PDF fails its own checksum'' @ dash @ ''the stored bytes are damaged'')])
          | Some CutShort \<Rightarrow>
              if confident
              then (Damaged, [T (''a compressed stream in the PDF ends before its declared length'' @ dash @ ''the stored bytes are damaged'')])
              else (Damaged, [T (''a compressed stream in the PDF ends early'' @ dash @ ''the stored bytes are damaged'')])
          | Some _ \<Rightarrow> (Damaged, [T (''a compressed stream in the PDF cannot be decompressed'' @ dash @ ''the stored bytes are damaged'')])
          | None \<Rightarrow> if n \<ge> budget then (Unproven, []) else (Proven, [])), n)))"

record pdf_state =
  p_total :: int
  p_streams :: nat
  p_verified :: nat
  p_unverifiable :: bool
  p_buf :: gostring

definition tally_stream :: "Intactness \<Rightarrow> pdf_state \<Rightarrow> pdf_state" where
  "tally_stream st s = (if st = Proven then s\<lparr>p_verified := p_verified s + 1\<rparr> else s\<lparr>p_unverifiable := True\<rparr>)"

text \<open>One stream whose keyword is at \<open>kw\<close> and whose data starts at \<open>dataStart\<close>: the
  verdict that ends the check, or the position after its \<open>endstream\<close>.\<close>

definition pdf_stream :: "decoders \<Rightarrow> osfile \<Rightarrow> int \<Rightarrow> polls \<Rightarrow> int \<Rightarrow> int \<Rightarrow> pdf_state \<Rightarrow> finding + (int \<times> pdf_state)" where
  "pdf_stream dcs f sz stop kw dataStart s =
     (let dict = readBack f kw 4096;
          (e, confident) = streamEnd f sz dataStart (pdfDeclaredLength dict);
          s' = s\<lparr>p_streams := p_streams s + 1\<rparr>
      in if e < 0 then Inl (Unproven, [])
         else if pdfFilter dict = ''FlateDecode'' then
           (let ((st, why), inflated) = verifyFlate dcs f dataStart (e - dataStart) confident (maxInflate - p_total s')
            in if st = Damaged then Inl (Damaged, why)
               else Inr (e + 9, tally_stream st (s'\<lparr>p_total := p_total s' + inflated\<rparr>)))
         else if pdfFilter dict = ''DCTDecode'' then
           (let (st, why) = verifyJPEG dcs (section_of f dataStart (e - dataStart)) (e - dataStart) stop
            in if st = Damaged then Inl (Damaged, [T ''an image inside the PDF is damaged: ''] @ why)
               else Inr (e + 9, tally_stream st s'))
         else Inr (e + 9, s'\<lparr>p_unverifiable := True\<rparr>))"

definition pdf_verdict :: "bool \<Rightarrow> pdf_state \<Rightarrow> finding" where
  "pdf_verdict cancelled s =
     (if p_streams s = 0 \<or> p_unverifiable s \<or> cancelled then (Unproven, [])
      else (Proven, [T ''every compressed stream in the PDF ('', Number (int (p_verified s)),
        T (if p_verified s = 1 then '' stream'' else '' streams''), T '') matches its own checksum'']))"

definition data_start :: "gostring \<Rightarrow> int \<Rightarrow> int option" where
  "data_start after kw =
     (if HasPrefix after eol then Some (kw + 8)
      else if HasPrefix after [CHR 0x0A] then Some (kw + 7) else None)"

lemma data_start_after: "data_start b kw = Some d \<Longrightarrow> kw < d"
  by (auto simp: data_start_def split: if_splits)

lemma pdf_stream_pos: "pdf_stream dcs f sz stop kw dataStart s = Inr (p, s') \<Longrightarrow> dataStart + 9 \<le> p"
  by (auto simp: pdf_stream_def Let_def split: prod.splits if_splits dest: streamEnd_ge)

function pdf_walk :: "decoders \<Rightarrow> osfile \<Rightarrow> int \<Rightarrow> polls \<Rightarrow> nat \<Rightarrow> pdf_state \<Rightarrow> int \<Rightarrow> finding" where
  "pdf_walk dcs f sz stop k s pos =
     (if \<not> pos < sz then pdf_verdict (stop k) s
      else if stop k then (Unproven, [])
      else (let n = window_at sz pos in
        case refill f (p_buf s) (nat n) pos of
          None \<Rightarrow> (Unproven, [])
        | Some buf \<Rightarrow>
            (let w = take (nat n) buf; s = s\<lparr>p_buf := buf\<rparr> in
             if Contains w ''/Encrypt'' then (Unproven, [])
             else case indexStreamKeyword w of
               None \<Rightarrow> if pos + n \<ge> sz then pdf_verdict (stop (Suc k)) s
                       else pdf_walk dcs f sz stop (Suc k) s (pos + n - 16)
             | Some i \<Rightarrow>
                 (let kw = pos + int i in
                  case data_start (drop (i + 6) w) kw of
                    None \<Rightarrow> pdf_walk dcs f sz stop (Suc k) s (kw + 6)
                  | Some dataStart \<Rightarrow> (case pdf_stream dcs f sz (\<lambda>j. stop (Suc k + j)) kw dataStart s of
                      Inl v \<Rightarrow> v
                    | Inr (pos', s') \<Rightarrow> pdf_walk dcs f sz stop (Suc k) s' pos')))))"
  by pat_completeness auto
termination
  by (relation "measure (\<lambda>(dcs, f, sz, stop, k, s, pos). nat (sz - pos))")
    (auto simp: window_at_def scanWindow_def pdfScanChunk_def split: if_splits
      dest!: pdf_stream_pos data_start_after)

declare pdf_walk.simps [simp del]

definition verifyAll :: "decoders \<Rightarrow> osfile \<Rightarrow> int \<Rightarrow> polls \<Rightarrow> finding" where
  "verifyAll dcs f sz stop =
     pdf_walk dcs f sz stop 0 \<lparr>p_total = 0, p_streams = 0, p_verified = 0, p_unverifiable = False,
       p_buf = zero_window\<rparr> 0"

definition verifyPDF :: "decoders \<Rightarrow> osfile \<Rightarrow> int \<Rightarrow> polls \<Rightarrow> finding" where
  "verifyPDF dcs f sz stop =
     (let tail = (if 65536 > sz then sz else 65536) in
      case read_full f (nat tail) (sz - tail) of
        None \<Rightarrow> (Unproven, [])
      | Some t \<Rightarrow>
          if \<not> Contains t ''%%EOF''
          then (Damaged, [T (''PDF has no end-of-file marker'' @ dash @ ''the file is truncated'')])
          else verifyAll dcs f sz stop)"

subsection \<open>The chunked search against one over the whole file\<close>

lemma HasPrefix_take:
  assumes "j + length pat \<le> n"
  shows "HasPrefix (drop j (take n s)) pat \<longleftrightarrow> HasPrefix (drop j s) pat"
proof -
  have "take (length pat) (drop j (take n s)) = take (length pat) (drop j s)"
    using assms by (simp add: drop_take min_def)
  moreover have "length pat \<le> length (drop j (take n s)) \<longleftrightarrow> length pat \<le> length (drop j s)"
    using assms by auto
  ultimately show ?thesis by (simp add: HasPrefix_def)
qed

lemma find_sub_take:
  assumes "find_sub pat (take n s) = Some i"
  shows "find_sub pat s = Some i"
proof (rule find_sub_unique)
  have b: "i + length pat \<le> length (take n s)" by (rule find_sub_bound [OF assms])
  then have n: "i + length pat \<le> n" by simp
  show "i \<le> length s" using b by simp
  show "HasPrefix (drop i s) pat"
    using find_sub_Some [OF assms] HasPrefix_take [OF n] by blast
  show "\<not> HasPrefix (drop j s) pat" if "j < i" for j
    using find_sub_least [OF assms that] HasPrefix_take [of j pat n s] n that by auto
qed

lemma find_sub_skip:
  assumes "\<And>j. j < m \<Longrightarrow> \<not> HasPrefix (drop j s) pat" and "m \<le> length s"
  shows "find_sub pat s = map_option ((+) m) (find_sub pat (drop m s))"
  using assms
proof (induction m arbitrary: s)
  case 0
  then show ?case by (simp add: option.map_ident_strong)
next
  case (Suc m)
  then obtain c t where s: "s = c # t" by (cases s) auto
  have "\<not> HasPrefix (c # t) pat" using Suc.prems(1) [of 0] s by simp
  moreover have "find_sub pat t = map_option ((+) m) (find_sub pat (drop m t))"
  proof (rule Suc.IH)
    show "\<not> HasPrefix (drop j t) pat" if "j < m" for j
      using Suc.prems(1) [of "Suc j"] that s by simp
    show "m \<le> length t" using Suc.prems(2) s by simp
  qed
  ultimately show ?case unfolding s by (cases "find_sub pat (drop m t)") simp_all
qed

lemma refill_sound:
  assumes "0 \<le> pos" and "pos + int n \<le> int (length c)"
  shows "refill (sound_file c) buf n pos = Some (take n (drop (nat pos) c) @ drop n buf)"
  using assms by (auto simp: refill_def ReadAt_def Let_def sound_file_def min_def)

lemma drop_exact: "length w = n \<Longrightarrow> drop n (w @ r) = r"
  by auto

lemma refill_front:
  assumes "length w = n" and "length buf = n"
  shows "refill (sound_file (w @ r)) buf n 0 = Some w"
  using refill_sound [of 0 n "w @ r" buf] assms by simp

lemma refill_back:
  assumes "length w = k" and "length r = n"
  shows "refill (sound_file (w @ r)) buf n (int k) = Some (r @ drop n buf)"
  using refill_sound [of "int k" n "w @ r" buf] assms by simp

lemma end_search_whole:
  assumes "length buf = scanWindow"
  shows "end_search (sound_file c) (int (length c)) buf (int pos)
    = (case find_sub ''endstream'' (drop pos c) of Some i \<Rightarrow> int pos + int i | None \<Rightarrow> - 1)"
  using assms
proof (induction "length c - pos" arbitrary: pos buf rule: less_induct)
  case less
  show ?case
  proof (cases "pos < length c")
    case False
    then show ?thesis by (simp add: end_search.simps)
  next
    case True
    define n where "n = (if length c - pos < scanWindow then length c - pos else scanWindow)"
    have wn: "window_at (int (length c)) (int pos) = int n"
      using True by (auto simp: window_at_def n_def)
    have nl: "n \<le> length c - pos" "n \<le> scanWindow" by (auto simp: n_def)
    let ?w = "take n (drop pos c)"
    have rf: "refill (sound_file c) buf n (int pos) = Some (?w @ drop n buf)"
      using refill_sound [of "int pos" n c buf] nl True by simp
    have lw: "length ?w = n" using nl by simp
    show ?thesis
    proof (cases "find_sub ''endstream'' ?w")
      case (Some i)
      then show ?thesis using True rf wn lw find_sub_take [OF Some]
        by (simp add: end_search.simps [of "sound_file c"])
    next
      case None
      show ?thesis
      proof (cases "length c \<le> pos + n")
        case atend: True
        then have "?w = drop pos c" by simp
        then show ?thesis using True rf wn lw None atend
          by (simp add: end_search.simps [of "sound_file c"])
      next
        case more: False
        then have n: "n = scanWindow" by (auto simp: n_def)
        have step: "int pos + int n - 16 = int (pos + (n - 16))"
          using n by (simp add: scanWindow_def)
        have "end_search (sound_file c) (int (length c)) buf (int pos)
            = end_search (sound_file c) (int (length c)) (?w @ drop n buf) (int (pos + (n - 16)))"
          using True rf wn lw None more unfolding step [symmetric]
          by (subst end_search.simps) simp
        also have "\<dots> = (case find_sub ''endstream'' (drop (pos + (n - 16)) c) of
            Some i \<Rightarrow> int (pos + (n - 16)) + int i | None \<Rightarrow> - 1)"
          using less n lw True by (intro less.hyps) (auto simp: scanWindow_def pdfScanChunk_def)
        finally have "end_search (sound_file c) (int (length c)) buf (int pos)
            = (case find_sub ''endstream'' (drop (pos + (n - 16)) c) of
              Some i \<Rightarrow> int (pos + (n - 16)) + int i | None \<Rightarrow> - 1)" .
        moreover have "find_sub ''endstream'' (drop pos c)
            = map_option ((+) (n - 16)) (find_sub ''endstream'' (drop (n - 16) (drop pos c)))"
        proof (rule find_sub_skip)
          show "n - 16 \<le> length (drop pos c)" using nl by simp
          show "\<not> HasPrefix (drop j (drop pos c)) ''endstream''" if "j < n - 16" for j
          proof -
            have j: "j + length ''endstream'' \<le> n" "j \<le> length ?w" using that lw by auto
            then show ?thesis
              using find_sub_None [OF None j(2)] HasPrefix_take [OF j(1), of "drop pos c"] by blast
          qed
        qed
        ultimately show ?thesis by (auto simp: add.commute split: option.splits)
      qed
    qed
  qed
qed

text \<open>Searching for the end of a stream a chunk at a time, the last sixteen bytes of one
  chunk read again with the next, finds the very place a search of the whole file finds.\<close>

theorem pdf_end_search_whole:
  "end_search (sound_file c) (int (length c)) zero_window (int pos)
    = (case find_sub ''endstream'' (drop pos c) of Some i \<Rightarrow> int pos + int i | None \<Rightarrow> - 1)"
  by (rule end_search_whole) (simp add: zero_window_def)

subsection \<open>A keyword at the end of a chunk\<close>

lemma find_sub_replicate:
  assumes "pat \<noteq> []" and "hd pat \<noteq> x"
  shows "find_sub pat (replicate k x @ s) = map_option ((+) k) (find_sub pat s)"
proof (induction k)
  case 0
  then show ?case by (simp add: option.map_ident_strong)
next
  case (Suc k)
  have "\<not> HasPrefix (x # t) pat" for t using assms by (cases pat) auto
  then show ?case using Suc by (cases "find_sub pat s") simp_all
qed

lemma last_sub_replicate:
  assumes "last_sub pat s = Some i"
  shows "last_sub pat (replicate k x @ s) = Some (k + i)"
  using assms by (induction k) simp_all

lemma last_sub_absent:
  assumes "c \<in> set pat" and "c \<notin> set s"
  shows "last_sub pat s = None"
proof (cases "last_sub pat s")
  case (Some i)
  then have "HasPrefix (drop i s) pat" using last_sub_Some by blast
  then have "set pat \<subseteq> set s" by (metis HasPrefix_def set_take_subset set_drop_subset subset_trans)
  then show ?thesis using assms by blast
qed

lemma Contains_absent: "c \<in> set pat \<Longrightarrow> c \<notin> set s \<Longrightarrow> \<not> Contains s pat"
  by (auto simp: Contains_iff)

text \<open>A file that is blank up to one stream object, whose data no decoder accepts.\<close>

definition ex_dict :: gostring where "ex_dict = ''/Filter/FlateDecode''"

definition ex_pdf :: "nat \<Rightarrow> gostring" where
  "ex_pdf k = replicate k CHR '' '' @ ex_dict @ ''stream'' @ [CHR 0x0A] @ ''x'' @ ''endstream''"

definition ex_tail :: gostring where
  "ex_tail = [CHR 0x0A] @ ''x'' @ ''endstream''"

lemma keyword_after_blanks:
  assumes "3 \<le> k"
  shows "indexStreamKeyword (replicate k CHR '' '' @ ex_dict @ ''stream'' @ r) = Some (k + 19)"
proof -
  let ?b = "replicate k CHR '' '' @ ex_dict @ ''stream'' @ r"
  have "find_sub ''stream'' (ex_dict @ ''stream'' @ r) = Some 19" by (simp add: ex_dict_def)
  then have "find_sub ''stream'' ?b = Some (k + 19)" using find_sub_replicate [of "''stream''" "CHR '' ''" k] by simp
  moreover have "take 3 (drop (k + 16) ?b) = ''ode''" by (simp add: ex_dict_def numeral_eq_Suc)
  ultimately show ?thesis by (simp add: indexStreamKeyword_def keyword_from.simps [of _ 0])
qed

lemma keyword_in_tail: "indexStreamKeyword ex_tail = None"
  by (simp add: indexStreamKeyword_def keyword_from.simps ex_tail_def numeral_eq_Suc)

definition fresh_pdf :: pdf_state where
  "fresh_pdf = \<lparr>p_total = 0, p_streams = 0, p_verified = 0, p_unverifiable = False, p_buf = zero_window\<rparr>"

lemma seam_missed: "fst (verifyAll dcs (sound_file (ex_pdf (scanWindow - 25))) (int (length (ex_pdf (scanWindow - 25)))) never)
   = Unproven"
proof -
  let ?k = "scanWindow - 25" and ?c = "ex_pdf (scanWindow - 25)" and ?n = "int scanWindow"
  have M: "28 \<le> scanWindow" by (simp add: scanWindow_def pdfScanChunk_def)
  have len: "length ?c = scanWindow + 11" using M by (simp add: ex_pdf_def ex_dict_def)
  let ?w = "replicate ?k CHR '' '' @ ex_dict @ ''stream''"
  have lw: "length ?w = scanWindow" using M by (simp add: ex_dict_def)
  have c: "?c = ?w @ ex_tail" by (simp add: ex_pdf_def ex_tail_def)
  have w0: "window_at (int (length ?c)) 0 = ?n" by (simp add: window_at_def len)
  have r0: "refill (sound_file ?c) zero_window scanWindow 0 = Some ?w"
    unfolding c by (rule refill_front [OF lw]) (simp add: zero_window_def)
  have w1: "window_at (int (length ?c)) ?n = 11"
    by (simp only: window_at_def len) (simp add: scanWindow_def)
  have r1: "refill (sound_file ?c) ?w 11 ?n = Some (ex_tail @ drop 11 ?w)"
    unfolding c by (rule refill_back [OF lw]) (simp add: ex_tail_def)
  have e0: "\<not> Contains ?w ''/Encrypt''"
    by (rule Contains_absent [of "CHR ''E''"]) (simp_all add: ex_dict_def)
  have e1: "\<not> Contains ex_tail ''/Encrypt''"
    by (rule Contains_absent [of "CHR ''E''"]) (simp_all add: ex_tail_def)
  have kw: "indexStreamKeyword ?w = Some (scanWindow - 6)"
    using keyword_after_blanks [of ?k "[]"] M by simp
  have ds: "data_start (drop (scanWindow - 6 + 6) ?w) (int (scanWindow - 6)) = None"
    using M lw by (simp add: data_start_def eol_def)
  have "verifyAll dcs (sound_file ?c) (int (length ?c)) never
      = pdf_walk dcs (sound_file ?c) (int (length ?c)) never 0 fresh_pdf 0"
    by (simp add: verifyAll_def fresh_pdf_def)
  also have "\<dots> = pdf_walk dcs (sound_file ?c) (int (length ?c)) never 1 (fresh_pdf\<lparr>p_buf := ?w\<rparr>) ?n"
    using w0 r0 e0 kw ds lw M len
    by (subst pdf_walk.simps) (simp add: fresh_pdf_def Let_def)
  also have "\<dots> = pdf_verdict False (fresh_pdf\<lparr>p_buf := ex_tail @ drop 11 ?w\<rparr>)"
    using w1 r1 e1 keyword_in_tail len
    by (subst pdf_walk.simps) (simp add: Let_def ex_tail_def fresh_pdf_def)
  finally show ?thesis by (simp add: pdf_verdict_def fresh_pdf_def)
qed

definition failing :: "decoders \<Rightarrow> decoders" where
  "failing dcs = dcs\<lparr>dec_zlib := \<lambda>_ _. Some (0, Some BadSum)\<rparr>"

lemma ex_dict_read:
  assumes "4077 \<le> k"
  shows "readBack (sound_file (replicate k CHR '' '' @ ex_dict @ r)) (int k + 19) 4096
    = replicate 4077 CHR '' '' @ ex_dict"
proof -
  let ?b = "replicate 4077 CHR '' '' @ ex_dict" and ?c = "replicate k CHR '' '' @ ex_dict @ r"
  have n: "nat (int k + 19 - 4096) = k - 4077" using assms by simp
  have "drop (k - 4077) ?c = replicate 4077 CHR '' '' @ ex_dict @ r" using assms by simp
  then have "take 4096 (drop (k - 4077) ?c) = ?b" by (simp add: ex_dict_def)
  moreover have "last_sub '' obj'' ?b = None"
    by (rule last_sub_absent [of "CHR ''j''"]) (simp_all add: ex_dict_def)
  moreover have "length ?b = 4096" by (simp add: ex_dict_def)
  ultimately show ?thesis using assms n
    by (simp add: readBack_def ReadAt_def Let_def sound_file_def)
qed

lemma shifted_found: "fst (verifyAll (failing dcs) (sound_file (ex_pdf (scanWindow - 26)))
   (int (length (ex_pdf (scanWindow - 26)))) never) = Damaged"
proof -
  define k where "k = scanWindow - 26"
  let ?c = "ex_pdf k" and ?n = "int scanWindow" and ?dcs = "failing dcs"
  let ?f = "sound_file ?c" and ?sz = "int (length ?c)"
  have k: "scanWindow = k + 26" "4077 \<le> k" by (simp_all add: k_def scanWindow_def pdfScanChunk_def)
  have len: "length ?c = scanWindow + 10" using k by (simp add: ex_pdf_def ex_dict_def)
  let ?w = "replicate k CHR '' '' @ ex_dict @ ''stream'' @ [CHR 0x0A]"
  have lw: "length ?w = scanWindow" using k by (simp add: ex_dict_def)
  have c: "?c = ?w @ ''x'' @ ''endstream''" by (simp add: ex_pdf_def)
  have w0: "window_at ?sz 0 = ?n" by (simp add: window_at_def len)
  have r0: "refill ?f zero_window scanWindow 0 = Some ?w"
    unfolding c by (rule refill_front [OF lw]) (simp add: zero_window_def)
  have e0: "\<not> Contains ?w ''/Encrypt''"
    by (rule Contains_absent [of "CHR ''E''"]) (simp_all add: ex_dict_def)
  have kw: "indexStreamKeyword ?w = Some (k + 19)"
    using keyword_after_blanks [of k "[CHR 0x0A]"] k by simp
  have ds: "data_start (drop (k + 19 + 6) ?w) (int (k + 19)) = Some ?n"
    using k by (simp add: data_start_def eol_def ex_dict_def)
  have dict: "readBack ?f (int k + 19) 4096 = replicate 4077 CHR '' '' @ ex_dict"
    using ex_dict_read [OF k(2), of "''stream'' @ [CHR 0x0A] @ ''x'' @ ''endstream''"] by (simp add: ex_pdf_def)
  have nolen: "pdfDeclaredLength (replicate 4077 CHR '' '' @ ex_dict) = None"
    using last_sub_absent [of "CHR ''g''" "''/Length''" "replicate 4077 CHR '' '' @ ex_dict"]
    by (simp add: pdfDeclaredLength_def ex_dict_def)
  have "last_sub ''/Filter'' ex_dict = Some 0" by (simp add: ex_dict_def)
  then have flt: "pdfFilter (replicate 4077 CHR '' '' @ ex_dict) = ''FlateDecode''"
    using last_sub_replicate [of "''/Filter''" ex_dict 0 4077 "CHR '' ''"]
    by (simp add: pdfFilter_def Let_def ex_dict_def TrimLeft_def blanks_def name_char_def)
  have "drop scanWindow ?c = ''x'' @ ''endstream''" unfolding c by (rule drop_exact [OF lw])
  then have e: "end_search ?f ?sz zero_window ?n = ?n + 1"
    using pdf_end_search_whole [of ?c scanWindow] by simp
  have st: "\<exists>why. pdf_stream ?dcs ?f ?sz stop (int k + 19) ?n s = Inl (Damaged, why)" if "p_total s = 0" for s stop
    using dict nolen flt e that
    by (simp add: pdf_stream_def streamEnd_def verifyFlate_def failing_def maxInflate_def)
  have "verifyAll ?dcs ?f ?sz never = pdf_walk ?dcs ?f ?sz never 0 fresh_pdf 0"
    by (simp add: verifyAll_def fresh_pdf_def)
  moreover have "\<exists>why. \<dots> = (Damaged, why)"
    using w0 r0 e0 kw ds lw st [of "fresh_pdf\<lparr>p_buf := ?w\<rparr>" never] len k(1)
    by (subst pdf_walk.simps) (auto simp: fresh_pdf_def Let_def)
  ultimately show ?thesis unfolding k_def by auto
qed

text \<open>A stream whose keyword ends exactly where a chunk of the search ends, its end of
  line in the next chunk, is stepped over unchecked: no decoder's answer can convict it.  One byte
  earlier in the file the same stream is found and convicted when its checksum fails.\<close>

theorem seam_keyword_missed:
  "fst (verifyAll dcs (sound_file (ex_pdf (scanWindow - 25))) (int (length (ex_pdf (scanWindow - 25)))) never)
     = Unproven
   \<and> fst (verifyAll (failing dcs) (sound_file (ex_pdf (scanWindow - 26)))
       (int (length (ex_pdf (scanWindow - 26)))) never) = Damaged"
  using seam_missed shifted_found by blast

end
