(* ===== verification/VerifyFile.thy ===== *)
theory VerifyFile
  imports BoxTree PdfStreams CompareFiles
begin

text \<open>
  \<open>VerifyContent\<close> of \<open>internal/media/verify.go\<close>: the magic bytes of a file choose its check.
  A ZIP check that slices out of range would be \<open>None\<close>; it never does.
\<close>

definition gzip_magic :: gostring where "gzip_magic = [CHR 0x1F, CHR 0x8B, CHR 0x08]"
definition zip_magic :: gostring where "zip_magic = ''PK'' @ [CHR 0x03, CHR 0x04]"
definition zip_empty_magic :: gostring where "zip_empty_magic = ''PK'' @ [CHR 0x05, CHR 0x06]"
definition jpeg_magic :: gostring where "jpeg_magic = [CHR 0xFF, CHR 0xD8, CHR 0xFF]"

definition VerifyContent :: "decoders \<Rightarrow> osfile option \<Rightarrow> int \<Rightarrow> polls \<Rightarrow> finding option" where
  "VerifyContent dcs opened sz stop =
     (if sz \<le> 0 then Some (Unproven, [])
      else case opened of
        None \<Rightarrow> Some (Unproven, [])
      | Some f \<Rightarrow>
          (let magic = fst (ReadAt f 16 0) in
           if HasPrefix magic png_magic then Some (verifyPNG f sz stop)
           else if HasPrefix magic gzip_magic then Some (verifyGzip dcs f)
           else if HasPrefix magic zip_magic \<or> HasPrefix magic zip_empty_magic then verifyZip dcs f sz
           else if HasPrefix magic jpeg_magic then Some (verifyJPEG dcs f sz stop)
           else if HasPrefix magic ''%PDF-'' then Some (verifyPDF dcs f sz stop)
           else if 12 \<le> length magic \<and> take 4 (drop 4 magic) = ''ftyp'' then Some (verifyISOBMFF f sz stop)
           else Some (Unproven, [])))"

theorem verify_never_panics: "VerifyContent dcs opened sz stop \<noteq> None"
proof -
  have "verifyZip dcs f sz \<noteq> None" for f
    using zipEntryCount_some [of f sz]
    by (auto simp: verifyZip_def split: option.splits sum.splits)
  then show ?thesis by (auto simp: VerifyContent_def Let_def split: option.splits)
qed

text \<open>What the check of a file says once it has returned.\<close>

definition verdict_of :: "decoders \<Rightarrow> osfile option \<Rightarrow> int \<Rightarrow> polls \<Rightarrow> finding" where
  "verdict_of dcs opened sz stop =
     (case VerifyContent dcs opened sz stop of Some v \<Rightarrow> v | None \<Rightarrow> (Unproven, []))"

end
