(* ===== verification/CorruptSet.thy ===== *)
theory CorruptSet
  imports GroupTop Decimal VerifyFile
begin

text \<open>
  The data of \<open>server/corrupt.go\<close>: the members of a (size, modified time) family, the sets
  that disagree (\<open>isCorruptedSet\<close>, \<open>buildSet\<close>), their ranking and the bounded accumulator
  \<open>corruptTop\<close> that keeps the best of them across the windows of a scan.
\<close>

text \<open>Why a member could not be read: an I/O error of the drive, the scan's own stop, or
  anything else, with the text \<open>cleanReadErr\<close> shows for it.\<close>

datatype rerr = EIO | CancelErr | OsErr gostring

record corruptFile =
  cf_f :: fEnt
  cf_hash :: gostring
  cf_pfx :: gostring
  cf_err :: "rerr option"
  cf_changed :: bool
  cf_prior :: gostring
  cf_verdict :: gostring
  cf_evidence :: evidence

definition zero_corruptFile :: corruptFile where
  "zero_corruptFile = \<lparr>cf_f = zero_fEnt, cf_hash = [], cf_pfx = [], cf_err = None, cf_changed = False,
     cf_prior = [], cf_verdict = [], cf_evidence = []\<rparr>"

record corruptSet =
  cs_size :: int
  cs_mod :: time
  cs_files :: "corruptFile list"
  cs_extra :: nat
  cs_variants :: nat
  cs_sameName :: bool
  cs_flagged :: bool

definition verdictCorrupt :: gostring where "verdictCorrupt = ''corrupt''"
definition verdictIntact :: gostring where "verdictIntact = ''intact''"
definition verdictUnknown :: gostring where "verdictUnknown = ''unknown''"

subsection \<open>Which families disagree\<close>

text \<open>The content a member stands for: its full hash, or its prefix when nothing else shares
  it.\<close>

definition variant_key :: "corruptFile \<Rightarrow> gostring" where
  "variant_key e = (if cf_hash e \<noteq> [] then cf_hash e else ''p:'' @ cf_pfx e)"

definition isCorruptedSet :: "corruptFile list \<Rightarrow> bool" where
  "isCorruptedSet ms \<longleftrightarrow>
     \<not> list_ex (\<lambda>e. cf_err e = Some CancelErr) ms
     \<and> card (set (map variant_key (filter (\<lambda>e. cf_err e = None) ms)))
         + length (filter (\<lambda>e. cf_err e \<noteq> None) ms) \<ge> 2
     \<and> length ms \<ge> 2"

definition set_variant :: "corruptFile \<Rightarrow> gostring" where
  "set_variant e = (if cf_err e \<noteq> None then ''e:'' @ f_path (cf_f e) else variant_key e)"

definition flagged_member :: "corruptFile \<Rightarrow> bool" where
  "flagged_member e \<longleftrightarrow> cf_err e \<noteq> None \<or> cf_changed e"

text \<open>\<open>strings.EqualFold\<close> is an argument (Unicode folding); the cap is \<open>corruptFileCap\<close>.
  The stable sort that puts flagged members first, and the sort by path.\<close>

definition corruptFileCap :: nat where "corruptFileCap = 20000"

definition buildSet :: "nat \<Rightarrow> (gostring \<Rightarrow> gostring \<Rightarrow> bool) \<Rightarrow> corruptFile list \<Rightarrow> corruptSet" where
  "buildSet cap eqFold ms =
     (let kept = (if length ms > cap then take cap (sort_key (\<lambda>m. if flagged_member m then 0 else 1 :: nat) ms) else ms)
      in \<lparr>cs_size = f_size (cf_f (hd ms)), cs_mod = f_mod (cf_f (hd ms)),
          cs_files = sort_key (\<lambda>m. f_path (cf_f m)) kept,
          cs_extra = length ms - cap,
          cs_variants = card (set (map set_variant ms)),
          cs_sameName = list_all (\<lambda>m. eqFold (f_name (cf_f m)) (f_name (cf_f (hd ms)))) ms,
          cs_flagged = list_ex flagged_member ms\<rparr>)"

subsection \<open>Ranking and the accumulator\<close>

definition set_rank :: "corruptSet \<Rightarrow> nat" where
  "set_rank c = (if cs_flagged c then 2 else if cs_sameName c then 1 else 0)"

definition first_path :: "corruptSet \<Rightarrow> path" where
  "first_path c = f_path (cf_f (hd (cs_files c)))"

definition betterSet :: "corruptSet \<Rightarrow> corruptSet \<Rightarrow> bool" where
  "betterSet a b =
     (if set_rank a \<noteq> set_rank b then set_rank a > set_rank b
      else if cs_size a \<noteq> cs_size b then cs_size a > cs_size b
      else first_path a < first_path b)"

text \<open>The order as a key: by rank and size downwards, then by path.\<close>

definition set_key :: "corruptSet \<Rightarrow> int \<times> int \<times> path" where
  "set_key c = (- int (set_rank c), - cs_size c, first_path c)"

lemma betterSet_key: "betterSet a b \<longleftrightarrow> set_key a < set_key b"
  by (auto simp: betterSet_def set_key_def less_prod_def)

interpretation by_interest: ranking betterSet set_key
  by unfold_locales (rule betterSet_key)

record corruptTop =
  ct_limit :: nat
  ct_sets :: "corruptSet list"
  ct_droppedSets :: nat
  ct_droppedFile :: nat

definition newCorruptTop :: "nat \<Rightarrow> corruptTop" where
  "newCorruptTop budget = \<lparr>ct_limit = budget div 2 + 1, ct_sets = [], ct_droppedSets = 0, ct_droppedFile = 0\<rparr>"

definition set_files :: "corruptSet \<Rightarrow> nat" where
  "set_files c = length (cs_files c) + cs_extra c"

definition corrupt_add :: "corruptSet \<Rightarrow> corruptTop \<Rightarrow> corruptTop" where
  "corrupt_add c t =
     (let ss = ct_sets t @ [c] in
      if length ss \<le> ct_limit t then t\<lparr>ct_sets := ss\<rparr>
      else (let sorted = rank_sort betterSet ss; out = drop (ct_limit t) sorted in
        t\<lparr>ct_sets := take (ct_limit t) sorted,
          ct_droppedSets := ct_droppedSets t + length out,
          ct_droppedFile := ct_droppedFile t + sum_list (map set_files out)\<rparr>))"

definition corrupt_noteSkipped :: "nat \<Rightarrow> corruptTop \<Rightarrow> corruptTop" where
  "corrupt_noteSkipped n t = t\<lparr>ct_droppedFile := ct_droppedFile t + n\<rparr>"

end
