(* ===== verification/JudgeSet.thy ===== *)
theory JudgeSet
  imports CorruptSet Spill
begin

text \<open>
  The verdicts of \<open>server/corrupt.go\<close>: \<open>judgeSet\<close> and the ladder it climbs -- read
  errors, history, the file's own container, the shape of a difference, and what is left.  What the
  ladder sees of the disk while it climbs (a second stat, a container check, a comparison, a poll of
  the cancel channel) is record \<open>sights\<close>, each observation its own answer, since the files may
  change in between.  The theorems are what a reader of the listing relies on: every member is judged,
  a conviction rests on one of the named pieces of positive evidence, and a copy is called intact only
  beside a damaged one.
\<close>

record sights =
  si_same2 :: "nat \<Rightarrow> bool"
  si_verify :: "nat \<Rightarrow> finding"
  si_same3 :: "nat \<Rightarrow> bool"
  si_past :: "nat \<Rightarrow> nat \<Rightarrow> unit + DiffShape option"
  si_pair :: "nat \<Rightarrow> nat \<Rightarrow> unit + DiffShape option"
  si_stop :: "nat \<Rightarrow> bool"
  si_stopped :: "nat \<Rightarrow> bool"
  si_stop_past :: "nat \<Rightarrow> nat \<Rightarrow> bool"

text \<open>\<open>unchangedOnDisk\<close>: what the stat through the member's own opener gives against what the
  walk recorded; no stat is no confirmation.\<close>

definition unchangedOnDisk :: "(int \<times> int) option \<Rightarrow> fEnt \<Rightarrow> bool" where
  "unchangedOnDisk st f =
     (case st of None \<Rightarrow> False | Some (sz, md) \<Rightarrow> sz = f_size f \<and> md = unix_of (f_mod f))"

definition historyNote :: gostring where
  "historyNote = ''its content changed since an earlier scan although its size and modified time did not''"

definition anyVerdict :: "corruptFile list \<Rightarrow> gostring \<Rightarrow> bool" where
  "anyVerdict ms v \<longleftrightarrow> list_ex (\<lambda>m. cf_verdict m = v) ms"

subsection \<open>Rungs 1 and 2\<close>

definition judge_read :: "corruptFile \<Rightarrow> corruptFile" where
  "judge_read m =
     (case cf_err m of
        None \<Rightarrow> m
      | Some EIO \<Rightarrow> m\<lparr>cf_verdict := verdictCorrupt, cf_evidence :=
          [T (''could not be read'' @ dash @ ''the drive reported an I/O error on two attempts, so the stored bytes cannot be read back'')]\<rparr>
      | Some CancelErr \<Rightarrow> m\<lparr>cf_verdict := verdictUnknown, cf_evidence := [T ''could not be read: cancelled'']\<rparr>
      | Some (OsErr s) \<Rightarrow> m\<lparr>cf_verdict := verdictUnknown, cf_evidence := [T (''could not be read: '' @ s)]\<rparr>)"

definition judge_history :: "sights \<Rightarrow> corruptFile list \<Rightarrow> bool list" where
  "judge_history si ms =
     map (\<lambda>i. cf_verdict (ms ! i) = [] \<and> cf_changed (ms ! i) \<and> si_same2 si i) [0..<length ms]"

subsection \<open>Rung 3\<close>

definition judge_container :: "sights \<Rightarrow> bool list \<Rightarrow> nat \<Rightarrow> corruptFile \<Rightarrow> corruptFile" where
  "judge_container si ch i m =
     (let (st, why) = si_verify si i in
      if st \<noteq> Damaged \<or> cf_verdict m \<noteq> [] then m
      else if \<not> si_same3 si i
      then m\<lparr>cf_verdict := verdictUnknown,
             cf_evidence := [T (''changed on disk while the scan was reading it'' @ dash @ ''scan again'')]\<rparr>
      else m\<lparr>cf_verdict := verdictCorrupt,
             cf_evidence := why @ (if ch ! i then [T ''; '', T historyNote] else [])\<rparr>)"

text \<open>The loop over the members: what they have become, the checks, and whether the scan was
  stopped.\<close>

fun rung3 :: "sights \<Rightarrow> bool list \<Rightarrow> nat \<Rightarrow> corruptFile list \<Rightarrow> corruptFile list \<times> finding list \<times> bool" where
  "rung3 si ch i [] = ([], [], False)"
| "rung3 si ch i (m # ms) =
     (if si_stop si i then (m # ms, [], True)
      else if cf_err m \<noteq> None then
        (let (fs, ps, b) = rung3 si ch (i + 1) ms in (m # fs, (Unproven, []) # ps, b))
      else if si_stopped si i then (m # ms, [], True)
      else (let (fs, ps, b) = rung3 si ch (i + 1) ms
            in (judge_container si ch i m # fs, si_verify si i # ps, b)))"

subsection \<open>Rung 4\<close>

definition unjudged_twin :: "corruptFile list \<Rightarrow> nat \<Rightarrow> gostring \<Rightarrow> nat \<Rightarrow> bool" where
  "unjudged_twin ms i h j \<longleftrightarrow>
     j \<noteq> i \<and> cf_verdict (ms ! j) = [] \<and> cf_err (ms ! j) = None \<and> cf_hash (ms ! j) = h"

definition judgeWithTwins :: "nat \<Rightarrow> gostring \<Rightarrow> evidence \<Rightarrow> corruptFile list \<Rightarrow> corruptFile list" where
  "judgeWithTwins i v e ms =
     (let mark = (\<lambda>m. m\<lparr>cf_verdict := v, cf_evidence := e\<rparr>);
          ms = (if cf_verdict (ms ! i) = [] then ms[i := mark (ms ! i)] else ms);
          h = cf_hash (ms ! i)
      in if h = [] then ms
         else map (\<lambda>j. if unjudged_twin ms i h j then mark (ms ! j) else ms ! j) [0..<length ms])"

definition say :: "gostring \<Rightarrow> evidence" where "say s = [T s]"

definition judgePast :: "DiffShape \<Rightarrow> nat \<Rightarrow> nat \<Rightarrow> corruptFile list \<Rightarrow> corruptFile list" where
  "judgePast d i j ms =
     (let former = ''the other copy holds exactly what this file used to contain'' in
      if (Kind d = Zeros \<or> Kind d = Tail) \<and> ZeroSide d = 0 then
        judgeWithTwins j verdictIntact (say former)
          (judgeWithTwins i verdictCorrupt (Describe d 0 @ say ''; '' @ say historyNote) ms)
      else if Kind d = Bitflip then
        judgeWithTwins j verdictIntact (say former)
          (judgeWithTwins i verdictCorrupt
            (Describe d 0 @ say '', and '' @ say historyNote @ say (dash @ ''bit rot'')) ms)
      else if DBytes d \<le> 64 then
        judgeWithTwins i []
          (Describe d 0 @ say ''; '' @ say historyNote @ say '', and '' @ say former
            @ say (dash @ ''a small edit that kept its timestamp, or damage; compare the copies before deleting either'')) ms
      else
        judgeWithTwins i []
          (Describe d 0 @ say ''; '' @ say historyNote @ say '', and '' @ say former
            @ say (dash @ ''a spread of changed bytes is an edit that kept its timestamp rather than damage'')) ms)"

definition judgeShape :: "DiffShape \<Rightarrow> nat \<Rightarrow> nat \<Rightarrow> bool list \<Rightarrow> corruptFile list \<Rightarrow> corruptFile list" where
  "judgeShape d a b ch ms =
     (if Kind d = Zeros \<or> Kind d = Tail then
        (let lost = (if ZeroSide d = 1 then b else a); kept = (if ZeroSide d = 1 then a else b)
         in judgeWithTwins kept verdictIntact (Describe d (1 - ZeroSide d))
              (judgeWithTwins lost verdictCorrupt (Describe d (ZeroSide d)) ms))
      else if Kind d = Bitflip then
        (if ch ! a = ch ! b then
           judgeWithTwins b [] (Describe d (int b)) (judgeWithTwins a [] (Describe d (int a)) ms)
         else
           (let rotten = (if ch ! b then b else a); other = (if ch ! b then a else b);
                ms' = judgeWithTwins rotten verdictCorrupt
                  (Describe d (int rotten) @ say '', and '' @ say historyNote @ say (dash @ ''bit rot'')) ms
            in if cf_prior (ms' ! rotten) \<noteq> [] \<and> cf_hash (ms' ! other) = cf_prior (ms' ! rotten)
               then judgeWithTwins other verdictIntact (say ''holds exactly the content the damaged copy had before it changed'') ms'
               else judgeWithTwins other [] (Describe d (int other)) ms'))
      else
        (let spread = (\<lambda>i. Describe d (int i) @ (if ch ! i then say ''; '' @ say historyNote
               @ say (dash @ ''a spread of changed bytes is an edit that kept its timestamp rather than damage; check the file'') else []))
         in judgeWithTwins b [] (spread b) (judgeWithTwins a [] (spread a) ms)))"

text \<open>The sibling that holds exactly what member \<open>i\<close> used to.\<close>

definition past_twin :: "corruptFile list \<Rightarrow> nat \<Rightarrow> nat option" where
  "past_twin ms i =
     find (\<lambda>j. j \<noteq> i \<and> cf_err (ms ! j) = None \<and> cf_hash (ms ! j) = cf_prior (ms ! i)) [0..<length ms]"

text \<open>One turn against the past; \<open>None\<close> is a stop.\<close>

definition past_turn :: "sights \<Rightarrow> bool list \<Rightarrow> nat \<Rightarrow> corruptFile list \<Rightarrow> corruptFile list option" where
  "past_turn si ch i ms =
     (if \<not> ch ! i \<or> cf_verdict (ms ! i) \<noteq> [] \<or> cf_prior (ms ! i) = [] then Some ms
      else (case past_twin ms i of
          None \<Rightarrow> Some ms
        | Some j \<Rightarrow>
            if si_stop_past si i j then None
            else (case si_past si i j of
                Inr (Some d) \<Rightarrow> Some (judgePast d i j ms)
              | _ \<Rightarrow> Some ms)))"

fun past_turns :: "sights \<Rightarrow> bool list \<Rightarrow> nat list \<Rightarrow> corruptFile list \<Rightarrow> corruptFile list \<times> bool" where
  "past_turns si ch [] ms = (ms, False)"
| "past_turns si ch (i # rest) ms =
     (case past_turn si ch i ms of
        None \<Rightarrow> (ms, True)
      | Some ms' \<Rightarrow> past_turns si ch rest ms')"

definition can_represent :: "corruptFile \<Rightarrow> bool" where
  "can_represent m \<longleftrightarrow> cf_err m = None \<and> cf_hash m \<noteq> []"

definition representatives :: "corruptFile list \<Rightarrow> (nat \<times> nat) option" where
  "representatives ms =
     (case filter (\<lambda>i. can_represent (ms ! i)) [0..<length ms] of
        [] \<Rightarrow> None
      | a # rest \<Rightarrow> map_option (\<lambda>b. (a, b)) (find (\<lambda>i. cf_hash (ms ! i) \<noteq> cf_hash (ms ! a)) rest))"

definition rung4_pair :: "sights \<Rightarrow> bool list \<Rightarrow> nat \<Rightarrow> corruptFile list \<Rightarrow> corruptFile list" where
  "rung4_pair si ch variants ms =
     (if anyVerdict ms verdictCorrupt \<or> variants \<noteq> 2 then ms
      else (case representatives ms of
          None \<Rightarrow> ms
        | Some (a, b) \<Rightarrow>
            if cf_evidence (ms ! a) \<noteq> [] \<or> cf_evidence (ms ! b) \<noteq> [] then ms
            else (case si_pair si a b of
                Inr (Some d) \<Rightarrow> judgeShape d a b ch ms
              | _ \<Rightarrow> ms)))"

subsection \<open>What is left\<close>

definition judge_alone :: "bool \<Rightarrow> finding \<Rightarrow> corruptFile \<Rightarrow> corruptFile" where
  "judge_alone changed check m =
     (if cf_verdict m \<noteq> [] \<or> \<not> changed then m
      else (let m = m\<lparr>cf_verdict := verdictUnknown\<rparr> in
        if cf_evidence m \<noteq> [] then m
        else if fst check = Proven
        then m\<lparr>cf_evidence := say historyNote @ say '', but '' @ snd check
               @ say (dash @ ''an edit that preserved the timestamp, not damage'')\<rparr>
        else m\<lparr>cf_evidence := say historyNote
               @ say (dash @ ''this file carries no checksum to tell an edit that kept its timestamp from damage; compare the copies before deleting either'')\<rparr>))"

definition judge_kept :: "finding \<Rightarrow> corruptFile \<Rightarrow> corruptFile" where
  "judge_kept check m =
     (if cf_verdict m = [] \<and> fst check = Proven
      then m\<lparr>cf_verdict := verdictIntact,
             cf_evidence := (if cf_evidence m = [] then snd check @ say '', and another copy in this set is damaged''
                             else cf_evidence m)\<rparr>
      else m)"

definition judge_rest :: "corruptFile \<Rightarrow> corruptFile" where
  "judge_rest m = (if cf_verdict m = [] then m\<lparr>cf_verdict := verdictUnknown\<rparr> else m)"

text \<open>The whole ladder: the members as it leaves them, and whether the scan was stopped on the
  way.\<close>

definition judge_members :: "sights \<Rightarrow> nat \<Rightarrow> corruptFile list \<Rightarrow> corruptFile list \<times> bool" where
  "judge_members si variants ms0 =
     (let ms1 = map judge_read ms0;
          ch = judge_history si ms1;
          (ms3, checks, stopped3) = rung3 si ch 0 ms1
      in if stopped3 then (ms3, True)
         else (let (ms4, stopped4) = (if anyVerdict ms3 verdictCorrupt then (ms3, False)
                                      else past_turns si ch [0..<length ms3] ms3)
               in if stopped4 then (ms4, True)
                  else (let ms5 = rung4_pair si ch variants ms4;
                            ms6 = map (\<lambda>i. judge_alone (ch ! i) (checks ! i) (ms5 ! i)) [0..<length ms5];
                            ms7 = (if anyVerdict ms6 verdictCorrupt
                                   then map (\<lambda>i. judge_kept (checks ! i) (ms6 ! i)) [0..<length ms6] else ms6)
                        in (map judge_rest ms7, False))))"

definition judgeSet :: "sights \<Rightarrow> corruptSet \<Rightarrow> corruptSet \<times> bool" where
  "judgeSet si c =
     (let (ms, stopped) = judge_members si (cs_variants c) (cs_files c) in (c\<lparr>cs_files := ms\<rparr>, stopped))"

subsection \<open>What a verdict may rest on\<close>

text \<open>A member without its verdict, which is all the ladder changes.\<close>

definition core :: "corruptFile \<Rightarrow> corruptFile" where
  "core m = m\<lparr>cf_verdict := [], cf_evidence := []\<rparr>"

definition moved :: "sights \<Rightarrow> corruptFile list \<Rightarrow> nat \<Rightarrow> bool" where
  "moved si ms k \<longleftrightarrow> cf_err (ms ! k) = None \<and> cf_changed (ms ! k) \<and> si_same2 si k"

definition lost_blocks :: "DiffShape \<Rightarrow> bool" where
  "lost_blocks d \<longleftrightarrow> Kind d = Zeros \<or> Kind d = Tail"

text \<open>The positive evidence against member \<open>k\<close>: the drive could not read it; its container is
  damaged while its size and time still stand; the content it moved away from shows zeros or a bit
  flip as the change; or, of two contents, it holds the zeros, or is the side of a bit flip that moved
  under an unchanged time.\<close>

definition positive_evidence :: "sights \<Rightarrow> corruptFile list \<Rightarrow> nat \<Rightarrow> bool" where
  "positive_evidence si ms k \<longleftrightarrow>
     cf_err (ms ! k) = Some EIO
     \<or> cf_err (ms ! k) = None \<and> fst (si_verify si k) = Damaged \<and> si_same3 si k
     \<or> (\<exists>j d. si_past si k j = Inr (Some d) \<and> moved si ms k \<and> cf_hash (ms ! j) = cf_prior (ms ! k)
          \<and> (lost_blocks d \<and> ZeroSide d = 0 \<or> Kind d = Bitflip))
     \<or> (\<exists>a b d. si_pair si a b = Inr (Some d) \<and> lost_blocks d \<and> k = (if ZeroSide d = 1 then b else a))
     \<or> (\<exists>a b d. si_pair si a b = Inr (Some d) \<and> Kind d = Bitflip \<and> (k = a \<or> k = b)
          \<and> moved si ms k \<and> moved si ms a \<noteq> moved si ms b)"

lemma evidence_zeros:
  "si_pair si a b = Inr (Some d) \<Longrightarrow> lost_blocks d \<Longrightarrow> positive_evidence si ms (if ZeroSide d = 1 then b else a)"
  unfolding positive_evidence_def by blast

lemma evidence_flip:
  "si_pair si a b = Inr (Some d) \<Longrightarrow> Kind d = Bitflip \<Longrightarrow> k = a \<or> k = b \<Longrightarrow> moved si ms k
   \<Longrightarrow> moved si ms a \<noteq> moved si ms b \<Longrightarrow> positive_evidence si ms k"
  unfolding positive_evidence_def by blast

text \<open>The same bytes: the member itself, or one whose full content hash is the same.\<close>

definition same_bytes :: "corruptFile list \<Rightarrow> nat \<Rightarrow> nat \<Rightarrow> bool" where
  "same_bytes ms i k \<longleftrightarrow> k = i \<or> cf_hash (ms ! i) \<noteq> [] \<and> cf_hash (ms ! k) = cf_hash (ms ! i)"

definition convicted :: "sights \<Rightarrow> corruptFile list \<Rightarrow> nat \<Rightarrow> bool" where
  "convicted si ms i \<longleftrightarrow> (\<exists>k < length ms. same_bytes ms i k \<and> positive_evidence si ms k)"

definition verdicts :: "gostring set" where
  "verdicts = {[], verdictCorrupt, verdictIntact, verdictUnknown}"

lemma verdict_distinct [simp]:
  "verdictCorrupt \<noteq> []" "verdictIntact \<noteq> []" "verdictUnknown \<noteq> []" "verdictCorrupt \<noteq> verdictIntact"
  "verdictCorrupt \<noteq> verdictUnknown" "verdictIntact \<noteq> verdictUnknown" "verdictIntact \<noteq> verdictCorrupt"
  "verdictUnknown \<noteq> verdictCorrupt" "verdictUnknown \<noteq> verdictIntact"
  "[] \<noteq> verdictCorrupt" "[] \<noteq> verdictIntact" "[] \<noteq> verdictUnknown"
  by (simp_all add: verdictCorrupt_def verdictIntact_def verdictUnknown_def)

definition fair_member :: "sights \<Rightarrow> corruptFile list \<Rightarrow> nat \<Rightarrow> corruptFile \<Rightarrow> bool" where
  "fair_member si ms0 i m \<longleftrightarrow> core m = core (ms0 ! i) \<and> cf_verdict m \<in> verdicts
     \<and> (cf_verdict m = verdictUnknown \<longrightarrow> cf_evidence m \<noteq> [])
     \<and> (cf_verdict m = verdictCorrupt \<longrightarrow> convicted si ms0 i)"

definition fair_set :: "sights \<Rightarrow> corruptFile list \<Rightarrow> corruptFile list \<Rightarrow> bool" where
  "fair_set si ms0 ms \<longleftrightarrow> length ms = length ms0 \<and> (\<forall>i < length ms0. fair_member si ms0 i (ms ! i))"

definition intact_backed :: "corruptFile list \<Rightarrow> bool" where
  "intact_backed ms \<longleftrightarrow> (anyVerdict ms verdictIntact \<longrightarrow> anyVerdict ms verdictCorrupt)"

lemma anyVerdict_nth: "anyVerdict ms v \<longleftrightarrow> (\<exists>i < length ms. cf_verdict (ms ! i) = v)"
  by (simp add: anyVerdict_def list_ex_length)

lemma core_simps [simp]: "core (m\<lparr>cf_verdict := v\<rparr>) = core m" "core (m\<lparr>cf_evidence := e\<rparr>) = core m"
  by (simp_all add: core_def)

lemma core_fields: "cf_hash (core m) = cf_hash m" "cf_err (core m) = cf_err m" "cf_prior (core m) = cf_prior m"
  "cf_changed (core m) = cf_changed m" "cf_f (core m) = cf_f m"
  by (simp_all add: core_def)

lemma core_eqD: "core m = core n \<Longrightarrow> cf_hash m = cf_hash n \<and> cf_err m = cf_err n \<and> cf_prior m = cf_prior n
    \<and> cf_changed m = cf_changed n \<and> cf_f m = cf_f n"
  by (metis core_fields)

lemma fairD:
  assumes "fair_set si ms0 ms" and "i < length ms0"
  shows "cf_hash (ms ! i) = cf_hash (ms0 ! i)" and "cf_err (ms ! i) = cf_err (ms0 ! i)"
    and "cf_prior (ms ! i) = cf_prior (ms0 ! i)" and "length ms = length ms0"
    and "fair_member si ms0 i (ms ! i)"
proof -
  show m: "fair_member si ms0 i (ms ! i)" and "length ms = length ms0" using assms by (simp_all add: fair_set_def)
  then have "core (ms ! i) = core (ms0 ! i)" by (simp add: fair_member_def)
  from core_eqD [OF this] show "cf_hash (ms ! i) = cf_hash (ms0 ! i)" "cf_err (ms ! i) = cf_err (ms0 ! i)"
    "cf_prior (ms ! i) = cf_prior (ms0 ! i)" by simp_all
qed

subsection \<open>Marking a member and its twins\<close>

lemma length_jwt [simp]: "length (judgeWithTwins i v e ms) = length ms"
  by (simp add: judgeWithTwins_def Let_def)

lemma jwt_nth:
  assumes "i < length ms" and "k < length ms"
  shows "judgeWithTwins i v e ms ! k =
    (if cf_verdict (ms ! k) = [] \<and> (k = i \<or> cf_hash (ms ! i) \<noteq> [] \<and> cf_err (ms ! k) = None
          \<and> cf_hash (ms ! k) = cf_hash (ms ! i))
     then (ms ! k)\<lparr>cf_verdict := v, cf_evidence := e\<rparr> else ms ! k)"
  using assms by (auto simp: judgeWithTwins_def Let_def unjudged_twin_def nth_list_update)

lemma jwt_keeps: "i < length ms \<Longrightarrow> k < length ms \<Longrightarrow> cf_verdict (ms ! k) \<noteq> [] \<Longrightarrow> judgeWithTwins i v e ms ! k = ms ! k"
  by (simp add: jwt_nth)

lemma jwt_core: "i < length ms \<Longrightarrow> k < length ms \<Longrightarrow> core (judgeWithTwins i v e ms ! k) = core (ms ! k)"
  by (simp add: jwt_nth)

lemma jwt_self: "i < length ms \<Longrightarrow> cf_verdict (ms ! i) = [] \<Longrightarrow> cf_verdict (judgeWithTwins i v e ms ! i) = v"
  by (simp add: jwt_nth)

lemma jwt_fair:
  assumes ms: "fair_set si ms0 ms" and i: "i < length ms0"
    and v: "v \<in> {[], verdictIntact, verdictCorrupt}"
    and ev: "v = verdictCorrupt \<Longrightarrow> cf_verdict (ms ! i) = [] \<Longrightarrow> positive_evidence si ms0 i"
    and go: "v = verdictCorrupt \<Longrightarrow> cf_verdict (ms ! i) = []"
  shows "fair_set si ms0 (judgeWithTwins i v e ms)"
  unfolding fair_set_def
proof (intro conjI allI impI)
  note len = fairD(4) [OF ms i]
  then show "length (judgeWithTwins i v e ms) = length ms0" by simp
  fix k assume k: "k < length ms0"
  let ?m = "ms ! k"
  show "fair_member si ms0 k (judgeWithTwins i v e ms ! k)"
  proof (cases "cf_verdict ?m = [] \<and> (k = i \<or> cf_hash (ms ! i) \<noteq> [] \<and> cf_err ?m = None \<and> cf_hash ?m = cf_hash (ms ! i))")
    case True
    then have eq: "judgeWithTwins i v e ms ! k = ?m\<lparr>cf_verdict := v, cf_evidence := e\<rparr>"
      using i k len by (simp add: jwt_nth)
    have tw: "same_bytes ms0 k i"
      using True fairD(1) [OF ms i] fairD(1) [OF ms k] by (auto simp: same_bytes_def)
    have "convicted si ms0 k" if "v = verdictCorrupt"
      using tw ev [OF that go [OF that]] i by (auto simp: convicted_def)
    then show ?thesis using fairD(5) [OF ms k] v by (auto simp: fair_member_def eq verdicts_def)
  next
    case False
    then have "judgeWithTwins i v e ms ! k = ?m" using i k len by (auto simp: jwt_nth)
    then show ?thesis using fairD(5) [OF ms k] by simp
  qed
qed

lemma jwt_corrupt_stays:
  assumes "i < length ms" and "anyVerdict ms verdictCorrupt"
  shows "anyVerdict (judgeWithTwins i v e ms) verdictCorrupt"
proof -
  obtain k where k: "k < length ms" "cf_verdict (ms ! k) = verdictCorrupt"
    using assms(2) by (auto simp: anyVerdict_nth)
  then have "judgeWithTwins i v e ms ! k = ms ! k" using assms(1) by (intro jwt_keeps) simp_all
  then show ?thesis using k by (auto simp: anyVerdict_nth)
qed

lemma jwt_convicts:
  assumes "i < length ms" and "cf_verdict (ms ! i) = []"
  shows "anyVerdict (judgeWithTwins i verdictCorrupt e ms) verdictCorrupt"
  using assms jwt_self [OF assms] by (auto simp: anyVerdict_nth)

lemma jwt_backed_note:
  assumes "i < length ms" and "intact_backed ms" and "v \<noteq> verdictIntact"
  shows "intact_backed (judgeWithTwins i v e ms)"
proof -
  have "anyVerdict ms verdictIntact" if "anyVerdict (judgeWithTwins i v e ms) verdictIntact"
    using that assms(1,3) by (auto simp: anyVerdict_nth jwt_nth split: if_splits)
  then show ?thesis using assms jwt_corrupt_stays by (auto simp: intact_backed_def)
qed

lemma backed_of_corrupt: "anyVerdict ms verdictCorrupt \<Longrightarrow> intact_backed ms"
  by (simp add: intact_backed_def)

subsection \<open>The first three rungs\<close>

definition fresh :: "corruptFile list \<Rightarrow> bool" where
  "fresh ms \<longleftrightarrow> (\<forall>m \<in> set ms. cf_verdict m = [] \<and> cf_evidence m = [])"

lemma judge_read_fair:
  assumes "fresh ms0"
  shows "fair_set si ms0 (map judge_read ms0)" and "\<not> anyVerdict (map judge_read ms0) verdictIntact"
proof -
  have one: "fair_member si ms0 i (judge_read (ms0 ! i)) \<and> cf_verdict (judge_read (ms0 ! i)) \<noteq> verdictIntact"
    if i: "i < length ms0" for i
  proof -
    have f: "cf_verdict (ms0 ! i) = []" using assms i by (simp add: fresh_def)
    have "convicted si ms0 i" if "cf_err (ms0 ! i) = Some EIO"
      using that i by (auto simp: convicted_def same_bytes_def positive_evidence_def)
    then show ?thesis using f
      by (auto simp: judge_read_def fair_member_def verdicts_def split: option.splits rerr.splits)
  qed
  then show "fair_set si ms0 (map judge_read ms0)" "\<not> anyVerdict (map judge_read ms0) verdictIntact"
    by (auto simp: fair_set_def anyVerdict_nth)
qed

lemma judge_read_verdict: "cf_verdict m = [] \<Longrightarrow> cf_verdict (judge_read m) = [] \<longleftrightarrow> cf_err m = None"
  by (auto simp: judge_read_def split: option.splits rerr.splits)

lemma history_moved:
  assumes "fresh ms0" and "k < length ms0"
  shows "judge_history si (map judge_read ms0) ! k \<longleftrightarrow> moved si ms0 k"
proof -
  have "cf_verdict (ms0 ! k) = []" using assms by (simp add: fresh_def)
  moreover have "cf_changed (judge_read m) = cf_changed m" for m
    by (simp add: judge_read_def split: option.splits rerr.splits)
  ultimately show ?thesis using assms(2) judge_read_verdict
    by (simp add: judge_history_def moved_def conj_commute conj_left_commute)
qed

lemma judge_container_fair:
  assumes "fair_member si ms0 i m" and "i < length ms0" and "cf_err (ms0 ! i) = None"
  shows "fair_member si ms0 i (judge_container si ch i m)"
    and "cf_verdict (judge_container si ch i m) = verdictIntact \<longleftrightarrow> cf_verdict m = verdictIntact"
proof -
  have "convicted si ms0 i" if "fst (si_verify si i) = Damaged" "si_same3 si i"
    using that assms(2,3) by (auto simp: convicted_def same_bytes_def positive_evidence_def)
  then show "fair_member si ms0 i (judge_container si ch i m)"
    "cf_verdict (judge_container si ch i m) = verdictIntact \<longleftrightarrow> cf_verdict m = verdictIntact"
    using assms(1) by (auto simp: judge_container_def fair_member_def verdicts_def split: prod.splits)
qed

lemma rung3_nth:
  assumes "rung3 si ch i ms = (fs, ps, b)" and "k < length ms"
  shows "length fs = length ms \<and> (fs ! k = ms ! k
    \<or> cf_err (ms ! k) = None \<and> fs ! k = judge_container si ch (i + k) (ms ! k))"
  using assms
proof (induction ms arbitrary: i k fs ps b)
  case (Cons m ms)
  show ?case
  proof (cases "si_stop si i \<or> cf_err m = None \<and> si_stopped si i")
    case True
    then show ?thesis using Cons.prems by (auto split: if_splits)
  next
    case False
    obtain fs' ps' b' where r: "rung3 si ch (i + 1) ms = (fs', ps', b')" by (cases "rung3 si ch (i + 1) ms")
    have len: "length fs' = length ms"
      using Cons.IH [OF r, of 0] r by (cases ms) auto
    show ?thesis
    proof (cases k)
      case 0
      then show ?thesis using Cons.prems(1) False r len by (auto split: if_splits)
    next
      case (Suc j)
      then show ?thesis using Cons.IH [OF r, of j] Cons.prems False r by (auto split: if_splits)
    qed
  qed
qed simp

lemma rung3_checks: "rung3 si ch i ms = (fs, ps, False) \<Longrightarrow> length ps = length ms"
proof (induction ms arbitrary: i fs ps)
  case (Cons m ms)
  then show ?case by (auto split: if_splits prod.splits)
qed simp

lemma rung3_fair:
  assumes f: "fair_set si ms0 ms" and r: "rung3 si ch 0 ms = (fs, ps, b)"
    and no: "\<not> anyVerdict ms verdictIntact"
  shows "fair_set si ms0 fs" and "\<not> anyVerdict fs verdictIntact"
proof -
  have len: "length ms = length ms0" using f by (simp add: fair_set_def)
  have lf: "length fs = length ms0"
    using rung3_nth [OF r, of 0] r len by (cases ms) auto
  have one: "fair_member si ms0 k (fs ! k) \<and> cf_verdict (fs ! k) \<noteq> verdictIntact" if k: "k < length ms0" for k
  proof -
    have v: "cf_verdict (ms ! k) \<noteq> verdictIntact" using no k len by (auto simp: anyVerdict_nth)
    consider "fs ! k = ms ! k" | "cf_err (ms ! k) = None" "fs ! k = judge_container si ch k (ms ! k)"
      using rung3_nth [OF r, of k] k len by auto
    then show ?thesis
    proof cases
      case 1
      then show ?thesis using fairD(5) [OF f k] v by simp
    next
      case 2
      then show ?thesis using judge_container_fair [OF fairD(5) [OF f k] k] fairD(2) [OF f k] v by simp
    qed
  qed
  then show "fair_set si ms0 fs" "\<not> anyVerdict fs verdictIntact"
    using lf by (auto simp: fair_set_def anyVerdict_nth)
qed

subsection \<open>The shape of a difference\<close>

lemma judgePast_fair:
  assumes f: "fair_set si ms0 ms" and i: "i < length ms0" and j: "j < length ms0"
    and d: "si_past si i j = Inr (Some d)" and m: "moved si ms0 i" and v: "cf_verdict (ms ! i) = []"
    and h: "cf_hash (ms0 ! j) = cf_prior (ms0 ! i)"
  shows "fair_set si ms0 (judgePast d i j ms)"
proof -
  have ev: "positive_evidence si ms0 i" if "lost_blocks d \<and> ZeroSide d = 0 \<or> Kind d = Bitflip"
    using that d m h by (auto simp: positive_evidence_def)
  have c: "fair_set si ms0 (judgeWithTwins i verdictCorrupt e ms)" if "lost_blocks d \<and> ZeroSide d = 0 \<or> Kind d = Bitflip" for e
    using jwt_fair [OF f i, of verdictCorrupt e] ev that v by simp
  have k: "fair_set si ms0 (judgeWithTwins j verdictIntact e' (judgeWithTwins i verdictCorrupt e ms))"
    if "lost_blocks d \<and> ZeroSide d = 0 \<or> Kind d = Bitflip" for e e'
    using jwt_fair [OF c [OF that] j, of verdictIntact] by simp
  have n: "fair_set si ms0 (judgeWithTwins i [] e ms)" for e
    using jwt_fair [OF f i, of "[]" e] by simp
  show ?thesis using k n by (simp add: judgePast_def Let_def lost_blocks_def)
qed

lemma judgePast_backed:
  assumes "i < length ms" and "j < length ms" and "cf_verdict (ms ! i) = []" and "intact_backed ms"
  shows "intact_backed (judgePast d i j ms)"
proof -
  have "anyVerdict (judgeWithTwins j verdictIntact e' (judgeWithTwins i verdictCorrupt e ms)) verdictCorrupt" for e e'
    using assms by (intro jwt_corrupt_stays jwt_convicts) simp_all
  moreover have "intact_backed (judgeWithTwins i [] e ms)" for e
    using jwt_backed_note [OF assms(1,4), of "[]"] by simp
  ultimately show ?thesis by (simp add: judgePast_def Let_def backed_of_corrupt)
qed

lemma past_twinD:
  assumes "past_twin ms i = Some j"
  shows "j < length ms" and "cf_hash (ms ! j) = cf_prior (ms ! i)"
  using assms by (auto simp: past_twin_def find_Some_iff)

lemma past_turn_fair:
  assumes f: "fair_set si ms0 ms" and b: "intact_backed ms" and i: "i < length ms0"
    and ch: "ch ! i \<longleftrightarrow> moved si ms0 i" and t: "past_turn si ch i ms = Some ms'"
  shows "fair_set si ms0 ms' \<and> intact_backed ms'"
proof (cases "ms' = ms")
  case False
  note len = fairD(4) [OF f i]
  obtain j d where j: "past_twin ms i = Some j" and d: "si_past si i j = Inr (Some d)"
    and go: "ch ! i" "cf_verdict (ms ! i) = []" and ms': "ms' = judgePast d i j ms"
    using t False by (auto simp: past_turn_def split: if_splits option.splits sum.splits)
  have jl: "j < length ms0" using past_twinD(1) [OF j] len by simp
  have h: "cf_hash (ms0 ! j) = cf_prior (ms0 ! i)"
    using past_twinD(2) [OF j] fairD(1) [OF f jl] fairD(3) [OF f i] by simp
  show ?thesis unfolding ms'
    using judgePast_fair [OF f i jl d _ go(2) h] judgePast_backed [of i ms j d] go ch i jl b len by simp
qed (use f b in simp)

lemma past_turns_fair:
  assumes "fair_set si ms0 ms" and "intact_backed ms" and "\<forall>i \<in> set xs. i < length ms0 \<and> (ch ! i \<longleftrightarrow> moved si ms0 i)"
    and "past_turns si ch xs ms = (ms', b)"
  shows "fair_set si ms0 ms' \<and> intact_backed ms'"
  using assms
proof (induction xs arbitrary: ms)
  case (Cons i rest)
  show ?case
  proof (cases "past_turn si ch i ms")
    case None
    then show ?thesis using Cons.prems by simp
  next
    case (Some ms1)
    have "fair_set si ms0 ms1 \<and> intact_backed ms1"
      using past_turn_fair [OF Cons.prems(1,2) _ _ Some] Cons.prems(3) by simp
    moreover have "past_turns si ch rest ms1 = (ms', b)" using Cons.prems(4) Some by simp
    ultimately show ?thesis using Cons.IH [of ms1] Cons.prems(3) by simp
  qed
qed simp

lemma representativesD:
  assumes "representatives ms = Some (a, b)"
  shows "a < length ms" and "b < length ms" and "a \<noteq> b"
proof -
  obtain rest where f: "filter (\<lambda>i. can_represent (ms ! i)) [0..<length ms] = a # rest"
    and b: "find (\<lambda>i. cf_hash (ms ! i) \<noteq> cf_hash (ms ! a)) rest = Some b"
    using assms by (auto simp: representatives_def split: list.splits)
  have bs: "b \<in> set rest" "cf_hash (ms ! b) \<noteq> cf_hash (ms ! a)" using b by (auto simp: find_Some_iff)
  have "set (a # rest) \<subseteq> {0..<length ms}" unfolding f [symmetric] by auto
  then show "a < length ms" "b < length ms" using bs by auto
  show "a \<noteq> b" using bs by auto
qed

text \<open>With nothing convicted yet, a member without evidence is a member without a verdict.\<close>

lemma open_verdict:
  assumes "fair_set si ms0 ms" and "intact_backed ms" and "\<not> anyVerdict ms verdictCorrupt"
    and "k < length ms0" and "cf_evidence (ms ! k) = []"
  shows "cf_verdict (ms ! k) = []"
proof -
  have "\<not> anyVerdict ms verdictIntact" using assms(2,3) by (simp add: intact_backed_def)
  then show ?thesis
    using assms(3,4,5) fairD(5) [OF assms(1,4)] fairD(4) [OF assms(1,4)]
    by (auto simp: fair_member_def verdicts_def anyVerdict_nth)
qed

lemma jwt_open:
  assumes "a < length ms" and "b < length ms" and "cf_verdict (ms ! b) = []"
  shows "cf_verdict (judgeWithTwins a [] e ms ! b) = []"
  using assms by (simp add: jwt_nth)

lemma two_notes_fair:
  assumes f: "fair_set si ms0 ms" and b: "intact_backed ms" and i: "i < length ms0" and j: "j < length ms0"
  shows "fair_set si ms0 (judgeWithTwins j [] e' (judgeWithTwins i [] e ms))
    \<and> intact_backed (judgeWithTwins j [] e' (judgeWithTwins i [] e ms))"
proof -
  have len: "length ms = length ms0" using f by (simp add: fair_set_def)
  have one: "fair_set si ms0 (judgeWithTwins i [] e ms)" using jwt_fair [OF f i, of "[]" e] by simp
  have "intact_backed (judgeWithTwins i [] e ms)" using jwt_backed_note [of i ms "[]" e] b i len by simp
  then have "intact_backed (judgeWithTwins j [] e' (judgeWithTwins i [] e ms))"
    using jwt_backed_note [of j "judgeWithTwins i [] e ms" "[]" e'] j len by simp
  then show ?thesis using jwt_fair [OF one j, of "[]" e'] by simp
qed

text \<open>A conviction followed by what the other side is then called.\<close>

lemma convict_then_fair:
  assumes f: "fair_set si ms0 ms" and i: "i < length ms0" and j: "j < length ms0"
    and open_i: "cf_verdict (ms ! i) = []" and ev: "positive_evidence si ms0 i"
    and v: "v = [] \<or> v = verdictIntact"
  shows "fair_set si ms0 (judgeWithTwins j v e' (judgeWithTwins i verdictCorrupt e ms))
    \<and> intact_backed (judgeWithTwins j v e' (judgeWithTwins i verdictCorrupt e ms))"
proof -
  have len: "length ms = length ms0" using f by (simp add: fair_set_def)
  have one: "fair_set si ms0 (judgeWithTwins i verdictCorrupt e ms)"
    using jwt_fair [OF f i, of verdictCorrupt e] ev open_i by simp
  have "anyVerdict (judgeWithTwins j v e' (judgeWithTwins i verdictCorrupt e ms)) verdictCorrupt"
    using i j len open_i by (intro jwt_corrupt_stays jwt_convicts) simp_all
  then show ?thesis using jwt_fair [OF one j, of v e'] v backed_of_corrupt by auto
qed

lemma judgeShape_fair:
  assumes f: "fair_set si ms0 ms" and b: "intact_backed ms" and a: "a < length ms0" and bl: "b' < length ms0"
    and d: "si_pair si a b' = Inr (Some d)"
    and ch: "ch ! a \<longleftrightarrow> moved si ms0 a" "ch ! b' \<longleftrightarrow> moved si ms0 b'"
    and oa: "cf_verdict (ms ! a) = []" and ob: "cf_verdict (ms ! b') = []"
  shows "fair_set si ms0 (judgeShape d a b' ch ms) \<and> intact_backed (judgeShape d a b' ch ms)"
proof -
  consider "lost_blocks d" | "Kind d = Bitflip" "ch ! a = ch ! b'" | "Kind d = Bitflip" "ch ! a \<noteq> ch ! b'"
    | "Kind d = Mixed"
    by (cases "Kind d") (auto simp: lost_blocks_def)
  then show ?thesis
  proof cases
    case 1
    let ?l = "if ZeroSide d = 1 then b' else a" and ?k = "if ZeroSide d = 1 then a else b'"
    have "positive_evidence si ms0 ?l" by (rule evidence_zeros [OF d 1])
    then show ?thesis
      using convict_then_fair [OF f, of ?l ?k verdictIntact] a bl oa ob 1
      by (auto simp: judgeShape_def lost_blocks_def Let_def split: if_splits)
  next
    case 2
    then show ?thesis using two_notes_fair [OF f b a bl] by (simp add: judgeShape_def)
  next
    case 3
    let ?r = "if ch ! b' then b' else a" and ?o = "if ch ! b' then a else b'"
    have "positive_evidence si ms0 ?r"
      by (rule evidence_flip [OF d 3(1)]) (use 3(2) ch in auto)
    then have c: "v = [] \<or> v = verdictIntact \<Longrightarrow>
        fair_set si ms0 (judgeWithTwins ?o v e' (judgeWithTwins ?r verdictCorrupt e ms))
        \<and> intact_backed (judgeWithTwins ?o v e' (judgeWithTwins ?r verdictCorrupt e ms))" for v e e'
      using convict_then_fair [OF f, of ?r ?o v e' e] a bl oa ob by (auto split: if_splits)
    show ?thesis using 3 c [of verdictIntact] c [of "[]"] by (simp add: judgeShape_def Let_def)
  next
    case 4
    then show ?thesis using two_notes_fair [OF f b a bl] by (simp add: judgeShape_def Let_def)
  qed
qed

lemma rung4_pair_fair:
  assumes f: "fair_set si ms0 ms" and b: "intact_backed ms"
    and ch: "\<And>k. k < length ms0 \<Longrightarrow> ch ! k \<longleftrightarrow> moved si ms0 k"
  shows "fair_set si ms0 (rung4_pair si ch variants ms) \<and> intact_backed (rung4_pair si ch variants ms)"
proof (cases "rung4_pair si ch variants ms = ms")
  case False
  obtain a b' d where none: "\<not> anyVerdict ms verdictCorrupt" and rp: "representatives ms = Some (a, b')"
    and e: "cf_evidence (ms ! a) = []" "cf_evidence (ms ! b') = []" and d: "si_pair si a b' = Inr (Some d)"
    and eq: "rung4_pair si ch variants ms = judgeShape d a b' ch ms"
    using False by (auto simp: rung4_pair_def split: if_splits option.splits sum.splits prod.splits)
  have len: "length ms = length ms0" using f by (simp add: fair_set_def)
  note r = representativesD [OF rp, unfolded len]
  show ?thesis unfolding eq
    by (rule judgeShape_fair [OF f b r(1,2) d ch [OF r(1)] ch [OF r(2)]
      open_verdict [OF f b none r(1) e(1)] open_verdict [OF f b none r(2) e(2)]])
qed (use f b in simp)

subsection \<open>The ladder as a whole\<close>

lemma judge_alone_fair:
  assumes "fair_member si ms0 i m"
  shows "fair_member si ms0 i (judge_alone c p m)"
    and "cf_verdict m \<noteq> [] \<Longrightarrow> judge_alone c p m = m"
    and "cf_verdict (judge_alone c p m) = verdictIntact \<longleftrightarrow> cf_verdict m = verdictIntact"
  using assms by (auto simp: judge_alone_def fair_member_def verdicts_def say_def Let_def)

lemma judge_kept_fair:
  assumes "fair_member si ms0 i m"
  shows "fair_member si ms0 i (judge_kept p m)" and "cf_verdict m \<noteq> [] \<Longrightarrow> judge_kept p m = m"
  using assms by (auto simp: judge_kept_def fair_member_def verdicts_def)

lemma fair_map:
  assumes "fair_set si ms0 ms" and "\<And>i. i < length ms0 \<Longrightarrow> fair_member si ms0 i (g i (ms ! i))"
  shows "fair_set si ms0 (map (\<lambda>i. g i (ms ! i)) [0..<length ms])"
  using assms by (auto simp: fair_set_def)

lemma corrupt_map:
  assumes "anyVerdict ms verdictCorrupt"
    and "\<And>i. i < length ms \<Longrightarrow> cf_verdict (ms ! i) \<noteq> [] \<Longrightarrow> g i (ms ! i) = ms ! i"
  shows "anyVerdict (map (\<lambda>i. g i (ms ! i)) [0..<length ms]) verdictCorrupt"
proof -
  obtain k where k: "k < length ms" "cf_verdict (ms ! k) = verdictCorrupt" using assms(1) by (auto simp: anyVerdict_nth)
  then have "g k (ms ! k) = ms ! k" using assms(2) by simp
  then show ?thesis using k by (auto simp: anyVerdict_nth)
qed

text \<open>The members before the last step.\<close>

lemma judged_fair:
  assumes fr: "fresh ms0" and j: "judge_members si variants ms0 = (ms', b)"
  shows "\<exists>ms. fair_set si ms0 ms \<and> intact_backed ms \<and> ms' = (if b then ms else map judge_rest ms)"
proof -
  let ?ms1 = "map judge_read ms0"
  define ch where "ch = judge_history si ?ms1"
  note f1 = judge_read_fair [OF fr]
  obtain ms3 ps b3 where r3: "rung3 si ch 0 ?ms1 = (ms3, ps, b3)" by (cases "rung3 si ch 0 ?ms1")
  note f3 = rung3_fair [OF f1(1) r3 f1(2)]
  then have b3': "intact_backed ms3" by (simp add: intact_backed_def)
  have l3: "length ms3 = length ms0" using f3(1) by (simp add: fair_set_def)
  have chm: "ch ! k \<longleftrightarrow> moved si ms0 k" if "k < length ms0" for k
    unfolding ch_def by (rule history_moved [OF fr that])
  note j1 = j [unfolded judge_members_def Let_def, folded ch_def, unfolded r3 prod.case]
  show ?thesis
  proof (cases b3)
    case True
    then show ?thesis using j1 f3(1) b3' by auto
  next
    case False
    define past where "past = (if anyVerdict ms3 verdictCorrupt then (ms3, False) else past_turns si ch [0..<length ms3] ms3)"
    obtain ms4 b4 where p: "past = (ms4, b4)" by (cases past)
    have f4: "fair_set si ms0 ms4 \<and> intact_backed ms4"
      using p f3(1) b3' past_turns_fair [OF f3(1) b3', of "[0..<length ms3]" ch ms4 b4] chm l3
      by (auto simp: past_def split: if_splits)
    note j2 = j1 [folded past_def, unfolded p prod.case]
    show ?thesis
    proof (cases b4)
      case True
      then show ?thesis using j2 False f4 by auto
    next
      case no: False
      define ms5 where "ms5 = rung4_pair si ch variants ms4"
      have f5: "fair_set si ms0 ms5" "intact_backed ms5"
        using rung4_pair_fair [of si ms0 ms4 ch variants] f4 chm by (auto simp: ms5_def)
      define ms6 where "ms6 = map (\<lambda>i. judge_alone (ch ! i) (ps ! i) (ms5 ! i)) [0..<length ms5]"
      define ms7 where "ms7 = (if anyVerdict ms6 verdictCorrupt
        then map (\<lambda>i. judge_kept (ps ! i) (ms6 ! i)) [0..<length ms6] else ms6)"
      have l5: "length ms5 = length ms0" using f5 by (simp add: fair_set_def)
      note m5 = fairD(5) [OF f5(1)]
      have f6: "fair_set si ms0 ms6" unfolding ms6_def
        by (rule fair_map [OF f5(1)]) (rule judge_alone_fair(1) [OF m5])
      have int6: "anyVerdict ms6 verdictIntact \<longleftrightarrow> anyVerdict ms5 verdictIntact"
      proof -
        have "cf_verdict (ms6 ! i) = verdictIntact \<longleftrightarrow> cf_verdict (ms5 ! i) = verdictIntact" if "i < length ms0" for i
          using judge_alone_fair(3) [OF m5 [OF that], of "ch ! i" "ps ! i"] that l5 by (simp add: ms6_def)
        then show ?thesis using l5 by (auto simp: anyVerdict_nth ms6_def)
      qed
      have "anyVerdict ms6 verdictCorrupt" if "anyVerdict ms5 verdictCorrupt"
        unfolding ms6_def using judge_alone_fair(2) [OF m5] l5 by (intro corrupt_map [OF that]) simp
      then have b6: "intact_backed ms6" using int6 f5(2) by (auto simp: intact_backed_def)
      have l6: "length ms6 = length ms0" by (simp add: ms6_def l5)
      note m6 = fairD(5) [OF f6]
      have f7: "fair_set si ms0 ms7"
        using f6 fair_map [OF f6, of "\<lambda>i. judge_kept (ps ! i)"] judge_kept_fair(1) [OF m6]
        by (auto simp: ms7_def)
      have "intact_backed ms7"
      proof (cases "anyVerdict ms6 verdictCorrupt")
        case True
        have "anyVerdict (map (\<lambda>i. judge_kept (ps ! i) (ms6 ! i)) [0..<length ms6]) verdictCorrupt"
          using judge_kept_fair(2) [OF m6] l6 by (intro corrupt_map [OF True]) simp
        then show ?thesis using True by (simp add: ms7_def backed_of_corrupt)
      qed (simp add: ms7_def b6)
      moreover have "ms' = map judge_rest ms7" "\<not> b"
        using j2 [folded ms5_def, folded ms6_def, folded ms7_def] False no by simp_all
      ultimately show ?thesis using f7 by auto
    qed
  qed
qed

text \<open>C20. Every member of a conflicting set is judged, nothing about it but its verdict is
  touched, and a conviction always rests on positive evidence against these very bytes: a read the
  drive failed, a container damaged while the file still stood as the scan saw it, zeros where the
  other copy holds data, or a bit flip on the side that moved under an unchanged time.  History alone
  never convicts.\<close>

theorem judged_on_evidence:
  assumes "fresh ms0" and "judge_members si variants ms0 = (ms', False)"
  shows "length ms' = length ms0 \<and> (\<forall>i < length ms0. core (ms' ! i) = core (ms0 ! i)
    \<and> cf_verdict (ms' ! i) \<in> {verdictCorrupt, verdictIntact, verdictUnknown}
    \<and> (cf_verdict (ms' ! i) = verdictCorrupt \<longrightarrow> convicted si ms0 i))"
proof -
  obtain ms where f: "fair_set si ms0 ms" and ms': "ms' = map judge_rest ms"
    using judged_fair [OF assms] by auto
  have len: "length ms = length ms0" using f by (simp add: fair_set_def)
  have "core (ms' ! i) = core (ms0 ! i) \<and> cf_verdict (ms' ! i) \<in> {verdictCorrupt, verdictIntact, verdictUnknown}
    \<and> (cf_verdict (ms' ! i) = verdictCorrupt \<longrightarrow> convicted si ms0 i)" if i: "i < length ms0" for i
    using fairD(5) [OF f i] len i by (auto simp: ms' judge_rest_def fair_member_def verdicts_def)
  then show ?thesis using len by (simp add: ms')
qed

text \<open>A copy is called intact only in a set where another copy is called damaged, at every
  point where the ladder can end, a stop included.\<close>

theorem intact_needs_damage:
  assumes "fresh ms0" and "judge_members si variants ms0 = (ms', b)" and "anyVerdict ms' verdictIntact"
  shows "anyVerdict ms' verdictCorrupt"
proof -
  obtain ms where ib: "intact_backed ms" and ms': "ms' = (if b then ms else map judge_rest ms)"
    using judged_fair [OF assms(1,2)] by auto
  have "anyVerdict (map judge_rest ms) v \<longleftrightarrow> anyVerdict ms v" if "v \<in> {verdictIntact, verdictCorrupt}" for v
    using that by (auto simp: anyVerdict_nth judge_rest_def split: if_splits)
  then show ?thesis using ib assms(3) by (auto simp: ms' intact_backed_def split: if_splits)
qed

subsection \<open>A set with one unreadable copy\<close>

definition two_copies :: "corruptFile list" where
  "two_copies = [zero_corruptFile\<lparr>cf_err := Some EIO\<rparr>, zero_corruptFile\<lparr>cf_hash := ''h''\<rparr>]"

definition quiet_sights :: sights where
  "quiet_sights = \<lparr>si_same2 = (\<lambda>_. False), si_verify = (\<lambda>i. if i = 1 then (Proven, []) else (Unproven, [])),
     si_same3 = (\<lambda>_. True), si_past = (\<lambda>_ _. Inl ()), si_pair = (\<lambda>_ _. Inl ()), si_stop = (\<lambda>_. False),
     si_stopped = (\<lambda>_. False), si_stop_past = (\<lambda>_ _. False)\<rparr>"

lemma two_copies_judged:
  "map cf_verdict (fst (judge_members quiet_sights 2 two_copies)) = [verdictCorrupt, verdictIntact]
   \<and> \<not> snd (judge_members quiet_sights 2 two_copies) \<and> fresh two_copies"
  by code_simp

theorem judged_on_evidence_witness:
  "convicted quiet_sights two_copies 0"
proof -
  let ?r = "judge_members quiet_sights 2 two_copies"
  have "\<not> snd ?r" "fresh two_copies" using two_copies_judged by simp_all
  then have *: "judge_members quiet_sights 2 two_copies = (fst ?r, False)" by (metis prod.collapse)
  have "map cf_verdict (fst ?r) ! 0 = verdictCorrupt" using two_copies_judged by simp
  moreover have "length (fst ?r) = length two_copies" using judged_on_evidence [OF \<open>fresh two_copies\<close> *] by simp
  ultimately show ?thesis using judged_on_evidence [OF \<open>fresh two_copies\<close> *] by (auto simp: two_copies_def)
qed

theorem intact_needs_damage_witness:
  "anyVerdict (fst (judge_members quiet_sights 2 two_copies)) verdictCorrupt"
proof -
  have "anyVerdict (fst (judge_members quiet_sights 2 two_copies)) verdictIntact" by code_simp
  then show ?thesis
    using intact_needs_damage [of two_copies quiet_sights 2] two_copies_judged by (metis prod.collapse)
qed

end
