(* ===== verification/CorruptWindow.thy ===== *)
theory CorruptWindow
  imports JudgeSet HashStore
begin

text \<open>
  One window of the corrupted-files pass: \<open>corruptWindow\<close> and \<open>hashMembers\<close> of
  \<open>server/corrupt.go\<close>.  A window is bucketed by its exact (size, time) key, the 64 KiB prefix of
  every member of a family is read, families that agree so far are read in full (the hash store answers
  what this scan already read), and the families that disagree become sets.  What a read of a file
  gives, a hash or an error, is record \<open>creads\<close>; the workers and the loops over maps run in any
  order.  The main result is that the sets of a window are exactly its families whose members do not
  all hold the same bytes.
\<close>

record creads =
  cr_pfx :: "fEnt \<Rightarrow> rerr + gostring"
  cr_full :: "fEnt \<Rightarrow> rerr + gostring"

record corders =
  co_fams :: "nat list reorder"
  co_work :: "nat reorder"
  co_store :: "(key \<times> hcEnt) reorder"

definition unix :: "fEnt \<Rightarrow> int" where
  "unix f = unix_of (f_mod f)"

subsection \<open>Families\<close>

definition keyOf :: "fEnt \<Rightarrow> gostring" where
  "keyOf f = itoa (f_size f) @ ''|'' @ itoa (unix f)"

definition byKey :: "fEnt list \<Rightarrow> nat list list" where
  "byKey files =
     (let idxs = filter (\<lambda>i. \<not> (f_isDir (files ! i) \<or> f_size (files ! i) = 0)) [0..<length files];
          buckets = map (\<lambda>k. filter (\<lambda>i. keyOf (files ! i) = k) idxs) (remdups (map (\<lambda>i. keyOf (files ! i)) idxs))
      in filter (\<lambda>idx. \<not> length idx < 2) buckets)"

subsection \<open>Phase A\<close>

definition phaseA ::
  "(gostring \<Rightarrow> gostring) \<Rightarrow> creads \<Rightarrow> (path \<rightharpoonup> gostring) \<Rightarrow> hashCache option \<Rightarrow> fEnt \<Rightarrow> corruptFile" where
  "phaseA b3 rd rotd hc f =
     (let e = zero_corruptFile\<lparr>cf_f := f\<rparr> in
      case cr_pfx rd f of
        Inl er \<Rightarrow> e\<lparr>cf_err := Some er\<rparr>
      | Inr p \<Rightarrow>
          (let e1 = e\<lparr>cf_pfx := p\<rparr> in
           case rotd (f_path f) of
             Some prior \<Rightarrow> e1\<lparr>cf_changed := True, cf_prior := prior\<rparr>
           | None \<Rightarrow>
               (case priorContentChanged b3 hc (f_path f) (f_size f) (unix f) p of
                  Some prior \<Rightarrow> e1\<lparr>cf_changed := True, cf_prior := prior\<rparr>
                | None \<Rightarrow> e1)))"

subsection \<open>Full hashes\<close>

text \<open>One turn of a worker.\<close>

definition hashMember ::
  "cacheSizes \<Rightarrow> (key \<times> hcEnt) reorder \<Rightarrow> (gostring \<Rightarrow> gostring) \<Rightarrow> creads \<Rightarrow> corruptFile \<Rightarrow> hashCache option
    \<Rightarrow> corruptFile \<times> hashCache option" where
  "hashMember z ord b3 rd e hc =
     (if cf_err e \<noteq> None \<or> cf_hash e \<noteq> [] then (e, hc)
      else case lookup b3 hc (f_path (cf_f e)) (f_size (cf_f e)) (unix (cf_f e)) (cf_pfx e) of
        Some full \<Rightarrow> (e\<lparr>cf_hash := full\<rparr>, hc)
      | None \<Rightarrow>
          (case cr_full rd (cf_f e) of
             Inl er \<Rightarrow> (e\<lparr>cf_err := Some er\<rparr>, hc)
           | Inr h \<Rightarrow>
               (let e1 = e\<lparr>cf_hash := h\<rparr>;
                    (prior, hc') = record_hash z ord b3 hc (f_path (cf_f e)) (f_size (cf_f e)) (unix (cf_f e)) (cf_pfx e) h
                in (case prior of None \<Rightarrow> e1 | Some p \<Rightarrow> e1\<lparr>cf_changed := True, cf_prior := p\<rparr>, hc'))))"

fun hashMembers ::
  "cacheSizes \<Rightarrow> (key \<times> hcEnt) reorder \<Rightarrow> (gostring \<Rightarrow> gostring) \<Rightarrow> creads \<Rightarrow> nat list \<Rightarrow> corruptFile list
    \<Rightarrow> hashCache option \<Rightarrow> corruptFile list \<times> hashCache option" where
  "hashMembers z ord b3 rd [] info hc = (info, hc)"
| "hashMembers z ord b3 rd (i # is) info hc =
     (let (e, hc') = hashMember z ord b3 rd (info ! i) hc in hashMembers z ord b3 rd is (info[i := e]) hc')"

subsection \<open>The window\<close>

text \<open>Phase B reads in full the families whose readable members, two at least, share one
  prefix.\<close>

definition shares_prefix :: "corruptFile list \<Rightarrow> bool" where
  "shares_prefix ms =
     (let readable = filter (\<lambda>e. cf_err e = None) ms in
      length readable \<ge> 2 \<and> card (set (map cf_pfx readable)) = 1)"

definition window_sets ::
  "nat \<Rightarrow> (gostring \<Rightarrow> gostring \<Rightarrow> bool) \<Rightarrow> corruptFile list \<Rightarrow> nat list list \<Rightarrow> corruptSet list" where
  "window_sets cap eqFold info confirmed =
     filter (\<lambda>c. cs_variants c \<ge> 2) (map (\<lambda>idx. buildSet cap eqFold (map ((!) info) idx)) confirmed)"

text \<open>The polls of the cancel channel between the phases are \<open>stop\<close>; \<open>False\<close> is a
  stopped window.\<close>

definition corruptWindow ::
  "nat \<Rightarrow> (gostring \<Rightarrow> gostring \<Rightarrow> bool) \<Rightarrow> cacheSizes \<Rightarrow> corders \<Rightarrow> (gostring \<Rightarrow> gostring) \<Rightarrow> creads
    \<Rightarrow> (nat \<Rightarrow> bool) \<Rightarrow> fEnt list \<Rightarrow> (path \<rightharpoonup> gostring) \<Rightarrow> hashCache option \<Rightarrow> corruptTop
    \<Rightarrow> (corruptTop \<times> hashCache option) \<times> bool" where
  "corruptWindow cap eqFold z co b3 rd stop files rotd hc acc =
     (let fams = co_fams co (byKey files) in
      if fams = [] then ((acc, hc), True)
      else (let info0 = map (\<lambda>i. if i \<in> set (concat fams) then phaseA b3 rd rotd hc (files ! i) else zero_corruptFile)
                          [0..<length files] in
      if stop 0 then ((acc, hc), False)
      else (let needFull = concat (filter (\<lambda>idx. shares_prefix (map ((!) info0) idx)) fams);
                (info1, hc1) = hashMembers z (co_store co) b3 rd (co_work co needFull) info0 hc in
      if stop 1 then ((acc, hc1), False)
      else (let confirmed = filter (\<lambda>idx. isCorruptedSet (map ((!) info1) idx)) fams;
                fill = filter (\<lambda>i. cf_hash (info1 ! i) = [] \<and> cf_err (info1 ! i) = None) (concat confirmed);
                (info2, hc2) = hashMembers z (co_store co) b3 rd (co_work co fill) info1 hc1 in
      if stop 2 then ((acc, hc2), False)
      else ((fold corrupt_add (window_sets cap eqFold info2 confirmed) acc, hc2), True)))))"

subsection \<open>What the reads have to be\<close>

text \<open>A full hash is the hexadecimal text of 32 bytes, equal full hashes come with equal prefix
  hashes, and no read was cancelled.\<close>

definition full_hash :: "gostring \<Rightarrow> bool" where
  "full_hash h \<longleftrightarrow> (\<exists>bs. length bs = 32 \<and> h = EncodeToString bs)"

definition faithful :: "creads \<Rightarrow> fEnt list \<Rightarrow> bool" where
  "faithful rd files \<longleftrightarrow>
     (\<forall>f \<in> set files. cr_pfx rd f \<noteq> Inl CancelErr \<and> cr_full rd f \<noteq> Inl CancelErr
        \<and> (\<forall>h. cr_full rd f = Inr h \<longrightarrow> full_hash h))
     \<and> (\<forall>f \<in> set files. \<forall>g \<in> set files. \<forall>h p q.
          cr_full rd f = Inr h \<and> cr_full rd g = Inr h \<and> cr_pfx rd f = Inr p \<and> cr_pfx rd g = Inr q \<longrightarrow> p = q)"

text \<open>What this scan has recorded about a file is what reading it gives.\<close>

definition vouched :: "(gostring \<Rightarrow> gostring) \<Rightarrow> creads \<Rightarrow> fEnt list \<Rightarrow> hashCache option \<Rightarrow> bool" where
  "vouched b3 rd files hc \<longleftrightarrow>
     (case hc of None \<Rightarrow> True
      | Some c \<Rightarrow> \<forall>(k, e) \<in> set (c_ents c). h_gen e = c_gen c \<longrightarrow>
          (\<forall>f \<in> set files. h_tag e = pathTag b3 (f_path f) \<longrightarrow> cr_full rd f = Inr (EncodeToString (h_hash e))))"

definition tags_apart :: "(gostring \<Rightarrow> gostring) \<Rightarrow> fEnt list \<Rightarrow> bool" where
  "tags_apart b3 files \<longleftrightarrow> inj_on (\<lambda>f. pathTag b3 (f_path f)) (set files)"

lemma faithfulD:
  assumes "faithful rd files" and "f \<in> set files"
  shows "cr_pfx rd f \<noteq> Inl CancelErr" "cr_full rd f \<noteq> Inl CancelErr" "cr_full rd f = Inr h \<Longrightarrow> full_hash h"
    and "g \<in> set files \<Longrightarrow> cr_full rd f = Inr h \<Longrightarrow> cr_full rd g = Inr h \<Longrightarrow> cr_pfx rd f = Inr p \<Longrightarrow> cr_pfx rd g = Inr q \<Longrightarrow> p = q"
  using assms unfolding faithful_def by blast+

lemma full_hashD: "full_hash h \<Longrightarrow> h \<noteq> []" "full_hash h \<Longrightarrow> h \<noteq> CHR ''p'' # CHR '':'' # s" "full_hash h \<Longrightarrow> h \<noteq> CHR ''e'' # CHR '':'' # s"
proof -
  assume "full_hash h"
  then obtain bs where bs: "length bs = 32" "h = EncodeToString bs" by (auto simp: full_hash_def)
  then have "length h = 64" "DecodeString h \<noteq> None" by simp_all
  then show "h \<noteq> []" "h \<noteq> CHR ''p'' # CHR '':'' # s" "h \<noteq> CHR ''e'' # CHR '':'' # s"
    by (auto simp: fromHexChar_def split: option.splits)
qed

lemma vouched_lookup:
  assumes "vouched b3 rd files hc" and "f \<in> set files" and "lookup b3 hc (f_path f) sz md p = Some h"
  shows "cr_full rd f = Inr h"
proof -
  obtain c k e where "hc = Some c" "(k, e) \<in> set (c_ents c)" "h_gen e = c_gen c" "h_tag e = pathTag b3 (f_path f)"
    "h = EncodeToString (h_hash e)"
    using assms(3) by (auto simp: lookup_def dest: map_of_SomeD split: option.splits if_splits)
  then show ?thesis using assms(1,2) by (auto simp: vouched_def)
qed

lemma vouched_record:
  assumes v: "vouched b3 rd files hc" and fa: "faithful rd files" and t: "tags_apart b3 files"
    and f: "f \<in> set files" and h: "cr_full rd f = Inr h"
  shows "vouched b3 rd files (snd (record_hash z ord b3 hc (f_path f) sz md p h))"
proof (cases hc)
  case (Some c)
  obtain bs where bs: "length bs = 32" "h = EncodeToString bs" using faithfulD(3) [OF fa f h] by (auto simp: full_hash_def)
  show ?thesis
  proof (cases "prefix_bytes p")
    case None
    then show ?thesis using v Some by (simp add: record_hash_Some)
  next
    case (Some pfx)
    let ?e = "mk_ent b3 (c_gen c) (f_path f) sz md pfx bs"
    have "cr_full rd g = Inr (EncodeToString bs)" if "g \<in> set files" "pathTag b3 (f_path f) = pathTag b3 (f_path g)" for g
      using inj_onD [OF t [unfolded tags_apart_def] that(2) f that(1)] h bs by simp
    moreover have "\<forall>(k, x) \<in> set (c_ents (snd (record_ent z ord (pathKey (f_path f)) ?e c))).
        x = ?e \<or> (k, x) \<in> set (c_ents c)"
      using record_ent_sub [of z ord "pathKey (f_path f)" ?e c] by auto
    ultimately have "vouched b3 rd files (Some (snd (record_ent z ord (pathKey (f_path f)) ?e c)))"
      using v \<open>hc = Some c\<close> by (fastforce simp: vouched_def record_ent_simps(1) mk_ent_def)
    then show ?thesis using \<open>hc = Some c\<close> Some bs by (simp add: record_hash_Some apsnd_def case_prod_beta)
  qed
qed (simp add: vouched_def record_hash_def)

subsection \<open>What the members hold\<close>

definition is_read :: "corruptFile \<Rightarrow> bool" where
  "is_read e \<longleftrightarrow> cf_err e \<noteq> None \<or> cf_hash e \<noteq> []"

definition member_ok :: "creads \<Rightarrow> corruptFile \<Rightarrow> bool" where
  "member_ok rd e \<longleftrightarrow>
     (case cr_pfx rd (cf_f e) of
        Inl er \<Rightarrow> cf_err e = Some er \<and> cf_hash e = []
      | Inr p \<Rightarrow> cf_pfx e = p \<and> (is_read e \<longrightarrow>
          (case cr_full rd (cf_f e) of
             Inl er \<Rightarrow> cf_err e = Some er \<and> cf_hash e = []
           | Inr h \<Rightarrow> cf_err e = None \<and> cf_hash e = h)))"

lemma phaseA_ok:
  "member_ok rd (phaseA b3 rd rotd hc f) \<and> cf_f (phaseA b3 rd rotd hc f) = f
   \<and> cf_hash (phaseA b3 rd rotd hc f) = [] \<and> (cf_err (phaseA b3 rd rotd hc f) = None \<longleftrightarrow> \<not> isl (cr_pfx rd f))"
  by (auto simp: phaseA_def member_ok_def is_read_def zero_corruptFile_def Let_def split: sum.split option.split)

lemma hashMember_ok:
  assumes v: "vouched b3 rd files hc" and fa: "faithful rd files" and t: "tags_apart b3 files"
    and f: "cf_f e \<in> set files" and m: "member_ok rd e" and r: "hashMember z ord b3 rd e hc = (e', hc')"
  shows "member_ok rd e' \<and> cf_f e' = cf_f e \<and> is_read e' \<and> (is_read e \<longrightarrow> e' = e)" and "vouched b3 rd files hc'"
proof -
  have hash: "h \<noteq> []" if "cr_full rd (cf_f e) = Inr h" for h
    by (rule full_hashD(1) [OF faithfulD(3) [OF fa f that]])
  have lk: "cr_full rd (cf_f e) = Inr h" if "lookup b3 hc (f_path (cf_f e)) (f_size (cf_f e)) (unix (cf_f e)) (cf_pfx e) = Some h" for h
    by (rule vouched_lookup [OF v f that])
  have "member_ok rd e' \<and> cf_f e' = cf_f e \<and> is_read e' \<and> (is_read e \<longrightarrow> e' = e) \<and> vouched b3 rd files hc'"
  proof (cases "is_read e")
    case True
    then show ?thesis using r m v by (auto simp: hashMember_def is_read_def)
  next
    case False
    then have s: "cf_err e = None" "cf_hash e = []" by (auto simp: is_read_def)
    then obtain p where p: "cr_pfx rd (cf_f e) = Inr p" "cf_pfx e = p"
      using m by (auto simp: member_ok_def split: sum.splits)
    show ?thesis
    proof (cases "lookup b3 hc (f_path (cf_f e)) (f_size (cf_f e)) (unix (cf_f e)) (cf_pfx e)")
      case (Some h)
      then show ?thesis using r s p v False lk [OF Some] hash by (auto simp: hashMember_def member_ok_def is_read_def)
    next
      case None
      show ?thesis
      proof (cases "cr_full rd (cf_f e)")
        case (Inl er)
        then show ?thesis using r s p v False None by (auto simp: hashMember_def member_ok_def is_read_def)
      next
        case (Inr h)
        obtain prior hc1 where rc: "record_hash z ord b3 hc (f_path (cf_f e)) (f_size (cf_f e)) (unix (cf_f e)) (cf_pfx e) h = (prior, hc1)"
          by (metis prod.collapse)
        have e': "e' = (case prior of None \<Rightarrow> e\<lparr>cf_hash := h\<rparr> | Some p \<Rightarrow> e\<lparr>cf_hash := h, cf_changed := True, cf_prior := p\<rparr>)"
          and hc': "hc' = hc1"
          using r s None Inr rc by (auto simp: hashMember_def Let_def split: option.splits)
        have fields: "cf_f e' = cf_f e" "cf_err e' = None" "cf_hash e' = h" "cf_pfx e' = cf_pfx e"
          using s by (auto simp: e' split: option.split)
        have "vouched b3 rd files hc'"
          using vouched_record [OF v fa t f Inr, of z ord "f_size (cf_f e)" "unix (cf_f e)" "cf_pfx e"] rc hc' by simp
        then show ?thesis using fields p Inr hash [OF Inr] False by (simp add: member_ok_def is_read_def)
      qed
    qed
  qed
  then show "member_ok rd e' \<and> cf_f e' = cf_f e \<and> is_read e' \<and> (is_read e \<longrightarrow> e' = e)" "vouched b3 rd files hc'" by simp_all
qed

text \<open>Members \<open>A\<close> of the window as far as they are known.\<close>

definition good :: "creads \<Rightarrow> fEnt list \<Rightarrow> nat set \<Rightarrow> corruptFile list \<Rightarrow> bool" where
  "good rd files A info \<longleftrightarrow> length info = length files
     \<and> (\<forall>i \<in> A. i < length files \<and> member_ok rd (info ! i) \<and> cf_f (info ! i) = files ! i)"

lemma hashMembers_ok:
  assumes fa: "faithful rd files" and t: "tags_apart b3 files"
  shows "vouched b3 rd files hc \<Longrightarrow> good rd files A info \<Longrightarrow> set is \<subseteq> A \<Longrightarrow> hashMembers z ord b3 rd is info hc = (info', hc')
    \<Longrightarrow> vouched b3 rd files hc' \<and> good rd files A info' \<and> (\<forall>i \<in> set is. is_read (info' ! i))
        \<and> (\<forall>i. i < length files \<longrightarrow> i \<notin> set is \<or> is_read (info ! i) \<longrightarrow> info' ! i = info ! i)"
proof (induction "is" arbitrary: info hc)
  case (Cons i "is")
  obtain e hc1 where h: "hashMember z ord b3 rd (info ! i) hc = (e, hc1)" by (metis prod.collapse)
  have i: "i \<in> A" "i < length files" "member_ok rd (info ! i)" "cf_f (info ! i) = files ! i" and len: "length info = length files"
    using Cons.prems(2,3) by (auto simp: good_def)
  then have "cf_f (info ! i) \<in> set files" by simp
  note e = hashMember_ok [OF Cons.prems(1) fa t this i(3) h]
  have g: "good rd files A (info[i := e])"
    using Cons.prems(2) e(1) i by (auto simp: good_def nth_list_update)
  have IH: "vouched b3 rd files hc' \<and> good rd files A info' \<and> (\<forall>j \<in> set is. is_read (info' ! j))
        \<and> (\<forall>j. j < length files \<longrightarrow> j \<notin> set is \<or> is_read (info[i := e] ! j) \<longrightarrow> info' ! j = info[i := e] ! j)"
    using Cons.IH [OF e(2) g] Cons.prems(3,4) h by simp
  moreover have "info' ! i = e" using IH e(1) i(2) len by auto
  ultimately show ?case using e(1) i(2) len by (auto simp: nth_list_update split: if_splits)
qed auto

subsection \<open>Families that disagree\<close>

definition unread :: "creads \<Rightarrow> fEnt \<Rightarrow> bool" where
  "unread rd f \<longleftrightarrow> isl (cr_pfx rd f) \<or> isl (cr_full rd f)"

definition disagree :: "creads \<Rightarrow> fEnt list \<Rightarrow> bool" where
  "disagree rd fs \<longleftrightarrow> (\<exists>f \<in> set fs. unread rd f) \<or> (\<exists>f \<in> set fs. \<exists>g \<in> set fs. cr_full rd f \<noteq> cr_full rd g)"

lemma card_ge2: "finite S \<Longrightarrow> a \<in> S \<Longrightarrow> b \<in> S \<Longrightarrow> a \<noteq> b \<Longrightarrow> 2 \<le> card S"
  using card_mono [of S "{a, b}"] by simp

lemma corrupted_err:
  assumes "2 \<le> length ms" and "e \<in> set ms" and "cf_err e \<noteq> None" and "\<forall>e \<in> set ms. cf_err e \<noteq> Some CancelErr"
  shows "isCorruptedSet ms"
proof -
  let ?r = "filter (\<lambda>e. cf_err e = None) ms" and ?u = "filter (\<lambda>e. cf_err e \<noteq> None) ms"
  have len: "length ?r + length ?u = length ms" using sum_length_filter_compl [of "\<lambda>e. cf_err e = None" ms] by simp
  have "e \<in> set ?u" using assms(2,3) by simp
  then have u: "1 \<le> length ?u" using length_pos_if_in_set [of e ?u] by linarith
  have "card (set (map variant_key ?r)) + length ?u \<ge> 2"
  proof (cases ?r)
    case (Cons a as)
    have "0 < card (set (map variant_key ?r))" unfolding Cons by (simp add: card_gt_0_iff)
    then show ?thesis using u by linarith
  next
    case Nil
    then show ?thesis using len assms(1) by simp
  qed
  then show ?thesis using assms(1,4) by (auto simp: isCorruptedSet_def list_ex_iff)
qed

lemma corrupted_two:
  assumes "2 \<le> length ms" and "e \<in> set ms" "g \<in> set ms" "cf_err e = None" "cf_err g = None"
    and "variant_key e \<noteq> variant_key g" and "\<forall>e \<in> set ms. cf_err e \<noteq> Some CancelErr"
  shows "isCorruptedSet ms"
proof -
  have "2 \<le> card (set (map variant_key (filter (\<lambda>e. cf_err e = None) ms)))"
    using assms(2-6) by (intro card_ge2 [of _ "variant_key e" "variant_key g"]) auto
  then show ?thesis using assms(1,7) by (auto simp: isCorruptedSet_def list_ex_iff)
qed

lemma corrupted_not:
  assumes "\<forall>e \<in> set ms. cf_err e = None \<and> variant_key e = v"
  shows "\<not> isCorruptedSet ms"
proof -
  have "filter (\<lambda>e. cf_err e = None) ms = ms" "filter (\<lambda>e. cf_err e \<noteq> None) ms = []"
    using assms by (simp_all add: filter_empty_conv)
  moreover have "set (map variant_key ms) \<subseteq> {v}" using assms by auto
  then have "card (set (map variant_key ms)) \<le> 1" using card_mono [of "{v}"] by fastforce
  ultimately show ?thesis by (auto simp: isCorruptedSet_def)
qed

lemma member_pfx: "member_ok rd e \<Longrightarrow> cf_err e = None \<Longrightarrow> cr_pfx rd (cf_f e) = Inr (cf_pfx e)"
  by (auto simp: member_ok_def split: sum.splits)

definition same_start :: "creads \<Rightarrow> fEnt list \<Rightarrow> bool" where
  "same_start rd fs \<longleftrightarrow>
     (let rs = filter (\<lambda>f. \<not> isl (cr_pfx rd f)) fs in length rs \<ge> 2 \<and> card (set (map (cr_pfx rd) rs)) = 1)"

lemma shares_prefix_iff:
  assumes "\<forall>e \<in> set ms. member_ok rd e \<and> (cf_err e = None \<longleftrightarrow> \<not> isl (cr_pfx rd (cf_f e)))"
  shows "shares_prefix ms \<longleftrightarrow> same_start rd (map cf_f ms)"
proof -
  let ?r = "filter (\<lambda>e. cf_err e = None) ms"
  have r: "filter (\<lambda>f. \<not> isl (cr_pfx rd f)) (map cf_f ms) = map cf_f ?r"
    using assms by (auto simp: filter_map o_def intro!: arg_cong [where f = "map cf_f"] filter_cong)
  have "map (cr_pfx rd) (map cf_f ?r) = map Inr (map cf_pfx ?r)"
    using assms member_pfx by auto
  then have "card (set (map (cr_pfx rd) (map cf_f ?r))) = card (set (map cf_pfx ?r))"
    by (simp only: set_map) (simp add: card_image inj_on_def del: set_map)
  then show ?thesis unfolding shares_prefix_def same_start_def Let_def r by simp
qed

lemma member_read:
  assumes "member_ok rd e" and "is_read e"
  shows "cf_err e = None \<longleftrightarrow> \<not> unread rd (cf_f e)" and "cf_err e = None \<Longrightarrow> cr_full rd (cf_f e) = Inr (cf_hash e)"
  using assms by (auto simp: member_ok_def unread_def is_read_def split: sum.splits)

lemma member_err:
  assumes "faithful rd files" and "cf_f e \<in> set files" and "member_ok rd e"
  shows "cf_err e \<noteq> Some CancelErr" and "cf_err e \<noteq> None \<Longrightarrow> unread rd (cf_f e)"
proof -
  have *: "cf_err e = None \<or> (\<exists>er. cf_err e = Some er \<and> (cr_pfx rd (cf_f e) = Inl er \<or> cr_full rd (cf_f e) = Inl er))"
  proof (cases "cr_pfx rd (cf_f e)")
    case (Inr p)
    show ?thesis
    proof (cases "is_read e")
      case True
      then show ?thesis using Inr assms(3) by (cases "cr_full rd (cf_f e)") (simp_all add: member_ok_def)
    qed (simp add: is_read_def)
  qed (use assms(3) in \<open>simp add: member_ok_def\<close>)
  show "cf_err e \<noteq> Some CancelErr" using * faithfulD(1,2) [OF assms(1,2)] by auto
  show "unread rd (cf_f e)" if "cf_err e \<noteq> None" using * that by (auto simp: unread_def)
qed

lemma same_startD:
  assumes "\<not> same_start rd fs" and "2 \<le> length fs" and "\<forall>f \<in> set fs. \<not> isl (cr_pfx rd f)"
  obtains f g where "f \<in> set fs" "g \<in> set fs" "cr_pfx rd f \<noteq> cr_pfx rd g"
proof -
  have fs: "filter (\<lambda>f. \<not> isl (cr_pfx rd f)) fs = fs" using assms(3) by simp
  obtain f where f: "f \<in> set fs" using assms(2) by (cases fs) auto
  show thesis
  proof (cases "\<forall>g \<in> set fs. cr_pfx rd g = cr_pfx rd f")
    case True
    then have "cr_pfx rd ` set fs = {cr_pfx rd f}" using f by blast
    then have "same_start rd fs" unfolding same_start_def Let_def fs using assms(2) by simp
    then show thesis using assms(1) by simp
  qed (use f that in blast)
qed

text \<open>The members of a family, read as far as phase B reads them.\<close>

lemma corrupted_iff_disagree:
  assumes fa: "faithful rd files" and ms: "\<forall>e \<in> set ms. cf_f e \<in> set files \<and> member_ok rd e" and len: "2 \<le> length ms"
    and full: "same_start rd (map cf_f ms) \<Longrightarrow> \<forall>e \<in> set ms. is_read e"
  shows "isCorruptedSet ms \<longleftrightarrow> disagree rd (map cf_f ms)"
proof -
  have nc: "\<forall>e \<in> set ms. cf_err e \<noteq> Some CancelErr" using member_err(1) [OF fa] ms by blast
  show ?thesis
  proof (cases "\<exists>e \<in> set ms. cf_err e \<noteq> None")
    case True
    then obtain e where e: "e \<in> set ms" "cf_err e \<noteq> None" by blast
    then have "unread rd (cf_f e)" using member_err(2) [OF fa] ms by blast
    then have "disagree rd (map cf_f ms)" using e(1) by (auto simp: disagree_def)
    then show ?thesis using corrupted_err [OF len e nc] by blast
  next
    case ok: False
    show ?thesis
    proof (cases "same_start rd (map cf_f ms)")
      case True
      have read: "cr_full rd (cf_f e) = Inr (cf_hash e)" "\<not> unread rd (cf_f e)" "variant_key e = cf_hash e" if "e \<in> set ms" for e
        using member_read [of rd e] full [OF True] ms ok that by (auto simp: variant_key_def is_read_def)
      show ?thesis
      proof (cases "\<exists>e \<in> set ms. \<exists>g \<in> set ms. cf_hash e \<noteq> cf_hash g")
        case True
        then obtain e g where eg: "e \<in> set ms" "g \<in> set ms" "cf_hash e \<noteq> cf_hash g" by blast
        then have "isCorruptedSet ms" using corrupted_two [OF len eg(1,2) _ _ _ nc] ok read(3) by simp
        moreover have "cr_full rd (cf_f e) \<noteq> cr_full rd (cf_f g)" using eg(3) read(1) [OF eg(1)] read(1) [OF eg(2)] by simp
        then have "disagree rd (map cf_f ms)" using eg(1,2) by (auto simp: disagree_def)
        ultimately show ?thesis by simp
      next
        case False
        obtain e where "e \<in> set ms" using len by (cases ms) auto
        then have "cf_err g = None \<and> variant_key g = cf_hash e" if "g \<in> set ms" for g
          using False ok read(3) [OF that] that by metis
        then have "\<not> isCorruptedSet ms" by (intro corrupted_not [of ms "cf_hash e"] ballI)
        moreover have "\<not> disagree rd (map cf_f ms)"
        proof
          assume "disagree rd (map cf_f ms)"
          then consider x where "x \<in> set ms" "unread rd (cf_f x)"
            | x y where "x \<in> set ms" "y \<in> set ms" "cr_full rd (cf_f x) \<noteq> cr_full rd (cf_f y)"
            by (auto simp: disagree_def)
          then show False by cases (use read(1,2) False in metis)+
        qed
        ultimately show ?thesis by simp
      qed
    next
      case False
      have pfx: "cr_pfx rd (cf_f e) = Inr (cf_pfx e)" if "e \<in> set ms" for e
        using member_pfx ms ok that by blast
      have nl: "\<forall>f \<in> set (map cf_f ms). \<not> isl (cr_pfx rd f)" by (auto simp: pfx)
      have l2: "2 \<le> length (map cf_f ms)" using len by simp
      obtain f g where fg: "f \<in> set (map cf_f ms)" "g \<in> set (map cf_f ms)" "cr_pfx rd f \<noteq> cr_pfx rd g"
        by (rule same_startD [OF False l2 nl])
      obtain e where e: "e \<in> set ms" "f = cf_f e" using fg(1) by auto
      obtain g' where g': "g' \<in> set ms" "g = cf_f g'" using fg(2) by auto
      have ne: "cf_pfx e \<noteq> cf_pfx g'" using fg(3) pfx [OF e(1)] pfx [OF g'(1)] e(2) g'(2) by simp
      obtain e g where eg: "e \<in> set ms" "g \<in> set ms" "cf_pfx e \<noteq> cf_pfx g" using e(1) g'(1) ne by blast
      have hash: "cr_full rd (cf_f x) = Inr (cf_hash x) \<and> full_hash (cf_hash x)" if "x \<in> set ms" "cf_hash x \<noteq> []" for x
        using member_read(2) [of rd x] ms ok that faithfulD(3) [OF fa] by (auto simp: is_read_def)
      have "variant_key e \<noteq> variant_key g"
      proof (cases "cf_hash e = [] \<or> cf_hash g = []")
        case True
        then show ?thesis
          using eg(3) full_hashD(2) hash [OF eg(1)] hash [OF eg(2)]
          by (cases "cf_hash e = []"; cases "cf_hash g = []") (auto simp: variant_key_def dest: sym)
      next
        case no: False
        have "cf_hash e \<noteq> cf_hash g"
        proof
          assume "cf_hash e = cf_hash g"
          then have "cf_pfx e = cf_pfx g"
            using faithfulD(4) [OF fa, of "cf_f e" "cf_f g" "cf_hash e"] ms eg(1,2) pfx [OF eg(1)] pfx [OF eg(2)]
              hash [OF eg(1)] hash [OF eg(2)] no by simp
          then show False using eg(3) by simp
        qed
        then show ?thesis using no by (simp add: variant_key_def)
      qed
      then have "isCorruptedSet ms" using corrupted_two [OF len eg(1,2) _ _ _ nc] ok eg by simp
      moreover have "disagree rd (map cf_f ms)"
      proof (rule ccontr)
        assume n: "\<not> disagree rd (map cf_f ms)"
        have mem: "cf_f e \<in> set (map cf_f ms)" "cf_f g \<in> set (map cf_f ms)" using eg(1,2) by simp_all
        then have "\<not> unread rd (cf_f e)" and same: "cr_full rd (cf_f g) = cr_full rd (cf_f e)"
          using n unfolding disagree_def by blast+
        then obtain h where h: "cr_full rd (cf_f e) = Inr h" by (cases "cr_full rd (cf_f e)") (auto simp: unread_def)
        then have "cf_pfx e = cf_pfx g"
          using faithfulD(4) [OF fa, of "cf_f e" "cf_f g" h] ms eg(1,2) pfx [OF eg(1)] pfx [OF eg(2)] same by simp
        then show False using eg(3) by simp
      qed
      ultimately show ?thesis by simp
    qed
  qed
qed

text \<open>Once every member is read, the variants of a disagreeing family are two at least.\<close>

lemma variants_of_disagree:
  assumes fa: "faithful rd files" and ms: "\<forall>e \<in> set ms. cf_f e \<in> set files \<and> member_ok rd e \<and> is_read e"
    and len: "2 \<le> length ms" and d: "distinct (map (\<lambda>e. f_path (cf_f e)) ms)" and dis: "disagree rd (map cf_f ms)"
  shows "2 \<le> card (set (map set_variant ms))"
proof -
  have hash: "cr_full rd (cf_f x) = Inr (cf_hash x) \<and> full_hash (cf_hash x) \<and> set_variant x = cf_hash x"
    if "x \<in> set ms" "cf_err x = None" for x
    using member_read(2) [of rd x] ms that faithfulD(3) [OF fa] full_hashD(1)
    by (auto simp: set_variant_def variant_key_def)
  have two: "2 \<le> card (set (map set_variant ms))" if "x \<in> set ms" "y \<in> set ms" "set_variant x \<noteq> set_variant y" for x y
    using that by (intro card_ge2 [of _ "set_variant x" "set_variant y"]) simp_all
  consider x where "x \<in> set ms" "cf_err x \<noteq> None"
    | x y where "x \<in> set ms" "y \<in> set ms" "cf_err x = None" "cf_err y = None" "cr_full rd (cf_f x) \<noteq> cr_full rd (cf_f y)"
  proof (cases "\<exists>x \<in> set ms. cf_err x \<noteq> None")
    case False
    then have "\<not> (\<exists>x \<in> set ms. unread rd (cf_f x))" using member_read(1) ms by blast
    then have "\<exists>f \<in> set (map cf_f ms). \<exists>g \<in> set (map cf_f ms). cr_full rd f \<noteq> cr_full rd g"
      using dis unfolding disagree_def by simp
    then show thesis using that(2) False by fastforce
  qed (use that(1) in blast)
  then show ?thesis
  proof cases
    case (1 x)
    obtain y where y: "y \<in> set ms" "f_path (cf_f y) \<noteq> f_path (cf_f x)"
    proof -
      obtain i where i: "i < length ms" "ms ! i = x" using 1(1) by (meson in_set_conv_nth)
      define j where "j = (if i = 0 then 1 else 0 :: nat)"
      have "j < length ms" "j \<noteq> i" using len by (auto simp: j_def)
      then have "f_path (cf_f (ms ! j)) \<noteq> f_path (cf_f (ms ! i))"
        using d i(1) by (auto simp: distinct_conv_nth)
      then show thesis using that [of "ms ! j"] i(2) \<open>j < length ms\<close> by simp
    qed
    have "set_variant x \<noteq> set_variant y"
    proof (cases "cf_err y = None")
      case True
      then show ?thesis using hash [OF y(1)] 1(2) full_hashD(3) by (auto simp: set_variant_def dest: sym)
    qed (use y(2) 1(2) in \<open>simp add: set_variant_def\<close>)
    then show ?thesis using two 1(1) y(1) by blast
  next
    case (2 x y)
    then have "set_variant x \<noteq> set_variant y" using hash [of x] hash [of y] by auto
    then show ?thesis using two 2(1,2) by blast
  qed
qed

subsection \<open>The families of a window\<close>

definition family :: "fEnt list \<Rightarrow> int \<times> int \<Rightarrow> fEnt list" where
  "family files k = filter (\<lambda>f. \<not> (f_isDir f \<or> f_size f = 0) \<and> (f_size f, unix f) = k) files"

lemma split_at_bar:
  assumes "CHR ''|'' \<notin> set a" and "CHR ''|'' \<notin> set c" and "a @ ''|'' @ b = c @ ''|'' @ d"
  shows "a = c \<and> b = d"
proof -
  have t: "takeWhile (\<lambda>x. x \<noteq> CHR ''|'') (s @ ''|'' @ r) = s" if "CHR ''|'' \<notin> set s" for s r :: gostring
    using that by (induction s) auto
  have "a = c" using t [OF assms(1), of b] t [OF assms(2), of d] assms(3) by simp
  then show ?thesis using assms(3) by simp
qed

lemma keyOf_inject: "keyOf f = keyOf g \<longleftrightarrow> f_size f = f_size g \<and> unix f = unix g"
  using split_at_bar [of "itoa (f_size f)" "itoa (f_size g)" "itoa (unix f)" "itoa (unix g)"] itoa_free
  by (auto simp: keyOf_def)

definition fam_key :: "fEnt list \<Rightarrow> nat list \<Rightarrow> int \<times> int" where
  "fam_key files idx = (f_size (files ! hd idx), unix (files ! hd idx))"

definition eligible :: "fEnt list \<Rightarrow> nat \<Rightarrow> bool" where
  "eligible files i \<longleftrightarrow> \<not> (f_isDir (files ! i) \<or> f_size (files ! i) = 0)"

lemma map_filter_nth: "map ((!) xs) (filter (\<lambda>i. P (xs ! i)) [0..<length xs]) = filter P xs"
proof -
  have "filter P xs = filter P (map ((!) xs) [0..<length xs])" by (simp only: map_nth)
  also have "\<dots> = map ((!) xs) (filter (\<lambda>i. P (xs ! i)) [0..<length xs])" by (simp only: filter_map o_def)
  finally show ?thesis by simp
qed

lemma hd_filter: "filter P xs \<noteq> [] \<Longrightarrow> P (hd (filter P xs))"
  by (induction xs) auto

lemma bucket_family:
  assumes "idx = filter (\<lambda>j. keyOf (files ! j) = keyOf (files ! i)) (filter (eligible files) [0..<length files])"
  shows "map ((!) files) idx = family files (f_size (files ! i), unix (files ! i))"
proof -
  have "idx = filter (\<lambda>j. \<not> (f_isDir (files ! j) \<or> f_size (files ! j) = 0)
      \<and> (f_size (files ! j), unix (files ! j)) = (f_size (files ! i), unix (files ! i))) [0..<length files]"
    unfolding assms filter_filter by (rule filter_cong) (auto simp: eligible_def keyOf_inject)
  then show ?thesis
    using map_filter_nth [of files "\<lambda>f. \<not> (f_isDir f \<or> f_size f = 0)
      \<and> (f_size f, unix f) = (f_size (files ! i), unix (files ! i))"] unfolding family_def by simp
qed

lemma byKey_mem:
  "idx \<in> set (byKey files) \<longleftrightarrow>
     (\<exists>i < length files. eligible files i \<and> 2 \<le> length idx
        \<and> idx = filter (\<lambda>j. keyOf (files ! j) = keyOf (files ! i)) (filter (eligible files) [0..<length files]))"
  by (auto simp: byKey_def Let_def eligible_def [abs_def] image_iff)

lemma byKey_fam:
  assumes "idx \<in> set (byKey files)"
  shows "map ((!) files) idx = family files (fam_key files idx)" and "2 \<le> length idx" and "\<forall>i \<in> set idx. i < length files"
    and "distinct idx"
proof -
  obtain i where i: "2 \<le> length idx"
    "idx = filter (\<lambda>j. keyOf (files ! j) = keyOf (files ! i)) (filter (eligible files) [0..<length files])"
    using assms by (auto simp: byKey_mem)
  then have "idx \<noteq> []" by auto
  then have "keyOf (files ! hd idx) = keyOf (files ! i)" unfolding i(2) by (rule hd_filter)
  then show "map ((!) files) idx = family files (fam_key files idx)"
    using bucket_family [OF i(2)] by (simp add: fam_key_def keyOf_inject)
  have "set idx \<subseteq> {..<length files}" "distinct idx" unfolding i(2) by auto
  then show "2 \<le> length idx" "\<forall>i \<in> set idx. i < length files" "distinct idx" using i(1) by auto
qed

lemma family_byKey:
  assumes "2 \<le> length (family files k)"
  shows "\<exists>idx \<in> set (byKey files). fam_key files idx = k"
proof -
  obtain f fs where fam: "family files k = f # fs" using assms by (cases "family files k") auto
  then have "f \<in> set (family files k)" by simp
  then obtain i where i: "i < length files" "files ! i = f" "eligible files i" "k = (f_size f, unix f)"
    by (auto simp: family_def in_set_conv_nth eligible_def)
  define idx where "idx = filter (\<lambda>j. keyOf (files ! j) = keyOf (files ! i)) (filter (eligible files) [0..<length files])"
  have m: "map ((!) files) idx = family files k" using bucket_family [OF idx_def] i by simp
  then have "2 \<le> length idx" using assms by (metis length_map)
  then have mem: "idx \<in> set (byKey files)" using i idx_def by (auto simp: byKey_mem)
  have "idx \<noteq> []" using \<open>2 \<le> length idx\<close> by auto
  then have "keyOf (files ! hd idx) = keyOf (files ! i)" unfolding idx_def by (rule hd_filter)
  then have "fam_key files idx = k" using i by (simp add: fam_key_def keyOf_inject)
  then show ?thesis using mem by blast
qed

lemma distinct_fam_keys: "distinct (map (fam_key files) (byKey files))"
proof -
  let ?idxs = "filter (eligible files) [0..<length files]"
  let ?b = "\<lambda>k. filter (\<lambda>i. keyOf (files ! i) = k) ?idxs"
  let ?ks = "remdups (map (\<lambda>i. keyOf (files ! i)) ?idxs)"
  have b: "byKey files = map ?b (filter (\<lambda>k. \<not> length (?b k) < 2) ?ks)"
    by (simp add: byKey_def Let_def eligible_def [abs_def] filter_map o_def)
  have "inj_on (fam_key files \<circ> ?b) (set (filter (\<lambda>k. \<not> length (?b k) < 2) ?ks))"
  proof (rule inj_onI)
    fix k k' assume k: "k \<in> set (filter (\<lambda>k. \<not> length (?b k) < 2) ?ks)" "k' \<in> set (filter (\<lambda>k. \<not> length (?b k) < 2) ?ks)"
      and eq: "(fam_key files \<circ> ?b) k = (fam_key files \<circ> ?b) k'"
    have hd: "keyOf (files ! hd (?b x)) = x" if "x \<in> set (filter (\<lambda>k. \<not> length (?b k) < 2) ?ks)" for x
    proof -
      have "?b x \<noteq> []" using that by auto
      then show ?thesis by (rule hd_filter)
    qed
    have "keyOf (files ! hd (?b k)) = k" "keyOf (files ! hd (?b k')) = k'" by (rule hd [OF k(1)], rule hd [OF k(2)])
    moreover have "keyOf (files ! hd (?b k)) = keyOf (files ! hd (?b k'))" using eq by (simp add: fam_key_def keyOf_inject)
    ultimately show "k = k'" by simp
  qed
  then show ?thesis unfolding b map_map by (simp add: distinct_map)
qed

subsection \<open>The sets of a window\<close>

definition set_at :: "corruptSet \<Rightarrow> int \<times> int" where
  "set_at c = (cs_size c, unix_of (cs_mod c))"

lemma buildSet_fields:
  assumes "map cf_f ms = map ((!) files) idx" and "idx \<noteq> []"
  shows "set_at (buildSet cap eqFold ms) = fam_key files idx"
    and "length idx \<le> cap \<Longrightarrow> mset (map cf_f (cs_files (buildSet cap eqFold ms))) = mset (map ((!) files) idx)"
proof -
  have "cf_f (hd ms) = files ! hd idx" using assms by (metis hd_map map_is_Nil_conv)
  then show "set_at (buildSet cap eqFold ms) = fam_key files idx"
    by (simp add: set_at_def buildSet_def Let_def fam_key_def unix_def)
  assume "length idx \<le> cap"
  then have "length ms \<le> cap" using assms(1) by (metis length_map)
  then show "mset (map cf_f (cs_files (buildSet cap eqFold ms))) = mset (map ((!) files) idx)"
    by (simp add: buildSet_def Let_def assms(1) [symmetric])
qed

text \<open>The members of the window after its two reading passes.\<close>

lemma window_pass:
  fixes rotd :: "path \<rightharpoonup> gostring"
  assumes fa: "faithful rd files" and t: "tags_apart b3 files" and v: "vouched b3 rd files hc"
    and fams: "set fams \<subseteq> set (byKey files)" and w: "reorders (co_work co)"
  defines "info0 \<equiv> map (\<lambda>i. if i \<in> set (concat fams) then phaseA b3 rd rotd hc (files ! i) else zero_corruptFile) [0..<length files]"
  assumes h1: "hashMembers z ord b3 rd (co_work co (concat (filter (\<lambda>idx. shares_prefix (map ((!) info0) idx)) fams))) info0 hc = (info1, hc1)"
    and h2: "hashMembers z ord b3 rd (co_work co (filter (\<lambda>i. cf_hash (info1 ! i) = [] \<and> cf_err (info1 ! i) = None)
                (concat (filter (\<lambda>idx. isCorruptedSet (map ((!) info1) idx)) fams)))) info1 hc1 = (info2, hc2)"
  shows "\<forall>idx \<in> set fams. isCorruptedSet (map ((!) info1) idx) \<longleftrightarrow> disagree rd (map ((!) files) idx)"
    and "good rd files (set (concat fams)) info2"
    and "\<forall>idx \<in> set fams. disagree rd (map ((!) files) idx) \<longrightarrow> (\<forall>i \<in> set idx. is_read (info2 ! i))"
proof -
  let ?A = "set (concat fams)"
  have lt: "i < length files" if "i \<in> ?A" for i using that fams byKey_fam(3) by fastforce
  have work: "set (co_work co xs) = set xs" for xs using reorders_simps(1) [OF w] .
  have p0: "info0 ! i = phaseA b3 rd rotd hc (files ! i)" if "i \<in> ?A" for i using lt [OF that] that by (simp add: info0_def)
  have g0: "good rd files ?A info0" using p0 lt phaseA_ok by (auto simp: good_def info0_def)
  note P1 = hashMembers_ok [OF fa t v g0 _ h1, unfolded work]
  have P1: "vouched b3 rd files hc1" "good rd files ?A info1"
    "\<forall>i \<in> set (concat (filter (\<lambda>idx. shares_prefix (map ((!) info0) idx)) fams)). is_read (info1 ! i)"
    using P1 by auto
  have fam: "idx \<in> set (byKey files)" "\<forall>i \<in> set idx. i \<in> ?A" if "idx \<in> set fams" for idx using that fams by auto
  have fs: "map cf_f (map ((!) info) idx) = map ((!) files) idx" if "idx \<in> set fams" "good rd files ?A info" for info idx
    using fam(2) [OF that(1)] that(2) by (auto simp: good_def)
  have conf: "isCorruptedSet (map ((!) info1) idx) \<longleftrightarrow> disagree rd (map ((!) files) idx)" if idx: "idx \<in> set fams" for idx
  proof -
    have s0: "shares_prefix (map ((!) info0) idx) \<longleftrightarrow> same_start rd (map ((!) files) idx)"
    proof -
      have m0: "\<forall>e \<in> set (map ((!) info0) idx). member_ok rd e \<and> (cf_err e = None \<longleftrightarrow> \<not> isl (cr_pfx rd (cf_f e)))"
      proof
        fix e assume "e \<in> set (map ((!) info0) idx)"
        then obtain i where i: "i \<in> set idx" "e = info0 ! i" by auto
        then have "e = phaseA b3 rd rotd hc (files ! i)" using p0 fam(2) [OF idx] by blast
        then show "member_ok rd e \<and> (cf_err e = None \<longleftrightarrow> \<not> isl (cr_pfx rd (cf_f e)))"
          using phaseA_ok [of rd b3 rotd hc "files ! i"] by simp
      qed
      show ?thesis using shares_prefix_iff [OF m0] unfolding fs [OF idx g0] .
    qed
    have full: "\<forall>e \<in> set (map ((!) info1) idx). is_read e" if "same_start rd (map cf_f (map ((!) info1) idx))"
      using that s0 P1(3) idx unfolding fs [OF idx P1(2)] by auto
    have ms: "\<forall>e \<in> set (map ((!) info1) idx). cf_f e \<in> set files \<and> member_ok rd e"
      using P1(2) fam(2) [OF idx] by (auto simp: good_def)
    have "2 \<le> length (map ((!) info1) idx)" using byKey_fam(2) [OF fam(1) [OF idx]] by simp
    from corrupted_iff_disagree [OF fa ms this full] show ?thesis unfolding fs [OF idx P1(2)] .
  qed
  then show "\<forall>idx \<in> set fams. isCorruptedSet (map ((!) info1) idx) \<longleftrightarrow> disagree rd (map ((!) files) idx)" by blast
  note P2 = hashMembers_ok [OF fa t P1(1,2) _ h2, unfolded work]
  have sub: "set (filter (\<lambda>i. cf_hash (info1 ! i) = [] \<and> cf_err (info1 ! i) = None)
                (concat (filter (\<lambda>idx. isCorruptedSet (map ((!) info1) idx)) fams))) \<subseteq> ?A" by auto
  note P2 = P2 [OF sub]
  then show "good rd files ?A info2" by blast
  show "\<forall>idx \<in> set fams. disagree rd (map ((!) files) idx) \<longrightarrow> (\<forall>i \<in> set idx. is_read (info2 ! i))"
  proof (intro ballI impI)
    fix idx i assume idx: "idx \<in> set fams" "disagree rd (map ((!) files) idx)" and i: "i \<in> set idx"
    show "is_read (info2 ! i)"
    proof (cases "is_read (info1 ! i)")
      case True
      then show ?thesis using P2 lt [of i] fam(2) [OF idx(1)] i by auto
    next
      case False
      then show ?thesis using P2 idx i conf [OF idx(1)] by (auto simp: is_read_def)
    qed
  qed
qed

lemma set_fam_keys:
  "fam_key files ` {idx \<in> set (byKey files). P (map ((!) files) idx)}
     = {k. 2 \<le> length (family files k) \<and> P (family files k)}" (is "?L = ?R")
proof
  show "?L \<subseteq> ?R" using byKey_fam by (auto) (metis length_map)+
  show "?R \<subseteq> ?L"
  proof
    fix k assume k: "k \<in> ?R"
    then obtain idx where "idx \<in> set (byKey files)" "fam_key files idx = k" using family_byKey by blast
    then show "k \<in> ?L" using k byKey_fam(1) by (auto simp: image_iff intro!: bexI [of _ idx])
  qed
qed

text \<open>C24. The sets a window finds are exactly its families of equal size and modified time whose
  members do not all hold the same bytes (an unreadable member counts as different): one set for each,
  holding the whole family up to the cap, and nothing else.  The reads may be answered by the hash
  store as far as what this scan recorded is what the files hold.\<close>

theorem corrupted_window_exact:
  assumes fa: "faithful rd files" and t: "tags_apart b3 files" and v: "vouched b3 rd files hc"
    and d: "distinct (map f_path files)" and ord: "reorders (co_fams co)" "reorders (co_work co)" and ns: "\<forall>k. \<not> stop k"
  shows "\<exists>sets hc'. corruptWindow cap eqFold z co b3 rd stop files rotd hc acc = ((fold corrupt_add sets acc, hc'), True)
    \<and> distinct (map set_at sets)
    \<and> set (map set_at sets) = {k. 2 \<le> length (family files k) \<and> disagree rd (family files k)}
    \<and> (\<forall>c \<in> set sets. 2 \<le> cs_variants c
         \<and> (length (family files (set_at c)) \<le> cap \<longrightarrow> mset (map cf_f (cs_files c)) = mset (family files (set_at c))))"
proof -
  define fams where "fams = co_fams co (byKey files)"
  define info0 where "info0 = map (\<lambda>i. if i \<in> set (concat fams) then phaseA b3 rd rotd hc (files ! i) else zero_corruptFile) [0..<length files]"
  obtain info1 hc1 where h1: "hashMembers z (co_store co) b3 rd (co_work co (concat (filter (\<lambda>idx. shares_prefix (map ((!) info0) idx)) fams))) info0 hc = (info1, hc1)"
    by (metis prod.collapse)
  define confirmed where "confirmed = filter (\<lambda>idx. isCorruptedSet (map ((!) info1) idx)) fams"
  obtain info2 hc2 where h2: "hashMembers z (co_store co) b3 rd (co_work co (filter (\<lambda>i. cf_hash (info1 ! i) = [] \<and> cf_err (info1 ! i) = None)
      (concat confirmed))) info1 hc1 = (info2, hc2)"
    by (metis prod.collapse)
  have mset: "mset fams = mset (byKey files)" using ord(1) by (simp add: fams_def reorders_def)
  then have sf: "set fams = set (byKey files)" by (metis set_mset_mset)
  note W = window_pass [OF fa t v _ ord(2) h1 [unfolded info0_def] h2 [unfolded confirmed_def]]
  have W: "\<forall>idx \<in> set fams. isCorruptedSet (map ((!) info1) idx) \<longleftrightarrow> disagree rd (map ((!) files) idx)"
    "good rd files (set (concat fams)) info2"
    "\<forall>idx \<in> set fams. disagree rd (map ((!) files) idx) \<longrightarrow> (\<forall>i \<in> set idx. is_read (info2 ! i))"
    using W sf by blast+
  let ?mk = "\<lambda>idx. buildSet cap eqFold (map ((!) info2) idx)"
  have conf: "set confirmed = {idx \<in> set (byKey files). disagree rd (map ((!) files) idx)}"
    using W(1) sf by (auto simp: confirmed_def)
  have fs: "map cf_f (map ((!) info2) idx) = map ((!) files) idx" if "idx \<in> set fams" for idx
    using W(2) that by (auto simp: good_def)
  have at: "set_at (?mk idx) = fam_key files idx" if "idx \<in> set confirmed" for idx
    using buildSet_fields(1) [OF fs] byKey_fam(2) that sf by (fastforce simp: confirmed_def)
  have variants: "2 \<le> cs_variants (?mk idx)" if idx: "idx \<in> set confirmed" for idx
  proof -
    have i: "idx \<in> set fams" "idx \<in> set (byKey files)" "disagree rd (map ((!) files) idx)" using idx conf sf by auto
    have "distinct (map (\<lambda>j. f_path (files ! j)) idx)"
    proof -
      have "x = y" if "x \<in> set idx" "y \<in> set idx" "f_path (files ! x) = f_path (files ! y)" for x y
        using nth_eq_iff_index_eq [OF d, of x y] byKey_fam(3) [OF i(2)] that by simp
      then show ?thesis using byKey_fam(4) [OF i(2)] by (auto simp: distinct_map inj_on_def)
    qed
    moreover have "map (\<lambda>e. f_path (cf_f e)) (map ((!) info2) idx) = map (\<lambda>j. f_path (files ! j)) idx"
      using arg_cong [OF fs [OF i(1)], of "map f_path"] by (simp add: o_def)
    ultimately have "distinct (map (\<lambda>e. f_path (cf_f e)) (map ((!) info2) idx))" by (simp only:)
    moreover have "\<forall>e \<in> set (map ((!) info2) idx). cf_f e \<in> set files \<and> member_ok rd e \<and> is_read e"
      using W(2,3) i by (auto simp: good_def)
    moreover have "disagree rd (map cf_f (map ((!) info2) idx))" unfolding fs [OF i(1)] by (rule i(3))
    moreover have "2 \<le> length (map ((!) info2) idx)" using byKey_fam(2) [OF i(2)] by simp
    ultimately have "2 \<le> card (set (map set_variant (map ((!) info2) idx)))"
      by (blast intro: variants_of_disagree [OF fa])
    then show ?thesis by (simp only: buildSet_def Let_def corruptSet.select_convs)
  qed
  then have ws: "window_sets cap eqFold info2 confirmed = map ?mk confirmed"
    by (simp add: window_sets_def filter_id_conv)
  have run: "corruptWindow cap eqFold z co b3 rd stop files rotd hc acc = ((fold corrupt_add (map ?mk confirmed) acc, if fams = [] then hc else hc2), True)"
    using ns h1 h2 ws unfolding corruptWindow_def Let_def fams_def [symmetric] info0_def [symmetric]
    by (simp add: confirmed_def [symmetric]) (simp add: confirmed_def)
  have keys: "map set_at (map ?mk confirmed) = map (fam_key files) confirmed" using at by simp
  have "distinct (map (fam_key files) fams)"
    using distinct_fam_keys [of files] mset by (metis mset_eq_imp_distinct_iff mset_map)
  then have "distinct (map (fam_key files) confirmed)" unfolding confirmed_def by (rule distinct_map_filter)
  moreover have "set (map (fam_key files) confirmed) = {k. 2 \<le> length (family files k) \<and> disagree rd (family files k)}"
    using set_fam_keys [of files "disagree rd"] conf by simp
  moreover have "mset (map cf_f (cs_files (?mk idx))) = mset (family files (set_at (?mk idx)))"
    if "idx \<in> set confirmed" "length (family files (set_at (?mk idx))) \<le> cap" for idx
  proof -
    have i: "idx \<in> set fams" "idx \<in> set (byKey files)" using that(1) conf sf by auto
    have fam: "map ((!) files) idx = family files (set_at (?mk idx))" using byKey_fam(1) [OF i(2)] at [OF that(1)] by simp
    have "length idx \<le> cap" using that(2) arg_cong [OF fam, of length] by simp
    then show ?thesis
      using buildSet_fields(2) [OF fs [OF i(1)]] byKey_fam(2) [OF i(2)] fam by fastforce
  qed
  ultimately show ?thesis
    using run variants unfolding keys [symmetric] by (intro exI [of _ "map ?mk confirmed"] exI conjI) auto
qed

subsection \<open>A window with one rotten copy\<close>

definition ex_pair :: "fEnt list" where
  "ex_pair = [zero_fEnt\<lparr>f_path := ''/v/a'', f_name := ''a'', f_size := 4\<rparr>, zero_fEnt\<lparr>f_path := ''/v/b'', f_name := ''b'', f_size := 4\<rparr>]"

definition ex_creads :: creads where
  "ex_creads = \<lparr>cr_pfx = (\<lambda>_. Inr ''p''),
     cr_full = (\<lambda>f. Inr (EncodeToString (replicate 32 (if f_name f = ''a'' then CHR ''x'' else CHR ''y''))))\<rparr>"

definition ex_corders :: corders where
  "ex_corders = \<lparr>co_fams = rev, co_work = rev, co_store = id\<rparr>"

theorem corrupted_window_exact_witness:
  "map set_at (ct_sets (fst (fst (corruptWindow 9 (=) cacheDefaults ex_corders id ex_creads (\<lambda>_. False) ex_pair Map.empty None
     (newCorruptTop 9))))) = [(4, zero_unix)]"
proof -
  have fa: "faithful ex_creads ex_pair"
    unfolding faithful_def ex_creads_def full_hash_def by (auto intro: exI [of _ "replicate 32 CHR ''x''"] exI [of _ "replicate 32 CHR ''y''"])
  have t: "tags_apart id ex_pair" "distinct (map f_path ex_pair)"
    by (auto simp: tags_apart_def ex_pair_def pathTag_def inj_on_def)
  have v: "vouched id ex_creads ex_pair None" by (simp add: vouched_def)
  have o: "reorders (co_fams ex_corders)" "reorders (co_work ex_corders)" by (simp_all add: ex_corders_def reorders_def)
  obtain sets hc' where S: "corruptWindow 9 (=) cacheDefaults ex_corders id ex_creads (\<lambda>_. False) ex_pair Map.empty None (newCorruptTop 9)
      = ((fold corrupt_add sets (newCorruptTop 9), hc'), True)" "distinct (map set_at sets)"
    "set (map set_at sets) = {k. 2 \<le> length (family ex_pair k) \<and> disagree ex_creads (family ex_pair k)}"
    using corrupted_window_exact [OF fa t(1) v t(2) o, of "\<lambda>_. False" 9 "(=)" cacheDefaults Map.empty "newCorruptTop 9"] by auto
  have fam: "family ex_pair k = (if k = (4, zero_unix) then ex_pair else [])" for k
    by (auto simp: family_def ex_pair_def unix_def unix_of_def zero_fEnt_def)
  have "EncodeToString (replicate 32 CHR ''x'') \<noteq> EncodeToString (replicate 32 CHR ''y'')"
    using Encode_inject [of "replicate 32 CHR ''x''" "replicate 32 CHR ''y''"] by auto
  then have "disagree ex_creads ex_pair" by (auto simp: disagree_def ex_pair_def ex_creads_def)
  then have "set (map set_at sets) = {(4, zero_unix)}"
    unfolding S(3) fam by (auto simp: ex_pair_def)
  moreover have "length sets = card (set (map set_at sets))" using distinct_card [OF S(2)] by simp
  ultimately have "length sets = 1" by simp
  then have "map set_at sets = [(4, zero_unix)]" using \<open>set (map set_at sets) = {(4, zero_unix)}\<close> by (cases sets) auto
  then obtain c where "sets = [c]" "set_at c = (4, zero_unix)" by auto
  then show ?thesis using S(1) by (simp add: corrupt_add_def newCorruptTop_def)
qed

end
