(* ===== verification/SkewSpill.thy ===== *)
theory SkewSpill
  imports CorruptWindow Grouping
begin

text \<open>
  The content ladder for candidate keys too big for a window: \<open>hashSubSpill\<close>,
  \<open>resolveSkewedPrefix\<close>, \<open>resolveSkewedKey\<close> and \<open>runSkewWindow\<close> of
  \<open>server/duplicates.go\<close>, and the loop over the windows, \<open>hashCandidateWindows\<close> of
  \<open>server/scan.go\<close>.  A key that cannot be split by partitioning is split by content: its records are
  hashed into a spill of their own, tagged by the hash, and taken window by window of that.  Stopping is
  modelled in \<open>hashSubSpill\<close> (its callback polls the cancel channel); the ladder above it is
  modelled for a scan that is not stopped, and progress is not modelled.
\<close>

subsection \<open>Hashing records into a spill of their own\<close>

datatype sub_end = SubCancelled | SubWrite

record sub_run =
  su_sub :: spill
  su_n :: nat
  su_unread :: "fEnt list"
  su_rot :: "(path \<times> gostring) list"
  su_cache :: "hashCache option"
  su_polls :: nat

text \<open>The entry built for a record: its path, size, times and links, but no name and no folder.\<close>

definition sub_entry :: "nat option list \<Rightarrow> path list \<Rightarrow> spillRec \<Rightarrow> fEnt" where
  "sub_entry handles rootOf r =
     zero_fEnt\<lparr>f_rel := s_rel r, f_rh := handles ! s_root r, f_path := Join (rootOf ! s_root r) (s_rel r),
       f_size := s_size r, f_holes := s_holes r, f_mod := time_unix (s_mod r), f_link := s_link r\<rparr>"

definition sub_write :: "nat \<Rightarrow> (spillRec \<Rightarrow> bool) \<Rightarrow> spillRec \<Rightarrow> gostring \<Rightarrow> sub_run \<Rightarrow> sub_run \<times> sub_end option" where
  "sub_write maxInt wr r h s =
     (case addRaw maxInt (wr r) (r\<lparr>s_tag := prefixTag h\<rparr>) (su_sub s) of
        None \<Rightarrow> (s\<lparr>su_n := su_n s + 1\<rparr>, Some SubWrite)
      | Some sp \<Rightarrow> (s\<lparr>su_n := su_n s + 1, su_sub := sp\<rparr>, None))"

text \<open>The full rung: the store answers what this scan already read.\<close>

definition sub_full ::
  "cacheSizes \<Rightarrow> (key \<times> hcEnt) reorder \<Rightarrow> (gostring \<Rightarrow> gostring) \<Rightarrow> creads \<Rightarrow> nat \<Rightarrow> (spillRec \<Rightarrow> bool)
    \<Rightarrow> spillRec \<Rightarrow> fEnt \<Rightarrow> gostring \<Rightarrow> sub_run \<Rightarrow> sub_run \<times> sub_end option" where
  "sub_full z ord b3 rd maxInt wr r f h s =
     (case lookup b3 (su_cache s) (f_path f) (f_size f) (unix f) h of
        Some hit \<Rightarrow> sub_write maxInt wr r hit s
      | None \<Rightarrow>
          (case cr_full rd f of
             Inl er \<Rightarrow> (s\<lparr>su_unread := su_unread s @ [f]\<rparr>, None)
           | Inr whole \<Rightarrow>
               (let (moved, hc) = record_hash z ord b3 (su_cache s) (f_path f) (f_size f) (unix f) h whole
                in sub_write maxInt wr r whole
                     (s\<lparr>su_cache := hc,
                        su_rot := su_rot s @ (case moved of None \<Rightarrow> [] | Some prior \<Rightarrow> [(f_path f, prior)])\<rparr>))))"

definition sub_record ::
  "cacheSizes \<Rightarrow> (key \<times> hcEnt) reorder \<Rightarrow> (gostring \<Rightarrow> gostring) \<Rightarrow> creads \<Rightarrow> nat \<Rightarrow> (spillRec \<Rightarrow> bool) \<Rightarrow> polls
    \<Rightarrow> nat option list \<Rightarrow> path list \<Rightarrow> bool \<Rightarrow> (spillRec \<Rightarrow> bool) \<Rightarrow> spillRec \<Rightarrow> sub_run \<Rightarrow> sub_run \<times> sub_end option" where
  "sub_record z ord b3 rd maxInt wr stop handles rootOf full keep r s =
     (if stop (su_polls s) then (s, Some SubCancelled)
      else (let s1 = s\<lparr>su_polls := Suc (su_polls s)\<rparr> in
        if s_root r \<ge> length rootOf \<or> \<not> keep r then (s1, None)
        else (let f = sub_entry handles rootOf r in
          case cr_pfx rd f of
            Inl er \<Rightarrow> (s1\<lparr>su_unread := su_unread s1 @ [f]\<rparr>, None)
          | Inr h \<Rightarrow> if full then sub_full z ord b3 rd maxInt wr r f h s1 else sub_write maxInt wr r h s1)))"

datatype sub_err = NoSubSpill | SubUnreadable

text \<open>\<open>hashSubSpill\<close>: what the pass leaves behind, and whether it failed; \<open>mk\<close> says whether
  the spill file can be created, \<open>stopped\<close> is the last poll.  Its caller's accumulator counts the
  entries that could not be read.\<close>

definition hashSubSpill ::
  "cacheSizes \<Rightarrow> (key \<times> hcEnt) reorder \<Rightarrow> (gostring \<Rightarrow> gostring) \<Rightarrow> creads \<Rightarrow> nat \<Rightarrow> (spillRec \<Rightarrow> bool) \<Rightarrow> polls \<Rightarrow> bool
    \<Rightarrow> bool \<Rightarrow> nat option list \<Rightarrow> path list \<Rightarrow> bool \<Rightarrow> (spillRec \<Rightarrow> bool) \<Rightarrow> spill \<Rightarrow> hashCache option
    \<Rightarrow> sub_run \<times> sub_err option" where
  "hashSubSpill z ord b3 rd maxInt wr stop stopped mk handles rootOf full keep src hc =
     (let s0 = \<lparr>su_sub = newSpill, su_n = 0, su_unread = [], su_rot = [], su_cache = hc, su_polls = 0\<rparr> in
      if \<not> mk then (s0, Some NoSubSpill)
      else (case each src (sub_record z ord b3 rd maxInt wr stop handles rootOf full keep) s0 of
          (s, EachDone) \<Rightarrow> (s, None)
        | (s, EachStopped SubCancelled) \<Rightarrow> (s, None)
        | (s, _) \<Rightarrow> (s, if stopped then None else Some SubUnreadable)))"

subsection \<open>The ladder\<close>

definition dupWindowFiles :: nat where "dupWindowFiles = 100000"
definition dupKeyFileCap :: nat where "dupKeyFileCap = 25000"
definition dupWindowMax :: nat where "dupWindowMax = 400000"

definition parts_for :: "nat \<Rightarrow> nat" where
  "parts_for n = (if n > dupWindowFiles then (n + dupWindowFiles - 1) div dupWindowFiles else 1)"

text \<open>What the passes of one scan share: \<open>le_cap\<close> is \<open>dupFileCap\<close>, \<open>le_ct\<close> File
  Station's creation times when there is a session, \<open>le_mk\<close> whether a spill file can be created.\<close>

record lenv =
  le_cap :: nat
  le_sizes :: cacheSizes
  le_orders :: orders
  le_b3 :: "gostring \<Rightarrow> gostring"
  le_fm :: fmt
  le_match :: MatchOpts
  le_rd :: creads
  le_ct :: "(path list \<Rightarrow> path \<rightharpoonup> time) option"
  le_maxInt :: nat
  le_wr :: "spillRec \<Rightarrow> bool"
  le_mk :: "bool \<Rightarrow> nat \<Rightarrow> bool"
  le_handles :: "nat option list"
  le_roots :: "path list"

record ladder =
  la_acc :: groupTop
  la_cache :: "hashCache option"
  la_missing :: nat

text \<open>What grouping sees of a read.\<close>

definition plain_reads :: "creads \<Rightarrow> reads" where
  "plain_reads rd =
     \<lparr>rd_pfx = (\<lambda>f. case cr_pfx rd f of Inl _ \<Rightarrow> None | Inr h \<Rightarrow> Some h),
      rd_full = (\<lambda>f. case cr_full rd f of Inl _ \<Rightarrow> None | Inr h \<Rightarrow> Some h)\<rparr>"

definition enrichCreated :: "(path list \<Rightarrow> path \<rightharpoonup> time) \<Rightarrow> fEnt list \<Rightarrow> fEnt list \<times> nat" where
  "enrichCreated ct cands =
     (if cands = [] then (cands, 0)
      else (let m = ct (map f_path cands) in
        (map (\<lambda>f. case m (f_path f) of Some t \<Rightarrow> f\<lparr>f_created := t\<rparr> | None \<Rightarrow> f) cands,
         length (filter (\<lambda>f. m (f_path f) = None) cands))))"

definition enriched :: "lenv \<Rightarrow> fEnt list \<Rightarrow> fEnt list \<times> nat" where
  "enriched le win =
     (case le_ct le of
        Some ct \<Rightarrow> if MCreated (le_match le) then enrichCreated ct win else (win, 0)
      | None \<Rightarrow> (win, 0))"

definition group_window :: "lenv \<Rightarrow> fEnt list \<Rightarrow> ladder \<Rightarrow> ladder" where
  "group_window le win st =
     (let (win1, missing) = enriched le win;
          (acc, hc) = dupWindow (le_cap le) (le_sizes le) (le_orders le) (le_b3 le) (le_fm le) (le_match le)
                        (plain_reads (le_rd le)) win1 (la_cache st) (la_acc st)
      in \<lparr>la_acc = acc, la_cache = hc, la_missing = la_missing st + missing\<rparr>)"

definition runSkewWindow :: "lenv \<Rightarrow> fEnt list \<Rightarrow> ladder \<Rightarrow> ladder" where
  "runSkewWindow le win st = (if win = [] then st else group_window le win st)"

definition note_skipped :: "nat \<Rightarrow> ladder \<Rightarrow> ladder" where
  "note_skipped n st = st\<lparr>la_acc := group_noteSkipped n (la_acc st)\<rparr>"

text \<open>The bottom: one tag at a time.\<close>

fun tag_slices :: "lenv \<Rightarrow> spill \<Rightarrow> key list \<Rightarrow> ladder \<Rightarrow> ladder \<times> sub_err option" where
  "tag_slices le sp [] st = (st, None)"
| "tag_slices le sp (t # ts) st =
     (case tagSlice t (le_handles le) (le_roots le) (le_cap le) sp of
        None \<Rightarrow> (st, Some SubUnreadable)
      | Some (win, skipped) \<Rightarrow> tag_slices le sp ts (runSkewWindow le win (note_skipped skipped st)))"

fun prefix_parts :: "lenv \<Rightarrow> spill \<Rightarrow> nat \<Rightarrow> nat list \<Rightarrow> ladder \<Rightarrow> ladder \<times> sub_err option" where
  "prefix_parts le sp parts [] st = (st, None)"
| "prefix_parts le sp parts (p # ps) st =
     (case tagWindow p parts (le_cap le) dupWindowMax (le_handles le) (le_roots le) sp of
        None \<Rightarrow> (st, Some SubUnreadable)
      | Some (win, over, crowded) \<Rightarrow>
          (case (if crowded > 0 then map_option (Pair []) (tagsIn p parts sp) else Some (win, over)) of
             None \<Rightarrow> (st, Some SubUnreadable)
           | Some (w, ts) \<Rightarrow>
               (case tag_slices le sp ts (runSkewWindow le w st) of
                  (st1, Some e) \<Rightarrow> (st1, Some e)
                | (st1, None) \<Rightarrow> prefix_parts le sp parts ps st1)))"

definition sub_hashed :: "lenv \<Rightarrow> bool \<Rightarrow> nat \<Rightarrow> (spillRec \<Rightarrow> bool) \<Rightarrow> spill \<Rightarrow> ladder \<Rightarrow> sub_run \<times> ladder \<times> sub_err option" where
  "sub_hashed le full which keep sp st =
     (let (su, e) = hashSubSpill (le_sizes le) (or_store (le_orders le)) (le_b3 le) (le_rd le) (le_maxInt le) (le_wr le)
                      never False (le_mk le full which) (le_handles le) (le_roots le) full keep sp (la_cache st)
      in (su, note_skipped (length (su_unread su)) (st\<lparr>la_cache := su_cache su\<rparr>), e))"

definition resolveSkewedPrefix :: "lenv \<Rightarrow> nat \<Rightarrow> (spillRec \<Rightarrow> bool) \<Rightarrow> spill \<Rightarrow> ladder \<Rightarrow> ladder \<times> sub_err option" where
  "resolveSkewedPrefix le which keep sub st =
     (case sub_hashed le True which keep sub st of
        (su, st1, Some e) \<Rightarrow> (st1, Some e)
      | (su, st1, None) \<Rightarrow> prefix_parts le (su_sub su) (parts_for (su_n su)) [0..<parts_for (su_n su)] st1)"

fun prefix_tags :: "lenv \<Rightarrow> spill \<Rightarrow> key list \<Rightarrow> ladder \<Rightarrow> ladder \<times> sub_err option" where
  "prefix_tags le sub [] st = (st, None)"
| "prefix_tags le sub (t # ts) st =
     (case resolveSkewedPrefix le (unat t) (\<lambda>r. s_tag r = t) sub st of
        (st1, Some e) \<Rightarrow> (st1, Some e)
      | (st1, None) \<Rightarrow> prefix_tags le sub ts st1)"

fun key_parts :: "lenv \<Rightarrow> spill \<Rightarrow> nat \<Rightarrow> nat list \<Rightarrow> ladder \<Rightarrow> ladder \<times> sub_err option" where
  "key_parts le sub parts [] st = (st, None)"
| "key_parts le sub parts (p # ps) st =
     (case tagWindow p parts dupKeyFileCap dupWindowMax (le_handles le) (le_roots le) sub of
        None \<Rightarrow> (st, Some SubUnreadable)
      | Some (win, over, crowded) \<Rightarrow>
          (case (if crowded > 0 then resolveSkewedPrefix le p (\<lambda>r. in_part p parts (s_tag r)) sub st
                 else prefix_tags le sub over (runSkewWindow le win st)) of
             (st1, Some e) \<Rightarrow> (st1, Some e)
           | (st1, None) \<Rightarrow> key_parts le sub parts ps st1))"

definition resolveSkewedKey :: "lenv \<Rightarrow> key \<Rightarrow> spill \<Rightarrow> ladder \<Rightarrow> ladder \<times> sub_err option" where
  "resolveSkewedKey le k cs st =
     (case sub_hashed le False (unat k) (\<lambda>r. rec_key (le_match le) r = k) cs st of
        (su, st1, Some e) \<Rightarrow> (st1, Some e)
      | (su, st1, None) \<Rightarrow> key_parts le (su_sub su) (parts_for (su_n su)) [0..<parts_for (su_n su)] st1)"

fun skewed_keys :: "lenv \<Rightarrow> spill \<Rightarrow> key list \<Rightarrow> ladder \<Rightarrow> ladder \<times> sub_err option" where
  "skewed_keys le cs [] st = (st, None)"
| "skewed_keys le cs (k # ks) st =
     (case resolveSkewedKey le k cs st of
        (st1, Some e) \<Rightarrow> (st1, Some e)
      | (st1, None) \<Rightarrow> skewed_keys le cs ks st1)"

text \<open>The loop over the windows; \<open>wrote\<close> says whether saving the store succeeds.\<close>

fun candidate_windows :: "lenv \<Rightarrow> (nat \<Rightarrow> bool) \<Rightarrow> spill \<Rightarrow> nat \<Rightarrow> nat list \<Rightarrow> ladder \<Rightarrow> ladder \<times> sub_err option" where
  "candidate_windows le wrote cs parts [] st = (st, None)"
| "candidate_windows le wrote cs parts (p # ps) st =
     (case window p parts (le_match le) (le_handles le) (le_roots le) dupKeyFileCap dupWindowMax cs of
        None \<Rightarrow> (st, Some SubUnreadable)
      | Some (cands, over, skipped) \<Rightarrow>
          (case skewed_keys le cs over (group_window le cands (note_skipped skipped st)) of
             (st1, Some e) \<Rightarrow> (st1, Some e)
           | (st1, None) \<Rightarrow>
               candidate_windows le wrote cs parts ps
                 (st1\<lparr>la_cache := map_option (\<lambda>c. snd (snd (saveMid (le_sizes le) (or_store (le_orders le)) (wrote p) c)))
                                     (la_cache st1)\<rparr>)))"

definition hashCandidateWindows :: "lenv \<Rightarrow> (nat \<Rightarrow> bool) \<Rightarrow> spill \<Rightarrow> nat \<Rightarrow> ladder \<Rightarrow> ladder \<times> sub_err option" where
  "hashCandidateWindows le wrote cs nCand st = candidate_windows le wrote cs (parts_for nCand) [0..<parts_for nCand] st"

subsection \<open>What the hashing pass leaves\<close>

definition entries_of :: "nat option list \<Rightarrow> path list \<Rightarrow> spillRec list \<Rightarrow> fEnt list" where
  "entries_of handles rootOf recs = map (sub_entry handles rootOf) recs"

text \<open>A record with the tag of what it holds, nothing when that cannot be read.\<close>

definition tagged :: "creads \<Rightarrow> bool \<Rightarrow> nat option list \<Rightarrow> path list \<Rightarrow> spillRec \<Rightarrow> spillRec option" where
  "tagged rd full handles rootOf r =
     (case cr_pfx rd (sub_entry handles rootOf r) of
        Inl _ \<Rightarrow> None
      | Inr h \<Rightarrow>
          if full then (case cr_full rd (sub_entry handles rootOf r) of
                          Inl _ \<Rightarrow> None | Inr w \<Rightarrow> Some (r\<lparr>s_tag := prefixTag w\<rparr>))
          else Some (r\<lparr>s_tag := prefixTag h\<rparr>))"

definition sub_kept :: "path list \<Rightarrow> (spillRec \<Rightarrow> bool) \<Rightarrow> spillRec list \<Rightarrow> spillRec list" where
  "sub_kept rootOf keep recs = filter (\<lambda>r. s_root r < length rootOf \<and> keep r) recs"

definition readable_recs ::
  "creads \<Rightarrow> bool \<Rightarrow> nat option list \<Rightarrow> path list \<Rightarrow> (spillRec \<Rightarrow> bool) \<Rightarrow> spillRec list \<Rightarrow> spillRec list" where
  "readable_recs rd full handles rootOf keep recs = List.map_filter (tagged rd full handles rootOf) (sub_kept rootOf keep recs)"

definition unreadable_ents ::
  "creads \<Rightarrow> bool \<Rightarrow> nat option list \<Rightarrow> path list \<Rightarrow> (spillRec \<Rightarrow> bool) \<Rightarrow> spillRec list \<Rightarrow> fEnt list" where
  "unreadable_ents rd full handles rootOf keep recs =
     entries_of handles rootOf (filter (\<lambda>r. tagged rd full handles rootOf r = None) (sub_kept rootOf keep recs))"

lemma rec_ok_tag [simp]: "rec_ok (r\<lparr>s_tag := t\<rparr>) = rec_ok r"
  by (simp add: rec_ok_def)

text \<open>The state of the pass after records \<open>done\<close>.\<close>

definition sub_after ::
  "(gostring \<Rightarrow> gostring) \<Rightarrow> creads \<Rightarrow> fEnt list \<Rightarrow> bool \<Rightarrow> nat option list \<Rightarrow> path list \<Rightarrow> (spillRec \<Rightarrow> bool)
    \<Rightarrow> spillRec list \<Rightarrow> sub_run \<Rightarrow> bool" where
  "sub_after b3 rd files full handles rootOf keep past s \<longleftrightarrow>
     holds_recs (readable_recs rd full handles rootOf keep past) (su_sub s)
     \<and> su_n s = length (readable_recs rd full handles rootOf keep past)
     \<and> su_unread s = unreadable_ents rd full handles rootOf keep past
     \<and> vouched b3 rd files (su_cache s)"

lemma readable_snoc:
  "readable_recs rd full handles rootOf keep (past @ [r]) = readable_recs rd full handles rootOf keep past
     @ (if s_root r < length rootOf \<and> keep r then (case tagged rd full handles rootOf r of None \<Rightarrow> [] | Some r' \<Rightarrow> [r']) else [])"
  "unreadable_ents rd full handles rootOf keep (past @ [r]) = unreadable_ents rd full handles rootOf keep past
     @ (if s_root r < length rootOf \<and> keep r \<and> tagged rd full handles rootOf r = None then [sub_entry handles rootOf r] else [])"
  by (auto simp: readable_recs_def unreadable_ents_def sub_kept_def entries_of_def List.map_filter_def split: option.splits)

lemma length_readable_recs: "length (readable_recs rd full handles rootOf keep recs) \<le> length recs"
  unfolding readable_recs_def sub_kept_def List.map_filter_def length_map
  by (rule order.trans [OF length_filter_le length_filter_le])

lemma sub_write_ok:
  assumes "holds_recs past (su_sub s)" and "su_n s = length past" and "length past < maxInt" and "rec_ok r"
  obtains sp where "sub_write maxInt (\<lambda>_. True) r h s = (s\<lparr>su_n := su_n s + 1, su_sub := sp\<rparr>, None)"
    and "holds_recs (past @ [r\<lparr>s_tag := prefixTag h\<rparr>]) sp"
proof -
  obtain sp where sp: "addRaw maxInt True (r\<lparr>s_tag := prefixTag h\<rparr>) (su_sub s) = Some sp"
    using addRaw_Some [OF assms(1), of maxInt "r\<lparr>s_tag := prefixTag h\<rparr>"] assms(3) by auto
  have "holds_recs (past @ [r\<lparr>s_tag := prefixTag h\<rparr>]) sp"
    by (rule holds_add [OF assms(1) _ sp]) (simp add: assms(4))
  then show thesis using that [of sp] sp by (simp add: sub_write_def)
qed

lemma sub_record_ok:
  assumes fa: "faithful rd files" and t: "tags_apart b3 files" and f: "s_root r < length rootOf \<Longrightarrow> keep r \<Longrightarrow> sub_entry handles rootOf r \<in> set files"
    and a: "sub_after b3 rd files full handles rootOf keep past s" and l: "length past < maxInt" and r: "rec_ok r"
  shows "\<exists>s'. sub_record z ord b3 rd maxInt (\<lambda>_. True) never handles rootOf full keep r s = (s', None)
    \<and> sub_after b3 rd files full handles rootOf keep (past @ [r]) s'"
proof (cases "s_root r < length rootOf \<and> keep r")
  case False
  then show ?thesis using a by (auto simp: sub_record_def sub_after_def readable_snoc Let_def not_less)
next
  case True
  let ?f = "sub_entry handles rootOf r" and ?s = "s\<lparr>su_polls := Suc (su_polls s)\<rparr>"
  let ?past = "readable_recs rd full handles rootOf keep past"
  have fin: "?f \<in> set files" using f True by simp
  have lp: "length ?past < maxInt" using length_readable_recs [of rd full handles rootOf keep past] l by linarith
  have h: "holds_recs ?past (su_sub s')" "su_n s' = length ?past" if "su_sub s' = su_sub s" "su_n s' = su_n s" for s'
    using a that by (auto simp: sub_after_def)
  have run: "sub_record z ord b3 rd maxInt (\<lambda>_. True) never handles rootOf full keep r s =
      (case cr_pfx rd ?f of
         Inl er \<Rightarrow> (?s\<lparr>su_unread := su_unread ?s @ [?f]\<rparr>, None)
       | Inr h \<Rightarrow> if full then sub_full z ord b3 rd maxInt (\<lambda>_. True) r ?f h ?s else sub_write maxInt (\<lambda>_. True) r h ?s)"
    using True by (simp add: sub_record_def Let_def not_le)
  have wrote: "\<exists>s'. sub_write maxInt (\<lambda>_. True) r w s2 = (s', None) \<and> sub_after b3 rd files full handles rootOf keep (past @ [r]) s'"
    if "su_sub s2 = su_sub s" "su_n s2 = su_n s" "su_unread s2 = su_unread s" "vouched b3 rd files (su_cache s2)"
      "tagged rd full handles rootOf r = Some (r\<lparr>s_tag := prefixTag w\<rparr>)" for w s2
  proof -
    note h2 = h(1) [OF that(1,2)] h(2) [OF that(1,2)]
    obtain sp where sp: "sub_write maxInt (\<lambda>_. True) r w s2 = (s2\<lparr>su_n := su_n s2 + 1, su_sub := sp\<rparr>, None)"
      "holds_recs (?past @ [r\<lparr>s_tag := prefixTag w\<rparr>]) sp"
      by (rule sub_write_ok [OF h2 lp r])
    then show ?thesis using a that True by (auto simp: sub_after_def readable_snoc)
  qed
  show ?thesis
  proof (cases "cr_pfx rd ?f")
    case (Inl er)
    then show ?thesis using a True unfolding run by (simp add: sub_after_def readable_snoc tagged_def)
  next
    case (Inr p)
    show ?thesis
    proof (cases full)
      case False
      then show ?thesis using wrote [of ?s p] a Inr True unfolding run by (simp add: tagged_def sub_after_def)
    next
      case full: True
      have v: "vouched b3 rd files (su_cache s)" using a by (simp add: sub_after_def)
      show ?thesis
      proof (cases "lookup b3 (su_cache s) (f_path ?f) (f_size ?f) (unix ?f) p")
        case (Some w)
        then have "cr_full rd ?f = Inr w" using vouched_lookup [OF v fin] by blast
        then have "tagged rd full handles rootOf r = Some (r\<lparr>s_tag := prefixTag w\<rparr>)" using Inr full by (simp add: tagged_def)
        from wrote [OF _ _ _ _ this, of ?s] show ?thesis using Inr full Some v unfolding run by (simp add: sub_full_def)
      next
        case None
        show ?thesis
        proof (cases "cr_full rd ?f")
          case (Inl er)
          then show ?thesis using a True Inr full None unfolding run
            by (simp add: sub_full_def sub_after_def readable_snoc tagged_def)
        next
          case w: (Inr w)
          obtain moved hc where rc: "record_hash z ord b3 (su_cache s) (f_path ?f) (f_size ?f) (unix ?f) p w = (moved, hc)"
            by (metis prod.collapse)
          have "vouched b3 rd files hc"
            using vouched_record [OF v fa t fin w, of z ord "f_size ?f" "unix ?f" p] rc by simp
          moreover have "tagged rd full handles rootOf r = Some (r\<lparr>s_tag := prefixTag w\<rparr>)" using Inr full w by (simp add: tagged_def)
          ultimately show ?thesis
            using wrote [of "?s\<lparr>su_cache := hc, su_rot := su_rot s @ (case moved of None \<Rightarrow> [] | Some prior \<Rightarrow> [(f_path ?f, prior)])\<rparr>" w]
              Inr full None w rc unfolding run by (simp add: sub_full_def Let_def)
        qed
      qed
    qed
  qed
qed

text \<open>The spill of a pass holds the readable records with their tags, and every other record kept is
  reported as unreadable.\<close>

lemma hashSubSpill_ok:
  assumes fa: "faithful rd files" and t: "tags_apart b3 files" and v: "vouched b3 rd files hc"
    and f: "\<forall>r \<in> set (sub_kept rootOf keep recs). sub_entry handles rootOf r \<in> set files"
    and src: "holds_recs recs src" and l: "length recs \<le> maxInt"
  shows "\<exists>su. hashSubSpill z ord b3 rd maxInt (\<lambda>_. True) never False True handles rootOf full keep src hc = (su, None)
    \<and> sub_after b3 rd files full handles rootOf keep recs su"
proof -
  let ?fn = "sub_record z ord b3 rd maxInt (\<lambda>_. True) never handles rootOf full keep"
  have pass: "\<exists>s'. each_list ?fn rs s = (s', EachDone) \<and> sub_after b3 rd files full handles rootOf keep (past @ rs) s'"
    if "sub_after b3 rd files full handles rootOf keep past s" "recs = past @ rs" for past rs s
    using that
  proof (induction rs arbitrary: past s)
    case (Cons r rs)
    have "rec_ok r" using src Cons.prems(2) by (auto simp: holds_recs_def)
    moreover have "length past < maxInt" using l Cons.prems(2) by simp
    moreover have "sub_entry handles rootOf r \<in> set files" if "s_root r < length rootOf" "keep r"
      using f that Cons.prems(2) by (auto simp: sub_kept_def)
    ultimately obtain s' where s': "?fn r s = (s', None)" "sub_after b3 rd files full handles rootOf keep (past @ [r]) s'"
      using sub_record_ok [OF fa t _ Cons.prems(1)] by blast
    show ?case using Cons.IH [OF s'(2)] Cons.prems(2) s'(1) by simp
  qed simp
  let ?s0 = "\<lparr>su_sub = newSpill, su_n = 0, su_unread = [], su_rot = [], su_cache = hc, su_polls = 0\<rparr>"
  have "sub_after b3 rd files full handles rootOf keep [] ?s0"
    using v holds_new by (simp add: sub_after_def readable_recs_def unreadable_ents_def sub_kept_def entries_of_def map_filter_simps)
  from pass [OF this, of recs] obtain su where "each_list ?fn recs ?s0 = (su, EachDone)"
    "sub_after b3 rd files full handles rootOf keep recs su" by auto
  then show ?thesis using each_holds [OF src, of ?fn ?s0] by (simp add: hashSubSpill_def Let_def)
qed

subsection \<open>The windows of the bottom rung\<close>

text \<open>One window of the ladder: the records it holds and how many it left out.\<close>

definition run_window :: "lenv \<Rightarrow> spillRec list \<times> nat \<Rightarrow> ladder \<Rightarrow> ladder" where
  "run_window le w st = runSkewWindow le (map (rec_ent (le_handles le) (le_roots le)) (fst w)) (note_skipped (snd w) st)"

definition same_tag :: "key \<Rightarrow> spillRec list \<Rightarrow> spillRec list" where
  "same_tag t recs = filter (\<lambda>r. s_tag r = t) recs"

definition tag_slice :: "nat \<Rightarrow> spillRec list \<Rightarrow> key \<Rightarrow> spillRec list \<times> nat" where
  "tag_slice cap recs t = (take cap (same_tag t recs), length (same_tag t recs) - cap)"

lemma note_skipped_0 [simp]: "note_skipped 0 st = st"
  by (simp add: note_skipped_def group_noteSkipped_def)

lemma tag_slices_run:
  assumes "holds_recs recs sp" and "\<forall>r \<in> set recs. s_root r < length (le_roots le)" and "0 < le_cap le"
  shows "tag_slices le sp ts st = (fold (run_window le) (map (tag_slice (le_cap le) recs) ts) st, None)"
proof (induction ts arbitrary: st)
  case (Cons t ts)
  have "filter (\<lambda>r. s_root r < length (le_roots le) \<and> s_tag r = t) recs = same_tag t recs"
    unfolding same_tag_def using assms(2) by (intro filter_cong) auto
  then show ?case
    using Cons assms(3)
    by (simp add: tagSlice_def materialize_holds [OF assms(1)] Let_def run_window_def tag_slice_def take_map)
qed simp

text \<open>What the windows of some tags are: the small tags together, then each big one alone.\<close>

definition part_windows :: "nat \<Rightarrow> spillRec list \<Rightarrow> (key \<Rightarrow> bool) \<Rightarrow> key list \<Rightarrow> (spillRec list \<times> nat) list" where
  "part_windows cap recs P ts = (filter (\<lambda>r. P (s_tag r) \<and> s_tag r \<notin> set ts) recs, 0) # map (tag_slice cap recs) ts"

definition whole_tags :: "nat \<Rightarrow> spillRec list \<Rightarrow> (key \<Rightarrow> bool) \<Rightarrow> (spillRec list \<times> nat) list \<Rightarrow> bool" where
  "whole_tags cap recs P ws \<longleftrightarrow>
     (\<forall>t. same_tag t (concat (map fst ws)) = (if P t then take cap (same_tag t recs) else []))
     \<and> (\<forall>i < length ws. \<forall>j < length ws. \<forall>r \<in> set (fst (ws ! i)). \<forall>r' \<in> set (fst (ws ! j)). s_tag r = s_tag r' \<longrightarrow> i = j)
     \<and> length (concat (map fst ws)) + sum_list (map snd ws) = length (filter (\<lambda>r. P (s_tag r)) recs)"

lemma sum_same_tags: "distinct ts \<Longrightarrow> (\<Sum>t\<leftarrow>ts. length (same_tag t recs)) = length (filter (\<lambda>r. s_tag r \<in> set ts) recs)"
proof (induction recs)
  case (Cons r recs)
  have "(\<Sum>t\<leftarrow>ts. length (same_tag t (r # recs))) = (\<Sum>t\<leftarrow>ts. of_bool (s_tag r = t) + length (same_tag t recs))"
    by (intro arg_cong [of _ _ sum_list] map_cong) (auto simp: same_tag_def)
  also have "\<dots> = (\<Sum>t\<leftarrow>ts. of_bool (s_tag r = t)) + (\<Sum>t\<leftarrow>ts. length (same_tag t recs))" by (rule sum_list_addf)
  also have "(\<Sum>t\<leftarrow>ts. of_bool (s_tag r = t)) = (of_bool (s_tag r \<in> set ts) :: nat)"
    using Cons.prems by (induction ts) auto
  finally show ?case using Cons by simp
qed (simp add: same_tag_def)

lemma same_tag_slices:
  "distinct ts \<Longrightarrow> same_tag t (concat (map (fst \<circ> tag_slice cap recs) ts)) = (if t \<in> set ts then take cap (same_tag t recs) else [])"
proof (induction ts)
  case (Cons u ts)
  have "same_tag t (take cap (same_tag u recs)) = (if t = u then take cap (same_tag u recs) else [])"
    unfolding same_tag_def by (auto simp: filter_empty_conv dest: in_set_takeD intro!: filter_True)
  then show ?case using Cons by (auto simp: tag_slice_def same_tag_def)
qed (simp add: same_tag_def)

lemma part_windows_whole:
  assumes d: "distinct ts" and sub: "\<forall>t \<in> set ts. P t" and small: "\<And>t. P t \<Longrightarrow> t \<notin> set ts \<Longrightarrow> length (same_tag t recs) \<le> cap"
  shows "whole_tags cap recs P (part_windows cap recs P ts)"
proof -
  let ?w0 = "filter (\<lambda>r. P (s_tag r) \<and> s_tag r \<notin> set ts) recs" and ?ws = "part_windows cap recs P ts"
  have ws: "?ws = (?w0, 0) # map (tag_slice cap recs) ts" by (simp add: part_windows_def)
  have tags: "same_tag t (concat (map fst ?ws)) = (if P t then take cap (same_tag t recs) else [])" for t
  proof -
    have "same_tag t ?w0 = (if P t \<and> t \<notin> set ts then same_tag t recs else [])"
      unfolding same_tag_def by (auto simp: filter_empty_conv intro!: filter_cong)
    moreover have "same_tag t (concat (map fst ?ws)) = same_tag t ?w0 @ same_tag t (concat (map (fst \<circ> tag_slice cap recs) ts))"
      by (simp add: ws same_tag_def)
    ultimately show ?thesis using same_tag_slices [OF d] sub small [of t] by auto
  qed
  have mem: "s_tag r = ts ! i" if "i < length ts" "r \<in> set (fst (map (tag_slice cap recs) ts ! i))" for r i
    using that by (auto simp: tag_slice_def same_tag_def dest: in_set_takeD)
  have one: "i = j" if i: "i < length ?ws" "r \<in> set (fst (?ws ! i))" and j: "j < length ?ws" "r' \<in> set (fst (?ws ! j))"
    and eq: "s_tag r = s_tag r'" for i j r r'
  proof (cases i)
    case 0
    then have n: "s_tag r \<notin> set ts" using i(2) by (simp add: ws)
    then show ?thesis
    proof (cases j)
      case (Suc j')
      then show ?thesis using mem [of j' r'] j eq n by (auto simp: ws)
    qed (use 0 in simp)
  next
    case (Suc i')
    then have r: "i' < length ts" "s_tag r = ts ! i'" using mem [of i' r] i by (auto simp: ws)
    show ?thesis
    proof (cases j)
      case 0
      then show ?thesis using j(2) r eq by (auto simp: ws)
    next
      case (Suc j')
      then have "j' < length ts" "s_tag r' = ts ! j'" using mem [of j' r'] j by (auto simp: ws)
      then show ?thesis using r eq d Suc \<open>i = Suc i'\<close> nth_eq_iff_index_eq by fastforce
    qed
  qed
  have cnt: "length (take cap (same_tag t recs)) + (length (same_tag t recs) - cap) = length (same_tag t recs)" for t by simp
  have "length (concat (map fst ?ws)) + sum_list (map snd ?ws)
      = length ?w0 + ((\<Sum>t\<leftarrow>ts. length (take cap (same_tag t recs))) + (\<Sum>t\<leftarrow>ts. length (same_tag t recs) - cap))"
    by (simp add: ws length_concat o_def tag_slice_def)
  also have "\<dots> = length ?w0 + (\<Sum>t\<leftarrow>ts. length (same_tag t recs))"
    unfolding sum_list_addf [symmetric] cnt ..
  also have "\<dots> = length ?w0 + length (filter (\<lambda>r. s_tag r \<in> set ts) (filter (\<lambda>r. P (s_tag r)) recs))"
    unfolding sum_same_tags [OF d] filter_filter using sub by (auto intro!: arg_cong [of _ _ length] filter_cong)
  also have "\<dots> = length (filter (\<lambda>r. P (s_tag r)) recs)"
    using sum_length_filter_compl [of "\<lambda>r. s_tag r \<in> set ts" "filter (\<lambda>r. P (s_tag r)) recs"]
    by (simp add: conj_commute)
  finally show ?thesis using tags one unfolding whole_tags_def by blast
qed

lemma whole_tags_mem:
  assumes "whole_tags cap recs P ws" and "i < length ws" and "r \<in> set (fst (ws ! i))"
  shows "P (s_tag r)"
proof (rule ccontr)
  assume "\<not> P (s_tag r)"
  then have "same_tag (s_tag r) (concat (map fst ws)) = []" using assms(1) by (simp add: whole_tags_def)
  moreover have "r \<in> set (concat (map fst ws))" using assms(2,3) by (auto simp: in_set_conv_nth [of _ ws]) (use nth_mem in blast)
  ultimately show False by (auto simp: same_tag_def filter_empty_conv)
qed

lemma whole_tags_append:
  assumes P: "whole_tags cap recs P ws" and Q: "whole_tags cap recs Q vs" and PQ: "\<And>t. \<not> (P t \<and> Q t)"
  shows "whole_tags cap recs (\<lambda>t. P t \<or> Q t) (ws @ vs)"
proof -
  have tags: "same_tag t (concat (map fst (ws @ vs))) = (if P t \<or> Q t then take cap (same_tag t recs) else [])" for t
  proof -
    have "same_tag t (concat (map fst (ws @ vs))) = same_tag t (concat (map fst ws)) @ same_tag t (concat (map fst vs))"
      by (simp add: same_tag_def)
    then show ?thesis using P Q PQ [of t] by (auto simp: whole_tags_def)
  qed
  have one: "i = j" if i: "i < length (ws @ vs)" "r \<in> set (fst ((ws @ vs) ! i))"
    and j: "j < length (ws @ vs)" "r' \<in> set (fst ((ws @ vs) ! j))" and eq: "s_tag r = s_tag r'" for i j r r'
  proof (cases "i < length ws"; cases "j < length ws")
    assume "i < length ws" "j < length ws"
    then show ?thesis using P i j eq unfolding whole_tags_def by (simp add: nth_append) metis
  next
    assume a: "i < length ws" "\<not> j < length ws"
    then have "P (s_tag r)" using whole_tags_mem [OF P, of i r] i by (simp add: nth_append)
    moreover have "Q (s_tag r')" using whole_tags_mem [OF Q, of "j - length ws" r'] j a by (simp add: nth_append)
    ultimately show ?thesis using PQ eq by metis
  next
    assume a: "\<not> i < length ws" "j < length ws"
    then have "P (s_tag r')" using whole_tags_mem [OF P, of j r'] j by (simp add: nth_append)
    moreover have "Q (s_tag r)" using whole_tags_mem [OF Q, of "i - length ws" r] i a by (simp add: nth_append)
    ultimately show ?thesis using PQ eq by metis
  next
    assume a: "\<not> i < length ws" "\<not> j < length ws"
    then have "i - length ws = j - length ws"
      using Q i j eq unfolding whole_tags_def by (simp add: nth_append) (metis le_add_diff_inverse less_diff_conv2 linorder_not_less add.commute)
    then show ?thesis using a by linarith
  qed
  have "length (filter (\<lambda>r. P (s_tag r) \<or> Q (s_tag r)) recs) = length (filter (\<lambda>r. P (s_tag r)) recs) + length (filter (\<lambda>r. Q (s_tag r)) recs)"
    using PQ by (induction recs) auto
  then show ?thesis using tags one P Q unfolding whole_tags_def by simp
qed

lemma tagsIn_holds:
  assumes "holds_recs recs sp"
  obtains ts where "tagsIn part parts sp = Some ts" "distinct ts" "set ts = {t \<in> s_tag ` set recs. in_part part parts t}"
proof -
  let ?f = "\<lambda>r seen. if in_part part parts (s_tag r) then List.insert (s_tag r) seen else seen"
  have "distinct (fold ?f recs []) \<and> set (fold ?f recs []) = {t \<in> s_tag ` set recs. in_part part parts t}"
    by (induction recs rule: rev_induct) auto
  then show thesis using that [of "sort (fold ?f recs [])"] by (simp add: tagsIn_def each_pure_holds [OF assms])
qed

lemma count_same_tag: "count_list (map s_tag recs) t = length (same_tag t recs)"
  by (induction recs) (auto simp: same_tag_def)

lemma prefix_part_run:
  assumes h: "holds_recs recs sp" and roots: "\<forall>r \<in> set recs. s_root r < length (le_roots le)" and cap: "0 < le_cap le"
  obtains ts where "prefix_parts le sp parts (p # ps) st =
      prefix_parts le sp parts ps (fold (run_window le) (part_windows (le_cap le) recs (in_part p parts) ts) st)"
    and "whole_tags (le_cap le) recs (in_part p parts) (part_windows (le_cap le) recs (in_part p parts) ts)"
proof -
  obtain win over crowded where w: "split_window s_tag p parts (le_cap le) dupWindowMax (le_handles le) (le_roots le) sp = Some (win, over, crowded)"
    using split_window_Some [OF h] by blast
  note W = split_window_cut [OF h w]
  have all: "filter (\<lambda>r. s_root r < length (le_roots le) \<and> Q r) recs = filter Q recs" for Q
    using roots by (intro filter_cong) auto
  have tw: "tagWindow p parts (le_cap le) dupWindowMax (le_handles le) (le_roots le) sp = Some (win, over, crowded)"
    using w by (simp add: tagWindow_def)
  show thesis
  proof (cases "crowded > 0")
    case True
    obtain ts where ts: "tagsIn p parts sp = Some ts" "distinct ts" "set ts = {t \<in> s_tag ` set recs. in_part p parts t}"
      by (rule tagsIn_holds [OF h, of p parts])
    have none: "filter (\<lambda>r. in_part p parts (s_tag r) \<and> s_tag r \<notin> set ts) recs = []"
      using ts(3) by (auto simp: filter_empty_conv)
    have "prefix_parts le sp parts (p # ps) st =
        prefix_parts le sp parts ps (fold (run_window le) (part_windows (le_cap le) recs (in_part p parts) ts) st)"
      using tw True ts(1) tag_slices_run [OF h roots cap] none
      by (simp add: part_windows_def run_window_def runSkewWindow_def)
    moreover have "whole_tags (le_cap le) recs (in_part p parts) (part_windows (le_cap le) recs (in_part p parts) ts)"
    proof (rule part_windows_whole)
      fix t assume "in_part p parts t" "t \<notin> set ts"
      then have "same_tag t recs = []" using ts(3) by (auto simp: same_tag_def filter_empty_conv)
      then show "length (same_tag t recs) \<le> le_cap le" by simp
    qed (use ts(2,3) in auto)
    ultimately show thesis using that by blast
  next
    case False
    have big: "t \<in> set over \<longleftrightarrow> in_part p parts t \<and> length (same_tag t recs) > le_cap le" for t
      using W(2) [of t] cap by (simp add: count_same_tag)
    have "win = map (rec_ent (le_handles le) (le_roots le)) (filter (\<lambda>r. in_part p parts (s_tag r) \<and> s_tag r \<notin> set over) recs)"
      using W(1,3) False cap unfolding all
      by (auto simp: big count_same_tag dupWindowMax_def intro!: arg_cong [of _ _ "map (rec_ent (le_handles le) (le_roots le))"] filter_cong)
    then have "prefix_parts le sp parts (p # ps) st =
        prefix_parts le sp parts ps (fold (run_window le) (part_windows (le_cap le) recs (in_part p parts) over) st)"
      using tw False tag_slices_run [OF h roots cap] by (simp add: part_windows_def run_window_def)
    moreover have "whole_tags (le_cap le) recs (in_part p parts) (part_windows (le_cap le) recs (in_part p parts) over)"
      using W(4) big by (intro part_windows_whole) (auto simp: not_less)
    ultimately show thesis using that by blast
  qed
qed

lemma prefix_parts_run:
  assumes h: "holds_recs recs sp" and roots: "\<forall>r \<in> set recs. s_root r < length (le_roots le)" and cap: "0 < le_cap le"
  shows "distinct ps \<Longrightarrow> (\<And>p q t. p \<in> set ps \<Longrightarrow> q \<in> set ps \<Longrightarrow> in_part p parts t \<Longrightarrow> in_part q parts t \<Longrightarrow> p = q)
    \<Longrightarrow> \<exists>ws. prefix_parts le sp parts ps st = (fold (run_window le) ws st, None)
        \<and> whole_tags (le_cap le) recs (\<lambda>t. \<exists>p \<in> set ps. in_part p parts t) ws"
proof (induction ps arbitrary: st)
  case Nil
  have "whole_tags (le_cap le) recs (\<lambda>t. False) []" by (simp add: whole_tags_def same_tag_def)
  then show ?case by (intro exI [of _ "[]"]) simp
next
  case (Cons p ps)
  obtain ts where p: "prefix_parts le sp parts (p # ps) st =
      prefix_parts le sp parts ps (fold (run_window le) (part_windows (le_cap le) recs (in_part p parts) ts) st)"
    "whole_tags (le_cap le) recs (in_part p parts) (part_windows (le_cap le) recs (in_part p parts) ts)"
    using prefix_part_run [OF h roots cap] .
  obtain ws where ws: "prefix_parts le sp parts ps (fold (run_window le) (part_windows (le_cap le) recs (in_part p parts) ts) st)
      = (fold (run_window le) ws (fold (run_window le) (part_windows (le_cap le) recs (in_part p parts) ts) st), None)"
    "whole_tags (le_cap le) recs (\<lambda>t. \<exists>p \<in> set ps. in_part p parts t) ws"
    using Cons.IH [of "fold (run_window le) (part_windows (le_cap le) recs (in_part p parts) ts) st"] Cons.prems by fastforce
  have "\<not> (in_part p parts t \<and> (\<exists>q \<in> set ps. in_part q parts t))" for t
    using Cons.prems(1) Cons.prems(2) [of p _ t] by auto
  from whole_tags_append [OF p(2) ws(2) this]
  show ?case using p(1) ws(1) by (intro exI [of _ "part_windows (le_cap le) recs (in_part p parts) ts @ ws"]) simp
qed

lemma parts_for_pos: "0 < parts_for n"
proof (cases "n > dupWindowFiles")
  case True
  then have "dupWindowFiles \<le> n + dupWindowFiles - 1" "0 < dupWindowFiles" by (simp_all add: dupWindowFiles_def)
  then show ?thesis using True by (simp add: parts_for_def div_greater_zero_iff)
qed (simp add: parts_for_def)

lemma readable_roots: "\<forall>r \<in> set (readable_recs rd full handles rootOf keep recs). s_root r < length rootOf"
  by (auto simp: readable_recs_def sub_kept_def List.map_filter_def tagged_def split: sum.splits if_splits)


subsection \<open>A small oversized key\<close>

definition ex_lenv :: lenv where
  "ex_lenv = \<lparr>le_cap = 2, le_sizes = cacheDefaults, le_orders = id_orders, le_b3 = id, le_fm = ex_fmt, le_match = ex_match,
     le_rd = \<lparr>cr_pfx = (\<lambda>_. Inr ''p''), cr_full = (\<lambda>_. Inr (EncodeToString (replicate 32 CHR ''x'')))\<rparr>,
     le_ct = None, le_maxInt = 9, le_wr = (\<lambda>_. True), le_mk = (\<lambda>_ _. True), le_handles = [None], le_roots = [''/v'']\<rparr>"

definition ex_ladder :: ladder where
  "ex_ladder = \<lparr>la_acc = newGroupTop 9, la_cache = None, la_missing = 0\<rparr>"


end
