(* ===== verification/CorruptPass.thy ===== *)
theory CorruptPass
  imports SkewSpill
begin

text \<open>
  The corrupted-files pass around its windows: \<open>scanCorrupted\<close>, \<open>corruptSkewedKey\<close> and
  the final listing, \<open>corruptTop.final\<close>, of \<open>server/corrupt.go\<close>.  What the ladder of
  verdicts sees of the disk is given for each set listed (record \<open>sights\<close> of JudgeSet), the wording
  of an evidence by the argument \<open>render\<close>.  The lemmas show that the accumulator keeps the best
  sets, that every member fed to it is either listed or counted, that the sample of an oversized family spans its
  variants as long as fewer than five hundred members are flagged, and what happens beyond that.
\<close>

subsection \<open>Words for a verdict\<close>

definition verdictSearchText :: "gostring \<Rightarrow> gostring" where
  "verdictSearchText v =
     (if v = verdictCorrupt then ''corrupt corrupted damaged''
      else if v = verdictIntact then ''intact good ok''
      else if v = verdictUnknown then ''unknown undetermined unclear''
      else [])"

definition verdictLabel :: "gostring \<Rightarrow> gostring" where
  "verdictLabel v =
     (if v = verdictCorrupt then ''Corrupted''
      else if v = verdictIntact then ''Intact''
      else if v = verdictUnknown then ''Undetermined''
      else [])"

subsection \<open>The listing\<close>

definition corrupt_sorted :: "corruptTop \<Rightarrow> corruptSet list" where
  "corrupt_sorted t = rank_sort betterSet (ct_sets t)"

definition corrupt_cut :: "corruptTop \<Rightarrow> nat \<Rightarrow> nat" where
  "corrupt_cut t budget = capCutIndex (map (\<lambda>c. length (cs_files c)) (corrupt_sorted t)) budget"

definition corrupt_dropS :: "corruptTop \<Rightarrow> nat \<Rightarrow> nat" where
  "corrupt_dropS t budget = ct_droppedSets t + (length (corrupt_sorted t) - corrupt_cut t budget)"

definition corrupt_dropF :: "corruptTop \<Rightarrow> nat \<Rightarrow> nat" where
  "corrupt_dropF t budget =
     ct_droppedFile t
     + sum_list (map (\<lambda>c. length (cs_files c)) (drop (corrupt_cut t budget) (corrupt_sorted t)))
     + sum_list (map cs_extra (corrupt_sorted t))
     + sum_list (map (\<lambda>c. length (cs_files c) - budget) (take (corrupt_cut t budget) (corrupt_sorted t)))"

definition corrupt_row :: "(evidence \<Rightarrow> string) \<Rightarrow> (fEnt \<Rightarrow> string) \<Rightarrow> corruptFile \<times> FileEnt \<Rightarrow> FileEnt" where
  "corrupt_row render captured mr =
     (snd mr)\<lparr>Hash := cf_hash (fst mr), Verdict := cf_verdict (fst mr), Evidence := render (cf_evidence (fst mr)),
       Captured := captured (cf_f (fst mr))\<rparr>"

definition corrupt_group ::
  "fmt \<Rightarrow> (evidence \<Rightarrow> string) \<Rightarrow> (fEnt \<Rightarrow> string) \<Rightarrow> sights \<Rightarrow> nat \<Rightarrow> nat \<Rightarrow> corruptSet \<Rightarrow> nat \<Rightarrow> Group \<times> nat" where
  "corrupt_group fm render captured si budget i c nextID =
     (let c1 = (if length (cs_files c) > budget then c\<lparr>cs_files := take budget (cs_files c)\<rparr> else c);
          c2 = fst (judgeSet si c1);
          (rows, n1) = fileEnts fm (map cf_f (cs_files c2)) nextID
      in (zero_Group\<lparr>GID := CHR ''c'' # dec i, GExt := extOf (fm_upper fm) (f_name (cf_f (hd (cs_files c2)))), GSize := cs_size c2,
            GMod := fmtTime (fm_time fm) (cs_mod c2), Variants := int (cs_variants c2), SameName := cs_sameName c2,
            GFiles := map (corrupt_row render captured) (zip (cs_files c2) rows)\<rparr>, n1))"

fun corrupt_groups ::
  "fmt \<Rightarrow> (evidence \<Rightarrow> string) \<Rightarrow> (fEnt \<Rightarrow> string) \<Rightarrow> (nat \<Rightarrow> sights) \<Rightarrow> nat \<Rightarrow> nat \<Rightarrow> corruptSet list \<Rightarrow> nat
    \<Rightarrow> Group list \<times> nat" where
  "corrupt_groups fm render captured si budget i [] nextID = ([], nextID)"
| "corrupt_groups fm render captured si budget i (c # cs) nextID =
     (let (g, n1) = corrupt_group fm render captured (si i) budget i c nextID;
          (gs, n2) = corrupt_groups fm render captured si budget (i + 1) cs n1
      in (g # gs, n2))"

definition corrupt_final ::
  "fmt \<Rightarrow> (evidence \<Rightarrow> string) \<Rightarrow> (fEnt \<Rightarrow> string) \<Rightarrow> (nat \<Rightarrow> sights) \<Rightarrow> corruptTop \<Rightarrow> nat \<Rightarrow> nat
    \<Rightarrow> (Group list \<times> TruncInfo option) \<times> nat" where
  "corrupt_final fm render captured si t budget nextID =
     (let (out, n1) = corrupt_groups fm render captured si budget 0 (take (corrupt_cut t budget) (corrupt_sorted t)) nextID;
          dropS = corrupt_dropS t budget; dropF = corrupt_dropF t budget
      in ((out, if dropS = 0 \<and> dropF = 0 then None
                else Some (zero_TruncInfo\<lparr>TGroups := int dropS, TFiles := int dropF, Cap := int budget\<rparr>)), n1))"

subsection \<open>Oversized families\<close>

definition corruptMatch :: MatchOpts where
  "corruptMatch = \<lparr>MName = False, MModified = True, MCreated = False\<rparr>"

definition corruptSkewSample :: nat where "corruptSkewSample = 500"

text \<open>One record of the sample: what is kept so far, how many were kept and dropped, and the quota
  used by each tag.\<close>

definition sample_rec ::
  "nat option list \<Rightarrow> path list \<Rightarrow> (path \<Rightarrow> bool) \<Rightarrow> spillRec \<Rightarrow> fEnt list \<times> nat \<times> nat \<times> (key \<Rightarrow> nat)
    \<Rightarrow> fEnt list \<times> nat \<times> nat \<times> (key \<Rightarrow> nat)" where
  "sample_rec handles rootOf flagged r = (\<lambda>(out, kept, dropped, quota).
     if s_root r \<ge> length rootOf then (out, kept, dropped, quota)
     else if flagged (Join (rootOf ! s_root r) (s_rel r)) then (out @ [rec_ent handles rootOf r], kept + 1, dropped, quota)
     else if kept \<ge> corruptSkewSample \<or> quota (s_tag r) \<ge> 2 then (out, kept, dropped + 1, quota)
     else (out @ [rec_ent handles rootOf r], kept + 1, dropped, quota(s_tag r := quota (s_tag r) + 1)))"

definition rotHere :: "(path \<rightharpoonup> gostring) \<Rightarrow> path \<Rightarrow> bool" where
  "rotHere rotd p \<longleftrightarrow> rotd p \<noteq> None"

text \<open>What the pass is given: \<open>ce_stop\<close> says at which poll of which stage the scan is
  stopped; a stage is one call of \<open>hashSubSpill\<close> or of \<open>corruptWindow\<close>.\<close>

record cenv =
  ce_env :: lenv
  ce_cap :: nat
  ce_orders :: corders
  ce_eqFold :: "gostring \<Rightarrow> gostring \<Rightarrow> bool"
  ce_stop :: "nat \<Rightarrow> polls"

record cpass =
  cp_acc :: corruptTop
  cp_cache :: "hashCache option"
  cp_unchecked :: nat
  cp_stage :: nat

text \<open>A window of the pass; \<open>False\<close> is a stop.\<close>

definition pass_window :: "cenv \<Rightarrow> fEnt list \<Rightarrow> (path \<rightharpoonup> gostring) \<Rightarrow> cpass \<Rightarrow> cpass \<times> bool" where
  "pass_window ce files rotd st =
     (let ((acc, hc), go) = corruptWindow (ce_cap ce) (ce_eqFold ce) (le_sizes (ce_env ce)) (ce_orders ce) (le_b3 (ce_env ce))
                              (le_rd (ce_env ce)) (ce_stop ce (cp_stage st)) files rotd (cp_cache st) (cp_acc st)
      in (st\<lparr>cp_acc := acc, cp_cache := hc, cp_stage := cp_stage st + 1\<rparr>, go))"

text \<open>\<open>corruptSkewedKey\<close>: a failure leaves the family unchecked and is counted (the code
  writes it into the result's errors).  A stop is seen by the poll after the last record.\<close>

definition skew_flagged :: "cenv \<Rightarrow> sub_run \<Rightarrow> path \<Rightarrow> bool" where
  "skew_flagged ce su p \<longleftrightarrow> rotHere (map_of (rev (su_rot su))) p \<or> changedPath (le_b3 (ce_env ce)) (su_cache su) p"

definition skew_sample :: "cenv \<Rightarrow> sub_run \<Rightarrow> (fEnt list \<times> nat) option" where
  "skew_sample ce su =
     (case each_pure (su_sub su) (sample_rec (le_handles (ce_env ce)) (le_roots (ce_env ce)) (skew_flagged ce su))
             ([], 0, 0, \<lambda>_. 0) of
        None \<Rightarrow> None
      | Some (sample, kept, dropped, quota) \<Rightarrow> Some (sample, dropped))"

definition corruptSkewedKey :: "cenv \<Rightarrow> key \<Rightarrow> spill \<Rightarrow> cpass \<Rightarrow> cpass \<times> bool" where
  "corruptSkewedKey ce k cs st =
     (let le = ce_env ce; stop = ce_stop ce (cp_stage st);
          (su, e) = hashSubSpill (le_sizes le) (co_store (ce_orders ce)) (le_b3 le) (le_rd le) (le_maxInt le) (le_wr le)
                      stop False (le_mk le True (unat k)) (le_handles le) (le_roots le) True
                      (\<lambda>r. rec_key corruptMatch r = k) cs (cp_cache st);
          st1 = st\<lparr>cp_cache := su_cache su, cp_acc := corrupt_noteSkipped (length (su_unread su)) (cp_acc st),
                  cp_stage := cp_stage st + 1\<rparr>;
          unchecked = (st1\<lparr>cp_unchecked := cp_unchecked st1 + 1\<rparr>, True)
      in if e = Some NoSubSpill then unchecked
         else if stop (su_polls su) then (st1, False)
         else if e \<noteq> None then unchecked
         else (case tagsDiffer (su_sub su) of
             None \<Rightarrow> unchecked
           | Some differ \<Rightarrow>
               if \<not> differ \<and> su_unread su = [] then (st1, True)
               else (case skew_sample ce su of
                   None \<Rightarrow> unchecked
                 | Some (sample, dropped) \<Rightarrow>
                     pass_window ce (sample @ su_unread su) (map_of (rev (su_rot su)))
                       (st1\<lparr>cp_acc := corrupt_noteSkipped dropped (cp_acc st1)\<rparr>))))"

fun corrupt_keys :: "cenv \<Rightarrow> spill \<Rightarrow> key list \<Rightarrow> cpass \<Rightarrow> cpass \<times> bool" where
  "corrupt_keys ce cs [] st = (st, True)"
| "corrupt_keys ce cs (k # ks) st =
     (case corruptSkewedKey ce k cs st of
        (st1, False) \<Rightarrow> (st1, False)
      | (st1, True) \<Rightarrow> corrupt_keys ce cs ks st1)"

fun corrupt_parts :: "cenv \<Rightarrow> spill \<Rightarrow> nat \<Rightarrow> nat list \<Rightarrow> cpass \<Rightarrow> cpass \<times> bool" where
  "corrupt_parts ce cs parts [] st = (st, True)"
| "corrupt_parts ce cs parts (p # ps) st =
     (case window p parts corruptMatch (le_handles (ce_env ce)) (le_roots (ce_env ce)) dupKeyFileCap dupWindowMax cs of
        None \<Rightarrow> (st\<lparr>cp_unchecked := cp_unchecked st + 1\<rparr>, True)
      | Some (cands, over, skipped) \<Rightarrow>
          (case pass_window ce cands Map.empty (st\<lparr>cp_acc := corrupt_noteSkipped skipped (cp_acc st)\<rparr>) of
             (st1, False) \<Rightarrow> (st1, False)
           | (st1, True) \<Rightarrow>
               (case corrupt_keys ce cs over st1 of
                  (st2, False) \<Rightarrow> (st2, False)
                | (st2, True) \<Rightarrow> corrupt_parts ce cs parts ps st2)))"

definition scanCorrupted :: "cenv \<Rightarrow> spill \<Rightarrow> nat \<Rightarrow> cpass \<Rightarrow> cpass \<times> bool" where
  "scanCorrupted ce cs nCand st = corrupt_parts ce cs (parts_for nCand) [0..<parts_for nCand] st"

subsection \<open>Every member is listed or counted\<close>

definition corrupt_saw :: "corruptSet list \<Rightarrow> nat \<Rightarrow> corruptTop \<Rightarrow> bool" where
  "corrupt_saw cs limit t \<longleftrightarrow> ct_limit t = limit \<and>
     (\<exists>D. by_interest.best_of limit cs (ct_sets t) D \<and> ct_droppedSets t = size D
        \<and> ct_droppedFile t = (\<Sum>c\<in>#D. set_files c))"

lemma corrupt_saw_new: "corrupt_saw [] (budget div 2 + 1) (newCorruptTop budget)"
  by (simp add: corrupt_saw_def newCorruptTop_def by_interest.best_of_def)

lemma corrupt_saw_add:
  assumes "corrupt_saw cs limit t"
  shows "corrupt_saw (cs @ [c]) limit (corrupt_add c t)"
proof -
  obtain D where D: "by_interest.best_of limit cs (ct_sets t) D" "ct_droppedSets t = size D" "ct_limit t = limit"
    "ct_droppedFile t = (\<Sum>c\<in>#D. set_files c)"
    using assms by (auto simp: corrupt_saw_def)
  show ?thesis
  proof (cases "length (ct_sets t @ [c]) \<le> limit")
    case True
    then have len: "length (ct_sets t) = length cs" using D(1) by (simp add: by_interest.best_of_def min_def split: if_splits)
    have ms: "mset cs = mset (ct_sets t) + D" using D(1) by (simp add: by_interest.best_of_def)
    then have "length cs = length (ct_sets t) + size D" by (metis size_mset size_union)
    then have "D = {#}" using len by simp
    then have "by_interest.best_of limit (cs @ [c]) (ct_sets t @ [c]) {#}"
      using ms len True by (simp add: by_interest.best_of_def)
    then show ?thesis using True D(2-4) \<open>D = {#}\<close> by (auto simp: corrupt_saw_def corrupt_add_def Let_def)
  next
    case False
    let ?s = "rank_sort betterSet (ct_sets t @ [c])"
    have "by_interest.best_of limit (cs @ [c]) (take limit ?s) (D + mset (drop limit ?s))"
      by (rule by_interest.best_of_cut [OF D(1) refl]) (use False in simp)
    moreover have "(\<Sum>c\<in>#mset (drop limit ?s). set_files c) = sum_list (map set_files (drop limit ?s))"
      by (metis mset_map sum_mset_sum_list)
    ultimately show ?thesis
      using False D(2-4) unfolding corrupt_saw_def corrupt_add_def Let_def
      by (intro conjI exI [of _ "D + mset (drop limit ?s)"]) auto
  qed
qed

lemma corrupt_saw_fold: "corrupt_saw cs limit t \<Longrightarrow> corrupt_saw (cs @ ds) limit (fold corrupt_add ds t)"
proof (induction ds arbitrary: cs t)
  case (Cons d ds)
  then show ?case using Cons.IH [of "cs @ [d]"] corrupt_saw_add by simp
qed simp

lemma corrupt_saw_accounts:
  assumes "corrupt_saw cs limit t"
  shows "length cs = length (ct_sets t) + ct_droppedSets t"
    and "sum_list (map set_files cs) = sum_list (map set_files (ct_sets t)) + ct_droppedFile t"
proof -
  obtain D where D: "mset cs = mset (ct_sets t) + D" "ct_droppedSets t = size D"
    "ct_droppedFile t = (\<Sum>c\<in>#D. set_files c)"
    using assms by (auto simp: corrupt_saw_def by_interest.best_of_def)
  show "length cs = length (ct_sets t) + ct_droppedSets t" using D by (metis size_mset size_union)
  have "sum_mset (image_mset set_files (mset cs)) = sum_mset (image_mset set_files (mset (ct_sets t))) + ct_droppedFile t"
    using D(1,3) by simp
  moreover have "sum_mset (image_mset set_files (mset xs)) = sum_list (map set_files xs)" for xs
    by (metis mset_map sum_mset_sum_list)
  ultimately show "sum_list (map set_files cs) = sum_list (map set_files (ct_sets t)) + ct_droppedFile t" by simp
qed

lemma length_judgeSet: "fresh (cs_files c) \<Longrightarrow> length (cs_files (fst (judgeSet si c))) = length (cs_files c)"
proof -
  assume fr: "fresh (cs_files c)"
  obtain ms b where j: "judge_members si (cs_variants c) (cs_files c) = (ms, b)" by fastforce
  then have "length ms = length (cs_files c)"
    using judged_fair [OF fr j] by (cases b) (auto simp: fair_set_def)
  then show ?thesis by (simp add: judgeSet_def j)
qed

lemma corrupt_group_files:
  assumes "fresh (cs_files c)"
  shows "length (GFiles (fst (corrupt_group fm render captured si budget i c n))) = min budget (length (cs_files c))"
proof -
  let ?c = "if length (cs_files c) > budget then c\<lparr>cs_files := take budget (cs_files c)\<rparr> else c"
  have "fresh (cs_files ?c)" using assms by (auto simp: fresh_def dest: in_set_takeD)
  from length_judgeSet [OF this] show ?thesis
    unfolding corrupt_group_def Let_def by (auto simp: case_prod_beta length_fileEnts zero_Group_def)
qed

lemma corrupt_groups_files:
  "\<forall>c \<in> set cs. fresh (cs_files c)
    \<Longrightarrow> map (\<lambda>g. length (GFiles g)) (fst (corrupt_groups fm render captured si budget i cs n))
         = map (\<lambda>c. min budget (length (cs_files c))) cs"
  by (induction cs arbitrary: i n) (simp_all add: case_prod_beta Let_def corrupt_group_files)

lemma cap_cut_le: "capCutIndex sizes budget \<le> length sizes"
  using cap_loop_le [of 0 0 budget sizes] by (simp add: capCutIndex_def)

lemma cap_loop_kept: "0 < i \<Longrightarrow> acc \<le> b \<Longrightarrow> acc + sum_list (take (cap_loop i acc b xs - i) xs) \<le> b"
proof (induction xs arbitrary: i acc)
  case (Cons c xs)
  show ?case
  proof (cases "acc + c \<le> b")
    case True
    have "cap_loop (Suc i) (acc + c) b xs - i = Suc (cap_loop (Suc i) (acc + c) b xs - Suc i) \<or> cap_loop (Suc i) (acc + c) b xs \<le> i"
      by linarith
    then show ?thesis using Cons.IH [of "Suc i" "acc + c"] True Cons.prems by (auto simp: add.assoc)
  qed (use Cons.prems in simp)
qed simp

text \<open>The cut keeps at most the budget, or a single first list.\<close>

lemma cap_cut_sum:
  "sum_list (map (min budget) (take (capCutIndex sizes budget) sizes)) \<le> budget"
proof (cases sizes)
  case (Cons c cs)
  let ?n = "cap_loop (Suc 0) c budget cs"
  have n: "capCutIndex sizes budget = ?n" by (simp add: capCutIndex_def Cons)
  have le: "sum_list (map (min budget) xs) \<le> sum_list xs" for xs by (induction xs) auto
  show ?thesis
  proof (cases "c \<le> budget")
    case True
    have "c + sum_list (take (?n - Suc 0) cs) \<le> budget" by (rule cap_loop_kept) (use True in auto)
    moreover have "sum_list (map (min budget) (take ?n sizes)) \<le> c + sum_list (take (?n - Suc 0) cs)"
      using le [of "take (?n - Suc 0) cs"] by (cases ?n) (auto simp: Cons)
    ultimately show ?thesis using n by simp
  next
    case False
    then have "?n = Suc 0" by (cases cs) auto
    then show ?thesis using n by (simp add: Cons)
  qed
qed (simp add: capCutIndex_def)

definition left_out :: "TruncInfo option \<Rightarrow> int \<times> int" where
  "left_out tr = (case tr of None \<Rightarrow> (0, 0) | Some i \<Rightarrow> (TGroups i, TFiles i))"

lemma sum_list_le_split: "sum_list xs = sum_list (map (min b) xs) + sum_list (map (\<lambda>x. x - b) (xs :: nat list))"
  by (induction xs) auto

lemma mset_sum: "mset xs = mset ys \<Longrightarrow> sum_list (map f xs) = sum_list (map (f :: 'a \<Rightarrow> nat) ys)"
  by (metis mset_map sum_mset_sum_list)

text \<open>C26. The corrupted listing accounts for every set and every member fed to it: the groups shown
  and the groups reported as left out are all the sets the windows found, the rows shown and the members reported as
  left out are all their members (together with those the windows themselves skipped); a listing without a report is
  complete; and no more rows are shown than the cap allows.\<close>

theorem corrupt_rows_accounted:
  assumes "\<forall>c \<in> set cs. fresh (cs_files c)"
    and final: "corrupt_final fm render captured si (corrupt_noteSkipped k (fold corrupt_add cs (newCorruptTop budget))) budget n
      = ((gs, report), n1)"
  shows "int (length gs) + fst (left_out report) = int (length cs)
    \<and> int (sum_list (map (\<lambda>g. length (GFiles g)) gs)) + snd (left_out report) = int (sum_list (map set_files cs) + k)
    \<and> sum_list (map (\<lambda>g. length (GFiles g)) gs) \<le> budget"
proof -
  define t where "t = corrupt_noteSkipped k (fold corrupt_add cs (newCorruptTop budget))"
  define rows where "rows = sum_list (map (\<lambda>g. length (GFiles g)) gs)"
  have r: "gs = fst (fst (corrupt_final fm render captured si t budget n))"
    "report = snd (fst (corrupt_final fm render captured si t budget n))"
    using final by (simp_all add: t_def)
  let ?t0 = "fold corrupt_add cs (newCorruptTop budget)" and ?ss = "corrupt_sorted t"
  let ?cut = "corrupt_cut t budget" and ?len = "\<lambda>c. length (cs_files c)"
  have saw: "corrupt_saw cs (budget div 2 + 1) ?t0" using corrupt_saw_fold [OF corrupt_saw_new] by simp
  then have sub: "set ?ss \<subseteq> set cs"
    by (auto simp: corrupt_saw_def by_interest.best_of_def corrupt_sorted_def t_def corrupt_noteSkipped_def
        dest!: arg_cong [where f = set_mset])
  have ms: "mset ?ss = mset (ct_sets ?t0)" by (simp add: corrupt_sorted_def t_def corrupt_noteSkipped_def)
  have cut: "?cut \<le> length ?ss" using cap_cut_le [of "map ?len ?ss" budget] by (simp add: corrupt_cut_def)
  have fr: "\<forall>c \<in> set (take ?cut ?ss). fresh (cs_files c)" using assms(1) sub by (blast dest: in_set_takeD)
  have "gs = fst (corrupt_groups fm render captured si budget 0 (take ?cut ?ss) n)"
    by (simp add: r(1) corrupt_final_def case_prod_beta Let_def)
  then have gl: "map (\<lambda>g. length (GFiles g)) gs = map (\<lambda>c. min budget (?len c)) (take ?cut ?ss)"
    using corrupt_groups_files [OF fr] by simp
  then have len: "length gs = ?cut" using cut by (auto dest!: arg_cong [where f = length])
  have rep: "left_out report = (int (corrupt_dropS t budget), int (corrupt_dropF t budget))"
    by (simp add: r(2) corrupt_final_def case_prod_beta Let_def left_out_def zero_TruncInfo_def)
  have S: "length cs = length ?ss + ct_droppedSets ?t0"
    using corrupt_saw_accounts(1) [OF saw] ms by (metis size_mset)
  have sets: "int (length gs) + fst (left_out report) = int (length cs)"
    using S cut by (simp add: rep len corrupt_dropS_def) (simp add: t_def corrupt_noteSkipped_def)
  have F: "sum_list (map set_files cs) = sum_list (map set_files ?ss) + ct_droppedFile ?t0"
    using corrupt_saw_accounts(2) [OF saw] mset_sum [OF ms, of set_files] by simp
  have "sum_list (map set_files ?ss) = sum_list (map ?len ?ss) + sum_list (map cs_extra ?ss)"
    by (simp add: set_files_def [abs_def] sum_list_addf)
  moreover have "sum_list (map ?len ?ss) = sum_list (map ?len (take ?cut ?ss)) + sum_list (map ?len (drop ?cut ?ss))"
    by (metis append_take_drop_id map_append sum_list_append)
  moreover have "sum_list (map ?len (take ?cut ?ss)) = rows + sum_list (map (\<lambda>c. ?len c - budget) (take ?cut ?ss))"
    using sum_list_le_split [of "map ?len (take ?cut ?ss)" budget] gl by (simp add: rows_def comp_def)
  moreover have "ct_droppedFile t = ct_droppedFile ?t0 + k" by (simp add: t_def corrupt_noteSkipped_def)
  ultimately have "rows + corrupt_dropF t budget = sum_list (map set_files cs) + k"
    using F by (simp add: corrupt_dropF_def)
  then have files: "int (sum_list (map (\<lambda>g. length (GFiles g)) gs)) + snd (left_out report) = int (sum_list (map set_files cs) + k)" by (simp add: rep rows_def)
  have "sum_list (map (\<lambda>g. length (GFiles g)) gs) \<le> budget"
    using cap_cut_sum [of budget "map ?len ?ss"] gl by (simp add: rows_def corrupt_cut_def take_map [symmetric] comp_def)
  with sets files show ?thesis by blast
qed

subsection \<open>What the sample of an oversized family holds\<close>

definition sample_of :: "nat option list \<Rightarrow> path list \<Rightarrow> (path \<Rightarrow> bool) \<Rightarrow> spillRec list \<Rightarrow> fEnt list" where
  "sample_of handles rootOf flagged recs = fst (fold (sample_rec handles rootOf flagged) recs ([], 0, 0, \<lambda>_. 0))"

lemma skew_sample_of:
  assumes "holds_recs recs (su_sub su)" "skew_sample ce su = Some (sample, dropped)"
  shows "sample = sample_of (le_handles (ce_env ce)) (le_roots (ce_env ce)) (skew_flagged ce su) recs"
  using assms by (auto simp: skew_sample_def each_pure_holds sample_of_def split: prod.splits)

definition rec_path :: "path list \<Rightarrow> spillRec \<Rightarrow> path" where
  "rec_path rootOf r = Join (rootOf ! s_root r) (s_rel r)"

text \<open>The sample is read off the records one by one: those kept, how often each tag was kept for its own
  sake, and every tag met is represented until five hundred members are in.\<close>

definition spares_tags :: "nat option list \<Rightarrow> path list \<Rightarrow> (spillRec \<Rightarrow> bool) \<Rightarrow> spillRec list \<Rightarrow> spillRec list
    \<Rightarrow> fEnt list \<times> nat \<times> nat \<times> (key \<Rightarrow> nat) \<Rightarrow> bool" where
  "spares_tags handles rootOf fl met ks st \<longleftrightarrow>
     (case st of (out, kept, dropped, quota) \<Rightarrow>
        out = map (rec_ent handles rootOf) ks \<and> kept = length ks \<and> set ks \<subseteq> set met
        \<and> length (filter fl ks) = length (filter fl met)
        \<and> quota = (\<lambda>t. length (filter (\<lambda>r. \<not> fl r \<and> s_tag r = t) ks)) \<and> (\<forall>t. quota t \<le> 2)
        \<and> (length ks < corruptSkewSample \<longrightarrow> s_tag ` set met \<subseteq> s_tag ` set ks))"

lemma sample_rec_spares:
  assumes st: "spares_tags handles rootOf fl met ks st" and r: "s_root r < length rootOf"
    and fl: "fl r \<longleftrightarrow> flagged (rec_path rootOf r)"
  shows "\<exists>ks. spares_tags handles rootOf fl (met @ [r]) ks (sample_rec handles rootOf flagged r st)"
proof -
  obtain out kept dropped quota where s: "st = (out, kept, dropped, quota)" by (cases st)
  show ?thesis
  proof (cases "\<not> fl r \<and> (kept \<ge> corruptSkewSample \<or> quota (s_tag r) \<ge> 2)")
    case True
    have "s_tag r \<in> s_tag ` set ks" if "kept < corruptSkewSample"
    proof -
      have "length (filter (\<lambda>q. \<not> fl q \<and> s_tag q = s_tag r) ks) \<ge> 2"
        using True that st s by (auto simp: spares_tags_def)
      then obtain q where "q \<in> set (filter (\<lambda>q. \<not> fl q \<and> s_tag q = s_tag r) ks)"
        by (metis list.set_sel(1) list.size(3) not_numeral_le_zero)
      then have "q \<in> set ks" "s_tag q = s_tag r" by auto
      then show ?thesis by (metis imageI)
    qed
    then show ?thesis using True st s r fl
      by (intro exI [of _ ks]) (auto simp: spares_tags_def sample_rec_def rec_path_def)
  next
    case False
    then show ?thesis using st s r fl
      by (intro exI [of _ "ks @ [r]"]) (auto simp: spares_tags_def sample_rec_def rec_path_def)
  qed
qed

lemma sample_spares:
  assumes "\<forall>r \<in> set recs. s_root r < length rootOf"
  shows "\<exists>ks. spares_tags handles rootOf (\<lambda>r. flagged (rec_path rootOf r)) recs ks
      (fold (sample_rec handles rootOf flagged) recs ([], 0, 0, \<lambda>_. 0))"
  using assms
proof (induction recs rule: rev_induct)
  case Nil
  then show ?case by (intro exI [of _ "[]"]) (simp add: spares_tags_def)
next
  case (snoc r recs)
  then obtain ks where "spares_tags handles rootOf (\<lambda>r. flagged (rec_path rootOf r)) recs ks
      (fold (sample_rec handles rootOf flagged) recs ([], 0, 0, \<lambda>_. 0))" by auto
  from sample_rec_spares [OF this] snoc.prems show ?case by simp
qed

lemma sample_of_spans:
  assumes roots: "\<forall>r \<in> set recs. s_root r < length rootOf"
    and few: "length (filter (\<lambda>r. flagged (rec_path rootOf r)) recs) \<le> 497"
    and two: "r1 \<in> set recs" "r2 \<in> set recs" "s_tag r1 \<noteq> s_tag r2"
  shows "\<exists>q1 q2. q1 \<in> set recs \<and> q2 \<in> set recs \<and> s_tag q1 \<noteq> s_tag q2
    \<and> rec_ent handles rootOf q1 \<in> set (sample_of handles rootOf flagged recs)
    \<and> rec_ent handles rootOf q2 \<in> set (sample_of handles rootOf flagged recs)"
proof -
  let ?fl = "\<lambda>r. flagged (rec_path rootOf r)"
  obtain ks where k: "spares_tags handles rootOf ?fl recs ks (fold (sample_rec handles rootOf flagged) recs ([], 0, 0, \<lambda>_. 0))"
    using sample_spares [OF roots] by blast
  obtain out kept dropped quota where e: "fold (sample_rec handles rootOf flagged) recs ([], 0, 0, \<lambda>_. 0) = (out, kept, dropped, quota)"
    by (metis prod_cases4)
  note k = k [unfolded spares_tags_def e prod.case]
  have ks: "sample_of handles rootOf flagged recs = map (rec_ent handles rootOf) ks" "set ks \<subseteq> set recs"
    "length (filter ?fl ks) = length (filter ?fl recs)"
    using k by (simp_all add: sample_of_def e)
  have q2: "length (filter (\<lambda>r. \<not> ?fl r \<and> s_tag r = t) ks) \<le> 2" for t using k by (metis (lifting))
  have full: "length ks < corruptSkewSample \<Longrightarrow> s_tag ` set recs \<subseteq> s_tag ` set ks" using k by simp
  have "\<exists>q1 \<in> set ks. \<exists>q2 \<in> set ks. s_tag q1 \<noteq> s_tag q2"
  proof (cases "length ks < corruptSkewSample")
    case True
    then have "s_tag r1 \<in> s_tag ` set ks" "s_tag r2 \<in> s_tag ` set ks" using full two(1,2) by blast+
    then show ?thesis using two(3) by (metis imageE)
  next
    case False
    have "length (filter ?fl ks) + length (filter (\<lambda>r. \<not> ?fl r) ks) = length ks" by (rule sum_length_filter_compl)
    then have three: "length (filter (\<lambda>r. \<not> ?fl r) ks) \<ge> 3" using False few ks(3) by (simp add: corruptSkewSample_def)
    show ?thesis
    proof (rule ccontr)
      assume one: "\<not> ?thesis"
      obtain q where q: "q \<in> set (filter (\<lambda>r. \<not> ?fl r) ks)"
        using three by (cases "filter (\<lambda>r. \<not> ?fl r) ks") auto
      have "filter (\<lambda>r. \<not> ?fl r \<and> s_tag r = s_tag q) ks = filter (\<lambda>r. \<not> ?fl r) ks"
      proof (rule filter_cong [OF refl])
        fix r assume "r \<in> set ks"
        moreover have "q \<in> set ks" using q by simp
        ultimately have "s_tag r = s_tag q" using one by blast
        then show "(\<not> ?fl r \<and> s_tag r = s_tag q) = (\<not> ?fl r)" by simp
      qed
      then have "length (filter (\<lambda>r. \<not> ?fl r) ks) \<le> 2" using q2 [of "s_tag q"] by metis
      then show False using three by linarith
    qed
  qed
  then show ?thesis using ks(1,2) by auto
qed

text \<open>While at most 497 members are flagged, the sample of a family that holds two contents holds two
  contents, so the comparison that follows has something to compare.\<close>

theorem sample_spans_variants:
  assumes "holds_recs recs (su_sub su)" and sample: "skew_sample ce su = Some (sample, dropped)"
    and "\<forall>r \<in> set recs. s_root r < length (le_roots (ce_env ce))"
    and "length (filter (\<lambda>r. skew_flagged ce su (rec_path (le_roots (ce_env ce)) r)) recs) \<le> 497"
    and "r1 \<in> set recs" "r2 \<in> set recs" "s_tag r1 \<noteq> s_tag r2"
  shows "\<exists>q1 q2. q1 \<in> set recs \<and> q2 \<in> set recs \<and> s_tag q1 \<noteq> s_tag q2
    \<and> rec_ent (le_handles (ce_env ce)) (le_roots (ce_env ce)) q1 \<in> set sample
    \<and> rec_ent (le_handles (ce_env ce)) (le_roots (ce_env ce)) q2 \<in> set sample"
  unfolding skew_sample_of [OF assms(1) sample] by (rule sample_of_spans [OF assms(3-7)])

lemma sample_flagged_first:
  assumes "\<forall>r \<in> set fs. s_root r < length rootOf \<and> flagged (rec_path rootOf r)"
  shows "fold (sample_rec handles rootOf flagged) fs (out, kept, dropped, quota)
    = (out @ map (rec_ent handles rootOf) fs, kept + length fs, dropped, quota)"
  using assms by (induction fs arbitrary: out kept) (auto simp: sample_rec_def rec_path_def)

lemma sample_full_then:
  assumes "\<forall>r \<in> set us. \<not> flagged (rec_path rootOf r)" "corruptSkewSample \<le> kept"
  shows "fst (fold (sample_rec handles rootOf flagged) us (out, kept, dropped, quota)) = out"
  using assms by (induction us arbitrary: dropped) (auto simp: sample_rec_def rec_path_def)

text \<open>Beyond that it may miss one: when five hundred flagged members come first, no unflagged member
  of the family is in the sample, whatever it holds; if the flagged ones are all of one content the window that compares
  the sample finds nothing to report, although two contents were proved to be there.\<close>

theorem sample_may_miss_variant:
  assumes "holds_recs (fs @ us) (su_sub su)" and sample: "skew_sample ce su = Some (sample, dropped)"
    and "\<forall>r \<in> set fs. s_root r < length (le_roots (ce_env ce)) \<and> skew_flagged ce su (rec_path (le_roots (ce_env ce)) r)"
    and "\<forall>r \<in> set us. \<not> skew_flagged ce su (rec_path (le_roots (ce_env ce)) r)"
    and "500 \<le> length fs"
  shows "sample = map (rec_ent (le_handles (ce_env ce)) (le_roots (ce_env ce))) fs"
  using skew_sample_of [OF assms(1) sample] assms(3-5)
  by (simp add: sample_of_def sample_flagged_first sample_full_then corruptSkewSample_def)

subsection \<open>Rows of members that could not be read\<close>

lemma each_recs_inv:
  assumes "P s" "\<And>r s. P s \<Longrightarrow> P (fst (fn r s))"
  shows "P (fst (each_recs n bs fn s))"
  using assms(1)
proof (induction n arbitrary: bs s)
  case (Suc n)
  show ?case
  proof (cases "read_rec bs")
    case (Some x)
    obtain r rest where x: "x = (r, rest)" by (cases x)
    obtain s1 st where f: "fn r s = (s1, st)" by (cases "fn r s")
    have "P s1" using assms(2) [OF Suc.prems, of r] f by simp
    then show ?thesis using Some x f Suc.IH [of s1 rest] by (cases st) simp_all
  qed (use Suc.prems in simp)
qed simp

definition nameless :: "fEnt list \<Rightarrow> bool" where
  "nameless fs \<longleftrightarrow> (\<forall>f \<in> set fs. f_name f = [] \<and> f_dir f = [])"

lemma sub_record_nameless:
  assumes "nameless (su_unread s)"
  shows "nameless (su_unread (fst (sub_record z ord b3 rd maxInt wr stop handles rootOf full keep r s)))"
proof -
  have e: "f_name (sub_entry handles rootOf r) = []" "f_dir (sub_entry handles rootOf r) = []"
    by (simp_all add: sub_entry_def zero_fEnt_def)
  have w: "su_unread (fst (sub_write maxInt wr r h t)) = su_unread t" for h t
    by (simp add: sub_write_def split: option.split)
  show ?thesis
    using assms e unfolding sub_record_def sub_full_def Let_def nameless_def
    by (simp add: w case_prod_beta split: option.split sum.split)
qed

text \<open>A member of an oversized family that cannot be read joins the listing, and its row carries
  neither its name nor its folder: the entry built for it has none.\<close>

theorem unreadable_row_nameless:
  assumes "f \<in> set (su_unread (fst (hashSubSpill z ord b3 rd maxInt wr stop stopped mk handles rootOf full keep src hc)))"
  shows "Name (fst (fileEnt fm f n)) = [] \<and> FDir (fst (fileEnt fm f n)) = []"
proof -
  let ?s0 = "\<lparr>su_sub = newSpill, su_n = 0, su_unread = [], su_rot = [], su_cache = hc, su_polls = 0\<rparr>"
  let ?fn = "sub_record z ord b3 rd maxInt wr stop handles rootOf full keep"
  have "nameless (su_unread (fst (each src ?fn ?s0)))"
    unfolding each_def by (rule each_recs_inv [where P = "\<lambda>s. nameless (su_unread s)"])
      (simp_all add: nameless_def [of "[]"] sub_record_nameless)
  then have "nameless (su_unread (fst (hashSubSpill z ord b3 rd maxInt wr stop stopped mk handles rootOf full keep src hc)))"
    by (cases "each src ?fn ?s0"; cases "snd (each src ?fn ?s0)")
      (auto simp: hashSubSpill_def nameless_def Let_def split: each_end.splits sub_end.splits)
  then show ?thesis using assms by (auto simp: nameless_def fileEnt_def Let_def zero_FileEnt_def)
qed

subsection \<open>Small families\<close>

definition ex_member :: corruptFile where
  "ex_member = zero_corruptFile\<lparr>cf_f := zero_fEnt\<lparr>f_path := ''/v/a'', f_name := ''a'', f_dir := ''/v''\<rparr>\<rparr>"

definition ex_set :: corruptSet where
  "ex_set = \<lparr>cs_size = 5, cs_mod = None, cs_files = [ex_member, ex_member], cs_extra = 1, cs_variants = 2,
     cs_sameName = True, cs_flagged = False\<rparr>"

text \<open>Two sets of two members, of which one member each was cut earlier, and a cap of three rows: one
  set is shown.\<close>

theorem corrupt_rows_accounted_witness:
  "let r = fst (corrupt_final ex_fmt (\<lambda>_. []) (\<lambda>_. []) (\<lambda>_. quiet_sights)
      (corrupt_noteSkipped 4 (fold corrupt_add [ex_set, ex_set] (newCorruptTop 3))) 3 0)
   in int (length (fst r)) + fst (left_out (snd r)) = 2
      \<and> int (sum_list (map (\<lambda>g. length (GFiles g)) (fst r))) + snd (left_out (snd r)) = 10"
proof -
  let ?t = "corrupt_noteSkipped 4 (fold corrupt_add [ex_set, ex_set] (newCorruptTop 3))"
  let ?r = "corrupt_final ex_fmt (\<lambda>_. []) (\<lambda>_. []) (\<lambda>_. quiet_sights) ?t 3 0"
  have fr: "\<forall>c \<in> set [ex_set, ex_set]. fresh (cs_files c)"
    by (simp add: ex_set_def ex_member_def fresh_def zero_corruptFile_def)
  have "sum_list (map set_files [ex_set, ex_set]) + 4 = 10" by (simp add: ex_set_def set_files_def)
  then show ?thesis
    using corrupt_rows_accounted [OF fr, of ex_fmt "\<lambda>_. []" "\<lambda>_. []" "\<lambda>_. quiet_sights" 4 3 0
        "fst (fst ?r)" "snd (fst ?r)" "snd ?r"] by (simp add: Let_def)
qed

definition ex_cenv :: cenv where
  "ex_cenv = \<lparr>ce_env = ex_lenv, ce_cap = 9, ce_orders = ex_corders, ce_eqFold = (=), ce_stop = (\<lambda>_ _. False)\<rparr>"

definition ex_family :: "spill \<Rightarrow> sub_run" where
  "ex_family sp = \<lparr>su_sub = sp, su_n = 0, su_unread = [], su_rot = [(''/v/a'', [])], su_cache = None, su_polls = 0\<rparr>"

lemma ex_family_flags:
  "skew_flagged ex_cenv (ex_family sp) (rec_path (le_roots (ce_env ex_cenv)) (ex_rec ''a'' 5))"
  "\<not> skew_flagged ex_cenv (ex_family sp) (rec_path (le_roots (ce_env ex_cenv)) ((ex_rec ''b'' 5)\<lparr>s_tag := 7\<rparr>))"
  "length (le_roots (ce_env ex_cenv)) = 1" "s_root (ex_rec n s) = 0"
proof -
  have "rec_path [''/v''] (ex_rec ''a'' 5) = ''/v/a''" "rec_path [''/v''] ((ex_rec ''b'' 5)\<lparr>s_tag := 7\<rparr>) = ''/v/b''"
    by code_simp+
  then show "skew_flagged ex_cenv (ex_family sp) (rec_path (le_roots (ce_env ex_cenv)) (ex_rec ''a'' 5))"
    "\<not> skew_flagged ex_cenv (ex_family sp) (rec_path (le_roots (ce_env ex_cenv)) ((ex_rec ''b'' 5)\<lparr>s_tag := 7\<rparr>))"
    by (simp_all add: skew_flagged_def ex_cenv_def ex_lenv_def ex_family_def rotHere_def changedPath_def)
qed (simp_all add: ex_cenv_def ex_lenv_def ex_rec_def)

lemma ex_family_spill:
  "\<exists>sp sample dropped. holds_recs (replicate n (ex_rec ''a'' 5) @ [(ex_rec ''b'' 5)\<lparr>s_tag := 7\<rparr>]) (su_sub (ex_family sp))
     \<and> skew_sample ex_cenv (ex_family sp) = Some (sample, dropped)"
proof -
  let ?recs = "replicate n (ex_rec ''a'' 5) @ [(ex_rec ''b'' 5)\<lparr>s_tag := 7\<rparr>]"
  have "\<forall>r \<in> set ?recs. rec_ok r"
    by (simp add: ex_rec_def rec_ok_def maxInt32_def maxUint32_def spillRelMax_def is_int64_def)
  then obtain sp where "holds_recs ?recs sp"
    using add_all_holds [OF holds_new, of ?recs "length ?recs"] by auto
  then show ?thesis
    by (intro exI [of _ sp]) (auto simp: ex_family_def skew_sample_def each_pure_holds split: prod.splits)
qed

theorem sample_spans_variants_witness:
  "\<exists>sp sample dropped q1 q2. skew_sample ex_cenv (ex_family sp) = Some (sample, dropped) \<and> s_tag q1 \<noteq> s_tag q2
     \<and> rec_ent [None] [''/v''] q1 \<in> set sample \<and> rec_ent [None] [''/v''] q2 \<in> set sample"
proof -
  let ?recs = "replicate 3 (ex_rec ''a'' 5) @ [(ex_rec ''b'' 5)\<lparr>s_tag := 7\<rparr>]"
  obtain sp sample dropped where sp: "holds_recs ?recs (su_sub (ex_family sp))" "skew_sample ex_cenv (ex_family sp) = Some (sample, dropped)"
    using ex_family_spill by blast
  have e: "le_handles (ce_env ex_cenv) = [None]" "le_roots (ce_env ex_cenv) = [''/v'']" by (simp_all add: ex_cenv_def ex_lenv_def)
  have "\<forall>r \<in> set ?recs. s_root r < length (le_roots (ce_env ex_cenv))" by (simp add: e ex_rec_def)
  moreover have "length (filter (\<lambda>r. skew_flagged ex_cenv (ex_family sp) (rec_path (le_roots (ce_env ex_cenv)) r)) ?recs) \<le> 497"
    by (rule le_trans [OF length_filter_le]) simp
  moreover have "ex_rec ''a'' 5 \<in> set ?recs" "(ex_rec ''b'' 5)\<lparr>s_tag := 7\<rparr> \<in> set ?recs"
    "s_tag (ex_rec ''a'' 5) \<noteq> s_tag ((ex_rec ''b'' 5)\<lparr>s_tag := 7\<rparr>)"
    by (simp_all add: ex_rec_def)
  ultimately show ?thesis using sample_spans_variants [OF sp] sp(2) unfolding e by blast
qed

theorem sample_may_miss_variant_witness:
  "\<exists>sp sample dropped. skew_sample ex_cenv (ex_family sp) = Some (sample, dropped)
     \<and> sample = replicate 500 (rec_ent [None] [''/v''] (ex_rec ''a'' 5))
     \<and> holds_recs (replicate 500 (ex_rec ''a'' 5) @ [(ex_rec ''b'' 5)\<lparr>s_tag := 7\<rparr>]) sp"
proof -
  obtain sp sample dropped where sp: "holds_recs (replicate 500 (ex_rec ''a'' 5) @ [(ex_rec ''b'' 5)\<lparr>s_tag := 7\<rparr>]) (su_sub (ex_family sp))"
    "skew_sample ex_cenv (ex_family sp) = Some (sample, dropped)"
    using ex_family_spill by blast
  have e: "le_handles (ce_env ex_cenv) = [None]" "le_roots (ce_env ex_cenv) = [''/v'']" by (simp_all add: ex_cenv_def ex_lenv_def)
  have "sample = map (rec_ent (le_handles (ce_env ex_cenv)) (le_roots (ce_env ex_cenv))) (replicate 500 (ex_rec ''a'' 5))"
    by (rule sample_may_miss_variant [OF sp]) (simp_all add: ex_family_flags)
  moreover have "su_sub (ex_family sp) = sp" by (simp add: ex_family_def)
  ultimately show ?thesis using sp unfolding e by (auto simp only: map_replicate)
qed

text \<open>A member whose first read fails.\<close>

theorem unreadable_row_nameless_witness:
  "\<exists>src f. holds_recs [ex_rec ''a'' 5] src
     \<and> su_unread (fst (hashSubSpill cacheDefaults id id \<lparr>cr_pfx = (\<lambda>_. Inl EIO), cr_full = (\<lambda>_. Inl EIO)\<rparr> 9 (\<lambda>_. True) never False True
          [None] [''/v''] True (\<lambda>_. True) src None)) = [f]
     \<and> f_path f = ''/v/a'' \<and> Name (fst (fileEnt ex_fmt f 0)) = []"
proof -
  let ?rd = "\<lparr>cr_pfx = (\<lambda>_. Inl EIO), cr_full = (\<lambda>_. Inl EIO)\<rparr>" and ?f = "sub_entry [None] [''/v''] (ex_rec ''a'' 5)"
  have "\<forall>r \<in> set [ex_rec ''a'' 5]. rec_ok r"
    by (simp add: ex_rec_def rec_ok_def maxInt32_def maxUint32_def spillRelMax_def is_int64_def)
  then obtain src where src: "holds_recs [ex_rec ''a'' 5] src" using add_all_holds [OF holds_new, of _ 9] by fastforce
  have un: "su_unread (fst (hashSubSpill cacheDefaults id id ?rd 9 (\<lambda>_. True) never False True [None] [''/v''] True (\<lambda>_. True) src None)) = [?f]"
    by (simp add: hashSubSpill_def each_holds [OF src] sub_record_def ex_rec_def Let_def)
  have "f_path ?f = ''/v/a''" by code_simp
  moreover have "Name (fst (fileEnt ex_fmt ?f 0)) = []"
    using unreadable_row_nameless [of ?f cacheDefaults id id ?rd 9 "\<lambda>_. True" never False True "[None]" "[''/v'']" True
        "\<lambda>_. True" src None ex_fmt 0] un by simp
  ultimately show ?thesis using src un by blast
qed

end
