(* ===== verification/ResultQuery.thy ===== *)
theory ResultQuery
  imports CorruptPass GoTime
begin

text \<open>
  Searching, refining and ordering stored results (\<open>server/results.go\<close>): \<open>resultsQuery\<close>,
  \<open>compileSearch\<close> and \<open>searchPred.match\<close>, \<open>refineGroups\<close>, \<open>filterGroups\<close> and
  \<open>sortFiles\<close>.  Beyond ASCII, Go's case tables are arguments (record \<open>texts\<close>).  The lemmas show
  that a refined group holds exactly the members that agree on the criteria, that a listing's order depends on its rows
  alone, and for which sizes the size filter is exact.
\<close>

record texts =
  tx_lower :: "nat \<Rightarrow> nat"
  tx_upper :: "gostring \<Rightarrow> gostring"
  tx_fold :: "gostring \<Rightarrow> gostring \<Rightarrow> bool"

record resultsQuery =
  rq_Tool :: string
  rq_Offset :: int
  rq_Limit :: int
  rq_Query :: gostring
  rq_Match :: MatchOpts
  rq_Sort :: gostring
  rq_Dir :: gostring
  rq_RefDirs :: "path list"
  rq_Loc :: gostring
  rq_FType :: gostring
  rq_ExtQ :: gostring
  rq_DateBy :: gostring
  rq_DateFrom :: gostring
  rq_DateTo :: gostring
  rq_SizeOp :: gostring
  rq_SizeMB :: int

subsection \<open>The search predicate\<close>

definition extSet :: "gostring \<Rightarrow> gostring set" where
  "extSet s = set (Fields s)"

definition typeExts :: "gostring \<Rightarrow> gostring set option" where
  "typeExts t =
     (if t = ''docs'' then Some (extSet ''DOC DOCX XLS XLSX PPT PPTX PDF TXT RTF ODT ODS ODP CSV MD PAGES NUMBERS KEY'')
      else if t = ''video'' then Some (extSet ''MP4 MOV M4V AVI MKV WMV FLV WEBM MPG MPEG M2TS MTS 3GP'')
      else if t = ''pic'' then Some (extSet ''JPG JPEG PNG GIF BMP TIFF TIF HEIC HEIF WEBP SVG PSD AI RAW ARW CR2 CR3 NEF ORF RW2 DNG'')
      else if t = ''audio'' then Some (extSet ''MP3 AAC M4A FLAC WAV OGG OGA OPUS WMA AIFF AIF DSF'')
      else if t = ''web'' then Some (extSet ''HTML HTM CSS JS JSON XML PHP ASP ASPX JSP'')
      else if t = ''exe'' then Some (extSet ''EXE MSI COM BAT SH BIN RUN APK DEB RPM PKG'')
      else if t = ''disk'' then Some (extSet ''ISO IMG DMG VHD VHDX VMDK QCOW2'')
      else if t = ''zip'' then Some (extSet ''ZIP RAR 7Z GZ BZ2 XZ TAR TGZ TBZ Z LZ4 ZST'')
      else None)"

record searchPred =
  sp_needle :: gostring
  sp_loc :: gostring
  sp_ftype :: gostring
  sp_exts :: "gostring set option"
  sp_extq :: gostring
  sp_dateBy :: gostring
  sp_dateFrom :: gostring
  sp_dateTo :: gostring
  sp_sizeOp :: gostring
  sp_sizeMB :: int

definition needle_of :: "texts \<Rightarrow> gostring \<Rightarrow> gostring" where
  "needle_of tx s = ToLower (tx_lower tx) (TrimSpace s)"

definition compileSearch :: "texts \<Rightarrow> resultsQuery \<Rightarrow> searchPred option" where
  "compileSearch tx q =
     (let extq = tx_upper tx (TrimPrefix (TrimSpace (rq_ExtQ q)) ''.'');
          dated = (rq_DateFrom q \<noteq> [] \<or> rq_DateTo q \<noteq> []);
          p = \<lparr>sp_needle = needle_of tx (rq_Query q),
               sp_loc = TrimRightByte slash (TrimSpace (rq_Loc q)),
               sp_ftype = (if rq_FType q = ''ext'' \<and> extq = [] then [] else rq_FType q),
               sp_exts = typeExts (rq_FType q),
               sp_extq = extq,
               sp_dateBy = (if dated then rq_DateBy q else []),
               sp_dateFrom = (if dated then rq_DateFrom q else []),
               sp_dateTo = (if dated \<and> rq_DateTo q \<noteq> [] then rq_DateTo q @ [CHR 0xFF] else []),
               sp_sizeOp = (if rq_SizeOp q = ''eq'' \<or> rq_SizeOp q = ''gt'' \<or> rq_SizeOp q = ''lt'' then rq_SizeOp q else []),
               sp_sizeMB = rq_SizeMB q\<rparr>
      in if sp_needle p = [] \<and> sp_loc p = [] \<and> sp_ftype p = [] \<and> sp_dateBy p = [] \<and> sp_sizeOp p = [] then None
         else Some p)"

text \<open>The quotient of Go rounds towards zero; the product is cut to 64 bits.\<close>

definition mib :: int where "mib = 1048576"

definition go_quot :: "int \<Rightarrow> int \<Rightarrow> int" where
  "go_quot a b = (if a < 0 then - ((- a) div b) else a div b)"

definition match_text :: "texts \<Rightarrow> searchPred \<Rightarrow> FileEnt \<Rightarrow> bool" where
  "match_text tx p f \<longleftrightarrow>
     sp_needle p = [] \<or> Contains (ToLower (tx_lower tx) (row_path f)) (sp_needle p)
     \<or> Contains (verdictSearchText (Verdict f)) (sp_needle p)"

definition match_loc :: "searchPred \<Rightarrow> FileEnt \<Rightarrow> bool" where
  "match_loc p f \<longleftrightarrow> sp_loc p = [] \<or> FDir f = sp_loc p \<or> HasPrefix (FDir f) (sp_loc p @ ''/'')"

definition match_type :: "texts \<Rightarrow> searchPred \<Rightarrow> FileEnt \<Rightarrow> bool" where
  "match_type tx p f =
     (if sp_ftype p = [] then True
      else if sp_ftype p = ''dir'' then IsDir f
      else if sp_ftype p = ''file'' then \<not> IsDir f
      else if sp_ftype p = ''ext'' then tx_fold tx (FileEnt.Ext f) (sp_extq p)
      else (case sp_exts p of None \<Rightarrow> False | Some es \<Rightarrow> FileEnt.Ext f \<in> es))"

definition match_date :: "searchPred \<Rightarrow> FileEnt \<Rightarrow> bool" where
  "match_date p f =
     (if sp_dateBy p = [] then True
      else (let v = (if sp_dateBy p = ''created'' then Created f
                     else if sp_dateBy p = ''captured'' then Captured f else Mod f)
        in \<not> (v = [] \<or> sp_dateFrom p \<noteq> [] \<and> v < sp_dateFrom p \<or> sp_dateTo p \<noteq> [] \<and> v > sp_dateTo p)))"

definition match_size :: "searchPred \<Rightarrow> FileEnt \<Rightarrow> bool" where
  "match_size p f =
     (let bound = goint 64 (sp_sizeMB p * mib) in
      if sp_sizeOp p = ''eq'' then go_quot (Size f) mib = sp_sizeMB p
      else if sp_sizeOp p = ''gt'' then \<not> Size f \<le> bound
      else if sp_sizeOp p = ''lt'' then \<not> Size f \<ge> bound
      else True)"

definition search_match :: "texts \<Rightarrow> searchPred \<Rightarrow> FileEnt \<Rightarrow> bool" where
  "search_match tx p f \<longleftrightarrow>
     match_text tx p f \<and> match_loc p f \<and> match_type tx p f \<and> match_date p f \<and> match_size p f"

definition filterGroups :: "texts \<Rightarrow> Group list \<Rightarrow> searchPred \<Rightarrow> Group list" where
  "filterGroups tx groups p = filter (\<lambda>g. list_ex (search_match tx p) (GFiles g)) groups"

subsection \<open>Refinement\<close>

definition refine_key :: "MatchOpts \<Rightarrow> FileEnt \<Rightarrow> gostring" where
  "refine_key m f =
     (if MName m then Name f else []) @ [CHR 0x00] @ (if MModified m then Mod f else []) @ [CHR 0x00]
     @ (if MCreated m then (if Created f = [] then CHR ''?'' # ID f else Created f) else [])"

text \<open>The buckets in the order of their first member.\<close>

definition refine_buckets :: "MatchOpts \<Rightarrow> FileEnt list \<Rightarrow> FileEnt list list" where
  "refine_buckets m files = map (\<lambda>k. filter (\<lambda>f. refine_key m f = k) files) (uniq (map (refine_key m) files))"

fun sub_groups :: "Group \<Rightarrow> nat \<Rightarrow> FileEnt list list \<Rightarrow> Group list" where
  "sub_groups g n [] = []"
| "sub_groups g n (b # bs) =
     (if length b < 2 then sub_groups g n bs
      else g\<lparr>GID := GID g @ CHR ''-'' # dec n, GFiles := b\<rparr> # sub_groups g (n + 1) bs)"

definition refineGroups :: "Group list \<Rightarrow> MatchOpts \<Rightarrow> Group list" where
  "refineGroups groups m =
     (if \<not> MName m \<and> \<not> MModified m \<and> \<not> MCreated m then groups
      else concat (map (\<lambda>g. sub_groups g 0 (refine_buckets m (GFiles g))) groups))"

subsection \<open>Sorting\<close>

definition strings_Compare :: "gostring \<Rightarrow> gostring \<Rightarrow> int" where
  "strings_Compare a b = (if a < b then -1 else if a > b then 1 else 0)"

definition sort_cmp :: "gostring \<Rightarrow> (FileEnt \<Rightarrow> FileEnt \<Rightarrow> int) option" where
  "sort_cmp field =
     (if field = ''name'' then Some (\<lambda>a b. strings_Compare (Name a) (Name b))
      else if field = ''path'' then Some (\<lambda>a b. strings_Compare (FDir a) (FDir b))
      else if field = ''size'' then Some (\<lambda>a b. if Size a < Size b then -1 else if Size a > Size b then 1 else 0)
      else if field = ''date'' then Some (\<lambda>a b. strings_Compare (Mod a) (Mod b))
      else if field = ''created'' then Some (\<lambda>a b. strings_Compare (Created a) (Created b))
      else if field = ''captured'' then Some (\<lambda>a b. strings_Compare (Captured a) (Captured b))
      else None)"

definition row_less :: "(FileEnt \<Rightarrow> FileEnt \<Rightarrow> int) \<Rightarrow> bool \<Rightarrow> FileEnt \<Rightarrow> FileEnt \<Rightarrow> bool" where
  "row_less cmp desc a b =
     (let c = cmp a b in
      if c = 0 then row_path a < row_path b else if desc then c > 0 else c < 0)"

text \<open>\<open>sort.SliceStable\<close> is the insertion sort \<open>rank_sort\<close>: an element goes in front of
  the first one that is not before it, so equals keep their order.\<close>

definition sortFiles :: "texts \<Rightarrow> FileEnt list \<Rightarrow> gostring \<Rightarrow> gostring \<Rightarrow> FileEnt list" where
  "sortFiles tx files field dir =
     (case sort_cmp field of
        None \<Rightarrow> files
      | Some cmp \<Rightarrow> rank_sort (row_less cmp (tx_fold tx dir ''DESC'')) files)"

subsection \<open>What refinement keeps\<close>

lemma split_at_nul:
  "CHR 0x00 \<notin> set a \<Longrightarrow> CHR 0x00 \<notin> set b \<Longrightarrow> a @ CHR 0x00 # x = b @ CHR 0x00 # y \<longleftrightarrow> a = b \<and> x = y"
  by (induction a arbitrary: b) (case_tac b; auto)+

definition agree :: "MatchOpts \<Rightarrow> FileEnt \<Rightarrow> FileEnt \<Rightarrow> bool" where
  "agree m f g \<longleftrightarrow> (MName m \<longrightarrow> Name f = Name g) \<and> (MModified m \<longrightarrow> Mod f = Mod g)
     \<and> (MCreated m \<longrightarrow> Created f \<noteq> [] \<and> Created f = Created g)"

definition plain_row :: "FileEnt \<Rightarrow> bool" where
  "plain_row f \<longleftrightarrow> CHR 0x00 \<notin> set (Name f) \<and> CHR 0x00 \<notin> set (Mod f) \<and> hd (Created f @ ''0'') \<noteq> CHR ''?''"

lemma refine_key_agree:
  assumes "plain_row f" "plain_row g"
  shows "refine_key m f = refine_key m g \<longleftrightarrow>
     agree m f g \<or> (MName m \<longrightarrow> Name f = Name g) \<and> (MModified m \<longrightarrow> Mod f = Mod g)
       \<and> MCreated m \<and> Created f = [] \<and> Created g = [] \<and> ID f = ID g"
proof -
  let ?a = "\<lambda>f. if MName m then Name f else []" and ?b = "\<lambda>f. if MModified m then Mod f else []"
    and ?c = "\<lambda>f. if MCreated m then (if Created f = [] then CHR ''?'' # ID f else Created f) else []"
  have "refine_key m f = refine_key m g \<longleftrightarrow> ?a f @ CHR 0x00 # ?b f @ CHR 0x00 # ?c f = ?a g @ CHR 0x00 # ?b g @ CHR 0x00 # ?c g"
    by (simp add: refine_key_def)
  also have "\<dots> \<longleftrightarrow> ?a f = ?a g \<and> ?b f = ?b g \<and> ?c f = ?c g"
    using assms by (simp add: split_at_nul plain_row_def)
  also have "?c f = ?c g \<longleftrightarrow> (MCreated m \<longrightarrow> Created f \<noteq> [] \<and> Created f = Created g \<or> Created f = [] \<and> Created g = [] \<and> ID f = ID g)"
    using assms by (cases "Created f"; cases "Created g") (auto simp: plain_row_def)
  finally show ?thesis by (auto simp: agree_def)
qed

lemma bucket_agree:
  assumes pl: "\<forall>f \<in> set fs. plain_row f" and di: "distinct (map ID fs)" and f: "f \<in> set fs"
    and l: "2 \<le> length (filter (\<lambda>g. refine_key m g = refine_key m f) fs) \<or> 2 \<le> length (filter (agree m f) fs)"
  shows "filter (\<lambda>g. refine_key m g = refine_key m f) fs = filter (agree m f) fs"
proof (rule filter_cong [OF refl])
  fix g assume g: "g \<in> set fs"
  have "MCreated m \<Longrightarrow> Created f \<noteq> []"
  proof
    assume c: "MCreated m" "Created f = []"
    then have "filter (agree m f) fs = []" by (simp add: agree_def)
    then have two: "2 \<le> length (filter (\<lambda>g. refine_key m g = refine_key m f) fs)" using l by simp
    have "refine_key m h = refine_key m f \<longleftrightarrow> h = f" if "h \<in> set fs" for h
      using refine_key_agree [of h f m] that f pl c di by (auto simp: agree_def distinct_map dest: inj_onD)
    then have "filter (\<lambda>g. refine_key m g = refine_key m f) fs = filter (\<lambda>g. g = f) fs" by (intro filter_cong) auto
    moreover have "length (filter (\<lambda>g. g = f) fs) \<le> 1" 
      using di card_mono [of "{f}" "{f} \<inter> set fs"] by (simp add: distinct_map distinct_length_filter)
    ultimately show False using two by simp
  qed
  moreover have "agree m g f \<longleftrightarrow> agree m f g" by (auto simp: agree_def)
  moreover have "plain_row g" "plain_row f" using g f pl by blast+
  ultimately show "(refine_key m g = refine_key m f) = agree m f g"
    using refine_key_agree [of g f m] by (auto simp only: agree_def)
qed

lemma sub_groups_files: "map GFiles (sub_groups g n bs) = filter (\<lambda>b. 2 \<le> length b) bs"
  by (induction g n bs rule: sub_groups.induct) (simp_all add: not_less)

lemma refine_buckets_big:
  assumes "\<forall>f \<in> set fs. plain_row f" "distinct (map ID fs)"
  shows "{b \<in> set (refine_buckets m fs). 2 \<le> length b}
     = {filter (agree m f) fs |f. f \<in> set fs \<and> 2 \<le> length (filter (agree m f) fs)}"
proof -
  let ?B = "\<lambda>f. filter (\<lambda>g. refine_key m g = refine_key m f) fs"
  have "set (refine_buckets m fs) = ?B ` set fs" by (auto simp: refine_buckets_def image_image)
  then have "{b \<in> set (refine_buckets m fs). 2 \<le> length b} = {?B f |f. f \<in> set fs \<and> 2 \<le> length (?B f)}" by auto
  also have "\<dots> = {filter (agree m f) fs |f. f \<in> set fs \<and> 2 \<le> length (filter (agree m f) fs)}"
  proof (intro Collect_cong ex_cong1)
    fix b f
    show "(b = ?B f \<and> f \<in> set fs \<and> 2 \<le> length (?B f))
      = (b = filter (agree m f) fs \<and> f \<in> set fs \<and> 2 \<le> length (filter (agree m f) fs))"
    proof (cases "f \<in> set fs \<and> (2 \<le> length (?B f) \<or> 2 \<le> length (filter (agree m f) fs))")
      case True
      then have e: "?B f = filter (agree m f) fs" by (intro bucket_agree [OF assms]) simp_all
      show ?thesis unfolding e by blast
    qed blast
  qed
  finally show ?thesis .
qed

text \<open>C29. What refining stored results lists: for each group, the classes of members that agree on every
  criterion asked for and have a known creation time when that is one, classes of two or more, each complete and in the
  group's order; no member is listed twice.  (Rows carry no zero byte, creation times start with a digit, row ids
  differ.)\<close>

theorem refined_groups_agree:
  assumes "MName m \<or> MModified m \<or> MCreated m"
    and plain: "\<forall>g \<in> set groups. (\<forall>f \<in> set (GFiles g). plain_row f) \<and> distinct (map ID (GFiles g))"
  shows "GFiles ` set (refineGroups groups m)
      = (\<Union>g \<in> set groups. {filter (agree m f) (GFiles g) |f. f \<in> set (GFiles g) \<and> 2 \<le> length (filter (agree m f) (GFiles g))})
    \<and> (\<forall>g \<in> set groups. distinct (map ID (concat (map GFiles (refineGroups [g] m)))))"
proof (intro conjI ballI)
  have one: "map GFiles (refineGroups [g] m) = filter (\<lambda>b. 2 \<le> length b) (refine_buckets m (GFiles g))" for g
    using assms(1) by (auto simp: refineGroups_def sub_groups_files)
  have "refineGroups groups m = concat (map (\<lambda>g. refineGroups [g] m) groups)"
    using assms(1) by (auto simp: refineGroups_def intro: arg_cong [where f = concat])
  then have "GFiles ` set (refineGroups groups m) = (\<Union>g \<in> set groups. set (map GFiles (refineGroups [g] m)))"
    by (simp add: image_UN)
  also have "\<dots> = (\<Union>g \<in> set groups. {b \<in> set (refine_buckets m (GFiles g)). 2 \<le> length b})"
    unfolding one by auto
  also have "\<dots> = (\<Union>g \<in> set groups. {filter (agree m f) (GFiles g) |f. f \<in> set (GFiles g) \<and> 2 \<le> length (filter (agree m f) (GFiles g))})"
    using refine_buckets_big plain by (intro SUP_cong refl) blast
  finally show "GFiles ` set (refineGroups groups m) = \<dots>" .
  fix g assume g: "g \<in> set groups"
  let ?fs = "GFiles g"
  have "distinct (concat (map (\<lambda>k. filter (\<lambda>f. refine_key m f = k) ?fs) (filter P ks)))" if "distinct ks" for P ks
    using that plain g by (induction ks) (auto simp: distinct_map)
  from this [OF distinct_uniq] have "distinct (concat (filter (\<lambda>b. 2 \<le> length b) (refine_buckets m ?fs)))"
    by (simp add: refine_buckets_def filter_map comp_def)
  moreover have "set (concat (filter (\<lambda>b. 2 \<le> length b) (refine_buckets m ?fs))) \<subseteq> set ?fs" by (auto simp: refine_buckets_def)
  moreover have "inj_on ID (set ?fs)" using plain g by (simp add: distinct_map)
  ultimately show "distinct (map ID (concat (map GFiles (refineGroups [g] m))))"
    unfolding one distinct_map by (meson inj_on_subset)
qed

text \<open>A refined group keeps its parent's count of physical copies, which counts members it no longer
  has.\<close>

theorem refined_copies_stale:
  "sub \<in> set (refineGroups [g] m) \<Longrightarrow> Copies sub = Copies g"
proof -
  have "sub \<in> set (sub_groups g n bs) \<Longrightarrow> Copies sub = Copies g" for n bs
    by (induction g n bs rule: sub_groups.induct) (auto split: if_splits)
  then show "sub \<in> set (refineGroups [g] m) \<Longrightarrow> Copies sub = Copies g" by (auto simp: refineGroups_def split: if_splits)
qed

subsection \<open>The order of a listing\<close>

lemma sorted_wrt_same_set:
  assumes "\<And>a b. P a b \<Longrightarrow> \<not> P b a"
  shows "sorted_wrt P xs \<Longrightarrow> sorted_wrt P ys \<Longrightarrow> set xs = set ys \<Longrightarrow> xs = ys"
proof (induction xs arbitrary: ys)
  case (Cons x xs)
  then obtain y ys' where ys: "ys = y # ys'" by (cases ys) auto
  have irr: "\<not> P a a" for a using assms by blast
  have xy: "x = y"
  proof (rule ccontr)
    assume "x \<noteq> y"
    then have "P x y" "P y x" using Cons.prems ys by auto
    then show False using assms by blast
  qed
  have out: "x \<notin> set xs" "x \<notin> set ys'" using Cons.prems(1,2) ys irr xy by auto
  have "insert x (set xs) = insert x (set ys')" using Cons.prems(3) ys xy by simp
  then have "set xs = set ys'" using insert_ident [OF out] by simp
  then show ?case using Cons.IH [of ys'] Cons.prems(1,2) ys xy by simp
qed simp

definition strict_total :: "('a \<Rightarrow> 'a \<Rightarrow> bool) \<Rightarrow> 'a set \<Rightarrow> bool" where
  "strict_total P A \<longleftrightarrow> (\<forall>a b. P a b \<longrightarrow> \<not> P b a) \<and> (\<forall>a b c. P a b \<longrightarrow> P b c \<longrightarrow> P a c)
     \<and> (\<forall>a \<in> A. \<forall>b \<in> A. a \<noteq> b \<longrightarrow> P a b \<or> P b a)"

lemma strict_total_sub: "strict_total P A \<Longrightarrow> B \<subseteq> A \<Longrightarrow> strict_total P B"
  unfolding strict_total_def by blast

lemma strict_totalD:
  assumes "strict_total P A"
  shows "P a b \<Longrightarrow> \<not> P b a" "P a b \<Longrightarrow> P b c \<Longrightarrow> P a c" "a \<in> A \<Longrightarrow> b \<in> A \<Longrightarrow> a \<noteq> b \<Longrightarrow> P a b \<or> P b a"
  using assms unfolding strict_total_def by blast+

lemma rank_insert_sorted:
  assumes "strict_total P (insert x (set ys))" "sorted_wrt P ys" "x \<notin> set ys"
  shows "sorted_wrt P (rank_insert P x ys)"
  using assms
proof (induction ys)
  case (Cons y ys)
  have st: "strict_total P (insert x (set ys))" by (rule strict_total_sub [OF Cons.prems(1)]) auto
  have xy: "P x y \<or> P y x" by (rule strict_totalD(3) [OF Cons.prems(1)]) (use Cons.prems(3) in auto)
  note tr = strict_totalD(2) [OF Cons.prems(1)]
  show ?case
  proof (cases "P y x")
    case True
    then show ?thesis using Cons.IH [OF st] Cons.prems(2,3) by simp
  next
    case False
    then have "P x y" using xy by simp
    moreover from this have "\<forall>z \<in> set ys. P x z" using Cons.prems(2) tr [of x y] by simp
    ultimately show ?thesis using False Cons.prems(2) by simp
  qed
qed simp

lemma rank_sort_sorted:
  "strict_total P (set xs) \<Longrightarrow> distinct xs \<Longrightarrow> sorted_wrt P (rank_sort P xs)"
proof (induction xs)
  case (Cons x xs)
  have "strict_total P (set xs)" by (rule strict_total_sub [OF Cons.prems(1)]) auto
  then have "sorted_wrt P (rank_sort P xs)" using Cons.IH Cons.prems(2) by simp
  moreover have "set (rank_sort P xs) = set xs" by simp
  ultimately have "sorted_wrt P (rank_insert P x (rank_sort P xs))"
    using rank_insert_sorted [of P x "rank_sort P xs"] Cons.prems by simp
  then show ?case by (simp add: rank_sort_def)
qed (simp add: rank_sort_def)

lemma row_less_total:
  fixes k :: "FileEnt \<Rightarrow> 'k :: linorder"
  assumes "\<And>a b. (cmp a b < 0 \<longleftrightarrow> k a < k b) \<and> (cmp a b > 0 \<longleftrightarrow> k a > k b)" and "inj_on row_path A"
  shows "strict_total (row_less cmp desc) A"
proof -
  have e: "row_less cmp desc a b \<longleftrightarrow> (if k a = k b then row_path a < row_path b else if desc then k b < k a else k a < k b)" for a b
  proof -
    have "cmp a b = 0 \<longleftrightarrow> k a = k b" using assms(1) [of a b] by (metis less_irrefl linorder_neqE)
    then show ?thesis using assms(1) [of a b] by (auto simp: row_less_def Let_def)
  qed
  show ?thesis unfolding strict_total_def e
  proof (intro conjI allI ballI impI)
    fix a b c
    assume "if k a = k b then row_path a < row_path b else if desc then k b < k a else k a < k b"
      "if k b = k c then row_path b < row_path c else if desc then k c < k b else k b < k c"
    then show "if k a = k c then row_path a < row_path c else if desc then k c < k a else k a < k c"
      by (auto split: if_splits)
  next
    fix a b assume "a \<in> A" "b \<in> A" "a \<noteq> b"
    then have "row_path a \<noteq> row_path b" using assms(2) by (auto dest: inj_onD)
    then show "(if k a = k b then row_path a < row_path b else if desc then k b < k a else k a < k b)
      \<or> (if k b = k a then row_path b < row_path a else if desc then k a < k b else k b < k a)"
      by (auto simp: not_less_iff_gr_or_eq)
  qed (auto split: if_splits)
qed

lemma strings_Compare_sign [simp]:
  "strings_Compare a b < 0 \<longleftrightarrow> a < b" "strings_Compare a b > 0 \<longleftrightarrow> a > b"
  by (auto simp: strings_Compare_def)

lemma sort_cmp_total:
  assumes "sort_cmp field = Some cmp" "inj_on row_path A"
  shows "strict_total (row_less cmp desc) A"
proof -
  consider "cmp = (\<lambda>a b. strings_Compare (Name a) (Name b))" | "cmp = (\<lambda>a b. strings_Compare (FDir a) (FDir b))"
    | "cmp = (\<lambda>a b. if Size a < Size b then -1 else if Size a > Size b then 1 else 0)"
    | "cmp = (\<lambda>a b. strings_Compare (Mod a) (Mod b))" | "cmp = (\<lambda>a b. strings_Compare (Created a) (Created b))"
    | "cmp = (\<lambda>a b. strings_Compare (Captured a) (Captured b))"
    using assms(1) unfolding sort_cmp_def by (auto split: if_splits)
  then show ?thesis
  proof cases
    case 1 then show ?thesis using row_less_total [OF _ assms(2), of cmp Name] by simp
  next
    case 2 then show ?thesis using row_less_total [OF _ assms(2), of cmp FDir] by simp
  next
    case 3 then show ?thesis using row_less_total [OF _ assms(2), of cmp Size] by simp
  next
    case 4 then show ?thesis using row_less_total [OF _ assms(2), of cmp Mod] by simp
  next
    case 5 then show ?thesis using row_less_total [OF _ assms(2), of cmp Created] by simp
  next
    case 6 then show ?thesis using row_less_total [OF _ assms(2), of cmp Captured] by simp
  qed
qed

text \<open>The order of a sorted flat listing is a function of the rows alone: whatever order the scan stored
  them in, the listing is the same, each row once, and no later row should have come first.  So consecutive pages of it
  fit together.  (No two rows have the same path.)\<close>

theorem listing_order_stable:
  assumes "sort_cmp field = Some cmp" "distinct (map row_path xs)" "mset xs = mset ys"
  shows "sortFiles tx xs field dir = sortFiles tx ys field dir
    \<and> mset (sortFiles tx xs field dir) = mset xs
    \<and> sorted_wrt (row_less cmp (tx_fold tx dir ''DESC'')) (sortFiles tx xs field dir)"
proof -
  let ?P = "row_less cmp (tx_fold tx dir ''DESC'')"
  have s: "set ys = set xs" using assms(3) mset_eq_setD by metis
  have "distinct xs" "distinct ys" using assms(2,3) by (auto simp: distinct_map dest: mset_eq_imp_distinct_iff)
  moreover have tot: "strict_total ?P (set xs)" using sort_cmp_total [OF assms(1)] assms(2) by (simp add: distinct_map)
  ultimately have "sorted_wrt ?P (rank_sort ?P xs)" "sorted_wrt ?P (rank_sort ?P ys)"
    using rank_sort_sorted [of ?P xs] rank_sort_sorted [of ?P ys] s by simp_all
  moreover from this have "rank_sort ?P xs = rank_sort ?P ys"
    by (intro sorted_wrt_same_set [of ?P] strict_totalD(1) [OF tot]) (use s in simp_all)
  ultimately show ?thesis using assms(3) by (simp add: sortFiles_def assms(1))
qed

subsection \<open>The size filter\<close>

text \<open>The size filter is exact for bounds below eight exbibytes.\<close>

lemma size_filter_exact:
  assumes "0 \<le> sp_sizeMB p" "sp_sizeMB p < 8796093022208"
  shows "match_size p f \<longleftrightarrow>
     (sp_sizeOp p = ''eq'' \<longrightarrow> go_quot (Size f) mib = sp_sizeMB p)
     \<and> (sp_sizeOp p = ''gt'' \<longrightarrow> Size f > sp_sizeMB p * mib) \<and> (sp_sizeOp p = ''lt'' \<longrightarrow> Size f < sp_sizeMB p * mib)"
proof -
  have "goint 64 (sp_sizeMB p * mib) = sp_sizeMB p * mib" by (rule goint64_small) (use assms in \<open>simp_all add: mib_def\<close>)
  then show ?thesis by (auto simp: match_size_def Let_def)
qed

text \<open>Above, the product wraps: asked for files larger than sixteen exbibytes, the filter keeps every
  file that is not empty, and asked for smaller ones it keeps none.\<close>

theorem size_filter_wraps:
  assumes "sp_sizeMB p = 17592186044416"
  shows "(sp_sizeOp p = ''gt'' \<longrightarrow> (match_size p f \<longleftrightarrow> 0 < Size f))
    \<and> (sp_sizeOp p = ''lt'' \<longrightarrow> (match_size p f \<longleftrightarrow> Size f < 0))"
proof -
  have "goint 64 (sp_sizeMB p * mib) = 0" unfolding assms mib_def by code_simp
  then show ?thesis by (auto simp: match_size_def)
qed

subsection \<open>A small group\<close>

text \<open>Trimming a string of ASCII bytes looks at its bytes.\<close>

lemma IsSpace_code [code]:
  "IsSpace r \<longleftrightarrow>
     (if r < 128 then 9 \<le> r \<and> r \<le> 13 \<or> r = 32
      else r \<in> {0x85, 0xA0, 0x1680, 0x2028, 0x2029, 0x202F, 0x205F, 0x3000} \<or> 0x2000 \<le> r \<and> r \<le> 0x200A)"
  by (auto simp: IsSpace_def)

lemma TrimSpace_code [code]:
  "TrimSpace s =
     (if ascii s then rev (dropWhile (\<lambda>c. IsSpace (of_char c)) (rev (dropWhile (\<lambda>c. IsSpace (of_char c)) s)))
      else concat (map snd (rev (dropWhile (\<lambda>rw. IsSpace (fst rw)) (rev (dropWhile (\<lambda>rw. IsSpace (fst rw)) (rune_chunks s)))))))"
proof (cases "ascii s")
  case True
  have d: "dropWhile (\<lambda>rw. IsSpace (fst rw)) (map (\<lambda>c. (of_char c :: nat, [c])) w)
      = map (\<lambda>c. (of_char c, [c])) (dropWhile (\<lambda>c. IsSpace (of_char c)) w)" for w
    by (simp add: dropWhile_map comp_def)
  have c: "concat (map snd (map (\<lambda>c. (of_char c :: nat, [c])) w)) = w" for w :: gostring by (induction w) auto
  show ?thesis using True by (simp only: TrimSpace_def runes_of_ascii d rev_map c if_True simp_thms)
qed (simp add: TrimSpace_def)

definition ex_dup_row :: "gostring \<Rightarrow> gostring \<Rightarrow> gostring \<Rightarrow> FileEnt" where
  "ex_dup_row i n d = zero_FileEnt\<lparr>ID := i, Name := n, FDir := d, Created := ''2020'', Size := 7\<rparr>"

definition ex_dup_group :: Group where
  "ex_dup_group = zero_Group\<lparr>GID := ''g0'', GSize := 7, Copies := 3,
     GFiles := [ex_dup_row ''f1'' ''a'' ''/v/x'', ex_dup_row ''f2'' ''b'' ''/v/x'', ex_dup_row ''f3'' ''a'' ''/v/y'', ex_dup_row ''f4'' ''c'' ''/v/y'']\<rparr>"

definition by_name :: MatchOpts where
  "by_name = \<lparr>MName = True, MModified = False, MCreated = False\<rparr>"

lemma ex_refined: "map (\<lambda>g. (GID g, map ID (GFiles g), Copies g)) (refineGroups [ex_dup_group] by_name) = [(''g0-0'', [''f1'', ''f3''], 3)]"
  by code_simp

lemma ex_dup_group_plain: "(\<forall>f \<in> set (GFiles ex_dup_group). plain_row f) \<and> distinct (map ID (GFiles ex_dup_group))"
  by (simp add: ex_dup_group_def ex_dup_row_def zero_FileEnt_def zero_Group_def plain_row_def)

theorem refined_groups_agree_witness:
  "filter (agree by_name (ex_dup_row ''f1'' ''a'' ''/v/x'')) (GFiles ex_dup_group) \<in> GFiles ` set (refineGroups [ex_dup_group] by_name)"
proof -
  let ?f = "ex_dup_row ''f1'' ''a'' ''/v/x''"
  have "?f \<in> set (GFiles ex_dup_group)" by (simp add: ex_dup_group_def)
  moreover have "2 \<le> length (filter (agree by_name ?f) (GFiles ex_dup_group))" by code_simp
  moreover have "MName by_name \<or> MModified by_name \<or> MCreated by_name" by (simp add: by_name_def)
  ultimately show ?thesis using refined_groups_agree [of by_name "[ex_dup_group]"] ex_dup_group_plain by auto
qed

text \<open>Refined by name, a group of four names of three files keeps two members and the count three.\<close>

theorem refined_copies_stale_witness:
  "\<exists>sub. refineGroups [ex_dup_group] by_name = [sub] \<and> length (GFiles sub) = 2 \<and> Copies sub = 3"
proof -
  obtain sub where sub: "refineGroups [ex_dup_group] by_name = [sub]" "map ID (GFiles sub) = [''f1'', ''f3'']"
    using ex_refined by (cases "refineGroups [ex_dup_group] by_name") auto
  have "Copies sub = Copies ex_dup_group" by (rule refined_copies_stale [of _ _ by_name]) (simp add: sub(1))
  then show ?thesis using sub by (auto simp: ex_dup_group_def zero_Group_def dest: arg_cong [where f = length])
qed

definition ex_upper :: "gostring \<Rightarrow> gostring" where
  "ex_upper s = map (\<lambda>c. if c = CHR ''d'' then CHR ''D'' else c) s"

definition ex_texts :: texts where
  "ex_texts = \<lparr>tx_lower = id, tx_upper = ex_upper, tx_fold = (\<lambda>a b. ex_upper a = ex_upper b)\<rparr>"

theorem listing_order_stable_witness:
  "sortFiles ex_texts (GFiles ex_dup_group) ''name'' ''ASC'' = sortFiles ex_texts (rev (GFiles ex_dup_group)) ''name'' ''ASC''"
proof -
  have 1: "sort_cmp ''name'' = Some (\<lambda>a b. strings_Compare (Name a) (Name b))" by (simp add: sort_cmp_def)
  have 2: "distinct (map row_path (GFiles ex_dup_group))" by code_simp
  have 3: "mset (GFiles ex_dup_group) = mset (rev (GFiles ex_dup_group))" by simp
  show ?thesis using listing_order_stable [OF 1 2 3] by blast
qed

definition ex_pred :: "gostring \<Rightarrow> searchPred" where
  "ex_pred sizeop = \<lparr>sp_needle = [], sp_loc = [], sp_ftype = [], sp_exts = None, sp_extq = [], sp_dateBy = [], sp_dateFrom = [],
     sp_dateTo = [], sp_sizeOp = sizeop, sp_sizeMB = 17592186044416\<rparr>"

theorem size_filter_wraps_witness:
  "match_size (ex_pred ''gt'') (ex_dup_row ''f1'' ''a'' ''/v/x'')"
  using size_filter_wraps [of "ex_pred ''gt''" "ex_dup_row ''f1'' ''a'' ''/v/x''"]
  by (simp add: ex_pred_def ex_dup_row_def zero_FileEnt_def)

end
