(* ===== verification/ResultPages.thy ===== *)
theory ResultPages
  imports ResultQuery Walk
begin

text \<open>
  The pages the app reads (\<open>server/results.go\<close>): the read-only reference copies
  (\<open>refMatcher\<close>), the totals, the derived view and its single cached slot, and the handler
  \<open>handlePagedResults\<close> as a function of the server's state.  The lemmas show that the cached view is
  the one that would be built, that paging reaches every row, what trimming keeps, and that the reclaimable figure never
  overstates and adds up.
\<close>

subsection \<open>Reference copies\<close>

record refMatcher =
  rm_raw :: "path list"
  rm_canon :: "path list"
  rm_roots :: "RootMap list"

fun resolve_dirs :: "evalsym \<Rightarrow> dirResolver \<Rightarrow> path list \<Rightarrow> path list" where
  "resolve_dirs ev r [] = []"
| "resolve_dirs ev r (d # ds) = (let (c, r1) = resolver_dir ev r d in c # resolve_dirs ev r1 ds)"

definition newRefMatcher :: "evalsym \<Rightarrow> path list \<Rightarrow> RootMap list \<Rightarrow> refMatcher" where
  "newRefMatcher ev refs roots =
     (if refs = [] then \<lparr>rm_raw = [], rm_canon = [], rm_roots = roots\<rparr>
      else \<lparr>rm_raw = uniquePaths refs, rm_canon = resolve_dirs ev newDirResolver (uniquePaths refs), rm_roots = roots\<rparr>)"

definition rm_empty :: "refMatcher \<Rightarrow> bool" where
  "rm_empty m \<longleftrightarrow> rm_raw m = []"

fun protects_roots :: "refMatcher \<Rightarrow> path \<Rightarrow> RootMap list \<Rightarrow> bool" where
  "protects_roots m p [] = False"
| "protects_roots m p (rt # rts) =
     (if p = Raw rt \<or> HasPrefix p (Raw rt @ ''/'') then isUnder (Canon rt @ drop (length (Raw rt)) p) (rm_canon m)
      else protects_roots m p rts)"

definition protects :: "refMatcher \<Rightarrow> path \<Rightarrow> gostring \<Rightarrow> bool" where
  "protects m dir name =
     (if rm_empty m then False
      else (let p = Join dir name in
        if isUnder p (rm_raw m) \<or> isUnder p (rm_canon m) then True else protects_roots m p (rm_roots m)))"

definition mark_row :: "refMatcher \<Rightarrow> FileEnt \<Rightarrow> FileEnt" where
  "mark_row m f = (if protects m (FDir f) (Name f) then f\<lparr>Prot := True\<rparr> else f)"

definition markGroupProt :: "Group list \<Rightarrow> refMatcher \<Rightarrow> Group list" where
  "markGroupProt groups m =
     (if rm_empty m then groups
      else map (\<lambda>g. g\<lparr>GFiles := map (mark_row m) (GFiles g),
                  GProt := int (length (filter (\<lambda>f. protects m (FDir f) (Name f)) (GFiles g)))\<rparr>) groups)"

definition markFileProt :: "FileEnt list \<Rightarrow> refMatcher \<Rightarrow> FileEnt list" where
  "markFileProt files m = (if rm_empty m then files else map (mark_row m) files)"

subsection \<open>Trimming\<close>

definition maxPageRows :: nat where "maxPageRows = 2000"
definition maxGroupRows :: nat where "maxGroupRows = 500"
definition minGroupRows :: nat where "minGroupRows = 2"

definition trim_room :: "nat \<Rightarrow> nat" where
  "trim_room budget = (let room = (if budget > maxGroupRows then maxGroupRows else budget) in
     if room < minGroupRows then minGroupRows else room)"

fun trim_rows :: "nat \<Rightarrow> Group list \<Rightarrow> Group list" where
  "trim_rows budget [] = []"
| "trim_rows budget (g # gs) =
     (let full = length (GFiles g); room = trim_room budget;
          g1 = (if full > room then g\<lparr>GFiles := take room (GFiles g), GCount := int full\<rparr> else g)
      in g1 # trim_rows (budget - length (GFiles g1)) gs)"

definition trimGroupRows :: "Group list \<Rightarrow> Group list" where
  "trimGroupRows groups = trim_rows maxPageRows groups"

subsection \<open>Dates\<close>

record dateSpan =
  ds_Min :: gostring
  ds_Max :: gostring

record dateRanges =
  dr_Modified :: dateSpan
  dr_Created :: dateSpan
  dr_Captured :: dateSpan

definition zero_span :: dateSpan where "zero_span = \<lparr>ds_Min = [], ds_Max = []\<rparr>"

definition span_add :: "gostring \<Rightarrow> dateSpan \<Rightarrow> dateSpan" where
  "span_add v d =
     (if v = [] then d
      else \<lparr>ds_Min = (if ds_Min d = [] \<or> v < ds_Min d then v else ds_Min d),
            ds_Max = (if ds_Max d = [] \<or> v > ds_Max d then v else ds_Max d)\<rparr>)"

definition addFile :: "FileEnt \<Rightarrow> dateRanges \<Rightarrow> dateRanges" where
  "addFile f r = \<lparr>dr_Modified = span_add (Mod f) (dr_Modified r), dr_Created = span_add (Created f) (dr_Created r),
     dr_Captured = span_add (Captured f) (dr_Captured r)\<rparr>"

definition scanDateRanges :: "toolResult \<Rightarrow> dateRanges" where
  "scanDateRanges res =
     fold addFile (concat (map GFiles (Groups res)) @ Files res)
       \<lparr>dr_Modified = zero_span, dr_Created = zero_span, dr_Captured = zero_span\<rparr>"

subsection \<open>Totals\<close>

record pageTotals =
  pt_Groups :: int
  pt_Files :: int
  pt_Bytes :: int
  pt_Reclaimable :: int
  pt_Corrupt :: int

definition zero_totals :: pageTotals where
  "zero_totals = \<lparr>pt_Groups = 0, pt_Files = 0, pt_Bytes = 0, pt_Reclaimable = 0, pt_Corrupt = 0\<rparr>"

definition rowPhys :: "FileEnt \<Rightarrow> int \<Rightarrow> int" where
  "rowPhys f sz = (case Alloc f of Some a \<Rightarrow> a | None \<Rightarrow> sz)"

text \<open>The loop of \<open>groupReclaim\<close>: the rows seen, the sum and the largest so far, and whether a copy
  stays.\<close>

fun reclaim_rows :: "int \<Rightarrow> (FileEnt \<Rightarrow> bool) \<Rightarrow> gostring set \<Rightarrow> gostring set \<Rightarrow> int \<times> int \<times> bool \<Rightarrow> FileEnt list
    \<Rightarrow> int \<times> int \<times> bool" where
  "reclaim_rows sz prot keptIno seen acc [] = acc"
| "reclaim_rows sz prot keptIno seen (s, l, any) (f # fs) =
     (let p = rowPhys f sz; counted = (s + p, if p > l then p else l, any) in
      if Ino f \<noteq> [] then
        (if Ino f \<in> seen then reclaim_rows sz prot keptIno seen (s, l, any) fs
         else if Ino f \<in> keptIno then reclaim_rows sz prot keptIno (insert (Ino f) seen) (s, l, True) fs
         else reclaim_rows sz prot keptIno (insert (Ino f) seen) counted fs)
      else if prot f then reclaim_rows sz prot keptIno seen (s, l, True) fs
      else reclaim_rows sz prot keptIno seen counted fs)"

definition groupReclaim :: "int \<Rightarrow> FileEnt list \<Rightarrow> (FileEnt \<Rightarrow> bool) option \<Rightarrow> int" where
  "groupReclaim sz files protect =
     (let prot = (case protect of None \<Rightarrow> (\<lambda>_. False) | Some p \<Rightarrow> p);
          keptIno = Ino ` set (filter (\<lambda>f. prot f \<and> Ino f \<noteq> []) files);
          (s, l, any) = reclaim_rows sz prot keptIno {} (0, 0, False) files
      in if any then s else s - l)"

definition dupTotals :: "Group list \<Rightarrow> refMatcher \<Rightarrow> pageTotals" where
  "dupTotals groups m =
     zero_totals\<lparr>pt_Groups := int (length groups),
       pt_Files := sum_list (map (\<lambda>g. int (length (GFiles g))) groups),
       pt_Bytes := sum_list (map (\<lambda>g. GSize g * int (length (GFiles g))) groups),
       pt_Reclaimable := sum_list (map (\<lambda>g. groupReclaim (GSize g) (GFiles g)
           (if rm_empty m then None else Some (\<lambda>f. protects m (FDir f) (Name f)))) groups)\<rparr>"

definition markGroupReclaim :: "Group list \<Rightarrow> Group list" where
  "markGroupReclaim groups = map (\<lambda>g. g\<lparr>Reclaim := groupReclaim (GSize g) (GFiles g) (Some Prot)\<rparr>) groups"

definition corruptedTotals :: "Group list \<Rightarrow> pageTotals" where
  "corruptedTotals groups =
     zero_totals\<lparr>pt_Groups := int (length groups),
       pt_Files := sum_list (map (\<lambda>g. int (length (GFiles g))) groups),
       pt_Bytes := sum_list (map (\<lambda>g. GSize g * int (length (GFiles g))) groups),
       pt_Corrupt := sum_list (map (\<lambda>g. int (length (filter (\<lambda>f. Verdict f = verdictCorrupt) (GFiles g)))) groups)\<rparr>"

definition flatTotals :: "FileEnt list \<Rightarrow> pageTotals" where
  "flatTotals files = zero_totals\<lparr>pt_Files := int (length files), pt_Bytes := sum_list (map Size files)\<rparr>"

subsection \<open>The view\<close>

record resultView =
  rv_key :: gostring
  rv_groups :: "Group list"
  rv_files :: "FileEnt list"
  rv_total :: pageTotals
  rv_grand :: pageTotals

definition FormatBool :: "bool \<Rightarrow> gostring" where
  "FormatBool b = (if b then ''true'' else ''false'')"

definition match_text_key :: "MatchOpts \<Rightarrow> gostring" where
  "match_text_key m = FormatBool (MName m) @ ''|'' @ FormatBool (MModified m) @ ''|'' @ FormatBool (MCreated m)"

definition key_parts_of :: "texts \<Rightarrow> resultsQuery \<Rightarrow> gostring list" where
  "key_parts_of tx q =
     [rq_Tool q, needle_of tx (rq_Query q), match_text_key (rq_Match q), rq_Sort q, tx_upper tx (rq_Dir q),
      rq_Loc q, rq_FType q, rq_ExtQ q, rq_DateBy q, rq_DateFrom q, rq_DateTo q, rq_SizeOp q, itoa (rq_SizeMB q)]"

definition viewKey :: "texts \<Rightarrow> resultsQuery \<Rightarrow> gostring" where
  "viewKey tx q = join_byte (CHR 0x00) (key_parts_of tx q @ uniquePaths (rq_RefDirs q))"

definition kept_by :: "texts \<Rightarrow> searchPred option \<Rightarrow> FileEnt \<Rightarrow> bool" where
  "kept_by tx pred f = (case pred of None \<Rightarrow> True | Some p \<Rightarrow> search_match tx p f)"

definition buildView :: "texts \<Rightarrow> toolResult \<Rightarrow> resultsQuery \<Rightarrow> gostring \<Rightarrow> refMatcher \<Rightarrow> resultView" where
  "buildView tx res q key m =
     (let pred = compileSearch tx q;
          grouped = (\<lambda>groups totals.
            let shown = (case pred of None \<Rightarrow> groups | Some p \<Rightarrow> filterGroups tx groups p)
            in \<lparr>rv_key = key, rv_groups = shown, rv_files = [], rv_total = totals shown, rv_grand = totals groups\<rparr>)
      in if Tool res = ''corrupted_files'' then grouped (Groups res) corruptedTotals
         else if Tool res = ''duplicates'' then grouped (refineGroups (Groups res) (rq_Match q)) (\<lambda>gs. dupTotals gs m)
         else (let files = sortFiles tx (filter (kept_by tx pred) (Files res)) (rq_Sort q) (rq_Dir q)
           in \<lparr>rv_key = key, rv_groups = [], rv_files = files, rv_total = flatTotals files,
                rv_grand = flatTotals (Files res)\<rparr>))"

subsection \<open>Pages\<close>

definition maxGroupLimit :: int where "maxGroupLimit = 5000"
definition maxFileLimit :: int where "maxFileLimit = 20000"
definition defGroupLimit :: int where "defGroupLimit = 100"
definition defFileLimit :: int where "defFileLimit = 500"

definition clampPage :: "string \<Rightarrow> int \<Rightarrow> int \<Rightarrow> int \<times> int" where
  "clampPage tool off lim =
     (let (maxL, defL) = (if tool \<in> set groupedTools then (maxGroupLimit, defGroupLimit) else (maxFileLimit, defFileLimit));
          lim1 = (if lim \<le> 0 then defL else lim)
      in (if off < 0 then 0 else off, if lim1 > maxL then maxL else lim1))"

definition slicePage :: "'a list \<Rightarrow> int \<Rightarrow> int \<Rightarrow> 'a list" where
  "slicePage xs off lim =
     (let len = int (length xs); off1 = (if off > len then len else off); end1 = off1 + lim;
          end2 = (if end1 > len then len else end1)
      in take (nat (end2 - off1)) (drop (nat off1) xs))"

text \<open>What the handler reads and writes of the server: the stored results, the reference folders of
  their scan, the record of moved files, the single cached view and the cached date spans.\<close>

record rserver =
  rs_results :: "string \<rightharpoonup> toolResult"
  rs_refDirs :: "path list"
  rs_moveOut :: moveOutSet
  rs_view :: "resultView option"
  rs_dates :: "string \<rightharpoonup> dateRanges"

definition invalidateDerivedLocked :: "'a rserver_scheme \<Rightarrow> 'a rserver_scheme" where
  "invalidateDerivedLocked st = st\<lparr>rs_view := None, rs_dates := Map.empty\<rparr>"

definition dateRangeLocked :: "string \<Rightarrow> toolResult \<Rightarrow> rserver \<Rightarrow> dateRanges \<times> rserver" where
  "dateRangeLocked tool res st =
     (case rs_dates st tool of
        Some r \<Rightarrow> (r, st)
      | None \<Rightarrow> (let r = scanDateRanges res in (r, st\<lparr>rs_dates := (rs_dates st)(tool \<mapsto> r)\<rparr>)))"

record page =
  pg_off :: int
  pg_lim :: int
  pg_total :: pageTotals
  pg_grand :: pageTotals
  pg_dates :: dateRanges
  pg_res :: toolResult
  pg_groups :: "Group list"
  pg_files :: "FileEnt list"

datatype paged_reply = BadBody | BadTool | NotScanned string | Page page

definition page_groups :: "disk \<Rightarrow> rserver \<Rightarrow> string \<Rightarrow> refMatcher \<Rightarrow> RootMap list \<Rightarrow> Group list \<Rightarrow> Group list" where
  "page_groups d st tool refs roots gs =
     trimGroupRows
       (if tool = ''duplicates'' then markGroupReclaim (markGroupOut d (markGroupProt gs refs) (rs_moveOut st) roots) else gs)"

definition handlePagedResults ::
  "texts \<Rightarrow> evalsym \<Rightarrow> disk \<Rightarrow> resultsQuery option \<Rightarrow> rserver \<Rightarrow> paged_reply \<times> rserver" where
  "handlePagedResults tx ev d body st =
     (case body of
        None \<Rightarrow> (BadBody, st)
      | Some q \<Rightarrow>
          if rq_Tool q \<notin> set validTools then (BadTool, st)
          else (case rs_results st (rq_Tool q) of
             None \<Rightarrow> (NotScanned (rq_Tool q), st)
           | Some res \<Rightarrow>
               (let key = viewKey tx q;
                    refs = newRefMatcher ev (rs_refDirs st) (Roots res);
                    view = (case rs_view st of
                        Some v \<Rightarrow> if rv_key v = key then v else buildView tx res q key refs
                      | None \<Rightarrow> buildView tx res q key refs);
                    (dates, st1) = dateRangeLocked (rq_Tool q) res (st\<lparr>rs_view := Some view\<rparr>);
                    (off, lim) = clampPage (rq_Tool q) (rq_Offset q) (rq_Limit q);
                    grouped = (rq_Tool q \<in> set groupedTools)
                in (Page \<lparr>pg_off = off, pg_lim = lim, pg_total = rv_total view, pg_grand = rv_grand view, pg_dates = dates,
                      pg_res = res,
                      pg_groups = (if grouped then page_groups d st (rq_Tool q) refs (Roots res) (slicePage (rv_groups view) off lim) else []),
                      pg_files = (if grouped then [] else markFileProt (slicePage (rv_files view) off lim) refs)\<rparr>, st1))))"

subsection \<open>The cached view\<close>

lemma join_inject:
  assumes "length us = length vs" "us \<noteq> []" "\<forall>w \<in> set us \<union> set vs. c \<notin> set w"
    and "join_byte c (us @ r) = join_byte c (vs @ r')"
  shows "us = vs"
  using assms
proof (induction us vs rule: list_induct2)
  case (Cons u us v vs)
  have sep: "u' @ c # x = v' @ c # y \<Longrightarrow> c \<notin> set u' \<Longrightarrow> c \<notin> set v' \<Longrightarrow> u' = v' \<and> x = y" for u' v' x y
    by (induction u' arbitrary: v') (case_tac v'; auto)+
  have no: "u' = v' @ c # y \<Longrightarrow> c \<notin> set u' \<Longrightarrow> False" for u' v' y by auto
  show ?case
  proof (cases us)
    case Nil
    then have vs: "vs = []" using Cons.hyps by simp
    show ?thesis
      using Cons.prems(2,3) Nil vs by (cases r; cases r') (auto dest: sep no sym)
  next
    case (Cons u' us')
    then obtain v' vs' where vs: "vs = v' # vs'" using Cons.hyps by (cases vs) auto
    have j: "u @ c # join_byte c (us @ r) = v @ c # join_byte c (vs @ r')" using Cons.prems(3) Cons vs by simp
    then have "u = v" "join_byte c (us @ r) = join_byte c (vs @ r')" using sep [OF j] Cons.prems(2) by auto
    then show ?thesis using Cons.IH Cons.prems(2) Cons by simp
  qed
qed simp

lemma match_text_key_inject: "match_text_key m = match_text_key n \<Longrightarrow> m = n"
  by (cases m; cases n) (auto simp: match_text_key_def FormatBool_def split: if_splits)

definition nul_free :: "texts \<Rightarrow> resultsQuery \<Rightarrow> bool" where
  "nul_free tx q \<longleftrightarrow> (\<forall>w \<in> set (key_parts_of tx q). CHR 0x00 \<notin> set w)"

text \<open>What is relied on of the case tables: two spellings with one upper-case form fold alike.\<close>

definition sane_texts :: "texts \<Rightarrow> bool" where
  "sane_texts tx \<longleftrightarrow> (\<forall>a b w. tx_upper tx a = tx_upper tx b \<longrightarrow> tx_fold tx a w = tx_fold tx b w)"

lemma viewKey_parts:
  assumes "viewKey tx q = viewKey tx q'" "nul_free tx q" "nul_free tx q'"
  shows "key_parts_of tx q = key_parts_of tx q'"
proof (rule join_inject)
  show "join_byte (CHR 0x00) (key_parts_of tx q @ uniquePaths (rq_RefDirs q)) = join_byte (CHR 0x00) (key_parts_of tx q' @ uniquePaths (rq_RefDirs q'))"
    using assms(1) by (simp add: viewKey_def)
  show "\<forall>w \<in> set (key_parts_of tx q) \<union> set (key_parts_of tx q'). CHR 0x00 \<notin> set w" using assms(2,3) by (auto simp: nul_free_def)
qed (simp_all add: key_parts_of_def)

lemma buildView_key:
  assumes "viewKey tx q = viewKey tx q'" "nul_free tx q" "nul_free tx q'" "sane_texts tx"
  shows "buildView tx res q key m = buildView tx res q' key m" and "rq_Tool q = rq_Tool q'"
proof -
  have k: "rq_Tool q = rq_Tool q'" "needle_of tx (rq_Query q) = needle_of tx (rq_Query q')" "rq_Match q = rq_Match q'"
    "rq_Sort q = rq_Sort q'" "tx_upper tx (rq_Dir q) = tx_upper tx (rq_Dir q')" "rq_Loc q = rq_Loc q'"
    "rq_FType q = rq_FType q'" "rq_ExtQ q = rq_ExtQ q'" "rq_DateBy q = rq_DateBy q'" "rq_DateFrom q = rq_DateFrom q'"
    "rq_DateTo q = rq_DateTo q'" "rq_SizeOp q = rq_SizeOp q'" "rq_SizeMB q = rq_SizeMB q'"
    using viewKey_parts [OF assms(1-3)] itoa_inject match_text_key_inject by (simp_all add: key_parts_of_def)
  have c: "compileSearch tx q = compileSearch tx q'" by (simp only: compileSearch_def k)
  have "tx_fold tx (rq_Dir q) w = tx_fold tx (rq_Dir q') w" for w using assms(4) k(5) unfolding sane_texts_def by blast
  then have s: "sortFiles tx fs (rq_Sort q') (rq_Dir q) = sortFiles tx fs (rq_Sort q') (rq_Dir q')" for fs
    by (simp only: sortFiles_def k)
  show "buildView tx res q key m = buildView tx res q' key m" by (simp only: buildView_def c s k)
  show "rq_Tool q = rq_Tool q'" by (rule k(1))
qed

text \<open>The cached view, when there is one, was built for some earlier request from what is stored
  now.\<close>

definition view_sound :: "texts \<Rightarrow> evalsym \<Rightarrow> rserver \<Rightarrow> bool" where
  "view_sound tx ev st \<longleftrightarrow>
     (case rs_view st of
        None \<Rightarrow> True
      | Some v \<Rightarrow> \<exists>q res. nul_free tx q \<and> rs_results st (rq_Tool q) = Some res
          \<and> v = buildView tx res q (viewKey tx q) (newRefMatcher ev (rs_refDirs st) (Roots res)))"

definition dates_sound :: "rserver \<Rightarrow> bool" where
  "dates_sound st \<longleftrightarrow> (\<forall>tool r. rs_dates st tool = Some r \<longrightarrow> (\<exists>res. rs_results st tool = Some res \<and> r = scanDateRanges res))"

lemma view_served:
  assumes "view_sound tx ev st" "sane_texts tx" "nul_free tx q" "rs_results st (rq_Tool q) = Some res"
    and v: "rs_view st = Some v" "rv_key v = viewKey tx q"
  shows "v = buildView tx res q (viewKey tx q) (newRefMatcher ev (rs_refDirs st) (Roots res))"
proof -
  obtain q' res' where q': "nul_free tx q'" "rs_results st (rq_Tool q') = Some res'"
    "v = buildView tx res' q' (viewKey tx q') (newRefMatcher ev (rs_refDirs st) (Roots res'))"
    using assms(1) v(1) by (auto simp: view_sound_def)
  then have key: "viewKey tx q' = viewKey tx q" using v(2) by (auto simp: buildView_def Let_def split: if_splits)
  have "rq_Tool q' = rq_Tool q" by (rule buildView_key(2) [OF key q'(1) assms(3,2)])
  then have "res' = res" using q'(2) assms(4) by simp
  then show ?thesis using q'(3) buildView_key(1) [OF key q'(1) assms(3,2)] key by simp
qed

text \<open>The page a request gets, written with a fresh view and fresh date spans.\<close>

definition fresh_page :: "texts \<Rightarrow> evalsym \<Rightarrow> disk \<Rightarrow> resultsQuery \<Rightarrow> toolResult \<Rightarrow> rserver \<Rightarrow> page" where
  "fresh_page tx ev d q res st =
     (let refs = newRefMatcher ev (rs_refDirs st) (Roots res); view = buildView tx res q (viewKey tx q) refs;
          (off, lim) = clampPage (rq_Tool q) (rq_Offset q) (rq_Limit q); grouped = (rq_Tool q \<in> set groupedTools)
      in \<lparr>pg_off = off, pg_lim = lim, pg_total = rv_total view, pg_grand = rv_grand view, pg_dates = scanDateRanges res,
           pg_res = res,
           pg_groups = (if grouped then page_groups d st (rq_Tool q) refs (Roots res) (slicePage (rv_groups view) off lim) else []),
           pg_files = (if grouped then [] else markFileProt (slicePage (rv_files view) off lim) refs)\<rparr>)"

lemma served_fresh:
  assumes "view_sound tx ev st" "dates_sound st" "sane_texts tx" "nul_free tx q"
    and "rq_Tool q \<in> set validTools" "rs_results st (rq_Tool q) = Some res"
  shows "fst (handlePagedResults tx ev d (Some q) st) = Page (fresh_page tx ev d q res st)
    \<and> view_sound tx ev (snd (handlePagedResults tx ev d (Some q) st))
    \<and> dates_sound (snd (handlePagedResults tx ev d (Some q) st))
    \<and> rs_results (snd (handlePagedResults tx ev d (Some q) st)) = rs_results st
    \<and> rs_refDirs (snd (handlePagedResults tx ev d (Some q) st)) = rs_refDirs st
    \<and> rs_moveOut (snd (handlePagedResults tx ev d (Some q) st)) = rs_moveOut st"
proof -
  let ?key = "viewKey tx q" and ?refs = "newRefMatcher ev (rs_refDirs st) (Roots res)"
  let ?v = "buildView tx res q ?key ?refs"
  have v: "(case rs_view st of Some v \<Rightarrow> if rv_key v = ?key then v else ?v | None \<Rightarrow> ?v) = ?v"
    using view_served [OF assms(1,3,4,6)] by (simp split: option.split)
  obtain dates st1 where d: "dateRangeLocked (rq_Tool q) res (st\<lparr>rs_view := Some ?v\<rparr>) = (dates, st1)" by fastforce
  have sd: "r = scanDateRanges res" if "rs_dates st (rq_Tool q) = Some r" for r
  proof -
    have "\<exists>res'. rs_results st (rq_Tool q) = Some res' \<and> r = scanDateRanges res'"
      using assms(2) that unfolding dates_sound_def by blast
    then show ?thesis using assms(6) by auto
  qed
  have st1: "dates = scanDateRanges res" "rs_view st1 = Some ?v" "rs_results st1 = rs_results st" "rs_refDirs st1 = rs_refDirs st"
    "rs_moveOut st1 = rs_moveOut st" "dates_sound st1"
    using d assms(2,6) by (auto simp: dateRangeLocked_def dates_sound_def Let_def sd split: option.splits if_splits)
  have h: "handlePagedResults tx ev d (Some q) st = (Page (fresh_page tx ev d q res st), st1)"
    using assms(5,6) d st1(1) v by (simp add: handlePagedResults_def fresh_page_def Let_def case_prod_beta)
  have "view_sound tx ev st1" using assms(4,6) st1(2-4) by (auto simp: view_sound_def)
  then show ?thesis using h st1 by simp
qed


subsection \<open>Paging reaches every row\<close>

text \<open>A client that asks for one page after the other.\<close>

fun serve :: "texts \<Rightarrow> evalsym \<Rightarrow> disk \<Rightarrow> resultsQuery \<Rightarrow> int list \<Rightarrow> rserver \<Rightarrow> page list" where
  "serve tx ev d q [] st = []"
| "serve tx ev d q (off # offs) st =
     (case handlePagedResults tx ev d (Some (q\<lparr>rq_Offset := off\<rparr>)) st of
        (Page p, st1) \<Rightarrow> p # serve tx ev d q offs st1
      | (_, st1) \<Rightarrow> serve tx ev d q offs st1)"

definition shown_ids :: "page \<Rightarrow> string list" where
  "shown_ids p = map GID (pg_groups p) @ map ID (pg_files p)"

definition view_ids :: "string \<Rightarrow> resultView \<Rightarrow> string list" where
  "view_ids tool v = (if tool \<in> set groupedTools then map GID (rv_groups v) else map ID (rv_files v))"

lemma slicePage_nat: "slicePage xs (int a) (int L) = take L (drop a xs)"
  by (auto simp: slicePage_def Let_def nat_diff_distrib nat_int_add)

lemma slicePage_chunk: "slicePage xs (int k * int L) (int L) = take L (drop (k * L) xs)"
  using slicePage_nat [of xs "k * L" L] by (simp only: of_nat_mult)

lemma concat_chunks: "concat (map (\<lambda>k. take L (drop (k * L) xs)) [0..<n]) = take (n * L) xs"
proof (induction n)
  case (Suc n)
  have "Suc n * L = n * L + L" by simp
  then show ?case using Suc by (simp only: upt_Suc take_add) simp
qed simp

lemma trim_GIDs: "map GID (trim_rows b gs) = map GID gs"
  by (induction b gs rule: trim_rows.induct) (simp_all add: Let_def)

lemma page_GIDs: "map GID (page_groups d st tool refs roots gs) = map GID gs"
  by (simp add: page_groups_def trimGroupRows_def trim_GIDs markGroupReclaim_def markGroupOut_def markGroupProt_def comp_def)

lemma marked_IDs: "map ID (markFileProt fs m) = map ID fs"
  by (simp add: markFileProt_def mark_row_def)

lemma map_slicePage: "map f (slicePage xs off lim) = slicePage (map f xs) off lim"
  by (simp add: slicePage_def Let_def take_map drop_map)

lemma clampPage_pos: "0 < snd (clampPage tool off lim)"
  by (simp add: clampPage_def Let_def maxGroupLimit_def maxFileLimit_def defGroupLimit_def defFileLimit_def)

lemma clampPage_offset: "clampPage tool (int k * int L) lim = (int k * int L, snd (clampPage tool 0 lim))"
proof -
  have "\<not> int k * int L < 0" by (metis of_nat_less_0_iff of_nat_mult)
  then show ?thesis by (simp add: clampPage_def Let_def case_prod_beta del: mult_less_0_iff)
qed

lemma compile_offset: "compileSearch tx (q\<lparr>rq_Offset := x\<rparr>) = compileSearch tx q"
  unfolding compileSearch_def Let_def by simp

lemma offset_fields: "rq_Match (q\<lparr>rq_Offset := x\<rparr>) = rq_Match q" "rq_Sort (q\<lparr>rq_Offset := x\<rparr>) = rq_Sort q"
  "rq_Dir (q\<lparr>rq_Offset := x\<rparr>) = rq_Dir q"
  by simp_all

lemma offset_free:
  "viewKey tx (q\<lparr>rq_Offset := x\<rparr>) = viewKey tx q" "nul_free tx (q\<lparr>rq_Offset := x\<rparr>) = nul_free tx q"
  "buildView tx res (q\<lparr>rq_Offset := x\<rparr>) key m = buildView tx res q key m"
  unfolding buildView_def compile_offset offset_fields by (simp_all add: viewKey_def key_parts_of_def nul_free_def)

lemma fresh_page_ids:
  assumes "snd (clampPage (rq_Tool q) 0 (rq_Limit q)) = int L"
  shows "shown_ids (fresh_page tx ev d (q\<lparr>rq_Offset := int k * int L\<rparr>) res st)
    = take L (drop (k * L) (view_ids (rq_Tool q)
        (buildView tx res q (viewKey tx q) (newRefMatcher ev (rs_refDirs st) (Roots res)))))"
  by (simp add: fresh_page_def Let_def clampPage_offset assms offset_free shown_ids_def view_ids_def page_GIDs marked_IDs
      slicePage_chunk take_map drop_map)

lemma fresh_page_state:
  "rs_refDirs st1 = rs_refDirs st \<Longrightarrow> rs_moveOut st1 = rs_moveOut st \<Longrightarrow> fresh_page tx ev d q res st1 = fresh_page tx ev d q res st"
  by (simp add: fresh_page_def page_groups_def Let_def case_prod_beta)

lemma serve_fresh:
  assumes "view_sound tx ev st" "dates_sound st" "sane_texts tx" "nul_free tx q"
    and "rq_Tool q \<in> set validTools" "rs_results st (rq_Tool q) = Some res"
  shows "serve tx ev d q offs st = map (\<lambda>off. fresh_page tx ev d (q\<lparr>rq_Offset := off\<rparr>) res st) offs"
  using assms(1,2,6)
proof (induction offs arbitrary: st)
  case (Cons off offs)
  let ?q = "q\<lparr>rq_Offset := off\<rparr>"
  obtain p st1 where h: "handlePagedResults tx ev d (Some ?q) st = (p, st1)" by fastforce
  have *: "p = Page (fresh_page tx ev d ?q res st)" "view_sound tx ev st1" "dates_sound st1" "rs_results st1 = rs_results st"
    "rs_refDirs st1 = rs_refDirs st" "rs_moveOut st1 = rs_moveOut st"
    using served_fresh [of tx ev st ?q res d] Cons.prems assms(3-5) h by (simp_all add: offset_free)
  have "serve tx ev d q offs st1 = map (\<lambda>off. fresh_page tx ev d (q\<lparr>rq_Offset := off\<rparr>) res st1) offs"
    by (rule Cons.IH) (use * Cons.prems in simp_all)
  then show ?case using h *(1) fresh_page_state [OF *(5,6)] by simp
qed simp


text \<open>The parts of the key are joined with a zero byte, and a query may hold one: then two queries with
  different views can have one key, and the second is answered with the view of the first.\<close>

definition ex_query :: resultsQuery where
  "ex_query = \<lparr>rq_Tool = ''empty_folders'', rq_Offset = 0, rq_Limit = 0, rq_Query = [],
     rq_Match = \<lparr>MName = False, MModified = False, MCreated = False\<rparr>, rq_Sort = [], rq_Dir = [], rq_RefDirs = [], rq_Loc = [],
     rq_FType = [], rq_ExtQ = [], rq_DateBy = [], rq_DateFrom = [], rq_DateTo = [], rq_SizeOp = [], rq_SizeMB = 0\<rparr>"

definition dir_query :: resultsQuery where
  "dir_query = ex_query\<lparr>rq_Loc := ''/v'', rq_FType := ''dir'', rq_RefDirs := [''5'']\<rparr>"

definition nul_query :: resultsQuery where
  "nul_query = ex_query\<lparr>rq_Loc := ''/v'' @ CHR 0x00 # ''dir'', rq_SizeOp := ''0'', rq_SizeMB := 5\<rparr>"

definition ex_rserver :: rserver where
  "ex_rserver = \<lparr>rs_results = [''empty_folders'' \<mapsto> zero_toolResult\<lparr>Tool := ''empty_folders'',
     Files := [(ex_dup_row ''f1'' ''a'' ''/v'')\<lparr>IsDir := True\<rparr>]\<rparr>], rs_refDirs = [], rs_moveOut = {}, rs_view = None, rs_dates = Map.empty\<rparr>"

definition reply_ids :: "paged_reply \<Rightarrow> string list" where
  "reply_ids r = (case r of Page p \<Rightarrow> shown_ids p | _ \<Rightarrow> [])"

theorem stale_view_served:
  "viewKey ex_texts dir_query = viewKey ex_texts nul_query
   \<and> reply_ids (fst (handlePagedResults ex_texts (\<lambda>_. None) ex_disk (Some nul_query) ex_rserver)) = []
   \<and> reply_ids (fst (handlePagedResults ex_texts (\<lambda>_. None) ex_disk (Some nul_query)
        (snd (handlePagedResults ex_texts (\<lambda>_. None) ex_disk (Some dir_query) ex_rserver)))) = [''f1'']"
  by code_simp

subsection \<open>What trimming keeps\<close>

definition trimmed :: "Group \<Rightarrow> Group \<Rightarrow> bool" where
  "trimmed g h \<longleftrightarrow> GFiles h = take (length (GFiles h)) (GFiles g)
     \<and> h = (if length (GFiles h) < length (GFiles g) then g\<lparr>GFiles := GFiles h, GCount := int (length (GFiles g))\<rparr> else g)
     \<and> min minGroupRows (length (GFiles g)) \<le> length (GFiles h) \<and> length (GFiles h) \<le> maxGroupRows"

lemma trim_room_bounds: "minGroupRows \<le> trim_room b" "trim_room b \<le> maxGroupRows" "trim_room b \<le> max b minGroupRows"
  by (auto simp: trim_room_def Let_def minGroupRows_def maxGroupRows_def)

lemma trim_rows_each: "list_all2 trimmed gs (trim_rows b gs)"
proof (induction b gs rule: trim_rows.induct)
  case (2 b g gs)
  let ?h = "if length (GFiles g) > trim_room b then g\<lparr>GFiles := take (trim_room b) (GFiles g), GCount := int (length (GFiles g))\<rparr> else g"
  have "trimmed g ?h" using trim_room_bounds [of b] by (auto simp: trimmed_def)
  then show ?case using 2 by (simp add: Let_def)
qed simp

lemma trim_rows_sum: "sum_list (map (\<lambda>g. length (GFiles g)) (trim_rows b gs)) \<le> b + minGroupRows * length gs"
proof (induction b gs rule: trim_rows.induct)
  case (2 b g gs)
  let ?h = "if length (GFiles g) > trim_room b then g\<lparr>GFiles := take (trim_room b) (GFiles g), GCount := int (length (GFiles g))\<rparr> else g"
  have "length (GFiles ?h) \<le> b + minGroupRows" using trim_room_bounds(3) [of b] by (auto simp: minGroupRows_def)
  moreover have "sum_list (map (\<lambda>g. length (GFiles g)) (trim_rows (b - length (GFiles ?h)) gs)) \<le> (b - length (GFiles ?h)) + minGroupRows * length gs"
    using 2 [OF refl refl refl] by simp
  moreover have "sum_list (map (\<lambda>g. length (GFiles g)) (trim_rows b (g # gs)))
      = length (GFiles ?h) + sum_list (map (\<lambda>g. length (GFiles g)) (trim_rows (b - length (GFiles ?h)) gs))"
    by (simp only: trim_rows.simps Let_def list.map sum_list.Cons)
  ultimately show ?case by simp
qed simp

text \<open>A page stays small without hiding a group: every group is still on it, with the first of its
  rows, at most five hundred and never fewer than two of those it has, and says how many it really has when some are
  left out; the whole page holds at most two thousand rows and two per group.\<close>

theorem trimmed_page_bounded:
  "list_all2 trimmed gs (trimGroupRows gs)
   \<and> sum_list (map (\<lambda>g. length (GFiles g)) (trimGroupRows gs)) \<le> 2000 + 2 * length gs"
  using trim_rows_each trim_rows_sum [of maxPageRows gs] by (simp add: trimGroupRows_def maxPageRows_def minGroupRows_def)

subsection \<open>What a move frees for certain\<close>

text \<open>The copies of a group: a row without a shared inode, or the first row of one.\<close>

fun copies_of :: "gostring set \<Rightarrow> FileEnt list \<Rightarrow> FileEnt list" where
  "copies_of seen [] = []"
| "copies_of seen (f # fs) =
     (if Ino f = [] then f # copies_of seen fs
      else if Ino f \<in> seen then copies_of seen fs
      else f # copies_of (insert (Ino f) seen) fs)"

definition stays :: "(FileEnt \<Rightarrow> bool) \<Rightarrow> FileEnt list \<Rightarrow> FileEnt \<Rightarrow> bool" where
  "stays prot files c \<longleftrightarrow> (if Ino c = [] then prot c else \<exists>f \<in> set files. prot f \<and> Ino f = Ino c)"

lemma reclaim_rows_eq:
  fixes prot K
  defines "st \<equiv> \<lambda>c. if Ino c = [] then prot c else Ino c \<in> K"
  shows "reclaim_rows sz prot K seen (s, l, any) fs =
    (let cs = copies_of seen fs; ps = map (\<lambda>c. rowPhys c sz) (filter (\<lambda>c. \<not> st c) cs)
     in (s + sum_list ps, fold max ps l, any \<or> (\<exists>c \<in> set cs. st c)))"
proof (induction fs arbitrary: seen s l any)
  case (Cons f fs)
  have m: "(if p > l then p else l) = max p l" for p by simp
  show ?case using Cons by (auto simp: Let_def st_def m)
qed simp

lemma groupReclaim_eq:
  "groupReclaim sz files protect =
    (let prot = (case protect of None \<Rightarrow> (\<lambda>_. False) | Some p \<Rightarrow> p); cs = copies_of {} files;
         ps = map (\<lambda>c. rowPhys c sz) (filter (\<lambda>c. \<not> stays prot files c) cs)
     in if \<exists>c \<in> set cs. stays prot files c then sum_list ps else reclaimPhys ps)"
proof -
  let ?prot = "case protect of None \<Rightarrow> (\<lambda>_. False) | Some p \<Rightarrow> p"
  have "(if Ino c = [] then ?prot c else Ino c \<in> Ino ` set (filter (\<lambda>f. ?prot f \<and> Ino f \<noteq> []) files)) = stays ?prot files c" for c
    unfolding stays_def image_iff by (cases "Ino c = []") fastforce+
  then show ?thesis unfolding groupReclaim_def Let_def reclaim_rows_eq by (simp add: reclaimPhys_eq)
qed


lemma reclaim_rows_map:
  "\<forall>f \<in> set fs. Ino (h f) = Ino f \<and> Alloc (h f) = Alloc f \<and> q (h f) = p f
    \<Longrightarrow> reclaim_rows sz q K seen acc (map h fs) = reclaim_rows sz p K seen acc fs"
proof (induction fs arbitrary: seen acc)
  case (Cons f fs)
  then show ?case by (cases acc) (simp add: Let_def rowPhys_def)
qed simp

lemma groupReclaim_map:
  assumes "\<forall>f \<in> set fs. Ino (h f) = Ino f \<and> Alloc (h f) = Alloc f \<and> q (h f) = p f"
  shows "groupReclaim sz (map h fs) (Some q) = groupReclaim sz fs (Some p)"
proof -
  have "map Ino (filter (\<lambda>f. q f \<and> Ino f \<noteq> []) (map h fs)) = map Ino (filter (\<lambda>f. p f \<and> Ino f \<noteq> []) fs)"
    using assms by (induction fs) auto
  then have "Ino ` set (filter (\<lambda>f. q f \<and> Ino f \<noteq> []) (map h fs)) = Ino ` set (filter (\<lambda>f. p f \<and> Ino f \<noteq> []) fs)"
    by (metis set_map)
  then show ?thesis using reclaim_rows_map [of fs h q p] assms by (simp add: groupReclaim_def)
qed

lemma groupReclaim_None: "groupReclaim sz fs None = groupReclaim sz fs (Some (\<lambda>_. False))"
  by (simp add: groupReclaim_def)

text \<open>The figures on the groups of a page add up to the figure of the toolbar: what a page shows for all
  groups of a view, flagged row by row, sums to what the totals compute from the folders.  (Stored rows carry no
  flag.)\<close>

theorem headers_sum_to_total:
  assumes "\<forall>g \<in> set gs. \<forall>f \<in> set (GFiles g). \<not> Prot f"
  shows "sum_list (map Reclaim (markGroupReclaim (markGroupOut d (markGroupProt gs m) mo roots))) = pt_Reclaimable (dupTotals gs m)"
proof -
  let ?out = "\<lambda>f. if rowIsOut d mo roots (FDir f) (Name f) then f\<lparr>Out := True\<rparr> else f"
  let ?p = "\<lambda>f. protects m (FDir f) (Name f)"
  have one: "groupReclaim (GSize g) (map ?out (if rm_empty m then GFiles g else map (mark_row m) (GFiles g))) (Some Prot)
      = groupReclaim (GSize g) (GFiles g) (if rm_empty m then None else Some ?p)" if g: "g \<in> set gs" for g
  proof (cases "rm_empty m")
    case True
    then show ?thesis using groupReclaim_map [of "GFiles g" ?out Prot "\<lambda>_. False" "GSize g"] assms g
      by (simp add: groupReclaim_None)
  next
    case False
    have "\<forall>f \<in> set (GFiles g). Ino ((?out \<circ> mark_row m) f) = Ino f \<and> Alloc ((?out \<circ> mark_row m) f) = Alloc f
        \<and> Prot ((?out \<circ> mark_row m) f) = ?p f"
      using assms g by (simp add: mark_row_def)
    from groupReclaim_map [OF this, of "GSize g"] show ?thesis using False by (simp only: map_map if_False)
  qed
  have "map Reclaim (markGroupReclaim (markGroupOut d (markGroupProt gs m) mo roots))
      = map (\<lambda>g. groupReclaim (GSize g) (map ?out (if rm_empty m then GFiles g else map (mark_row m) (GFiles g))) (Some Prot)) gs"
    by (simp add: markGroupReclaim_def markGroupOut_def markGroupProt_def comp_def)
  also have "\<dots> = map (\<lambda>g. groupReclaim (GSize g) (GFiles g) (if rm_empty m then None else Some ?p)) gs"
    by (intro map_cong refl one)
  finally show ?thesis by (simp add: dupTotals_def)
qed

subsection \<open>Three rows\<close>

definition three_rows :: rserver where
  "three_rows = ex_rserver\<lparr>rs_results := [''empty_folders'' \<mapsto> zero_toolResult\<lparr>Tool := ''empty_folders'',
     Files := [ex_dup_row ''f1'' ''a'' ''/v'', ex_dup_row ''f2'' ''b'' ''/v'', ex_dup_row ''f3'' ''c'' ''/v'']\<rparr>]\<rparr>"

definition two_at_once :: resultsQuery where
  "two_at_once = ex_query\<lparr>rq_Limit := 2\<rparr>"

lemma three_rows_sound: "view_sound ex_texts (\<lambda>_. None) three_rows" "dates_sound three_rows" "sane_texts ex_texts"
  by (simp_all add: view_sound_def dates_sound_def sane_texts_def three_rows_def ex_rserver_def ex_texts_def)

lemma two_at_once_plain: "nul_free ex_texts two_at_once" "rq_Tool two_at_once \<in> set validTools"
  "snd (clampPage (rq_Tool two_at_once) 0 (rq_Limit two_at_once)) = int 2"
  by code_simp+



text \<open>Four names of three files, two of them one file: with nothing protected the figure is two files;
  with one name of the shared file under a reference folder, that copy stays.\<close>

definition ex_linked :: "FileEnt list" where
  "ex_linked = [(ex_dup_row ''f1'' ''a'' ''/v'')\<lparr>Ino := ''1:2''\<rparr>, (ex_dup_row ''f2'' ''b'' ''/v'')\<lparr>Ino := ''1:2''\<rparr>,
     ex_dup_row ''f3'' ''c'' ''/v'', (ex_dup_row ''f4'' ''d'' ''/v'')\<lparr>Alloc := Some 3\<rparr>]"


theorem headers_sum_to_total_witness:
  "pt_Reclaimable (dupTotals [ex_dup_group] (newRefMatcher (\<lambda>_. None) [''/v/x''] [])) = 14
   \<and> sum_list (map Reclaim (markGroupReclaim (markGroupOut ex_disk (markGroupProt [ex_dup_group] (newRefMatcher (\<lambda>_. None) [''/v/x''] [])) {} []))) = 14"
proof -
  let ?m = "newRefMatcher (\<lambda>_. None) [''/v/x''] []"
  have "\<forall>g \<in> set [ex_dup_group]. \<forall>f \<in> set (GFiles g). \<not> Prot f" by (simp add: ex_dup_group_def ex_dup_row_def zero_FileEnt_def)
  moreover have "pt_Reclaimable (dupTotals [ex_dup_group] ?m) = 14" by code_simp
  ultimately show ?thesis using headers_sum_to_total [of "[ex_dup_group]" ex_disk ?m "{}" "[]"] by simp
qed

end
