(* ===== verification/Persist.thy ===== *)
theory Persist
  imports ResultPages Journal
begin

text \<open>
  What survives a restart (\<open>server/persist.go\<close>, \<open>server/records.go\<close> and
  \<open>server/movereport.go\<close>): the state file, the move records with the generation before them, the marker of
  a scan in flight and the report of the last move.  A file of the state directory is given by what decoding it yields:
  a document, text that does not decode, or nothing that can be read; so gzip, JSON and the byte escape (theory
  ByteSafe) are left out, and a write stores the document.  A write is atomic, as \<open>writeAtomic\<close> makes it:
  its outcome (record \<open>writes\<close>) is an argument.  The state directory is there or not
  (\<open>sv_dir\<close>).
\<close>

subsection \<open>Files and writes\<close>

datatype 'a content = Doc 'a | Garbage | Sealed

datatype fileout = Wrote | NotWritten gostring | NotSynced gostring

text \<open>\<open>writeAtomic\<close>: a failure before the rename leaves the file as it was; a failure to sync
  the directory is reported although the new file is in place.  \<open>noReplace\<close> refuses a name that is
  taken.\<close>

definition writeAtomic :: "fileout \<Rightarrow> bool \<Rightarrow> 'a content \<Rightarrow> 'a content option \<Rightarrow> 'a content option \<times> gostring option" where
  "writeAtomic w noReplace doc old =
     (case w of
        NotWritten e \<Rightarrow> (old, Some e)
      | Wrote \<Rightarrow> if noReplace \<and> old \<noteq> None then (old, Some ''file exists'') else (Some doc, None)
      | NotSynced e \<Rightarrow> if noReplace \<and> old \<noteq> None then (old, Some ''file exists'') else (Some doc, Some e))"

record persistedRecords =
  pr_Schema :: int
  pr_Keepers :: "path list"
  pr_MoveOut :: "string list"
  pr_Warning :: gostring
  pr_SavedAt :: string

text \<open>A result may be \<open>null\<close> in a file written by hand, and the map of results absent.\<close>

record persistedState =
  ps_Schema :: int
  ps_Results :: "(string \<rightharpoonup> toolResult option) option"
  ps_RefDirs :: "path list"
  ps_Keepers :: "path list"
  ps_MoveOut :: "string list"
  ps_LastTool :: string
  ps_NextID :: int
  ps_SavedAt :: string

record scanMarker =
  sm_Tool :: string
  sm_Tools :: "string list"
  sm_Gen :: int
  sm_Dirs :: "path list"
  sm_RefDirs :: "path list"
  sm_Recurse :: bool
  sm_Match :: MatchOpts
  sm_StartedAt :: string

record statedir =
  sd_records :: "persistedRecords content option"
  sd_prev :: "persistedRecords content option"
  sd_state :: "persistedState content option"
  sd_marker :: "scanMarker content option"
  sd_report :: "moveReport content option"

record writes =
  w_records :: fileout
  w_prev :: fileout
  w_state :: fileout
  w_marker :: fileout
  w_report :: fileout
  w_aside :: "nat \<Rightarrow> bool"

text \<open>The server, with what the views read of it.\<close>

record pserver = rserver +
  sv_dir :: bool
  sv_keepers :: "path set"
  sv_lastTool :: string
  sv_nextID :: int
  sv_recordsWarn :: gostring
  sv_saveErr :: gostring
  sv_lastMove :: "moveReport option"

subsection \<open>Saving\<close>

definition usable_records :: "persistedRecords content \<Rightarrow> bool" where
  "usable_records c \<longleftrightarrow> (case c of Doc r \<Rightarrow> pr_Schema r = 1 | _ \<Rightarrow> False)"

definition saveRecords :: "writes \<Rightarrow> persistedRecords \<Rightarrow> statedir \<Rightarrow> statedir \<times> gostring option" where
  "saveRecords w r d =
     (let (prev, err) = (case sd_records d of
          Some c \<Rightarrow> if usable_records c then writeAtomic (w_prev w) False c (sd_prev d) else (sd_prev d, None)
        | None \<Rightarrow> (sd_prev d, None));
          d1 = d\<lparr>sd_prev := prev\<rparr>
      in case err of
           Some e \<Rightarrow> (d1, Some e)
         | None \<Rightarrow> (let (cur, err) = writeAtomic (w_records w) False (Doc r) (sd_records d1) in (d1\<lparr>sd_records := cur\<rparr>, err)))"

text \<open>\<open>saveState\<close> in its two halves: the snapshot taken under the state's lock, and the writing,
  under the lock of the writers.  \<open>keys\<close> is the order in which a Go map lists its keys.\<close>

definition snapshot_state :: "(string set \<Rightarrow> string list) \<Rightarrow> string \<Rightarrow> pserver \<Rightarrow> persistedState \<times> persistedRecords" where
  "snapshot_state keys now sv =
     (let kp = keys (sv_keepers sv); mo = keys (rs_moveOut sv) in
      (\<lparr>ps_Schema = 1, ps_Results = Some (\<lambda>t. map_option Some (rs_results sv t)), ps_RefDirs = rs_refDirs sv,
         ps_Keepers = kp, ps_MoveOut = mo, ps_LastTool = sv_lastTool sv, ps_NextID = sv_nextID sv, ps_SavedAt = now\<rparr>,
       \<lparr>pr_Schema = 1, pr_Keepers = kp, pr_MoveOut = mo, pr_Warning = sv_recordsWarn sv, pr_SavedAt = now\<rparr>))"

definition write_state :: "writes \<Rightarrow> persistedState \<times> persistedRecords \<Rightarrow> statedir \<Rightarrow> statedir \<times> gostring option" where
  "write_state w snap d =
     (case saveRecords w (snd snap) d of
        (d1, Some e) \<Rightarrow> (d1, Some e)
      | (d1, None) \<Rightarrow> (let (st, err) = writeAtomic (w_state w) False (Doc (fst snap)) (sd_state d1) in (d1\<lparr>sd_state := st\<rparr>, err)))"

definition saveState ::
  "writes \<Rightarrow> (string set \<Rightarrow> string list) \<Rightarrow> string \<Rightarrow> pserver \<Rightarrow> statedir \<Rightarrow> (pserver \<times> statedir) \<times> gostring option" where
  "saveState w keys now sv d =
     (if \<not> sv_dir sv then ((sv, d), None)
      else (case write_state w (snapshot_state keys now sv) d of
          (d1, Some e) \<Rightarrow> ((sv, d1), Some e)
        | (d1, None) \<Rightarrow> ((sv\<lparr>sv_saveErr := []\<rparr>, d1), None)))"

definition em_dash :: gostring where "em_dash = [CHR 0xE2, CHR 0x80, CHR 0x94]"

definition noteSaveError :: "gostring \<Rightarrow> pserver \<Rightarrow> pserver" where
  "noteSaveError e sv =
     sv\<lparr>sv_saveErr := ''results could not be saved to disk ('' @ e @ '') '' @ em_dash @ '' they will be lost when the package restarts''\<rparr>"

subsection \<open>Loading\<close>

text \<open>What reading the records file says: the records when they can be used, whether it exists, and
  whether reading failed.\<close>

definition readRecords :: "persistedRecords content option \<Rightarrow> persistedRecords option \<times> bool \<times> bool" where
  "readRecords c =
     (case c of
        None \<Rightarrow> (None, False, False)
      | Some (Doc r) \<Rightarrow> if pr_Schema r = 1 then (Some r, True, False) else (None, True, True)
      | Some _ \<Rightarrow> (None, True, True))"

definition setAside :: "bool \<Rightarrow> 'a content option \<Rightarrow> 'a content option" where
  "setAside ok c = (if ok then None else c)"

definition recordsLostWarning :: "bool \<Rightarrow> gostring" where
  \<open>recordsLostWarning stale =
     (if stale then ''Duplicate Finder could not read its latest record of the copies it moved, and used the one saved before it '' @ em_dash
                    @ '' the copies from your most recent move are not in it''
      else ''Duplicate Finder could not read its record of the copies it moved earlier'')
     @ ''. A copy it moved straight into a folder you picked ("Move all files into same folder") may now be treated as an original; copies inside its own "Duplicates"-style folders are still recognised. Before moving the last copy of anything, check the folders your earlier moves went to. The unreadable record has been kept in the package's data folder.''\<close>

definition zero_records :: persistedRecords where
  "zero_records = \<lparr>pr_Schema = 1, pr_Keepers = [], pr_MoveOut = [], pr_Warning = [], pr_SavedAt = []\<rparr>"

definition add_records :: "persistedRecords option \<Rightarrow> persistedRecords \<times> gostring \<Rightarrow> persistedRecords \<times> gostring" where
  "add_records r acc =
     (case r of
        None \<Rightarrow> acc
      | Some r \<Rightarrow>
          ((fst acc)\<lparr>pr_Keepers := pr_Keepers (fst acc) @ pr_Keepers r, pr_MoveOut := pr_MoveOut (fst acc) @ pr_MoveOut r\<rparr>,
           if pr_Warning r \<noteq> [] then pr_Warning r else snd acc))"

text \<open>\<open>loadRecords\<close>: the merged records and the warning, whether a save has to follow, and the
  directory.\<close>

definition loadRecords ::
  "writes \<Rightarrow> persistedRecords option \<Rightarrow> bool \<Rightarrow> statedir \<Rightarrow> (persistedRecords \<times> gostring) \<times> bool \<times> statedir" where
  "loadRecords w fromResults resultsDamaged d =
     (let (cur, curExists, curErr) = readRecords (sd_records d); acc = add_records fromResults (zero_records, []) in
      if \<not> curErr then (add_records cur acc, False, d)
      else (let d1 = (if curExists then d\<lparr>sd_records := setAside (w_aside w 0) (sd_records d)\<rparr> else d);
                (prev, prevExists, prevErr) = readRecords (sd_prev d1);
                acc1 = (if \<not> prevErr then add_records prev acc else acc);
                d2 = (if prevErr \<and> prevExists then d1\<lparr>sd_prev := setAside (w_aside w 1) (sd_prev d1)\<rparr> else d1);
                lost = (fromResults = None \<and> (curExists \<or> prevExists \<or> resultsDamaged))
            in ((fst acc1, if lost then recordsLostWarning (\<not> prevErr \<and> prev \<noteq> None) else snd acc1),
                curExists \<or> prevErr \<and> prevExists \<or> lost, d2)))"

definition readStateFile :: "persistedState content option \<Rightarrow> persistedState option \<times> bool" where
  "readStateFile c =
     (case c of
        None \<Rightarrow> (None, False)
      | Some (Doc p) \<Rightarrow> if ps_Schema p = 1 then (Some p, False) else (None, True)
      | Some _ \<Rightarrow> (None, True))"

definition lacksFingerprints :: "toolResult \<Rightarrow> bool" where
  "lacksFingerprints res \<longleftrightarrow> list_ex (\<lambda>g. list_ex (\<lambda>f. Pfx f = []) (GFiles g)) (Groups res)"

text \<open>The results a build accepts of those a file carries.\<close>

definition accepted_results :: "(nat \<Rightarrow> nat) \<Rightarrow> (string \<rightharpoonup> toolResult option) \<Rightarrow> (string \<rightharpoonup> toolResult)" where
  "accepted_results lower m =
     (let m1 = (\<lambda>t. if t \<notin> set validTools then None else (case m t of None \<Rightarrow> None | Some r \<Rightarrow> r));
          m2 = (case m1 ''duplicates'' of
                  Some dup \<Rightarrow> if lacksFingerprints dup then m1(''duplicates'' := None, ''corrupted_files'' := None) else m1
                | None \<Rightarrow> m1)
      in (case m2 ''temp_files'' of
            Some tf \<Rightarrow> m2(''temp_files'' \<mapsto> tf\<lparr>Files := filter (\<lambda>f. isTempName lower (Name f)) (Files tf)\<rparr>)
          | None \<Rightarrow> m2))"

definition applyStateLocked :: "(nat \<Rightarrow> nat) \<Rightarrow> persistedState \<Rightarrow> pserver \<Rightarrow> pserver" where
  "applyStateLocked lower ps sv =
     (let sv1 = (case ps_Results ps of
            None \<Rightarrow> sv
          | Some m \<Rightarrow> invalidateDerivedLocked (sv\<lparr>rs_results := accepted_results lower m\<rparr>))
      in sv1\<lparr>rs_refDirs := ps_RefDirs ps,
             sv_lastTool := (if ps_LastTool ps \<in> set validTools then ps_LastTool ps else []),
             sv_nextID := (if ps_NextID ps > sv_nextID sv1 then ps_NextID ps else sv_nextID sv1)\<rparr>)"

text \<open>A save whose failure the app is told about.\<close>

definition save_noting :: "writes \<Rightarrow> (string set \<Rightarrow> string list) \<Rightarrow> string \<Rightarrow> pserver \<Rightarrow> statedir \<Rightarrow> pserver \<times> statedir" where
  "save_noting w keys now sv d =
     (case saveState w keys now sv d of
        ((sv1, d1), Some e) \<Rightarrow> (noteSaveError e sv1, d1)
      | ((sv1, d1), None) \<Rightarrow> (sv1, d1))"

text \<open>\<open>loadState\<close> in three steps: the files read, the server set up, and the save that follows when
  something was set aside or recovered.\<close>

definition from_results :: "persistedState option \<Rightarrow> persistedRecords option" where
  "from_results ps = map_option (\<lambda>p. zero_records\<lparr>pr_Keepers := ps_Keepers p, pr_MoveOut := ps_MoveOut p\<rparr>) ps"

definition start_files :: "writes \<Rightarrow> statedir \<Rightarrow> persistedState option \<times> (persistedRecords \<times> gostring) \<times> bool \<times> statedir" where
  "start_files w d =
     (let (ps, damaged) = readStateFile (sd_state d);
          d1 = (if damaged then d\<lparr>sd_state := setAside (w_aside w 2) (sd_state d)\<rparr> else d);
          (settled, mustSave, d2) = loadRecords w (from_results ps) damaged d1
      in (ps, settled, mustSave \<or> damaged, d2))"

definition start_server :: "(nat \<Rightarrow> nat) \<Rightarrow> persistedState option \<Rightarrow> persistedRecords \<times> gostring \<Rightarrow> pserver \<Rightarrow> pserver" where
  "start_server lower ps settled sv =
     (let recs = fst settled;
          sv1 = (case ps of None \<Rightarrow> sv | Some p \<Rightarrow> applyStateLocked lower p sv);
          sv2 = (if pr_MoveOut recs \<noteq> [] then sv1\<lparr>rs_moveOut := moveOut_with {} (pr_MoveOut recs)\<rparr> else sv1);
          sv3 = (if pr_Keepers recs \<noteq> [] then sv2\<lparr>sv_keepers := set (pr_Keepers recs)\<rparr> else sv2)
      in sv3\<lparr>sv_recordsWarn := snd settled\<rparr>)"

definition loadState ::
  "writes \<Rightarrow> (string set \<Rightarrow> string list) \<Rightarrow> string \<Rightarrow> (nat \<Rightarrow> nat) \<Rightarrow> pserver \<Rightarrow> statedir \<Rightarrow> pserver \<times> statedir" where
  "loadState w keys now lower sv d =
     (if \<not> sv_dir sv then (sv, d)
      else (let (ps, settled, mustSave, d2) = start_files w d; sv1 = start_server lower ps settled sv
            in if mustSave then save_noting w keys now sv1 d2 else (sv1, d2)))"

text \<open>The user has seen the warning.\<close>

definition handleRecordsAck :: "writes \<Rightarrow> (string set \<Rightarrow> string list) \<Rightarrow> string \<Rightarrow> pserver \<Rightarrow> statedir \<Rightarrow> pserver \<times> statedir" where
  "handleRecordsAck w keys now sv d =
     (let sv1 = sv\<lparr>sv_recordsWarn := []\<rparr> in
      if sv_recordsWarn sv = [] then (sv1, d) else save_noting w keys now sv1 d)"

subsection \<open>The marker of a scan in flight\<close>

definition normPaths :: "path list \<Rightarrow> path list" where
  "normPaths inp = sort (uniquePaths inp)"

fun eqStrings :: "string list \<Rightarrow> string list \<Rightarrow> bool" where
  "eqStrings [] [] = True"
| "eqStrings (a # as) (b # bs) \<longleftrightarrow> a = b \<and> eqStrings as bs"
| "eqStrings _ _ = False"

definition marker_matches :: "scanMarker \<Rightarrow> ScanReq \<Rightarrow> bool" where
  "marker_matches m req =
     (case toolList req of
        Inl _ \<Rightarrow> False
      | Inr tools \<Rightarrow>
          (let mt = (if sm_Tools m = [] \<and> sm_Tool m \<noteq> [] then [sm_Tool m] else sm_Tools m) in
           eqStrings mt tools \<and> sm_Recurse m = SR_Recurse req \<and> sm_Match m = SR_Match req
           \<and> eqStrings (sm_Dirs m) (normPaths (SR_Dirs req)) \<and> eqStrings (sm_RefDirs m) (normPaths (SR_RefDirs req))))"

text \<open>The marker a request leaves; the tool list of a request that has none is empty.\<close>

definition marker_of :: "ScanReq \<Rightarrow> int \<Rightarrow> string \<Rightarrow> scanMarker" where
  "marker_of req gen now =
     (let tools = (case toolList req of Inl _ \<Rightarrow> [] | Inr ts \<Rightarrow> ts) in
      \<lparr>sm_Tool = openTool req tools, sm_Tools = tools, sm_Gen = gen, sm_Dirs = normPaths (SR_Dirs req),
       sm_RefDirs = normPaths (SR_RefDirs req), sm_Recurse = SR_Recurse req, sm_Match = SR_Match req, sm_StartedAt = now\<rparr>)"

definition writeMarker :: "writes \<Rightarrow> bool \<Rightarrow> ScanReq \<Rightarrow> int \<Rightarrow> string \<Rightarrow> statedir \<Rightarrow> statedir" where
  "writeMarker w dir req gen now d =
     (if \<not> dir then d
      else d\<lparr>sd_marker := fst (writeAtomic (w_marker w) False (Doc (marker_of req gen now)) (sd_marker d))\<rparr>)"

definition empty_marker :: scanMarker where
  "empty_marker = \<lparr>sm_Tool = [], sm_Tools = [], sm_Gen = 0, sm_Dirs = [], sm_RefDirs = [], sm_Recurse = False,
     sm_Match = \<lparr>MName = False, MModified = False, MCreated = False\<rparr>, sm_StartedAt = []\<rparr>"

text \<open>A marker that cannot be removed is overwritten in place, when that works.\<close>

definition clearMarker :: "bool \<Rightarrow> bool \<Rightarrow> bool \<Rightarrow> statedir \<Rightarrow> statedir" where
  "clearMarker removed overwritten dir d =
     (if \<not> dir \<or> sd_marker d = None then d
      else if removed then d\<lparr>sd_marker := None\<rparr>
      else if overwritten then d\<lparr>sd_marker := Some (Doc empty_marker)\<rparr>
      else d)"

definition loadMarker :: "bool \<Rightarrow> statedir \<Rightarrow> scanMarker option" where
  "loadMarker dir d =
     (if \<not> dir then None
      else (case sd_marker d of
          Some (Doc m) \<Rightarrow> if sm_Tool m = [] then None else Some m
        | _ \<Rightarrow> None))"

subsection \<open>The report of the last move\<close>

definition publishMoveReport :: "writes \<Rightarrow> moveReport \<Rightarrow> pserver \<Rightarrow> statedir \<Rightarrow> pserver \<times> statedir" where
  "publishMoveReport w r sv d =
     (let sv1 = sv\<lparr>sv_lastMove := Some r\<rparr> in
      if \<not> sv_dir sv then (sv1, d)
      else (sv1, d\<lparr>sd_report := fst (writeAtomic (w_report w) False (Doc r) (sd_report d))\<rparr>))"

definition loadMoveReport :: "pserver \<Rightarrow> statedir \<Rightarrow> pserver" where
  "loadMoveReport sv d =
     (if \<not> sv_dir sv then sv
      else (case sd_report d of
          Some (Doc r) \<Rightarrow> if R_ID r = [] then sv else sv\<lparr>sv_lastMove := Some r\<rparr>
        | _ \<Rightarrow> sv))"

datatype report_req = ReportGet string | ReportSeen "string option" | ReportOther

datatype report_reply = Found moveReport | NotFound | SeenOk | BadReport | BadMethod

definition handleMoveReport :: "writes \<Rightarrow> report_req \<Rightarrow> pserver \<Rightarrow> statedir \<Rightarrow> report_reply \<times> pserver \<times> statedir" where
  "handleMoveReport w rq sv d =
     (case rq of
        ReportGet i \<Rightarrow>
          (case sv_lastMove sv of
             None \<Rightarrow> (NotFound, sv, d)
           | Some rep \<Rightarrow> if i = [] \<or> R_ID rep \<noteq> i then (NotFound, sv, d) else (Found rep, sv, d))
      | ReportSeen None \<Rightarrow> (BadReport, sv, d)
      | ReportSeen (Some i) \<Rightarrow>
          if i = [] then (BadReport, sv, d)
          else (case sv_lastMove sv of
             None \<Rightarrow> (SeenOk, sv, d)
           | Some rep \<Rightarrow>
               if R_ID rep = i \<and> \<not> R_Seen rep then (SeenOk, publishMoveReport w (rep\<lparr>R_Seen := True\<rparr>) sv d)
               else (SeenOk, sv, d))
      | ReportOther \<Rightarrow> (BadMethod, sv, d))"

subsection \<open>A resume is the same request\<close>

lemma eqStrings_iff [simp]: "eqStrings as bs \<longleftrightarrow> as = bs"
  by (induction as bs rule: eqStrings.induct) auto

lemma normPaths_eq: "normPaths ps = normPaths qs \<longleftrightarrow> Clean ` set ps = Clean ` set qs"
proof -
  have n: "sorted (normPaths ps)" "distinct (normPaths ps)" "set (normPaths ps) = Clean ` set ps" for ps
    using uniquePaths_spec [of ps] by (simp_all add: normPaths_def)
  show ?thesis using sorted_distinct_set_unique [OF n(1,2) n(1,2), of ps qs] n(3) by metis
qed

lemma marker_matches_same:
  assumes "toolList req = Inr tools"
  shows "marker_matches (marker_of req gen now) req' \<longleftrightarrow>
     toolList req' = Inr tools \<and> SR_Recurse req' = SR_Recurse req \<and> SR_Match req' = SR_Match req
     \<and> Clean ` set (SR_Dirs req') = Clean ` set (SR_Dirs req)
     \<and> Clean ` set (SR_RefDirs req') = Clean ` set (SR_RefDirs req)"
proof -
  have ne: "tools \<noteq> []" using assms by (auto simp: toolList_def Let_def split: option.splits if_splits)
  have m: "sm_Tools (marker_of req gen now) = tools" "sm_Dirs (marker_of req gen now) = normPaths (SR_Dirs req)"
    "sm_RefDirs (marker_of req gen now) = normPaths (SR_RefDirs req)" "sm_Recurse (marker_of req gen now) = SR_Recurse req"
    "sm_Match (marker_of req gen now) = SR_Match req"
    by (simp_all add: marker_of_def assms Let_def)
  show ?thesis
  proof (cases "toolList req'")
    case (Inr ts)
    have d: "normPaths ps = normPaths qs \<longleftrightarrow> Clean ` set qs = Clean ` set ps" for ps qs using normPaths_eq by metis
    have "marker_matches (marker_of req gen now) req' \<longleftrightarrow> tools = ts \<and> SR_Recurse req = SR_Recurse req' \<and> SR_Match req = SR_Match req'
        \<and> normPaths (SR_Dirs req) = normPaths (SR_Dirs req') \<and> normPaths (SR_RefDirs req) = normPaths (SR_RefDirs req')"
      using ne by (simp add: marker_matches_def m Inr)
    then show ?thesis unfolding d Inr sum.inject by (simp add: eq_commute [of tools] eq_commute [of "SR_Recurse req"] eq_commute [of "SR_Match req"])
  qed (simp add: marker_matches_def)
qed

text \<open>A scan resumes an interrupted one exactly when it asks for the same: the same tools, the same
  recursion and criteria, and the same folders up to order, repetition and spelling.\<close>

theorem resume_same_request:
  assumes "toolList req = Inr tools"
  shows "marker_matches (marker_of req gen now) req' \<longleftrightarrow>
     toolList req' = Inr tools \<and> SR_Recurse req' = SR_Recurse req \<and> SR_Match req' = SR_Match req
     \<and> Clean ` set (SR_Dirs req') = Clean ` set (SR_Dirs req)
     \<and> Clean ` set (SR_RefDirs req') = Clean ` set (SR_RefDirs req)"
  using assms by (rule marker_matches_same)

subsection \<open>Records survive a crash and a damaged file\<close>

text \<open>Every point a crash can leave a save at: its atomic writes are done one after the other.\<close>

definition save_disks :: "persistedState \<times> persistedRecords \<Rightarrow> statedir \<Rightarrow> statedir list" where
  "save_disks snap d =
     (let d1 = (case sd_records d of Some c \<Rightarrow> if usable_records c then d\<lparr>sd_prev := Some c\<rparr> else d | None \<Rightarrow> d);
          d2 = d1\<lparr>sd_records := Some (Doc (snd snap))\<rparr>;
          d3 = d2\<lparr>sd_state := Some (Doc (fst snap))\<rparr>
      in [d, d1, d2, d3])"

definition all_written :: writes where
  "all_written = \<lparr>w_records = Wrote, w_prev = Wrote, w_state = Wrote, w_marker = Wrote, w_report = Wrote, w_aside = (\<lambda>_. True)\<rparr>"

text \<open>They are the states a save passes through: each is left by a save whose next write fails.\<close>

lemma save_disks_reached:
  "save_disks snap d ! 3 = fst (write_state all_written snap d)"
  "save_disks snap d ! 0 = fst (write_state (all_written\<lparr>w_prev := NotWritten e, w_records := NotWritten e\<rparr>) snap d)"
  "save_disks snap d ! 1 = fst (write_state (all_written\<lparr>w_records := NotWritten e\<rparr>) snap d)"
  "save_disks snap d ! 2 = fst (write_state (all_written\<lparr>w_state := NotWritten e\<rparr>) snap d)"
  by (auto simp: save_disks_def write_state_def saveRecords_def writeAtomic_def all_written_def Let_def split: option.split)

text \<open>A file damaged where it lies: it is still there and cannot be used.\<close>

datatype sfile = FRecords | FPrev | FState

definition damage :: "sfile \<Rightarrow> bool \<Rightarrow> statedir \<Rightarrow> statedir" where
  "damage f garbled d =
     (case f of
        FRecords \<Rightarrow> d\<lparr>sd_records := map_option (\<lambda>_. if garbled then Garbage else Sealed) (sd_records d)\<rparr>
      | FPrev \<Rightarrow> d\<lparr>sd_prev := map_option (\<lambda>_. if garbled then Garbage else Sealed) (sd_prev d)\<rparr>
      | FState \<Rightarrow> d\<lparr>sd_state := map_option (\<lambda>_. if garbled then Garbage else Sealed) (sd_state d)\<rparr>)"

lemma save_noting_keeps:
  "sv_keepers (fst (save_noting w keys now sv d)) = sv_keepers sv" "rs_moveOut (fst (save_noting w keys now sv d)) = rs_moveOut sv"
  "sv_recordsWarn (fst (save_noting w keys now sv d)) = sv_recordsWarn sv" "rs_results (fst (save_noting w keys now sv d)) = rs_results sv"
  by (auto simp: save_noting_def saveState_def noteSaveError_def split: prod.split option.split)

text \<open>What the server knows after a start is what the files settle to.\<close>

lemma loadState_server:
  assumes "start_files w d = (ps, settled, mustSave, d2)" "sv_dir sv"
  shows "sv_keepers (fst (loadState w keys now lower sv d)) = sv_keepers (start_server lower ps settled sv)"
    "rs_moveOut (fst (loadState w keys now lower sv d)) = rs_moveOut (start_server lower ps settled sv)"
    "sv_recordsWarn (fst (loadState w keys now lower sv d)) = snd settled"
  using assms save_noting_keeps by (simp_all add: loadState_def start_server_def Let_def)

lemma apply_keeps: "sv_keepers (applyStateLocked lower p sv) = sv_keepers sv" "rs_moveOut (applyStateLocked lower p sv) = rs_moveOut sv"
  by (simp_all add: applyStateLocked_def invalidateDerivedLocked_def Let_def split: option.split)

text \<open>A server that has not loaded anything yet.\<close>

definition blank_server :: "bool \<Rightarrow> pserver" where
  "blank_server dir =
     \<lparr>rs_results = Map.empty, rs_refDirs = [], rs_moveOut = {}, rs_view = None, rs_dates = Map.empty, sv_dir = dir,
      sv_keepers = {}, sv_lastTool = [], sv_nextID = 0, sv_recordsWarn = [], sv_saveErr = [], sv_lastMove = None\<rparr>"

lemma start_server_records:
  assumes "settled = (recs, warning)"
  shows "sv_keepers (start_server lower ps settled (blank_server dir)) = set (pr_Keepers recs)"
    "rs_moveOut (start_server lower ps settled (blank_server dir)) = set (pr_MoveOut recs)"
  using assms by (auto simp: start_server_def Let_def apply_keeps blank_server_def moveOut_with_def split: option.split)

definition holds_of :: "persistedRecords \<Rightarrow> pserver \<Rightarrow> bool" where
  "holds_of r sv \<longleftrightarrow> set (pr_Keepers r) \<subseteq> sv_keepers sv \<and> set (pr_MoveOut r) \<subseteq> rs_moveOut sv"

text \<open>A directory whose last save, of the snapshot given, was complete.\<close>

definition saved_with :: "persistedState \<times> persistedRecords \<Rightarrow> statedir \<Rightarrow> bool" where
  "saved_with snap d \<longleftrightarrow> sd_records d = Some (Doc (snd snap)) \<and> sd_state d = Some (Doc (fst snap))
     \<and> pr_Schema (snd snap) = 1 \<and> ps_Schema (fst snap) = 1
     \<and> ps_Keepers (fst snap) = pr_Keepers (snd snap) \<and> ps_MoveOut (fst snap) = pr_MoveOut (snd snap)"

lemma snapshot_schema:
  "pr_Schema (snd (snapshot_state keys now sv)) = 1" "ps_Schema (fst (snapshot_state keys now sv)) = 1"
  "ps_Keepers (fst (snapshot_state keys now sv)) = pr_Keepers (snd (snapshot_state keys now sv))"
  "ps_MoveOut (fst (snapshot_state keys now sv)) = pr_MoveOut (snd (snapshot_state keys now sv))"
  by (simp_all add: snapshot_state_def Let_def)

text \<open>What each of the three files contributes.\<close>

definition has_recs :: "persistedRecords \<Rightarrow> persistedRecords \<Rightarrow> bool" where
  "has_recs r s \<longleftrightarrow> set (pr_Keepers r) \<subseteq> set (pr_Keepers s) \<and> set (pr_MoveOut r) \<subseteq> set (pr_MoveOut s)"

lemma add_records_has: "has_recs r (fst (add_records (Some r) acc))"
  by (auto simp: has_recs_def add_records_def)

lemma add_records_keeps: "has_recs r (fst acc) \<Longrightarrow> has_recs r (fst (add_records q acc))"
  by (auto simp: has_recs_def add_records_def split: option.split)

lemma loadRecords_has:
  "fr = Some r \<Longrightarrow> has_recs r (fst (fst (loadRecords w fr dmg d)))"
  "readRecords (sd_records d) = (Some r, True, False) \<Longrightarrow> has_recs r (fst (fst (loadRecords w fr dmg d)))"
  "readRecords (sd_records d) = (None, True, True) \<Longrightarrow> readRecords (sd_prev d) = (Some r, True, False)
    \<Longrightarrow> has_recs r (fst (fst (loadRecords w fr dmg d)))"
proof -
  show "has_recs r (fst (fst (loadRecords w fr dmg d)))" if "fr = Some r"
    using add_records_keeps [OF add_records_has] that
    by (auto simp: loadRecords_def case_prod_beta Let_def add_records_has)
qed (simp_all add: loadRecords_def add_records_has Let_def)

lemma start_files_load:
  "fst (snd (start_files w d)) = fst (loadRecords w (from_results (fst (readStateFile (sd_state d)))) (snd (readStateFile (sd_state d)))
     (if snd (readStateFile (sd_state d)) then d\<lparr>sd_state := setAside (w_aside w 2) (sd_state d)\<rparr> else d))"
  by (simp add: start_files_def case_prod_beta Let_def)

lemma start_contributes:
  "sd_records d = Some (Doc r) \<Longrightarrow> pr_Schema r = 1 \<Longrightarrow> has_recs r (fst (fst (snd (start_files w d))))"
  "sd_state d = Some (Doc p) \<Longrightarrow> ps_Schema p = 1 \<Longrightarrow> ps_Keepers p = pr_Keepers q \<Longrightarrow> ps_MoveOut p = pr_MoveOut q
    \<Longrightarrow> has_recs q (fst (fst (snd (start_files w d))))"
  "sd_records d = Some c \<Longrightarrow> \<not> usable_records c \<Longrightarrow> sd_prev d = Some (Doc r) \<Longrightarrow> pr_Schema r = 1
    \<Longrightarrow> has_recs r (fst (fst (snd (start_files w d))))"
proof -
  assume a: "sd_state d = Some (Doc p)" "ps_Schema p = 1" "ps_Keepers p = pr_Keepers q" "ps_MoveOut p = pr_MoveOut q"
  let ?r = "zero_records\<lparr>pr_Keepers := ps_Keepers p, pr_MoveOut := ps_MoveOut p\<rparr>"
  have "has_recs ?r (fst (fst (snd (start_files w d))))"
    unfolding start_files_load by (rule loadRecords_has(1)) (simp add: a readStateFile_def from_results_def)
  then show "has_recs q (fst (fst (snd (start_files w d))))" using a by (simp add: has_recs_def)
next
  assume a: "sd_records d = Some c" "\<not> usable_records c" "sd_prev d = Some (Doc r)" "pr_Schema r = 1"
  have "readRecords (Some c) = (None, True, True)" using a(2) by (cases c) (simp_all add: readRecords_def usable_records_def)
  then show "has_recs r (fst (fst (snd (start_files w d))))"
    unfolding start_files_load by (intro loadRecords_has(3)) (simp_all add: a readRecords_def)
qed (simp add: start_files_load loadRecords_has(2) readRecords_def)

lemma start_holds:
  assumes "has_recs r (fst (fst (snd (start_files w d))))"
  shows "holds_of r (fst (loadState w keys now lower (blank_server True) d))"
proof -
  obtain ps recs warning mustSave d2 where f: "start_files w d = (ps, (recs, warning), mustSave, d2)" by (metis prod.collapse)
  have "sv_dir (blank_server True)" by (simp add: blank_server_def)
  then show ?thesis
    using loadState_server(1,2) [OF f, of "blank_server True" keys now lower] start_server_records [OF refl, of lower ps recs warning True] assms f
    by (simp add: holds_of_def has_recs_def)
qed


subsection \<open>A loss is told\<close>

definition damage_all :: "(sfile \<times> bool) list \<Rightarrow> statedir \<Rightarrow> statedir" where
  "damage_all ds d = fold (\<lambda>fg. damage (fst fg) (snd fg)) ds d"

lemma damage_all_files:
  "(sd_records (damage_all ds d) = sd_records d \<or> (\<exists>c. sd_records (damage_all ds d) = Some c \<and> \<not> usable_records c))
   \<and> (sd_state (damage_all ds d) = sd_state d \<or> readStateFile (sd_state (damage_all ds d)) = (None, True))
   \<and> (sd_records d = None \<longleftrightarrow> sd_records (damage_all ds d) = None) \<and> (sd_state d = None \<longleftrightarrow> sd_state (damage_all ds d) = None)"
proof (induction ds arbitrary: d)
  case Nil
  then show ?case by (simp add: damage_all_def)
next
  case (Cons x ds)
  obtain f g where x: "x = (f, g)" by (cases x)
  have "damage_all (x # ds) d = damage_all ds (damage f g d)" by (simp add: damage_all_def x)
  moreover have "(sd_records (damage f g d) = sd_records d \<or> (\<exists>c. sd_records (damage f g d) = Some c \<and> \<not> usable_records c))
    \<and> (sd_state (damage f g d) = sd_state d \<or> readStateFile (sd_state (damage f g d)) = (None, True))
    \<and> (sd_records d = None \<longleftrightarrow> sd_records (damage f g d) = None) \<and> (sd_state d = None \<longleftrightarrow> sd_state (damage f g d) = None)"
    by (cases f; cases "sd_records d"; cases "sd_state d") (auto simp: damage_def usable_records_def readStateFile_def)
  ultimately show ?case using Cons.IH [of "damage f g d"] by (auto simp: readStateFile_def)
qed

lemma recordsLostWarning_told: "recordsLostWarning stale \<noteq> []"
  by (simp add: recordsLostWarning_def)


text \<open>Unless the save that has to follow fails too, or the start is cut off before it: the unreadable
  files are then set aside, the generation before them is not looked at when the newest file is missing, and the start
  after that knows nothing of the records, says nothing, and has the previous generation, whole, on disk.\<close>

theorem loss_forgotten_after_failed_save:
  assumes "sd_records d = Some Garbage" "sd_state d = Some Garbage" "sd_prev d = Some (Doc r)" "pr_Schema r = 1"
    and "w_aside w = (\<lambda>_. True)" "w_records w = NotWritten e"
  shows "holds_of r (fst (loadState w keys now lower (blank_server True) d))
    \<and> (case loadState w keys now lower (blank_server True) d of
         (sv1, d1) \<Rightarrow> sv_recordsWarn sv1 \<noteq> [] \<and> sd_prev d1 = Some (Doc r)
           \<and> (\<forall>w' now'. loadState w' keys now' lower (blank_server True) d1 = (blank_server True, d1)))"
proof -
  have "has_recs r (fst (fst (snd (start_files w d))))"
    using start_contributes(3) [of d Garbage r w] assms(1,3,4) by (simp add: usable_records_def)
  then have h: "holds_of r (fst (loadState w keys now lower (blank_server True) d))" by (rule start_holds)
  let ?d1 = "d\<lparr>sd_state := None, sd_records := None\<rparr>"
  obtain ps settled where f: "start_files w d = (ps, settled, True, ?d1)" "snd settled \<noteq> []"
    using assms(1-5) recordsLostWarning_told
    by (simp add: start_files_def readStateFile_def loadRecords_def readRecords_def setAside_def from_results_def Let_def)
  have w: "snd (save_noting w keys now sv ?d1) = ?d1" if "sv_dir sv" for sv
    using that assms(6) by (simp add: save_noting_def saveState_def write_state_def saveRecords_def writeAtomic_def)
  have dir: "sv_dir (start_server lower ps settled (blank_server True))"
    by (simp add: start_server_def applyStateLocked_def invalidateDerivedLocked_def blank_server_def Let_def split: option.split)
  have d1: "snd (loadState w keys now lower (blank_server True) d) = ?d1"
    using f(1) w [OF dir] by (simp add: loadState_def blank_server_def)
  have warn: "sv_recordsWarn (fst (loadState w keys now lower (blank_server True) d)) \<noteq> []"
    using loadState_server(3) [OF f(1), of "blank_server True"] f(2) by (simp add: blank_server_def)
  have again: "loadState w' keys now' lower (blank_server True) ?d1 = (blank_server True, ?d1)" for w' now'
    by (simp add: loadState_def start_files_def readStateFile_def loadRecords_def readRecords_def add_records_def from_results_def
        start_server_def zero_records_def blank_server_def)
  show ?thesis using h d1 warn again assms(3) by (simp add: case_prod_beta)
qed

subsection \<open>Two saves at a time\<close>

text \<open>The steps of concurrent saves: the server changes, a save takes its snapshot, a save writes.\<close>

datatype save_step = Change pserver | Snap nat | WriteOut nat

fun save_steps ::
  "(string set \<Rightarrow> string list) \<Rightarrow> string \<Rightarrow> save_step list \<Rightarrow> pserver \<Rightarrow> (nat \<rightharpoonup> persistedState \<times> persistedRecords) \<Rightarrow> statedir \<Rightarrow> statedir" where
  "save_steps keys now [] sv snaps d = d"
| "save_steps keys now (Change sv' # ss) sv snaps d = save_steps keys now ss sv' snaps d"
| "save_steps keys now (Snap i # ss) sv snaps d = save_steps keys now ss sv (snaps(i \<mapsto> snapshot_state keys now sv)) d"
| "save_steps keys now (WriteOut i # ss) sv snaps d =
     (case snaps i of
        None \<Rightarrow> save_steps keys now ss sv snaps d
      | Some snap \<Rightarrow> save_steps keys now ss sv snaps (fst (write_state all_written snap d)))"

text \<open>The snapshot is taken before the lock of the writers, so a save that took its snapshot first can
  write last: the files then hold the older state, although the save of the newer one succeeded.\<close>

theorem older_save_wins:
  "saved_with (snapshot_state keys now sv)
     (save_steps keys now [Snap 0, Change sv', Snap 1, WriteOut 1, WriteOut 0] sv Map.empty d)"
  by (simp add: saved_with_def write_state_def saveRecords_def writeAtomic_def all_written_def snapshot_state_def usable_records_def
      case_prod_beta Let_def split: option.split)

subsection \<open>What a restart restores\<close>

text \<open>Results a build would keep: of tools it has, duplicates with fingerprints, temporary files that
  still count as such.\<close>

definition current_results :: "(nat \<Rightarrow> nat) \<Rightarrow> (string \<rightharpoonup> toolResult) \<Rightarrow> bool" where
  "current_results lower m \<longleftrightarrow> dom m \<subseteq> set validTools
     \<and> (case m ''duplicates'' of None \<Rightarrow> True | Some dup \<Rightarrow> \<not> lacksFingerprints dup)
     \<and> (case m ''temp_files'' of None \<Rightarrow> True | Some tf \<Rightarrow> \<forall>f \<in> set (Files tf). isTempName lower (Name f))"

lemma accepted_current:
  assumes "current_results lower m"
  shows "accepted_results lower (\<lambda>t. map_option Some (m t)) = m"
proof -
  have 1: "(\<lambda>t. if t \<notin> set validTools then None else (case map_option Some (m t) of None \<Rightarrow> None | Some r \<Rightarrow> r)) = m"
  proof
    fix t
    show "(if t \<notin> set validTools then None else (case map_option Some (m t) of None \<Rightarrow> None | Some r \<Rightarrow> r)) = m t"
      using assms by (cases "m t") (auto simp: current_results_def)
  qed
  have 2: "(case m ''duplicates'' of
        Some dup \<Rightarrow> if lacksFingerprints dup then m(''duplicates'' := None, ''corrupted_files'' := None) else m | None \<Rightarrow> m) = m"
    using assms by (auto simp: current_results_def split: option.split)
  have 3: "(case m ''temp_files'' of
        Some tf \<Rightarrow> m(''temp_files'' \<mapsto> tf\<lparr>Files := filter (\<lambda>f. isTempName lower (Name f)) (Files tf)\<rparr>) | None \<Rightarrow> m) = m"
  proof (cases "m ''temp_files''")
    case (Some tf)
    then have "filter (\<lambda>f. isTempName lower (Name f)) (Files tf) = Files tf"
      using assms by (simp add: current_results_def)
    then show ?thesis using Some by (simp add: fun_upd_idem)
  qed simp
  show ?thesis unfolding accepted_results_def Let_def 1 2 by (rule 3)
qed

text \<open>C33. A restart restores what was saved: after a complete save, a server that starts on the directory has
  the same results, reference folders, survivors, moved copies and opening tool, does not reuse a row id, and carries the
  warning that was pending; nothing derived is cached.\<close>

theorem saved_state_restored:
  assumes "sv_dir sv" "current_results lower (rs_results sv)" "sv_lastTool sv \<in> set validTools" "0 \<le> sv_nextID sv"
    and keys: "\<And>A. A \<in> {sv_keepers sv, rs_moveOut sv} \<Longrightarrow> set (keys A) = A"
    and saved: "saveState w keys now sv d = ((sv', d'), None)"
  shows "let sv2 = fst (loadState w' keys' now' lower (blank_server True) d') in
      rs_results sv2 = rs_results sv \<and> rs_refDirs sv2 = rs_refDirs sv \<and> sv_keepers sv2 = sv_keepers sv
      \<and> rs_moveOut sv2 = rs_moveOut sv \<and> sv_lastTool sv2 = sv_lastTool sv \<and> sv_nextID sv2 = sv_nextID sv
      \<and> sv_recordsWarn sv2 = sv_recordsWarn sv \<and> rs_view sv2 = None"
proof -
  let ?snap = "snapshot_state keys now sv"
  obtain d1 where "saveRecords w (snd ?snap) d = (d1, None)" "d' = d1\<lparr>sd_state := Some (Doc (fst ?snap))\<rparr>"
    using saved assms(1)
    by (auto simp: saveState_def write_state_def writeAtomic_def Let_def split: prod.splits option.splits fileout.splits)
  moreover from this(1) have "sd_records d1 = Some (Doc (snd ?snap))"
    by (auto simp: saveRecords_def writeAtomic_def Let_def split: prod.splits option.splits fileout.splits)
  ultimately have d': "sd_records d' = Some (Doc (snd ?snap))" "sd_state d' = Some (Doc (fst ?snap))" by simp_all
  define settled where "settled = add_records (Some (snd ?snap)) (add_records (from_results (Some (fst ?snap))) (zero_records, []))"
  have f: "start_files w' d' = (Some (fst ?snap), settled, False, d')"
    by (simp add: start_files_def d' readStateFile_def loadRecords_def readRecords_def snapshot_schema settled_def)
  have s: "set (pr_Keepers (fst settled)) = sv_keepers sv" "set (pr_MoveOut (fst settled)) = rs_moveOut sv" "snd settled = sv_recordsWarn sv"
    using keys by (simp_all add: settled_def add_records_def from_results_def snapshot_state_def Let_def zero_records_def)
  have l: "fst (loadState w' keys' now' lower (blank_server True) d') = start_server lower (Some (fst ?snap)) settled (blank_server True)"
    using f by (simp add: loadState_def blank_server_def)
  have r: "sv_keepers (start_server lower (Some (fst ?snap)) settled (blank_server True)) = sv_keepers sv"
    "rs_moveOut (start_server lower (Some (fst ?snap)) settled (blank_server True)) = rs_moveOut sv"
    unfolding start_server_records [OF prod.collapse [symmetric]] by (rule s)+
  have a: "rs_results (applyStateLocked lower (fst ?snap) (blank_server True)) = rs_results sv"
    "rs_refDirs (applyStateLocked lower (fst ?snap) (blank_server True)) = rs_refDirs sv"
    "sv_lastTool (applyStateLocked lower (fst ?snap) (blank_server True)) = sv_lastTool sv"
    "sv_nextID (applyStateLocked lower (fst ?snap) (blank_server True)) = sv_nextID sv"
    "rs_view (applyStateLocked lower (fst ?snap) (blank_server True)) = None"
    using assms(3,4) accepted_current [OF assms(2)]
    by (simp_all add: applyStateLocked_def snapshot_state_def invalidateDerivedLocked_def blank_server_def Let_def)
  show ?thesis unfolding l Let_def using r a s(3) by (simp add: start_server_def Let_def)
qed

subsection \<open>A small server\<close>

definition no_files :: statedir where
  "no_files = \<lparr>sd_records = None, sd_prev = None, sd_state = None, sd_marker = None, sd_report = None\<rparr>"

definition ex_pserver :: "path set \<Rightarrow> pserver" where
  "ex_pserver kp = (blank_server True)\<lparr>sv_keepers := kp, rs_moveOut := {''1:2''}, sv_lastTool := ''duplicates'', sv_nextID := 7\<rparr>"

definition ex_saved :: "path set \<Rightarrow> statedir" where
  "ex_saved kp = snd (fst (saveState all_written sorted_list_of_set ''now'' (ex_pserver kp) no_files))"

lemma ex_saved_with: "saved_with (snapshot_state sorted_list_of_set ''now'' (ex_pserver kp)) (ex_saved kp)"
  by (simp add: saved_with_def snapshot_schema ex_saved_def saveState_def write_state_def saveRecords_def writeAtomic_def all_written_def
      ex_pserver_def blank_server_def no_files_def)

lemma ex_records: "finite kp \<Longrightarrow> set (pr_Keepers (snd (snapshot_state sorted_list_of_set ''now'' (ex_pserver kp)))) = kp"
  by (simp add: snapshot_state_def ex_pserver_def Let_def)

theorem saved_state_restored_witness:
  "sv_keepers (fst (loadState all_written sorted_list_of_set ''later'' id (blank_server True) (ex_saved {''/v/a''}))) = {''/v/a''}"
proof -
  let ?sv = "ex_pserver {''/v/a''}"
  have sv: "sv_dir ?sv" "current_results id (rs_results ?sv)" "sv_lastTool ?sv \<in> set validTools" "0 \<le> sv_nextID ?sv"
    by (simp_all add: ex_pserver_def blank_server_def current_results_def validTools_def)
  have keys: "\<And>A. A \<in> {sv_keepers ?sv, rs_moveOut ?sv} \<Longrightarrow> set (sorted_list_of_set A) = A" by (auto simp: ex_pserver_def)
  have "snd (saveState all_written sorted_list_of_set ''now'' ?sv no_files) = None"
    by (simp add: saveState_def write_state_def saveRecords_def writeAtomic_def all_written_def no_files_def sv(1))
  then have saved: "saveState all_written sorted_list_of_set ''now'' ?sv no_files
      = ((fst (fst (saveState all_written sorted_list_of_set ''now'' ?sv no_files)), ex_saved {''/v/a''}), None)"
    by (metis ex_saved_def prod.collapse)
  show ?thesis
    using saved_state_restored [OF sv keys saved, of all_written sorted_list_of_set "''later''"] by (simp add: Let_def ex_pserver_def)
qed

theorem resume_same_request_witness:
  "marker_matches (marker_of \<lparr>SR_Tool = ''duplicates'', SR_Tools = [], SR_Dirs = [''/v/b'', ''/v/a''], SR_RefDirs = [], SR_Recurse = True,
       SR_Match = by_name, SR_Resume = False\<rparr> 3 ''now'')
     \<lparr>SR_Tool = ''duplicates'', SR_Tools = [], SR_Dirs = [''/v/a/'', ''/v/b'', ''/v/b''], SR_RefDirs = [], SR_Recurse = True,
       SR_Match = by_name, SR_Resume = True\<rparr>"
proof -
  have c: "Clean ''/v/a'' = ''/v/a''" "Clean ''/v/b'' = ''/v/b''" "Clean ''/v/a/'' = ''/v/a''" by code_simp+
  have t: "toolList \<lparr>SR_Tool = ''duplicates'', SR_Tools = [], SR_Dirs = ds, SR_RefDirs = [], SR_Recurse = True,
       SR_Match = by_name, SR_Resume = b\<rparr> = Inr [''duplicates'']" for ds b
    by (simp add: toolList_def validTools_def scanOrder_def)
  show ?thesis unfolding resume_same_request [OF t] by (simp add: t c insert_commute)
qed



theorem loss_forgotten_after_failed_save_witness:
  "let d = no_files\<lparr>sd_records := Some Garbage, sd_state := Some Garbage, sd_prev := Some (Doc (zero_records\<lparr>pr_Keepers := [''/v/a'']\<rparr>))\<rparr>;
     d1 = snd (loadState (all_written\<lparr>w_records := NotWritten ''no space''\<rparr>) sorted_list_of_set ''now'' id (blank_server True) d)
   in fst (loadState all_written sorted_list_of_set ''later'' id (blank_server True) d1) = blank_server True"
proof -
  let ?r = "zero_records\<lparr>pr_Keepers := [''/v/a'']\<rparr>" and ?w = "all_written\<lparr>w_records := NotWritten ''no space''\<rparr>"
  let ?d = "no_files\<lparr>sd_records := Some Garbage, sd_state := Some Garbage, sd_prev := Some (Doc ?r)\<rparr>"
  have "sd_records ?d = Some Garbage" "sd_state ?d = Some Garbage" "sd_prev ?d = Some (Doc ?r)" "pr_Schema ?r = 1"
    "w_aside ?w = (\<lambda>_. True)" "w_records ?w = NotWritten ''no space''"
    by (simp_all add: zero_records_def all_written_def)
  from loss_forgotten_after_failed_save [OF this, of sorted_list_of_set "''now''" id]
  show ?thesis by (auto simp: Let_def case_prod_beta)
qed

end
