(* ===== verification/ScanRun.thy ===== *)
theory ScanRun
  imports EmptyFolders KeyCounter CorruptPass Persist
begin

text \<open>
  One run of a scan (\<open>runScan\<close>, \<open>scanContent\<close> and \<open>distilCandidates\<close> of
  \<open>server/scan.go\<close>, \<open>applyCrtimes\<close> of \<open>server/fsapi.go\<close>): the walk feeding its
  consumers, the passes after it in their order, the results they publish, and what the end of the run does to the
  server and its files.  The parts are those of the other theories: the walk's calls, the empty-folder machine, the
  bounded listings, the key counters and the walk log, the windows and the ladder, the corrupted-files pass.  What the
  run meets is in the record \<open>scan_env\<close>; a stop is seen at one of the points that look for it, and a pass
  may panic.  Progress is not modelled.
\<close>

subsection \<open>What a run meets\<close>

datatype scan_stop = NoStop | StopWalk | StopConfirm | StopContent bool | StopCreated

text \<open>\<open>sc_line\<close> is the text of an error line of the walk, \<open>sc_spill\<close> whether the
  three spill files of a run can be created, \<open>sc_log\<close> and \<open>sc_wr\<close> whether each write to them succeeds,
  \<open>sc_panic\<close> the panic of a pass, if any, and whether it comes after the marker was rewritten.
  \<open>sc_walk\<close> is the disk; its two switches are set by the run.\<close>

record scan_env =
  sc_resolve :: "path \<Rightarrow> path option"
  sc_walk :: walk_env
  sc_lower :: "nat \<Rightarrow> nat"
  sc_line :: "path \<Rightarrow> gostring"
  sc_confirm :: "path \<Rightarrow> string + bool"
  sc_sizes :: counterSizes
  sc_spill :: "nat \<Rightarrow> bool"
  sc_log :: "fEnt \<Rightarrow> bool"
  sc_wr :: "nat \<Rightarrow> spillRec \<Rightarrow> bool"
  sc_reason :: "nat \<Rightarrow> gostring"
  sc_lenv :: lenv
  sc_corders :: corders
  sc_eqFold :: "gostring \<Rightarrow> gostring \<Rightarrow> bool"
  sc_store :: "path \<times> gostring option"
  sc_wrote :: "nat \<Rightarrow> bool"
  sc_captured :: "fEnt \<Rightarrow> string"
  sc_render :: "evidence \<Rightarrow> string"
  sc_sights :: "nat \<Rightarrow> sights"
  sc_unchecked :: "nat \<Rightarrow> gostring"
  sc_ladder :: "sub_err \<Rightarrow> gostring"
  sc_stop :: scan_stop
  sc_panic :: "string \<Rightarrow> (gostring \<times> bool) option"

subsection \<open>The walk and its consumers\<close>

definition flatFileCap :: nat where "flatFileCap = 20000"

text \<open>\<open>ws_content\<close>: the two counters and the log, with whether a write to it failed.\<close>

record walk_state =
  ws_folders :: "emptyFolderScan option"
  ws_empty :: "boundedTop option"
  ws_temp :: "boundedTop option"
  ws_content :: "(keyCounter \<times> keyCounter \<times> spill \<times> bool) option"

definition walk_start :: "string set \<Rightarrow> walk_state" where
  "walk_start want =
     \<lparr>ws_folders = (if ''empty_folders'' \<in> want then Some newEmptyFolderScan else None),
      ws_empty = (if ''empty_files'' \<in> want then Some (newBoundedTop flatFileCap) else None),
      ws_temp = (if ''temp_files'' \<in> want then Some (newBoundedTop flatFileCap) else None),
      ws_content = (if ''duplicates'' \<in> want \<or> ''corrupted_files'' \<in> want
                    then Some (newKeyCounterShare 1, newKeyCounterShare 1, newSpill, False) else None)\<rparr>"

definition content_visit ::
  "scan_env \<Rightarrow> MatchOpts \<Rightarrow> nat \<Rightarrow> fEnt \<Rightarrow> keyCounter \<times> keyCounter \<times> spill \<times> bool \<Rightarrow> keyCounter \<times> keyCounter \<times> spill \<times> bool" where
  "content_visit env m idx f = (\<lambda>(c, cc, sp, broken).
     if f_size f \<le> 0 then (c, cc, sp, broken)
     else (let c1 = kc_add (sc_sizes env) (candHash f m) c; cc1 = kc_add (sc_sizes env) (candHash f corruptMatch) cc in
       if broken then (c1, cc1, sp, True)
       else (case spill_add (le_maxInt (sc_lenv env)) (sc_log env f) idx f sp of
               None \<Rightarrow> (c1, cc1, sp, True)
             | Some sp1 \<Rightarrow> (c1, cc1, sp1, False))))"

fun scan_call :: "scan_env \<Rightarrow> MatchOpts \<Rightarrow> wcall \<Rightarrow> walk_state \<Rightarrow> walk_state" where
  "scan_call env m (Visit idx f) ws =
     (let ws1 = ws\<lparr>ws_folders := map_option (ef_visit (sc_lower env) idx f) (ws_folders ws)\<rparr> in
      if f_isDir f then ws1
      else ws1\<lparr>ws_empty := map_option (\<lambda>t. if f_size f = 0 then top_add f t else t) (ws_empty ws1),
               ws_temp := map_option (\<lambda>t. if isTempName (sc_lower env) (f_name f) then top_add f t else t) (ws_temp ws1),
               ws_content := map_option (content_visit env m idx f) (ws_content ws1)\<rparr>)"
| "scan_call env m (Unreadable p) ws = ws\<lparr>ws_folders := map_option (ef_noteUnreadable p) (ws_folders ws)\<rparr>"
| "scan_call env m (WalkErr p) ws = ws"

text \<open>What every result shares: the resolved roots and the errors of the walk.\<close>

definition newResult :: "RootMap list \<Rightarrow> string list \<Rightarrow> string \<Rightarrow> toolResult" where
  "newResult roots errs tool = zero_toolResult\<lparr>Tool := tool, Roots := roots, Errors := errs\<rparr>"

definition with_error :: "gostring \<Rightarrow> toolResult \<Rightarrow> toolResult" where
  "with_error e res = res\<lparr>Errors := Errors res @ [e]\<rparr>"

definition ellipsis :: gostring where "ellipsis = [CHR 0xE2, CHR 0x80, CHR 0xA6]"

definition root_errors :: "path list \<Rightarrow> string list" where
  "root_errors refused = map (\<lambda>r. r @ '': no longer inside the allowed volumes'') refused"

definition walk_lines :: "scan_env \<Rightarrow> path list \<times> nat \<Rightarrow> string list" where
  "walk_lines env we =
     map (sc_line env) (fst we)
     @ (if snd we = 0 then [] else [ellipsis @ '' and '' @ dec (snd we) @ '' more locations could not be read''])"

text \<open>The walk of a run: what it leaves in the consumers, the roots kept, the error lines, and the roots of
  the handles.\<close>

definition scan_walk ::
  "scan_env \<Rightarrow> ScanReq \<Rightarrow> string set \<Rightarrow> path list \<Rightarrow> walk_state \<times> RootMap list \<times> string list \<times> path list" where
  "scan_walk env req want roots =
     (let (kept, refused) = scanRoots (sc_resolve env) (SR_Recurse req) roots;
          (calls, errs, rootOf) = walkStream ((sc_walk env)\<lparr>we_recurse := SR_Recurse req, we_withDirs := ''empty_folders'' \<in> want\<rparr>)
                                    (map Raw kept)
      in (fold (scan_call env (SR_Match req)) calls (walk_start want), kept, root_errors refused @ walk_lines env errs, rootOf))"

subsection \<open>The passes after the walk\<close>

text \<open>What a pass makes the run do.\<close>

datatype scan_event = Publish toolResult | Mark "32 word"

type_synonym pass = "nat \<Rightarrow> scan_event list \<times> nat \<times> bool"

definition flat_pass :: "scan_env \<Rightarrow> RootMap list \<Rightarrow> string list \<Rightarrow> string \<Rightarrow> boundedTop \<Rightarrow> pass" where
  "flat_pass env roots errs t bt n =
     (let (ents, trunc) = top_final bt; (rows, n1) = fileEnts (le_fm (sc_lenv env)) ents n
      in ([Publish ((newResult roots errs t)\<lparr>Files := rows, Truncated := trunc\<rparr>)], n1, True))"

definition confirm_error :: "(nat \<times> string) option \<Rightarrow> string list" where
  "confirm_error failed =
     (case failed of
        None \<Rightarrow> []
      | Some (k, e) \<Rightarrow> [dec k @ '' empty-folder candidates could not be confirmed through File Station and were left out ('' @ e @ '')''])"

definition folder_pass :: "scan_env \<Rightarrow> RootMap list \<Rightarrow> string list \<Rightarrow> emptyFolderScan \<Rightarrow> pass" where
  "folder_pass env roots errs ef n =
     (case ef_finish (le_fm (sc_lenv env)) (sc_confirm env) ef n of
        (rows, trunc, failed, n1) \<Rightarrow>
          if sc_stop env = StopConfirm then ([], n1, False)
          else ([Publish ((newResult roots (errs @ confirm_error failed) ''empty_folders'')\<lparr>Files := rows, Truncated := trunc\<rparr>)],
                n1, True))"

subsection \<open>Creation times\<close>

definition blank_paths :: "toolResult \<Rightarrow> path list" where
  "blank_paths res =
     map row_path (filter (\<lambda>f. Created f = []) (Files res @ concat (map GFiles (Groups res))))"

definition set_created :: "(int \<Rightarrow> string) \<Rightarrow> (path \<rightharpoonup> time) \<Rightarrow> FileEnt \<Rightarrow> FileEnt" where
  "set_created fm ct f = (case ct (row_path f) of None \<Rightarrow> f | Some t \<Rightarrow> f\<lparr>Created := fmtTime fm t\<rparr>)"

definition applyCrtimes :: "(int \<Rightarrow> string) \<Rightarrow> (path list \<Rightarrow> path \<rightharpoonup> time) \<Rightarrow> toolResult \<Rightarrow> toolResult" where
  "applyCrtimes fm fetch res =
     (if blank_paths res = [] then res
      else (let ct = fetch (blank_paths res) in
        res\<lparr>Files := map (set_created fm ct) (Files res),
            Groups := map (\<lambda>g. g\<lparr>GFiles := map (set_created fm ct) (GFiles g)\<rparr>) (Groups res)\<rparr>))"

definition fetchCreatedDates ::
  "scan_env \<Rightarrow> toolResult \<Rightarrow> toolResult option \<Rightarrow> toolResult \<times> toolResult option" where
  "fetchCreatedDates env res corrRes =
     (case le_ct (sc_lenv env) of
        None \<Rightarrow> (res, corrRes)
      | Some fetch \<Rightarrow>
          (let fm = fm_time (le_fm (sc_lenv env)); corr1 = map_option (applyCrtimes fm fetch) corrRes; res1 = applyCrtimes fm fetch res;
               n = blankCreated (Some res1) + blankCreated corr1
           in (if sc_stop env = StopCreated \<and> n > 0
               then with_error (''stopped before every Created Date was fetched '' @ em_dash @ '' '' @ humanCount n
                      @ '' files show none; scan again to fill them in'') res1
               else res1, corr1)))"

subsection \<open>The content pass\<close>

definition aborted :: "gostring \<Rightarrow> gostring" where
  "aborted e = ''scan aborted '' @ em_dash @ '' '' @ e"

text \<open>\<open>distilCandidates\<close>: the candidates and their number, and those of the corrupted-files pass
  or why there are none.\<close>

definition distilCandidates ::
  "scan_env \<Rightarrow> MatchOpts \<Rightarrow> bool \<Rightarrow> keyCounter \<Rightarrow> keyCounter \<Rightarrow> spill
    \<Rightarrow> gostring + (spill \<times> nat) \<times> (spill \<times> nat) option \<times> gostring option" where
  "distilCandidates env m corr c cc sp =
     (let maxInt = le_maxInt (sc_lenv env) in
      if \<not> sc_spill env 1 then Inl (aborted (''cannot create the candidate spill file: '' @ sc_reason env 1))
      else (case distil maxInt (sc_wr env 1) c m sp newSpill of
          None \<Rightarrow> Inl (aborted (''cannot read the scan spill file: '' @ sc_reason env 1))
        | Some (nCand, cs) \<Rightarrow>
            if \<not> corr then Inr ((cs, nCand), None, None)
            else if \<not> sc_spill env 2
            then Inr ((cs, nCand), None, Some (''the candidate spill file could not be created: '' @ sc_reason env 2))
            else (case distil maxInt (sc_wr env 2) cc corruptMatch sp newSpill of
                None \<Rightarrow> Inr ((cs, nCand), None, Some (''the scan spill file could not be re-read: '' @ sc_reason env 2))
              | Some (nCorr, ccs) \<Rightarrow> Inr ((cs, nCand), Some (ccs, nCorr), None))))"

definition run_lenv :: "scan_env \<Rightarrow> MatchOpts \<Rightarrow> path list \<Rightarrow> lenv" where
  "run_lenv env m rootOf =
     (sc_lenv env)\<lparr>le_match := m, le_handles := map Some [0..<length rootOf], le_roots := rootOf\<rparr>"

definition run_cenv :: "scan_env \<Rightarrow> MatchOpts \<Rightarrow> path list \<Rightarrow> cenv" where
  "run_cenv env m rootOf =
     \<lparr>ce_env = run_lenv env m rootOf, ce_cap = corruptFileCap, ce_orders = sc_corders env, ce_eqFold = sc_eqFold env,
      ce_stop = (\<lambda>_. never)\<rparr>"

definition corr_pass ::
  "scan_env \<Rightarrow> MatchOpts \<Rightarrow> path list \<Rightarrow> hashCache option \<Rightarrow> (spill \<times> nat) option \<Rightarrow> toolResult \<Rightarrow> nat \<Rightarrow> toolResult \<times> nat" where
  "corr_pass env m rootOf hc ccs res n =
     (case ccs of
        None \<Rightarrow> (res, n)
      | Some (sp, nCorr) \<Rightarrow>
          (let st = fst (scanCorrupted (run_cenv env m rootOf) sp nCorr
                      \<lparr>cp_acc = newCorruptTop corruptFileCap, cp_cache = hc, cp_unchecked = 0, cp_stage = 0\<rparr>);
               ((gs, trunc), n1) = corrupt_final (le_fm (sc_lenv env)) (sc_render env) (sc_captured env) (sc_sights env)
                                     (cp_acc st) corruptFileCap n
           in (res\<lparr>Errors := Errors res @ map (sc_unchecked env) [0..<cp_unchecked st], Groups := gs, Truncated := trunc\<rparr>, n1)))"

definition missing_error :: "nat \<Rightarrow> string list" where
  "missing_error k =
     (if k = 0 then [] else [dec k @ '' files had no File Station creation time and were excluded from created-date matching''])"

text \<open>\<open>scanContent\<close>: the marker rewritten (when it got that far), both results, the row counter and
  whether the pass finished (else it was aborted, and the first result says why).\<close>

definition scanContent ::
  "scan_env \<Rightarrow> ScanReq \<Rightarrow> 32 word \<Rightarrow> path list \<Rightarrow> keyCounter \<times> keyCounter \<times> spill \<Rightarrow> toolResult \<Rightarrow> toolResult option \<Rightarrow> nat
    \<Rightarrow> scan_event list \<times> (toolResult \<times> toolResult option \<times> nat) \<times> bool" where
  "scanContent env req resumeGen rootOf found res corrRes n =
     (let m = SR_Match req; le = run_lenv env m rootOf in
      case distilCandidates env m (corrRes \<noteq> None) (fst found) (fst (snd found)) (snd (snd found)) of
        Inl e \<Rightarrow> ([], (with_error e res, corrRes, n), False)
      | Inr ((cs, nCand), ccs, cerr) \<Rightarrow>
          (let corr1 = map_option (\<lambda>r. case cerr of None \<Rightarrow> r
                          | Some e \<Rightarrow> with_error (''could not check for corrupted copies '' @ em_dash @ '' '' @ e) r) corrRes;
               cache = (if resumeGen \<noteq> 0 then loadHashCacheResume (le_sizes le) (fst (sc_store env)) (snd (sc_store env)) resumeGen
                        else loadHashCache (le_sizes le) (fst (sc_store env)) (snd (sc_store env)))
           in case hashCandidateWindows le (sc_wrote env) cs nCand \<lparr>la_acc = newGroupTop (le_cap le), la_cache = Some cache, la_missing = 0\<rparr> of
                (st, Some e) \<Rightarrow> ([Mark (c_gen cache)], (with_error (aborted (sc_ladder env e)) res, corr1, n), False)
              | (st, None) \<Rightarrow>
                  (let ((gs, trunc), n1) = group_final (le_fm le) (sc_captured env) (la_acc st) (le_cap le) n;
                       res1 = res\<lparr>Errors := Errors res @ missing_error (la_missing st), Groups := gs, Truncated := trunc, Match := Some m\<rparr>;
                       (corr2, n2) = (case corr1 of None \<Rightarrow> (None, n1)
                                      | Some r \<Rightarrow> apfst Some (corr_pass env m rootOf (la_cache st) ccs r n1))
                   in ([Mark (c_gen cache)], (res1, corr2, n2), True))))"

definition contentTools :: "string set \<Rightarrow> string list" where
  "contentTools want = filter (\<lambda>t. t \<in> want) [''duplicates'', ''corrupted_files'']"

definition content_pass ::
  "scan_env \<Rightarrow> ScanReq \<Rightarrow> 32 word \<Rightarrow> string set \<Rightarrow> RootMap list \<Rightarrow> string list \<Rightarrow> path list
    \<Rightarrow> keyCounter \<times> keyCounter \<times> spill \<times> bool \<Rightarrow> pass" where
  "content_pass env req resumeGen want roots errs rootOf found n =
     (case found of (c, cc, sp, broken) \<Rightarrow>
        if broken
        then (map (\<lambda>t. Publish (with_error (aborted (''cannot write the scan spill file (disk full?): '' @ sc_reason env 0))
                         (newResult roots errs t))) (contentTools want), n, True)
        else
          (let corr0 = (if ''corrupted_files'' \<in> want then Some (newResult roots errs ''corrupted_files'') else None);
               (ev, (res, corr, n1), finished) = scanContent env req resumeGen rootOf (c, cc, sp) (newResult roots errs ''duplicates'') corr0 n;
               (res1, corr1) = (if finished then fetchCreatedDates env res corr else (res, corr))
           in case sc_stop env of
                StopContent opened \<Rightarrow> (if opened then ev else [], n1, False)
              | _ \<Rightarrow> (ev @ (if ''duplicates'' \<in> want then [Publish res1] else [])
                      @ (case corr1 of None \<Rightarrow> [] | Some r \<Rightarrow> [Publish r]), n1, True)))"

subsection \<open>The body of a run\<close>

datatype run_end = RunDone | RunStopped | RunPanicked string gostring

fun run_passes :: "(string \<Rightarrow> (gostring \<times> bool) option) \<Rightarrow> (string \<times> pass) list \<Rightarrow> nat \<Rightarrow> scan_event list \<times> nat \<times> run_end" where
  "run_passes panics [] n = ([], n, RunDone)"
| "run_passes panics ((t, p) # ps) n =
     (let (ev, n1, go) = p n in
      case panics t of
        Some (m, late) \<Rightarrow> (if late then takeWhile (\<lambda>e. case e of Mark g \<Rightarrow> True | Publish r \<Rightarrow> False) ev else [], n1, RunPanicked t m)
      | None \<Rightarrow>
          if \<not> go then (ev, n1, RunStopped)
          else (let (ev', n2, e) = run_passes panics ps n1 in (ev @ ev', n2, e)))"

definition scan_passes ::
  "scan_env \<Rightarrow> ScanReq \<Rightarrow> 32 word \<Rightarrow> string set \<Rightarrow> walk_state \<Rightarrow> RootMap list \<Rightarrow> string list \<Rightarrow> path list \<Rightarrow> (string \<times> pass) list" where
  "scan_passes env req resumeGen want ws roots errs rootOf =
     (case ws_empty ws of None \<Rightarrow> [] | Some t \<Rightarrow> [(''empty_files'', flat_pass env roots errs ''empty_files'' t)])
     @ (case ws_temp ws of None \<Rightarrow> [] | Some t \<Rightarrow> [(''temp_files'', flat_pass env roots errs ''temp_files'' t)])
     @ (case ws_folders ws of None \<Rightarrow> [] | Some ef \<Rightarrow> [(''empty_folders'', folder_pass env roots errs ef)])
     @ (case ws_content ws of None \<Rightarrow> []
        | Some found \<Rightarrow> [(hd (contentTools want), content_pass env req resumeGen want roots errs rootOf found)])"

definition scan_body ::
  "scan_env \<Rightarrow> ScanReq \<Rightarrow> 32 word \<Rightarrow> string list \<Rightarrow> path list \<Rightarrow> nat \<Rightarrow> scan_event list \<times> nat \<times> run_end" where
  "scan_body env req resumeGen tools roots n =
     (let want = set tools; (ws, kept, errs, rootOf) = scan_walk env req want roots;
          refused = root_errors (snd (scanRoots (sc_resolve env) (SR_Recurse req) roots))
      in if contentTools want \<noteq> [] \<and> \<not> sc_spill env 0
         then (map (\<lambda>t. Publish (with_error (aborted (''cannot create the scan spill file: '' @ sc_reason env 0)) (newResult kept refused t)))
                 (contentTools want), n, RunDone)
         else (case sc_panic env [] of
             Some (m, late) \<Rightarrow> ([], n, RunPanicked [] m)
           | None \<Rightarrow>
               if sc_stop env = StopWalk then ([], n, RunStopped)
               else run_passes (sc_panic env) (scan_passes env req resumeGen want ws kept errs rootOf) n))"

subsection \<open>What a run publishes\<close>

fun published :: "scan_event list \<Rightarrow> string list" where
  "published [] = []"
| "published (Publish r # es) = Tool r # published es"
| "published (Mark g # es) = published es"

lemma published_append [simp]: "published (es @ fs) = published es @ published fs"
  by (induction es rule: published.induct) simp_all

lemma published_marks [simp]: "published (takeWhile (\<lambda>e. case e of Mark g \<Rightarrow> True | Publish r \<Rightarrow> False) ev) = []"
  by (induction ev rule: published.induct) simp_all

lemma published_map: "published (map (\<lambda>t. Publish (f t)) ts) = map (\<lambda>t. Tool (f t)) ts"
  by (induction ts) simp_all

lemma Tool_newResult [simp]: "Tool (newResult roots errs t) = t" "Tool (with_error e res) = Tool res"
  by (simp_all add: newResult_def with_error_def)

lemma Tool_applyCrtimes [simp]: "Tool (applyCrtimes fm fetch res) = Tool res"
  by (simp add: applyCrtimes_def Let_def)

lemma Tool_fetchCreatedDates:
  "fetchCreatedDates env res corr = (res1, corr1) \<Longrightarrow> Tool res1 = Tool res \<and> map_option Tool corr1 = map_option Tool corr"
  by (auto simp: fetchCreatedDates_def Let_def option.map_comp o_def split: option.splits if_splits)

lemma Tool_corr_pass [simp]: "Tool (fst (corr_pass env m rootOf hc ccs res n)) = Tool res"
  by (simp add: corr_pass_def case_prod_beta Let_def split: option.split)

lemma Tool_scanContent:
  "scanContent env req g rootOf found res corr n = (ev, (res1, corr1, n1), finished) \<Longrightarrow>
     Tool res1 = Tool res \<and> map_option Tool corr1 = map_option Tool corr \<and> published ev = []"
  by (cases corr) (auto simp: scanContent_def Let_def case_prod_beta apfst_def map_prod_def split: sum.splits prod.splits option.splits)

text \<open>A pass that ends publishes its tools; one that is stopped publishes nothing.\<close>

definition pass_ok :: "pass \<Rightarrow> string list \<Rightarrow> bool" where
  "pass_ok p ts \<longleftrightarrow> (\<forall>n. case p n of (ev, n1, go) \<Rightarrow> published ev = (if go then ts else []))"

lemma flat_pass_ok: "pass_ok (flat_pass env roots errs t bt) [t]"
  by (simp add: pass_ok_def flat_pass_def case_prod_beta Let_def newResult_def zero_toolResult_def)

lemma folder_pass_ok: "pass_ok (folder_pass env roots errs ef) [''empty_folders'']"
  by (auto simp: pass_ok_def folder_pass_def newResult_def split: prod.splits)

lemma content_pass_ok: "pass_ok (content_pass env req g want roots errs rootOf found) (contentTools want)"
proof (unfold pass_ok_def, intro allI)
  fix n
  obtain c cc sp broken where f: "found = (c, cc, sp, broken)" by (metis prod.collapse)
  let ?corr = "if ''corrupted_files'' \<in> want then Some (newResult roots errs ''corrupted_files'') else None"
  obtain ev res corr n1 fin where sc:
    "scanContent env req g rootOf (c, cc, sp) (newResult roots errs ''duplicates'') ?corr n = (ev, (res, corr, n1), fin)"
    by (metis prod.collapse)
  note T = Tool_scanContent [OF sc]
  obtain res1 corr1 where fc: "(if fin then fetchCreatedDates env res corr else (res, corr)) = (res1, corr1)" by fastforce
  have "Tool res1 = ''duplicates'' \<and> map_option Tool corr1 = map_option Tool ?corr"
    using fc T Tool_fetchCreatedDates [of env res corr res1 corr1] by (auto split: if_splits)
  then show "case content_pass env req g want roots errs rootOf found n of (ev, n1, go) \<Rightarrow> published ev = (if go then contentTools want else [])"
    using T by (auto simp: content_pass_def f sc fc Let_def published_map contentTools_def split: scan_stop.split option.split)
qed

lemma run_passes_publish:
  "list_all2 (\<lambda>tp ts. pass_ok (snd tp) ts \<and> (\<exists>us. ts = fst tp # us)) ps tss \<Longrightarrow> run_passes panics ps n = (ev, n1, e) \<Longrightarrow>
     prefix (published ev) (concat tss) \<and> (e = RunDone \<longrightarrow> published ev = concat tss)
     \<and> (\<forall>t m. e = RunPanicked t m \<longrightarrow> prefix (published ev @ [t]) (concat tss))"
proof (induction ps tss arbitrary: n ev n1 e rule: list_all2_induct)
  case (Cons tp ps ts tss)
  obtain t p where tp: "tp = (t, p)" by fastforce
  obtain us where ts: "ts = t # us" using Cons.hyps(1) tp by auto
  obtain ev1 m1 go where p: "p n = (ev1, m1, go)" by (metis prod.collapse)
  have pub: "published ev1 = (if go then ts else [])" using Cons.hyps(1) p by (auto simp: pass_ok_def tp split: prod.splits)
  show ?case
  proof (cases "panics t")
    case (Some ml)
    then show ?thesis using Cons.prems tp p ts by (cases ml) auto
  next
    case None
    show ?thesis
    proof (cases go)
      case True
      obtain ev2 n2 e2 where r: "run_passes panics ps m1 = (ev2, n2, e2)" by (metis prod.collapse)
      show ?thesis using Cons.IH [OF r] Cons.prems tp p None True r pub by auto
    qed (use Cons.prems tp p None pub in auto)
  qed
qed simp

definition pass_order :: "string list" where
  "pass_order = [''empty_files'', ''temp_files'', ''empty_folders'', ''duplicates'', ''corrupted_files'']"

definition asked :: "string list \<Rightarrow> string list" where
  "asked tools = filter (\<lambda>t. t \<in> set tools) pass_order"

lemma fold_scan_call:
  "ws_folders (fold (scan_call env m) calls ws) = None \<longleftrightarrow> ws_folders ws = None"
  "ws_empty (fold (scan_call env m) calls ws) = None \<longleftrightarrow> ws_empty ws = None"
  "ws_temp (fold (scan_call env m) calls ws) = None \<longleftrightarrow> ws_temp ws = None"
  "ws_content (fold (scan_call env m) calls ws) = None \<longleftrightarrow> ws_content ws = None"
proof (induction calls arbitrary: ws)
  case (Cons c calls)
  { case 1 show ?case using Cons by (cases c) (simp_all add: Let_def) next
    case 2 show ?case using Cons by (cases c) (simp_all add: Let_def) next
    case 3 show ?case using Cons by (cases c) (simp_all add: Let_def) next
    case 4 show ?case using Cons by (cases c) (simp_all add: Let_def) }
qed simp_all

lemma scan_passes_ok:
  assumes "scan_walk env req want roots = (ws, kept, errs, rootOf)"
  shows "\<exists>tss. list_all2 (\<lambda>tp ts. pass_ok (snd tp) ts \<and> (\<exists>us. ts = fst tp # us)) (scan_passes env req g want ws kept errs rootOf) tss
     \<and> concat tss = filter (\<lambda>t. t \<in> want) pass_order"
proof -
  obtain calls where ws: "ws = fold (scan_call env (SR_Match req)) calls (walk_start want)"
    using assms by (auto simp: scan_walk_def Let_def split: prod.splits)
  have n: "ws_empty ws = None \<longleftrightarrow> ''empty_files'' \<notin> want" "ws_temp ws = None \<longleftrightarrow> ''temp_files'' \<notin> want"
    "ws_folders ws = None \<longleftrightarrow> ''empty_folders'' \<notin> want" "ws_content ws = None \<longleftrightarrow> contentTools want = []"
    unfolding ws fold_scan_call by (auto simp: walk_start_def contentTools_def)
  let ?Q = "list_all2 (\<lambda>tp ts. pass_ok (snd tp) ts \<and> (\<exists>us. ts = fst tp # us))"
  have 1: "?Q (case ws_empty ws of None \<Rightarrow> [] | Some t \<Rightarrow> [(''empty_files'', flat_pass env kept errs ''empty_files'' t)])
      (if ''empty_files'' \<in> want then [[''empty_files'']] else [])"
    using n(1) flat_pass_ok by (auto split: option.split)
  have 2: "?Q (case ws_temp ws of None \<Rightarrow> [] | Some t \<Rightarrow> [(''temp_files'', flat_pass env kept errs ''temp_files'' t)])
      (if ''temp_files'' \<in> want then [[''temp_files'']] else [])"
    using n(2) flat_pass_ok by (auto split: option.split)
  have 3: "?Q (case ws_folders ws of None \<Rightarrow> [] | Some ef \<Rightarrow> [(''empty_folders'', folder_pass env kept errs ef)])
      (if ''empty_folders'' \<in> want then [[''empty_folders'']] else [])"
    using n(3) folder_pass_ok by (auto split: option.split)
  have 4: "?Q (case ws_content ws of None \<Rightarrow> []
         | Some found \<Rightarrow> [(hd (contentTools want), content_pass env req g want kept errs rootOf found)])
      (if contentTools want \<noteq> [] then [contentTools want] else [])"
  proof (cases "contentTools want")
    case (Cons t ts)
    then have "pass_ok (content_pass env req g want kept errs rootOf found) (t # ts)" for found using content_pass_ok by metis
    then show ?thesis using n(4) Cons by (auto split: option.split)
  qed (use n(4) in simp)
  note all = list_all2_appendI [OF 1 list_all2_appendI [OF 2 list_all2_appendI [OF 3 4]]]
  show ?thesis unfolding scan_passes_def
    by (intro exI conjI, rule all) (auto simp: pass_order_def contentTools_def)
qed

text \<open>C34. Once its walk has begun a run publishes one result for each tool it was asked for, each once and in the
  order of the passes: all of them when it runs to its end; else those of the passes that ended before the stop or the
  panic, where the panic is that of the tool next in turn (or of the walk).\<close>

theorem run_publishes_in_order:
  assumes "scan_body env req g tools roots n = (ev, n1, e)" "sc_spill env 0 \<or> contentTools (set tools) = []"
  shows "prefix (published ev) (asked tools) \<and> (e = RunDone \<longrightarrow> published ev = asked tools)
     \<and> (\<forall>t m. e = RunPanicked t m \<longrightarrow> t = [] \<and> ev = [] \<or> prefix (published ev @ [t]) (asked tools))"
proof -
  obtain ws kept errs rootOf where w: "scan_walk env req (set tools) roots = (ws, kept, errs, rootOf)" by (metis prod.collapse)
  obtain tss where tss: "list_all2 (\<lambda>tp ts. pass_ok (snd tp) ts \<and> (\<exists>us. ts = fst tp # us))
      (scan_passes env req g (set tools) ws kept errs rootOf) tss" "concat tss = asked tools"
    using scan_passes_ok [OF w] unfolding asked_def by blast
  show ?thesis
  proof (cases "sc_panic env [] = None \<and> sc_stop env \<noteq> StopWalk")
    case True
    then have "run_passes (sc_panic env) (scan_passes env req g (set tools) ws kept errs rootOf) n = (ev, n1, e)"
      using assms by (auto simp: scan_body_def w Let_def)
    from run_passes_publish [OF tss(1) this] show ?thesis by (simp add: tss(2))
  next
    case False
    then have "ev = [] \<and> (e = RunStopped \<or> (\<exists>m. e = RunPanicked [] m))"
      using assms by (auto simp: scan_body_def w Let_def split: option.splits if_splits)
    then show ?thesis by auto
  qed
qed

text \<open>When the walk log cannot be created the run ends there, and ends as completed: the content tools get an
  error for a result, and the other tools it was asked for are neither run nor mentioned.\<close>

theorem completed_without_running:
  assumes "contentTools (set tools) \<noteq> []" "\<not> sc_spill env 0"
  shows "\<exists>ev. scan_body env req g tools roots n = (ev, n, RunDone) \<and> published ev = contentTools (set tools)"
  using assms by (auto simp: scan_body_def published_map case_prod_beta Let_def)


subsection \<open>A small run\<close>

definition ex_info :: "int \<Rightarrow> winfo" where
  "ex_info k = \<lparr>w_size = k, w_blocks = None, w_mtime = Some 5, w_link = \<lparr>dev = 0, ino = 0, n_links = 1\<rparr>\<rparr>"

definition ex_disk :: walk_env where
  "ex_disk = \<lparr>we_open = (\<lambda>p. if p = ''/v/d'' then Some (Some ''/v/d'', False,
         [NFile ''a'' (Some (ex_info 4)), NFile ''b'' (Some (ex_info 4)), NFile ''c'' (Some (ex_info 5))]) else None),
     we_vols = [''/v''], we_selfm = [], we_recurse = False, we_withDirs = False\<rparr>"

definition ex_scan :: scan_env where
  "ex_scan = \<lparr>sc_resolve = Some, sc_walk = ex_disk, sc_lower = id, sc_line = id, sc_confirm = (\<lambda>_. Inr True),
     sc_sizes = counterDefaults, sc_spill = (\<lambda>_. True), sc_log = (\<lambda>_. True), sc_wr = (\<lambda>_ _. True), sc_reason = (\<lambda>_. ''full''),
     sc_lenv = ex_lenv\<lparr>le_cap := 9\<rparr>, sc_corders = \<lparr>co_fams = id, co_work = id, co_store = id\<rparr>, sc_eqFold = (=), sc_store = ([], None),
     sc_wrote = (\<lambda>_. True), sc_captured = (\<lambda>_. []), sc_render = (\<lambda>_. []),
     sc_sights = (\<lambda>_. \<lparr>si_same2 = (\<lambda>_. True), si_verify = (\<lambda>_. undefined), si_same3 = (\<lambda>_. True), si_past = (\<lambda>_ _. Inl ()),
        si_pair = (\<lambda>_ _. Inl ()), si_stop = (\<lambda>_. False), si_stopped = (\<lambda>_. False), si_stop_past = (\<lambda>_ _. False)\<rparr>),
     sc_unchecked = (\<lambda>_. []), sc_ladder = (\<lambda>_. []), sc_stop = NoStop, sc_panic = Map.empty\<rparr>"

definition ex_scan_req :: "string list \<Rightarrow> ScanReq" where
  "ex_scan_req tools = \<lparr>SR_Tool = [], SR_Tools = tools, SR_Dirs = [''/v/d''], SR_RefDirs = [], SR_Recurse = True,
     SR_Match = \<lparr>MName = False, MModified = False, MCreated = False\<rparr>, SR_Resume = False\<rparr>"

lemma ex_scan_walk:
  "walkStream (ex_disk\<lparr>we_recurse := True, we_withDirs := False\<rparr>) (map Raw (fst (scanRoots Some True [''/v/d''])))
    = ([Visit 0 (walk_entry 0 ''/v/d/a'' ''a'' ''a'' False (ex_info 4)), Visit 0 (walk_entry 0 ''/v/d/b'' ''b'' ''b'' False (ex_info 4)),
        Visit 0 (walk_entry 0 ''/v/d/c'' ''c'' ''c'' False (ex_info 5))], ([], 0), [''/v/d''])"
proof -
  let ?calls = "[Visit 0 (walk_entry 0 ''/v/d/a'' ''a'' ''a'' False (ex_info 4)), Visit 0 (walk_entry 0 ''/v/d/b'' ''b'' ''b'' False (ex_info 4)),
        Visit 0 (walk_entry 0 ''/v/d/c'' ''c'' ''c'' False (ex_info 5))]"
  have r: "map Raw (fst (scanRoots Some True [''/v/d''])) = [''/v/d'']"
    by (simp add: scanRoots_def map_filter_simps root_covered_def)
  have w: "walk_roots (ex_disk\<lparr>we_recurse := True, we_withDirs := False\<rparr>) 0 [''/v/d''] = (?calls, [''/v/d''])" by code_simp
  have "walk_errors ?calls = ([], 0)" by (simp add: walk_errors_def map_filter_simps)
  then show ?thesis unfolding r walkStream_def w by simp
qed

theorem run_publishes_in_order_witness:
  "prefix (published (fst (scan_body ex_scan (ex_scan_req [''temp_files'', ''duplicates'']) 0 [''temp_files'', ''duplicates''] [''/v/d''] 0)))
     [''temp_files'', ''duplicates'']"
proof -
  let ?b = "scan_body ex_scan (ex_scan_req [''temp_files'', ''duplicates'']) 0 [''temp_files'', ''duplicates''] [''/v/d''] 0"
  have "?b = (fst ?b, fst (snd ?b), snd (snd ?b))" by simp
  from run_publishes_in_order [OF this] show ?thesis by (simp add: ex_scan_def asked_def pass_order_def)
qed

theorem completed_without_running_witness:
  "\<exists>ev. scan_body (ex_scan\<lparr>sc_spill := (\<lambda>_. False)\<rparr>) (ex_scan_req [''empty_folders'', ''duplicates'']) 0 [''empty_folders'', ''duplicates''] [''/v/d''] 0
      = (ev, 0, RunDone) \<and> published ev = [''duplicates'']"
  using completed_without_running [of "[''empty_folders'', ''duplicates'']" "ex_scan\<lparr>sc_spill := (\<lambda>_. False)\<rparr>"]
  by (simp add: contentTools_def)


end
