(* ===== verification/ScanFinds.thy ===== *)
theory ScanFinds
  imports ScanRun
begin

text \<open>
  From the walk to the listing: what a whole scan for duplicates finds.  The lemmas follow the files of the
  walk through the counter and the log, the distilled candidates, the one window they fit, the groups and the final cut;
  the theorem says what the published result lists, in terms of the walk.
\<close>

subsection \<open>The files of a walk\<close>

definition visited :: "wcall list \<Rightarrow> (nat \<times> fEnt) list" where
  "visited calls = List.map_filter (\<lambda>c. case c of
      Visit idx f \<Rightarrow> if f_isDir f \<or> f_size f \<le> 0 then None else Some (idx, f)
    | _ \<Rightarrow> None) calls"

definition log_rec :: "nat \<times> fEnt \<Rightarrow> spillRec" where
  "log_rec v = \<lparr>s_root = fst v, s_size = f_size (snd v), s_mod = unix_of (f_mod (snd v)), s_tag = 0, s_rel = f_rel (snd v),
     s_link = f_link (snd v), s_holes = f_holes (snd v)\<rparr>"

lemma visited_simps [simp]:
  "visited [] = []"
  "visited (Visit idx f # calls) = (if f_isDir f \<or> f_size f \<le> 0 then visited calls else (idx, f) # visited calls)"
  "visited (Unreadable p # calls) = visited calls"
  "visited (WalkErr p # calls) = visited calls"
  by (simp_all add: visited_def map_filter_simps)

text \<open>Every call names a root that was opened.\<close>

lemma walk_node_idx: "Visit i f \<in> set (walk_node c rel nd) \<Longrightarrow> i = wc_idx c"
  by (induction c rel nd rule: walk_node.induct) (auto simp: walk_emit_def Let_def split: option.splits if_splits)

lemma walk_flat_idx: "Visit i f \<in> set (walk_flat_node c nd) \<Longrightarrow> i = wc_idx c"
  by (cases nd) (auto simp: walk_emit_def split: option.splits if_splits)

lemma walk_roots_idx:
  "walk_roots env k roots = (calls, ro) \<Longrightarrow> Visit i f \<in> set calls \<Longrightarrow> k \<le> i \<and> i < k + length ro"
proof (induction env k roots arbitrary: calls ro rule: walk_roots.induct)
  case (2 env k root roots)
  show ?case
  proof (cases "\<exists>canon fl nodes. we_open env root = Some (Some canon, fl, nodes)
      \<and> \<not> (\<not> isUnder canon (we_vols env) \<or> mount_under (we_selfm env) canon \<noteq> None)")
    case True
    then obtain canon fl nodes where o: "we_open env root = Some (Some canon, fl, nodes)"
      "\<not> (\<not> isUnder canon (we_vols env) \<or> mount_under (we_selfm env) canon \<noteq> None)" by blast
    obtain cs ro' where r: "walk_roots env (Suc k) roots = (cs, ro')" by fastforce
    let ?c = "\<lparr>wc_idx = k, wc_root = root, wc_canon = canon, wc_withDirs = we_withDirs env, wc_selfm = we_selfm env\<rparr>"
    have "calls = (if we_recurse env then walk_root_rec ?c fl nodes else walk_root_flat ?c fl nodes) @ cs" "ro = root # ro'"
      using "2.prems"(1) o r by (auto simp: Let_def)
    moreover have "i = k" if "Visit i f \<in> set (if we_recurse env then walk_root_rec ?c fl nodes else walk_root_flat ?c fl nodes)"
      using that walk_node_idx [of i f ?c] walk_flat_idx [of i f ?c]
      by (auto simp: walk_root_rec_def walk_root_flat_def split: if_splits)
    ultimately show ?thesis using "2.prems"(2) "2.IH" o r by (fastforce split: if_splits)
  next
    case False
    then obtain cs where "walk_roots env k roots = (cs, ro)" "calls = WalkErr root # Unreadable root # cs"
      using "2.prems"(1) by (auto simp: Let_def split: option.splits prod.splits if_splits)
    then show ?thesis using "2.IH" "2.prems"(2) False by (auto split: option.splits)
  qed
qed simp

lemma visited_idx: "v \<in> set (visited calls) \<Longrightarrow> Visit (fst v) (snd v) \<in> set calls"
proof (induction calls)
  case (Cons c calls)
  then show ?case by (cases c) (auto split: if_splits)
qed simp

subsection \<open>The counter and the log\<close>

definition named :: "MatchOpts \<Rightarrow> nat \<times> fEnt \<Rightarrow> bool" where
  "named m v \<longleftrightarrow> (MName m \<longrightarrow> Base (f_rel (snd v)) = f_name (snd v))"

lemma log_rec_key: "named m v \<Longrightarrow> rec_key m (log_rec v) = candHash (snd v) m"
proof -
  assume "named m v"
  moreover have "unix_of (time_unix (unix_of t)) = unix_of t" for t by (auto simp: time_unix_def unix_of_def split: option.split)
  ultimately show ?thesis by (auto simp: rec_key_def candHash_def log_rec_def named_def)
qed

lemma content_of_walk:
  assumes "sc_log env = (\<lambda>_. True)"
  shows "ws_content ws = Some (c, cc, sp, False) \<Longrightarrow> holds_recs recs sp
    \<Longrightarrow> \<forall>v \<in> set (visited calls). rec_ok (log_rec v) \<and> named m v
    \<Longrightarrow> length recs + length (visited calls) \<le> le_maxInt (sc_lenv env)
    \<Longrightarrow> \<exists>cc' sp'. ws_content (fold (scan_call env m) calls ws)
        = Some (fold (kc_add (sc_sizes env)) (map (rec_key m) (map log_rec (visited calls))) c, cc', sp', False)
      \<and> holds_recs (recs @ map log_rec (visited calls)) sp'"
proof (induction calls arbitrary: ws c cc sp recs)
  case (Cons call calls)
  show ?case
  proof (cases "\<exists>idx f. call = Visit idx f \<and> \<not> f_isDir f \<and> \<not> f_size f \<le> 0")
    case True
    then obtain idx f where f: "call = Visit idx f" "\<not> f_isDir f" "\<not> f_size f \<le> 0" by blast
    have ok: "rec_ok (log_rec (idx, f))" "named m (idx, f)" using Cons.prems(3) f by simp_all
    obtain sp1 where sp1: "addRaw (le_maxInt (sc_lenv env)) True (log_rec (idx, f)) sp = Some sp1"
      using addRaw_Some [OF Cons.prems(2), of "le_maxInt (sc_lenv env)" "log_rec (idx, f)"] Cons.prems(4) f by auto
    then have s: "spill_add (le_maxInt (sc_lenv env)) True idx f sp = Some sp1" by (simp add: spill_add_def log_rec_def)
    have h: "holds_recs (recs @ [log_rec (idx, f)]) sp1" by (rule holds_add [OF Cons.prems(2) ok(1) sp1])
    have ws: "ws_content (scan_call env m call ws)
        = Some (kc_add (sc_sizes env) (candHash f m) c, kc_add (sc_sizes env) (candHash f corruptMatch) cc, sp1, False)"
      using f Cons.prems(1) s by (simp add: Let_def content_visit_def assms)
    show ?thesis using Cons.IH [OF ws h] Cons.prems(3,4) f log_rec_key [OF ok(2)] by simp
  next
    case False
    then have v: "visited (call # calls) = visited calls" by (cases call) auto
    have "ws_content (scan_call env m call ws) = ws_content ws"
      using False Cons.prems(1) by (cases call) (auto simp: Let_def content_visit_def)
    then show ?thesis using Cons.IH [of "scan_call env m call ws" c cc sp recs] Cons.prems unfolding v by simp
  qed
qed simp

subsection \<open>The candidates fit one window\<close>

definition candidates :: "keyCounter \<Rightarrow> MatchOpts \<Rightarrow> spillRec list \<Rightarrow> spillRec list" where
  "candidates counter m recs = map untagged (filter (\<lambda>r. hot counter (rec_key m r)) recs)"

lemma distil_Some:
  assumes "holds_recs recs sp" "length recs \<le> maxInt"
  shows "\<exists>out. distil maxInt (\<lambda>_. True) counter m sp newSpill = Some (length (candidates counter m recs), out)
     \<and> holds_recs (candidates counter m recs) out"
proof -
  have ok: "\<forall>r \<in> set recs. rec_ok r" using assms(1) by (simp add: holds_recs_def)
  obtain n out where d: "distil maxInt (\<lambda>_. True) counter m sp newSpill = Some (n, out)"
    using distil_list [OF ok holds_new, of maxInt counter m 0] assms(2)
    by (auto simp: distil_def each_holds [OF assms(1)])
  from distil_holds [OF assms d] d show ?thesis by (simp add: candidates_def)
qed

lemma one_window:
  assumes "holds_recs cs sp" "length cs \<le> dupKeyFileCap" "\<forall>r \<in> set cs. s_root r < length rootOf"
  shows "window 0 1 m handles rootOf dupKeyFileCap dupWindowMax sp = Some (map (rec_ent handles rootOf) cs, [], 0)"
proof -
  obtain ents over skipped where w: "split_window (rec_key m) 0 1 dupKeyFileCap dupWindowMax handles rootOf sp = Some (ents, over, skipped)"
    using split_window_Some [OF assms(1)] by blast
  have "count_list (map (rec_key m) cs) k \<le> dupKeyFileCap" for k
    using count_le_length [of "map (rec_key m) cs" k] assms(2) by simp
  then have big: "\<not> (dupKeyFileCap > 0 \<and> count_list (map (rec_key m) cs) k > dupKeyFileCap)" for k by (simp add: not_less)
  have keep: "filter (\<lambda>r. s_root r < length rootOf \<and> in_part 0 1 (rec_key m r)
      \<and> \<not> (dupKeyFileCap > 0 \<and> count_list (map (rec_key m) cs) (rec_key m r) > dupKeyFileCap)) cs = cs"
    using assms(3) big by (simp add: in_part_def)
  note S = split_window_cut [OF assms(1) w, unfolded keep]
  have "length cs \<le> dupWindowMax" "dupWindowMax \<noteq> 0" using assms(2) by (simp_all add: dupKeyFileCap_def dupWindowMax_def)
  then have "ents = map (rec_ent handles rootOf) cs" "skipped = 0" using S(1,3) by simp_all
  moreover have "over = []" using S(2) big by (metis list.set_intros(1) neq_Nil_conv)
  ultimately show ?thesis using w by (simp add: window_def)
qed

lemma rec_ent_untagged [simp]: "rec_ent handles rootOf (untagged r) = rec_ent handles rootOf r"
  by (simp add: rec_ent_def untagged_def)

lemma one_pass:
  assumes "holds_recs cs sp" "length cs \<le> dupKeyFileCap" "\<forall>r \<in> set cs. s_root r < length (le_roots le)"
    and "\<not> MCreated (le_match le)"
  shows "\<exists>hc. hashCandidateWindows le wrote sp (length cs) st
     = (\<lparr>la_acc = fold group_add (window_groups (le_cap le) (le_orders le) (fst (window_hashed (le_sizes le) (le_orders le) (le_b3 le)
            (le_fm le) (le_match le) (plain_reads (le_rd le)) (map (rec_ent (le_handles le) (le_roots le)) cs) (la_cache st)))) (la_acc st),
         la_cache = hc, la_missing = la_missing st\<rparr>, None)"
proof -
  have p: "parts_for (length cs) = 1" using assms(2) by (simp add: parts_for_def dupWindowFiles_def dupKeyFileCap_def)
  have e: "enriched le win = (win, 0)" for win using assms(4) by (simp add: enriched_def split: option.split)
  have s: "note_skipped 0 st = st" by (simp add: note_skipped_def group_noteSkipped_def)
  show ?thesis
    unfolding hashCandidateWindows_def p
    by (simp add: one_window [OF assms(1-3), unfolded One_nat_def] s group_window_def e dupWindow_def case_prod_beta Let_def)
qed

subsection \<open>A listing without a report is complete\<close>

lemma group_final_complete:
  assumes "snd (fst (group_final fm captured (fold group_add gs (newGroupTop cap)) cap n)) = None"
  shows "\<exists>all. mset all = mset gs \<and> (\<forall>g \<in> set all. g_extra g = 0 \<and> length (g_files g) \<le> cap)
     \<and> fst (fst (group_final fm captured (fold group_add gs (newGroupTop cap)) cap n)) = fst (final_groups fm captured cap 0 all n)"
proof -
  let ?t = "fold group_add gs (newGroupTop cap)"
  have "group_saw gs (cap div 2 + 1) ?t" using group_saw_fold [OF _ group_saw_new] by simp
  then obtain D where D: "mset gs = mset (gt_gs ?t) + D" "gt_droppedGroups ?t = size D"
    by (auto simp: group_saw_def by_weight.kept_of_def)
  have z: "final_dropG ?t cap = 0" "final_dropF ?t cap = 0"
    using assms by (auto simp: group_final_def case_prod_beta Let_def split: if_splits)
  let ?all = "groups_sorted ?t"
  have "size D = 0" "length ?all \<le> final_cut ?t cap" using z(1) D(2) by (simp_all add: final_dropG_def)
  then have kept: "final_kept ?t cap = ?all" "mset ?all = mset gs"
    using D(1) by (simp_all add: final_kept_def groups_sorted_def)
  have "\<forall>g \<in> set ?all. g_extra g = 0 \<and> length (g_files g) \<le> cap"
    using z(2) by (auto simp: final_dropF_def kept(1))
  moreover have "fst (fst (group_final fm captured ?t cap n)) = fst (final_groups fm captured cap 0 ?all n)"
    by (simp add: group_final_def case_prod_beta Let_def kept(1))
  ultimately show ?thesis using kept(2) by blast
qed

definition row_place :: "FileEnt \<Rightarrow> path \<times> gostring" where
  "row_place r = (FDir r, Name r)"

definition ent_place :: "fEnt \<Rightarrow> path \<times> gostring" where
  "ent_place f = (f_dir f, f_name f)"

lemma fileEnts_place: "map row_place (fst (fileEnts fm fs n)) = map ent_place fs"
  by (induction fs arbitrary: n)
    (simp_all add: case_prod_beta Let_def fileEnt_def row_place_def ent_place_def zero_FileEnt_def)

lemma zip_row_place: "length fs = length rows \<Longrightarrow> map (row_place \<circ> final_row captured g) (zip fs rows) = map row_place rows"
  by (induction fs rows rule: list_induct2) (simp_all add: final_row_def row_place_def)

lemma final_group_place:
  "length (g_files g) \<le> cap \<Longrightarrow> GHash (fst (final_group fm captured cap i g n)) = g_hash g
     \<and> map row_place (GFiles (fst (final_group fm captured cap i g n))) = map ent_place (g_files g)"
  by (simp add: final_group_def case_prod_beta Let_def zero_Group_def length_fileEnts zip_row_place fileEnts_place)

lemma final_groups_place:
  "\<forall>g \<in> set gs. length (g_files g) \<le> cap \<Longrightarrow>
     map (\<lambda>g. (GHash g, map row_place (GFiles g))) (fst (final_groups fm captured cap i gs n)) = map (\<lambda>g. (g_hash g, map ent_place (g_files g))) gs"
  by (induction gs arbitrary: i n) (simp_all add: case_prod_beta Let_def final_group_place)

subsection \<open>What a scan lists\<close>

text \<open>Files with one candidate key have one key in the counter: the counter's key is made of the same size, name
  and time (times that differ have to be told apart in the text of a row).\<close>

definition keys_agree :: "fmt \<Rightarrow> MatchOpts \<Rightarrow> fEnt list \<Rightarrow> bool" where
  "keys_agree fm m files \<longleftrightarrow> (\<forall>f \<in> set files. \<forall>g \<in> set files. candKey fm m f = candKey fm m g \<longrightarrow> candHash f m = candHash g m)"

lemma classes_kept:
  assumes "keys_agree fm m files" "\<And>k. 2 \<le> count_list (map (\<lambda>f. candHash f m) files) k \<Longrightarrow> P k"
    and "2 \<le> length (class_of b3 fm m rd hc files K H)"
  shows "class_of b3 fm m rd hc (filter (\<lambda>f. P (candHash f m)) files) K H = class_of b3 fm m rd hc files K H"
proof -
  let ?C = "class_of b3 fm m rd hc files K H"
  have mem: "f \<in> set files \<and> candKey fm m f = K" if "f \<in> set ?C" for f
    using that by (auto simp: class_of_def in_class_def)
  obtain f0 where f0: "f0 \<in> set ?C" using assms(3) by (cases ?C) auto
  have same: "candHash f m = candHash f0 m" if "f \<in> set ?C" for f
    using assms(1) mem [OF that] mem [OF f0] unfolding keys_agree_def by metis
  have "length ?C \<le> length (filter (\<lambda>f. candHash f m = candHash f0 m) files)"
    unfolding class_of_def by (rule length_filter_imp) (use same in \<open>auto simp: class_of_def\<close>)
  also have "\<dots> = count_list (map (\<lambda>f. candHash f m) files) (candHash f0 m)"
    by (induction files) auto
  finally have "P (candHash f0 m)" using assms(2,3) by simp
  then have "filter (in_class b3 fm m rd hc K H) (filter (\<lambda>f. P (candHash f m)) files) = filter (in_class b3 fm m rd hc K H) files"
    unfolding filter_filter using same by (intro filter_cong) (auto simp: class_of_def)
  then show ?thesis by (simp add: class_of_def)
qed

lemma classes_of_kept:
  assumes "keys_agree fm m files" "\<And>k. 2 \<le> count_list (map (\<lambda>f. candHash f m) files) k \<Longrightarrow> P k"
  shows "2 \<le> length (class_of b3 fm m rd hc (filter (\<lambda>f. P (candHash f m)) files) K H)
     \<longleftrightarrow> 2 \<le> length (class_of b3 fm m rd hc files K H)"
proof
  assume "2 \<le> length (class_of b3 fm m rd hc (filter (\<lambda>f. P (candHash f m)) files) K H)"
  moreover have "length (class_of b3 fm m rd hc (filter (\<lambda>f. P (candHash f m)) files) K H) \<le> length (class_of b3 fm m rd hc files K H)"
    unfolding class_of_def filter_filter by (rule length_filter_imp) auto
  ultimately show "2 \<le> length (class_of b3 fm m rd hc files K H)" by simp
next
  assume two: "2 \<le> length (class_of b3 fm m rd hc files K H)"
  show "2 \<le> length (class_of b3 fm m rd hc (filter (\<lambda>f. P (candHash f m)) files) K H)"
    using two by (simp only: classes_kept [where P = P, OF assms(1) assms(2) two])
qed

text \<open>What a scan that meets no trouble is given.\<close>

definition calm :: "scan_env \<Rightarrow> bool" where
  "calm env \<longleftrightarrow> sc_spill env = (\<lambda>_. True) \<and> sc_log env = (\<lambda>_. True) \<and> sc_wr env = (\<lambda>_ _. True) \<and> sc_stop env = NoStop
     \<and> sc_panic env = Map.empty \<and> fair (le_orders (sc_lenv env)) \<and> 2 \<le> keyCounterTabBits (sc_sizes env) \<and> 0 < le_cap (sc_lenv env)"

definition walk_calls :: "scan_env \<Rightarrow> ScanReq \<Rightarrow> string set \<Rightarrow> path list \<Rightarrow> wcall list \<times> path list" where
  "walk_calls env req want roots =
     (let (calls, errs, rootOf) = walkStream ((sc_walk env)\<lparr>we_recurse := SR_Recurse req, we_withDirs := ''empty_folders'' \<in> want\<rparr>)
            (map Raw (fst (scanRoots (sc_resolve env) (SR_Recurse req) roots)))
      in (calls, rootOf))"

text \<open>The regular files of the walk that are not empty, as the log gives them back.\<close>

definition walk_files :: "scan_env \<Rightarrow> ScanReq \<Rightarrow> string set \<Rightarrow> path list \<Rightarrow> fEnt list" where
  "walk_files env req want roots =
     (let (calls, rootOf) = walk_calls env req want roots
      in map (rec_ent (map Some [0..<length rootOf]) rootOf) (map log_rec (visited calls)))"

definition run_store :: "scan_env \<Rightarrow> 32 word \<Rightarrow> hashCache" where
  "run_store env g =
     (if g \<noteq> 0 then loadHashCacheResume (le_sizes (sc_lenv env)) (fst (sc_store env)) (snd (sc_store env)) g
      else loadHashCache (le_sizes (sc_lenv env)) (fst (sc_store env)) (snd (sc_store env)))"

definition walk_fits :: "scan_env \<Rightarrow> ScanReq \<Rightarrow> string set \<Rightarrow> path list \<Rightarrow> bool" where
  "walk_fits env req want roots \<longleftrightarrow>
     (let (calls, rootOf) = walk_calls env req want roots; vs = visited calls in
      (\<forall>v \<in> set vs. rec_ok (log_rec v) \<and> named (SR_Match req) v) \<and> length vs \<le> le_maxInt (sc_lenv env) \<and> length vs \<le> dupKeyFileCap)"

definition dup_classes :: "scan_env \<Rightarrow> ScanReq \<Rightarrow> 32 word \<Rightarrow> fEnt list \<Rightarrow> gostring \<Rightarrow> gostring \<Rightarrow> fEnt list" where
  "dup_classes env req g files K H =
     class_of (le_b3 (sc_lenv env)) (le_fm (sc_lenv env)) (SR_Match req) (plain_reads (le_rd (sc_lenv env))) (Some (run_store env g)) files K H"

lemma candidates_files:
  "map (rec_ent handles rootOf) (candidates c m recs) = filter (\<lambda>f. hot c (candHash f m)) (map (rec_ent handles rootOf) recs)"
  by (simp add: candidates_def o_def filter_map rec_ent_key)

lemma honest_sub: "honest_hashes b3 rd hc files \<Longrightarrow> set fs \<subseteq> set files \<Longrightarrow> honest_hashes b3 rd hc fs"
  unfolding honest_hashes_def by (meson subsetD)

text \<open>The content pass over the log of a walk.\<close>

lemma content_lists:
  assumes calm: "calm env" and recs: "holds_recs recs sp" "length recs \<le> le_maxInt (sc_lenv env)" "length recs \<le> dupKeyFileCap"
    "\<forall>r \<in> set recs. s_root r < length rootOf" and m: "\<not> MCreated (SR_Match req)"
  defines "files \<equiv> map (rec_ent (map Some [0..<length rootOf]) rootOf) recs"
  assumes agree: "keys_agree (le_fm (sc_lenv env)) (SR_Match req) files" and paths: "distinct (map f_path files)"
    and honest: "honest_hashes (le_b3 (sc_lenv env)) (plain_reads (le_rd (sc_lenv env))) (Some (run_store env g)) files"
    and run: "scanContent env req g rootOf (fold (kc_add (sc_sizes env)) (map (rec_key (SR_Match req)) recs) (newKeyCounterShare 1), cc, sp)
        res corrRes n = (ev, (res1, corr1, n1), fin)" and shown: "Truncated res1 = None"
  shows "fin \<and> (\<lambda>g. (GHash g, map row_place (GFiles g))) ` set (Groups res1)
     = {(H, map ent_place (sort_key f_path (dup_classes env req g files K H))) |K H. 2 \<le> length (dup_classes env req g files K H)}"
proof -
  let ?m = "SR_Match req" and ?le = "run_lenv env (SR_Match req) rootOf"
  let ?c = "fold (kc_add (sc_sizes env)) (map (rec_key ?m) recs) (newKeyCounterShare 1)"
  let ?cs = "candidates ?c ?m recs" and ?cap = "le_cap (sc_lenv env)" and ?hc = "Some (run_store env g)"
  let ?rd = "plain_reads (le_rd (sc_lenv env))" and ?fm = "le_fm (sc_lenv env)"
  let ?gs = "window_groups ?cap (le_orders (sc_lenv env)) (fst (window_hashed (le_sizes (sc_lenv env)) (le_orders (sc_lenv env))
      (le_b3 (sc_lenv env)) ?fm ?m ?rd (map (rec_ent (map Some [0..<length rootOf]) rootOf) ?cs) ?hc))"
  let ?st = "\<lparr>la_acc = newGroupTop ?cap, la_cache = ?hc, la_missing = 0\<rparr>"
  obtain out where d: "distil (le_maxInt (sc_lenv env)) (\<lambda>_. True) ?c ?m sp newSpill = Some (length ?cs, out)" "holds_recs ?cs out"
    using distil_Some [OF recs(1,2)] by blast
  have w: "sc_spill env 1" "sc_wr env 1 = (\<lambda>_. True)" using calm by (simp_all add: calm_def)
  have "length ?cs \<le> length recs" by (simp add: candidates_def)
  then have cs: "length ?cs \<le> dupKeyFileCap" using recs(3) by (rule order_trans)
  have cr: "\<forall>r \<in> set ?cs. s_root r < length (le_roots ?le)"
    using recs(4) by (auto simp: candidates_def untagged_def run_lenv_def)
  have "\<not> MCreated (le_match ?le)" using m by (simp add: run_lenv_def)
  from one_pass [OF d(2) cs cr this, of "sc_wrote env" ?st]
  obtain hc where hw: "hashCandidateWindows ?le (sc_wrote env) out (length ?cs) ?st
      = (\<lparr>la_acc = fold group_add ?gs (newGroupTop ?cap), la_cache = hc, la_missing = 0\<rparr>, None)"
    by (auto simp: run_lenv_def)
  let ?gf = "group_final ?fm (sc_captured env) (fold group_add ?gs (newGroupTop ?cap)) ?cap n"
  obtain ccs cerr where dc: "distilCandidates env ?m (corrRes \<noteq> None) ?c cc sp = Inr ((out, length ?cs), ccs, cerr)"
  proof -
    have "case distilCandidates env ?m (corrRes \<noteq> None) ?c cc sp of Inl e \<Rightarrow> False | Inr (a, b) \<Rightarrow> a = (out, length ?cs)"
      using d(1) w by (simp add: distilCandidates_def Let_def split: option.split)
    then show thesis using that by (auto split: sum.splits)
  qed
  have cap: "le_cap ?le = ?cap" "le_fm ?le = ?fm" "le_sizes ?le = le_sizes (sc_lenv env)" by (simp_all add: run_lenv_def)
  have store: "(if g \<noteq> 0 then loadHashCacheResume (le_sizes (sc_lenv env)) (fst (sc_store env)) (snd (sc_store env)) g
      else loadHashCache (le_sizes (sc_lenv env)) (fst (sc_store env)) (snd (sc_store env))) = run_store env g"
    by (simp add: run_store_def)
  have r: "fin" "Groups res1 = fst (fst ?gf)" "Truncated res1 = snd (fst ?gf)"
    using run dc hw unfolding scanContent_def Let_def fst_conv snd_conv cap store
    by (auto simp: case_prod_beta Let_def)
  from r(3) shown have "snd (fst ?gf) = None" by simp
  from group_final_complete [OF this] obtain all where all: "mset all = mset ?gs" "\<forall>g \<in> set all. g_extra g = 0 \<and> length (g_files g) \<le> ?cap"
    "fst (fst ?gf) = fst (final_groups ?fm (sc_captured env) ?cap 0 all n)" by blast
  have sall: "set all = set ?gs" using all(1) by (rule mset_eq_setD)
  have "(\<lambda>g. (GHash g, map row_place (GFiles g))) ` set (Groups res1) = (\<lambda>g. (g_hash g, map ent_place (g_files g))) ` set ?gs"
  proof -
    have fit: "\<forall>g \<in> set all. length (g_files g) \<le> ?cap" using all(2) by blast
    have "(\<lambda>g. (GHash g, map row_place (GFiles g))) ` set (Groups res1)
        = set (map (\<lambda>g. (GHash g, map row_place (GFiles g))) (fst (final_groups ?fm (sc_captured env) ?cap 0 all n)))"
      unfolding r(2) all(3) by (rule set_map [symmetric])
    also have "\<dots> = set (map (\<lambda>g. (g_hash g, map ent_place (g_files g))) all)" by (simp only: final_groups_place [OF fit])
    finally show ?thesis unfolding set_map sall .
  qed
  also have "\<dots> = (\<lambda>(H, fs, x). (H, map ent_place fs)) ` (\<lambda>g. (g_hash g, g_files g, g_extra g)) ` set ?gs"
    by (simp add: image_image)
  also have "\<dots> = {(H, map ent_place (sort_key f_path (dup_classes env req g files K H))) |K H. 2 \<le> length (dup_classes env req g files K H)}"
  proof -
    let ?fs = "map (rec_ent (map Some [0..<length rootOf]) rootOf) ?cs"
    have fs: "?fs = filter (\<lambda>f. hot ?c (candHash f ?m)) files" unfolding files_def by (rule candidates_files)
    have hot: "hot ?c k" if "2 \<le> count_list (map (\<lambda>f. candHash f ?m) files) k" for k
      using shared_key_hot [of "sc_sizes env" "map (rec_key ?m) recs" k 1] calm that
      by (simp add: files_def o_def rec_ent_key calm_def)
    have cls: "class_of (le_b3 (sc_lenv env)) ?fm ?m ?rd ?hc ?fs K H = dup_classes env req g files K H"
      if "2 \<le> length (dup_classes env req g files K H)" for K H
      unfolding fs dup_classes_def
    proof (rule classes_kept [where P = "hot ?c", OF agree])
      show "2 \<le> length (class_of (le_b3 (sc_lenv env)) ?fm ?m ?rd ?hc files K H)" using that by (simp only: dup_classes_def)
    qed (rule hot)
    have two: "2 \<le> length (class_of (le_b3 (sc_lenv env)) ?fm ?m ?rd ?hc ?fs K H) \<longleftrightarrow> 2 \<le> length (dup_classes env req g files K H)" for K H
      unfolding fs dup_classes_def by (rule classes_of_kept [where P = "hot ?c", OF agree]) (rule hot)
    have h: "honest_hashes (le_b3 (sc_lenv env)) ?rd ?hc ?fs" by (rule honest_sub [OF honest]) (unfold fs, rule filter_is_subset)
    have dist: "distinct (map f_path ?fs)" unfolding fs using paths by (rule distinct_map_filter)
    have fair: "fair (le_orders (sc_lenv env))" "0 < ?cap" using calm by (simp_all add: calm_def)
    note W = window_groups_classes [OF h dist fair(1) fair(2), where z = "le_sizes (sc_lenv env)" and fm = ?fm and m = ?m, THEN conjunct1]
    have extra: "length (class_of (le_b3 (sc_lenv env)) ?fm ?m ?rd ?hc ?fs K H) \<le> ?cap"
      if "2 \<le> length (class_of (le_b3 (sc_lenv env)) ?fm ?m ?rd ?hc ?fs K H)" for K H
    proof -
      have "(H, take ?cap (sort_key f_path (class_of (le_b3 (sc_lenv env)) ?fm ?m ?rd ?hc ?fs K H)),
          length (class_of (le_b3 (sc_lenv env)) ?fm ?m ?rd ?hc ?fs K H) - ?cap) \<in> (\<lambda>g. (g_hash g, g_files g, g_extra g)) ` set ?gs"
        unfolding W using that by blast
      then show ?thesis using all(2) sall by fastforce
    qed
    show ?thesis unfolding W
    proof (intro set_eqI iffI)
      fix x assume "x \<in> (\<lambda>(H, fs, x). (H, map ent_place fs)) ` {(H, take ?cap (sort_key f_path (class_of (le_b3 (sc_lenv env)) ?fm ?m ?rd ?hc ?fs K H)),
          length (class_of (le_b3 (sc_lenv env)) ?fm ?m ?rd ?hc ?fs K H) - ?cap) |K H. 2 \<le> length (class_of (le_b3 (sc_lenv env)) ?fm ?m ?rd ?hc ?fs K H)}"
      then obtain K H where "2 \<le> length (class_of (le_b3 (sc_lenv env)) ?fm ?m ?rd ?hc ?fs K H)"
        "x = (H, map ent_place (take ?cap (sort_key f_path (class_of (le_b3 (sc_lenv env)) ?fm ?m ?rd ?hc ?fs K H))))" by auto
      then show "x \<in> {(H, map ent_place (sort_key f_path (dup_classes env req g files K H))) |K H. 2 \<le> length (dup_classes env req g files K H)}"
        using extra [of K H] two [of K H] cls [of K H] by auto
    next
      fix x assume "x \<in> {(H, map ent_place (sort_key f_path (dup_classes env req g files K H))) |K H. 2 \<le> length (dup_classes env req g files K H)}"
      then obtain K H where x: "2 \<le> length (dup_classes env req g files K H)" "x = (H, map ent_place (sort_key f_path (dup_classes env req g files K H)))" by blast
      let ?C = "class_of (le_b3 (sc_lenv env)) ?fm ?m ?rd ?hc ?fs K H"
      have c: "2 \<le> length ?C" "x = (H, map ent_place (take ?cap (sort_key f_path ?C)))"
        using x two [of K H] cls [of K H] extra [of K H] by auto
      show "x \<in> (\<lambda>(H, fs, x). (H, map ent_place fs)) ` {(H, take ?cap (sort_key f_path (class_of (le_b3 (sc_lenv env)) ?fm ?m ?rd ?hc ?fs K H)),
          length (class_of (le_b3 (sc_lenv env)) ?fm ?m ?rd ?hc ?fs K H) - ?cap) |K H. 2 \<le> length (class_of (le_b3 (sc_lenv env)) ?fm ?m ?rd ?hc ?fs K H)}"
        by (rule rev_image_eqI [of "(H, take ?cap (sort_key f_path ?C), length ?C - ?cap)"]) (use c in auto)
    qed
  qed
  finally show ?thesis using r(1) by blast
qed

definition listed :: "toolResult \<Rightarrow> (gostring \<times> (path \<times> gostring) list) set" where
  "listed res = (\<lambda>g. (GHash g, map row_place (GFiles g))) ` set (Groups res)"

lemma applyCrtimes_listed: "listed (applyCrtimes fm fetch res) = listed res" "Truncated (applyCrtimes fm fetch res) = Truncated res"
proof -
  have p: "row_place (set_created fm ct f) = row_place f" for ct f
    by (simp add: set_created_def row_place_def split: option.split)
  show "listed (applyCrtimes fm fetch res) = listed res"
    by (auto simp: applyCrtimes_def listed_def Let_def image_image o_def p)
  show "Truncated (applyCrtimes fm fetch res) = Truncated res" by (simp add: applyCrtimes_def Let_def)
qed

lemma fetchCreatedDates_listed:
  "fetchCreatedDates env res corr = (res1, corr1) \<Longrightarrow> listed res1 = listed res \<and> Truncated res1 = Truncated res"
proof -
  have w: "listed (with_error e r) = listed r" "Truncated (with_error e r) = Truncated r" for e r
    by (simp_all add: with_error_def listed_def)
  show "fetchCreatedDates env res corr = (res1, corr1) \<Longrightarrow> ?thesis"
    by (auto simp: fetchCreatedDates_def Let_def w applyCrtimes_listed split: option.splits if_splits)
qed

lemma run_calm:
  "(\<And>t p. (t, p) \<in> set ps \<Longrightarrow> panics t = None \<and> (\<forall>n. snd (snd (p n)))) \<Longrightarrow> (t, p) \<in> set ps
    \<Longrightarrow> \<exists>n'. set (fst (p n')) \<subseteq> set (fst (run_passes panics ps n))"
proof (induction ps arbitrary: n)
  case (Cons tp ps)
  obtain t1 p1 where tp: "tp = (t1, p1)" by fastforce
  obtain ev n1 go where p1: "p1 n = (ev, n1, go)" by (metis prod.collapse)
  have calm: "panics t1 = None" "go" using Cons.prems(1) [of t1 p1] tp p1 by (auto dest: spec [of _ n])
  then have run: "fst (run_passes panics (tp # ps) n) = ev @ fst (run_passes panics ps n1)"
    by (simp add: tp p1 case_prod_beta)
  show ?case
  proof (cases "(t, p) = tp")
    case True
    then have "fst (p n) = ev" using tp p1 by simp
    then show ?thesis using run by (intro exI [of _ n]) simp
  next
    case False
    have ps: "\<And>t p. (t, p) \<in> set ps \<Longrightarrow> panics t = None \<and> (\<forall>n. snd (snd (p n)))" by (rule Cons.prems(1)) simp
    have "(t, p) \<in> set ps" using Cons.prems(2) False by simp
    from Cons.IH [OF ps this] have "\<exists>n'. set (fst (p n')) \<subseteq> set (fst (run_passes panics ps n1))" by blast
    then show ?thesis using run by auto
  qed
qed simp


lemma image_second: "(x, y) \<in> (\<lambda>g. (f g, h g)) ` A \<Longrightarrow> y \<in> h ` A"
  by auto


end
