(* ===== verification/ScanServer.thy ===== *)
theory ScanServer
  imports ScanRun MoveVet
begin

text \<open>
  The scan as the server sees it: who may start one (\<open>scanAdmissionLocked\<close>, \<open>handleScan\<close>,
  \<open>validateRoots\<close>), the reference folders (\<open>handleRefs\<close>), a stop (\<open>handleCancel\<close>), the
  claim of a move (\<open>beginMove\<close>, \<open>endMove\<close>), what a run does to the server and to the marker and the
  state files on disk (\<open>runScan\<close> with its deferred end), and the next start of the daemon
  (\<open>runDaemon\<close>).  \<open>server/handlers.go\<close>, \<open>server/daemon.go\<close>,
  \<open>server/scan.go\<close>.  The body of a run is that of theory ScanRun; its events are applied one by one, so a
  crash is a prefix of them.
\<close>

subsection \<open>The server around a scan\<close>

record jobState =
  j_Running :: bool
  j_Tool :: string
  j_Tools :: "string list"
  j_cancel :: bool

record scanEnd =
  se_Tool :: string
  se_Tools :: "string list"
  se_Completed :: bool

record scan_server =
  ss_core :: pserver
  ss_job :: jobState
  ss_moveActive :: bool
  ss_lastEnd :: scanEnd
  ss_interrupted :: "scanMarker option"

definition idle_job :: jobState where
  "idle_job = \<lparr>j_Running = False, j_Tool = [], j_Tools = [], j_cancel = False\<rparr>"

definition scanAdmissionLocked :: "scan_server \<Rightarrow> gostring" where
  "scanAdmissionLocked s =
     (if j_Running (ss_job s) then ''a scan is already running''
      else if ss_moveActive s then ''a move is running '' @ em_dash @ '' wait for it to finish before scanning''
      else [])"

definition beginMove :: "scan_server \<Rightarrow> bool \<times> scan_server" where
  "beginMove s = (if j_Running (ss_job s) then (False, s) else (True, s\<lparr>ss_moveActive := True\<rparr>))"

definition endMove :: "scan_server \<Rightarrow> scan_server" where
  "endMove s = s\<lparr>ss_moveActive := False\<rparr>"

subsection \<open>Requests\<close>

text \<open>A session is given by its share table (as \<open>shareSpacePath\<close> reads it) and what \<open>getInfo\<close>
  answers.\<close>

record roots_session =
  rs_space :: "path \<Rightarrow> path option"
  rs_info :: "path list \<Rightarrow> gostring + (path \<rightharpoonup> fsEntry)"

definition validateRoots :: "roots_session \<Rightarrow> path list \<Rightarrow> path list \<Rightarrow> gostring option" where
  "validateRoots se roots canonRoots =
     (case List.find (\<lambda>(c, r). rs_space se c = None) (zip canonRoots roots) of
        Some (c, r) \<Rightarrow> Some (''scan roots must be inside a shared folder: '' @ r)
      | None \<Rightarrow>
          (let shares = List.map_filter (rs_space se) canonRoots; byShare = map_of (rev (zip shares roots)) in
           case rs_info se shares of
             Inl e \<Rightarrow> Some e
           | Inr info \<Rightarrow>
               (case List.find (\<lambda>sp. case info sp of None \<Rightarrow> True | Some e \<Rightarrow> \<not> fs_exists e \<or> \<not> FIsDir e) shares of
                  Some sp \<Rightarrow> Some (''not a folder: '' @ (case byShare sp of None \<Rightarrow> [] | Some r \<Rightarrow> r))
                | None \<Rightarrow> None)))"

text \<open>The roots of a request, each resolved; the first that cannot be is the answer.\<close>

fun canonical_roots :: "(path \<Rightarrow> string + path) \<Rightarrow> path list \<Rightarrow> gostring + path list" where
  "canonical_roots resolve [] = Inr []"
| "canonical_roots resolve (d # ds) =
     (case resolve d of
        Inl e \<Rightarrow> Inl e
      | Inr c \<Rightarrow> (case canonical_roots resolve ds of Inl e \<Rightarrow> Inl e | Inr cs \<Rightarrow> Inr (c # cs)))"

datatype scan_reply = Refused nat gostring | Started

definition tool_text :: "(string \<Rightarrow> gostring) \<Rightarrow> tool_err \<Rightarrow> gostring" where
  "tool_text quoted e =
     (case e of UnknownTool t \<Rightarrow> ''unknown tool '' @ quoted t | NoTool \<Rightarrow> ''choose at least one tool to scan for'')"

text \<open>What a request has to pass before it can be admitted: the tools, the roots.  \<open>None\<close> is a
  body that cannot be decoded.\<close>

definition vetScan ::
  "(path \<Rightarrow> string + path) \<Rightarrow> (string \<Rightarrow> gostring) \<Rightarrow> roots_session option \<Rightarrow> ScanReq option
    \<Rightarrow> gostring + ScanReq \<times> string list \<times> path list" where
  "vetScan resolve quoted sess body =
     (case body of
        None \<Rightarrow> Inl ''bad request body''
      | Some req \<Rightarrow>
          (case toolList req of
             Inl e \<Rightarrow> Inl (tool_text quoted e)
           | Inr tools \<Rightarrow>
               (let roots = uniquePaths (SR_Dirs req @ SR_RefDirs req) in
                if roots = [] then Inl ''add at least one folder to the scope''
                else (case canonical_roots resolve roots of
                    Inl e \<Rightarrow> Inl e
                  | Inr canon \<Rightarrow>
                      (case sess of
                         None \<Rightarrow> Inl ''an active DSM session is required''
                       | Some se \<Rightarrow> (case validateRoots se roots canon of Some e \<Rightarrow> Inl e | None \<Rightarrow> Inr (req, tools, roots)))))))"

definition resume_gen :: "scanMarker option \<Rightarrow> ScanReq \<Rightarrow> 32 word" where
  "resume_gen interrupted req =
     (case interrupted of
        None \<Rightarrow> 0
      | Some m \<Rightarrow> if SR_Resume req \<and> marker_matches m req then of_int (sm_Gen m) else 0)"

text \<open>\<open>handleScan\<close>: the reply, the server and the run it starts, given by its roots and the
  generation to continue.\<close>

definition handleScan ::
  "(path \<Rightarrow> string + path) \<Rightarrow> (string \<Rightarrow> gostring) \<Rightarrow> roots_session option \<Rightarrow> ScanReq option \<Rightarrow> scan_server
    \<Rightarrow> scan_reply \<times> scan_server \<times> (path list \<times> 32 word) option" where
  "handleScan resolve quoted sess body s =
     (case vetScan resolve quoted sess body of
        Inl e \<Rightarrow> (Refused 400 e, s, None)
      | Inr (req, tools, roots) \<Rightarrow>
          if scanAdmissionLocked s \<noteq> [] then (Refused 409 (scanAdmissionLocked s), s, None)
          else (Started,
                s\<lparr>ss_job := \<lparr>j_Running = True, j_Tool = openTool req tools, j_Tools = tools, j_cancel = True\<rparr>, ss_interrupted := None\<rparr>,
                Some (roots, resume_gen (ss_interrupted s) req)))"

datatype refs_reply = RefsRefused nat gostring | RefsSet "path list"

definition handleRefs ::
  "writes \<Rightarrow> (string set \<Rightarrow> string list) \<Rightarrow> string \<Rightarrow> (path \<Rightarrow> string + path) \<Rightarrow> roots_session option \<Rightarrow> path list option
    \<Rightarrow> scan_server \<Rightarrow> statedir \<Rightarrow> refs_reply \<times> scan_server \<times> statedir" where
  "handleRefs w keys now resolve sess body s d =
     (case body of
        None \<Rightarrow> (RefsRefused 400 ''bad request body'', s, d)
      | Some refs \<Rightarrow>
          (let dirs = uniquePaths refs in
           case canonical_roots resolve dirs of
             Inl e \<Rightarrow> (RefsRefused 400 e, s, d)
           | Inr canon \<Rightarrow>
               (case sess of
                  None \<Rightarrow> (RefsRefused 400 ''an active DSM session is required'', s, d)
                | Some se \<Rightarrow>
                    (case (if dirs = [] then None else validateRoots se dirs canon) of
                       Some e \<Rightarrow> (RefsRefused 400 e, s, d)
                     | None \<Rightarrow>
                         if j_Running (ss_job s)
                         then (RefsRefused 409 (''a scan is running '' @ em_dash @ '' change the reference folders when it finishes''), s, d)
                         else (let core = invalidateDerivedLocked ((ss_core s)\<lparr>rs_refDirs := dirs\<rparr>);
                                   (core1, d1) = save_noting w keys now core d
                               in (RefsSet dirs, s\<lparr>ss_core := core1\<rparr>, d1))))))"

text \<open>\<open>handleCancel\<close>: whether there was a scan to stop; closing the channel happens once.\<close>

definition handleCancel :: "bool \<Rightarrow> scan_server \<Rightarrow> bool option \<times> scan_server" where
  "handleCancel session s =
     (if \<not> session then (None, s)
      else if j_Running (ss_job s) \<and> j_cancel (ss_job s) then (Some True, s\<lparr>ss_job := (ss_job s)\<lparr>j_cancel := False\<rparr>\<rparr>)
      else (Some False, s))"

subsection \<open>A run\<close>

definition publish :: "string \<Rightarrow> ScanReq \<Rightarrow> toolResult \<Rightarrow> pserver \<Rightarrow> pserver" where
  "publish now req res c =
     (let c1 = invalidateDerivedLocked
                 (c\<lparr>rs_results := (rs_results c)(Tool res \<mapsto> res\<lparr>Scanned := now\<rparr>), rs_refDirs := uniquePaths (SR_RefDirs req)\<rparr>)
      in if Tool res = ''duplicates'' then c1\<lparr>sv_keepers := {}\<rparr> else c1)"

fun apply_event :: "writes \<Rightarrow> string \<Rightarrow> ScanReq \<Rightarrow> scan_event \<Rightarrow> scan_server \<times> statedir \<Rightarrow> scan_server \<times> statedir" where
  "apply_event w now req (Publish res) (s, d) = (s\<lparr>ss_core := publish now req res (ss_core s)\<rparr>, d)"
| "apply_event w now req (Mark g) (s, d) = (s, writeMarker w (sv_dir (ss_core s)) req (uint g) now d)"

text \<open>The result a panic leaves for the tool whose pass it ended.\<close>

definition panic_events :: "RootMap list \<Rightarrow> string list \<Rightarrow> run_end \<Rightarrow> scan_event list" where
  "panic_events kept errs e =
     (case e of
        RunPanicked t m \<Rightarrow> if t = [] then [] else [Publish (with_error (''internal error: '' @ m) (newResult kept errs t))]
      | _ \<Rightarrow> [])"

definition run_events :: "scan_env \<Rightarrow> ScanReq \<Rightarrow> 32 word \<Rightarrow> string list \<Rightarrow> path list \<Rightarrow> nat \<Rightarrow> scan_event list \<times> nat \<times> run_end" where
  "run_events env req resumeGen tools roots n =
     (let (ev, n1, e) = scan_body env req resumeGen tools roots n;
          (ws, kept, errs, rootOf) = scan_walk env req (set tools) roots
      in (ev @ panic_events kept errs e, n1, e))"

text \<open>The deferred end: the books, the save, the marker, the job.  \<open>removed\<close> and
  \<open>overwritten\<close> are the outcomes of clearing the marker.\<close>

definition scan_end ::
  "writes \<Rightarrow> bool \<Rightarrow> bool \<Rightarrow> (string set \<Rightarrow> string list) \<Rightarrow> string \<Rightarrow> ScanReq \<Rightarrow> string list \<Rightarrow> bool \<Rightarrow> bool
    \<Rightarrow> scan_server \<times> statedir \<Rightarrow> scan_server \<times> statedir" where
  "scan_end w removed overwritten keys now req tools completed any = (\<lambda>(s, d).
     (let core = (if any then (ss_core s)\<lparr>sv_lastTool := openTool req tools, rs_refDirs := uniquePaths (SR_RefDirs req)\<rparr> else ss_core s);
          s1 = s\<lparr>ss_core := core, ss_lastEnd := \<lparr>se_Tool = sv_lastTool core, se_Tools = tools, se_Completed = completed\<rparr>\<rparr>
      in if any
         then (case saveState w keys now core d of
             ((core1, d1), Some e) \<Rightarrow> (s1\<lparr>ss_core := noteSaveError e core1, ss_job := idle_job\<rparr>, d1)
           | ((core1, d1), None) \<Rightarrow> (s1\<lparr>ss_core := core1, ss_job := idle_job\<rparr>, clearMarker removed overwritten (sv_dir core1) d1))
         else (s1\<lparr>ss_job := idle_job\<rparr>, clearMarker removed overwritten (sv_dir core) d)))"

text \<open>A run up to its \<open>k\<close>-th event, and the whole of it.\<close>

definition scan_upto ::
  "writes \<Rightarrow> string \<Rightarrow> scan_env \<Rightarrow> ScanReq \<Rightarrow> 32 word \<Rightarrow> string list \<Rightarrow> path list \<Rightarrow> nat \<Rightarrow> scan_server \<times> statedir \<Rightarrow> scan_server \<times> statedir" where
  "scan_upto w now env req resumeGen tools roots k = (\<lambda>(s, d).
     (let (evs, n1, e) = run_events env req resumeGen tools roots (nat (sv_nextID (ss_core s)))
      in fold (apply_event w now req) (take k evs)
           (s\<lparr>ss_core := (ss_core s)\<lparr>sv_nextID := int n1\<rparr>\<rparr>, writeMarker w (sv_dir (ss_core s)) req 0 now d)))"

definition runScan ::
  "writes \<Rightarrow> bool \<Rightarrow> bool \<Rightarrow> (string set \<Rightarrow> string list) \<Rightarrow> string \<Rightarrow> scan_env \<Rightarrow> ScanReq \<Rightarrow> path list \<Rightarrow> 32 word
    \<Rightarrow> scan_server \<times> statedir \<Rightarrow> scan_server \<times> statedir" where
  "runScan w removed overwritten keys now env req roots resumeGen = (\<lambda>(s, d).
     (case toolList req of
        Inl _ \<Rightarrow> (s\<lparr>ss_job := idle_job\<rparr>, d)
      | Inr tools \<Rightarrow>
          (let (evs, n1, e) = run_events env req resumeGen tools roots (nat (sv_nextID (ss_core s)))
           in scan_end w removed overwritten keys now req tools (e \<noteq> RunStopped) (published evs \<noteq> [])
                (scan_upto w now env req resumeGen tools roots (length evs) (s, d)))))"

text \<open>The next start of the daemon on the directory (the parts of \<open>runDaemon\<close> that keep state; the
  replay of the move journal is theory Journal's).\<close>

definition blank_scan_server :: "bool \<Rightarrow> scan_server" where
  "blank_scan_server dir =
     \<lparr>ss_core = blank_server dir, ss_job = idle_job, ss_moveActive = False,
      ss_lastEnd = \<lparr>se_Tool = [], se_Tools = [], se_Completed = False\<rparr>, ss_interrupted = None\<rparr>"

definition start_daemon ::
  "writes \<Rightarrow> (string set \<Rightarrow> string list) \<Rightarrow> string \<Rightarrow> (nat \<Rightarrow> nat) \<Rightarrow> bool \<Rightarrow> statedir \<Rightarrow> scan_server \<times> statedir" where
  "start_daemon w keys now lower dir d =
     (let (core, d1) = loadState w keys now lower (blank_server dir) d; core1 = loadMoveReport core d1
      in ((blank_scan_server dir)\<lparr>ss_core := core1, ss_interrupted := loadMarker dir d1\<rparr>, d1))"

subsection \<open>Scans and moves\<close>

text \<open>The daemon with its threads: how many runs there are, and where the holder of \<open>moveMu\<close> is.\<close>

datatype mover = MIdle | MLocked | MClaimed | MDone

record daemon_sys =
  y_srv :: scan_server
  y_scans :: nat
  y_mover :: mover

text \<open>Whatever else the handlers change of the results and the settings, at any time, is \<open>Core\<close>.\<close>

inductive daemon_step :: "daemon_sys \<Rightarrow> daemon_sys \<Rightarrow> bool" where
  Admit: "handleScan resolve quoted sess body (y_srv y) = (Started, s, run) \<Longrightarrow> daemon_step y (y\<lparr>y_srv := s, y_scans := y_scans y + 1\<rparr>)"
| Event: "0 < y_scans y \<Longrightarrow> daemon_step y (y\<lparr>y_srv := fst (apply_event w now req ev (y_srv y, d))\<rparr>)"
| Over: "0 < y_scans y \<Longrightarrow>
     daemon_step y (y\<lparr>y_srv := fst (scan_end w rm ov keys now req tools c p (y_srv y, d)), y_scans := y_scans y - 1\<rparr>)"
| Stop: "daemon_step y (y\<lparr>y_srv := snd (handleCancel session (y_srv y))\<rparr>)"
| Refs: "daemon_step y (y\<lparr>y_srv := fst (snd (handleRefs w keys now resolve sess refs (y_srv y) d))\<rparr>)"
| Core: "daemon_step y (y\<lparr>y_srv := (y_srv y)\<lparr>ss_core := c\<rparr>\<rparr>)"
| Lock: "y_mover y = MIdle \<Longrightarrow> daemon_step y (y\<lparr>y_mover := MLocked\<rparr>)"
| Claim: "y_mover y = MLocked \<Longrightarrow> beginMove (y_srv y) = (True, s) \<Longrightarrow> daemon_step y (y\<lparr>y_srv := s, y_mover := MClaimed\<rparr>)"
| Busy: "y_mover y = MLocked \<Longrightarrow> beginMove (y_srv y) = (False, s) \<Longrightarrow> daemon_step y (y\<lparr>y_srv := s, y_mover := MIdle\<rparr>)"
| Release: "y_mover y = MClaimed \<Longrightarrow> daemon_step y (y\<lparr>y_srv := endMove (y_srv y), y_mover := MDone\<rparr>)"
| Unlock: "y_mover y = MDone \<Longrightarrow> daemon_step y (y\<lparr>y_mover := MIdle\<rparr>)"
| Restart: "daemon_step y \<lparr>y_srv = fst (start_daemon w keys now lower dir d), y_scans = 0, y_mover = MIdle\<rparr>"

definition apart :: "daemon_sys \<Rightarrow> bool" where
  "apart y \<longleftrightarrow> y_scans y = (if j_Running (ss_job (y_srv y)) then 1 else 0) \<and> ss_moveActive (y_srv y) = (y_mover y = MClaimed)
     \<and> \<not> (j_Running (ss_job (y_srv y)) \<and> ss_moveActive (y_srv y))"

lemma vetScan_req: "vetScan resolve quoted sess body = Inr (req, tools, roots) \<Longrightarrow> body = Some req"
  by (simp add: vetScan_def Let_def split: option.splits sum.splits if_splits)

lemma handleScan_started:
  assumes "handleScan resolve quoted sess body s = (Started, s1, run)"
  shows "\<not> j_Running (ss_job s)" "\<not> ss_moveActive s" "j_Running (ss_job s1)" "\<not> ss_moveActive s1"
    "\<exists>req roots. body = Some req \<and> run = Some (roots, resume_gen (ss_interrupted s) req)"
proof -
  obtain req tools roots where v: "vetScan resolve quoted sess body = Inr (req, tools, roots)"
    using assms by (cases "vetScan resolve quoted sess body") (auto simp: handleScan_def)
  have a: "scanAdmissionLocked s = []" using assms v by (simp add: handleScan_def split: if_splits)
  show "\<not> j_Running (ss_job s)" "\<not> ss_moveActive s" using a by (simp_all add: scanAdmissionLocked_def split: if_splits)
  then show "j_Running (ss_job s1)" "\<not> ss_moveActive s1" using assms v a by (auto simp: handleScan_def)
  show "\<exists>req roots. body = Some req \<and> run = Some (roots, resume_gen (ss_interrupted s) req)"
    using assms v a vetScan_req [OF v] by (auto simp: handleScan_def)
qed

lemma apply_event_flags:
  "ss_job (fst (apply_event w now req ev (s, d))) = ss_job s" "ss_moveActive (fst (apply_event w now req ev (s, d))) = ss_moveActive s"
  by (cases ev; simp)+

lemma scan_end_flags:
  "ss_job (fst (scan_end w rm ov keys now req tools c p (s, d))) = idle_job"
  "ss_moveActive (fst (scan_end w rm ov keys now req tools c p (s, d))) = ss_moveActive s"
  by (auto simp: scan_end_def Let_def split: prod.split option.split)

lemma handleRefs_flags:
  "ss_job (fst (snd (handleRefs w keys now resolve sess refs s d))) = ss_job s"
  "ss_moveActive (fst (snd (handleRefs w keys now resolve sess refs s d))) = ss_moveActive s"
  by (auto simp: handleRefs_def Let_def split: option.split sum.split prod.split)

lemma start_flags:
  "ss_job (fst (start_daemon w keys now lower dir d)) = idle_job" "\<not> ss_moveActive (fst (start_daemon w keys now lower dir d))"
  by (simp_all add: start_daemon_def case_prod_beta Let_def blank_scan_server_def)

lemma apart_step: "daemon_step y y' \<Longrightarrow> apart y \<Longrightarrow> apart y'"
proof (induction rule: daemon_step.induct)
  case (Admit resolve quoted sess body y s run)
  then show ?case using handleScan_started [OF Admit.hyps] by (auto simp: apart_def)
next
  case (Over y w rm ov keys now req tools c p d)
  then show ?case by (auto simp: apart_def scan_end_flags idle_job_def split: if_splits)
next
  case (Claim y s)
  then show ?case by (auto simp: apart_def beginMove_def split: if_splits)
next
  case (Busy y s)
  then show ?case by (auto simp: apart_def beginMove_def split: if_splits)
qed (auto simp: apart_def apply_event_flags handleRefs_flags handleCancel_def endMove_def start_flags idle_job_def)

text \<open>C38. Scans and moves never overlap, and there is never a second scan: whatever requests come, in whatever
  order their handlers, the running scan and the move interleave, and however often the daemon is restarted, at most one run
  is in flight, and none while a move holds its claim.\<close>

theorem scans_and_moves_apart:
  assumes "daemon_step\<^sup>*\<^sup>* \<lparr>y_srv = fst (start_daemon w keys now lower dir d), y_scans = 0, y_mover = MIdle\<rparr> y"
  shows "y_scans y \<le> 1 \<and> \<not> (0 < y_scans y \<and> y_mover y = MClaimed)"
proof -
  have "apart y" using assms
  proof (induction rule: rtranclp_induct)
    case base
    then show ?case by (simp add: apart_def start_flags idle_job_def)
  qed (rule apart_step)
  then show ?thesis by (auto simp: apart_def split: if_splits)
qed

subsection \<open>A run that is cut off\<close>

definition live_gen :: "scan_event list \<Rightarrow> 32 word" where
  "live_gen evs = fold (\<lambda>e g. case e of Mark h \<Rightarrow> h | Publish r \<Rightarrow> g) evs 0"

definition same_request :: "ScanReq \<Rightarrow> ScanReq \<Rightarrow> bool" where
  "same_request req req' \<longleftrightarrow> toolList req' = toolList req \<and> SR_Recurse req' = SR_Recurse req \<and> SR_Match req' = SR_Match req
     \<and> Clean ` set (SR_Dirs req') = Clean ` set (SR_Dirs req) \<and> Clean ` set (SR_RefDirs req') = Clean ` set (SR_RefDirs req)"

lemma apply_events_marker:
  assumes "w_marker w = Wrote" "sv_dir (ss_core s)"
  shows "sd_marker d = Some (Doc (marker_of req (uint g) now)) \<Longrightarrow>
      sd_marker (snd (fold (apply_event w now req) evs (s, d)))
        = Some (Doc (marker_of req (uint (fold (\<lambda>e g. case e of Mark h \<Rightarrow> h | Publish r \<Rightarrow> g) evs g)) now))
      \<and> sv_dir (ss_core (fst (fold (apply_event w now req) evs (s, d))))"
  using assms(2)
proof (induction evs arbitrary: s d g)
  case (Cons ev evs)
  show ?case
  proof (cases ev)
    case (Publish res)
    have "sv_dir (publish now req res (ss_core s))" using Cons.prems(2) by (simp add: publish_def Let_def invalidateDerivedLocked_def)
    then show ?thesis using Cons.IH [of d g "s\<lparr>ss_core := publish now req res (ss_core s)\<rparr>"] Cons.prems(1) Publish by simp
  next
    case (Mark h)
    have "sd_marker (writeMarker w True req (uint h) now d) = Some (Doc (marker_of req (uint h) now))"
      using assms(1) by (simp add: writeMarker_def writeAtomic_def)
    then show ?thesis using Cons.IH [of "writeMarker w True req (uint h) now d" h s] Cons.prems(2) Mark by simp
  qed
qed simp

lemma marker_tool: "toolList req = Inr tools \<Longrightarrow> sm_Tool (marker_of req g now) \<noteq> []"
proof -
  assume t: "toolList req = Inr tools"
  then have "tools \<noteq> []" "set tools \<subseteq> set scanOrder" by (auto simp: toolList_def Let_def split: option.splits if_splits)
  then have "tools \<noteq> []" "[] \<notin> set tools" by (auto simp: scanOrder_def)
  then have "openTool req tools \<noteq> []" by (auto simp: openTool_def split: list.splits)
  then show ?thesis using t by (simp add: marker_of_def Let_def)
qed

lemma save_noting_marker: "sd_marker (snd (save_noting w keys now sv d)) = sd_marker d"
proof -
  have "sd_marker (fst (saveRecords w r d)) = sd_marker d" for r
    by (simp add: saveRecords_def case_prod_beta Let_def split: option.split)
  then have "sd_marker (fst (write_state w snap d)) = sd_marker d" for snap
    by (simp add: write_state_def case_prod_beta split: option.split)
  then show ?thesis by (simp add: save_noting_def saveState_def case_prod_beta split: option.split)
qed

lemma start_files_marker: "sd_marker (snd (snd (snd (start_files w d)))) = sd_marker d"
  by (simp add: start_files_def loadRecords_def case_prod_beta Let_def)

lemma start_interrupted:
  "ss_interrupted (fst (start_daemon w keys now lower True d)) = loadMarker True d"
proof -
  obtain ps settled must d2 where f: "start_files w d = (ps, settled, must, d2)" by (metis prod.collapse)
  have "sd_marker (snd (loadState w keys now lower (blank_server True) d)) = sd_marker d"
    using start_files_marker [of w d] save_noting_marker f by (simp add: loadState_def blank_server_def Let_def)
  then show ?thesis by (simp add: start_daemon_def case_prod_beta Let_def blank_scan_server_def loadMarker_def)
qed

text \<open>What a start with that marker hands on to the next run.\<close>

lemma handed_on:
  assumes "toolList req = Inr tools" "sd_marker d = Some (Doc (marker_of req (uint g) now))"
    and "handleScan resolve quoted sess (Some req') (fst (start_daemon w' keys now' lower True d)) = (Started, s2, Some (roots', g'))"
  shows "g' = (if SR_Resume req' \<and> same_request req req' then g else 0)"
proof -
  have "loadMarker True d = Some (marker_of req (uint g) now)" using assms(2) marker_tool [OF assms(1)] by (simp add: loadMarker_def)
  then have i: "ss_interrupted (fst (start_daemon w' keys now' lower True d)) = Some (marker_of req (uint g) now)"
    by (simp add: start_interrupted)
  have m: "marker_matches (marker_of req (uint g) now) req' \<longleftrightarrow> same_request req req'"
    unfolding marker_matches_same [OF assms(1)] same_request_def assms(1) ..
  have "sm_Gen (marker_of req (uint g) now) = uint g" by (simp add: marker_of_def Let_def)
  then show ?thesis using handleScan_started(5) [OF assms(3)] by (auto simp: i m resume_gen_def)
qed

lemma scan_upto_marker:
  assumes "w_marker w = Wrote" "sv_dir (ss_core s)"
  shows "sd_marker (snd (scan_upto w now env req g tools roots k (s, d)))
     = Some (Doc (marker_of req (uint (live_gen (take k (fst (run_events env req g tools roots (nat (sv_nextID (ss_core s)))))))) now))"
    and "sv_dir (ss_core (fst (scan_upto w now env req g tools roots k (s, d))))"
proof -
  let ?s = "s\<lparr>ss_core := (ss_core s)\<lparr>sv_nextID := int (fst (snd (run_events env req g tools roots (nat (sv_nextID (ss_core s))))))\<rparr>\<rparr>"
  let ?d = "writeMarker w (sv_dir (ss_core s)) req 0 now d"
  have dir: "sv_dir (ss_core ?s)" using assms(2) by simp
  have "sd_marker ?d = Some (Doc (marker_of req (uint (0 :: 32 word)) now))"
    using assms by (simp add: writeMarker_def writeAtomic_def)
  from apply_events_marker [OF assms(1) dir this, of "take k (fst (run_events env req g tools roots (nat (sv_nextID (ss_core s)))))"]
  show "sd_marker (snd (scan_upto w now env req g tools roots k (s, d)))
     = Some (Doc (marker_of req (uint (live_gen (take k (fst (run_events env req g tools roots (nat (sv_nextID (ss_core s)))))))) now))"
    and "sv_dir (ss_core (fst (scan_upto w now env req g tools roots k (s, d))))"
    by (simp_all add: scan_upto_def case_prod_beta live_gen_def)
qed

text \<open>C39. A scan the daemon dies in can be resumed, as itself and as nothing else: wherever a run is cut off
  before its end, the next start finds its marker, and a scan then admitted continues the store's generation the dead run was
  recording under (none if it had not opened the store) exactly when it asks to resume and asks for the same tools, recursion,
  criteria and folders; any other scan reads everything afresh.\<close>

theorem cut_off_scan_resumes:
  assumes "toolList req = Inr tools" "w_marker w = Wrote" "sv_dir (ss_core s)"
    and "scan_upto w now env req g tools roots k (s, d) = (s1, d1)"
    and "handleScan resolve quoted sess (Some req') (fst (start_daemon w' keys now' lower True d1)) = (Started, s2, Some (roots', g'))"
  shows "g' = (if SR_Resume req' \<and> same_request req req'
     then live_gen (take k (fst (run_events env req g tools roots (nat (sv_nextID (ss_core s)))))) else 0)"
  by (rule handed_on [where now = now, OF assms(1) _ assms(5)]) (use scan_upto_marker(1) [where now = now and env = env and req = req and g = g and tools = tools and roots = roots
      and k = k and d = d, OF assms(2,3)] assms(4) in simp)

subsection \<open>A run that ends\<close>

lemma all_saved: "snd (saveState all_written keys now sv d) = None"
  by (simp add: saveState_def write_state_def saveRecords_def writeAtomic_def all_written_def case_prod_beta Let_def split: option.split)

lemma cleared: "removed \<or> overwritten \<Longrightarrow> loadMarker True (clearMarker removed overwritten True d) = None"
  by (auto simp: clearMarker_def loadMarker_def empty_marker_def)

lemma saveState_keeps:
  "sv_dir (fst (fst (saveState w keys now sv d))) = sv_dir sv" "sv_keepers (fst (fst (saveState w keys now sv d))) = sv_keepers sv"
  "rs_results (fst (fst (saveState w keys now sv d))) = rs_results sv" "rs_refDirs (fst (fst (saveState w keys now sv d))) = rs_refDirs sv"
  "rs_moveOut (fst (fst (saveState w keys now sv d))) = rs_moveOut sv" "sv_lastTool (fst (fst (saveState w keys now sv d))) = sv_lastTool sv"
  by (simp_all add: saveState_def case_prod_beta split: option.split)

lemma noteSaveError_keeps:
  "sv_dir (noteSaveError e sv) = sv_dir sv" "sv_keepers (noteSaveError e sv) = sv_keepers sv" "rs_results (noteSaveError e sv) = rs_results sv"
  "rs_refDirs (noteSaveError e sv) = rs_refDirs sv" "rs_moveOut (noteSaveError e sv) = rs_moveOut sv" "sv_lastTool (noteSaveError e sv) = sv_lastTool sv"
  by (simp_all add: noteSaveError_def)

lemma scan_end_keeps:
  "sv_keepers (ss_core (fst (scan_end w rm ov keys now req tools c any (s, d)))) = sv_keepers (ss_core s)"
  "rs_results (ss_core (fst (scan_end w rm ov keys now req tools c any (s, d)))) = rs_results (ss_core s)"
  "rs_moveOut (ss_core (fst (scan_end w rm ov keys now req tools c any (s, d)))) = rs_moveOut (ss_core s)"
  "\<not> any \<Longrightarrow> ss_core (fst (scan_end w rm ov keys now req tools c any (s, d))) = ss_core s"
  "se_Completed (ss_lastEnd (fst (scan_end w rm ov keys now req tools c any (s, d)))) = c"
  by (simp_all add: scan_end_def Let_def case_prod_beta saveState_keeps noteSaveError_keeps split: option.split)

text \<open>A scan that ended is never continued: when its results are saved and its marker is removed (or, when it
  cannot be removed, made void), whatever way the run ended, the next start hands on no generation, so that every later scan
  reads everything afresh.\<close>

theorem ended_scan_not_resumed:
  assumes "toolList req = Inr tools" "sv_dir (ss_core s)" "removed \<or> overwritten"
    and "runScan all_written removed overwritten keys now env req roots g (s, d) = (s1, d1)"
    and "handleScan resolve quoted sess body (fst (start_daemon w' keys' now' lower True d1)) = (Started, s2, Some (roots', g'))"
  shows "g' = 0"
proof -
  obtain evs n1 e where r: "run_events env req g tools roots (nat (sv_nextID (ss_core s))) = (evs, n1, e)" by (metis prod.collapse)
  obtain su du where u: "scan_upto all_written now env req g tools roots (length evs) (s, d) = (su, du)" by fastforce
  have "sv_dir (ss_core su)"
    using scan_upto_marker(2) [where w = all_written and s = s and now = now and env = env and req = req and g = g and tools = tools
        and roots = roots and k = "length evs" and d = d] assms(2) u by (simp add: all_written_def)
  then have "loadMarker True d1 = None"
    using assms(1,3,4) r u all_saved cleared [OF assms(3)]
    by (auto simp: runScan_def scan_end_def Let_def case_prod_beta saveState_keeps split: option.splits if_splits)
  then show ?thesis using handleScan_started(5) [OF assms(5)] by (auto simp: start_interrupted resume_gen_def)
qed

text \<open>But when the save at the end of a completed run fails its marker stays on purpose, and with it the generation:
  the next start offers to resume a scan that had run to its end, and its reads are taken for the new scan's own.\<close>

theorem completed_scan_resumed:
  assumes "toolList req = Inr tools" "sv_dir (ss_core s)" "run_events env req g tools roots (nat (sv_nextID (ss_core s))) = (evs, n1, RunDone)"
    and "published evs \<noteq> []"
    and "runScan (all_written\<lparr>w_state := NotWritten e\<rparr>) removed overwritten keys now env req roots g (s, d) = (s1, d1)"
    and "handleScan resolve quoted sess (Some req') (fst (start_daemon w' keys' now' lower True d1)) = (Started, s2, Some (roots', g'))"
  shows "se_Completed (ss_lastEnd s1) \<and> g' = (if SR_Resume req' \<and> same_request req req' then live_gen evs else 0)"
proof
  let ?w = "all_written\<lparr>w_state := NotWritten e\<rparr>"
  obtain su du where u: "scan_upto ?w now env req g tools roots (length evs) (s, d) = (su, du)" by fastforce
  have m: "sd_marker du = Some (Doc (marker_of req (uint (live_gen evs)) now))" "sv_dir (ss_core su)"
    using scan_upto_marker [where w = ?w and s = s and now = now and env = env and req = req and g = g and tools = tools
        and roots = roots and k = "length evs" and d = d] assms(2,3) u by (simp_all add: all_written_def)
  have run: "(s1, d1) = scan_end ?w removed overwritten keys now req tools True True (su, du)"
    using assms(1,3-5) u by (simp add: runScan_def)
  show "se_Completed (ss_lastEnd s1)" using scan_end_keeps(5) run by (metis fst_conv)
  let ?c = "(ss_core su)\<lparr>sv_lastTool := openTool req tools, rs_refDirs := uniquePaths (SR_RefDirs req)\<rparr>"
  have fail: "snd (saveState ?w keys now ?c du) = Some e"
    using m(2) by (simp add: saveState_def write_state_def saveRecords_def writeAtomic_def all_written_def case_prod_beta Let_def split: option.split)
  have "sd_marker (snd (fst (saveState ?w keys now ?c du))) = sd_marker du"
    using save_noting_marker [of ?w keys now ?c du] fail by (simp add: save_noting_def case_prod_beta)
  then have "sd_marker d1 = sd_marker du" using run fail by (simp add: scan_end_def Let_def case_prod_beta)
  then show "g' = (if SR_Resume req' \<and> same_request req req' then live_gen evs else 0)"
    using handed_on [where now = now, OF assms(1) _ assms(6)] m(1) by simp
qed

text \<open>What the events of a run leave of the server.\<close>

lemma publish_keeps:
  "rs_moveOut (publish now req res c) = rs_moveOut c"
  "sv_keepers (publish now req res c) = (if Tool res = ''duplicates'' then {} else sv_keepers c)"
  "rs_results (publish now req res c) = (rs_results c)(Tool res \<mapsto> res\<lparr>Scanned := now\<rparr>)"
  by (simp_all add: publish_def invalidateDerivedLocked_def Let_def)

lemma events_keep:
  "rs_moveOut (ss_core (fst (fold (apply_event w now req) evs sd))) = rs_moveOut (ss_core (fst sd))
   \<and> sv_keepers (ss_core (fst (fold (apply_event w now req) evs sd))) = (if ''duplicates'' \<in> set (published evs) then {} else sv_keepers (ss_core (fst sd)))
   \<and> (\<forall>t. t \<notin> set (published evs) \<longrightarrow> rs_results (ss_core (fst (fold (apply_event w now req) evs sd))) t = rs_results (ss_core (fst sd)) t)
   \<and> (published evs = [] \<longrightarrow> ss_core (fst (fold (apply_event w now req) evs sd)) = ss_core (fst sd))"
proof (induction evs arbitrary: sd)
  case (Cons ev evs)
  show ?case
  proof (cases ev)
    case (Publish res)
    show ?thesis using Cons.IH [of "apply_event w now req ev sd"] Publish by (cases sd) (auto simp: publish_keeps)
  next
    case (Mark g)
    show ?thesis using Cons.IH [of "apply_event w now req ev sd"] Mark by (cases sd) simp
  qed
qed simp

lemma runScan_core:
  assumes "toolList req = Inr tools" "run_events env req g tools roots (nat (sv_nextID (ss_core s))) = (evs, n1, e)"
  shows "\<exists>d0. ss_core (fst (runScan w rm ov keys now env req roots g (s, d)))
     = ss_core (fst (scan_end w rm ov keys now req tools (e \<noteq> RunStopped) (published evs \<noteq> [])
         (fold (apply_event w now req) evs (s\<lparr>ss_core := (ss_core s)\<lparr>sv_nextID := int n1\<rparr>\<rparr>, d0))))"
  using assms by (auto simp: runScan_def scan_upto_def)

text \<open>C40. A run changes nothing but what it publishes: however it ends, the results of all other tools and the record
  of moved-out files are as before, the recorded survivors are forgotten only when a duplicates result is published, and a
  run that publishes nothing (one stopped during its walk, say) leaves results, reference folders, survivors and the tool
  last opened exactly as they were.\<close>

theorem run_touches_only_published:
  assumes "toolList req = Inr tools" "run_events env req g tools roots (nat (sv_nextID (ss_core s))) = (evs, n1, e)"
    and "runScan w rm ov keys now env req roots g (s, d) = (s1, d1)"
  shows "rs_moveOut (ss_core s1) = rs_moveOut (ss_core s)
    \<and> (\<forall>t. t \<notin> set (published evs) \<longrightarrow> rs_results (ss_core s1) t = rs_results (ss_core s) t)
    \<and> (''duplicates'' \<notin> set (published evs) \<longrightarrow> sv_keepers (ss_core s1) = sv_keepers (ss_core s))
    \<and> (published evs = [] \<longrightarrow> ss_core s1 = (ss_core s)\<lparr>sv_nextID := int n1\<rparr>)"
proof -
  obtain d0 where c: "ss_core s1 = ss_core (fst (scan_end w rm ov keys now req tools (e \<noteq> RunStopped) (published evs \<noteq> [])
      (fold (apply_event w now req) evs (s\<lparr>ss_core := (ss_core s)\<lparr>sv_nextID := int n1\<rparr>\<rparr>, d0))))"
    using runScan_core [OF assms(1,2), of w rm ov keys now d] assms(3) by auto
  obtain sf df where f: "fold (apply_event w now req) evs (s\<lparr>ss_core := (ss_core s)\<lparr>sv_nextID := int n1\<rparr>\<rparr>, d0) = (sf, df)" by fastforce
  note K = events_keep [of w now req evs "(s\<lparr>ss_core := (ss_core s)\<lparr>sv_nextID := int n1\<rparr>\<rparr>, d0)", unfolded f fst_conv]
  note E = scan_end_keeps [where s = sf and d = df]
  have "published evs = [] \<longrightarrow> ss_core (fst (scan_end w rm ov keys now req tools (e \<noteq> RunStopped) (published evs \<noteq> []) (sf, df)))
      = (ss_core s)\<lparr>sv_nextID := int n1\<rparr>"
    using K E(4) [where any = "published evs \<noteq> []"] by auto
  then show ?thesis unfolding c f using K E(1-3) by simp
qed

text \<open>A duplicates result that is only an error message counts as fresh groups: a scan that could not even begin
  (the walk log cannot be created) forgets the recorded survivors, the copies that must stay because the others were moved
  away, and lists no group that would protect them.\<close>

theorem failed_scan_forgets_survivors:
  assumes "toolList req = Inr tools" "''duplicates'' \<in> set tools" "\<not> sc_spill env 0"
    and "runScan w rm ov keys now env req roots g (s, d) = (s1, d1)"
  shows "sv_keepers (ss_core s1) = {} \<and> (\<exists>res. rs_results (ss_core s1) ''duplicates'' = Some res \<and> Groups res = [])"
proof -
  let ?n = "nat (sv_nextID (ss_core s))"
  obtain ws kept errs rootOf where w: "scan_walk env req (set tools) roots = (ws, kept, errs, rootOf)" by (metis prod.collapse)
  let ?err = "\<lambda>t. with_error (aborted (''cannot create the scan spill file: '' @ sc_reason env 0))
      (newResult kept (root_errors (snd (scanRoots (sc_resolve env) (SR_Recurse req) roots))) t)"
  have ct: "contentTools (set tools) = ''duplicates'' # (if ''corrupted_files'' \<in> set tools then [''corrupted_files''] else [])"
    using assms(2) by (simp add: contentTools_def)
  have r: "run_events env req g tools roots ?n = (map (\<lambda>t. Publish (?err t)) (contentTools (set tools)), ?n, RunDone)"
    using assms(3) by (simp add: run_events_def scan_body_def w ct panic_events_def Let_def)
  obtain d0 where c: "ss_core s1 = ss_core (fst (scan_end w rm ov keys now req tools True
      (published (map (\<lambda>t. Publish (?err t)) (contentTools (set tools))) \<noteq> [])
      (fold (apply_event w now req) (map (\<lambda>t. Publish (?err t)) (contentTools (set tools))) (s\<lparr>ss_core := (ss_core s)\<lparr>sv_nextID := int ?n\<rparr>\<rparr>, d0))))"
    using runScan_core [OF assms(1) r, of w rm ov keys now d] assms(4) by auto
  obtain sf df where f: "fold (apply_event w now req) (map (\<lambda>t. Publish (?err t)) (contentTools (set tools)))
      (s\<lparr>ss_core := (ss_core s)\<lparr>sv_nextID := int ?n\<rparr>\<rparr>, d0) = (sf, df)" by fastforce
  have "sv_keepers (ss_core sf) = {} \<and> (\<exists>res. rs_results (ss_core sf) ''duplicates'' = Some res \<and> Groups res = [])"
    using arg_cong [OF f, of fst] by (auto simp: ct publish_keeps newResult_def with_error_def zero_toolResult_def split: if_splits)
  then show ?thesis unfolding c f using scan_end_keeps [where s = sf and d = df] by simp
qed

subsection \<open>Instances\<close>

definition ex_session :: roots_session where
  "ex_session = \<lparr>rs_space = Some,
     rs_info = (\<lambda>_. Inr (\<lambda>sp. Some \<lparr>FIsDir = True, Code = 0, FSize = 0, Mtime = 0\<rparr>))\<rparr>"

lemma ex_vet: "vetScan Inr id (Some ex_session) (Some (ex_scan_req [''temp_files'']\<lparr>SR_Resume := r\<rparr>))
  = Inr (ex_scan_req [''temp_files'']\<lparr>SR_Resume := r\<rparr>, [''temp_files''], [''/v/d''])"
  by code_simp

lemma ex_admit:
  assumes "ss_job s = idle_job" "\<not> ss_moveActive s"
  shows "\<exists>s2 g'. handleScan Inr id (Some ex_session) (Some (ex_scan_req [''temp_files'']\<lparr>SR_Resume := r\<rparr>)) s = (Started, s2, Some ([''/v/d''], g'))"
  using assms by (simp add: handleScan_def ex_vet scanAdmissionLocked_def idle_job_def)

theorem scans_and_moves_apart_witness:
  "\<exists>y. y_mover y = MClaimed \<and> daemon_step\<^sup>*\<^sup>*
      \<lparr>y_srv = fst (start_daemon all_written sorted_list_of_set ''now'' id True no_files), y_scans = 0, y_mover = MIdle\<rparr> y
    \<and> y_scans y = 0"
proof -
  let ?s = "fst (start_daemon all_written sorted_list_of_set ''now'' id True no_files)"
  let ?y = "\<lparr>y_srv = ?s, y_scans = 0, y_mover = MIdle\<rparr>"
  let ?z = "?y\<lparr>y_mover := MLocked\<rparr>"
  have "daemon_step ?y ?z" by (rule daemon_step.Lock) simp
  moreover have "beginMove (y_srv ?z) = (True, ?s\<lparr>ss_moveActive := True\<rparr>)" by (simp add: beginMove_def start_flags idle_job_def)
  then have "daemon_step ?z (?z\<lparr>y_srv := ?s\<lparr>ss_moveActive := True\<rparr>, y_mover := MClaimed\<rparr>)" by (rule daemon_step.Claim [rotated]) simp
  ultimately have r: "daemon_step\<^sup>*\<^sup>* ?y (?z\<lparr>y_srv := ?s\<lparr>ss_moveActive := True\<rparr>, y_mover := MClaimed\<rparr>)" by simp
  from scans_and_moves_apart [OF r] r show ?thesis by (intro exI conjI) auto
qed

theorem cut_off_scan_resumes_witness:
  "\<exists>s2 g'. handleScan Inr id (Some ex_session) (Some (ex_scan_req [''temp_files'']\<lparr>SR_Resume := True\<rparr>))
      (fst (start_daemon all_written sorted_list_of_set ''later'' id True
        (snd (scan_upto all_written ''now'' ex_scan (ex_scan_req [''temp_files'']) 0 [''temp_files''] [''/v/d''] 1 (blank_scan_server True, no_files)))))
    = (Started, s2, Some ([''/v/d''], g'))
   \<and> g' = live_gen (take 1 (fst (run_events ex_scan (ex_scan_req [''temp_files'']) 0 [''temp_files''] [''/v/d''] 0)))"
proof -
  let ?req = "ex_scan_req [''temp_files'']"
  let ?d = "snd (scan_upto all_written ''now'' ex_scan ?req 0 [''temp_files''] [''/v/d''] 1 (blank_scan_server True, no_files))"
  obtain s2 g' where h: "handleScan Inr id (Some ex_session) (Some (?req\<lparr>SR_Resume := True\<rparr>))
      (fst (start_daemon all_written sorted_list_of_set ''later'' id True ?d)) = (Started, s2, Some ([''/v/d''], g'))"
    using ex_admit [OF start_flags, of True] by blast
  have t: "toolList ?req = Inr [''temp_files'']" and t': "toolList (?req\<lparr>SR_Resume := True\<rparr>) = Inr [''temp_files'']" by code_simp+
  have same: "SR_Resume (?req\<lparr>SR_Resume := True\<rparr>)" "same_request ?req (?req\<lparr>SR_Resume := True\<rparr>)"
    using t t' by (simp_all add: same_request_def)
  have b: "w_marker all_written = Wrote" "sv_dir (ss_core (blank_scan_server True))" "nat (sv_nextID (ss_core (blank_scan_server True))) = 0"
    by (simp_all add: all_written_def blank_scan_server_def blank_server_def)
  from cut_off_scan_resumes [OF t b(1,2) prod.collapse [symmetric] h] same b(3) h show ?thesis by simp
qed

theorem run_touches_only_published_witness:
  "rs_moveOut (ss_core (fst (runScan all_written True True sorted_list_of_set ''now'' ex_scan (ex_scan_req [''temp_files'']) [''/v/d''] 0
     ((blank_scan_server True)\<lparr>ss_core := (blank_server True)\<lparr>rs_moveOut := {''/v/x''}\<rparr>\<rparr>, no_files)))) = {''/v/x''}"
proof -
  let ?s = "(blank_scan_server True)\<lparr>ss_core := (blank_server True)\<lparr>rs_moveOut := {''/v/x''}\<rparr>\<rparr>"
  have t: "toolList (ex_scan_req [''temp_files'']) = Inr [''temp_files'']" by code_simp
  obtain evs n1 e where r: "run_events ex_scan (ex_scan_req [''temp_files'']) 0 [''temp_files''] [''/v/d''] (nat (sv_nextID (ss_core ?s))) = (evs, n1, e)"
    by (metis prod.collapse)
  from run_touches_only_published [OF t r prod.collapse [symmetric]] show ?thesis by simp
qed

end
