(* ===== verification/Spec2Isabelle.thy ===== *)
theory Spec2Isabelle
  imports Prelude Utf8 GoPath Paths TempFiles ByteSafe Model KeepOne SelfMount MoveVet BatchSafety
    Decimal MoveOut Journal FsCalls MoveFlow MoveOutcome MoveRules MoveJournal Transit TransitSafety
    MoveExec MoveBatch Binary KeyCounter HashStore BoundedTop Entries StreamTop Spill GroupTop Grouping Walk EmptyFolders EmptySpec
    MediaFile PngCheck BoxTree GoTime ExifDate HeifDate QtDate CompareFiles Containers PdfStreams VerifyFile
    CorruptSet JudgeSet CorruptWindow SkewSpill CorruptPass ResultQuery ResultPages Persist ScanRun ScanFinds ScanServer
begin

text \<open>
  A model of the server of Duplicate Finder, a file tool for Synology NAS devices written in Go
  (\<open>src/server\<close>).  A scan walks the volumes, keeps what its tools look for (duplicates, empty folders,
  empty files, temporary files, corrupted files) and lists it; a move request then takes listed files to a folder the
  user chose, through File Station, the NAS's own file service.  The program never deletes, and never overwrites; the
  development is about why.

  \<^bold>\<open>How the parts fit together.\<close>  A scan request names roots and tools (\<^bold>\<open>Walk\<close>:
  \<open>scanRoots\<close>, \<open>toolList\<close>, \<open>walkStream\<close> of \<open>walk.go\<close>, \<open>scan.go\<close>,
  \<open>handlers.go\<close>).  The walk calls its accumulators entry by entry: the empty-folder scan
  (\<^bold>\<open>EmptyFolders\<close>, a stack machine, \<open>emptyfolders.go\<close>), the bounded listings of the flat tools
  (\<^bold>\<open>StreamTop\<close>, \<open>stream.go\<close>), and for duplicates a counter of candidate keys
  (\<^bold>\<open>KeyCounter\<close>) with a log of everything seen (\<^bold>\<open>Spill\<close>).  The log is distilled with the counter,
  cut into windows, and each window is read, grouped by content (\<^bold>\<open>Grouping\<close>, \<open>duplicates.go\<close>) with
  the help of the hash store (\<^bold>\<open>HashStore\<close>, \<open>hashcache.go\<close>) and folded into the bounded group
  accumulator (\<^bold>\<open>GroupTop\<close>).  A move request is vetted against the result (\<^bold>\<open>MoveVet\<close>,
  \<^bold>\<open>KeepOne\<close>, \<open>move.go\<close>; \<^bold>\<open>SelfMount\<close>, \<open>selfmount.go\<close>;
  \<^bold>\<open>Paths\<close>, \<open>paths.go\<close>), and executed entry by entry (\<^bold>\<open>MoveExec\<close>) through the File
  Station client (\<^bold>\<open>FsCalls\<close>, \<^bold>\<open>MoveFlow\<close>, \<open>fsapi.go\<close>) or, across file systems,
  by a verified copy (\<^bold>\<open>Transit\<close>, \<open>transit.go\<close>), under a write-ahead journal
  (\<^bold>\<open>Journal\<close>, \<open>journal.go\<close>); landed files enter the record of moved copies
  (\<^bold>\<open>MoveOut\<close>, \<open>moveout.go\<close>), which later keep-one decisions consult.

  \<^bold>\<open>Theories and what their lemmas show.\<close>

  \<^item> \<^bold>\<open>Prelude\<close>, \<^bold>\<open>Utf8\<close>, \<^bold>\<open>GoPath\<close>, \<^bold>\<open>Decimal\<close>,
    \<^bold>\<open>Binary\<close>: the parts of Go's library the program uses (byte strings and \<open>strings\<close>; UTF-8;
    \<open>filepath\<close>; decimal numbers; fixed and variable-length binary integers, hexadecimal text and FNV), with the
    round trips and inversion rules the components share.
  \<^item> \<^bold>\<open>Paths\<close>, \<^bold>\<open>TempFiles\<close>, \<^bold>\<open>ByteSafe\<close>: containment is containment of
    components and the resolver's cache is transparent; backup names are never junk by their ending; names that are not
    UTF-8 survive JSON byte for byte.
  \<^item> \<^bold>\<open>Model\<close>: the result structures of \<open>model.go\<close> as records.
  \<^item> \<^bold>\<open>KeepOne\<close>, \<^bold>\<open>MoveVet\<close>, \<^bold>\<open>BatchSafety\<close>, \<^bold>\<open>SelfMount\<close>:
    whatever set of vetted files a request moves, every group keeps a copy, an original while there is one, and with
    verification an intact one; only listed files move; mounts of the machine's own shares are refused.  Keep-one reads
    the copies that stay through the interface \<open>intact_reader\<close>, interpreted by the memoised reader of
    \<open>checkStaying\<close> and by the trusting one.
  \<^item> \<^bold>\<open>FsCalls\<close>, \<^bold>\<open>MoveFlow\<close>, \<^bold>\<open>MoveOutcome\<close>, \<^bold>\<open>MoveRules\<close>,
    \<^bold>\<open>MoveJournal\<close>: the File Station client as functions of a record of raw calls over an arbitrary world.
    Under laws stating what File Station does (\<open>honest\<close>), what a move reports tells where the entry is; with a
    journal no request that can land an entry is made before the landing is durably announced; lost answers are waited
    for only boundedly long.
  \<^item> \<^bold>\<open>Transit\<close>, \<^bold>\<open>TransitSafety\<close>: across file systems the original is not touched before its
    copy was read back and found equal; folder manifests compare entry by entry.
  \<^item> \<^bold>\<open>MoveExec\<close>, \<^bold>\<open>MoveBatch\<close>, \<^bold>\<open>MoveOut\<close>, \<^bold>\<open>Journal\<close>: a
    verified move read the same content on both sides; a batch reports every file once and records every landing; the
    record survives renames; the replay of a journal cut anywhere by a crash protects every announced landing.
  \<^item> \<^bold>\<open>BoundedTop\<close>, \<^bold>\<open>Entries\<close>, \<^bold>\<open>StreamTop\<close>, \<^bold>\<open>GroupTop\<close>:
    Go's \<open>container/heap\<close> and the accumulators on it.  The interface \<open>ranking\<close> (a comparison given by a
    rank) is interpreted by path and by reclaimable space; from it, a bounded listing is the full sort cut at its limit,
    and the group accumulator gives what \<open>capDuplicateGroups\<close> gives on all groups.
  \<^item> \<^bold>\<open>Walk\<close>, \<^bold>\<open>EmptyFolders\<close>, \<^bold>\<open>EmptySpec\<close>: the walk over a tree as the
    sequence of calls its accumulators get; the stack machine implements the specification on trees (the topmost folders
    that hold nothing but junk).
  \<^item> \<^bold>\<open>KeyCounter\<close>, \<^bold>\<open>Spill\<close>, \<^bold>\<open>Grouping\<close>, \<^bold>\<open>HashStore\<close>: the
    counter misses no collision within fixed memory; the log reads back what was written; windows neither split a key nor
    lose a candidate; the groups are exactly the classes of equal key and content; the store serves only what this scan
    read, finds silent damage in the next one, and stays within its caps.

  \<^bold>\<open>State.\<close>  Mutable state is passed explicitly.  The world outside (File Station, the disk, the clock) is a
  type variable \<open>'w\<close> with its operations in records (\<open>dsm\<close>, \<open>osys\<close>), so that a lemma holds for
  every world that obeys the laws it names.  Go maps are functions, sets or association lists; where Go leaves the order
  of a loop open, the model goes through an arbitrary reordering or takes the list's order and a lemma shows that it does
  not matter.  Strings are byte lists.  Sizes and times are integers; 64-bit words are used where the code depends on the
  width (candidate keys, the packed counters, bit patterns in files, store generations).

  \<^bold>\<open>Bounds and fuel.\<close>  The polling of a task has no deadline in the code and runs on fuel (\<open>n\<close> in
  \<open>MoveFlow\<close> and above); \<open>None\<close> means it has not returned, and every statement about a result holds for
  every fuel.  \<open>lost_answers_end\<close> bounds the rounds where the code has a deadline (602 for the
  \<open>statusGiveUp\<close> of two minutes with delays of at least 200 ms).  The other bounds are the code's own constants:
  25 claims of a name, 10000 numbered names, 20 pages of 500 entries when a folder is confirmed, and the caps of listings
  and stores, which are parameters where the code has them as variables.

  \<^bold>\<open>Not modelled.\<close>  Goroutines and mutexes (operations are atomic; the workers' order is arbitrary), progress
  reports and cancellation; reading a file is a function from the file to its hash or a failure.
  \<open>sort.Slice\<close> is not stable: where it could matter the code's comparison is total or the statement is about
  ranks.  The Unicode tables above ASCII, time formatting, BLAKE3, JSON decoding and File Station itself are parameters.
  Not yet modelled: the content ladder for oversized keys (\<open>resolveSkewedKey\<close>), the corrupted-file checks and
  the media parsers (\<open>corrupt.go\<close>, \<open>internal/media\<close>), the result views (\<open>results.go\<close>),
  persistence and export (\<open>persist.go\<close>, \<open>records.go\<close>, \<open>export.go\<close>), the scan's own run
  (\<open>runScan\<close>), the vetting of the destination and the share listing of \<open>fsapi.go\<close>.  Left out for good:
  process start-up, HTTP routing, the CGI gateway, development fixtures and the platform shims, which are input and output
  around the parts above.
\<close>

end
